(* ===== verification/Prelude.thy ===== *)
theory Prelude
  imports Main "HOL-Library.Word" "HOL-Library.Monad_Syntax"
begin

text \<open>
  Shared vocabulary of the development: the machine integers of the kernel, Rust's \<open>Result\<close>,
  kernel functions that may panic, first-match search over a table, slices of byte arrays and
  little-endian encodings.

  Conventions used by every component theory.
  \<^item> A Rust function that can panic (\<open>assert!\<close>, \<open>expect\<close>, \<open>unwrap\<close>, an index out of
    range) returns an \<open>option\<close>; \<open>None\<close> is the panic.  The state is threaded explicitly.
  \<^item> A Rust \<open>Result<T, E>\<close> is a value of type \<open>('a, 'e) result\<close>.
  \<^item> Fixed arrays are lists, and the well-formedness predicate of the component fixes their length.
  \<^item> Arithmetic follows the release profile of the crate: machine words wrap around.
\<close>

section \<open>Machine integers and results\<close>

type_synonym u8 = "8 word"
type_synonym u16 = "16 word"
type_synonym u32 = "32 word"
type_synonym u64 = "64 word"
type_synonym usize = "64 word"

lemma unat_u8_less: "unat (w :: u8) < 256"
  using unsigned_less [of w, where 'a = nat] by simp

lemma unat_u32_less: "unat (w :: u32) < 4294967296"
  using unsigned_less [of w, where 'a = nat] by simp

lemma unat_usize_less: "unat (w :: usize) < 18446744073709551616"
  using unsigned_less [of w, where 'a = nat] by simp

text \<open>\<open>checked_add\<close> of an integer type and \<open>usize::saturating_sub\<close>.\<close>

definition checked_add :: "'w :: len word \<Rightarrow> 'w word \<Rightarrow> 'w word option" where
  "checked_add a b = (if a + b < a then None else Some (a + b))"

definition saturating_sub :: "usize \<Rightarrow> usize \<Rightarrow> usize" where
  "saturating_sub a b = (if b \<le> a then a - b else 0)"

lemma checked_add_overflow: "checked_add a b = None \<longleftrightarrow> unat a + unat b \<ge> 2 ^ LENGTH('w)" for a b :: "'w :: len word"
proof -
  let ?n = "unat a + unat b"
  have s: "unat (a + b) = ?n mod 2 ^ LENGTH('w)" by (rule unat_word_ariths)
  have l: "unat a < 2 ^ LENGTH('w)" "unat b < 2 ^ LENGTH('w)" by (rule unsigned_less)+
  show ?thesis
  proof (cases "?n < 2 ^ LENGTH('w)")
    case True
    then have "unat (a + b) = ?n" using s by simp
    then show ?thesis using True by (simp add: checked_add_def word_less_nat_alt)
  next
    case False
    then have "?n mod 2 ^ LENGTH('w) = (?n - 2 ^ LENGTH('w)) mod 2 ^ LENGTH('w)" by (simp add: le_mod_geq)
    then have "unat (a + b) = ?n - 2 ^ LENGTH('w)" using s l by simp
    then have "unat (a + b) < unat a" using False l by linarith
    then show ?thesis using False by (simp add: checked_add_def word_less_nat_alt)
  qed
qed

lemma checked_add_None: "checked_add a b = None \<longleftrightarrow> unat a + unat b \<ge> 18446744073709551616" for a b :: usize
  using checked_add_overflow [of a b] by simp

lemma checked_add_Some: "checked_add a b = Some c \<Longrightarrow> unat c = unat a + unat b" for a b :: "'w :: len word"
proof -
  assume c: "checked_add a b = Some c"
  then have "unat a + unat b < 2 ^ LENGTH('w)" using checked_add_overflow [of a b] by simp
  moreover have "c = a + b" using c by (simp add: checked_add_def split: if_splits)
  ultimately show ?thesis by (simp add: unat_word_ariths)
qed

lemma unat_saturating_sub: "unat (saturating_sub a b) = unat a - unat b"
  by (auto simp: saturating_sub_def unat_sub word_le_nat_alt)

datatype ('a, 'e) result = Ok 'a | Err 'e

fun is_ok :: "('a, 'e) result \<Rightarrow> bool" where
  "is_ok (Ok _) = True"
| "is_ok (Err _) = False"

fun map_err :: "('e \<Rightarrow> 'f) \<Rightarrow> ('a, 'e) result \<Rightarrow> ('a, 'f) result" where
  "map_err f (Ok v) = Ok v"
| "map_err f (Err e) = Err (f e)"

definition assert_that :: "bool \<Rightarrow> unit option" where
  "assert_that b = (if b then Some () else None)"

named_theorems slice_simps "facts about slices of byte arrays"
named_theorems table_simps "facts about tables of slots"

lemma assert_that_simps [simp]:
  "assert_that b = Some u \<longleftrightarrow> b"
  "assert_that b = None \<longleftrightarrow> \<not> b"
  by (auto simp: assert_that_def)

lemma bind_assert_that [simp]:
  "Option.bind (assert_that b) f = (if b then f () else None)"
  by (simp add: assert_that_def)

text \<open>A \<open>for\<close> loop whose body may panic.\<close>

fun foldO :: "('a \<Rightarrow> 's \<Rightarrow> 's option) \<Rightarrow> 'a list \<Rightarrow> 's \<Rightarrow> 's option" where
  "foldO f [] s = Some s"
| "foldO f (x # xs) s = do { s \<leftarrow> f x s; foldO f xs s }"

lemma foldO_append: "foldO f (xs @ ys) s = Option.bind (foldO f xs s) (foldO f ys)"
  by (induction xs arbitrary: s) (simp_all split: Option.bind_split)

section \<open>First matching slot of a table\<close>

text \<open>
  The index of the first element that satisfies a predicate: the loop
  \<open>for (i, x) in table.iter().enumerate() { if P(x) { return i } }\<close> which the kernel writes for its
  file table, descriptor table, process table and inode table.
\<close>

fun find_index :: "('a \<Rightarrow> bool) \<Rightarrow> 'a list \<Rightarrow> nat option" where
  "find_index P [] = None"
| "find_index P (x # xs) = (if P x then Some 0 else map_option Suc (find_index P xs))"

lemma find_index_Some_iff:
  "find_index P xs = Some i \<longleftrightarrow> i < length xs \<and> P (xs ! i) \<and> (\<forall>j < i. \<not> P (xs ! j))"
proof (induction xs arbitrary: i)
  case Nil
  then show ?case by simp
next
  case (Cons x xs)
  show ?case
    by (cases i) (auto simp: Cons.IH less_Suc_eq_0_disj split: if_splits)
qed

lemma find_index_None_iff: "find_index P xs = None \<longleftrightarrow> (\<forall>i < length xs. \<not> P (xs ! i))"
  by (induction xs) (auto simp: less_Suc_eq_0_disj)

lemma find_index_None_set: "find_index P xs = None \<longleftrightarrow> (\<forall>x \<in> set xs. \<not> P x)"
  by (simp add: find_index_None_iff all_set_conv_all_nth)

lemma find_index_SomeD:
  assumes "find_index P xs = Some i"
  shows "i < length xs" "P (xs ! i)" "j < i \<Longrightarrow> \<not> P (xs ! j)"
  using assms by (auto simp: find_index_Some_iff)

lemma find_index_exists: "i < length xs \<Longrightarrow> P (xs ! i) \<Longrightarrow> \<exists>k \<le> i. find_index P xs = Some k"
proof (induction xs arbitrary: i)
  case Nil
  then show ?case by simp
next
  case (Cons x xs)
  show ?case
  proof (cases i)
    case 0
    with Cons.prems show ?thesis by simp
  next
    case (Suc j)
    with Cons.prems Cons.IH [of j] show ?thesis by auto
  qed
qed

section \<open>Allocation of the first free slot\<close>

text \<open>
  Every fixed table of the kernel hands out its first free slot: \<open>File::alloc\<close>, \<open>fd_alloc\<close>,
  \<open>Disk::alloc_desc\<close>.  The locale states that contract once, and derives how often such an
  allocator can succeed.
\<close>

fun alloc_times :: "('s \<Rightarrow> (nat \<times> 's) option) \<Rightarrow> nat \<Rightarrow> 's \<Rightarrow> (nat list \<times> 's) option" where
  "alloc_times alloc 0 s = Some ([], s)"
| "alloc_times alloc (Suc n) s =
     do { (i, s1) \<leftarrow> alloc s; (is, s2) \<leftarrow> alloc_times alloc n s1; Some (i # is, s2) }"

locale slot_alloc =
  fixes wf :: "'s \<Rightarrow> bool"
    and cap :: nat
    and is_free :: "'s \<Rightarrow> nat \<Rightarrow> bool"
    and alloc :: "'s \<Rightarrow> (nat \<times> 's) option"
  assumes alloc_slot:
      "wf s \<Longrightarrow> alloc s = Some (i, s') \<Longrightarrow>
         wf s' \<and> i < cap \<and> is_free s i \<and> (\<forall>j < i. \<not> is_free s j) \<and>
         (\<forall>j < cap. is_free s' j \<longleftrightarrow> is_free s j \<and> j \<noteq> i)"
    and alloc_full: "wf s \<Longrightarrow> alloc s = None \<longleftrightarrow> (\<forall>i < cap. \<not> is_free s i)"
begin

lemma free_set_step:
  assumes "wf s" "alloc s = Some (i, s')"
  shows "{j. j < cap \<and> is_free s' j} = {j. j < cap \<and> is_free s j} - {i}"
  using alloc_slot [OF assms] by auto

lemma free_count_step:
  assumes "wf s" "alloc s = Some (i, s')"
  shows "card {j. j < cap \<and> is_free s j} = Suc (card {j. j < cap \<and> is_free s' j})"
proof -
  have i: "i \<in> {j. j < cap \<and> is_free s j}"
    using alloc_slot [OF assms] by simp
  show ?thesis
    unfolding free_set_step [OF assms]
    using i by (subst card_Suc_Diff1) auto
qed

lemma alloc_succeeds_iff:
  "wf s \<Longrightarrow> (\<exists>i s'. alloc s = Some (i, s')) \<longleftrightarrow> 0 < card {j. j < cap \<and> is_free s j}"
  using alloc_full [of s] by (auto simp: card_gt_0_iff)

lemma alloc_times_distinct:
  "wf s \<Longrightarrow> alloc_times alloc n s = Some (is, s') \<Longrightarrow>
     distinct is \<and> length is = n \<and> (\<forall>i \<in> set is. i < cap \<and> is_free s i) \<and> wf s' \<and>
     (\<forall>j < cap. is_free s' j \<longleftrightarrow> is_free s j \<and> j \<notin> set is)"
proof (induction n arbitrary: s "is")
  case 0
  then show ?case by simp
next
  case (Suc n)
  from Suc.prems(2) obtain i s1 is1 where
    a: "alloc s = Some (i, s1)" and b: "alloc_times alloc n s1 = Some (is1, s')" and eq: "is = i # is1"
    by (auto simp: bind_eq_Some_conv)
  note A = alloc_slot [OF Suc.prems(1) a]
  then have "wf s1" by simp
  note B = Suc.IH [OF this b]
  show ?case using A B by (auto simp: eq)
qed

lemma alloc_times_capacity:
  "wf s \<Longrightarrow> (\<exists>r. alloc_times alloc n s = Some r) \<longleftrightarrow> n \<le> card {j. j < cap \<and> is_free s j}"
proof (induction n arbitrary: s)
  case 0
  then show ?case by simp
next
  case (Suc n)
  show ?case
  proof (cases "alloc s")
    case None
    then have e: "{j. j < cap \<and> is_free s j} = {}"
      using alloc_full [OF Suc.prems] by auto
    show ?thesis unfolding e by (simp add: None)
  next
    case (Some p)
    obtain i s1 where p: "p = (i, s1)" by fastforce
    note step = Some [unfolded p]
    have "wf s1" using alloc_slot [OF Suc.prems step] by simp
    from Suc.IH [OF this] free_count_step [OF Suc.prems step]
    show ?thesis
      by (fastforce simp: step bind_eq_Some_conv)
  qed
qed

end

section \<open>Slices\<close>

text \<open>\<open>dst[off..off + n].copy_from_slice(src)\<close> for a source of length \<open>n\<close>.\<close>

definition splice :: "'a list \<Rightarrow> nat \<Rightarrow> 'a list \<Rightarrow> 'a list" where
  "splice xs off ys = take off xs @ ys @ drop (off + length ys) xs"

definition slice :: "'a list \<Rightarrow> nat \<Rightarrow> nat \<Rightarrow> 'a list" where
  "slice xs off n = take n (drop off xs)"

lemma length_splice [simp, slice_simps]:
  "off + length ys \<le> length xs \<Longrightarrow> length (splice xs off ys) = length xs"
  by (simp add: splice_def)

lemma length_slice [simp, slice_simps]:
  "off + n \<le> length xs \<Longrightarrow> length (slice xs off n) = n"
  by (simp add: slice_def)

lemma nth_splice [slice_simps]:
  assumes "off + length ys \<le> length xs" "i < length xs"
  shows "splice xs off ys ! i =
           (if off \<le> i \<and> i < off + length ys then ys ! (i - off) else xs ! i)"
  using assms by (auto simp: splice_def nth_append)

lemma nth_slice [slice_simps]:
  "off + n \<le> length xs \<Longrightarrow> i < n \<Longrightarrow> slice xs off n ! i = xs ! (off + i)"
  by (simp add: slice_def)

lemma slice_splice_same [simp, slice_simps]:
  "off + length ys \<le> length xs \<Longrightarrow> slice (splice xs off ys) off (length ys) = ys"
  by (simp add: slice_def splice_def)

lemma slice_splice_disjoint [slice_simps]:
  assumes "off + length ys \<le> length xs" "k + n \<le> length xs" "k + n \<le> off \<or> off + length ys \<le> k"
  shows "slice (splice xs off ys) k n = slice xs k n"
  using assms by (intro nth_equalityI) (auto simp: nth_slice nth_splice)

lemma splice_full [simp]: "length ys = length xs \<Longrightarrow> splice xs 0 ys = ys"
  by (simp add: splice_def)

section \<open>Little-endian encodings\<close>

fun le_bytes :: "nat \<Rightarrow> nat \<Rightarrow> u8 list" where
  "le_bytes 0 x = []"
| "le_bytes (Suc k) x = word_of_nat x # le_bytes k (x div 256)"

fun of_le :: "u8 list \<Rightarrow> nat" where
  "of_le [] = 0"
| "of_le (b # bs) = unat b + 256 * of_le bs"

lemma length_le_bytes [simp]: "length (le_bytes k x) = k"
  by (induction k arbitrary: x) auto

lemma of_le_bytes: "x < 256 ^ k \<Longrightarrow> of_le (le_bytes k x) = x"
proof (induction k arbitrary: x)
  case 0
  then show ?case by simp
next
  case (Suc k)
  have "x div 256 < 256 ^ k"
    using Suc.prems by (simp add: less_mult_imp_div_less mult.commute)
  then have "of_le (le_bytes k (x div 256)) = x div 256" by (rule Suc.IH)
  then show ?case by (simp add: unat_of_nat)
qed

lemma of_le_less: "of_le bs < 256 ^ length bs"
proof (induction bs)
  case Nil
  then show ?case by simp
next
  case (Cons b bs)
  have "unat b < 256" by (rule unat_u8_less)
  with Cons.IH show ?case by simp
qed

end
