(* ===== verification/Abi.thy ===== *)
theory Abi
  imports Prelude
begin

text \<open>
  Error values and the system call interface: the error enums of every subsystem with their
  conversions (\<open>kernel/src/error.rs\<close>, \<open>vm.rs\<close>, \<open>fs.rs\<close>, \<open>exec.rs\<close>, \<open>message.rs\<close>,
  \<open>virtio_disk.rs\<close>), the numeric error codes and system call numbers of \<open>kernel/src/syscall.rs\<close>,
  the way \<open>syscall()\<close> encodes a result in \<open>a0\<close> and the way \<open>check()\<close> of
  \<open>user/src/syscall.rs\<close> decodes it.
\<close>

section \<open>Errors\<close>

datatype VmError = VmAlloc | VmInvalidAddress | VmInvalidPage | VmInvalidPte | VmFs

datatype FsError =
    FsOutOfBlock | FsOutOfInode | FsOutOfFile | FsOutOfRange | FsOutOfPipe | FsInvalidName
  | FsRead | FsWrite | FsCreate | FsLink | FsResolve | FsType | FsCopy

datatype ExecError = ExecAlloc | ExecElf | ExecHeader | ExecRead | ExecMemory

datatype VirtioError = VirtioAlloc

datatype MessageError = MsgOutOfRange

datatype SysError =
    NotPermitted | NoEntry | NoProcess | Interrupted | IoError | InvalidExecutable
  | BadDescriptor | NoChildren | ResourceUnavailable | OutOfMemory | BadAddress | AlreadyExists
  | CrossDeviceLink | NotDirectory | IsDirectory | InvalidArgument | FileTableFull | TooManyFiles
  | NoSpace | TooManyLinks | BrokenPipe | NameTooLong | NotImplemented | NotEmpty

datatype KernelError =
    KAlloc | KInvalidArgument | KOutOfProc
  | KVm VmError | KSys SysError | KFs FsError | KExec ExecError | KVirtio VirtioError

fun as_code :: "SysError \<Rightarrow> u16" where
  "as_code NotPermitted = 1"
| "as_code NoEntry = 2"
| "as_code NoProcess = 3"
| "as_code Interrupted = 4"
| "as_code IoError = 5"
| "as_code InvalidExecutable = 8"
| "as_code BadDescriptor = 9"
| "as_code NoChildren = 10"
| "as_code ResourceUnavailable = 11"
| "as_code OutOfMemory = 12"
| "as_code BadAddress = 14"
| "as_code AlreadyExists = 17"
| "as_code CrossDeviceLink = 18"
| "as_code NotDirectory = 20"
| "as_code IsDirectory = 21"
| "as_code InvalidArgument = 22"
| "as_code FileTableFull = 23"
| "as_code TooManyFiles = 24"
| "as_code NoSpace = 28"
| "as_code TooManyLinks = 31"
| "as_code BrokenPipe = 32"
| "as_code NameTooLong = 36"
| "as_code NotImplemented = 38"
| "as_code NotEmpty = 39"

definition from_code :: "u16 \<Rightarrow> SysError" where
  "from_code code =
     (if code = 1 then NotPermitted
      else if code = 2 then NoEntry
      else if code = 3 then NoProcess
      else if code = 4 then Interrupted
      else if code = 5 then IoError
      else if code = 8 then InvalidExecutable
      else if code = 9 then BadDescriptor
      else if code = 10 then NoChildren
      else if code = 11 then ResourceUnavailable
      else if code = 12 then OutOfMemory
      else if code = 14 then BadAddress
      else if code = 17 then AlreadyExists
      else if code = 18 then CrossDeviceLink
      else if code = 20 then NotDirectory
      else if code = 21 then IsDirectory
      else if code = 22 then InvalidArgument
      else if code = 23 then FileTableFull
      else if code = 24 then TooManyFiles
      else if code = 28 then NoSpace
      else if code = 31 then TooManyLinks
      else if code = 32 then BrokenPipe
      else if code = 36 then NameTooLong
      else if code = 38 then NotImplemented
      else if code = 39 then NotEmpty
      else InvalidArgument)"

fun sys_of_fs :: "FsError \<Rightarrow> SysError" where
  "sys_of_fs FsOutOfBlock = NoSpace"
| "sys_of_fs FsOutOfInode = NoSpace"
| "sys_of_fs FsOutOfFile = FileTableFull"
| "sys_of_fs FsOutOfPipe = FileTableFull"
| "sys_of_fs FsOutOfRange = InvalidArgument"
| "sys_of_fs FsInvalidName = InvalidArgument"
| "sys_of_fs FsRead = IoError"
| "sys_of_fs FsWrite = IoError"
| "sys_of_fs FsCreate = NoSpace"
| "sys_of_fs FsLink = AlreadyExists"
| "sys_of_fs FsResolve = NoEntry"
| "sys_of_fs FsType = InvalidArgument"
| "sys_of_fs FsCopy = BadAddress"

fun sys_of_message :: "MessageError \<Rightarrow> SysError" where
  "sys_of_message MsgOutOfRange = InvalidArgument"

section \<open>System call numbers\<close>

datatype Syscall =
    Fork | Exit | Wait | SPipe | Read | Kill | Exec | Fstat | Chdir | Dup | Getpid | Sbrk
  | Sleep | Uptime | Open | Write | Mknod | Unlink | Link | Mkdir | Close | Poweroff
  | Ioctl | Mygetpid | Checkproc | Setmsg | Getmsg | Getpgdir | Pwd | Settickets | Getpinfo

definition all_syscalls :: "Syscall list" where
  "all_syscalls =
     [Fork, Exit, Wait, SPipe, Read, Kill, Exec, Fstat, Chdir, Dup, Getpid, Sbrk,
      Sleep, Uptime, Open, Write, Mknod, Unlink, Link, Mkdir, Close, Poweroff,
      Ioctl, Mygetpid, Checkproc, Setmsg, Getmsg, Getpgdir, Pwd, Settickets, Getpinfo]"

fun syscall_number :: "Syscall \<Rightarrow> usize" where
  "syscall_number Fork = 1"
| "syscall_number Exit = 2"
| "syscall_number Wait = 3"
| "syscall_number SPipe = 4"
| "syscall_number Read = 5"
| "syscall_number Kill = 6"
| "syscall_number Exec = 7"
| "syscall_number Fstat = 8"
| "syscall_number Chdir = 9"
| "syscall_number Dup = 10"
| "syscall_number Getpid = 11"
| "syscall_number Sbrk = 12"
| "syscall_number Sleep = 13"
| "syscall_number Uptime = 14"
| "syscall_number Open = 15"
| "syscall_number Write = 16"
| "syscall_number Mknod = 17"
| "syscall_number Unlink = 18"
| "syscall_number Link = 19"
| "syscall_number Mkdir = 20"
| "syscall_number Close = 21"
| "syscall_number Poweroff = 22"
| "syscall_number Ioctl = 23"
| "syscall_number Mygetpid = 24"
| "syscall_number Checkproc = 25"
| "syscall_number Setmsg = 26"
| "syscall_number Getmsg = 27"
| "syscall_number Getpgdir = 28"
| "syscall_number Pwd = 29"
| "syscall_number Settickets = 30"
| "syscall_number Getpinfo = 31"

definition syscall_try_from :: "usize \<Rightarrow> (Syscall, SysError) result" where
  "syscall_try_from v =
     (if v = 1 then Ok Fork else if v = 2 then Ok Exit else if v = 3 then Ok Wait
      else if v = 4 then Ok SPipe else if v = 5 then Ok Read else if v = 6 then Ok Kill
      else if v = 7 then Ok Exec else if v = 8 then Ok Fstat else if v = 9 then Ok Chdir
      else if v = 10 then Ok Dup else if v = 11 then Ok Getpid else if v = 12 then Ok Sbrk
      else if v = 13 then Ok Sleep else if v = 14 then Ok Uptime else if v = 15 then Ok Open
      else if v = 16 then Ok Write else if v = 17 then Ok Mknod else if v = 18 then Ok Unlink
      else if v = 19 then Ok Link else if v = 20 then Ok Mkdir else if v = 21 then Ok Close
      else if v = 22 then Ok Poweroff else if v = 23 then Ok Ioctl else if v = 24 then Ok Mygetpid
      else if v = 25 then Ok Checkproc else if v = 26 then Ok Setmsg else if v = 27 then Ok Getmsg
      else if v = 28 then Ok Getpgdir else if v = 29 then Ok Pwd
      else if v = 30 then Ok Settickets else if v = 31 then Ok Getpinfo
      else Err NotImplemented)"

section \<open>Encoding of results\<close>

text \<open>The value \<open>syscall()\<close> stores in \<open>trapframe.a0\<close>.\<close>

definition syscall_ret :: "(usize, SysError) result \<Rightarrow> usize" where
  "syscall_ret r = (case r of Ok v \<Rightarrow> v | Err error \<Rightarrow> - ucast (as_code error))"

text \<open>What user space makes of the returned register.\<close>

definition check :: "usize \<Rightarrow> (usize, SysError) result" where
  "check ret = (if 0 \<le> sint ret then Ok ret else Err (from_code (ucast (- ret))))"

definition check_unit :: "usize \<Rightarrow> (unit, SysError) result" where
  "check_unit ret = (case check ret of Ok _ \<Rightarrow> Ok () | Err e \<Rightarrow> Err e)"

section \<open>Properties\<close>

lemma from_code_as_code [simp]: "from_code (as_code e) = e"
  by (cases e) (simp_all add: from_code_def)

lemma as_code_bounds: "0 < unat (as_code e) \<and> unat (as_code e) \<le> 39"
  by (cases e) simp_all

lemma syscall_try_from_number [simp]: "syscall_try_from (syscall_number s) = Ok s"
  by (cases s) (simp_all add: syscall_try_from_def)

lemma syscall_try_from_Ok: "syscall_try_from v = Ok s \<Longrightarrow> v = syscall_number s"
  by (auto simp: syscall_try_from_def split: if_splits)

lemma error_ret_negative: "sint (syscall_ret (Err e)) < 0"
  by (cases e) (simp_all add: syscall_ret_def)

lemma error_ret_decodes: "ucast (- syscall_ret (Err e)) = as_code e"
  by (cases e) (simp_all add: syscall_ret_def)

text \<open>
  Property C35.  A system call result survives the register: whatever error the kernel returns is
  the error user space sees, and a success is seen as that success exactly when its value does not
  have the sign bit set.
\<close>

theorem check_syscall_ret:
  "check (syscall_ret (Err e)) = Err e \<and> (check (syscall_ret (Ok v)) = Ok v \<longleftrightarrow> 0 \<le> sint v)"
  by (simp add: check_def error_ret_negative [unfolded not_le [symmetric]] error_ret_decodes)
     (simp add: syscall_ret_def)

text \<open>
  Property C40.  System call numbers and the decoder agree: decoding succeeds on exactly the numbers
  of the enum, each number decodes to its own call, and anything else is \<open>NotImplemented\<close>.
\<close>

theorem syscall_numbers_decode:
  "(syscall_try_from v = Ok s \<longleftrightarrow> v = syscall_number s) \<and>
   (syscall_try_from v = Err e \<longleftrightarrow> e = NotImplemented \<and> v \<notin> range syscall_number)"
proof
  show "syscall_try_from v = Ok s \<longleftrightarrow> v = syscall_number s"
    using syscall_try_from_Ok by auto
  have "syscall_try_from v = Err x \<Longrightarrow> x = NotImplemented" for x
    by (auto simp: syscall_try_from_def split: if_splits)
  then show "syscall_try_from v = Err e \<longleftrightarrow> e = NotImplemented \<and> v \<notin> range syscall_number"
    by (cases "syscall_try_from v") (auto dest: syscall_try_from_Ok)
qed

end
