(* ===== verification/Riscv.thy ===== *)
theory Riscv
  imports Prelude
begin

unbundle bit_operations_syntax

text \<open>
  The architecture layer: page arithmetic, Sv39 page table entries and indices, trap causes and the
  interrupt-enable bit (\<open>kernel/src/riscv.rs\<close>), the physical and virtual memory map
  (\<open>kernel/src/memlayout.rs\<close>) and the kernel limits (\<open>kernel/src/param.rs\<close>).
\<close>

section \<open>Kernel limits (param.rs)\<close>

definition NCPU :: nat where "NCPU = 8"
definition NPROC :: nat where "NPROC = 64"
definition NOFILE :: nat where "NOFILE = 16"
definition NFILE :: nat where "NFILE = 100"
definition NINODE :: nat where "NINODE = 50"
definition NDEV :: nat where "NDEV = 10"
definition ROOTDEV :: u32 where "ROOTDEV = 1"
definition MAXARG :: nat where "MAXARG = 32"
definition MAXOPBLOCKS :: nat where "MAXOPBLOCKS = 10"
definition LOGBLOCKS :: nat where "LOGBLOCKS = MAXOPBLOCKS * 3"
definition NBUF :: nat where "NBUF = MAXOPBLOCKS * 3"
definition MAXPATH :: nat where "MAXPATH = 128"
definition NKSTACK_PAGES :: usize where "NKSTACK_PAGES = 1"
definition USERSTACK :: usize where "USERSTACK = 4"

section \<open>Pages and page table entries (riscv.rs)\<close>

definition PGSHIFT :: nat where "PGSHIFT = 12"
definition PGSIZE :: usize where "PGSIZE = push_bit PGSHIFT 1"

definition pg_round_up :: "usize \<Rightarrow> usize" where
  "pg_round_up sz = (sz + PGSIZE - 1) AND NOT (PGSIZE - 1)"

definition pg_round_down :: "usize \<Rightarrow> usize" where
  "pg_round_down addr = addr AND NOT (PGSIZE - 1)"

definition PTE_V :: usize where "PTE_V = push_bit 0 1"
definition PTE_R :: usize where "PTE_R = push_bit 1 1"
definition PTE_W :: usize where "PTE_W = push_bit 2 1"
definition PTE_X :: usize where "PTE_X = push_bit 3 1"
definition PTE_U :: usize where "PTE_U = push_bit 4 1"
definition PTE_COW :: usize where "PTE_COW = push_bit 8 1"

definition pa_to_pte :: "usize \<Rightarrow> usize" where
  "pa_to_pte pa = push_bit 10 (drop_bit 12 pa)"

definition pte_to_pa :: "usize \<Rightarrow> usize" where
  "pte_to_pa pte = push_bit 12 (drop_bit 10 pte)"

definition pte_flags :: "usize \<Rightarrow> usize" where
  "pte_flags pte = pte AND 0x3FF"

definition PXMASK :: usize where "PXMASK = 0x1FF"

definition px_shift :: "nat \<Rightarrow> nat" where
  "px_shift level = PGSHIFT + 9 * level"

definition px :: "nat \<Rightarrow> usize \<Rightarrow> usize" where
  "px level va = drop_bit (px_shift level) va AND PXMASK"

definition MAXVA :: usize where "MAXVA = push_bit (9 + 9 + 9 + 12 - 1) 1"

definition satp_make :: "usize \<Rightarrow> usize" where
  "satp_make pagetable = push_bit 60 8 OR drop_bit 12 pagetable"

section \<open>The interrupt-enable bit\<close>

definition SPP :: usize where "SPP = push_bit 8 1"
definition SPIE :: usize where "SPIE = push_bit 5 1"
definition SIE :: usize where "SIE = push_bit 1 1"

definition intr_enable :: "usize \<Rightarrow> usize" where
  "intr_enable sstatus = sstatus OR SIE"

definition intr_disable :: "usize \<Rightarrow> usize" where
  "intr_disable sstatus = sstatus AND NOT SIE"

definition intr_get :: "usize \<Rightarrow> bool" where
  "intr_get sstatus \<longleftrightarrow> sstatus AND SIE \<noteq> 0"

section \<open>Trap causes\<close>

datatype Interrupt =
  UserSoftware | SupervisorSoftware | UserTimer | SupervisorTimer | SupervisorExternal | UnknownInterrupt

datatype Exception =
    InstructionAddressMisaligned | InstructionAccessFault | IllegalInstruction | Breakpoint
  | LoadAccessFault | StoreAddressMisaligned | StoreAccessFault | EnvironmentCall
  | LoadPageFault | StorePageFault | UnknownException

datatype Trap = TrapInterrupt Interrupt | TrapException Exception

definition interrupt_of :: "usize \<Rightarrow> Interrupt" where
  "interrupt_of v =
     (if v = 0 then UserSoftware else if v = 1 then SupervisorSoftware
      else if v = 4 then UserTimer else if v = 5 then SupervisorTimer
      else if v = 9 then SupervisorExternal else UnknownInterrupt)"

definition exception_of :: "usize \<Rightarrow> Exception" where
  "exception_of v =
     (if v = 0 then InstructionAddressMisaligned else if v = 1 then InstructionAccessFault
      else if v = 2 then IllegalInstruction else if v = 3 then Breakpoint
      else if v = 5 then LoadAccessFault else if v = 6 then StoreAddressMisaligned
      else if v = 7 then StoreAccessFault else if v = 8 then EnvironmentCall
      else if v = 13 then LoadPageFault else if v = 15 then StorePageFault
      else UnknownException)"

definition scause_code :: "usize \<Rightarrow> usize" where
  "scause_code bits = bits AND NOT (push_bit (64 - 1) 1)"

definition scause_is_interrupt :: "usize \<Rightarrow> bool" where
  "scause_is_interrupt bits \<longleftrightarrow> bits AND push_bit (64 - 1) 1 \<noteq> 0"

definition scause_cause :: "usize \<Rightarrow> Trap" where
  "scause_cause bits =
     (if scause_is_interrupt bits then TrapInterrupt (interrupt_of (scause_code bits))
      else TrapException (exception_of (scause_code bits)))"

section \<open>Memory map (memlayout.rs)\<close>

definition QEMU_POWER :: usize where "QEMU_POWER = 0x100000"
definition UART0 :: usize where "UART0 = 0x10000000"
definition UART0_IRQ :: usize where "UART0_IRQ = 10"
definition VIRTIO0 :: usize where "VIRTIO0 = 0x10001000"
definition VIRTIO0_IRQ :: usize where "VIRTIO0_IRQ = 1"
definition PLIC :: usize where "PLIC = 0x0C000000"

definition PLIC_SENABLE :: "usize \<Rightarrow> u32" where
  "PLIC_SENABLE hart = ucast (PLIC + 0x2080 + hart * 0x100)"
definition PLIC_SPRIORITY :: "usize \<Rightarrow> u32" where
  "PLIC_SPRIORITY hart = ucast (PLIC + 0x201000 + hart * 0x2000)"
definition PLIC_SCLAIM :: "usize \<Rightarrow> u32" where
  "PLIC_SCLAIM hart = ucast (PLIC + 0x201004 + hart * 0x2000)"

definition KERNBASE :: usize where "KERNBASE = 0x80000000"
definition PHYSTOP :: usize where "PHYSTOP = KERNBASE + 128 * 1024 * 1024"
definition TRAMPOLINE :: usize where "TRAMPOLINE = MAXVA - PGSIZE"
definition TRAPFRAME :: usize where "TRAPFRAME = TRAMPOLINE - PGSIZE"

definition kstack :: "usize \<Rightarrow> usize" where
  "kstack p = TRAMPOLINE - (p + 1) * ((NKSTACK_PAGES + 1) * PGSIZE)"

section \<open>Numeric values\<close>

lemma riscv_values [simp]:
  "PGSIZE = 4096" "PTE_V = 1" "PTE_R = 2" "PTE_W = 4" "PTE_X = 8" "PTE_U = 16" "PTE_COW = 256"
  "PXMASK = 511" "MAXVA = 0x4000000000" "TRAMPOLINE = 0x3FFFFFF000" "TRAPFRAME = 0x3FFFFFE000"
  "KERNBASE = 0x80000000" "PHYSTOP = 0x88000000" "NKSTACK_PAGES = 1" "USERSTACK = 4"
  by (simp_all add: PGSIZE_def PGSHIFT_def PTE_V_def PTE_R_def PTE_W_def PTE_X_def PTE_U_def
      PTE_COW_def PXMASK_def MAXVA_def TRAMPOLINE_def TRAPFRAME_def KERNBASE_def PHYSTOP_def
      NKSTACK_PAGES_def USERSTACK_def)

lemma param_values [simp]:
  "NCPU = 8" "NPROC = 64" "NOFILE = 16" "NFILE = 100" "NINODE = 50" "NDEV = 10" "ROOTDEV = 1"
  "MAXARG = 32" "MAXOPBLOCKS = 10" "LOGBLOCKS = 30" "NBUF = 30" "MAXPATH = 128"
  by (simp_all add: NCPU_def NPROC_def NOFILE_def NFILE_def NINODE_def NDEV_def ROOTDEV_def
      MAXARG_def MAXOPBLOCKS_def LOGBLOCKS_def NBUF_def MAXPATH_def)

section \<open>Page arithmetic\<close>

definition page_aligned :: "usize \<Rightarrow> bool" where
  "page_aligned a \<longleftrightarrow> a AND 0xFFF = 0"

lemma mask12: "(0xFFF :: usize) = mask 12"
  by (simp add: mask_eq_exp_minus_1)

lemma page_aligned_iff_take_bit: "page_aligned a \<longleftrightarrow> take_bit 12 a = 0"
  by (simp add: page_aligned_def mask12 take_bit_eq_mask)

lemma unat_take_bit12: "unat (take_bit 12 (a :: usize)) = unat a mod 4096"
  by (subst unsigned_take_bit_eq) (simp_all add: take_bit_eq_mod)

lemma page_aligned_unat: "page_aligned a \<longleftrightarrow> 4096 dvd unat a"
proof -
  have "take_bit 12 a = 0 \<longleftrightarrow> unat (take_bit 12 a) = 0" by (simp add: unat_eq_zero)
  then show ?thesis
    by (simp only: page_aligned_iff_take_bit unat_take_bit12 dvd_eq_mod_eq_0)
qed

lemma pg_round_down_take_bit: "pg_round_down a = a - take_bit 12 a"
proof -
  have "a = (a AND NOT (mask 12)) + (a AND mask 12)"
    by (subst disjunctive_add) (auto simp: bit_eq_iff bit_simps)
  moreover have "a AND mask 12 = take_bit 12 a" by (simp add: take_bit_eq_mask)
  moreover have "pg_round_down a = a AND NOT (mask 12)"
    by (simp add: pg_round_down_def mask12)
  ultimately show ?thesis by (metis add_diff_cancel_right')
qed

lemma unat_pg_round_down: "unat (pg_round_down a) = unat a div 4096 * 4096"
proof -
  have "take_bit 12 a \<le> a"
    by (simp add: word_le_nat_alt unat_take_bit12)
  then have "unat (a - take_bit 12 a) = unat a - unat a mod 4096"
    by (simp add: unat_sub unat_take_bit12)
  then show ?thesis
    by (simp add: pg_round_down_take_bit minus_mod_eq_div_mult)
qed

lemma page_aligned_pg_round_down [simp]: "page_aligned (pg_round_down a)"
  by (simp add: page_aligned_unat unat_pg_round_down)

lemma pg_round_down_le: "pg_round_down a \<le> a"
  by (simp add: word_le_nat_alt unat_pg_round_down)

lemma pg_round_down_aligned [simp]: "page_aligned a \<Longrightarrow> pg_round_down a = a"
  by (simp add: pg_round_down_take_bit page_aligned_iff_take_bit)

lemma pg_round_up_down: "pg_round_up a = pg_round_down (a + 4095)"
  by (simp add: pg_round_up_def pg_round_down_def add.commute)

lemma unat_pg_round_up:
  assumes "unat a \<le> 2 ^ 64 - 4096"
  shows "unat (pg_round_up a) = (unat a + 4095) div 4096 * 4096"
proof -
  have "unat (a + 4095) = unat a + 4095"
    using assms by (simp add: unat_word_ariths)
  then show ?thesis by (simp add: pg_round_up_down unat_pg_round_down)
qed

lemma pg_round_up_aligned [simp]: "page_aligned (pg_round_up a)"
  by (simp add: pg_round_up_down)

section \<open>Page table entries\<close>

lemma unat_two_power: "k < 64 \<Longrightarrow> unat (2 ^ k :: usize) = 2 ^ k"
proof -
  assume "k < 64"
  then have "(2 :: nat) ^ k < 2 ^ 64" by (intro power_strict_increasing) auto
  then have "unat (of_nat (2 ^ k) :: usize) = 2 ^ k" by (simp add: unat_of_nat del: of_nat_power)
  then show ?thesis by simp
qed

lemma bit_above:
  fixes w :: usize
  assumes "w < 2 ^ k" "k < 64" "k \<le> n"
  shows "\<not> bit w n"
proof -
  have "unat w < 2 ^ k" using assms(1,2) by (simp add: word_less_nat_alt unat_two_power)
  then have "unat (take_bit k w) = unat w"
    by (subst unsigned_take_bit_eq) (simp_all add: take_bit_nat_eq_self_iff)
  then have "take_bit k w = w" by (simp add: word_unat_eq_iff)
  then have "bit w n = bit (take_bit k w) n" by simp
  with assms(3) show ?thesis by (simp add: bit_take_bit_iff)
qed

lemma page_aligned_bit: "page_aligned a \<Longrightarrow> n < 12 \<Longrightarrow> \<not> bit a n"
  by (metis bit_take_bit_iff page_aligned_iff_take_bit bit_0_eq bot_apply bot_bool_def)

lemma pte_entry_pa:
  assumes "page_aligned pa" "pa < 2 ^ 56" "flags < 2 ^ 10"
  shows "pte_to_pa (pa_to_pte pa OR flags) = pa"
proof (rule bit_word_eqI)
  fix n
  assume n: "n < LENGTH(64)"
  have "\<not> bit flags (n - 2)" if "12 \<le> n" using bit_above [OF assms(3)] that by simp
  moreover have "\<not> bit pa n" if "56 \<le> n" using bit_above [OF assms(2)] that by simp
  moreover have "\<not> bit pa n" if "n < 12" using page_aligned_bit [OF assms(1) that] .
  ultimately show "bit (pte_to_pa (pa_to_pte pa OR flags)) n = bit pa n"
    using n by (cases "n < 12") (auto simp: pte_to_pa_def pa_to_pte_def bit_simps not_less le_imp_diff_is_add)
qed

lemma mask10: "(0x3FF :: usize) = mask 10"
  by (simp add: mask_eq_exp_minus_1)

lemma pte_entry_flags:
  assumes "flags < 2 ^ 10"
  shows "pte_flags (pa_to_pte pa OR flags) = flags"
proof (rule bit_word_eqI)
  fix n
  assume n: "n < LENGTH(64)"
  have "\<not> bit flags n" if "10 \<le> n" using bit_above [OF assms] that by simp
  then show "bit (pte_flags (pa_to_pte pa OR flags)) n = bit flags n"
    using n by (cases "n < 10") (auto simp: pte_flags_def pa_to_pte_def mask10 bit_simps)
qed

lemma mask9: "(511 :: usize) = mask 9"
  by (simp add: mask_eq_exp_minus_1)

lemma px_eq: "px level va = take_bit 9 (drop_bit (12 + 9 * level) va)"
  by (simp add: px_def px_shift_def PGSHIFT_def mask9 take_bit_eq_mask)

lemma unat_px: "unat (px level va) = unat va div 2 ^ (12 + 9 * level) mod 512"
proof -
  have "unat (take_bit 9 (drop_bit k va)) = unat va div 2 ^ k mod 512" for k
    by (simp only: unsigned_take_bit_eq unsigned_drop_bit_eq)
       (simp add: take_bit_eq_mod drop_bit_eq_div unat_usize_less)
  then show ?thesis by (simp only: px_eq)
qed

lemma unat_px_less [simp]: "unat (px level va) < 512"
  by (simp add: unat_px)

text \<open>
  A virtual address below \<open>MAXVA\<close> is its three table indices and its page offset.
\<close>

lemma combine_digits:
  "n = a * 4096 + r \<Longrightarrow> a = b * 512 + x0 \<Longrightarrow> b = c * 512 + x1 \<Longrightarrow>
     n = c * 2 ^ 30 + x1 * 2 ^ 21 + x0 * 2 ^ 12 + (r :: nat)"
  by simp

lemma va_decompose:
  assumes "va < MAXVA"
  shows "unat va = unat (px 2 va) * 2 ^ 30 + unat (px 1 va) * 2 ^ 21 + unat (px 0 va) * 2 ^ 12
                    + unat va mod 4096"
proof -
  let ?n = "unat va"
  have "?n div 2 ^ 30 < 512"
    using assms by (simp add: word_less_nat_alt less_mult_imp_div_less)
  then have l2: "?n div 2 ^ 30 mod 512 = ?n div 2 ^ 30" by simp
  have s1: "?n div 2 ^ 21 = ?n div 2 ^ 12 div 512" and s2: "?n div 2 ^ 30 = ?n div 2 ^ 21 div 512"
    by (simp_all add: div_mult2_eq [symmetric])
  have d0: "?n = ?n div 2 ^ 12 * 4096 + ?n mod 4096"
    by simp
  have d1: "?n div 2 ^ 12 = ?n div 2 ^ 21 * 512 + ?n div 2 ^ 12 mod 512"
    by (simp only: s1 div_mult_mod_eq)
  have d2: "?n div 2 ^ 21 = ?n div 2 ^ 30 * 512 + ?n div 2 ^ 21 mod 512"
    by (simp only: s2 div_mult_mod_eq)
  have "unat (px 2 va) = ?n div 2 ^ 30" "unat (px 1 va) = ?n div 2 ^ 21 mod 512"
      "unat (px 0 va) = ?n div 2 ^ 12 mod 512"
    using l2 by (simp_all add: unat_px)
  with combine_digits [OF d0 d1 d2] show ?thesis by simp
qed

lemma px_inj:
  assumes "va < MAXVA" "vb < MAXVA" "page_aligned va" "page_aligned vb"
    and "px 2 va = px 2 vb" "px 1 va = px 1 vb" "px 0 va = px 0 vb"
  shows "va = vb"
proof -
  have "unat va = unat vb"
    using va_decompose [OF assms(1)] va_decompose [OF assms(2)] assms(3-)
    by (simp add: page_aligned_unat dvd_eq_mod_eq_0)
  then show ?thesis by (simp add: word_unat_eq_iff)
qed

section \<open>Kernel stacks\<close>

lemma unat_kstack:
  assumes "p < NPROC"
  shows "unat (kstack (of_nat p)) = 0x3FFFFFF000 - (p + 1) * 8192"
proof -
  have p: "p < 64" using assms by simp
  have u: "unat ((of_nat p + 1) * 8192 :: usize) = (p + 1) * 8192"
    using p by (simp add: unat_word_ariths unat_of_nat)
  have "((of_nat p + 1) * 8192 :: usize) \<le> 0x3FFFFFF000"
    using p u by (simp add: word_le_nat_alt)
  then have "unat (0x3FFFFFF000 - (of_nat p + 1) * 8192 :: usize) = 0x3FFFFFF000 - (p + 1) * 8192"
    by (subst unat_sub) (simp_all only: u, simp)
  moreover have "kstack (of_nat p) = 0x3FFFFFF000 - (of_nat p + 1) * 8192"
    by (simp add: kstack_def)
  ultimately show ?thesis by simp
qed



text \<open>
  Property C39.  A page table entry built from a page-aligned physical address of 56 bits and ten flag bits
  gives back exactly that address and exactly those flags.
\<close>

theorem pte_roundtrip:
  assumes "page_aligned pa" "pa < 2 ^ 56" "flags < 2 ^ 10"
  shows "pte_to_pa (pa_to_pte pa OR flags) = pa \<and> pte_flags (pa_to_pte pa OR flags) = flags"
  using pte_entry_pa [OF assms] pte_entry_flags [OF assms(3)] by simp

theorem pte_roundtrip_witness:
  "pte_to_pa (pa_to_pte 0x80201000 OR (PTE_V OR PTE_R OR PTE_W)) = 0x80201000 \<and>
   pte_flags (pa_to_pte 0x80201000 OR (PTE_V OR PTE_R OR PTE_W)) = PTE_V OR PTE_R OR PTE_W"
  by (rule pte_roundtrip) (simp_all add: page_aligned_def)

end
