(* ===== verification/Locks.thy ===== *)
theory Locks
  imports Riscv
begin

text \<open>
  Interrupt nesting, spin locks and one-time initialisation: \<open>Cpu\<close>, \<open>InterruptLock\<close> and the
  saved \<open>Context\<close> of \<open>kernel/src/proc.rs\<close>, \<open>SpinLock\<close> of \<open>kernel/src/spinlock.rs\<close> and
  \<open>OnceLock\<close> of \<open>kernel/src/sync.rs\<close>.

  A hart is its \<open>sstatus\<close> register and its \<open>Cpu\<close> record.  The spin lock is modelled as an
  interleaving machine: any number of harts and locks, and the atomic accesses of \<open>lock\<close> and of
  the guard's \<open>drop\<close> as separate steps.  \<open>isize\<close> nesting counts are integers.
\<close>

section \<open>CPU state and interrupt nesting\<close>

record Context =
  ra :: usize
  sp :: usize
  saved :: "usize list"

definition context_new :: Context where
  "context_new = \<lparr>ra = 0, sp = 0, saved = replicate 12 0\<rparr>"

definition context_zero :: "Context \<Rightarrow> Context" where
  "context_zero ctx = ctx\<lparr>ra := 0, sp := 0, saved := replicate 12 0\<rparr>"

record Cpu =
  cpu_proc :: "nat option"
  cpu_context :: Context
  num_off :: int
  interrupts_enabled :: bool

definition cpu_new :: Cpu where
  "cpu_new = \<lparr>cpu_proc = None, cpu_context = context_new, num_off = 0, interrupts_enabled = False\<rparr>"

record Hart =
  sstatus :: usize
  cpu :: Cpu

text \<open>\<open>Cpu::lock\<close>, \<open>Cpu::unlock\<close>, \<open>lock_current_cpu\<close>, and the two ways the interrupt bit changes.\<close>

definition cpu_lock :: "bool \<Rightarrow> Cpu \<Rightarrow> Cpu" where
  "cpu_lock old_state c =
     (let c = (if num_off c = 0 then c\<lparr>interrupts_enabled := old_state\<rparr> else c)
      in c\<lparr>num_off := num_off c + 1\<rparr>)"

definition interrupts_enable :: "Hart \<Rightarrow> Hart" where
  "interrupts_enable h = h\<lparr>sstatus := intr_enable (sstatus h)\<rparr>"

definition interrupts_disable :: "Hart \<Rightarrow> Hart" where
  "interrupts_disable h = h\<lparr>sstatus := intr_disable (sstatus h)\<rparr>"

definition interrupts_get :: "Hart \<Rightarrow> bool" where
  "interrupts_get h = intr_get (sstatus h)"

definition cpu_unlock :: "Hart \<Rightarrow> Hart option" where
  "cpu_unlock h = do {
     assert_that (\<not> interrupts_get h);
     assert_that (num_off (cpu h) \<ge> 1);
     let c = (cpu h)\<lparr>num_off := num_off (cpu h) - 1\<rparr>;
     let h = h\<lparr>cpu := c\<rparr>;
     Some (if num_off c = 0 \<and> interrupts_enabled c then interrupts_enable h else h)
   }"

definition current_cpu :: "Hart \<Rightarrow> Cpu option" where
  "current_cpu h = do { assert_that (\<not> interrupts_get h); Some (cpu h) }"

definition lock_current_cpu :: "Hart \<Rightarrow> Hart option" where
  "lock_current_cpu h = do {
     let old_state = interrupts_get h;
     let h = interrupts_disable h;
     c \<leftarrow> current_cpu h;
     Some (h\<lparr>cpu := cpu_lock old_state c\<rparr>)
   }"

definition current_proc_opt :: "Hart \<Rightarrow> (nat option \<times> Hart) option" where
  "current_proc_opt h = do {
     h1 \<leftarrow> lock_current_cpu h;
     c \<leftarrow> current_cpu h1;
     h2 \<leftarrow> cpu_unlock h1;
     Some (cpu_proc c, h2)
   }"

definition current_proc :: "Hart \<Rightarrow> (nat \<times> Hart) option" where
  "current_proc h = do { (p, h) \<leftarrow> current_proc_opt h; i \<leftarrow> p; Some (i, h) }"

lemma intr_bit [simp]: "intr_get (intr_enable w)" "\<not> intr_get (intr_disable w)"
proof -
  have "(w OR SIE) AND SIE \<noteq> 0"
  proof
    assume "(w OR SIE) AND SIE = 0"
    then have "bit ((w OR SIE) AND SIE) 1 = bit (0 :: usize) 1" by simp
    then show False by (simp add: SIE_def bit_simps)
  qed
  moreover have "(w AND NOT SIE) AND SIE = 0"
    by (rule bit_eqI) (simp add: SIE_def bit_simps)
  ultimately show "intr_get (intr_enable w)" "\<not> intr_get (intr_disable w)"
    by (simp_all add: intr_get_def intr_enable_def intr_disable_def)
qed

lemma interrupt_bit [simp]:
  "interrupts_get (interrupts_enable h)"
  "\<not> interrupts_get (interrupts_disable h)"
  "cpu (interrupts_enable h) = cpu h"
  "cpu (interrupts_disable h) = cpu h"
  "interrupts_get (h\<lparr>cpu := c\<rparr>) = interrupts_get h"
  by (simp_all add: interrupts_enable_def interrupts_disable_def interrupts_get_def)

text \<open>
  A hart is well formed when interrupts are off at every positive nesting depth; this is the
  software/hardware agreement \<open>sched\<close> asserts.
\<close>

definition hart_wf :: "Hart \<Rightarrow> bool" where
  "hart_wf h \<longleftrightarrow> 0 \<le> num_off (cpu h) \<and> (0 < num_off (cpu h) \<longrightarrow> \<not> interrupts_get h)"

lemma lock_current_cpu_Some:
  "lock_current_cpu h =
     Some ((interrupts_disable h)\<lparr>cpu := cpu_lock (interrupts_get h) (cpu h)\<rparr>)"
  by (simp add: lock_current_cpu_def current_cpu_def Let_def)

lemma num_off_cpu_lock [simp]: "num_off (cpu_lock b c) = num_off c + 1"
  by (simp add: cpu_lock_def Let_def)

lemma lock_current_cpu_wf:
  assumes "hart_wf h" "lock_current_cpu h = Some h'"
  shows "hart_wf h' \<and> num_off (cpu h') = num_off (cpu h) + 1 \<and> \<not> interrupts_get h'"
  using assms by (auto simp: lock_current_cpu_Some hart_wf_def)

lemma cpu_unlock_Some:
  assumes "hart_wf h" "0 < num_off (cpu h)"
  shows "\<exists>h'. cpu_unlock h = Some h' \<and> hart_wf h' \<and> num_off (cpu h') = num_off (cpu h) - 1"
  using assms by (auto simp: cpu_unlock_def hart_wf_def Let_def interrupts_enable_def)

text \<open>A run of nested critical sections: lock once, run a balanced body, unlock.\<close>

datatype nesting = Locked "nesting list"

fun run_section :: "nesting \<Rightarrow> Hart \<Rightarrow> Hart option" and
    run_sections :: "nesting list \<Rightarrow> Hart \<Rightarrow> Hart option" where
  "run_section (Locked body) h = do {
     h1 \<leftarrow> lock_current_cpu h;
     h2 \<leftarrow> run_sections body h1;
     cpu_unlock h2
   }"
| "run_sections [] h = Some h"
| "run_sections (s # ss) h = do { h1 \<leftarrow> run_section s h; run_sections ss h1 }"

text \<open>The observable interrupt state: what the nesting protocol promises to restore.\<close>

definition intr_state :: "Hart \<Rightarrow> bool \<times> int \<times> bool \<times> nat option" where
  "intr_state h =
     (interrupts_get h, num_off (cpu h), num_off (cpu h) > 0 \<and> interrupts_enabled (cpu h), cpu_proc (cpu h))"

lemma unlock_after_lock:
  assumes "hart_wf h" and h1: "lock_current_cpu h = Some h1" and h2: "hart_wf h2"
    and eq: "intr_state h2 = intr_state h1"
  shows "\<exists>h3. cpu_unlock h2 = Some h3 \<and> hart_wf h3 \<and> intr_state h3 = intr_state h"
  using assms
  by (auto simp: lock_current_cpu_Some intr_state_def hart_wf_def cpu_unlock_def Let_def
      cpu_lock_def interrupts_enable_def interrupts_disable_def interrupts_get_def split: if_splits)

lemma run_sections_restore:
  "hart_wf h \<Longrightarrow> \<exists>h'. run_section sec h = Some h' \<and> hart_wf h' \<and> intr_state h' = intr_state h"
  "hart_wf h \<Longrightarrow> \<exists>h'. run_sections secs h = Some h' \<and> hart_wf h' \<and> intr_state h' = intr_state h"
proof (induction sec h and secs h rule: run_section_run_sections.induct)
  case (1 body h)
  obtain h1 where h1: "lock_current_cpu h = Some h1" by (simp add: lock_current_cpu_Some)
  then have "hart_wf h1" using "1.prems" lock_current_cpu_wf by blast
  with "1.IH" h1 obtain h2 where
    h2: "run_sections body h1 = Some h2" "hart_wf h2" "intr_state h2 = intr_state h1" by blast
  from unlock_after_lock [OF "1.prems" h1 h2(2,3)] show ?case by (simp add: h1 h2)
next
  case (3 sec secs h)
  then obtain h1 where h1: "run_section sec h = Some h1" "hart_wf h1" "intr_state h1 = intr_state h"
    by blast
  with "3.IH"(2) show ?case by fastforce
qed simp

text \<open>
  Property C34.  Interrupt nesting is transparent: any properly nested sequence of CPU locks and
  unlocks runs without tripping an assertion and leaves the hart with the interrupt bit, the nesting
  depth and the saved interrupt state it started with.
\<close>

theorem nested_sections_restore:
  assumes "hart_wf h"
  shows "\<exists>h'. run_sections secs h = Some h' \<and> hart_wf h' \<and> intr_state h' = intr_state h"
  using assms by (rule run_sections_restore(2))

theorem nested_sections_restore_witness:
  "\<exists>h'. run_sections [Locked [Locked []], Locked []] \<lparr>sstatus = SIE, cpu = cpu_new\<rparr> = Some h' \<and>
        hart_wf h' \<and> intr_state h' = intr_state \<lparr>sstatus = SIE, cpu = cpu_new\<rparr>"
  by (rule nested_sections_restore) (simp add: hart_wf_def cpu_new_def)

section \<open>Spin locks\<close>

text \<open>
  The interleaving machine.  \<open>owner l\<close> is the \<open>cpu\<close> field of lock \<open>l\<close> (a null pointer is
  \<open>None\<close>), \<open>guards h\<close> the guards alive on hart \<open>h\<close>, and \<open>phase h\<close> says where hart \<open>h\<close>
  stands inside \<open>lock\<close> or inside the drop of a guard.
\<close>

datatype phase = Idle | Spinning nat | Releasing

record SpinState =
  harts :: "nat \<Rightarrow> Hart"
  owner :: "nat \<Rightarrow> nat option"
  guards :: "nat \<Rightarrow> nat list"
  phase :: "nat \<Rightarrow> phase"

definition holding :: "nat \<Rightarrow> nat \<Rightarrow> SpinState \<Rightarrow> bool" where
  "holding h l m \<longleftrightarrow> owner m l = Some h"

text \<open>\<open>SpinLock::lock\<close> up to the loop: disable interrupts, refuse a second acquisition.\<close>

definition spin_lock_enter :: "nat \<Rightarrow> nat \<Rightarrow> SpinState \<Rightarrow> SpinState option" where
  "spin_lock_enter h l m = do {
     hart \<leftarrow> lock_current_cpu (harts m h);
     assert_that (\<not> holding h l m);
     Some (m\<lparr>harts := (harts m)(h := hart), phase := (phase m)(h := Spinning l)\<rparr>)
   }"

text \<open>One iteration of the loop: the compare-and-exchange.\<close>

definition spin_lock_cas :: "nat \<Rightarrow> nat \<Rightarrow> SpinState \<Rightarrow> SpinState" where
  "spin_lock_cas h l m =
     (if owner m l = None
      then m\<lparr>owner := (owner m)(l := Some h), guards := (guards m)(h := l # guards m h),
             phase := (phase m)(h := Idle)\<rparr>
      else m)"

text \<open>Dropping a guard: the store that releases the lock, then the drop of its \<open>InterruptLock\<close>.\<close>

definition spin_guard_drop :: "nat \<Rightarrow> nat \<Rightarrow> SpinState \<Rightarrow> SpinState option" where
  "spin_guard_drop h l m = do {
     assert_that (holding h l m);
     Some (m\<lparr>owner := (owner m)(l := None), guards := (guards m)(h := remove1 l (guards m h)),
             phase := (phase m)(h := Releasing)\<rparr>)
   }"

definition intr_guard_drop :: "nat \<Rightarrow> SpinState \<Rightarrow> SpinState option" where
  "intr_guard_drop h m = do {
     hart \<leftarrow> cpu_unlock (harts m h);
     Some (m\<lparr>harts := (harts m)(h := hart), phase := (phase m)(h := Idle)\<rparr>)
   }"

definition force_unlock :: "nat \<Rightarrow> nat \<Rightarrow> SpinState \<Rightarrow> SpinState option" where
  "force_unlock h l m = do {
     assert_that (holding h l m);
     hart \<leftarrow> cpu_unlock (harts m h);
     Some (m\<lparr>owner := (owner m)(l := None), guards := (guards m)(h := remove1 l (guards m h)),
             harts := (harts m)(h := hart)\<rparr>)
   }"

text \<open>
  Steps of the machine.  The last two rules are the interrupt-bit changes outside critical sections
  (\<open>interrupts::enable\<close> and \<open>disable\<close> in the scheduler loop and the trap path).
\<close>

inductive spin_step :: "SpinState \<Rightarrow> SpinState \<Rightarrow> bool" where
  enter: "phase m h = Idle \<Longrightarrow> spin_lock_enter h l m = Some m' \<Longrightarrow> spin_step m m'"
| cas: "phase m h = Spinning l \<Longrightarrow> spin_step m (spin_lock_cas h l m)"
| drop: "phase m h = Idle \<Longrightarrow> l \<in> set (guards m h) \<Longrightarrow> spin_guard_drop h l m = Some m' \<Longrightarrow> spin_step m m'"
| intr: "phase m h = Releasing \<Longrightarrow> intr_guard_drop h m = Some m' \<Longrightarrow> spin_step m m'"
| force: "phase m h = Idle \<Longrightarrow> force_unlock h l m = Some m' \<Longrightarrow> spin_step m m'"
| enable: "phase m h = Idle \<Longrightarrow> guards m h = [] \<Longrightarrow>
     spin_step m (m\<lparr>harts := (harts m)(h := interrupts_enable (harts m h))\<rparr>)"
| disable: "phase m h = Idle \<Longrightarrow> guards m h = [] \<Longrightarrow>
     spin_step m (m\<lparr>harts := (harts m)(h := interrupts_disable (harts m h))\<rparr>)"

definition spin_init :: SpinState where
  "spin_init = \<lparr>harts = (\<lambda>_. \<lparr>sstatus = 0, cpu = cpu_new\<rparr>), owner = (\<lambda>_. None), guards = (\<lambda>_. []),
                phase = (\<lambda>_. Idle)\<rparr>"

definition spin_inv :: "SpinState \<Rightarrow> bool" where
  "spin_inv m \<longleftrightarrow>
     (\<forall>h. hart_wf (harts m h) \<and> distinct (guards m h) \<and>
          num_off (cpu (harts m h)) = int (length (guards m h)) + (if phase m h = Idle then 0 else 1) \<and>
          (\<forall>l. l \<in> set (guards m h) \<longleftrightarrow> owner m l = Some h))"

lemma spin_init_inv: "spin_inv spin_init"
  by (simp add: spin_inv_def spin_init_def hart_wf_def cpu_new_def)

lemma spin_invD:
  assumes "spin_inv m"
  shows "hart_wf (harts m h)" "distinct (guards m h)"
    "num_off (cpu (harts m h)) = int (length (guards m h)) + (if phase m h = Idle then 0 else 1)"
    "l \<in> set (guards m h) \<longleftrightarrow> owner m l = Some h"
  using assms by (auto simp: spin_inv_def)

lemma spin_lock_enter_inv:
  assumes "spin_inv m" "phase m h = Idle" "spin_lock_enter h l m = Some m'"
  shows "spin_inv m'"
proof -
  obtain hart where l: "lock_current_cpu (harts m h) = Some hart"
    by (simp add: lock_current_cpu_Some)
  with assms(3) have m': "m' = m\<lparr>harts := (harts m)(h := hart), phase := (phase m)(h := Spinning l)\<rparr>"
    by (auto simp: spin_lock_enter_def split: if_splits)
  from lock_current_cpu_wf [OF spin_invD(1) [OF assms(1)] l] assms(1,2)
  show ?thesis by (auto simp: spin_inv_def m')
qed

lemma spin_lock_cas_inv:
  assumes "spin_inv m" "phase m h = Spinning l"
  shows "spin_inv (spin_lock_cas h l m)"
proof (cases "owner m l")
  case None
  then have "l \<notin> set (guards m x)" for x
    using spin_invD(4) [OF assms(1)] by simp
  with assms None show ?thesis
    by (auto simp: spin_inv_def spin_lock_cas_def)
qed (simp add: spin_lock_cas_def assms(1))

lemma intr_guard_drop_inv:
  assumes "spin_inv m" "phase m h = Releasing"
  shows "\<exists>m'. intr_guard_drop h m = Some m' \<and> spin_inv m'"
proof -
  have "0 < num_off (cpu (harts m h))" using spin_invD(3) [OF assms(1), of h] assms(2) by simp
  from cpu_unlock_Some [OF spin_invD(1) [OF assms(1)] this] obtain hart where
    "cpu_unlock (harts m h) = Some hart" "hart_wf hart"
    "num_off (cpu hart) = num_off (cpu (harts m h)) - 1" by blast
  with assms show ?thesis by (simp add: intr_guard_drop_def spin_inv_def)
qed

lemma int_length_remove1: "x \<in> set xs \<Longrightarrow> int (length (remove1 x xs)) = int (length xs) - 1"
  by (induction xs) auto

lemma spin_guard_drop_inv:
  assumes "spin_inv m" "phase m h = Idle" "l \<in> set (guards m h)"
  shows "\<exists>m'. spin_guard_drop h l m = Some m' \<and> spin_inv m'"
proof -
  have "holding h l m" using spin_invD(4) [OF assms(1)] assms(3) by (simp add: holding_def)
  with assms show ?thesis
    by (auto simp: spin_guard_drop_def spin_inv_def holding_def int_length_remove1)
qed

lemma force_unlock_inv:
  assumes "spin_inv m" "phase m h = Idle" "force_unlock h l m = Some m'"
  shows "spin_inv m'"
proof -
  have held: "l \<in> set (guards m h)"
    using assms spin_invD(4) [OF assms(1)] by (auto simp: force_unlock_def holding_def split: if_splits)
  then have "0 < length (guards m h)" by (cases "guards m h") auto
  then have "0 < num_off (cpu (harts m h))" using spin_invD(3) [OF assms(1), of h] assms(2) by simp
  from cpu_unlock_Some [OF spin_invD(1) [OF assms(1)] this] obtain hart where
    h: "cpu_unlock (harts m h) = Some hart" "hart_wf hart"
    "num_off (cpu hart) = num_off (cpu (harts m h)) - 1" by blast
  from assms held have "m' = m\<lparr>owner := (owner m)(l := None),
      guards := (guards m)(h := remove1 l (guards m h)), harts := (harts m)(h := hart)\<rparr>"
    by (auto simp: force_unlock_def h split: if_splits)
  with assms held h show ?thesis
    by (auto simp: spin_inv_def int_length_remove1)
qed

lemma spin_step_inv: "spin_step m m' \<Longrightarrow> spin_inv m \<Longrightarrow> spin_inv m'"
proof (induction rule: spin_step.induct)
  case (drop m h l m')
  then show ?case using spin_guard_drop_inv by fastforce
next
  case (intr m h m')
  then show ?case using intr_guard_drop_inv by fastforce
next
  case (enable m h)
  then show ?case by (auto simp: spin_inv_def hart_wf_def)
next
  case (disable m h)
  then show ?case by (auto simp: spin_inv_def hart_wf_def)
qed (blast intro: spin_lock_enter_inv spin_lock_cas_inv force_unlock_inv)+

lemma spin_reachable_inv: "spin_step\<^sup>*\<^sup>* spin_init m \<Longrightarrow> spin_inv m"
  by (induction rule: rtranclp_induct) (auto intro: spin_init_inv spin_step_inv)

text \<open>
  Property C18.  Spin locks give mutual exclusion: in every reachable state of the machine two harts
  never hold guards of the same lock, a hart that holds a guard runs with interrupts off, dropping a
  guard never trips the ownership assertion, and \<open>lock\<close> panics exactly on a lock the hart holds
  already.
\<close>

theorem spinlock_mutual_exclusion:
  assumes "spin_step\<^sup>*\<^sup>* spin_init m"
  shows "(l \<in> set (guards m h1) \<and> l \<in> set (guards m h2) \<longrightarrow> h1 = h2) \<and>
         (l \<in> set (guards m h1) \<longrightarrow> \<not> interrupts_get (harts m h1)) \<and>
         (l \<in> set (guards m h1) \<and> phase m h1 = Idle \<longrightarrow> spin_guard_drop h1 l m \<noteq> None) \<and>
         (phase m h1 = Releasing \<longrightarrow> intr_guard_drop h1 m \<noteq> None) \<and>
         (spin_lock_enter h1 l m = None \<longleftrightarrow> l \<in> set (guards m h1))"
proof -
  note inv = spin_reachable_inv [OF assms]
  have own: "k \<in> set (guards m h) \<longleftrightarrow> owner m k = Some h" for k h using spin_invD(4) [OF inv] .
  have off: "\<not> interrupts_get (harts m h1)" if "l \<in> set (guards m h1)"
    using that spin_invD(1,3) [OF inv, of h1] by (cases "guards m h1") (auto simp: hart_wf_def)
  show ?thesis
    using own off spin_guard_drop_inv [OF inv, of h1 l] intr_guard_drop_inv [OF inv, of h1]
    by (auto simp: spin_lock_enter_def lock_current_cpu_Some holding_def)
qed

text \<open>A short run: hart 0 takes lock 7 while hart 1 spins on it.\<close>

definition spin_example :: SpinState where
  "spin_example =
     spin_lock_cas 1 7
       (the (spin_lock_enter 1 7 (spin_lock_cas 0 7 (the (spin_lock_enter 0 7 spin_init)))))"

lemma spin_example_reachable: "spin_step\<^sup>*\<^sup>* spin_init spin_example"
proof -
  define m1 where "m1 = the (spin_lock_enter 0 7 spin_init)"
  define m2 where "m2 = spin_lock_cas 0 7 m1"
  define m3 where "m3 = the (spin_lock_enter 1 7 m2)"
  have m1: "spin_lock_enter 0 7 spin_init = Some m1"
    by (simp add: m1_def spin_lock_enter_def lock_current_cpu_Some holding_def spin_init_def)
  have m3: "spin_lock_enter 1 7 m2 = Some m3"
    by (simp add: m3_def m2_def m1_def spin_lock_enter_def lock_current_cpu_Some holding_def
        spin_init_def spin_lock_cas_def)
  have s1: "spin_step spin_init m1" using m1 by (intro enter [of _ 0]) (simp_all add: spin_init_def)
  have s2: "spin_step m1 m2" unfolding m2_def
    by (rule cas) (simp add: m1_def spin_lock_enter_def lock_current_cpu_Some holding_def spin_init_def)
  have s3: "spin_step m2 m3" using m3
    by (intro enter [of _ 1]) (simp_all add: m2_def m1_def spin_lock_enter_def lock_current_cpu_Some
        holding_def spin_init_def spin_lock_cas_def)
  have s4: "spin_step m3 (spin_lock_cas 1 7 m3)"
    by (rule cas) (simp add: m3_def m2_def m1_def spin_lock_enter_def lock_current_cpu_Some
        holding_def spin_init_def spin_lock_cas_def)
  have "spin_step\<^sup>*\<^sup>* spin_init (spin_lock_cas 1 7 m3)"
    using s1 s2 s3 s4 by (meson converse_rtranclp_into_rtranclp r_into_rtranclp)
  then show ?thesis by (simp add: spin_example_def m3_def m2_def m1_def)
qed

theorem spinlock_mutual_exclusion_witness:
  "\<not> interrupts_get (harts spin_example 0) \<and> spin_lock_enter 0 7 spin_example = None"
proof -
  have "7 \<in> set (guards spin_example 0)"
    by (simp add: spin_example_def spin_lock_enter_def lock_current_cpu_Some holding_def
        spin_init_def spin_lock_cas_def)
  with spinlock_mutual_exclusion [OF spin_example_reachable, of 7 0 0] show ?thesis by blast
qed

section \<open>One-time initialisation\<close>

datatype OnceLockState = Incomplete | Complete

record 'a OnceLock =
  once_state :: OnceLockState
  once_value :: "'a option"

definition once_new :: "'a OnceLock" where
  "once_new = \<lparr>once_state = Incomplete, once_value = None\<rparr>"

definition once_initialize :: "(unit \<Rightarrow> ('a, 'e) result) \<Rightarrow> 'a OnceLock \<Rightarrow> 'a OnceLock option" where
  "once_initialize f c =
     (if once_state c = Incomplete
      then case f () of Ok v \<Rightarrow> Some (c\<lparr>once_value := Some v, once_state := Complete\<rparr>) | Err _ \<Rightarrow> None
      else Some c)"

definition once_get :: "'a OnceLock \<Rightarrow> 'a option" where
  "once_get c = (if once_state c = Complete then once_value c else None)"

lemma once_initialize_get:
  "once_initialize f once_new = Some c \<Longrightarrow>
     (\<exists>v. f () = Ok v \<and> once_get c = Some v) \<and> once_initialize g c = Some c"
  by (auto simp: once_initialize_def once_new_def once_get_def split: result.splits)

end
