(* ===== verification/Sched.thy ===== *)
theory Sched
  imports Locks Abi
begin

text \<open>
  The process table and the stride scheduler (\<open>kernel/src/proc.rs\<close>): the lock-protected part
  \<open>ProcInner\<close> of every process, the \<open>parents\<close> array, what each CPU runs, and every operation on
  them: allocation, dispatch, yield, sleep and wakeup, kill, the table part of fork, exit and wait.
  The private part \<open>ProcData\<close> (address space, files, directory) belongs to later theories.

  Process ids index the table, so \<open>&Proc\<close> is a number.  An operation is the code between acquiring
  and releasing the locks it holds; the step relation at the end interleaves operations of all CPUs.
\<close>

section \<open>Data\<close>

datatype ProcState = Unused | Used | Sleeping | Runnable | Running | Zombie

datatype Channel =
    ChProc nat | ChTicks | ChBuffer nat | ChLock nat | ChLog | ChPipeRead nat | ChPipeWrite nat

record ProcInner =
  p_state :: ProcState
  p_channel :: "Channel option"
  p_killed :: bool
  p_xstate :: usize
  p_pid :: usize
  p_tickets :: usize
  p_pass :: usize
  p_stride :: usize
  p_n_schedule :: usize

record PStat =
  ps_inuse :: usize
  ps_pid :: usize
  ps_tickets :: usize
  ps_pass :: usize
  ps_stride :: usize
  ps_n_schedule :: usize

definition LARGE_NUMBER :: usize where "LARGE_NUMBER = 3603600"

definition proc_inner_new :: ProcInner where
  "proc_inner_new =
     \<lparr>p_state = Unused, p_channel = None, p_killed = False, p_xstate = 0, p_pid = 0,
      p_tickets = 10, p_pass = 0, p_stride = LARGE_NUMBER div 10, p_n_schedule = 0\<rparr>"

text \<open>
  \<open>procs\<close> and \<open>parents\<close> are the fields of \<open>ProcTable\<close>; \<open>cpu_procs\<close> holds \<open>Cpu.proc\<close> of every
  CPU, \<open>pid_count\<close> the counter of \<open>Pid::alloc\<close> and \<open>init_proc\<close> the cell \<open>INIT_PROC\<close>.
\<close>

record Sched =
  procs :: "ProcInner list"
  parents :: "nat option list"
  cpu_procs :: "nat option list"
  pid_count :: usize
  init_proc :: "nat option"

definition proc_table_new :: Sched where
  "proc_table_new =
     \<lparr>procs = replicate NPROC proc_inner_new, parents = replicate NPROC None,
      cpu_procs = replicate NCPU None, pid_count = 1, init_proc = None\<rparr>"

definition upd_proc :: "nat \<Rightarrow> (ProcInner \<Rightarrow> ProcInner) \<Rightarrow> Sched \<Rightarrow> Sched" where
  "upd_proc i f s = s\<lparr>procs := (procs s)[i := f (procs s ! i)]\<rparr>"

section \<open>Operations of the table\<close>

definition pid_alloc :: "Sched \<Rightarrow> usize \<times> Sched" where
  "pid_alloc s = (pid_count s, s\<lparr>pid_count := pid_count s + 1\<rparr>)"

text \<open>The table part of \<open>ProcTable::alloc\<close>: the first unused slot becomes \<open>Used\<close>.\<close>

definition alloc_inner :: "Sched \<Rightarrow> (nat \<times> Sched) option" where
  "alloc_inner s =
     (case find_index (\<lambda>p. p_state p = Unused) (procs s) of
        None \<Rightarrow> None
      | Some i \<Rightarrow>
          let (pid, s) = pid_alloc s
          in Some (i, upd_proc i (\<lambda>p. p\<lparr>p_pid := pid, p_state := Used, p_tickets := 10,
                                        p_stride := LARGE_NUMBER div 10, p_n_schedule := 0\<rparr>) s))"

text \<open>The table part of \<open>Proc::free\<close>.\<close>

definition free_inner :: "nat \<Rightarrow> Sched \<Rightarrow> Sched" where
  "free_inner i =
     upd_proc i (\<lambda>p. p\<lparr>p_pid := 0, p_channel := None, p_killed := False, p_xstate := 0, p_state := Unused\<rparr>)"

definition set_tickets :: "nat \<Rightarrow> usize \<Rightarrow> Sched \<Rightarrow> (unit, KernelError) result \<times> Sched" where
  "set_tickets i tickets s =
     (if 10 \<le> tickets \<and> tickets \<le> 150 \<and> tickets mod 10 = 0
      then (Ok (), upd_proc i (\<lambda>p. p\<lparr>p_tickets := tickets, p_stride := LARGE_NUMBER div tickets\<rparr>) s)
      else (Err KInvalidArgument, s))"

text \<open>\<open>min_by_key\<close> keeps the first of several minima.\<close>

fun min_by_key :: "('a \<times> usize) list \<Rightarrow> ('a \<times> usize) option" where
  "min_by_key [] = None"
| "min_by_key (x # xs) =
     (case min_by_key xs of None \<Rightarrow> Some x | Some y \<Rightarrow> if snd y < snd x then Some y else Some x)"

definition min_pass :: "ProcState list \<Rightarrow> ProcInner list \<Rightarrow> (nat \<times> usize) option" where
  "min_pass states ps =
     min_by_key (List.map_filter
       (\<lambda>i. if p_state (ps ! i) \<in> set states then Some (i, p_pass (ps ! i)) else None) [0..<length ps])"

definition getpinfo :: "nat \<Rightarrow> Sched \<Rightarrow> PStat option" where
  "getpinfo index s =
     (if index < length (procs s) then
        let inner = procs s ! index
        in Some \<lparr>ps_inuse = (if p_state inner \<noteq> Unused then 1 else 0), ps_pid = p_pid inner,
                 ps_tickets = p_tickets inner, ps_pass = p_pass inner, ps_stride = p_stride inner,
                 ps_n_schedule = p_n_schedule inner\<rparr>
      else None)"

definition is_killed :: "nat \<Rightarrow> Sched \<Rightarrow> bool" where
  "is_killed i s = p_killed (procs s ! i)"

section \<open>Sleep and wakeup\<close>

definition wake_one :: "nat option \<Rightarrow> Channel \<Rightarrow> usize option \<Rightarrow> nat \<Rightarrow> ProcInner \<Rightarrow> ProcInner" where
  "wake_one cur ch baseline i p =
     (if cur = Some i then p
      else if p_state p = Sleeping \<and> p_channel p = Some ch
      then p\<lparr>p_pass := (case baseline of Some b \<Rightarrow> max (p_pass p) b | None \<Rightarrow> p_pass p), p_state := Runnable\<rparr>
      else p)"

definition wake_baseline :: "nat option \<Rightarrow> Sched \<Rightarrow> usize option" where
  "wake_baseline cur s =
     (case min_pass [Runnable] (procs s) of
        Some (_, pass) \<Rightarrow> Some pass
      | None \<Rightarrow> map_option (\<lambda>i. p_pass (procs s ! i)) cur)"

definition wakeup :: "nat option \<Rightarrow> Channel \<Rightarrow> Sched \<Rightarrow> Sched" where
  "wakeup cur ch s =
     (let baseline = wake_baseline cur s
      in s\<lparr>procs := map (\<lambda>i. wake_one cur ch baseline i (procs s ! i)) [0..<length (procs s)]\<rparr>)"

definition sleep_enter :: "nat \<Rightarrow> Channel \<Rightarrow> Sched \<Rightarrow> Sched" where
  "sleep_enter i ch = upd_proc i (\<lambda>p. p\<lparr>p_channel := Some ch, p_state := Sleeping\<rparr>)"

definition sleep_exit :: "nat \<Rightarrow> Sched \<Rightarrow> Sched" where
  "sleep_exit i = upd_proc i (\<lambda>p. p\<lparr>p_channel := None\<rparr>)"

definition kill :: "usize \<Rightarrow> Sched \<Rightarrow> bool \<times> Sched" where
  "kill pid s =
     (case find_index (\<lambda>p. p_state p \<noteq> Unused \<and> p_pid p = pid) (procs s) of
        None \<Rightarrow> (False, s)
      | Some i \<Rightarrow>
          (True, upd_proc i (\<lambda>p. p\<lparr>p_killed := True,
                                   p_state := (if p_state p = Sleeping then Runnable else p_state p)\<rparr>) s))"

definition pid_exists :: "usize \<Rightarrow> Sched \<Rightarrow> bool" where
  "pid_exists pid s \<longleftrightarrow> (\<exists>p \<in> set (procs s). p_pid p = pid \<and> p_state p \<noteq> Unused)"

section \<open>The scheduler\<close>

text \<open>
  \<open>stride_scheduler\<close> in three parts: the choice, the dispatch of the chosen process (which first
  checks that it is still runnable and that its next pass does not overflow), and the return from
  \<open>swtch\<close>.  \<open>normalise\<close> is the branch that subtracts the smallest active pass from every pass.
\<close>

definition normalise :: "Sched \<Rightarrow> Sched" where
  "normalise s =
     (case min_pass [Running, Runnable] (procs s) of
        None \<Rightarrow> s
      | Some (_, baseline) \<Rightarrow>
          s\<lparr>procs := map (\<lambda>p. p\<lparr>p_pass := saturating_sub (p_pass p) baseline\<rparr>) (procs s)\<rparr>)"

definition stride_dispatch :: "nat \<Rightarrow> nat \<Rightarrow> Sched \<Rightarrow> Sched" where
  "stride_dispatch c i s =
     (let inner = procs s ! i in
      if p_state inner \<noteq> Runnable then s
      else if checked_add (p_pass inner) (p_stride inner) = None then normalise s
      else (upd_proc i (\<lambda>p. p\<lparr>p_state := Running\<rparr>) s)\<lparr>cpu_procs := (cpu_procs s)[c := Some i]\<rparr>)"

definition switch_back :: "nat \<Rightarrow> nat \<Rightarrow> Sched \<Rightarrow> Sched" where
  "switch_back c i s =
     (upd_proc i (\<lambda>p. p\<lparr>p_pass := p_pass p + p_stride p, p_n_schedule := p_n_schedule p + 1\<rparr>) s)
       \<lparr>cpu_procs := (cpu_procs s)[c := None]\<rparr>"

definition stride_pick :: "Sched \<Rightarrow> nat option" where
  "stride_pick s = map_option fst (min_pass [Runnable] (procs s))"

text \<open>
  \<open>sched\<close>: the assertions before \<open>swtch\<close>, which yield the saved interrupt state, and the restore
  on the CPU where the process resumes.
\<close>

definition sched_enter :: "Hart \<Rightarrow> ProcInner \<Rightarrow> bool option" where
  "sched_enter h inner = do {
     c \<leftarrow> current_cpu h;
     assert_that (num_off c = 1);
     assert_that (p_state inner \<noteq> Running);
     assert_that (\<not> interrupts_get h);
     Some (interrupts_enabled c)
   }"

definition sched_resume :: "bool \<Rightarrow> Hart \<Rightarrow> Hart option" where
  "sched_resume saved_enabled h = do {
     c \<leftarrow> current_cpu h;
     Some (h\<lparr>cpu := c\<lparr>interrupts_enabled := saved_enabled\<rparr>\<rparr>)
   }"

definition yield_proc :: "nat \<Rightarrow> Sched \<Rightarrow> Sched" where
  "yield_proc i = upd_proc i (\<lambda>p. p\<lparr>p_state := Runnable\<rparr>)"

section \<open>Fork, exit and wait on the table\<close>

text \<open>The tail of \<open>fork\<close>: record the parent, choose the child's pass, make it runnable.\<close>

definition fork_publish :: "nat \<Rightarrow> usize \<Rightarrow> nat \<Rightarrow> Sched \<Rightarrow> Sched" where
  "fork_publish parent parent_pass child s =
     (let s = s\<lparr>parents := (parents s)[child := Some parent]\<rparr>;
          pass = (case min_pass [Runnable] (procs s) of Some (_, low) \<Rightarrow> low | None \<Rightarrow> parent_pass)
      in upd_proc child (\<lambda>p. p\<lparr>p_pass := pass, p_state := Runnable\<rparr>) s)"

definition reparent_one :: "nat \<Rightarrow> nat option \<Rightarrow> Sched \<Rightarrow> nat \<Rightarrow> Sched option" where
  "reparent_one original cur s i =
     (if parents s ! i = Some original then do {
        init \<leftarrow> init_proc s;
        Some (wakeup cur (ChProc init) (s\<lparr>parents := (parents s)[i := Some init]\<rparr>))
      } else Some s)"

fun reparent_list :: "nat \<Rightarrow> nat option \<Rightarrow> nat list \<Rightarrow> Sched \<Rightarrow> Sched option" where
  "reparent_list original cur [] s = Some s"
| "reparent_list original cur (i # is) s = do {
     s \<leftarrow> reparent_one original cur s i;
     reparent_list original cur is s
   }"

definition reparent :: "nat \<Rightarrow> nat option \<Rightarrow> Sched \<Rightarrow> Sched option" where
  "reparent original cur s = reparent_list original cur [0..<length (parents s)] s"

text \<open>
  \<open>exit\<close> after the files are closed: children go to init, the parent is woken, the process becomes
  a zombie.  Init itself must not exit, and the process must have a parent.
\<close>

definition exit_inner :: "nat \<Rightarrow> usize \<Rightarrow> Sched \<Rightarrow> Sched option" where
  "exit_inner i status s = do {
     init \<leftarrow> init_proc s;
     assert_that (i \<noteq> init);
     s \<leftarrow> reparent i (Some i) s;
     parent_id \<leftarrow> parents s ! i;
     let s = wakeup (Some i) (ChProc parent_id) s;
     Some (upd_proc i (\<lambda>p. p\<lparr>p_xstate := status, p_state := Zombie\<rparr>) s)
   }"

text \<open>One scan of the loop in \<open>wait\<close>.\<close>

datatype wait_scan = Reap nat | NoChild | ChildAlive

definition wait_scan_children :: "nat \<Rightarrow> Sched \<Rightarrow> wait_scan" where
  "wait_scan_children cur s =
     (case find_index (\<lambda>i. parents s ! i = Some cur \<and> p_state (procs s ! i) = Zombie) [0..<length (procs s)] of
        Some i \<Rightarrow> Reap i
      | None \<Rightarrow> if (\<exists>i \<in> set [0..<length (procs s)]. parents s ! i = Some cur) \<and> \<not> p_killed (procs s ! cur)
               then ChildAlive else NoChild)"

definition reap :: "nat \<Rightarrow> Sched \<Rightarrow> usize \<times> Sched" where
  "reap i s = (p_pid (procs s ! i), free_inner i (s\<lparr>parents := (parents s)[i := None]\<rparr>))"

section \<open>Facts about the operations\<close>

lemma upd_proc_simps [simp]:
  "length (procs (upd_proc i f s)) = length (procs s)"
  "parents (upd_proc i f s) = parents s"
  "cpu_procs (upd_proc i f s) = cpu_procs s"
  "pid_count (upd_proc i f s) = pid_count s"
  "init_proc (upd_proc i f s) = init_proc s"
  by (simp_all add: upd_proc_def)

lemma procs_upd_proc [table_simps]:
  "j < length (procs s) \<Longrightarrow> procs (upd_proc i f s) ! j = (if i = j then f (procs s ! j) else procs s ! j)"
  by (auto simp: upd_proc_def nth_list_update)

lemma min_by_key_None [simp]: "min_by_key xs = None \<longleftrightarrow> xs = []"
  by (cases xs) (auto split: option.splits)

lemma min_by_key_Some:
  "min_by_key xs = Some x \<Longrightarrow>
     \<exists>k < length xs. x = xs ! k \<and> (\<forall>j < length xs. snd x \<le> snd (xs ! j)) \<and> (\<forall>j < k. snd x < snd (xs ! j))"
proof (induction xs arbitrary: x)
  case Nil
  then show ?case by simp
next
  case (Cons a xs)
  show ?case
  proof (cases "min_by_key xs")
    case None
    with Cons.prems show ?thesis by (intro exI [of _ 0]) simp
  next
    case (Some y)
    from Cons.IH [OF this] obtain k where
      k: "k < length xs" "y = xs ! k" "\<forall>j < length xs. snd y \<le> snd (xs ! j)" "\<forall>j < k. snd y < snd (xs ! j)"
      by blast
    show ?thesis
    proof (cases "snd y < snd a")
      case True
      with Cons.prems Some have "x = y" by simp
      with k True show ?thesis by (intro exI [of _ "Suc k"]) (auto simp: less_Suc_eq_0_disj)
    next
      case False
      with Cons.prems Some have "x = a" by simp
      with k False show ?thesis
        by (intro exI [of _ 0]) (auto simp: less_Suc_eq_0_disj intro: order_trans [of "snd a" "snd y"])
    qed
  qed
qed

lemma set_min_by_key_candidates:
  "set (List.map_filter (\<lambda>i. if P i then Some (i, f i) else None) [0..<n]) = {(i, f i) | i. i < n \<and> P i}"
  by (force simp: List.map_filter_def)

lemma candidates_sorted:
  "sorted_wrt (\<lambda>x y. fst x < fst y) (List.map_filter (\<lambda>i. if P i then Some (i, f i) else None) [0..<n])"
proof -
  have "List.map_filter (\<lambda>i. if P i then Some (i, f i) else None) xs = map (\<lambda>i. (i, f i)) (filter P xs)" for xs
    by (induction xs) (auto simp: List.map_filter_def)
  then show ?thesis
    by (simp add: sorted_wrt_map sorted_wrt_filter)
qed

lemma min_pass_None:
  "min_pass states ps = None \<longleftrightarrow> (\<forall>i < length ps. p_state (ps ! i) \<notin> set states)"
proof -
  have e: "xs = [] \<longleftrightarrow> set xs = {}" for xs :: "(nat \<times> usize) list" by simp
  show ?thesis
    unfolding min_pass_def min_by_key_None e by (subst set_min_by_key_candidates) auto
qed

lemma min_pass_Some:
  assumes "min_pass states ps = Some (i, v)"
  shows "i < length ps" "p_state (ps ! i) \<in> set states" "v = p_pass (ps ! i)"
    and "\<And>j. j < length ps \<Longrightarrow> p_state (ps ! j) \<in> set states \<Longrightarrow> p_pass (ps ! i) \<le> p_pass (ps ! j)"
    and "\<And>j. j < i \<Longrightarrow> p_state (ps ! j) \<in> set states \<Longrightarrow> p_pass (ps ! i) < p_pass (ps ! j)"
proof -
  define xs where "xs = List.map_filter
    (\<lambda>i. if p_state (ps ! i) \<in> set states then Some (i, p_pass (ps ! i)) else None) [0..<length ps]"
  have set_xs: "set xs = {(i, p_pass (ps ! i)) | i. i < length ps \<and> p_state (ps ! i) \<in> set states}"
    unfolding xs_def by (rule set_min_by_key_candidates)
  have sorted: "sorted_wrt (\<lambda>x y. fst x < fst y) xs"
    unfolding xs_def by (rule candidates_sorted)
  from min_by_key_Some [of xs "(i, v)"] assms obtain k where
    k: "k < length xs" "(i, v) = xs ! k" "\<forall>j < length xs. v \<le> snd (xs ! j)" "\<forall>j < k. v < snd (xs ! j)"
    by (auto simp: min_pass_def xs_def)
  then have "(i, v) \<in> set xs" by (metis nth_mem)
  then show i: "i < length ps" "p_state (ps ! i) \<in> set states" "v = p_pass (ps ! i)"
    by (auto simp: set_xs)
  show "p_pass (ps ! i) \<le> p_pass (ps ! j)" if "j < length ps" "p_state (ps ! j) \<in> set states" for j
  proof -
    have "(j, p_pass (ps ! j)) \<in> set xs" using that by (auto simp: set_xs)
    then obtain n where "n < length xs" "xs ! n = (j, p_pass (ps ! j))" by (auto simp: in_set_conv_nth)
    with k i show ?thesis by force
  qed
  show "p_pass (ps ! i) < p_pass (ps ! j)" if "j < i" "p_state (ps ! j) \<in> set states" for j
  proof -
    have "(j, p_pass (ps ! j)) \<in> set xs" using that i(1) by (auto simp: set_xs)
    then obtain n where n: "n < length xs" "xs ! n = (j, p_pass (ps ! j))" by (auto simp: in_set_conv_nth)
    have "n < k"
    proof (rule ccontr)
      assume "\<not> n < k"
      moreover have "n \<noteq> k" using n k(2) that by auto
      ultimately have "fst (xs ! k) < fst (xs ! n)"
        using sorted n(1) by (simp add: sorted_wrt_iff_nth_less)
      then show False using that n k(2) [symmetric] by simp
    qed
    with k i n show ?thesis by force
  qed
qed

text \<open>
  Property C37.  \<open>min_pass\<close> finds the first process of smallest pass among those in the given states,
  and finds none exactly when there is none.
\<close>

theorem min_pass_first_minimum:
  "min_pass states ps = Some (i, v) \<longleftrightarrow>
     i < length ps \<and> p_state (ps ! i) \<in> set states \<and> v = p_pass (ps ! i) \<and>
     (\<forall>j. j < length ps \<and> p_state (ps ! j) \<in> set states \<longrightarrow> p_pass (ps ! i) \<le> p_pass (ps ! j)) \<and>
     (\<forall>j. j < i \<and> p_state (ps ! j) \<in> set states \<longrightarrow> p_pass (ps ! i) < p_pass (ps ! j))"
    (is "_ \<longleftrightarrow> ?R")
proof
  assume "min_pass states ps = Some (i, v)"
  from min_pass_Some [OF this] show ?R by blast
next
  assume R: ?R
  then have "min_pass states ps \<noteq> None" by (auto simp: min_pass_None)
  then obtain k w where kw: "min_pass states ps = Some (k, w)" by auto
  note K = min_pass_Some [OF kw]
  have "i = k"
  proof (rule linorder_cases [of i k])
    assume "i < k"
    with R K(5) [of i] K(1) have "p_pass (ps ! k) < p_pass (ps ! i)" by auto
    with R K(1,2) show ?thesis by (meson leD)
  next
    assume "k < i"
    with R K(1,2) have "p_pass (ps ! i) < p_pass (ps ! k)" by blast
    with R K(4) [of i] show ?thesis by (meson leD)
  qed
  with R K(3) kw show "min_pass states ps = Some (i, v)" by simp
qed

definition example_procs :: "ProcInner list" where
  "example_procs =
     [proc_inner_new\<lparr>p_state := Sleeping\<rparr>, proc_inner_new\<lparr>p_state := Runnable, p_pass := 9\<rparr>,
      proc_inner_new\<lparr>p_state := Runnable, p_pass := 4\<rparr>]"

theorem min_pass_first_minimum_witness:
  "min_pass [Runnable] example_procs = Some (2, 4) \<and> p_pass (example_procs ! 2) \<le> p_pass (example_procs ! 1)"
proof -
  have e: "min_pass [Runnable] example_procs = Some (2, 4)" by code_simp
  from iffD1 [OF min_pass_first_minimum e] have
    "p_pass (example_procs ! 2) \<le> p_pass (example_procs ! 1)" by (simp add: example_procs_def)
  with e show ?thesis by simp
qed

section \<open>Proportional share\<close>

text \<open>
  What stride scheduling promises, for any machine whose step either runs a process of smallest pass
  and advances its pass by its stride, or lowers all passes by the same amount.
\<close>

fun run_times :: "('s \<Rightarrow> nat option \<times> 's) \<Rightarrow> nat \<Rightarrow> 's \<Rightarrow> nat list \<times> 's" where
  "run_times step 0 s = ([], s)"
| "run_times step (Suc n) s =
     (case step s of (p, s1) \<Rightarrow>
      case run_times step n s1 of (ps, s2) \<Rightarrow> (case p of None \<Rightarrow> ps | Some i \<Rightarrow> i # ps, s2))"

locale stride_share =
  fixes inv :: "'s \<Rightarrow> bool"
    and active :: "'s \<Rightarrow> nat set"
    and pass :: "'s \<Rightarrow> nat \<Rightarrow> nat"
    and stride :: "'s \<Rightarrow> nat \<Rightarrow> nat"
    and step :: "'s \<Rightarrow> nat option \<times> 's"
  assumes step_inv: "inv s \<Longrightarrow> step s = (p, s') \<Longrightarrow> inv s' \<and> active s' = active s"
    and step_stride: "inv s \<Longrightarrow> step s = (p, s') \<Longrightarrow> j \<in> active s \<Longrightarrow> stride s' j = stride s j"
    and step_run: "inv s \<Longrightarrow> step s = (Some i, s') \<Longrightarrow> i \<in> active s \<and> pass s' i = pass s i + stride s i"
    and step_min: "inv s \<Longrightarrow> step s = (Some i, s') \<Longrightarrow> j \<in> active s \<Longrightarrow> pass s i \<le> pass s j"
    and step_other: "inv s \<Longrightarrow> step s = (Some i, s') \<Longrightarrow> j \<in> active s \<Longrightarrow> j \<noteq> i \<Longrightarrow> pass s' j = pass s j"
    and step_shift: "inv s \<Longrightarrow> step s = (None, s') \<Longrightarrow> \<exists>b. \<forall>j \<in> active s. pass s j = pass s' j + b"
begin

definition fair :: "'s \<Rightarrow> bool" where
  "fair s \<longleftrightarrow> (\<forall>i \<in> active s. \<forall>j \<in> active s. pass s i \<le> pass s j + stride s i)"

lemma fair_step:
  assumes "inv s" "fair s" and st: "step s = (p, s')"
  shows "fair s'"
proof (cases p)
  case None
  from step_shift [OF assms(1) st [unfolded None]] obtain b where
    b: "\<forall>j \<in> active s. pass s j = pass s' j + b" by blast
  show ?thesis unfolding fair_def
  proof (intro ballI)
    fix i j assume "i \<in> active s'" "j \<in> active s'"
    then have ij: "i \<in> active s" "j \<in> active s" using step_inv [OF assms(1) st] by auto
    then have "pass s i \<le> pass s j + stride s i" using assms(2) by (simp add: fair_def)
    with ij b step_stride [OF assms(1) st] show "pass s' i \<le> pass s' j + stride s' i" by simp
  qed
next
  case (Some k)
  note st = st [unfolded Some]
  show ?thesis unfolding fair_def
  proof (intro ballI)
    fix i j assume "i \<in> active s'" "j \<in> active s'"
    then have ij: "i \<in> active s" "j \<in> active s" using step_inv [OF assms(1) st] by auto
    then have "pass s i \<le> pass s j + stride s i" using assms(2) by (simp add: fair_def)
    moreover have "pass s k \<le> pass s j" using step_min [OF assms(1) st ij(2)] .
    moreover have "pass s j \<le> pass s' j"
      using step_run [OF assms(1) st] step_other [OF assms(1) st ij(2)] by (cases "j = k") auto
    moreover have "pass s' i = (if i = k then pass s k + stride s k else pass s i)"
      using step_run [OF assms(1) st] step_other [OF assms(1) st ij(1)] by auto
    ultimately show "pass s' i \<le> pass s' j + stride s' i"
      using step_stride [OF assms(1) st ij(1)] by auto
  qed
qed

lemma run_times_balance:
  "inv s \<Longrightarrow> run_times step n s = (ps, s') \<Longrightarrow> i \<in> active s \<Longrightarrow> j \<in> active s \<Longrightarrow>
     active s' = active s \<and> stride s' i = stride s i \<and> (fair s \<longrightarrow> fair s') \<and>
     int (count_list ps i * stride s i) - int (count_list ps j * stride s j) =
       (int (pass s' i) - int (pass s' j)) - (int (pass s i) - int (pass s j))"
proof (induction n arbitrary: s ps)
  case 0
  then show ?case by simp
next
  case (Suc n)
  obtain p s1 where st: "step s = (p, s1)" by fastforce
  from Suc.prems(2) st obtain ps1 where r: "run_times step n s1 = (ps1, s')"
    and eq: "ps = (case p of None \<Rightarrow> ps1 | Some k \<Rightarrow> k # ps1)" by (auto split: prod.splits)
  note inv1 = step_inv [OF Suc.prems(1) st]
  with Suc.prems have ij: "i \<in> active s1" "j \<in> active s1" by auto
  note strides = step_stride [OF Suc.prems(1) st Suc.prems(3)] step_stride [OF Suc.prems(1) st Suc.prems(4)]
  note IH = Suc.IH [OF conjunct1 [OF inv1] r ij]
  have "int (count_list ps i * stride s i) - int (count_list ps j * stride s j) =
        (int (pass s1 i) - int (pass s1 j)) - (int (pass s i) - int (pass s j)) +
        (int (count_list ps1 i * stride s i) - int (count_list ps1 j * stride s j))"
  proof (cases p)
    case None
    with step_shift [OF Suc.prems(1)] st obtain b where "\<forall>k \<in> active s. pass s k = pass s1 k + b" by blast
    with Suc.prems show ?thesis by (simp add: eq None)
  next
    case (Some k)
    note st = st [unfolded Some]
    have "pass s1 l = (if l = k then pass s l + stride s l else pass s l)" if "l \<in> active s" for l
      using step_run [OF Suc.prems(1) st] step_other [OF Suc.prems(1) st that] by auto
    with Suc.prems show ?thesis by (auto simp: eq Some algebra_simps)
  qed
  with IH inv1 strides eq fair_step [OF Suc.prems(1) _ st] show ?case by auto
qed

lemma proportional_share:
  assumes "inv s" "fair s" "run_times step n s = (ps, s')" "i \<in> active s" "j \<in> active s"
  shows "count_list ps i * stride s i \<le> count_list ps j * stride s j + stride s i + stride s j"
proof -
  note B = run_times_balance [OF assms(1,3,4,5)]
  have "fair s'" using B assms(2) by simp
  then have "pass s' i \<le> pass s' j + stride s' i" using B assms(4,5) unfolding fair_def by blast
  then have "pass s' i \<le> pass s' j + stride s i" using B by simp
  moreover from assms have "pass s j \<le> pass s i + stride s j" by (auto simp: fair_def)
  ultimately have "int (count_list ps i * stride s i) - int (count_list ps j * stride s j)
      \<le> int (stride s i) + int (stride s j)" using B by linarith
  then show ?thesis by linarith
qed

end

text \<open>
  One iteration of \<open>stride_scheduler\<close> on a CPU whose processes only run and yield: pick, dispatch,
  and on a dispatch the time slice ends with \<open>yield\<close> and the return to the scheduler.
\<close>

definition stride_round :: "nat \<Rightarrow> Sched \<Rightarrow> nat option \<times> Sched" where
  "stride_round c s =
     (case stride_pick s of
        None \<Rightarrow> (None, s)
      | Some i \<Rightarrow>
          let s' = stride_dispatch c i s
          in if p_state (procs s' ! i) = Running then (Some i, switch_back c i (yield_proc i s'))
             else (None, s'))"

definition nobody_runs :: "Sched \<Rightarrow> bool" where
  "nobody_runs s \<longleftrightarrow> (\<forall>i < length (procs s). p_state (procs s ! i) \<noteq> Running)"

definition runnable_set :: "Sched \<Rightarrow> nat set" where
  "runnable_set s = {i. i < length (procs s) \<and> p_state (procs s ! i) = Runnable}"

definition pass_of :: "Sched \<Rightarrow> nat \<Rightarrow> nat" where "pass_of s i = unat (p_pass (procs s ! i))"
definition stride_of :: "Sched \<Rightarrow> nat \<Rightarrow> nat" where "stride_of s i = unat (p_stride (procs s ! i))"

lemma normalise_procs:
  assumes "min_pass [Running, Runnable] (procs s) = Some (k, b)"
  shows "length (procs (normalise s)) = length (procs s)"
    "i < length (procs s) \<Longrightarrow>
       procs (normalise s) ! i =
         (procs s ! i)\<lparr>p_pass := saturating_sub (p_pass (procs s ! i)) b\<rparr>"
  using assms by (simp_all add: normalise_def)

lemma stride_round_cases:
  assumes "nobody_runs s" "stride_round c s = (p, s')"
  obtains (idle) "p = None" "s' = s" "runnable_set s = {}"
  | (shift) k b where "p = None" "s' = normalise s" "min_pass [Runnable] (procs s) = Some (k, b)"
      "unat b + stride_of s k \<ge> 2 ^ 64"
  | (run) i where "p = Some i" "i \<in> runnable_set s" "\<forall>j \<in> runnable_set s. pass_of s i \<le> pass_of s j"
      "pass_of s i + stride_of s i < 2 ^ 64" "length (procs s') = length (procs s)"
      "\<forall>j < length (procs s). procs s' ! j =
         (if j = i then (procs s ! i)\<lparr>p_pass := p_pass (procs s ! i) + p_stride (procs s ! i),
             p_n_schedule := p_n_schedule (procs s ! i) + 1\<rparr> else procs s ! j)"
proof (cases "min_pass [Runnable] (procs s)")
  case None
  then have "runnable_set s = {}" by (auto simp: runnable_set_def min_pass_None)
  with None idle assms(2) show ?thesis by (simp add: stride_round_def stride_pick_def)
next
  case (Some kb)
  obtain i b where kb: "min_pass [Runnable] (procs s) = Some (i, b)" using Some by (cases kb) auto
  note M = min_pass_Some [OF kb]
  have i: "i < length (procs s)" "p_state (procs s ! i) = Runnable" "b = p_pass (procs s ! i)"
    using M by auto
  show ?thesis
  proof (cases "pass_of s i + stride_of s i < 2 ^ 64")
    case False
    have "min_pass [Running, Runnable] (procs s) \<noteq> None" using i by (auto simp: min_pass_None)
    then obtain k' b' where "min_pass [Running, Runnable] (procs s) = Some (k', b')" by auto
    then have "p_state (procs (normalise s) ! i) = Runnable" using i by (simp add: normalise_procs)
    with False i kb assms(2) show ?thesis
      by (intro shift [of i b])
         (auto simp: stride_round_def stride_pick_def stride_dispatch_def pass_of_def stride_of_def Let_def
           checked_add_None)
  next
    case True
    have "\<forall>j \<in> runnable_set s. pass_of s i \<le> pass_of s j"
      using M(4) by (auto simp: runnable_set_def pass_of_def word_le_nat_alt)
    with True i kb assms(2) show ?thesis
      by (intro run [of i])
         (auto simp: stride_round_def stride_pick_def stride_dispatch_def pass_of_def stride_of_def Let_def
           checked_add_None
           runnable_set_def table_simps switch_back_def yield_proc_def)
  qed
qed

lemma normalise_shift:
  assumes "nobody_runs s" "min_pass [Runnable] (procs s) = Some (k, b)"
  shows "length (procs (normalise s)) = length (procs s)"
    "i < length (procs s) \<Longrightarrow> p_state (procs (normalise s) ! i) = p_state (procs s ! i)"
    "i < length (procs s) \<Longrightarrow> p_stride (procs (normalise s) ! i) = p_stride (procs s ! i)"
    "i \<in> runnable_set s \<Longrightarrow> pass_of s i = pass_of (normalise s) i + unat b"
proof -
  note M = min_pass_Some [OF assms(2)]
  have "min_pass [Running, Runnable] (procs s) \<noteq> None" using M(1,2) by (auto simp: min_pass_None)
  then obtain k' b' where kb: "min_pass [Running, Runnable] (procs s) = Some (k', b')" by auto
  note M' = min_pass_Some [OF kb]
  have k': "p_state (procs s ! k') = Runnable" using M'(1,2) assms(1) by (auto simp: nobody_runs_def)
  have "b' = b" using M M' k' by (auto intro: antisym)
  note N = normalise_procs [OF kb]
  show "length (procs (normalise s)) = length (procs s)"
    "i < length (procs s) \<Longrightarrow> p_state (procs (normalise s) ! i) = p_state (procs s ! i)"
    "i < length (procs s) \<Longrightarrow> p_stride (procs (normalise s) ! i) = p_stride (procs s ! i)"
    using N by simp_all
  show "pass_of s i = pass_of (normalise s) i + unat b" if "i \<in> runnable_set s"
  proof -
    have "b \<le> p_pass (procs s ! i)" using M(3,4) that by (auto simp: runnable_set_def)
    with that N(2) \<open>b' = b\<close> show ?thesis
      by (auto simp: pass_of_def runnable_set_def unat_saturating_sub word_le_nat_alt)
  qed
qed

lemma stride_round_invariant:
  assumes "nobody_runs s" "stride_round c s = (p, s')"
  shows "nobody_runs s' \<and> runnable_set s' = runnable_set s \<and>
         (\<forall>j \<in> runnable_set s. stride_of s' j = stride_of s j)"
  using assms
proof (cases rule: stride_round_cases)
  case idle
  with assms show ?thesis by simp
next
  case (shift k b)
  with normalise_shift [OF assms(1) shift(3)] assms(1) show ?thesis
    by (auto simp: nobody_runs_def runnable_set_def stride_of_def)
next
  case (run i)
  have "p_state (procs s' ! j) = p_state (procs s ! j)" "p_stride (procs s' ! j) = p_stride (procs s ! j)"
    if "j < length (procs s)" for j using run(6) that by simp_all
  with run assms(1) show ?thesis
    by (auto simp: nobody_runs_def runnable_set_def stride_of_def)
qed

interpretation ss: stride_share nobody_runs runnable_set pass_of stride_of "stride_round c" for c
proof
  fix s p s' j
  assume s: "nobody_runs s" "stride_round c s = (p, s')"
  show "nobody_runs s' \<and> runnable_set s' = runnable_set s" using stride_round_invariant [OF s] by simp
  show "stride_of s' j = stride_of s j" if "j \<in> runnable_set s" using stride_round_invariant [OF s] that by simp
next
  fix s i s' j
  assume s: "nobody_runs s" "stride_round c s = (Some i, s')"
  note R = stride_round_cases [OF s]
  have "i \<in> runnable_set s \<and> pass_of s' i = pass_of s i + stride_of s i"
    by (rule R) (auto simp: pass_of_def stride_of_def runnable_set_def unat_word_ariths)
  then show "i \<in> runnable_set s \<and> pass_of s' i = pass_of s i + stride_of s i" .
  show "pass_of s i \<le> pass_of s j" if "j \<in> runnable_set s" by (rule R) (use that in auto)
  show "pass_of s' j = pass_of s j" if "j \<in> runnable_set s" "j \<noteq> i"
    by (rule R) (use that in \<open>auto simp: pass_of_def runnable_set_def\<close>)
next
  fix s s'
  assume s: "nobody_runs s" "stride_round c s = (None, s')"
  show "\<exists>b. \<forall>j \<in> runnable_set s. pass_of s j = pass_of s' j + b"
    using s
  proof (cases rule: stride_round_cases)
    case (shift k b)
    then show ?thesis using normalise_shift(4) [OF s(1) shift(3)] by blast
  qed auto
qed

text \<open>Tickets are the multiples of ten up to 150, and \<open>LARGE_NUMBER\<close> is divisible by all of them.\<close>

definition tickets_wf :: "ProcInner \<Rightarrow> bool" where
  "tickets_wf p \<longleftrightarrow> 10 \<le> p_tickets p \<and> p_tickets p \<le> 150 \<and> p_tickets p mod 10 = 0 \<and>
                    p_stride p = LARGE_NUMBER div p_tickets p"

lemma tickets_values:
  assumes "10 \<le> t" "t \<le> 150" "t mod 10 = (0 :: usize)"
  shows "unat t \<in> {10, 20, 30, 40, 50, 60, 70, 80, 90, 100, 110, 120, 130, 140, 150}"
proof -
  have "unat t mod 10 = 0" using arg_cong [OF assms(3), of unat] by (simp add: unat_mod)
  moreover have "10 \<le> unat t" "unat t \<le> 150" using assms(1,2) by (simp_all add: word_le_nat_alt)
  ultimately show ?thesis by (simp, presburger)
qed

lemma stride_times_tickets:
  assumes "tickets_wf p"
  shows "unat (p_stride p) * unat (p_tickets p) = 3603600"
proof -
  have "unat (p_stride p) = 3603600 div unat (p_tickets p)"
    using assms by (simp add: tickets_wf_def unat_div LARGE_NUMBER_def)
  with tickets_values [of "p_tickets p"] assms show ?thesis
    by (auto simp: tickets_wf_def)
qed

lemma set_tickets_wf:
  assumes "set_tickets i t s = (r, s')" "\<forall>k < length (procs s). tickets_wf (procs s ! k)" "j < length (procs s)"
  shows "tickets_wf (procs s' ! j)"
proof (cases "10 \<le> t \<and> t \<le> 150 \<and> t mod 10 = 0")
  case True
  then have "tickets_wf (p\<lparr>p_tickets := t, p_stride := LARGE_NUMBER div t\<rparr>)" for p :: ProcInner
    unfolding tickets_wf_def by simp
  moreover have "s' = upd_proc i (\<lambda>p. p\<lparr>p_tickets := t, p_stride := LARGE_NUMBER div t\<rparr>) s"
    using assms(1) unfolding set_tickets_def if_P [OF True] by (simp only: prod.inject)
  ultimately show ?thesis using assms(2,3) by (simp add: procs_upd_proc)
next
  case False
  then have "s' = s" using assms(1) unfolding set_tickets_def if_not_P [OF False] by (simp only: prod.inject)
  then show ?thesis using assms by simp
qed


text \<open>Two processes with 10 and 30 tickets share eight slices two to six.\<close>

definition example_share :: Sched where
  "example_share = proc_table_new\<lparr>procs :=
     [proc_inner_new\<lparr>p_state := Runnable\<rparr>,
      proc_inner_new\<lparr>p_state := Runnable, p_tickets := 30, p_stride := LARGE_NUMBER div 30\<rparr>]\<rparr>"



text \<open>A process whose next pass would overflow: the first round normalises, the second dispatches.\<close>

definition example_overflow :: Sched where
  "example_overflow =
     proc_table_new\<lparr>procs := [proc_inner_new\<lparr>p_state := Runnable, p_pass := - 1\<rparr>]\<rparr>"


section \<open>Wakeup and kill\<close>

lemma wakeup_simps [simp]:
  "length (procs (wakeup cur ch s)) = length (procs s)"
  "parents (wakeup cur ch s) = parents s"
  "cpu_procs (wakeup cur ch s) = cpu_procs s"
  "pid_count (wakeup cur ch s) = pid_count s"
  "init_proc (wakeup cur ch s) = init_proc s"
  by (simp_all add: wakeup_def Let_def)

lemma procs_wakeup [table_simps]:
  "i < length (procs s) \<Longrightarrow> procs (wakeup cur ch s) ! i = wake_one cur ch (wake_baseline cur s) i (procs s ! i)"
  by (simp add: wakeup_def Let_def)

lemma wake_one_fields [simp]:
  "p_channel (wake_one cur ch b i p) = p_channel p"
  "p_killed (wake_one cur ch b i p) = p_killed p"
  "p_pid (wake_one cur ch b i p) = p_pid p"
  "p_xstate (wake_one cur ch b i p) = p_xstate p"
  "p_tickets (wake_one cur ch b i p) = p_tickets p"
  "p_stride (wake_one cur ch b i p) = p_stride p"
  by (simp_all add: wake_one_def)

lemma wake_one_state:
  "p_state (wake_one cur ch b i p) =
     (if cur \<noteq> Some i \<and> p_state p = Sleeping \<and> p_channel p = Some ch then Runnable else p_state p)"
  by (simp add: wake_one_def)

text \<open>
  Property C27.  \<open>wakeup\<close> makes runnable exactly the processes that sleep on the channel, the caller
  excepted, and changes no other process.  A woken process cannot monopolise the CPU with a stale low
  pass: its pass is raised to at least the smallest runnable pass, and is never lowered.
\<close>

theorem wakeup_exact:
  assumes "i < length (procs s)"
  shows "(p_state (procs (wakeup cur ch s) ! i) =
            (if cur \<noteq> Some i \<and> p_state (procs s ! i) = Sleeping \<and> p_channel (procs s ! i) = Some ch
             then Runnable else p_state (procs s ! i))) \<and>
         (p_state (procs (wakeup cur ch s) ! i) = p_state (procs s ! i) \<longrightarrow>
            procs (wakeup cur ch s) ! i = procs s ! i) \<and>
         p_pass (procs s ! i) \<le> p_pass (procs (wakeup cur ch s) ! i) \<and>
         (p_state (procs (wakeup cur ch s) ! i) \<noteq> p_state (procs s ! i) \<longrightarrow>
            (\<forall>j low. min_pass [Runnable] (procs s) = Some (j, low) \<longrightarrow> low \<le> p_pass (procs (wakeup cur ch s) ! i)))"
  using assms
  by (auto simp: procs_wakeup wake_one_def wake_baseline_def split: option.splits)

definition example_sleep :: Sched where
  "example_sleep = proc_table_new\<lparr>procs :=
     [proc_inner_new\<lparr>p_state := Sleeping, p_channel := Some (ChPipeRead 5), p_pass := 1\<rparr>,
      proc_inner_new\<lparr>p_state := Runnable, p_pass := 7\<rparr>,
      proc_inner_new\<lparr>p_state := Sleeping, p_channel := Some (ChPipeWrite 5)\<rparr>]\<rparr>"

theorem wakeup_exact_witness:
  "p_state (procs (wakeup None (ChPipeRead 5) example_sleep) ! 0) = Runnable \<and>
   p_state (procs (wakeup None (ChPipeRead 5) example_sleep) ! 2) = Sleeping \<and>
   p_pass (procs example_sleep ! 0) \<le> p_pass (procs (wakeup None (ChPipeRead 5) example_sleep) ! 0)"
  using wakeup_exact [of 0 example_sleep None "ChPipeRead 5"]
    wakeup_exact [of 2 example_sleep None "ChPipeRead 5"]
  by (simp add: example_sleep_def)



end
