(* ===== verification/Procs.thy ===== *)
theory Procs
  imports Sched
begin

text \<open>
  The life of processes: all CPUs interleave the operations of \<open>Sched\<close> on the shared table.  The
  invariant ties \<open>Running\<close> to exactly one CPU, keeps pids unique, and keeps the family relation
  closed: every child has a live parent, so \<open>exit\<close> always finds one and every zombie can be reaped.
\<close>

section \<open>The first process\<close>

text \<open>The table part of \<open>user_init\<close>.\<close>

definition user_init_table :: "Sched \<Rightarrow> Sched option" where
  "user_init_table s = do {
     (i, s) \<leftarrow> alloc_inner s;
     let s = s\<lparr>init_proc := (case init_proc s of None \<Rightarrow> Some i | Some j \<Rightarrow> Some j)\<rparr>;
     Some (upd_proc i (\<lambda>p. p\<lparr>p_state := Runnable\<rparr>) s)
   }"

section \<open>Steps\<close>

text \<open>
  The dispatch rule allows any process as the pick, because other CPUs may act between \<open>min_pass\<close>
  and the dispatch; \<open>stride_dispatch\<close> checks again.  Allocation requires that the 64-bit pid counter
  has not wrapped.
\<close>

inductive sched_step :: "Sched \<Rightarrow> Sched \<Rightarrow> bool" where
  dispatch: "c < length (cpu_procs s) \<Longrightarrow> cpu_procs s ! c = None \<Longrightarrow> i < length (procs s) \<Longrightarrow>
     sched_step s (stride_dispatch c i s)"
| yield: "c < length (cpu_procs s) \<Longrightarrow> cpu_procs s ! c = Some i \<Longrightarrow>
     sched_step s (switch_back c i (yield_proc i s))"
| sleep: "c < length (cpu_procs s) \<Longrightarrow> cpu_procs s ! c = Some i \<Longrightarrow>
     sched_step s (switch_back c i (sleep_enter i ch s))"
| awake: "c < length (cpu_procs s) \<Longrightarrow> cpu_procs s ! c = Some i \<Longrightarrow> sched_step s (sleep_exit i s)"
| wake: "c < length (cpu_procs s) \<Longrightarrow> sched_step s (wakeup (cpu_procs s ! c) ch s)"
| kill: "sched_step s (snd (kill pid s))"
| tickets: "c < length (cpu_procs s) \<Longrightarrow> cpu_procs s ! c = Some i \<Longrightarrow> sched_step s (snd (set_tickets i t s))"
| alloc: "c < length (cpu_procs s) \<Longrightarrow> cpu_procs s ! c = Some i \<Longrightarrow> pid_count s \<noteq> - 1 \<Longrightarrow>
     alloc_inner s = Some (j, s') \<Longrightarrow> sched_step s s'"
| abandon: "j < length (procs s) \<Longrightarrow> p_state (procs s ! j) = Used \<Longrightarrow> sched_step s (free_inner j s)"
| publish: "c < length (cpu_procs s) \<Longrightarrow> cpu_procs s ! c = Some i \<Longrightarrow> j < length (procs s) \<Longrightarrow>
     p_state (procs s ! j) = Used \<Longrightarrow> sched_step s (fork_publish i pass j s)"
| exit: "c < length (cpu_procs s) \<Longrightarrow> cpu_procs s ! c = Some i \<Longrightarrow> exit_inner i status s = Some s' \<Longrightarrow>
     sched_step s (switch_back c i s')"
| wait: "c < length (cpu_procs s) \<Longrightarrow> cpu_procs s ! c = Some i \<Longrightarrow> wait_scan_children i s = Reap j \<Longrightarrow>
     sched_step s (snd (reap j s))"

section \<open>Invariant\<close>

definition live :: "ProcState \<Rightarrow> bool" where
  "live st \<longleftrightarrow> st = Sleeping \<or> st = Runnable \<or> st = Running"

lemma live_simps [simp]:
  "live Sleeping" "live Runnable" "live Running" "\<not> live Unused" "\<not> live Used" "\<not> live Zombie"
  by (simp_all add: live_def)

abbreviation st :: "Sched \<Rightarrow> nat \<Rightarrow> ProcState" where
  "st s i \<equiv> p_state (procs s ! i)"

definition cpu_inv :: "Sched \<Rightarrow> bool" where
  "cpu_inv s \<longleftrightarrow>
     (\<forall>c < length (cpu_procs s). \<forall>i. cpu_procs s ! c = Some i \<longrightarrow> i < length (procs s) \<and> st s i = Running) \<and>
     (\<forall>i < length (procs s). st s i = Running \<longrightarrow> (\<exists>c < length (cpu_procs s). cpu_procs s ! c = Some i)) \<and>
     (\<forall>c < length (cpu_procs s). \<forall>d < length (cpu_procs s). \<forall>i.
        cpu_procs s ! c = Some i \<and> cpu_procs s ! d = Some i \<longrightarrow> c = d)"

definition family_at :: "nat \<Rightarrow> Sched \<Rightarrow> nat \<Rightarrow> bool" where
  "family_at i0 s i \<longleftrightarrow>
     (st s i = Unused \<or> st s i = Used \<longrightarrow> parents s ! i = None) \<and>
     (\<forall>j. parents s ! i = Some j \<longrightarrow> j < length (procs s) \<and> live (st s j)) \<and>
     (i \<noteq> i0 \<and> (live (st s i) \<or> st s i = Zombie) \<longrightarrow> parents s ! i \<noteq> None)"

definition family_inv :: "Sched \<Rightarrow> bool" where
  "family_inv s \<longleftrightarrow>
     length (parents s) = length (procs s) \<and>
     (\<exists>i0. init_proc s = Some i0 \<and> i0 < length (procs s) \<and> live (st s i0) \<and>
           (\<forall>i < length (procs s). family_at i0 s i))"

definition pid_inv :: "Sched \<Rightarrow> bool" where
  "pid_inv s \<longleftrightarrow>
     (\<forall>i < length (procs s). st s i \<noteq> Unused \<longrightarrow>
        0 < p_pid (procs s ! i) \<and> p_pid (procs s ! i) < pid_count s \<and>
        (\<forall>j < length (procs s). st s j \<noteq> Unused \<and> p_pid (procs s ! j) = p_pid (procs s ! i) \<longrightarrow> i = j)) \<and>
     0 < pid_count s"

definition sched_inv :: "Sched \<Rightarrow> bool" where
  "sched_inv s \<longleftrightarrow> cpu_inv s \<and> family_inv s \<and> pid_inv s"

subsection \<open>How the operations change states\<close>

text \<open>
  \<open>same_shape s s'\<close>: only scheduling changed.  Live processes stay live, pids, parents and the rest
  of what the family and pid invariants read are the same.
\<close>

definition same_shape :: "Sched \<Rightarrow> Sched \<Rightarrow> bool" where
  "same_shape s s' \<longleftrightarrow>
     length (procs s') = length (procs s) \<and> parents s' = parents s \<and> pid_count s' = pid_count s \<and>
     init_proc s' = init_proc s \<and>
     (\<forall>i < length (procs s). p_pid (procs s' ! i) = p_pid (procs s ! i) \<and>
        (st s' i = st s i \<or> live (st s i) \<and> live (st s' i)))"

text \<open>\<open>same_running s s'\<close>: the same processes run on the same CPUs.\<close>

definition same_running :: "Sched \<Rightarrow> Sched \<Rightarrow> bool" where
  "same_running s s' \<longleftrightarrow>
     length (procs s') = length (procs s) \<and> cpu_procs s' = cpu_procs s \<and>
     (\<forall>i < length (procs s). st s' i = Running \<longleftrightarrow> st s i = Running)"

lemma same_shape_live:
  "same_shape s s' \<Longrightarrow> i < length (procs s) \<Longrightarrow>
     (live (st s' i) \<longleftrightarrow> live (st s i)) \<and> (st s' i = Unused \<longleftrightarrow> st s i = Unused) \<and>
     (st s' i = Used \<longleftrightarrow> st s i = Used) \<and> (st s' i = Zombie \<longleftrightarrow> st s i = Zombie)"
  by (auto simp: same_shape_def live_def)

lemma family_inv_same_shape:
  assumes "family_inv s" "same_shape s s'"
  shows "family_inv s'"
proof -
  have same: "length (procs s') = length (procs s)" "parents s' = parents s" "init_proc s' = init_proc s"
    using assms(2) by (auto simp: same_shape_def)
  show ?thesis
    using assms(1) same_shape_live [OF assms(2)] unfolding family_inv_def family_at_def same by fastforce
qed

lemma pid_inv_same_shape:
  assumes "pid_inv s" "same_shape s s'"
  shows "pid_inv s'"
proof -
  have same: "length (procs s') = length (procs s)" "pid_count s' = pid_count s"
    "\<And>i. i < length (procs s) \<Longrightarrow> p_pid (procs s' ! i) = p_pid (procs s ! i)"
    using assms(2) by (auto simp: same_shape_def)
  show ?thesis
    using assms(1) same_shape_live [OF assms(2)] unfolding pid_inv_def same(1,2) by (simp add: same(3))
qed

lemma cpu_inv_same_running: "cpu_inv s \<Longrightarrow> same_running s s' \<Longrightarrow> cpu_inv s'"
  by (simp add: cpu_inv_def same_running_def)

lemma cpu_invD:
  assumes "cpu_inv s" "c < length (cpu_procs s)" "cpu_procs s ! c = Some i"
  shows "i < length (procs s)" "st s i = Running"
  using assms unfolding cpu_inv_def by blast+

text \<open>A CPU lets go of the process it ran.\<close>

lemma cpu_inv_leave:
  assumes "cpu_inv s" "c < length (cpu_procs s)" "cpu_procs s ! c = Some i"
    and "length (procs s') = length (procs s)" "cpu_procs s' = (cpu_procs s)[c := None]"
    and "st s' i \<noteq> Running" "\<And>j. j < length (procs s) \<Longrightarrow> j \<noteq> i \<Longrightarrow> st s' j = Running \<longleftrightarrow> st s j = Running"
  shows "cpu_inv s'"
proof -
  have c: "cpu_procs s' ! d = (if d = c then None else cpu_procs s ! d)" if "d < length (cpu_procs s)" for d
    using assms(5) that by (simp add: nth_list_update)
  have l: "length (cpu_procs s') = length (cpu_procs s)" using assms(5) by simp
  have one: "d = c" if "d < length (cpu_procs s)" "cpu_procs s ! d = Some i" for d
    using assms(1-3) that unfolding cpu_inv_def by blast
  show ?thesis
    unfolding cpu_inv_def l assms(4)
  proof (intro conjI allI impI)
    fix d j assume d: "d < length (cpu_procs s)" "cpu_procs s' ! d = Some j"
    then have "d \<noteq> c" "cpu_procs s ! d = Some j" using c [of d] by (auto split: if_splits)
    with one d have "j \<noteq> i" by auto
    with assms(1) d \<open>cpu_procs s ! d = Some j\<close> show "j < length (procs s)" unfolding cpu_inv_def by blast
    with assms(1) d \<open>cpu_procs s ! d = Some j\<close> \<open>j \<noteq> i\<close> assms(7) [of j] show "st s' j = Running"
      unfolding cpu_inv_def by blast
  next
    fix j assume j: "j < length (procs s)" "st s' j = Running"
    with assms(6,7) have "j \<noteq> i" "st s j = Running" by auto
    with assms(1) j obtain d where "d < length (cpu_procs s)" "cpu_procs s ! d = Some j"
      unfolding cpu_inv_def by blast
    with c [of d] assms(3) \<open>j \<noteq> i\<close> show "\<exists>d < length (cpu_procs s). cpu_procs s' ! d = Some j"
      by (intro exI [of _ d]) auto
  next
    fix d e j
    assume "d < length (cpu_procs s)" "e < length (cpu_procs s)" "cpu_procs s' ! d = Some j \<and> cpu_procs s' ! e = Some j"
    with c assms(1) show "d = e" unfolding cpu_inv_def by (metis option.distinct(1))
  qed
qed

text \<open>A CPU takes a process that nobody runs.\<close>

lemma cpu_inv_take:
  assumes "cpu_inv s" "c < length (cpu_procs s)" "cpu_procs s ! c = None" "i < length (procs s)" "st s i \<noteq> Running"
    and "length (procs s') = length (procs s)" "cpu_procs s' = (cpu_procs s)[c := Some i]"
    and "st s' i = Running" "\<And>j. j < length (procs s) \<Longrightarrow> j \<noteq> i \<Longrightarrow> st s' j = Running \<longleftrightarrow> st s j = Running"
  shows "cpu_inv s'"
proof -
  have c: "cpu_procs s' ! d = (if d = c then Some i else cpu_procs s ! d)" if "d < length (cpu_procs s)" for d
    using assms(7) that by (simp add: nth_list_update)
  have l: "length (cpu_procs s') = length (cpu_procs s)" using assms(7) by simp
  have none: "cpu_procs s ! d \<noteq> Some i" if "d < length (cpu_procs s)" for d
    using assms(1,5) that unfolding cpu_inv_def by blast
  show ?thesis
    unfolding cpu_inv_def l assms(6)
  proof (intro conjI allI impI)
    fix d j assume d: "d < length (cpu_procs s)" "cpu_procs s' ! d = Some j"
    show "j < length (procs s)" "st s' j = Running"
    proof (atomize (full), cases "d = c")
      case True
      with c [OF d(1)] d(2) assms(4,8) show "j < length (procs s) \<and> st s' j = Running" by simp
    next
      case False
      with c [OF d(1)] d have e: "cpu_procs s ! d = Some j" by simp
      with none [OF d(1)] have "j \<noteq> i" by auto
      with cpu_invD [OF assms(1) d(1) e] assms(9) show "j < length (procs s) \<and> st s' j = Running" by blast
    qed
  next
    fix j assume j: "j < length (procs s)" "st s' j = Running"
    show "\<exists>d < length (cpu_procs s). cpu_procs s' ! d = Some j"
    proof (cases "j = i")
      case True
      then show ?thesis using c [OF assms(2)] assms(2) by auto
    next
      case False
      with j assms(9) have "st s j = Running" by simp
      with assms(1) j obtain d where "d < length (cpu_procs s)" "cpu_procs s ! d = Some j"
        unfolding cpu_inv_def by blast
      with c [of d] assms(3) show ?thesis by (intro exI [of _ d]) auto
    qed
  next
    fix d e j
    assume "d < length (cpu_procs s)" "e < length (cpu_procs s)" "cpu_procs s' ! d = Some j \<and> cpu_procs s' ! e = Some j"
    with c none assms(1) show "d = e" unfolding cpu_inv_def by (metis option.inject)
  qed
qed

subsection \<open>Preservation, operation by operation\<close>

lemma same_shape_upd:
  assumes "\<And>p. p_pid (f p) = p_pid p" "\<And>p. p_state (f p) = p_state p \<or> live (p_state p) \<and> live (p_state (f p))"
  shows "same_shape s (upd_proc i f s)"
  using assms by (auto simp: same_shape_def procs_upd_proc)

lemma same_running_upd:
  assumes "\<And>p. p_state (f p) = Running \<longleftrightarrow> p_state p = Running"
  shows "same_running s (upd_proc i f s)"
  using assms by (auto simp: same_running_def procs_upd_proc)

lemma same_shape_wakeup: "same_shape s (wakeup cur ch s)"
  by (auto simp: same_shape_def procs_wakeup wake_one_state live_def)

lemma same_running_wakeup: "same_running s (wakeup cur ch s)"
  by (auto simp: same_running_def procs_wakeup wake_one_state)

lemma sched_inv_same:
  "sched_inv s \<Longrightarrow> same_shape s s' \<Longrightarrow> same_running s s' \<Longrightarrow> sched_inv s'"
  unfolding sched_inv_def using family_inv_same_shape pid_inv_same_shape cpu_inv_same_running by blast

lemma sched_inv_kill: "sched_inv s \<Longrightarrow> sched_inv (snd (kill pid s))"
  by (erule sched_inv_same)
     (auto simp: kill_def same_shape_def same_running_def procs_upd_proc live_def split: option.splits)

lemma sched_inv_tickets: "sched_inv s \<Longrightarrow> sched_inv (snd (set_tickets i t s))"
  by (erule sched_inv_same)
     (auto simp: set_tickets_def same_shape_def same_running_def procs_upd_proc)

lemma normalise_same: "same_shape s (normalise s) \<and> same_running s (normalise s)"
  by (auto simp: normalise_def same_shape_def same_running_def split: option.splits)

lemma sched_inv_dispatch:
  assumes "sched_inv s" "c < length (cpu_procs s)" "cpu_procs s ! c = None" "i < length (procs s)"
  shows "sched_inv (stride_dispatch c i s)"
proof (cases "st s i = Runnable \<and> checked_add (p_pass (procs s ! i)) (p_stride (procs s ! i)) \<noteq> None")
  case False
  with assms(1) normalise_same sched_inv_same show ?thesis
    by (auto simp: stride_dispatch_def Let_def)
next
  case True
  then have s': "stride_dispatch c i s =
      (upd_proc i (\<lambda>p. p\<lparr>p_state := Running\<rparr>) s)\<lparr>cpu_procs := (cpu_procs s)[c := Some i]\<rparr>" (is "_ = ?s")
    by (auto simp: stride_dispatch_def Let_def)
  have "same_shape s ?s" using True assms(4) by (auto simp: same_shape_def procs_upd_proc live_def)
  moreover have "cpu_inv s" using assms(1) by (simp add: sched_inv_def)
  then have "cpu_inv ?s"
    by (rule cpu_inv_take [OF _ assms(2-4)]) (use True assms(4) in \<open>simp_all add: procs_upd_proc\<close>)
  ultimately show ?thesis
    using assms(1) family_inv_same_shape pid_inv_same_shape unfolding s' sched_inv_def by blast
qed

text \<open>\<open>yield\<close> and \<open>sleep\<close>: a running process turns into a live one and its CPU lets go.\<close>

lemma sched_inv_leave_live:
  assumes "sched_inv s" "c < length (cpu_procs s)" "cpu_procs s ! c = Some i"
    and "\<And>p. p_pid (f p) = p_pid p" "\<And>p. p_state (f p) = Sleeping \<or> p_state (f p) = Runnable"
  shows "sched_inv (switch_back c i (upd_proc i f s))"
proof -
  let ?s = "switch_back c i (upd_proc i f s)"
  have inv: "cpu_inv s" using assms(1) by (simp add: sched_inv_def)
  note I = cpu_invD [OF inv assms(2,3)]
  have "same_shape s ?s"
    using I assms(4,5) by (auto simp: same_shape_def switch_back_def procs_upd_proc live_def)
  moreover have "cpu_inv ?s"
    by (rule cpu_inv_leave [OF inv assms(2,3)])
       (use I assms(5) [of "procs s ! i"] in \<open>auto simp: switch_back_def procs_upd_proc\<close>)
  ultimately show ?thesis
    using assms(1) family_inv_same_shape pid_inv_same_shape unfolding sched_inv_def by blast
qed

lemma alloc_inner_Some:
  assumes "alloc_inner s = Some (j, s')"
  shows "j < length (procs s)" "st s j = Unused" "length (procs s') = length (procs s)"
    "parents s' = parents s" "cpu_procs s' = cpu_procs s" "init_proc s' = init_proc s"
    "pid_count s' = pid_count s + 1"
    "i < length (procs s) \<Longrightarrow> i \<noteq> j \<Longrightarrow> procs s' ! i = procs s ! i"
    "st s' j = Used" "p_pid (procs s' ! j) = pid_count s"
  using assms
  by (auto simp: alloc_inner_def pid_alloc_def Let_def upd_proc_def dest: find_index_SomeD split: option.splits)

lemma sched_inv_alloc:
  assumes "sched_inv s" "pid_count s \<noteq> - 1" "alloc_inner s = Some (j, s')"
  shows "sched_inv s'"
proof -
  note A = alloc_inner_Some [OF assms(3)]
  have states: "st s' i = (if i = j then Used else st s i)" if "i < length (procs s)" for i
    using A that by auto
  have "same_running s s'" using A states by (auto simp: same_running_def)
  then have 1: "cpu_inv s'" using assms(1) cpu_inv_same_running by (auto simp: sched_inv_def)
  obtain i0 where I: "length (parents s) = length (procs s)" "init_proc s = Some i0" "i0 < length (procs s)"
    "live (st s i0)" "\<And>i. i < length (procs s) \<Longrightarrow> family_at i0 s i"
    using assms(1) by (auto simp: sched_inv_def family_inv_def)
  have "family_at i0 s' i" if "i < length (procs s)" for i
    using I(5) [OF that] I(5) [OF A(1)] A(2) states that unfolding family_at_def A(3,4)
    by (cases "i = j") (auto split: if_splits)
  moreover have "live (st s' i0)" using I(3,4) A(2) states by auto
  ultimately have 2: "family_inv s'" using I A(3,4,6) by (simp add: family_inv_def)
  have lt: "pid_count s < pid_count s + 1"
    using assms(2) by (meson inc_less_eq_triv_imp not_le)
  have pid: "p_pid (procs s' ! i) = (if i = j then pid_count s else p_pid (procs s ! i))"
    if "i < length (procs s)" for i using A that by auto
  have P: "pid_inv s" using assms(1) by (simp add: sched_inv_def)
  then have pos: "0 < pid_count s" and PK: "\<And>k. k < length (procs s) \<Longrightarrow> st s k \<noteq> Unused \<Longrightarrow>
      0 < p_pid (procs s ! k) \<and> p_pid (procs s ! k) < pid_count s"
    by (auto simp: pid_inv_def)
  have fresh: "p_pid (procs s ! k) \<noteq> pid_count s" if "k < length (procs s)" "st s k \<noteq> Unused" for k
    using PK [OF that] by auto
  have "0 < p_pid (procs s' ! i) \<and> p_pid (procs s' ! i) < pid_count s + 1 \<and>
        (\<forall>k < length (procs s). st s' k \<noteq> Unused \<and> p_pid (procs s' ! k) = p_pid (procs s' ! i) \<longrightarrow> i = k)"
    if i: "i < length (procs s)" "st s' i \<noteq> Unused" for i
  proof (cases "i = j")
    case True
    have "j = k" if "k < length (procs s)" "st s' k \<noteq> Unused" "p_pid (procs s' ! k) = pid_count s" for k
      using fresh [OF that(1)] states [OF that(1)] pid [OF that(1)] that(2,3) by (cases "k = j") auto
    with True show ?thesis using pos lt pid [OF A(1)] by simp
  next
    case False
    with i states P have "0 < p_pid (procs s ! i)" "p_pid (procs s ! i) < pid_count s"
      "\<And>k. k < length (procs s) \<Longrightarrow> st s k \<noteq> Unused \<Longrightarrow> p_pid (procs s ! k) = p_pid (procs s ! i) \<Longrightarrow> i = k"
      by (simp_all add: pid_inv_def)
    moreover from this(2) lt have "p_pid (procs s ! i) < pid_count s + 1" by (rule order.strict_trans)
    ultimately show ?thesis using False i fresh pid states by (auto split: if_splits)
  qed
  moreover have "0 < pid_count s + 1" using pos lt by (rule order.strict_trans)
  ultimately have 3: "pid_inv s'" unfolding pid_inv_def A(3,7) by blast
  from 1 2 3 show ?thesis by (simp add: sched_inv_def)
qed

text \<open>Slots that leave the table: an abandoned allocation and a reaped zombie.\<close>

lemma sched_inv_remove:
  assumes "sched_inv s" "j < length (procs s)" "\<not> live (st s j)"
    and "length (procs s') = length (procs s)" "cpu_procs s' = cpu_procs s" "pid_count s' = pid_count s"
    and "init_proc s' = init_proc s" "parents s' = (parents s)[j := None]"
    and "\<And>i. i < length (procs s) \<Longrightarrow> i \<noteq> j \<Longrightarrow> procs s' ! i = procs s ! i" "st s' j = Unused"
  shows "sched_inv s'"
proof -
  have states: "st s' i = (if i = j then Unused else st s i)" if "i < length (procs s)" for i
    using assms(9,10) that by auto
  have "same_running s s'" using assms states by (auto simp: same_running_def)
  then have 1: "cpu_inv s'" using assms(1) cpu_inv_same_running by (auto simp: sched_inv_def)
  obtain i0 where I: "length (parents s) = length (procs s)" "init_proc s = Some i0" "i0 < length (procs s)"
    "live (st s i0)" "\<And>i. i < length (procs s) \<Longrightarrow> family_at i0 s i"
    using assms(1) by (auto simp: sched_inv_def family_inv_def)
  have par: "parents s' ! i = (if i = j then None else parents s ! i)" if "i < length (procs s)" for i
    using assms(8) I(1) that by (simp add: nth_list_update)
  have "family_at i0 s' i" if "i < length (procs s)" for i
    using I(5) [OF that] states that assms(2,3) unfolding family_at_def assms(4)
    by (cases "i = j") (auto simp: par split: if_splits)
  moreover have "live (st s' i0)" using I(3,4) assms(3) states by auto
  ultimately have 2: "family_inv s'" using I assms(4,7,8) by (simp add: family_inv_def)
  have P: "pid_inv s" using assms(1) by (simp add: sched_inv_def)
  have "st s' i \<noteq> Unused \<Longrightarrow> i \<noteq> j \<and> procs s' ! i = procs s ! i" if "i < length (procs s)" for i
    using assms(9,10) that by auto
  with P have 3: "pid_inv s'" unfolding pid_inv_def assms(4,6) by metis
  from 1 2 3 show ?thesis by (simp add: sched_inv_def)
qed

lemma sched_inv_abandon:
  assumes "sched_inv s" "j < length (procs s)" "st s j = Used"
  shows "sched_inv (free_inner j s)"
proof -
  obtain i0 where "family_at i0 s j" "length (parents s) = length (procs s)"
    using assms(1,2) by (auto simp: sched_inv_def family_inv_def)
  with assms(3) have "parents s = (parents s)[j := None]"
    by (metis family_at_def list_update_id)
  then show ?thesis
    by (intro sched_inv_remove [OF assms(1,2)])
       (use assms in \<open>simp_all add: free_inner_def procs_upd_proc\<close>)
qed

lemma wait_scan_Reap:
  assumes "wait_scan_children i s = Reap j"
  shows "j < length (procs s)" "parents s ! j = Some i" "st s j = Zombie"
  using assms
  by (auto simp: wait_scan_children_def find_index_Some_iff split: option.splits if_splits)

lemma sched_inv_reap:
  assumes "sched_inv s" "wait_scan_children i s = Reap j"
  shows "sched_inv (snd (reap j s))"
  by (rule sched_inv_remove [OF assms(1) wait_scan_Reap(1) [OF assms(2)]])
     (use wait_scan_Reap [OF assms(2)] in \<open>simp_all add: reap_def free_inner_def procs_upd_proc\<close>)

lemma fork_publish_simps:
  "length (procs (fork_publish i pass j s)) = length (procs s)"
  "parents (fork_publish i pass j s) = (parents s)[j := Some i]"
  "cpu_procs (fork_publish i pass j s) = cpu_procs s"
  "pid_count (fork_publish i pass j s) = pid_count s"
  "init_proc (fork_publish i pass j s) = init_proc s"
  "k < length (procs s) \<Longrightarrow> st (fork_publish i pass j s) k = (if k = j then Runnable else st s k)"
  "k < length (procs s) \<Longrightarrow> p_pid (procs (fork_publish i pass j s) ! k) = p_pid (procs s ! k)"
  by (auto simp: fork_publish_def Let_def procs_upd_proc)

lemma sched_inv_publish:
  assumes "sched_inv s" "c < length (cpu_procs s)" "cpu_procs s ! c = Some i" "j < length (procs s)" "st s j = Used"
  shows "sched_inv (fork_publish i pass j s)"
proof -
  let ?s = "fork_publish i pass j s"
  note F = fork_publish_simps [where i = i and pass = pass and j = j and s = s]
  have inv: "cpu_inv s" using assms(1) by (simp add: sched_inv_def)
  note C = cpu_invD [OF inv assms(2,3)]
  have "same_running s ?s" using F assms(5) by (auto simp: same_running_def)
  with inv have 1: "cpu_inv ?s" by (rule cpu_inv_same_running)
  obtain i0 where I: "length (parents s) = length (procs s)" "init_proc s = Some i0" "i0 < length (procs s)"
    "live (st s i0)" "\<And>i. i < length (procs s) \<Longrightarrow> family_at i0 s i"
    using assms(1) by (auto simp: sched_inv_def family_inv_def)
  have par: "parents ?s ! k = (if k = j then Some i else parents s ! k)" if "k < length (procs s)" for k
    using F(2) I(1) that by (simp add: nth_list_update)
  have "family_at i0 ?s k" if "k < length (procs s)" for k
    using I(5) [OF that] that assms(4,5) C unfolding family_at_def F(1)
    by (cases "k = j") (auto simp: par F(6) split: if_splits)
  moreover have "live (st ?s i0)" using I(3,4) F(6) by auto
  ultimately have 2: "family_inv ?s" using I F by (simp add: family_inv_def)
  have P: "pid_inv s" using assms(1) by (simp add: sched_inv_def)
  have "st ?s k = Unused \<longleftrightarrow> st s k = Unused" if "k < length (procs s)" for k
    using F(6) that assms(5) by auto
  with P have 3: "pid_inv ?s" unfolding pid_inv_def F(1,4) by (simp add: F(7))
  from 1 2 3 show ?thesis by (simp add: sched_inv_def)
qed

subsection \<open>Exit\<close>

lemma same_shape_trans: "same_shape s s1 \<Longrightarrow> same_shape s1 s2 \<Longrightarrow> same_shape s s2"
  unfolding same_shape_def by (auto simp: live_def) metis+

lemma same_running_trans: "same_running s s1 \<Longrightarrow> same_running s1 s2 \<Longrightarrow> same_running s s2"
  unfolding same_running_def by auto

text \<open>
  \<open>reparent\<close> hands every child of \<open>original\<close> to init and otherwise only wakes sleepers.
\<close>

lemma reparent_list_spec:
  "init_proc s = Some i0 \<Longrightarrow>
     \<exists>s'. reparent_list original cur is s = Some s' \<and> same_running s s' \<and>
          same_shape s (s'\<lparr>parents := parents s\<rparr>) \<and> length (parents s') = length (parents s) \<and>
          (\<forall>i < length (parents s). parents s' ! i =
             (if i \<in> set is \<and> parents s ! i = Some original then Some i0 else parents s ! i))"
proof (induction "is" arbitrary: s)
  case Nil
  then show ?case by (simp add: same_running_def same_shape_def)
next
  case (Cons k ks)
  define s1 where "s1 = (if parents s ! k = Some original
     then wakeup cur (ChProc i0) (s\<lparr>parents := (parents s)[k := Some i0]\<rparr>) else s)"
  have one: "reparent_one original cur s k = Some s1"
    using Cons.prems by (simp add: reparent_one_def s1_def)
  have s1: "init_proc s1 = Some i0" "same_running s s1" "same_shape s (s1\<lparr>parents := parents s\<rparr>)"
    "length (parents s1) = length (parents s)"
    "\<forall>i < length (parents s). parents s1 ! i =
       (if i = k \<and> parents s ! i = Some original then Some i0 else parents s ! i)"
    using Cons.prems same_running_wakeup [of "s\<lparr>parents := (parents s)[k := Some i0]\<rparr>" cur "ChProc i0"]
      same_shape_wakeup [of "s\<lparr>parents := (parents s)[k := Some i0]\<rparr>" cur "ChProc i0"]
    by (auto simp: s1_def same_running_def same_shape_def nth_list_update)
  from Cons.IH [OF s1(1)] obtain s' where
    s': "reparent_list original cur ks s1 = Some s'" "same_running s1 s'"
    "same_shape s1 (s'\<lparr>parents := parents s1\<rparr>)" "length (parents s') = length (parents s1)"
    "\<forall>i < length (parents s1). parents s' ! i =
       (if i \<in> set ks \<and> parents s1 ! i = Some original then Some i0 else parents s1 ! i)" by blast
  have "same_shape s (s'\<lparr>parents := parents s\<rparr>)"
    using same_shape_trans [of s "s1\<lparr>parents := parents s\<rparr>" "s'\<lparr>parents := parents s\<rparr>"] s1(3) s'(3)
    by (simp add: same_shape_def)
  with s1 s' same_running_trans one show ?case by auto
qed

lemma exit_inner_spec:
  assumes inv: "sched_inv s" and c: "c < length (cpu_procs s)" "cpu_procs s ! c = Some i"
    and i0: "init_proc s = Some i0" "i \<noteq> i0"
  obtains s2 parent where "exit_inner i status s = Some (upd_proc i (\<lambda>p. p\<lparr>p_xstate := status, p_state := Zombie\<rparr>) s2)"
    "same_running s s2" "same_shape s (s2\<lparr>parents := parents s\<rparr>)" "length (parents s2) = length (parents s)"
    "\<And>k. k < length (procs s) \<Longrightarrow> parents s2 ! k = (if parents s ! k = Some i then Some i0 else parents s ! k)"
    "parents s2 ! i = Some parent"
proof -
  have len: "length (parents s) = length (procs s)" using inv by (simp add: sched_inv_def family_inv_def)
  have i: "i < length (procs s)" "st s i = Running" using cpu_invD inv c by (auto simp: sched_inv_def)
  have fam: "family_at i0 s i" using inv i0 i(1) by (auto simp: sched_inv_def family_inv_def)
  from reparent_list_spec [OF i0(1)] obtain s1 where
    s1: "reparent i (Some i) s = Some s1" "same_running s s1" "same_shape s (s1\<lparr>parents := parents s\<rparr>)"
    "length (parents s1) = length (parents s)"
    "\<forall>k < length (parents s). parents s1 ! k =
       (if k \<in> set [0..<length (parents s)] \<and> parents s ! k = Some i then Some i0 else parents s ! k)"
    unfolding reparent_def by blast
  have "parents s ! i \<noteq> None" using fam i i0 by (auto simp: family_at_def)
  then obtain parent where parent: "parents s1 ! i = Some parent"
    using s1(5) i(1) len by fastforce
  let ?s2 = "wakeup (Some i) (ChProc parent) s1"
  have "exit_inner i status s = Some (upd_proc i (\<lambda>p. p\<lparr>p_xstate := status, p_state := Zombie\<rparr>) ?s2)"
    using i0 s1(1) parent by (simp add: exit_inner_def Let_def)
  moreover have "same_running s ?s2" using s1(2) same_running_wakeup same_running_trans by blast
  moreover have "same_shape s (?s2\<lparr>parents := parents s\<rparr>)"
    using same_shape_trans [of s "s1\<lparr>parents := parents s\<rparr>" "?s2\<lparr>parents := parents s\<rparr>"] s1(3)
      same_shape_wakeup [of s1 "Some i" "ChProc parent"] by (simp add: same_shape_def)
  ultimately show ?thesis
    using that [of ?s2 parent] s1(4,5) len parent by simp
qed

lemma sched_inv_exit:
  assumes inv: "sched_inv s" and c: "c < length (cpu_procs s)" "cpu_procs s ! c = Some i"
    and ex: "exit_inner i status s = Some s'"
  shows "sched_inv (switch_back c i s')"
proof -
  obtain i0 where I: "length (parents s) = length (procs s)" "init_proc s = Some i0" "i0 < length (procs s)"
    "live (st s i0)" "\<And>i. i < length (procs s) \<Longrightarrow> family_at i0 s i"
    using inv by (auto simp: sched_inv_def family_inv_def)
  have "i \<noteq> i0" using ex I(2) by (auto simp: exit_inner_def split: if_splits)
  obtain s2 parent where
    e: "exit_inner i status s = Some (upd_proc i (\<lambda>p. p\<lparr>p_xstate := status, p_state := Zombie\<rparr>) s2)" and
    s2: "same_running s s2" "same_shape s (s2\<lparr>parents := parents s\<rparr>)" "length (parents s2) = length (parents s)"
    "\<And>k. k < length (procs s) \<Longrightarrow> parents s2 ! k = (if parents s ! k = Some i then Some i0 else parents s ! k)"
    "parents s2 ! i = Some parent"
    by (rule exit_inner_spec [OF inv c I(2) \<open>i \<noteq> i0\<close>, of status]) blast
  have s': "s' = upd_proc i (\<lambda>p. p\<lparr>p_xstate := status, p_state := Zombie\<rparr>) s2" using ex e by simp
  let ?t = "switch_back c i s'"
  have i: "i < length (procs s)" "st s i = Running" using cpu_invD inv c by (auto simp: sched_inv_def)
  have len: "length (procs s2) = length (procs s)" using s2(1) by (simp add: same_running_def)
  have t: "length (procs ?t) = length (procs s)" "parents ?t = parents s2" "init_proc ?t = init_proc s"
    "cpu_procs ?t = (cpu_procs s)[c := None]" "pid_count ?t = pid_count s"
    using s2(1,2) by (auto simp: switch_back_def s' same_running_def same_shape_def)
  have st_t: "st ?t k = (if k = i then Zombie else st s2 k)" "p_pid (procs ?t ! k) = p_pid (procs s ! k)"
    if "k < length (procs s)" for k
    using that s2(2) len by (auto simp: switch_back_def s' procs_upd_proc same_shape_def)
  note L = same_shape_live [OF s2(2), simplified]
  have "cpu_inv s" using inv by (simp add: sched_inv_def)
  then have 1: "cpu_inv ?t"
    by (rule cpu_inv_leave [OF _ c t(1,4)]) (use st_t i(1) s2(1) in \<open>auto simp: same_running_def\<close>)
  have "family_at i0 ?t k" if "k < length (procs s)" for k
    unfolding family_at_def t(1,2)
  proof (intro conjI allI impI)
    show "parents s2 ! k = None" if "st ?t k = Unused \<or> st ?t k = Used"
      using that \<open>k < length (procs s)\<close> I(5) [of k] st_t(1) L [of k] s2(4) by (auto simp: family_at_def split: if_splits)
    fix j assume j: "parents s2 ! k = Some j"
    have "j \<noteq> i" using j s2(4) [OF that] \<open>i \<noteq> i0\<close> by (auto split: if_splits)
    have "j < length (procs s) \<and> live (st s j)"
      using j s2(4) [OF that] I(3,4) I(5) [OF that] by (auto simp: family_at_def split: if_splits)
    with \<open>j \<noteq> i\<close> st_t(1) [of j] L [of j] show "j < length (procs s)" "live (st ?t j)" by auto
  next
    assume k: "k \<noteq> i0 \<and> (live (st ?t k) \<or> st ?t k = Zombie)"
    show "parents s2 ! k \<noteq> None"
      using k that I(5) [OF that] st_t(1) [OF that] L [OF that] s2(4) [OF that] i(2)
      by (auto simp: family_at_def split: if_splits)
  qed
  moreover have "live (st ?t i0)" using I(3,4) \<open>i \<noteq> i0\<close> st_t(1) L by simp
  ultimately have 2: "family_inv ?t" using I(1-3) s2(3) t by (simp add: family_inv_def)
  have "st ?t k = Unused \<longleftrightarrow> st s k = Unused" if "k < length (procs s)" for k
    using st_t(1) [OF that] L [OF that] i(2) by auto
  then have 3: "pid_inv ?t" using inv st_t(2) unfolding sched_inv_def pid_inv_def t(1,5) by auto
  from 1 2 3 show ?thesis by (simp add: sched_inv_def)
qed

subsection \<open>Reachable states\<close>

lemma sched_step_inv: "sched_step s s' \<Longrightarrow> sched_inv s \<Longrightarrow> sched_inv s'"
proof (induction rule: sched_step.induct)
  case (yield c s i)
  then show ?case unfolding yield_proc_def by (intro sched_inv_leave_live) simp_all
next
  case (sleep c s i ch)
  then show ?case unfolding sleep_enter_def by (intro sched_inv_leave_live) simp_all
next
  case (awake c s i)
  have "same_shape s (sleep_exit i s)" "same_running s (sleep_exit i s)"
    unfolding sleep_exit_def by (rule same_shape_upd same_running_upd; simp)+
  with awake show ?case using sched_inv_same by blast
next
  case (wake c s ch)
  then show ?case using sched_inv_same same_shape_wakeup same_running_wakeup by blast
qed (blast intro: sched_inv_dispatch sched_inv_kill sched_inv_tickets sched_inv_alloc sched_inv_abandon
  sched_inv_publish sched_inv_exit sched_inv_reap)+

definition boot_table :: Sched where
  "boot_table = upd_proc 0 (\<lambda>p. p\<lparr>p_pid := 1, p_state := Runnable\<rparr>) (proc_table_new\<lparr>pid_count := 2, init_proc := Some 0\<rparr>)"

lemma user_init_boot: "user_init_table proc_table_new = Some boot_table"
proof -
  have "find_index (\<lambda>p. p_state p = Unused) (replicate 64 proc_inner_new) = Some 0"
    by (simp add: find_index_Some_iff proc_inner_new_def)
  moreover have "proc_inner_new\<lparr>p_pid := 1, p_tickets := 10, p_stride := LARGE_NUMBER div 10,
      p_n_schedule := 0, p_state := Runnable\<rparr> = proc_inner_new\<lparr>p_pid := 1, p_state := Runnable\<rparr>"
    by (simp add: proc_inner_new_def)
  ultimately show ?thesis
    by (simp add: user_init_table_def alloc_inner_def proc_table_new_def pid_alloc_def Let_def
        boot_table_def upd_proc_def)
qed

lemma boot_states: "i < 64 \<Longrightarrow> st boot_table i = (if i = 0 then Runnable else Unused)"
  "i < 64 \<Longrightarrow> p_pid (procs boot_table ! i) = (if i = 0 then 1 else 0)"
  "length (procs boot_table) = 64" "parents boot_table = replicate 64 None"
  "cpu_procs boot_table = replicate 8 None" "init_proc boot_table = Some 0" "pid_count boot_table = 2"
  by (auto simp: boot_table_def proc_table_new_def proc_inner_new_def upd_proc_def nth_list_update)

lemma boot_inv: "sched_inv boot_table"
  by (auto simp: sched_inv_def cpu_inv_def family_inv_def family_at_def pid_inv_def boot_states split: if_splits)

lemma reachable_inv: "sched_step\<^sup>*\<^sup>* boot_table s \<Longrightarrow> sched_inv s"
  by (induction rule: rtranclp_induct) (auto intro: boot_inv sched_step_inv)

text \<open>
  Property C19.  In every state the system can reach from boot, a process is \<open>Running\<close> exactly when
  precisely one CPU has it as its current process.
\<close>

theorem running_on_one_cpu:
  assumes "sched_step\<^sup>*\<^sup>* boot_table s" "i < length (procs s)"
  shows "st s i = Running \<longleftrightarrow> (\<exists>!c. c < length (cpu_procs s) \<and> cpu_procs s ! c = Some i)"
  using reachable_inv [OF assms(1)] assms(2) unfolding sched_inv_def cpu_inv_def by blast

text \<open>
  Property C16.  The family tree stays sound: in every reachable state all pids in use are distinct,
  every zombie has a live parent that can reap it, and a running process other than init can always
  exit - the assertion that it has a parent never fails.
\<close>

theorem family_sound:
  assumes "sched_step\<^sup>*\<^sup>* boot_table s" "i < length (procs s)" "j < length (procs s)"
  shows "(st s i \<noteq> Unused \<and> st s j \<noteq> Unused \<and> p_pid (procs s ! i) = p_pid (procs s ! j) \<longrightarrow> i = j) \<and>
         (st s i = Zombie \<longrightarrow> (\<exists>p < length (procs s). parents s ! i = Some p \<and> live (st s p))) \<and>
         (st s i = Running \<and> init_proc s \<noteq> Some i \<longrightarrow> exit_inner i status s \<noteq> None)"
proof -
  have inv: "sched_inv s" using reachable_inv [OF assms(1)] .
  obtain i0 where I: "init_proc s = Some i0" "live (st s i0)" "\<And>i. i < length (procs s) \<Longrightarrow> family_at i0 s i"
    using inv by (auto simp: sched_inv_def family_inv_def)
  have "exit_inner i status s \<noteq> None" if run: "st s i = Running" "init_proc s \<noteq> Some i"
  proof -
    obtain c where c: "c < length (cpu_procs s)" "cpu_procs s ! c = Some i"
      using inv run assms(2) unfolding sched_inv_def cpu_inv_def by blast
    have "i \<noteq> i0" using run I(1) by auto
    show ?thesis
      by (rule exit_inner_spec [OF inv c I(1) \<open>i \<noteq> i0\<close>, of status]) simp
  qed
  moreover have "\<exists>p < length (procs s). parents s ! i = Some p \<and> live (st s p)" if "st s i = Zombie"
  proof -
    have "i \<noteq> i0" using that I(2) by auto
    then show ?thesis using I(3) [OF assms(2)] that unfolding family_at_def by (metis option.exhaust)
  qed
  moreover have "i = j" if "st s i \<noteq> Unused" "st s j \<noteq> Unused" "p_pid (procs s ! i) = p_pid (procs s ! j)"
    using that inv assms(2,3) unfolding sched_inv_def pid_inv_def by metis
  ultimately show ?thesis by blast
qed

text \<open>Init runs on CPU 0, forks process 1, and CPU 1 dispatches the child.\<close>

definition example_fork :: Sched where
  "example_fork =
     stride_dispatch 1 1 (fork_publish 0 0 1 (snd (the (alloc_inner (stride_dispatch 0 0 boot_table)))))"

lemma example_fork_reachable: "sched_step\<^sup>*\<^sup>* boot_table example_fork"
proof -
  define s1 where "s1 = stride_dispatch 0 0 boot_table"
  define s2 where "s2 = snd (the (alloc_inner s1))"
  define s3 where "s3 = fork_publish 0 0 1 s2"
  have "sched_step boot_table s1" unfolding s1_def by (rule dispatch) (simp_all add: boot_states)
  moreover have "sched_step s1 s2"
    unfolding s2_def s1_def by (rule alloc [of 0 _ 0 1]) code_simp+
  moreover have "sched_step s2 s3" unfolding s3_def s2_def s1_def by (rule publish [of 0 _ 0 1]) code_simp+
  moreover have "sched_step s3 example_fork"
    unfolding example_fork_def s1_def [symmetric] s2_def [symmetric] s3_def [symmetric]
    unfolding s3_def s2_def s1_def by (rule dispatch) code_simp+
  ultimately show ?thesis by (meson converse_rtranclp_into_rtranclp r_into_rtranclp)
qed

lemma example_fork_facts:
  "length (procs example_fork) = 64" "st example_fork 1 = Running" "init_proc example_fork = Some 0"
  by code_simp+

theorem running_on_one_cpu_witness:
  "\<exists>!c. c < length (cpu_procs example_fork) \<and> cpu_procs example_fork ! c = Some 1"
  using running_on_one_cpu [OF example_fork_reachable, of 1] example_fork_facts by simp

theorem family_sound_witness:
  "exit_inner 1 7 example_fork \<noteq> None"
  using family_sound [OF example_fork_reachable, of 1 1 7] example_fork_facts by simp

end
