(* ===== verification/Sleeplock.thy ===== *)
theory Sleeplock
  imports Sched
begin

text \<open>
  Sleep locks (\<open>kernel/src/sleeplock.rs\<close>).  \<open>SleepLock::lock\<close> is split where it sleeps: a call that
  finds the lock taken leaves the process asleep on the lock's channel, and runs again when the process
  is scheduled.  The transition system at the end interleaves any number of processes that use one lock
  with everything else the kernel does to the process table.
\<close>

section \<open>Definitions\<close>

record SleepLockInner =
  sl_locked :: bool
  sl_pid :: "usize option"

definition sleeplock_new :: SleepLockInner where
  "sleeplock_new = \<lparr>sl_locked = False, sl_pid = None\<rparr>"

text \<open>The first component tells whether the caller holds the lock now.\<close>

definition sleep_lock :: "nat \<Rightarrow> nat \<Rightarrow> SleepLockInner \<times> Sched \<Rightarrow> bool \<times> SleepLockInner \<times> Sched" where
  "sleep_lock lock_id cur ls =
     (case ls of (inner, s) \<Rightarrow>
        if sl_locked inner then (False, inner, sleep_enter cur (ChLock lock_id) s)
        else (True, inner\<lparr>sl_locked := True, sl_pid := Some (p_pid (procs s ! cur))\<rparr>, s))"

definition sleep_lock_resume :: "nat \<Rightarrow> nat \<Rightarrow> SleepLockInner \<times> Sched \<Rightarrow> bool \<times> SleepLockInner \<times> Sched" where
  "sleep_lock_resume lock_id cur ls = (case ls of (inner, s) \<Rightarrow> sleep_lock lock_id cur (inner, sleep_exit cur s))"

definition sleep_guard_drop :: "nat \<Rightarrow> nat option \<Rightarrow> SleepLockInner \<times> Sched \<Rightarrow> SleepLockInner \<times> Sched" where
  "sleep_guard_drop lock_id cur ls =
     (case ls of (inner, s) \<Rightarrow>
        (inner\<lparr>sl_locked := False, sl_pid := None\<rparr>, wakeup cur (ChLock lock_id) s))"

section \<open>Processes that share a lock\<close>

datatype lock_pc = Out | Waiting | Holding

definition asleep_on :: "nat \<Rightarrow> Sched \<Rightarrow> nat \<Rightarrow> bool" where
  "asleep_on lock_id s i \<longleftrightarrow> i < length (procs s) \<and> p_state (procs s ! i) = Sleeping \<and> p_channel (procs s ! i) = Some (ChLock lock_id)"

text \<open>What the rest of the kernel may do: anything that puts nobody to sleep on this lock.\<close>

definition quiet :: "nat \<Rightarrow> Sched \<Rightarrow> Sched \<Rightarrow> bool" where
  "quiet lock_id s s' \<longleftrightarrow> length (procs s') = length (procs s) \<and> (\<forall>i. asleep_on lock_id s' i \<longrightarrow> asleep_on lock_id s i)"

inductive lock_step :: "nat \<Rightarrow> (nat \<Rightarrow> lock_pc) \<times> SleepLockInner \<times> Sched \<Rightarrow> (nat \<Rightarrow> lock_pc) \<times> SleepLockInner \<times> Sched \<Rightarrow> bool"
  for lock_id where
  acquire: "lock_step lock_id (pc, inner, s) (pc(i := if got then Holding else Waiting), inner', s')"
    if "pc i = Out" "i < length (procs s)" "p_state (procs s ! i) = Running" "sleep_lock lock_id i (inner, s) = (got, inner', s')"
| resume: "lock_step lock_id (pc, inner, s) (pc(i := if got then Holding else Waiting), inner', s')"
    if "pc i = Waiting" "i < length (procs s)" "p_state (procs s ! i) = Running" "sleep_lock_resume lock_id i (inner, s) = (got, inner', s')"
| release: "lock_step lock_id (pc, inner, s) (pc(i := Out), inner', s')"
    if "pc i = Holding" "i < length (procs s)" "p_state (procs s ! i) = Running" "sleep_guard_drop lock_id (Some i) (inner, s) = (inner', s')"
| other: "lock_step lock_id (pc, inner, s) (pc, inner, s')" if "quiet lock_id s s'"

lemma quiet_upd:
  assumes "p_state (f (procs s ! i)) = Sleeping \<longrightarrow> p_channel (f (procs s ! i)) = Some (ChLock lock_id) \<longrightarrow>
      p_state (procs s ! i) = Sleeping \<and> p_channel (procs s ! i) = Some (ChLock lock_id)"
  shows "quiet lock_id s (upd_proc i f s)"
  using assms by (cases "i < length (procs s)") (auto simp: quiet_def asleep_on_def upd_proc_def nth_list_update split: if_splits)

lemma quiet_cpu [simp]: "quiet lock_id s (s'\<lparr>cpu_procs := x\<rparr>) \<longleftrightarrow> quiet lock_id s s'"
  by (simp add: quiet_def asleep_on_def)

lemma quiet_refl [simp]: "quiet lock_id s s"
  by (simp add: quiet_def)

lemma quiet_normalise: "quiet lock_id s (normalise s)"
  by (auto simp: normalise_def quiet_def asleep_on_def split: option.splits)

lemma quiet_ops:
  "quiet lock_id s (wakeup cur ch s)" "quiet lock_id s (snd (kill pid s))" "quiet lock_id s (yield_proc i s)"
  "quiet lock_id s (stride_dispatch c i s)" "quiet lock_id s (switch_back c i s)" "quiet lock_id s (sleep_exit i s)"
  "ch \<noteq> ChLock lock_id \<Longrightarrow> quiet lock_id s (sleep_enter i ch s)"
  subgoal by (auto simp: quiet_def asleep_on_def procs_wakeup wake_one_state split: if_splits)
  subgoal by (auto simp: kill_def split: option.splits if_splits intro!: quiet_upd)
  subgoal unfolding yield_proc_def by (rule quiet_upd) simp
  subgoal by (auto simp: stride_dispatch_def Let_def quiet_normalise intro!: quiet_upd)
  subgoal unfolding switch_back_def quiet_cpu by (rule quiet_upd) simp
  subgoal unfolding sleep_exit_def by (rule quiet_upd) simp
  subgoal unfolding sleep_enter_def by (rule quiet_upd) simp
  done

definition lock_inv :: "nat \<Rightarrow> (nat \<Rightarrow> lock_pc) \<times> SleepLockInner \<times> Sched \<Rightarrow> bool" where
  "lock_inv lock_id st \<longleftrightarrow> (case st of (pc, inner, s) \<Rightarrow>
     (\<forall>i j. pc i = Holding \<longrightarrow> pc j = Holding \<longrightarrow> i = j) \<and>
     (sl_locked inner \<longleftrightarrow> (\<exists>i. pc i = Holding)) \<and> (sl_locked inner \<longleftrightarrow> sl_pid inner \<noteq> None) \<and>
     (\<forall>i. asleep_on lock_id s i \<longrightarrow> pc i = Waiting \<and> sl_locked inner))"

lemma sleep_lock_inv:
  assumes inv: "lock_inv lock_id (pc, inner, s)" and i: "pc i \<noteq> Holding" "i < length (procs s)" "\<not> asleep_on lock_id s i"
    and run: "sleep_lock lock_id i (inner, s) = (got, inner', s')"
  shows "lock_inv lock_id (pc(i := if got then Holding else Waiting), inner', s')"
proof (cases "sl_locked inner")
  case True
  then have eq: "\<not> got" "inner' = inner" "s' = sleep_enter i (ChLock lock_id) s" using run by (simp_all add: sleep_lock_def)
  from inv True obtain j where j: "pc j = Holding" by (auto simp: lock_inv_def)
  then have "(pc(i := Waiting)) j = Holding" using i(1) by auto
  then have h: "\<exists>j. (pc(i := Waiting)) j = Holding" by blast
  have sl: "asleep_on lock_id s' k \<longrightarrow> k = i \<or> asleep_on lock_id s k" for k
    by (cases "k = i") (auto simp: eq asleep_on_def sleep_enter_def upd_proc_def)
  show ?thesis
    unfolding lock_inv_def prod.case using inv True h sl eq(1,2) by (auto simp: lock_inv_def)
next
  case False
  then have "got" "inner' = inner\<lparr>sl_locked := True, sl_pid := Some (p_pid (procs s ! i))\<rparr>" "s' = s"
    using run by (auto simp: sleep_lock_def)
  with inv False show ?thesis by (auto simp: lock_inv_def)
qed

lemma lock_step_inv:
  assumes "lock_step lock_id st st'" "lock_inv lock_id st"
  shows "lock_inv lock_id st'"
  using assms
proof cases
  case (acquire pc i s inner got inner' s')
  with assms(2) show ?thesis using sleep_lock_inv [of lock_id pc inner s i got inner' s'] by (auto simp: asleep_on_def)
next
  case (resume pc i s inner got inner' s')
  have "lock_inv lock_id (pc, inner, sleep_exit i s)"
    using assms(2) resume(1) quiet_ops(6) [of lock_id s i] by (auto simp: lock_inv_def quiet_def)
  then show ?thesis
    using resume sleep_lock_inv [of lock_id pc inner "sleep_exit i s" i got inner' s']
    by (auto simp: sleep_lock_resume_def asleep_on_def sleep_exit_def upd_proc_def)
next
  case (release pc i s inner inner' s')
  have none: "\<not> asleep_on lock_id s' j" for j
    using release assms(2) by (auto simp: sleep_guard_drop_def asleep_on_def procs_wakeup wake_one_def split: if_splits)
  with release assms(2) show ?thesis by (auto simp: lock_inv_def sleep_guard_drop_def)
next
  case (other s s' pc inner)
  with assms(2) show ?thesis by (auto simp: lock_inv_def quiet_def)
qed

section \<open>Theorems\<close>

text \<open>
  Property C23.  Sleep locks exclude each other and lose no wake-up: however acquisitions, releases,
  resumed sleepers and other kernel activity interleave, at most one process holds the lock, the lock
  says so, and whenever the lock is free no process is asleep waiting for it.
\<close>

theorem sleeplock_safe:
  assumes "(lock_step lock_id)\<^sup>*\<^sup>* (\<lambda>_. Out, sleeplock_new, s0) (pc, inner, s)" "\<forall>i. \<not> asleep_on lock_id s0 i"
  shows "(\<forall>i j. pc i = Holding \<longrightarrow> pc j = Holding \<longrightarrow> i = j) \<and> (sl_locked inner \<longleftrightarrow> (\<exists>i. pc i = Holding)) \<and>
    (\<not> sl_locked inner \<longrightarrow> (\<forall>i. \<not> asleep_on lock_id s i))"
proof -
  have "lock_inv lock_id (\<lambda>_. Out, sleeplock_new, s0)" using assms(2) by (simp add: lock_inv_def sleeplock_new_def)
  with assms(1) have "lock_inv lock_id (pc, inner, s)" by (induction rule: rtranclp_induct) (auto intro: lock_step_inv)
  then show ?thesis by (auto simp: lock_inv_def)
qed

definition example_lock :: Sched where
  "example_lock = proc_table_new\<lparr>procs := [proc_inner_new\<lparr>p_state := Running, p_pid := 1\<rparr>, proc_inner_new\<lparr>p_state := Running, p_pid := 2\<rparr>]\<rparr>"

theorem sleeplock_safe_witness:
  "\<exists>pc inner s. (lock_step 7)\<^sup>*\<^sup>* (\<lambda>_. Out, sleeplock_new, example_lock) (pc, inner, s) \<and> pc 0 = Holding \<and> pc 1 = Waiting \<and> sl_locked inner"
proof -
  let ?i1 = "\<lparr>sl_locked = True, sl_pid = Some 1\<rparr>"
  have a: "lock_step 7 (\<lambda>_. Out, sleeplock_new, example_lock) ((\<lambda>_. Out)(0 := if True then Holding else Waiting), ?i1, example_lock)"
    by (rule acquire) (simp_all add: example_lock_def sleep_lock_def sleeplock_new_def)
  have b: "lock_step 7 ((\<lambda>_. Out)(0 := if True then Holding else Waiting), ?i1, example_lock)
      (((\<lambda>_. Out)(0 := if True then Holding else Waiting))(1 := if False then Holding else Waiting), ?i1, sleep_enter 1 (ChLock 7) example_lock)"
    by (rule acquire) (simp_all add: example_lock_def sleep_lock_def)
  from a b have r: "(lock_step 7)\<^sup>*\<^sup>* (\<lambda>_. Out, sleeplock_new, example_lock)
      (((\<lambda>_. Out)(0 := if True then Holding else Waiting))(1 := if False then Holding else Waiting), ?i1, sleep_enter 1 (ChLock 7) example_lock)"
    by (meson rtranclp.rtrancl_into_rtrancl rtranclp.rtrancl_refl)
  have "\<not> asleep_on 7 example_lock i" for i
    by (cases "i = 0"; cases "i = 1") (simp_all add: asleep_on_def example_lock_def)
  then have "\<forall>i. \<not> asleep_on 7 example_lock i" ..
  from sleeplock_safe [OF r this] have "sl_locked ?i1 \<longleftrightarrow> (\<exists>i. (((\<lambda>_ :: nat. Out)(0 := if True then Holding else Waiting))
      (1 := if False then Holding else Waiting)) i = Holding)" by (elim conjE) assumption
  moreover have "(((\<lambda>_ :: nat. Out)(0 := if True then Holding else Waiting))(1 := if False then Holding else Waiting)) 0 = Holding"
    "(((\<lambda>_ :: nat. Out)(0 := if True then Holding else Waiting))(1 := if False then Holding else Waiting)) 1 = Waiting" by simp_all
  ultimately show ?thesis using r by blast
qed

end
