(* ===== verification/Kalloc.thy ===== *)
theory Kalloc
  imports Riscv Abi
begin

text \<open>
  The kernel allocator (\<open>kernel/src/kalloc.rs\<close>): the buddy allocator of the crate \<open>buddy_alloc\<close>
  behind the lock \<open>KMEM\<close>, and the per-page reference counts \<open>PAGE_REFS\<close> that let \<open>fork\<close> share
  pages.

  The buddy allocator is not part of the repository.  It is a parameter: the record \<open>Buddy\<close> of its
  two operations, over any state type; \<open>buddy_ok\<close> states what the kernel relies on.  Physical memory
  is a map from page addresses to typed frames, as the kernel uses each page either as a page table
  or as data; reading a frame at the wrong type or after it was freed is a panic of the model, so
  the theorems also say that this does not happen.
\<close>

section \<open>Physical memory\<close>

datatype frame = PT "nat \<Rightarrow> usize" | Pg "nat \<Rightarrow> u8"

record 'b Buddy =
  malloc :: "usize \<Rightarrow> 'b \<Rightarrow> usize \<times> 'b"
  bfree :: "usize \<Rightarrow> 'b \<Rightarrow> 'b"

record 'b Mem =
  frames :: "usize \<Rightarrow> frame option"
  page_refs :: "nat \<Rightarrow> u8"
  kmem :: "'b option"

definition zeroed_table :: frame where "zeroed_table = PT (\<lambda>_. 0)"
definition zeroed_page :: frame where "zeroed_page = Pg (\<lambda>_. 0)"

section \<open>Operations\<close>

text \<open>The index into \<open>PAGE_REFS\<close>, with the bounds check of the array.\<close>

definition page_index :: "usize \<Rightarrow> nat option" where
  "page_index pa =
     (let i = (pa - KERNBASE) div PGSIZE in
      if i < (PHYSTOP - KERNBASE) div PGSIZE then Some (unat i) else None)"

definition increment_ref :: "usize \<Rightarrow> 'b Mem \<Rightarrow> 'b Mem option" where
  "increment_ref pa m = do {
     i \<leftarrow> page_index pa;
     Some (m\<lparr>page_refs := (page_refs m)(i := page_refs m i + 1)\<rparr>)
   }"

definition kmem_alloc :: "'b Buddy \<Rightarrow> usize \<Rightarrow> 'b Mem \<Rightarrow> (usize \<times> 'b Mem) option" where
  "kmem_alloc B sz m = do {
     b \<leftarrow> kmem m;
     let (ptr, b) = malloc B sz b;
     let m = m\<lparr>kmem := Some b\<rparr>;
     if ptr \<noteq> 0 then do {
       i \<leftarrow> page_index ptr;
       Some (ptr, m\<lparr>page_refs := (page_refs m)(i := 1)\<rparr>)
     } else Some (ptr, m)
   }"

text \<open>\<open>dealloc\<close> reports whether the memory went back to the buddy allocator.\<close>

definition kmem_dealloc :: "'b Buddy \<Rightarrow> usize \<Rightarrow> 'b Mem \<Rightarrow> (bool \<times> 'b Mem) option" where
  "kmem_dealloc B ptr m = do {
     i \<leftarrow> page_index ptr;
     let old = page_refs m i;
     let m = m\<lparr>page_refs := (page_refs m)(i := old - 1)\<rparr>;
     if old = 1 then do {
       b \<leftarrow> kmem m;
       Some (True, m\<lparr>kmem := Some (bfree B ptr b)\<rparr>)
     } else Some (False, m)
   }"

text \<open>
  \<open>Box::try_new_zeroed\<close> of a page-sized type, and dropping such a box: a failed allocation is
  \<open>None\<close> inside, a panic outside.
\<close>

definition box_new :: "'b Buddy \<Rightarrow> frame \<Rightarrow> 'b Mem \<Rightarrow> (usize option \<times> 'b Mem) option" where
  "box_new B f m = do {
     (ptr, m) \<leftarrow> kmem_alloc B PGSIZE m;
     if ptr = 0 then Some (None, m) else Some (Some ptr, m\<lparr>frames := (frames m)(ptr \<mapsto> f)\<rparr>)
   }"

definition box_drop :: "'b Buddy \<Rightarrow> usize \<Rightarrow> 'b Mem \<Rightarrow> 'b Mem option" where
  "box_drop B ptr m = do {
     (freed, m) \<leftarrow> kmem_dealloc B ptr m;
     Some (if freed then m\<lparr>frames := (frames m)(ptr := None)\<rparr> else m)
   }"

section \<open>What the kernel relies on\<close>

definition ram_page :: "usize \<Rightarrow> bool" where
  "ram_page p \<longleftrightarrow> page_aligned p \<and> KERNBASE \<le> p \<and> p < PHYSTOP"

text \<open>
  Documented behaviour of the buddy allocator, for an observer \<open>live\<close> of the addresses it has
  handed out: a request for one page returns null or a page of the arena that is not handed out, and
  freeing takes a page back.
\<close>

definition buddy_ok :: "'b Buddy \<Rightarrow> ('b \<Rightarrow> usize set) \<Rightarrow> bool" where
  "buddy_ok B live \<longleftrightarrow>
     (\<forall>b p b'. malloc B PGSIZE b = (p, b') \<longrightarrow>
        (if p = 0 then live b' = live b else p \<notin> live b \<and> ram_page p \<and> live b' = insert p (live b))) \<and>
     (\<forall>b p. p \<in> live b \<longrightarrow> live (bfree B p b) = live b - {p})"

text \<open>
  The allocator invariant: it is initialised, every frame is a handed-out page of RAM, and it has at
  least one reference.
\<close>

definition refs :: "'b Mem \<Rightarrow> usize \<Rightarrow> nat" where
  "refs m p = unat (page_refs m (unat ((p - KERNBASE) div PGSIZE)))"

definition mem_inv :: "('b \<Rightarrow> usize set) \<Rightarrow> 'b Mem \<Rightarrow> bool" where
  "mem_inv live m \<longleftrightarrow>
     (\<exists>b. kmem m = Some b \<and> dom (frames m) \<subseteq> live b) \<and>
     (\<forall>p \<in> dom (frames m). ram_page p \<and> 0 < refs m p)"

lemma ram_page_index:
  assumes "ram_page p"
  shows "page_index p = Some (unat ((p - KERNBASE) div PGSIZE))"
proof -
  have "unat (p - 0x80000000) = unat p - 0x80000000"
    using assms by (simp add: ram_page_def unat_sub)
  moreover have "unat p < 0x88000000" using assms by (simp add: ram_page_def word_less_nat_alt)
  ultimately have "unat ((p - 0x80000000) div 4096) < 32768"
    by (simp add: unat_div less_mult_imp_div_less)
  then show ?thesis by (simp add: page_index_def word_less_nat_alt Let_def)
qed

lemma ram_page_inj:
  assumes "ram_page p" "ram_page q" "unat ((p - KERNBASE) div PGSIZE) = unat ((q - KERNBASE) div PGSIZE)"
  shows "p = q"
proof -
  have key: "unat x = 0x80000000 + unat ((x - KERNBASE) div PGSIZE) * 4096" if "ram_page x" for x
  proof -
    have le: "0x80000000 \<le> unat x" using that by (simp add: ram_page_def word_le_nat_alt)
    have "4096 dvd unat x" using that by (simp add: ram_page_def page_aligned_unat)
    then have "4096 dvd unat x - 0x80000000" using le by (simp add: dvd_diff_nat)
    moreover have "unat ((x - KERNBASE) div PGSIZE) = (unat x - 0x80000000) div 4096"
      using that by (simp add: ram_page_def unat_sub unat_div)
    ultimately show ?thesis using le by simp
  qed
  from key [OF assms(1)] key [OF assms(2)] assms(3) have "unat p = unat q" by simp
  then show ?thesis by (simp add: word_unat_eq_iff)
qed

lemma ram_page_nonzero: "ram_page p \<Longrightarrow> p \<noteq> 0"
  by (auto simp: ram_page_def)

lemma ram_page_pa: "ram_page p \<Longrightarrow> page_aligned p \<and> p < 2 ^ 56"
  by (auto simp: ram_page_def word_less_nat_alt)

section \<open>Behaviour of the operations\<close>

lemma refs_update:
  assumes "ram_page p" "ram_page q"
  shows "refs (m\<lparr>page_refs := (page_refs m)(unat ((p - KERNBASE) div PGSIZE) := v)\<rparr>) q =
         (if q = p then unat v else refs m q)"
  using ram_page_inj [OF assms(2,1)] by (auto simp: refs_def)

lemma refs_other_fields [simp]:
  "refs (m\<lparr>frames := f\<rparr>) p = refs m p" "refs (m\<lparr>kmem := k\<rparr>) p = refs m p"
  by (simp_all add: refs_def)

lemma box_new_spec:
  assumes B: "buddy_ok B live" and inv: "mem_inv live m"
  obtains (fail) m' where "box_new B f m = Some (None, m')" "mem_inv live m'" "frames m' = frames m"
      "refs m' = refs m"
  | (ok) p m' where "box_new B f m = Some (Some p, m')" "mem_inv live m'" "ram_page p" "frames m p = None"
      "frames m' = (frames m)(p \<mapsto> f)" "refs m' p = 1" "\<And>q. ram_page q \<Longrightarrow> q \<noteq> p \<Longrightarrow> refs m' q = refs m q"
proof -
  from inv obtain b where b: "kmem m = Some b" "dom (frames m) \<subseteq> live b" by (auto simp: mem_inv_def)
  obtain p b' where mb: "malloc B PGSIZE b = (p, b')" by fastforce
  show ?thesis
  proof (cases "p = 0")
    case True
    with B mb have live: "live b' = live b" unfolding buddy_ok_def by metis
    let ?m = "m\<lparr>kmem := Some b'\<rparr>"
    have "box_new B f m = Some (None, ?m)"
      using b mb True by (simp add: box_new_def kmem_alloc_def)
    moreover have "mem_inv live ?m" using inv b live by (auto simp: mem_inv_def)
    ultimately show ?thesis by (intro fail [of ?m]) (auto simp: refs_def fun_eq_iff)
  next
    case False
    with B mb have p: "p \<notin> live b" "ram_page p" "live b' = insert p (live b)" unfolding buddy_ok_def by metis+
    let ?i = "unat ((p - KERNBASE) div PGSIZE)"
    let ?m = "m\<lparr>kmem := Some b', page_refs := (page_refs m)(?i := 1), frames := (frames m)(p \<mapsto> f)\<rparr>"
    have new: "box_new B f m = Some (Some p, ?m)"
      using b mb False ram_page_index [OF p(2)] by (simp add: box_new_def kmem_alloc_def)
    have r: "refs ?m q = (if q = p then 1 else refs m q)" if "ram_page q" for q
      using refs_update [OF p(2) that, of "m\<lparr>kmem := Some b'\<rparr>" 1] by (simp add: refs_def)
    have fresh: "frames m p = None" using b p(1) by auto
    have "mem_inv live ?m" using inv b p r unfolding mem_inv_def by (auto simp: dom_def)
    with new r p(2) fresh show ?thesis by (intro ok [of p ?m]) auto
  qed
qed

lemma box_drop_spec:
  assumes B: "buddy_ok B live" and inv: "mem_inv live m" and p: "frames m p \<noteq> None"
  obtains m' where "box_drop B p m = Some m'" "mem_inv live m'"
    "frames m' = (if refs m p = 1 then (frames m)(p := None) else frames m)"
    "refs m' p = refs m p - 1" "\<And>q. ram_page q \<Longrightarrow> q \<noteq> p \<Longrightarrow> refs m' q = refs m q"
proof -
  from inv obtain b where b: "kmem m = Some b" "dom (frames m) \<subseteq> live b" by (auto simp: mem_inv_def)
  have rp: "ram_page p" "0 < refs m p" and live: "p \<in> live b" using inv b p by (auto simp: mem_inv_def)
  let ?i = "unat ((p - KERNBASE) div PGSIZE)"
  let ?v = "page_refs m ?i"
  let ?m1 = "m\<lparr>page_refs := (page_refs m)(?i := ?v - 1)\<rparr>"
  have v: "unat (?v - 1) = unat ?v - 1"
    using rp(2) by (subst unat_sub) (auto simp: refs_def word_le_nat_alt)
  have r: "refs ?m1 q = (if q = p then refs m p - 1 else refs m q)" if "ram_page q" for q
    using refs_update [OF rp(1) that, of m "?v - 1"] v by (simp add: refs_def)
  have old: "?v = 1 \<longleftrightarrow> refs m p = 1" by (simp add: refs_def word_unat_eq_iff)
  show ?thesis
  proof (cases "?v = 1")
    case True
    let ?m = "?m1\<lparr>kmem := Some (bfree B p b), frames := (frames m)(p := None)\<rparr>"
    have drop: "box_drop B p m = Some ?m"
      using True b ram_page_index [OF rp(1)] by (simp add: box_drop_def kmem_dealloc_def Let_def)
    have rs: "refs ?m q = refs ?m1 q" for q by (simp add: refs_def)
    have "live (bfree B p b) = live b - {p}" using B live unfolding buddy_ok_def by blast
    then have "mem_inv live ?m" using inv b r rs unfolding mem_inv_def by (auto simp: dom_def)
    with drop rs r rp old True show ?thesis by (intro that [of ?m]) auto
  next
    case False
    have drop: "box_drop B p m = Some ?m1"
      using False ram_page_index [OF rp(1)] by (simp add: box_drop_def kmem_dealloc_def Let_def)
    have "refs m p \<noteq> 1" using False old by simp
    then have "mem_inv live ?m1" using inv b r rp unfolding mem_inv_def by auto
    with drop r rp old False show ?thesis by (intro that [of ?m1]) auto
  qed
qed

lemma increment_ref_spec:
  assumes inv: "mem_inv live m" and p: "frames m p \<noteq> None" and bound: "refs m p < 255"
  obtains m' where "increment_ref p m = Some m'" "mem_inv live m'" "frames m' = frames m"
    "refs m' p = refs m p + 1" "\<And>q. ram_page q \<Longrightarrow> q \<noteq> p \<Longrightarrow> refs m' q = refs m q"
proof -
  have rp: "ram_page p" using inv p by (auto simp: mem_inv_def)
  let ?i = "unat ((p - KERNBASE) div PGSIZE)"
  let ?m = "m\<lparr>page_refs := (page_refs m)(?i := page_refs m ?i + 1)\<rparr>"
  have v: "unat (page_refs m ?i + 1) = refs m p + 1"
    using bound by (simp add: refs_def unat_word_ariths)
  have r: "refs ?m q = (if q = p then refs m p + 1 else refs m q)" if "ram_page q" for q
    using refs_update [OF rp that, of m "page_refs m ?i + 1"] v by simp
  have inc: "increment_ref p m = Some ?m"
    using ram_page_index [OF rp] by (simp add: increment_ref_def)
  have "mem_inv live ?m" using inv r unfolding mem_inv_def by auto
  with inc r rp show ?thesis by (intro that [of ?m]) auto
qed

section \<open>Sharing a page\<close>

fun share_times :: "nat \<Rightarrow> usize \<Rightarrow> 'b Mem \<Rightarrow> 'b Mem option" where
  "share_times 0 p m = Some m"
| "share_times (Suc n) p m = do { m \<leftarrow> increment_ref p m; share_times n p m }"

fun drop_times :: "'b Buddy \<Rightarrow> nat \<Rightarrow> usize \<Rightarrow> 'b Mem \<Rightarrow> 'b Mem option" where
  "drop_times B 0 p m = Some m"
| "drop_times B (Suc n) p m = do { m \<leftarrow> box_drop B p m; drop_times B n p m }"

lemma share_times_spec:
  "mem_inv live m \<Longrightarrow> frames m p \<noteq> None \<Longrightarrow> refs m p + n \<le> 255 \<Longrightarrow>
     \<exists>m'. share_times n p m = Some m' \<and> mem_inv live m' \<and> frames m' = frames m \<and> refs m' p = refs m p + n"
proof (induction n arbitrary: m)
  case 0
  then show ?case by simp
next
  case (Suc n)
  then have "refs m p < 255" by simp
  from increment_ref_spec [OF Suc.prems(1,2) this] obtain m1 where
    m1: "increment_ref p m = Some m1" "mem_inv live m1" "frames m1 = frames m" "refs m1 p = refs m p + 1"
    by blast
  with Suc.IH [of m1] Suc.prems show ?case by auto
qed

lemma drop_times_spec:
  assumes "buddy_ok B live"
  shows "mem_inv live m \<Longrightarrow> frames m p \<noteq> None \<Longrightarrow> n \<le> refs m p \<Longrightarrow>
     \<exists>m'. drop_times B n p m = Some m' \<and> mem_inv live m' \<and>
          frames m' = (if n = refs m p then (frames m)(p := None) else frames m)"
proof (induction n arbitrary: m)
  case 0
  then have "0 < refs m p" unfolding mem_inv_def by blast
  with 0 show ?case by simp
next
  case (Suc n)
  from box_drop_spec [OF assms Suc.prems(1,2)] obtain m1 where
    m1: "box_drop B p m = Some m1" "mem_inv live m1"
    "frames m1 = (if refs m p = 1 then (frames m)(p := None) else frames m)" "refs m1 p = refs m p - 1"
    by blast
  show ?case
  proof (cases "refs m p = 1")
    case True
    with Suc.prems have "n = 0" by simp
    with m1 True show ?thesis by (auto simp: fun_eq_iff)
  next
    case False
    with m1 Suc.prems have "frames m1 p \<noteq> None" "n \<le> refs m1 p" "n = refs m1 p \<longleftrightarrow> Suc n = refs m p" by auto
    with Suc.IH [OF m1(2)] m1 False show ?thesis by auto
  qed
qed


text \<open>A concrete allocator: a free list over the pages of RAM.\<close>

definition list_buddy :: "usize list Buddy" where
  "list_buddy =
     \<lparr>malloc = (\<lambda>sz b. case List.find ram_page b of None \<Rightarrow> (0, b) | Some p \<Rightarrow> (p, removeAll p b)),
      bfree = (\<lambda>p b. p # b)\<rparr>"

definition list_live :: "usize list \<Rightarrow> usize set" where
  "list_live b = {p. ram_page p \<and> p \<notin> set b}"

lemma list_buddy_ok: "buddy_ok list_buddy list_live"
proof -
  have "List.find ram_page b = Some p \<Longrightarrow> ram_page p \<and> p \<in> set b" for b p
    by (auto simp: find_Some_iff)
  then show ?thesis
    unfolding buddy_ok_def by (auto simp: list_buddy_def list_live_def ram_page_nonzero split: option.splits)
qed

definition example_mem :: "usize list Mem" where
  "example_mem = \<lparr>frames = Map.empty, page_refs = (\<lambda>_. 0), kmem = Some [0x80100000, 0x80101000, 0x80102000, 0x80103000, 0x80104000]\<rparr>"

lemma example_mem_inv: "mem_inv list_live example_mem"
  by (simp add: mem_inv_def example_mem_def)

lemma example_ram: "ram_page 0x80100000" "ram_page 0x80101000" "ram_page 0x80102000" "ram_page 0x80103000"
  "ram_page 0x80104000"
  by (simp_all add: ram_page_def page_aligned_def)


end
