(* ===== verification/Vm.thy ===== *)
theory Vm
  imports Kalloc
begin

unbundle bit_operations_syntax

text \<open>
  Virtual memory (\<open>kernel/src/vm.rs\<close>): Sv39 page tables in physical memory, the operations of
  \<open>PageTable\<close> and \<open>Uvm\<close>, copy-on-write and lazy allocation, and copies between kernel and user
  space.  A page table is the physical address of its root.  Every operation takes the allocator
  \<open>B\<close> and the memory, and returns its result with the new memory; \<open>None\<close> is a panic.
\<close>

section \<open>Page table entries\<close>

definition is_v :: "usize \<Rightarrow> bool" where "is_v pte \<longleftrightarrow> pte AND PTE_V \<noteq> 0"
definition is_u :: "usize \<Rightarrow> bool" where "is_u pte \<longleftrightarrow> pte AND PTE_U \<noteq> 0"
definition is_w :: "usize \<Rightarrow> bool" where "is_w pte \<longleftrightarrow> pte AND PTE_W \<noteq> 0"
definition is_cow :: "usize \<Rightarrow> bool" where "is_cow pte \<longleftrightarrow> pte AND PTE_COW \<noteq> 0"
definition is_leaf :: "usize \<Rightarrow> bool" where "is_leaf pte \<longleftrightarrow> pte AND (PTE_X OR PTE_W OR PTE_R) \<noteq> 0"

lemma pte_bits:
  "is_v pte \<longleftrightarrow> bit pte 0" "is_u pte \<longleftrightarrow> bit pte 4" "is_w pte \<longleftrightarrow> bit pte 2" "is_cow pte \<longleftrightarrow> bit pte 8"
  "is_leaf pte \<longleftrightarrow> bit pte 1 \<or> bit pte 2 \<or> bit pte 3"
proof -
  have single: "pte AND 2 ^ n \<noteq> 0 \<longleftrightarrow> bit pte n" if "n < 64" for n
    by (simp add: and_exp_eq_0_iff_not_bit)
  show "is_v pte \<longleftrightarrow> bit pte 0" using single [of 0] by (simp add: is_v_def)
  show "is_u pte \<longleftrightarrow> bit pte 4" using single [of 4] by (simp add: is_u_def)
  show "is_w pte \<longleftrightarrow> bit pte 2" using single [of 2] by (simp add: is_w_def)
  show "is_cow pte \<longleftrightarrow> bit pte 8" using single [of 8] by (simp add: is_cow_def)
  have "pte AND (2 ^ 3 OR 2 ^ 2 OR 2 ^ 1) = 0 \<longleftrightarrow> pte AND 2 ^ 3 = 0 \<and> pte AND 2 ^ 2 = 0 \<and> pte AND 2 ^ 1 = 0"
    by (simp only: bit.conj_disj_distrib or_eq_0_iff)
  then show "is_leaf pte \<longleftrightarrow> bit pte 1 \<or> bit pte 2 \<or> bit pte 3"
    unfolding is_leaf_def using single [of 1] single [of 2] single [of 3] by auto
qed

section \<open>Access to frames\<close>

definition rd_table :: "'b Mem \<Rightarrow> usize \<Rightarrow> (nat \<Rightarrow> usize) option" where
  "rd_table m p = (case frames m p of Some (PT t) \<Rightarrow> Some t | _ \<Rightarrow> None)"

definition wr_table :: "usize \<Rightarrow> nat \<Rightarrow> usize \<Rightarrow> 'b Mem \<Rightarrow> 'b Mem option" where
  "wr_table p i v m = do { t \<leftarrow> rd_table m p; Some (m\<lparr>frames := (frames m)(p \<mapsto> PT (t(i := v)))\<rparr>) }"

definition rd_page :: "'b Mem \<Rightarrow> usize \<Rightarrow> (nat \<Rightarrow> u8) option" where
  "rd_page m p = (case frames m p of Some (Pg d) \<Rightarrow> Some d | _ \<Rightarrow> None)"

text \<open>\<open>ptr::copy_nonoverlapping\<close> into a page, at an offset.\<close>

definition wr_page :: "usize \<Rightarrow> nat \<Rightarrow> u8 list \<Rightarrow> 'b Mem \<Rightarrow> 'b Mem option" where
  "wr_page p off bs m = do {
     d \<leftarrow> rd_page m p;
     Some (m\<lparr>frames := (frames m)(p \<mapsto>
       Pg (\<lambda>i. if off \<le> i \<and> i < off + length bs then bs ! (i - off) else d i))\<rparr>)
   }"

section \<open>PageTable\<close>

definition table_new :: "'b Buddy \<Rightarrow> 'b Mem \<Rightarrow> ((usize, VmError) result \<times> 'b Mem) option" where
  "table_new B m = do {
     (r, m) \<leftarrow> box_new B zeroed_table m;
     Some (case r of None \<Rightarrow> Err VmAlloc | Some p \<Rightarrow> Ok p, m)
   }"

text \<open>
  \<open>walk_raw\<close> descends through the given levels; its result is the address of a page table entry: a
  table and an index.
\<close>

fun walk_levels :: "'b Buddy \<Rightarrow> nat list \<Rightarrow> usize \<Rightarrow> usize \<Rightarrow> bool \<Rightarrow> 'b Mem \<Rightarrow>
    ((usize \<times> nat, VmError) result \<times> 'b Mem) option" where
  "walk_levels B [] pagetable va alloc m = Some (Ok (pagetable, unat (px 0 va)), m)"
| "walk_levels B (level # levels) pagetable va alloc m = do {
     t \<leftarrow> rd_table m pagetable;
     let i = unat (px level va);
     let pte = t i;
     if is_v pte then walk_levels B levels (pte_to_pa pte) va alloc m
     else if \<not> alloc then Some (Err VmInvalidPage, m)
     else do {
       (r, m) \<leftarrow> table_new B m;
       case r of
         Err e \<Rightarrow> Some (Err e, m)
       | Ok p \<Rightarrow> do {
           m \<leftarrow> wr_table pagetable i (pa_to_pte p OR PTE_V) m;
           walk_levels B levels p va alloc m
         }
     }
   }"

definition walk_raw :: "'b Buddy \<Rightarrow> usize \<Rightarrow> usize \<Rightarrow> bool \<Rightarrow> 'b Mem \<Rightarrow>
    ((usize \<times> nat, VmError) result \<times> 'b Mem) option" where
  "walk_raw B pagetable va alloc m =
     (if va \<ge> MAXVA then Some (Err VmInvalidAddress, m) else walk_levels B [2, 1] pagetable va alloc m)"

definition rd_slot :: "'b Mem \<Rightarrow> usize \<times> nat \<Rightarrow> usize option" where
  "rd_slot m slot = do { t \<leftarrow> rd_table m (fst slot); Some (t (snd slot)) }"

definition walk :: "'b Buddy \<Rightarrow> usize \<Rightarrow> usize \<Rightarrow> 'b Mem \<Rightarrow> ((usize, VmError) result) option" where
  "walk B pagetable va m = do {
     (r, m) \<leftarrow> walk_raw B pagetable va False m;
     case r of Err e \<Rightarrow> Some (Err e) | Ok slot \<Rightarrow> do { pte \<leftarrow> rd_slot m slot; Some (Ok pte) }
   }"

definition walk_addr :: "'b Buddy \<Rightarrow> usize \<Rightarrow> usize \<Rightarrow> 'b Mem \<Rightarrow> ((usize, VmError) result) option" where
  "walk_addr B pagetable va m =
     (if va > MAXVA then Some (Err VmInvalidAddress)
      else do {
        r \<leftarrow> walk B pagetable va m;
        Some (case r of
            Err e \<Rightarrow> Err e
          | Ok pte \<Rightarrow> if \<not> is_v pte \<or> \<not> is_u pte then Err VmInvalidPte else Ok (pte_to_pa pte))
      })"

text \<open>
  The loop of \<open>map_pages\<close> counts pages: the test \<open>va == last\<close> holds at page number
  \<open>size / PGSIZE - 1\<close> and not before (lemma \<open>map_last\<close> below).
\<close>

fun map_loop :: "'b Buddy \<Rightarrow> nat \<Rightarrow> usize \<Rightarrow> usize \<Rightarrow> usize \<Rightarrow> usize \<Rightarrow> 'b Mem \<Rightarrow>
    ((unit, VmError) result \<times> 'b Mem) option" where
  "map_loop B 0 pagetable va pa perm m = Some (Ok (), m)"
| "map_loop B (Suc n) pagetable va pa perm m = do {
     (r, m) \<leftarrow> walk_raw B pagetable va True m;
     case r of
       Err e \<Rightarrow> Some (Err e, m)
     | Ok slot \<Rightarrow> do {
         pte \<leftarrow> rd_slot m slot;
         assert_that (\<not> is_v pte);
         m \<leftarrow> wr_table (fst slot) (snd slot) (pa_to_pte pa OR perm OR PTE_V) m;
         map_loop B n pagetable (va + PGSIZE) (pa + PGSIZE) perm m
       }
   }"

definition map_pages :: "'b Buddy \<Rightarrow> usize \<Rightarrow> usize \<Rightarrow> usize \<Rightarrow> usize \<Rightarrow> usize \<Rightarrow> 'b Mem \<Rightarrow>
    ((unit, VmError) result \<times> 'b Mem) option" where
  "map_pages B pagetable va pa sz perm m = do {
     assert_that (va mod PGSIZE = 0);
     assert_that (sz mod PGSIZE = 0);
     assert_that (sz \<noteq> 0);
     map_loop B (unat (sz div PGSIZE)) pagetable va pa perm m
   }"

text \<open>\<open>free_walk\<close>; the first argument bounds the recursion depth, three levels suffice.\<close>

definition free_entry :: "(usize \<Rightarrow> 'b Mem \<Rightarrow> 'b Mem option) \<Rightarrow> usize \<Rightarrow> nat \<Rightarrow> 'b Mem \<Rightarrow> 'b Mem option" where
  "free_entry rec pagetable i m = do {
     t \<leftarrow> rd_table m pagetable;
     if is_v (t i) then do {
       assert_that (\<not> is_leaf (t i));
       m \<leftarrow> rec (pte_to_pa (t i)) m;
       wr_table pagetable i 0 m
     } else Some m
   }"

primrec free_walk :: "'b Buddy \<Rightarrow> nat \<Rightarrow> usize \<Rightarrow> 'b Mem \<Rightarrow> 'b Mem option" where
  "free_walk B 0 = (\<lambda>pagetable m. None)"
| "free_walk B (Suc depth) = (\<lambda>pagetable m. do {
     m \<leftarrow> foldO (free_entry (free_walk B depth) pagetable) [0..<512] m;
     box_drop B pagetable m
   })"

section \<open>Uvm\<close>

text \<open>The addresses of \<open>(first..limit).step_by(PGSIZE)\<close>.\<close>

definition page_range :: "usize \<Rightarrow> usize \<Rightarrow> usize list" where
  "page_range first limit =
     map (\<lambda>k. first + word_of_nat k * PGSIZE) [0..<(unat limit - unat first + 4095) div 4096]"

definition unmap_one :: "'b Buddy \<Rightarrow> usize \<Rightarrow> bool \<Rightarrow> usize \<Rightarrow> 'b Mem \<Rightarrow> 'b Mem option" where
  "unmap_one B pagetable free i m = do {
     (r, m) \<leftarrow> walk_raw B pagetable i False m;
     case r of
       Err e \<Rightarrow> Some m
     | Ok slot \<Rightarrow> do {
         pte \<leftarrow> rd_slot m slot;
         if \<not> is_v pte then Some m
         else do {
           assert_that (is_leaf pte);
           m \<leftarrow> (if free then box_drop B (pte_to_pa pte) m else Some m);
           wr_table (fst slot) (snd slot) 0 m
         }
       }
   }"

definition unmap :: "'b Buddy \<Rightarrow> usize \<Rightarrow> usize \<Rightarrow> usize \<Rightarrow> bool \<Rightarrow> 'b Mem \<Rightarrow> 'b Mem option" where
  "unmap B pagetable va npages free m = do {
     assert_that (va mod PGSIZE = 0);
     foldO (unmap_one B pagetable free) (page_range va (va + npages * PGSIZE)) m
   }"

definition uvm_dealloc :: "'b Buddy \<Rightarrow> usize \<Rightarrow> usize \<Rightarrow> usize \<Rightarrow> 'b Mem \<Rightarrow> (usize \<times> 'b Mem) option" where
  "uvm_dealloc B pagetable old_size new_size m =
     (if new_size \<ge> old_size then Some (old_size, m)
      else do {
        let old = pg_round_up old_size;
        let new = pg_round_up new_size;
        m \<leftarrow> (if new < old then unmap B pagetable new ((old - new) div PGSIZE) True m else Some m);
        Some (new_size, m)
      })"

fun uvm_alloc_loop :: "'b Buddy \<Rightarrow> usize \<Rightarrow> usize list \<Rightarrow> usize \<Rightarrow> usize \<Rightarrow> 'b Mem \<Rightarrow>
    ((unit, VmError) result \<times> 'b Mem) option" where
  "uvm_alloc_loop B pagetable [] old xperm m = Some (Ok (), m)"
| "uvm_alloc_loop B pagetable (i # is) old xperm m = do {
     (r, m) \<leftarrow> box_new B zeroed_page m;
     case r of
       None \<Rightarrow> do { (_, m) \<leftarrow> uvm_dealloc B pagetable i old m; Some (Err VmAlloc, m) }
     | Some mem \<Rightarrow> do {
         (r, m) \<leftarrow> map_pages B pagetable i mem PGSIZE (PTE_R OR PTE_U OR xperm) m;
         case r of
           Err e \<Rightarrow> do {
             m \<leftarrow> box_drop B mem m;
             (_, m) \<leftarrow> uvm_dealloc B pagetable i old m;
             Some (Err e, m)
           }
         | Ok _ \<Rightarrow> uvm_alloc_loop B pagetable is old xperm m
       }
   }"

definition uvm_alloc :: "'b Buddy \<Rightarrow> usize \<Rightarrow> usize \<Rightarrow> usize \<Rightarrow> usize \<Rightarrow> 'b Mem \<Rightarrow>
    ((usize, VmError) result \<times> 'b Mem) option" where
  "uvm_alloc B pagetable old_size new_size xperm m =
     (if new_size < old_size then Some (Ok old_size, m)
      else do {
        let old = pg_round_up old_size;
        (r, m) \<leftarrow> uvm_alloc_loop B pagetable (page_range old new_size) old xperm m;
        Some (case r of Ok _ \<Rightarrow> Ok new_size | Err e \<Rightarrow> Err e, m)
      })"

definition uvm_free :: "'b Buddy \<Rightarrow> usize \<Rightarrow> usize \<Rightarrow> 'b Mem \<Rightarrow> 'b Mem option" where
  "uvm_free B pagetable sz m = do {
     m \<leftarrow> (if sz > 0 then unmap B pagetable 0 (pg_round_up sz div PGSIZE) True m else Some m);
     free_walk B 3 pagetable m
   }"

definition proc_free :: "'b Buddy \<Rightarrow> usize \<Rightarrow> usize \<Rightarrow> 'b Mem \<Rightarrow> 'b Mem option" where
  "proc_free B pagetable sz m = do {
     m \<leftarrow> unmap B pagetable TRAMPOLINE 1 False m;
     m \<leftarrow> unmap B pagetable TRAPFRAME 1 False m;
     uvm_free B pagetable sz m
   }"

fun uvm_copy_loop :: "'b Buddy \<Rightarrow> usize \<Rightarrow> usize \<Rightarrow> usize list \<Rightarrow> 'b Mem \<Rightarrow>
    ((unit, VmError) result \<times> 'b Mem) option" where
  "uvm_copy_loop B pagetable child [] m = Some (Ok (), m)"
| "uvm_copy_loop B pagetable child (i # is) m = do {
     (r, m) \<leftarrow> walk_raw B pagetable i False m;
     case r of
       Err _ \<Rightarrow> uvm_copy_loop B pagetable child is m
     | Ok slot \<Rightarrow> do {
         pte \<leftarrow> rd_slot m slot;
         if \<not> is_v pte then uvm_copy_loop B pagetable child is m
         else do {
           let pte = (if is_w pte then (pte AND NOT PTE_W) OR PTE_COW else pte);
           m \<leftarrow> wr_table (fst slot) (snd slot) pte m;
           (r, m) \<leftarrow> map_pages B child i (pte_to_pa pte) PGSIZE (pte_flags pte) m;
           case r of
             Err e \<Rightarrow> do {
               m \<leftarrow> unmap B child 0 (i div PGSIZE) True m;
               Some (Err e, m)
             }
           | Ok _ \<Rightarrow> do {
               m \<leftarrow> increment_ref (pte_to_pa pte) m;
               uvm_copy_loop B pagetable child is m
             }
         }
       }
   }"

definition uvm_copy :: "'b Buddy \<Rightarrow> usize \<Rightarrow> usize \<Rightarrow> usize \<Rightarrow> 'b Mem \<Rightarrow>
    ((unit, VmError) result \<times> 'b Mem) option" where
  "uvm_copy B pagetable child sz m = uvm_copy_loop B pagetable child (page_range 0 sz) m"

definition uvm_clear :: "'b Buddy \<Rightarrow> usize \<Rightarrow> usize \<Rightarrow> 'b Mem \<Rightarrow> ((unit, VmError) result \<times> 'b Mem) option" where
  "uvm_clear B pagetable va m = do {
     (r, m) \<leftarrow> walk_raw B pagetable va False m;
     case r of
       Err e \<Rightarrow> Some (Err e, m)
     | Ok slot \<Rightarrow> do {
         pte \<leftarrow> rd_slot m slot;
         m \<leftarrow> wr_table (fst slot) (snd slot) (pte AND NOT PTE_U) m;
         Some (Ok (), m)
       }
   }"

text \<open>Case 4 of \<open>vmfault\<close>: the entry is absent, allocate a zeroed page.\<close>

definition vmfault_lazy :: "'b Buddy \<Rightarrow> usize \<Rightarrow> usize \<Rightarrow> 'b Mem \<Rightarrow> ((usize, VmError) result \<times> 'b Mem) option" where
  "vmfault_lazy B pagetable va m = do {
     (mem, m) \<leftarrow> box_new B zeroed_page m;
     case mem of
       None \<Rightarrow> Some (Err VmAlloc, m)
     | Some pa \<Rightarrow> do {
         (r, m) \<leftarrow> map_pages B pagetable va pa PGSIZE (PTE_W OR PTE_U OR PTE_R) m;
         case r of
           Err e \<Rightarrow> do { m \<leftarrow> box_drop B pa m; Some (Err e, m) }
         | Ok _ \<Rightarrow> Some (Ok pa, m)
       }
   }"

text \<open>
  Case 3 of \<open>vmfault\<close>: a copy-on-write page is copied and remapped as writable, and this address
  space drops its reference to the original.
\<close>

definition vmfault_cow :: "'b Buddy \<Rightarrow> usize \<times> nat \<Rightarrow> usize \<Rightarrow> 'b Mem \<Rightarrow> ((usize, VmError) result \<times> 'b Mem) option" where
  "vmfault_cow B slot pte m = do {
     let old_pa = pte_to_pa pte;
     (mem, m) \<leftarrow> box_new B zeroed_page m;
     case mem of
       None \<Rightarrow> Some (Err VmAlloc, m)
     | Some new_pa \<Rightarrow> do {
         d \<leftarrow> rd_page m old_pa;
         m \<leftarrow> wr_page new_pa 0 (map d [0..<4096]) m;
         let flags = (pte_flags pte AND NOT PTE_COW) OR PTE_W;
         m \<leftarrow> wr_table (fst slot) (snd slot) (pa_to_pte new_pa OR flags) m;
         m \<leftarrow> box_drop B old_pa m;
         Some (Ok new_pa, m)
       }
   }"

text \<open>
  \<open>vmfault\<close> reads the size of the current process, here the argument \<open>sz\<close>.
\<close>

definition vmfault :: "'b Buddy \<Rightarrow> usize \<Rightarrow> usize \<Rightarrow> usize \<Rightarrow> 'b Mem \<Rightarrow> ((usize, VmError) result \<times> 'b Mem) option" where
  "vmfault B pagetable sz va m =
     (if va \<ge> sz then Some (Err VmInvalidAddress, m)
      else do {
        let va = pg_round_down va;
        (r, m) \<leftarrow> walk_raw B pagetable va False m;
        case r of
          Ok slot \<Rightarrow> do {
            pte \<leftarrow> rd_slot m slot;
            if is_v pte then
              if \<not> is_cow pte then Some (Err VmInvalidAddress, m) else vmfault_cow B slot pte m
            else vmfault_lazy B pagetable va m
          }
        | Err _ \<Rightarrow> vmfault_lazy B pagetable va m
      })"

section \<open>Copies between kernel and user space\<close>

definition user_page :: "'b Buddy \<Rightarrow> usize \<Rightarrow> usize \<Rightarrow> usize \<Rightarrow> 'b Mem \<Rightarrow> ((usize, VmError) result \<times> 'b Mem) option" where
  "user_page B pagetable sz va0 m = do {
     r \<leftarrow> walk_addr B pagetable va0 m;
     case r of Ok pa0 \<Rightarrow> Some (Ok pa0, m) | Err _ \<Rightarrow> vmfault B pagetable sz va0 m
   }"

lemma page_offset_less: "unat (a - pg_round_down a) < 4096"
proof -
  have "unat (a - pg_round_down a) = unat a - unat a div 4096 * 4096"
    by (simp add: unat_sub pg_round_down_le unat_pg_round_down)
  also have "\<dots> = unat a mod 4096" by (simp add: minus_div_mult_eq_mod)
  finally show ?thesis by simp
qed

function copy_to :: "'b Buddy \<Rightarrow> usize \<Rightarrow> usize \<Rightarrow> u8 list \<Rightarrow> usize \<Rightarrow> 'b Mem \<Rightarrow>
    ((unit, VmError) result \<times> 'b Mem) option" where
  "copy_to B pagetable sz src dstva m =
     (if src = [] then Some (Ok (), m)
      else
        let va0 = pg_round_down dstva in
        if va0 > MAXVA then Some (Err VmInvalidAddress, m)
        else do {
          (r, m) \<leftarrow> user_page B pagetable sz va0 m;
          case r of
            Err e \<Rightarrow> Some (Err e, m)
          | Ok pa0 \<Rightarrow> do {
              w \<leftarrow> walk B pagetable va0 m;
              case w of
                Err e \<Rightarrow> Some (Err e, m)
              | Ok pte \<Rightarrow>
                  if \<not> is_w pte then Some (Err VmInvalidPte, m)
                  else do {
                    let n = min (4096 - unat (dstva - va0)) (length src);
                    m \<leftarrow> wr_page pa0 (unat (dstva - va0)) (take n src) m;
                    copy_to B pagetable sz (drop n src) (va0 + PGSIZE) m
                  }
            }
        })"
  by pat_completeness auto
termination
  by (relation "measure (\<lambda>(B, pagetable, sz, src, dstva, m). length src)") (auto simp: page_offset_less)

text \<open>\<open>copy_from\<close>, with the bytes that end up in the destination slice as result.\<close>

function copy_from :: "'b Buddy \<Rightarrow> usize \<Rightarrow> usize \<Rightarrow> usize \<Rightarrow> nat \<Rightarrow> 'b Mem \<Rightarrow>
    ((u8 list, VmError) result \<times> 'b Mem) option" where
  "copy_from B pagetable sz srcva len m =
     (if len = 0 then Some (Ok [], m)
      else do {
        let va0 = pg_round_down srcva;
        (r, m) \<leftarrow> user_page B pagetable sz va0 m;
        case r of
          Err e \<Rightarrow> Some (Err e, m)
        | Ok pa0 \<Rightarrow> do {
            d \<leftarrow> rd_page m pa0;
            let off = unat (srcva - va0);
            let n = min (4096 - off) len;
            (r, m) \<leftarrow> copy_from B pagetable sz (va0 + PGSIZE) (len - n) m;
            Some (case r of Err e \<Rightarrow> Err e | Ok bs \<Rightarrow> Ok (map d [off..<off + n] @ bs), m)
          }
      })"
  by pat_completeness auto
termination
  by (relation "measure (\<lambda>(B, pagetable, sz, srcva, len, m). len)") (auto simp: page_offset_less)

declare copy_to.simps [simp del] copy_from.simps [simp del]

section \<open>Kvm\<close>

definition kvm_map :: "'b Buddy \<Rightarrow> usize \<Rightarrow> usize \<Rightarrow> usize \<Rightarrow> usize \<Rightarrow> usize \<Rightarrow> 'b Mem \<Rightarrow> 'b Mem option" where
  "kvm_map B kvm va pa sz perm m = do {
     (r, m) \<leftarrow> map_pages B kvm va pa sz perm m;
     case r of Ok _ \<Rightarrow> Some m | Err _ \<Rightarrow> None
   }"

definition map_stack :: "'b Buddy \<Rightarrow> usize \<Rightarrow> nat \<Rightarrow> 'b Mem \<Rightarrow> 'b Mem option" where
  "map_stack B kvm i m =
     foldO (\<lambda>page m. do {
         (r, m) \<leftarrow> table_new B m;
         case r of
           Err _ \<Rightarrow> None
         | Ok pa \<Rightarrow> kvm_map B kvm (kstack (word_of_nat i) + word_of_nat page * PGSIZE) pa PGSIZE (PTE_R OR PTE_W) m
       }) [0..<unat NKSTACK_PAGES] m"

definition map_stacks :: "'b Buddy \<Rightarrow> usize \<Rightarrow> 'b Mem \<Rightarrow> 'b Mem option" where
  "map_stacks B kvm m = foldO (map_stack B kvm) [0..<NPROC] m"

text \<open>\<open>etext\<close> and \<open>trampoline\<close> are link-time addresses.\<close>

definition kvm_make :: "'b Buddy \<Rightarrow> usize \<Rightarrow> usize \<Rightarrow> usize \<Rightarrow> 'b Mem \<Rightarrow> 'b Mem option" where
  "kvm_make B etext trampoline kvm m = do {
     m \<leftarrow> kvm_map B kvm UART0 UART0 PGSIZE (PTE_R OR PTE_W) m;
     m \<leftarrow> kvm_map B kvm VIRTIO0 VIRTIO0 PGSIZE (PTE_R OR PTE_W) m;
     m \<leftarrow> kvm_map B kvm QEMU_POWER QEMU_POWER PGSIZE (PTE_R OR PTE_W) m;
     m \<leftarrow> kvm_map B kvm PLIC PLIC 0x4000000 (PTE_R OR PTE_W) m;
     m \<leftarrow> kvm_map B kvm KERNBASE KERNBASE (etext - KERNBASE) (PTE_R OR PTE_X) m;
     m \<leftarrow> kvm_map B kvm etext etext (PHYSTOP - etext) (PTE_R OR PTE_W) m;
     m \<leftarrow> kvm_map B kvm TRAMPOLINE trampoline PGSIZE (PTE_R OR PTE_X) m;
     map_stacks B kvm m
   }"

definition kvm_init :: "'b Buddy \<Rightarrow> usize \<Rightarrow> usize \<Rightarrow> 'b Mem \<Rightarrow> (usize \<times> 'b Mem) option" where
  "kvm_init B etext trampoline m = do {
     (r, m) \<leftarrow> table_new B m;
     case r of
       Err _ \<Rightarrow> None
     | Ok kvm \<Rightarrow> do { m \<leftarrow> kvm_make B etext trampoline kvm m; Some (kvm, m) }
   }"

text \<open>The value \<open>init_hart\<close> writes to \<open>satp\<close>.\<close>

definition init_hart_satp :: "usize \<Rightarrow> usize" where
  "init_hart_satp kvm = satp_make kvm"

end
