(* ===== verification/Vm_Tree.thy ===== *)
theory Vm_Tree
  imports Vm
begin

unbundle bit_operations_syntax

text \<open>
  Page tables as trees.  \<open>tree m k p\<close> says that the frames reachable from table \<open>p\<close> through \<open>k\<close>
  levels of valid entries form a tree of page table frames, \<open>nodes\<close> is their set, and \<open>leaf\<close> is the
  entry a virtual address leads to (zero where a table is missing).  The operations of \<open>PageTable\<close> are
  shown to act on \<open>leaf\<close> like updates of a function, and to leave all other frames alone.
\<close>

section \<open>Trees of tables\<close>

definition child :: "'b Mem \<Rightarrow> usize \<Rightarrow> nat \<Rightarrow> usize option" where
  "child m p i =
     (case rd_table m p of None \<Rightarrow> None | Some t \<Rightarrow> if is_v (t i) then Some (pte_to_pa (t i)) else None)"

primrec nodes :: "'b Mem \<Rightarrow> nat \<Rightarrow> usize \<Rightarrow> usize set" where
  "nodes m 0 p = {p}"
| "nodes m (Suc k) p = insert p (\<Union>i \<in> {..<512}. case child m p i of None \<Rightarrow> {} | Some c \<Rightarrow> nodes m k c)"

primrec tree :: "'b Mem \<Rightarrow> nat \<Rightarrow> usize \<Rightarrow> bool" where
  "tree m 0 p \<longleftrightarrow> rd_table m p \<noteq> None"
| "tree m (Suc k) p \<longleftrightarrow> rd_table m p \<noteq> None \<and>
     (\<forall>i < 512. \<forall>c. child m p i = Some c \<longrightarrow> tree m k c \<and> p \<notin> nodes m k c) \<and>
     (\<forall>i < 512. \<forall>j < 512. \<forall>c d. i \<noteq> j \<and> child m p i = Some c \<and> child m p j = Some d \<longrightarrow>
        nodes m k c \<inter> nodes m k d = {})"

primrec leaf :: "'b Mem \<Rightarrow> nat \<Rightarrow> usize \<Rightarrow> usize \<Rightarrow> usize" where
  "leaf m 0 p va = (case rd_table m p of None \<Rightarrow> 0 | Some t \<Rightarrow> t (unat (px 0 va)))"
| "leaf m (Suc k) p va = (case child m p (unat (px (Suc k) va)) of None \<Rightarrow> 0 | Some c \<Rightarrow> leaf m k c va)"

primrec slot :: "'b Mem \<Rightarrow> nat \<Rightarrow> usize \<Rightarrow> usize \<Rightarrow> (usize \<times> nat) option" where
  "slot m 0 p va = Some (p, unat (px 0 va))"
| "slot m (Suc k) p va = (case child m p (unat (px (Suc k) va)) of None \<Rightarrow> None | Some c \<Rightarrow> slot m k c va)"

lemma nodes_self [simp]: "p \<in> nodes m k p"
  by (cases k) simp_all

lemma nodes_child: "i < 512 \<Longrightarrow> child m p i = Some c \<Longrightarrow> nodes m k c \<subseteq> nodes m (Suc k) p"
  by (force simp: nodes.simps)

lemma nodes_Suc_cases:
  assumes "q \<in> nodes m (Suc k) p"
  obtains "q = p" | i c where "i < 512" "child m p i = Some c" "q \<in> nodes m k c"
  using assms by (auto split: option.splits)

lemma tree_rd: "tree m k p \<Longrightarrow> rd_table m p \<noteq> None"
  by (cases k) auto

lemma tree_child:
  assumes "tree m (Suc k) p" "i < 512" "child m p i = Some c"
  shows "tree m k c" "p \<notin> nodes m k c"
  using assms by auto

lemma tree_disjoint:
  assumes "tree m (Suc k) p" "i < 512" "j < 512" "i \<noteq> j" "child m p i = Some c" "child m p j = Some d"
  shows "nodes m k c \<inter> nodes m k d = {}"
  using assms by auto

lemma treeI:
  assumes "rd_table m p \<noteq> None"
    and "\<And>i c. i < 512 \<Longrightarrow> child m p i = Some c \<Longrightarrow> tree m k c \<and> p \<notin> nodes m k c"
    and "\<And>i j c d. i < 512 \<Longrightarrow> j < 512 \<Longrightarrow> i \<noteq> j \<Longrightarrow> child m p i = Some c \<Longrightarrow> child m p j = Some d \<Longrightarrow>
           nodes m k c \<inter> nodes m k d = {}"
  shows "tree m (Suc k) p"
  using assms unfolding tree.simps by blast

declare tree.simps(2) [simp del] nodes.simps(2) [simp del]

lemma tree_nodes_table: "tree m k p \<Longrightarrow> q \<in> nodes m k p \<Longrightarrow> \<exists>t. frames m q = Some (PT t)"
proof (induction k arbitrary: p)
  case 0
  then show ?case by (auto simp: rd_table_def split: option.splits frame.splits)
next
  case (Suc k)
  from Suc.prems(2) show ?case
  proof (cases rule: nodes_Suc_cases)
    case 1
    with tree_rd [OF Suc.prems(1)] show ?thesis by (auto simp: rd_table_def split: option.splits frame.splits)
  next
    case (2 i c)
    with Suc.IH tree_child [OF Suc.prems(1)] show ?thesis by blast
  qed
qed

lemma rd_table_cong: "frames m' p = frames m p \<Longrightarrow> rd_table m' p = rd_table m p"
  by (simp add: rd_table_def)

lemma child_cong: "frames m' p = frames m p \<Longrightarrow> child m' p i = child m p i"
  by (simp add: child_def rd_table_def)

text \<open>Everything about a tree depends only on the frames of its nodes.\<close>

lemma tree_frame:
  assumes "\<And>q. q \<in> nodes m k p \<Longrightarrow> frames m' q = frames m q"
  shows "nodes m' k p = nodes m k p \<and> (tree m k p \<longrightarrow> tree m' k p) \<and> leaf m' k p va = leaf m k p va \<and>
         slot m' k p va = slot m k p va"
  using assms
proof (induction k arbitrary: p)
  case 0
  then show ?case by (simp add: rd_table_def)
next
  case (Suc k)
  have p: "frames m' p = frames m p" using Suc.prems by simp
  have IH: "nodes m' k c = nodes m k c" "tree m k c \<longrightarrow> tree m' k c" "leaf m' k c va = leaf m k c va"
    "slot m' k c va = slot m k c va"
    if "child m p i = Some c" "i < 512" for c i
    using Suc.IH [of c] Suc.prems nodes_child [OF that(2,1), of k] by blast+
  have "nodes m' (Suc k) p = nodes m (Suc k) p"
    by (auto simp: nodes.simps child_cong [OF p] IH split: option.splits)
  moreover have "tree m' (Suc k) p" if T: "tree m (Suc k) p"
  proof -
    have disj: "nodes m' k c \<inter> nodes m' k d = {}"
      if "i < 512" "j < 512" "i \<noteq> j" "child m p i = Some c" "child m p j = Some d" for i j c d
      using tree_disjoint [OF T that(1-3)] that IH(1) by simp
    have "tree m' k c \<and> p \<notin> nodes m' k c" if "i < 512" "child m p i = Some c" for i c
      using tree_child [OF T that] that IH(1,2) by simp
    with disj tree_rd [OF T] show ?thesis
      by (intro treeI) (simp_all add: child_cong [OF p] rd_table_cong [OF p])
  qed
  moreover have "leaf m' (Suc k) p va = leaf m (Suc k) p va" "slot m' (Suc k) p va = slot m (Suc k) p va"
    by (auto simp: child_cong [OF p] IH split: option.splits)
  ultimately show ?case by blast
qed

lemmas nodes_frame = tree_frame [THEN conjunct1]
lemmas tree_frameI = tree_frame [THEN conjunct2, THEN conjunct1, THEN mp]
lemmas leaf_frame = tree_frame [THEN conjunct2, THEN conjunct2, THEN conjunct1]
lemmas slot_frame = tree_frame [THEN conjunct2, THEN conjunct2, THEN conjunct2]

lemma slot_leaf:
  assumes "tree m k p"
  shows "case slot m k p va of
           None \<Rightarrow> leaf m k p va = 0
         | Some (q, i) \<Rightarrow> q \<in> nodes m k p \<and> rd_slot m (q, i) = Some (leaf m k p va) \<and> i = unat (px 0 va)"
  using assms
proof (induction k arbitrary: p)
  case 0
  then show ?case by (auto simp: rd_slot_def)
next
  case (Suc k)
  show ?case
  proof (cases "child m p (unat (px (Suc k) va))")
    case None
    then show ?thesis by simp
  next
    case (Some c)
    from Suc.IH [OF tree_child(1) [OF Suc.prems unat_px_less Some]] Some nodes_child [OF unat_px_less Some, of k] show ?thesis
      by (auto split: option.splits)
  qed
qed

section \<open>Walking without allocation\<close>

definition levels :: "nat \<Rightarrow> nat list" where "levels k = rev [1..<Suc k]"

lemma levels_simps [simp]: "levels 0 = []" "levels (Suc k) = Suc k # levels k"
  by (simp_all add: levels_def)

lemma levels_2: "[2, 1] = levels 2"
  by (simp add: numeral_2_eq_2)

lemma walk_levels_read:
  "tree m k p \<Longrightarrow> walk_levels B (levels k) p va False m =
     Some (case slot m k p va of None \<Rightarrow> Err VmInvalidPage | Some s \<Rightarrow> Ok s, m)"
proof (induction k arbitrary: p)
  case 0
  then show ?case by simp
next
  case (Suc k)
  then obtain t where t: "rd_table m p = Some t" by (auto dest: tree_rd)
  show ?case
  proof (cases "is_v (t (unat (px (Suc k) va)))")
    case True
    then have c: "child m p (unat (px (Suc k) va)) = Some (pte_to_pa (t (unat (px (Suc k) va))))"
      by (simp add: child_def t)
    from Suc.IH [OF tree_child(1) [OF Suc.prems unat_px_less c]] c t True show ?thesis by simp
  next
    case False
    then have "child m p (unat (px (Suc k) va)) = None" by (simp add: child_def t)
    with t False show ?thesis by simp
  qed
qed

lemma walk_raw_read:
  assumes "tree m 2 p"
  shows "walk_raw B p va False m =
    Some (if va \<ge> MAXVA then Err VmInvalidAddress
          else case slot m 2 p va of None \<Rightarrow> Err VmInvalidPage | Some s \<Rightarrow> Ok s, m)"
  unfolding walk_raw_def levels_2 walk_levels_read [OF assms] by simp

section \<open>Writing an entry\<close>

lemma wr_table_Some:
  assumes "wr_table q i v m = Some m'"
  shows "\<exists>t. rd_table m q = Some t \<and> frames m' = (frames m)(q \<mapsto> PT (t(i := v)))"
    "kmem m' = kmem m" "page_refs m' = page_refs m" "refs m' = refs m"
  using assms by (auto simp: wr_table_def bind_eq_Some_conv refs_def fun_eq_iff)

lemma slot_table:
  assumes "tree m k p" "slot m k p va = Some (q, i)"
  shows "q \<in> nodes m k p" "\<exists>t. rd_table m q = Some t \<and> t i = leaf m k p va" "i = unat (px 0 va)"
  using slot_leaf [OF assms(1), of va] assms(2) by (auto simp: rd_slot_def bind_eq_Some_conv)

definition same_path :: "nat \<Rightarrow> usize \<Rightarrow> usize \<Rightarrow> bool" where
  "same_path k va va' \<longleftrightarrow> (\<forall>l \<le> k. px l va' = px l va)"

lemma same_path_Suc: "same_path (Suc k) va va' \<longleftrightarrow> px (Suc k) va' = px (Suc k) va \<and> same_path k va va'"
  by (auto simp: same_path_def le_Suc_eq)

lemma slot_write:
  assumes "tree m k p" "slot m k p va = Some (q, i)" "wr_table q i v m = Some m'"
  shows "tree m' k p \<and> nodes m' k p = nodes m k p \<and>
         (\<forall>va'. leaf m' k p va' = (if same_path k va va' then v else leaf m k p va') \<and>
                slot m' k p va' = slot m k p va')"
  using assms(1,2)
proof (induction k arbitrary: p)
  case 0
  obtain t where "rd_table m q = Some t" "frames m' = (frames m)(q \<mapsto> PT (t(i := v)))"
    using wr_table_Some(1) [OF assms(3)] by blast
  moreover have "unat (px 0 va') = unat (px 0 va) \<longleftrightarrow> px 0 va' = px 0 va" for va'
    by (simp add: word_unat_eq_iff)
  ultimately show ?case using 0 by (auto simp: rd_table_def same_path_def)
next
  case (Suc k)
  let ?j = "unat (px (Suc k) va)"
  obtain c where c: "child m p ?j = Some c" "slot m k c va = Some (q, i)"
    using Suc.prems(2) by (auto split: option.splits)
  note tc = tree_child [OF Suc.prems(1) unat_px_less c(1)]
  note IH = Suc.IH [OF tc(1) c(2)]
  have q: "q \<in> nodes m k c" using slot_table(1) [OF tc(1) c(2)] .
  have frames: "frames m' x = frames m x" if "x \<noteq> q" for x
    using wr_table_Some(1) [OF assms(3)] that by auto
  have "p \<noteq> q" using q tc(2) by blast
  then have p: "frames m' p = frames m p" by (rule frames)
  have other: "nodes m' k d = nodes m k d \<and> (tree m k d \<longrightarrow> tree m' k d) \<and> leaf m' k d va' = leaf m k d va' \<and>
      slot m' k d va' = slot m k d va'"
    if "child m p j = Some d" "j < 512" "j \<noteq> ?j" for j d va'
  proof -
    have "q \<notin> nodes m k d" using tree_disjoint [OF Suc.prems(1) that(2) unat_px_less that(3,1) c(1)] q by blast
    then have "frames m' x = frames m x" if "x \<in> nodes m k d" for x
      using frames [of x] that by (cases "x = q") auto
    then show ?thesis by (rule tree_frame)
  qed
  have nodes: "nodes m' k d = nodes m k d" and trees: "tree m' k d" if "child m p j = Some d" "j < 512" for j d
    using IH c(1) other that tree_child(1) [OF Suc.prems(1) that(2,1)] by (cases "j = ?j"; auto)+
  have "tree m' (Suc k) p"
    using tree_rd [OF Suc.prems(1)] tree_child [OF Suc.prems(1)] tree_disjoint [OF Suc.prems(1)] nodes trees
    by (intro treeI) (auto simp: child_cong [OF p] rd_table_cong [OF p])
  moreover have "nodes m' (Suc k) p = nodes m (Suc k) p"
    by (auto simp: nodes.simps child_cong [OF p] nodes split: option.splits)
  moreover have "leaf m' (Suc k) p va' = (if same_path (Suc k) va va' then v else leaf m (Suc k) p va') \<and>
      slot m' (Suc k) p va' = slot m (Suc k) p va'" for va'
  proof (cases "px (Suc k) va' = px (Suc k) va")
    case True
    with c(1) IH show ?thesis by (simp add: child_cong [OF p] same_path_Suc)
  next
    case False
    then have "unat (px (Suc k) va') \<noteq> ?j" by (simp add: word_unat_eq_iff)
    with other False show ?thesis
      by (auto simp: child_cong [OF p] same_path_Suc split: option.splits)
  qed
  ultimately show ?case by blast
qed

section \<open>Walking with allocation\<close>

text \<open>
  \<open>ext S m m'\<close>: every frame of \<open>m\<close> survives in \<open>m'\<close> with its reference count, and those outside
  \<open>S\<close> are unchanged.  \<open>grows m k p m'\<close>: the tree at \<open>p\<close> may have gained tables in fresh frames, and
  translates every address as before.
\<close>

definition ext :: "usize set \<Rightarrow> 'b Mem \<Rightarrow> 'b Mem \<Rightarrow> bool" where
  "ext S m m' \<longleftrightarrow>
     (\<forall>q. frames m q \<noteq> None \<and> q \<notin> S \<longrightarrow> frames m' q = frames m q) \<and>
     (\<forall>q. frames m q \<noteq> None \<longrightarrow> frames m' q \<noteq> None \<and> refs m' q = refs m q)"

definition grows :: "'b Mem \<Rightarrow> nat \<Rightarrow> usize \<Rightarrow> 'b Mem \<Rightarrow> bool" where
  "grows m k p m' \<longleftrightarrow>
     tree m' k p \<and> ext (nodes m k p) m m' \<and> nodes m k p \<subseteq> nodes m' k p \<and>
     (\<forall>q \<in> nodes m' k p. q \<in> nodes m k p \<or> frames m q = None) \<and>
     (\<forall>q. frames m q = None \<longrightarrow> frames m' q = None \<or> q \<in> nodes m' k p) \<and>
     (\<forall>va. leaf m' k p va = leaf m k p va)"

lemma extD:
  assumes "ext S m m'"
  shows "frames m q \<noteq> None \<Longrightarrow> q \<notin> S \<Longrightarrow> frames m' q = frames m q"
    "frames m q \<noteq> None \<Longrightarrow> frames m' q \<noteq> None" "frames m q \<noteq> None \<Longrightarrow> refs m' q = refs m q"
  using assms unfolding ext_def by blast+

lemma ext_trans:
  assumes "ext S m m1" "ext S' m1 m2" "\<And>q. q \<in> S' \<Longrightarrow> q \<in> S \<or> frames m q = None"
  shows "ext S m m2"
  unfolding ext_def
proof (intro conjI allI impI)
  fix q assume q: "frames m q \<noteq> None \<and> q \<notin> S"
  then have "q \<notin> S'" using assms(3) [of q] by auto
  have 1: "frames m1 q = frames m q" by (rule extD(1) [OF assms(1)]) (use q in simp_all)
  have "frames m2 q = frames m1 q"
    by (rule extD(1) [OF assms(2)]) (use q 1 \<open>q \<notin> S'\<close> in simp_all)
  with 1 show "frames m2 q = frames m q" by simp
next
  fix q assume q: "frames m q \<noteq> None"
  have 1: "frames m1 q \<noteq> None" "refs m1 q = refs m q" using extD(2,3) [OF assms(1) q] .
  show "frames m2 q \<noteq> None" using extD(2) [OF assms(2) 1(1)] .
  show "refs m2 q = refs m q" using extD(3) [OF assms(2) 1(1)] 1(2) by simp
qed

lemma tree_exists: "tree m k p \<Longrightarrow> q \<in> nodes m k p \<Longrightarrow> frames m q \<noteq> None"
  using tree_nodes_table by fastforce

lemma grows_same:
  assumes "tree m k p" "frames m' = frames m" "refs m' = refs m"
  shows "grows m k p m'"
proof -
  have "frames m' q = frames m q" for q using assms(2) by simp
  then have "nodes m' k p = nodes m k p" "tree m' k p" "\<And>va. leaf m' k p va = leaf m k p va"
    using tree_frame [of m k p m'] assms(1) by blast+
  with assms show ?thesis by (simp add: grows_def ext_def)
qed

lemma growsD:
  assumes "grows m k p m'"
  shows "tree m' k p" "ext (nodes m k p) m m'" "nodes m k p \<subseteq> nodes m' k p"
    "q \<in> nodes m' k p \<Longrightarrow> q \<in> nodes m k p \<or> frames m q = None" "leaf m' k p va = leaf m k p va"
    "frames m q = None \<Longrightarrow> frames m' q = None \<or> q \<in> nodes m' k p"
  using assms by (simp_all add: grows_def)

lemma grows_trans:
  assumes "grows m k p m1" "grows m1 k p m2"
  shows "grows m k p m2"
proof -
  note g1 = growsD [OF assms(1)] and g2 = growsD [OF assms(2)]
  have "ext (nodes m k p) m m2" by (rule ext_trans [OF g1(2) g2(2) g1(4)])
  moreover have "q \<in> nodes m k p \<or> frames m q = None" if "q \<in> nodes m2 k p" for q
    using g2(4) [OF that] g1(4) [of q] extD(2) [OF g1(2), of q] by auto
  moreover have "nodes m k p \<subseteq> nodes m2 k p" using g1(3) g2(3) by simp
  moreover have "frames m2 q = None \<or> q \<in> nodes m2 k p" if "frames m q = None" for q
    using g1(6) [OF that] g2(6) [of q] g2(3) by auto
  ultimately show ?thesis using g2(1) g1(5) g2(5) by (simp add: grows_def)
qed

lemma grows_child:
  assumes T: "tree m (Suc k) p" and i: "i < 512" and c: "child m p i = Some c" and g: "grows m k c m'"
  shows "grows m (Suc k) p m' \<and> child m' p i = Some c"
proof -
  note tc = tree_child [OF T i c]
  have fp: "frames m p \<noteq> None" using tree_exists [OF T nodes_self] .
  have E: "ext (nodes m k c) m m'" using g by (simp add: grows_def)
  have p: "frames m' p = frames m p" using extD(1) [OF E fp tc(2)] .
  have d: "nodes m' k d = nodes m k d \<and> (tree m k d \<longrightarrow> tree m' k d) \<and> leaf m' k d va = leaf m k d va \<and>
      slot m' k d va = slot m k d va" and ex: "\<And>q. q \<in> nodes m k d \<Longrightarrow> frames m q \<noteq> None"
    if "child m p j = Some d" "j < 512" "j \<noteq> i" for j d va
  proof -
    have td: "tree m k d" using tree_child [OF T that(2,1)] by simp
    then show "\<And>q. q \<in> nodes m k d \<Longrightarrow> frames m q \<noteq> None" using tree_exists by blast
    have "nodes m k d \<inter> nodes m k c = {}" using tree_disjoint [OF T that(2) i that(3,1) c] .
    then have "frames m' q = frames m q" if "q \<in> nodes m k d" for q
      using extD(1) [OF E, of q] tree_exists [OF td that] that by blast
    then show "nodes m' k d = nodes m k d \<and> (tree m k d \<longrightarrow> tree m' k d) \<and> leaf m' k d va = leaf m k d va \<and>
      slot m' k d va = slot m k d va" by (rule tree_frame)
  qed
  have new: "q \<in> nodes m k c \<or> frames m q = None" if "q \<in> nodes m' k c" for q
    using g that by (auto simp: grows_def)
  have apart: "nodes m' k c \<inter> nodes m' k e = {}"
    if e: "child m p j = Some e" "j < 512" "j \<noteq> i" for j e
  proof -
    have "q \<notin> nodes m' k c" if "q \<in> nodes m k e" for q
    proof
      assume "q \<in> nodes m' k c"
      with new [of q] ex [OF e that] have "q \<in> nodes m k c" by simp
      then show False using tree_disjoint [OF T e(2) i e(3,1) c] that by blast
    qed
    then show ?thesis using d [OF e] by blast
  qed
  have "tree m' (Suc k) p"
  proof (rule treeI)
    show "rd_table m' p \<noteq> None" using tree_rd [OF T] by (simp add: rd_table_cong [OF p])
    fix j e assume j: "j < 512" "child m' p j = Some e"
    then have e: "child m p j = Some e" by (simp add: child_cong [OF p])
    show "tree m' k e \<and> p \<notin> nodes m' k e"
    proof (cases "j = i")
      case True
      with e c g new fp tc(2) show ?thesis by (auto simp: grows_def)
    next
      case False
      with d [OF e j(1) False] tree_child [OF T j(1) e] show ?thesis by simp
    qed
  next
    fix j l e f
    assume jl: "j < 512" "l < 512" "j \<noteq> l" "child m' p j = Some e" "child m' p l = Some f"
    then have ef: "child m p j = Some e" "child m p l = Some f" by (simp_all add: child_cong [OF p])
    have old: "nodes m k e \<inter> nodes m k f = {}" using tree_disjoint [OF T jl(1-3) ef] .
    consider "j = i" "l \<noteq> i" | "l = i" "j \<noteq> i" | "j \<noteq> i" "l \<noteq> i" using jl(3) by blast
    then show "nodes m' k e \<inter> nodes m' k f = {}"
    proof cases
      case 1
      with ef c have "e = c" by simp
      with apart [OF ef(2) jl(2) 1(2)] show ?thesis by simp
    next
      case 2
      with ef c have "f = c" by simp
      with apart [OF ef(1) jl(1) 2(2)] show ?thesis by (simp add: Int_commute)
    next
      case 3
      with d [OF ef(1) jl(1)] d [OF ef(2) jl(2)] old show ?thesis by simp
    qed
  qed
  moreover have "ext (nodes m (Suc k) p) m m'"
    using E nodes_child [OF i c, of k] unfolding ext_def by blast
  moreover have "nodes m (Suc k) p \<subseteq> nodes m' (Suc k) p"
  proof
    fix q assume "q \<in> nodes m (Suc k) p"
    then show "q \<in> nodes m' (Suc k) p"
    proof (cases rule: nodes_Suc_cases)
      case (2 j e)
      then have "q \<in> nodes m' k e"
        using c g d [OF 2(2,1)] by (cases "j = i") (auto simp: grows_def)
      with 2 nodes_child [of j m' p e k] show ?thesis by (auto simp: child_cong [OF p])
    qed simp
  qed
  moreover have "q \<in> nodes m (Suc k) p \<or> frames m q = None" if "q \<in> nodes m' (Suc k) p" for q
    using that
  proof (cases rule: nodes_Suc_cases)
    case (2 j e)
    then have e: "child m p j = Some e" by (simp add: child_cong [OF p])
    show ?thesis
      using 2 e c new [of q] d [OF e 2(1)] nodes_child [OF 2(1) e, of k] by (cases "j = i") auto
  qed simp
  moreover have "leaf m' (Suc k) p va = leaf m (Suc k) p va" for va
    using c g d by (cases "unat (px (Suc k) va) = i") (auto simp: child_cong [OF p] grows_def split: option.splits)
  moreover have "frames m' q = None \<or> q \<in> nodes m' (Suc k) p" if "frames m q = None" for q
    using growsD(6) [OF g that] nodes_child [OF i, of m' p c k] c by (auto simp: child_cong [OF p])
  ultimately show ?thesis using c by (simp add: grows_def child_cong [OF p])
qed

lemma zero_table_tree:
  assumes "rd_table m c = Some (\<lambda>_. 0)"
  shows "tree m k c" "nodes m k c = {c}" "leaf m k c va = 0"
proof -
  have none: "child m c i = None" for i using assms by (simp add: child_def is_v_def)
  show "tree m k c" using assms by (cases k) (auto intro: treeI simp: none)
  show "nodes m k c = {c}" by (cases k) (auto simp: nodes.simps none)
  show "leaf m k c va = 0" using assms by (cases k) (auto simp: none)
qed

lemma pte_table_entry:
  assumes "ram_page p"
  shows "pte_to_pa (pa_to_pte p OR PTE_V) = p" "is_v (pa_to_pte p OR PTE_V)"
proof -
  show "pte_to_pa (pa_to_pte p OR PTE_V) = p"
    using ram_page_pa [OF assms] by (intro pte_entry_pa) (simp_all add: word_less_nat_alt)
  show "is_v (pa_to_pte p OR PTE_V)" unfolding pte_bits(1) by (simp add: bit_simps)
qed

lemma grows_new:
  assumes T: "tree m (Suc k) p" and i: "i < 512" "child m p i = None"
    and c: "ram_page c" "frames m c = None"
    and m1: "frames m1 = (frames m)(c \<mapsto> zeroed_table)" "\<And>q. frames m q \<noteq> None \<Longrightarrow> refs m1 q = refs m q"
    and m2: "wr_table p i (pa_to_pte c OR PTE_V) m1 = Some m2"
  shows "grows m (Suc k) p m2 \<and> child m2 p i = Some c"
proof -
  have fp: "frames m p \<noteq> None" using tree_exists [OF T nodes_self] .
  then have "c \<noteq> p" using c(2) by auto
  obtain t where t: "rd_table m p = Some t" using tree_rd [OF T] by auto
  then have t1: "rd_table m1 p = Some t" using m1 \<open>c \<noteq> p\<close> by (simp add: rd_table_def)
  then have f2: "frames m2 = (frames m)(c \<mapsto> zeroed_table, p \<mapsto> PT (t(i := pa_to_pte c OR PTE_V)))"
    using wr_table_Some(1) [OF m2] m1(1) by auto
  have rp: "rd_table m2 p = Some (t(i := pa_to_pte c OR PTE_V))" using f2 by (simp add: rd_table_def)
  have rc: "rd_table m2 c = Some (\<lambda>_. 0)"
    using f2 \<open>c \<noteq> p\<close> by (simp add: rd_table_def zeroed_table_def)
  note Z = zero_table_tree [OF rc]
  have ch: "child m2 p j = (if j = i then Some c else child m p j)" for j
    using rp t pte_table_entry [OF c(1)] by (simp add: child_def)
  have d: "nodes m2 k d = nodes m k d \<and> (tree m k d \<longrightarrow> tree m2 k d) \<and> leaf m2 k d va = leaf m k d va \<and>
      slot m2 k d va = slot m k d va" and cd: "c \<notin> nodes m k d"
    if "child m p j = Some d" "j < 512" for j d va
  proof -
    note td = tree_child [OF T that(2,1)]
    show "c \<notin> nodes m k d" using tree_exists [OF td(1), of c] c(2) by auto
    then have "frames m2 q = frames m q" if "q \<in> nodes m k d" for q
      using f2 td(2) that by auto
    then show "nodes m2 k d = nodes m k d \<and> (tree m k d \<longrightarrow> tree m2 k d) \<and> leaf m2 k d va = leaf m k d va \<and>
      slot m2 k d va = slot m k d va" by (rule tree_frame)
  qed
  have "tree m2 (Suc k) p"
  proof (rule treeI)
    show "rd_table m2 p \<noteq> None" using rp by simp
    fix j e assume j: "j < 512" "child m2 p j = Some e"
    show "tree m2 k e \<and> p \<notin> nodes m2 k e"
    proof (cases "j = i")
      case True
      with j ch Z \<open>c \<noteq> p\<close> show ?thesis by simp
    next
      case False
      with j ch have e: "child m p j = Some e" by simp
      from d [OF e j(1)] tree_child [OF T j(1) e] show ?thesis by simp
    qed
  next
    fix j l e f
    assume jl: "j < 512" "l < 512" "j \<noteq> l" "child m2 p j = Some e" "child m2 p l = Some f"
    consider "j = i" "l \<noteq> i" | "l = i" "j \<noteq> i" | "j \<noteq> i" "l \<noteq> i" using jl(3) by blast
    then show "nodes m2 k e \<inter> nodes m2 k f = {}"
    proof cases
      case 1
      then have "child m p l = Some f" "e = c" using jl ch by auto
      with Z(2) d cd jl(2) show ?thesis by simp
    next
      case 2
      then have "child m p j = Some e" "f = c" using jl ch by auto
      with Z(2) d cd jl(1) show ?thesis by simp
    next
      case 3
      then have ef: "child m p j = Some e" "child m p l = Some f" using jl ch by auto
      with d [OF ef(1) jl(1)] d [OF ef(2) jl(2)] tree_disjoint [OF T jl(1-3) ef] show ?thesis by simp
    qed
  qed
  moreover have "refs m2 = refs m1" using wr_table_Some(4) [OF m2] .
  then have "ext (nodes m (Suc k) p) m m2"
    unfolding ext_def using f2 m1(2) c(2) by auto
  moreover have "nodes m (Suc k) p \<subseteq> nodes m2 (Suc k) p"
  proof
    fix q assume "q \<in> nodes m (Suc k) p"
    then show "q \<in> nodes m2 (Suc k) p"
    proof (cases rule: nodes_Suc_cases)
      case (2 j e)
      then have "child m2 p j = Some e" "q \<in> nodes m2 k e" using ch i(2) d [OF 2(2,1)] by auto
      then show ?thesis using nodes_child [OF 2(1), of m2 p e k] by blast
    qed simp
  qed
  moreover have "q \<in> nodes m (Suc k) p \<or> frames m q = None" if "q \<in> nodes m2 (Suc k) p" for q
    using that
  proof (cases rule: nodes_Suc_cases)
    case (2 j e)
    show ?thesis
    proof (cases "j = i")
      case True
      with 2 ch Z(2) c(2) show ?thesis by simp
    next
      case False
      with 2 ch have e: "child m p j = Some e" by simp
      with 2 d [OF e 2(1)] nodes_child [OF 2(1) e, of k] show ?thesis by auto
    qed
  qed simp
  moreover have "leaf m2 (Suc k) p va = leaf m (Suc k) p va" for va
    using i(2) Z(3) d by (auto simp: ch split: option.splits)
  moreover have "frames m2 q = None \<or> q \<in> nodes m2 (Suc k) p" if "frames m q = None" for q
    using f2 that nodes_child [OF i(1), of m2 p c k] ch by auto
  ultimately show ?thesis using ch by (simp add: grows_def)
qed

lemma table_new_spec:
  assumes "buddy_ok B live" "mem_inv live m"
  obtains (fail) m' where "table_new B m = Some (Err VmAlloc, m')" "mem_inv live m'" "frames m' = frames m"
      "refs m' = refs m"
  | (ok) c m' where "table_new B m = Some (Ok c, m')" "mem_inv live m'" "ram_page c" "frames m c = None"
      "frames m' = (frames m)(c \<mapsto> zeroed_table)" "refs m' c = 1" "\<And>q. frames m q \<noteq> None \<Longrightarrow> refs m' q = refs m q"
proof (rule box_new_spec [OF assms, of zeroed_table])
  fix m' assume "box_new B zeroed_table m = Some (None, m')" "mem_inv live m'" "frames m' = frames m" "refs m' = refs m"
  then show ?thesis using fail by (simp add: table_new_def)
next
  fix c m'
  assume c: "box_new B zeroed_table m = Some (Some c, m')" "mem_inv live m'" "ram_page c" "frames m c = None"
    "frames m' = (frames m)(c \<mapsto> zeroed_table)" "refs m' c = 1" "\<And>q. ram_page q \<Longrightarrow> q \<noteq> c \<Longrightarrow> refs m' q = refs m q"
  have "refs m' q = refs m q" if "frames m q \<noteq> None" for q
  proof -
    have "ram_page q" using assms(2) that by (auto simp: mem_inv_def)
    moreover have "q \<noteq> c" using that c(4) by auto
    ultimately show ?thesis by (rule c(7))
  qed
  with c show ?thesis using ok by (simp add: table_new_def)
qed

lemma mem_inv_wr_table:
  assumes "mem_inv live m" "wr_table p i v m = Some m'"
  shows "mem_inv live m'"
proof -
  note W = wr_table_Some [OF assms(2)]
  then have "dom (frames m') = dom (frames m)"
    by (auto simp: rd_table_def dom_def split: option.splits if_splits)
  with assms(1) W(2,4) show ?thesis by (simp add: mem_inv_def)
qed

lemma walk_levels_alloc:
  assumes B: "buddy_ok B live"
  shows "mem_inv live m \<Longrightarrow> tree m k p \<Longrightarrow>
    \<exists>r m'. walk_levels B (levels k) p va True m = Some (r, m') \<and> mem_inv live m' \<and> grows m k p m' \<and>
           (r = Err VmAlloc \<or> (\<exists>s. r = Ok s \<and> slot m' k p va = Some s))"
proof (induction k arbitrary: m p)
  case 0
  then show ?case by (auto intro: grows_same)
next
  case (Suc k)
  let ?i = "unat (px (Suc k) va)"
  obtain t where t: "rd_table m p = Some t" using tree_rd [OF Suc.prems(2)] by auto
  show ?case
  proof (cases "is_v (t ?i)")
    case True
    then have c: "child m p ?i = Some (pte_to_pa (t ?i))" by (simp add: child_def t)
    note tc = tree_child(1) [OF Suc.prems(2) unat_px_less c]
    from Suc.IH [OF Suc.prems(1) tc] obtain r m' where
      IH: "walk_levels B (levels k) (pte_to_pa (t ?i)) va True m = Some (r, m')" "mem_inv live m'"
      "grows m k (pte_to_pa (t ?i)) m'"
      "r = Err VmAlloc \<or> (\<exists>s. r = Ok s \<and> slot m' k (pte_to_pa (t ?i)) va = Some s)" by blast
    from grows_child [OF Suc.prems(2) unat_px_less c IH(3)] IH t True show ?thesis by auto
  next
    case False
    then have none: "child m p ?i = None" by (simp add: child_def t)
    show ?thesis
    proof (rule table_new_spec [OF B Suc.prems(1)])
      fix m' assume f: "table_new B m = Some (Err VmAlloc, m')" "mem_inv live m'" "frames m' = frames m" "refs m' = refs m"
      have "grows m (Suc k) p m'" by (rule grows_same [OF Suc.prems(2) f(3,4)])
      with f t False show ?thesis by simp
    next
      fix c m1
      assume c: "table_new B m = Some (Ok c, m1)" "mem_inv live m1" "ram_page c" "frames m c = None"
        "frames m1 = (frames m)(c \<mapsto> zeroed_table)" "refs m1 c = 1"
        "\<And>q. frames m q \<noteq> None \<Longrightarrow> refs m1 q = refs m q"
      have "rd_table m1 p = Some t"
        using c(4,5) t by (auto simp: rd_table_def split: option.splits)
      then obtain m2 where m2: "wr_table p ?i (pa_to_pte c OR PTE_V) m1 = Some m2" by (simp add: wr_table_def)
      note G = grows_new [OF Suc.prems(2) unat_px_less none c(3,4,5,7) m2]
      then have T2: "tree m2 (Suc k) p" by (simp add: grows_def)
      have c2: "child m2 p ?i = Some c" using G by simp
      from Suc.IH [OF mem_inv_wr_table [OF c(2) m2] tree_child(1) [OF T2 unat_px_less c2]] obtain r m' where
        IH: "walk_levels B (levels k) c va True m2 = Some (r, m')" "mem_inv live m'" "grows m2 k c m'"
        "r = Err VmAlloc \<or> (\<exists>s. r = Ok s \<and> slot m' k c va = Some s)" by blast
      note G2 = grows_child [OF T2 unat_px_less c2 IH(3)]
      have "grows m (Suc k) p m'" using grows_trans G G2 by blast
      moreover have "walk_levels B (levels (Suc k)) p va True m = Some (r, m')"
        using t False c(1) m2 IH(1) by simp
      moreover have "r = Err VmAlloc \<or> (\<exists>s. r = Ok s \<and> slot m' (Suc k) p va = Some s)"
        using IH(4) G2 by auto
      ultimately show ?thesis using IH(2) by blast
    qed
  qed
qed

section \<open>The entry function of an address space\<close>

text \<open>
  \<open>pte m r v\<close> is the entry of page number \<open>v\<close> in the table with root \<open>r\<close>.  \<open>updates m r m' f\<close>: the
  address space \<open>r\<close> now has the entries \<open>f\<close>, and no frame outside its tables was touched.
\<close>

definition pte :: "'b Mem \<Rightarrow> usize \<Rightarrow> nat \<Rightarrow> usize" where
  "pte m r v = leaf m 2 r (word_of_nat (v * 4096))"

definition vpn :: "usize \<Rightarrow> nat" where "vpn va = unat va div 4096"

definition NPAGES :: nat where "NPAGES = 2 ^ 26"

definition updates :: "'b Mem \<Rightarrow> usize \<Rightarrow> 'b Mem \<Rightarrow> (nat \<Rightarrow> usize) \<Rightarrow> bool" where
  "updates m r m' f \<longleftrightarrow>
     tree m' 2 r \<and> ext (nodes m 2 r) m m' \<and> nodes m 2 r \<subseteq> nodes m' 2 r \<and>
     (\<forall>q \<in> nodes m' 2 r. q \<in> nodes m 2 r \<or> frames m q = None) \<and>
     (\<forall>q. frames m q = None \<longrightarrow> frames m' q = None \<or> q \<in> nodes m' 2 r) \<and>
     (\<forall>v < NPAGES. pte m' r v = f v)"

lemma px_same_page: "vpn va = vpn va' \<Longrightarrow> px l va = px l va'"
proof -
  assume v: "vpn va = vpn va'"
  have "unat va div 2 ^ (12 + 9 * l) = vpn va div 2 ^ (9 * l)" for va :: usize
    by (simp add: vpn_def power_add div_mult2_eq)
  with v have "unat (px l va) = unat (px l va')" by (simp only: unat_px)
  then show ?thesis by (simp add: word_unat_eq_iff)
qed

lemma leaf_same_page: "vpn va = vpn va' \<Longrightarrow> leaf m k p va = leaf m k p va'"
  by (induction k arbitrary: p) (auto simp: px_same_page [of va va'] split: option.splits)

lemma slot_same_page: "vpn va = vpn va' \<Longrightarrow> slot m k p va = slot m k p va'"
  by (induction k arbitrary: p) (auto simp: px_same_page [of va va'] split: option.splits)

lemma vpn_page: "v < NPAGES \<Longrightarrow> vpn (word_of_nat (v * 4096)) = v"
  "v < NPAGES \<Longrightarrow> (word_of_nat (v * 4096) :: usize) < MAXVA"
proof -
  assume v: "v < NPAGES"
  then have u: "unat (word_of_nat (v * 4096) :: usize) = v * 4096"
    by (simp add: NPAGES_def unat_of_nat del: of_nat_mult)
  show "vpn (word_of_nat (v * 4096)) = v" unfolding vpn_def u by simp
  show "(word_of_nat (v * 4096) :: usize) < MAXVA"
    unfolding word_less_nat_alt u using v by (simp add: NPAGES_def)
qed

lemma vpn_less: "va < MAXVA \<Longrightarrow> vpn va < NPAGES"
  by (simp add: vpn_def NPAGES_def word_less_nat_alt less_mult_imp_div_less)

lemma leaf_pte: "va < MAXVA \<Longrightarrow> leaf m 2 r va = pte m r (vpn va)"
  unfolding pte_def by (rule leaf_same_page) (simp only: vpn_page vpn_less)

lemma same_path_vpn:
  assumes "va < MAXVA" "va' < MAXVA"
  shows "same_path 2 va va' \<longleftrightarrow> vpn va = vpn va'"
proof
  assume "same_path 2 va va'"
  then have e: "px 0 va' = px 0 va" "px 1 va' = px 1 va" "px 2 va' = px 2 va" by (simp_all add: same_path_def)
  have step: "n = D + n mod 4096 \<Longrightarrow> n' = D + n' mod 4096 \<Longrightarrow> n - n mod 4096 = n' - n' mod 4096" for n n' D :: nat
    by linarith
  have "unat va - unat va mod 4096 = unat va' - unat va' mod 4096"
    by (rule step [OF va_decompose [OF assms(1)] va_decompose [OF assms(2), unfolded e]])
  then show "vpn va = vpn va'" by (simp add: vpn_def minus_mod_eq_div_mult)
next
  assume "vpn va = vpn va'"
  then have "px l va = px l va'" for l by (rule px_same_page)
  then show "same_path 2 va va'" by (simp add: same_path_def)
qed

lemma updatesD:
  assumes "updates m r m' f"
  shows "tree m' 2 r" "ext (nodes m 2 r) m m'" "nodes m 2 r \<subseteq> nodes m' 2 r"
    "q \<in> nodes m' 2 r \<Longrightarrow> q \<in> nodes m 2 r \<or> frames m q = None" "v < NPAGES \<Longrightarrow> pte m' r v = f v"
    "frames m q = None \<Longrightarrow> frames m' q = None \<or> q \<in> nodes m' 2 r"
  using assms by (simp_all add: updates_def)

lemma updates_trans:
  assumes "updates m r m1 f" "updates m1 r m2 g"
  shows "updates m r m2 g"
proof -
  note g1 = updatesD [OF assms(1)] and g2 = updatesD [OF assms(2)]
  have "ext (nodes m 2 r) m m2" by (rule ext_trans [OF g1(2) g2(2) g1(4)])
  moreover have "q \<in> nodes m 2 r \<or> frames m q = None" if "q \<in> nodes m2 2 r" for q
    using g2(4) [OF that] g1(4) [of q] extD(2) [OF g1(2), of q] by auto
  moreover have "nodes m 2 r \<subseteq> nodes m2 2 r" using g1(3) g2(3) by simp
  moreover have "frames m2 q = None \<or> q \<in> nodes m2 2 r" if "frames m q = None" for q
    using g1(6) [OF that] g2(6) [of q] g2(3) by auto
  ultimately show ?thesis using g2(1,5) by (simp add: updates_def)
qed

lemma updates_cong: "updates m r m' f \<Longrightarrow> (\<And>v. v < NPAGES \<Longrightarrow> f v = g v) \<Longrightarrow> updates m r m' g"
  by (simp add: updates_def)

lemma updates_grows: "grows m 2 r m' \<Longrightarrow> updates m r m' (pte m r)"
  by (simp add: updates_def grows_def pte_def)

text \<open>Reading an entry by walking the table.\<close>

lemma walk_read_pte:
  assumes T: "tree m 2 r" and va: "va < MAXVA"
  obtains (absent) "walk_raw B r va False m = Some (Err VmInvalidPage, m)" "pte m r (vpn va) = 0" "slot m 2 r va = None"
  | (present) s where "walk_raw B r va False m = Some (Ok s, m)" "rd_slot m s = Some (pte m r (vpn va))"
      "slot m 2 r va = Some s"
proof (cases "slot m 2 r va")
  case None
  with slot_leaf [OF T, of va] va show ?thesis
    by (intro absent) (auto simp: walk_raw_read [OF T] leaf_pte)
next
  case (Some s)
  with slot_leaf [OF T, of va] va show ?thesis
    by (intro present [of s]) (auto simp: walk_raw_read [OF T] leaf_pte)
qed

lemma walk_pte:
  assumes T: "tree m 2 r" and va: "va < MAXVA"
  shows "\<exists>w. walk B r va m = Some w \<and> (case w of Ok e \<Rightarrow> e = pte m r (vpn va) | Err _ \<Rightarrow> pte m r (vpn va) = 0)"
  by (rule walk_read_pte [OF T va, of B]) (auto simp: walk_def)

text \<open>Writing an entry found by a walk.\<close>

lemma write_pte:
  assumes T: "tree m 2 r" and va: "va < MAXVA" and s: "slot m 2 r va = Some s" and inv: "mem_inv live m"
  obtains m' where "wr_table (fst s) (snd s) x m = Some m'" "mem_inv live m'" "updates m r m' ((pte m r)(vpn va := x))"
    "slot m' 2 r va = Some s" "refs m' = refs m"
proof -
  obtain q i where qi: "s = (q, i)" by (cases s)
  note S = slot_table [OF T s [unfolded qi]]
  then obtain m' where m': "wr_table q i x m = Some m'" by (auto simp: wr_table_def)
  note W = slot_write [OF T s [unfolded qi] m'] and F = wr_table_Some [OF m']
  have "pte m' r v = ((pte m r)(vpn va := x)) v" if "v < NPAGES" for v
    using W vpn_page [OF that] same_path_vpn [OF va vpn_page(2) [OF that]] by (simp add: pte_def del: of_nat_mult)
  moreover have "ext (nodes m 2 r) m m'"
    using F S(1) unfolding ext_def by (auto simp: rd_table_def split: option.splits)
  moreover have "frames m' p = None \<or> p \<in> nodes m' 2 r" if "frames m p = None" for p
    using F(1) that W S(1) by auto
  ultimately have "updates m r m' ((pte m r)(vpn va := x))" using W by (simp add: updates_def)
  with m' mem_inv_wr_table [OF inv m'] W F(4) s show ?thesis by (intro that [of m']) (simp_all add: qi)
qed

text \<open>One iteration of \<open>map_pages\<close> on an absent entry.\<close>

lemma map_one_spec:
  assumes B: "buddy_ok B live" and inv: "mem_inv live m" and T: "tree m 2 r" and va: "va < MAXVA"
    and absent: "\<not> is_v (pte m r (vpn va))"
  obtains (fail) m' where "\<And>n. map_loop B (Suc n) r va pa perm m = Some (Err VmAlloc, m')" "mem_inv live m'"
      "updates m r m' (pte m r)"
  | (ok) m' where "\<And>n. map_loop B (Suc n) r va pa perm m = map_loop B n r (va + PGSIZE) (pa + PGSIZE) perm m'"
      "mem_inv live m'" "updates m r m' ((pte m r)(vpn va := pa_to_pte pa OR perm OR PTE_V))"
proof -
  from walk_levels_alloc [OF B inv T, of va] obtain res m1 where
    w: "walk_levels B (levels 2) r va True m = Some (res, m1)" "mem_inv live m1" "grows m 2 r m1"
    "res = Err VmAlloc \<or> (\<exists>s. res = Ok s \<and> slot m1 2 r va = Some s)" by blast
  have "\<not> MAXVA \<le> va" using va by (simp add: not_le)
  then have wr: "walk_raw B r va True m = Some (res, m1)"
    unfolding walk_raw_def levels_2 by (simp only: if_False w(1))
  note U1 = updates_grows [OF w(3)]
  from w(4) show ?thesis
  proof
    assume "res = Err VmAlloc"
    with wr w(2) U1 show ?thesis by (intro fail [of m1]) simp_all
  next
    assume "\<exists>s. res = Ok s \<and> slot m1 2 r va = Some s"
    then obtain s where s: "res = Ok s" "slot m1 2 r va = Some s" by blast
    have T1: "tree m1 2 r" using updatesD(1) [OF U1] .
    have same: "pte m1 r v = pte m r v" if "v < NPAGES" for v using updatesD(5) [OF U1 that] .
    have rd: "rd_slot m1 s = Some (pte m r (vpn va))"
      by (rule walk_read_pte [OF T1 va, of B]) (use s same vpn_less [OF va] in auto)
    obtain m' where m': "wr_table (fst s) (snd s) (pa_to_pte pa OR perm OR PTE_V) m1 = Some m'" "mem_inv live m'"
      "updates m1 r m' ((pte m1 r)(vpn va := pa_to_pte pa OR perm OR PTE_V))"
      by (rule write_pte [OF T1 va s(2) w(2)]) blast
    have "updates m r m' ((pte m r)(vpn va := pa_to_pte pa OR perm OR PTE_V))"
      by (rule updates_cong [OF updates_trans [OF U1 m'(3)]]) (simp add: same)
    with wr s(1) rd absent m' show ?thesis by (intro ok [of m']) simp_all
  qed
qed

end
