(* ===== verification/Vm_Space.thy ===== *)
theory Vm_Space
  imports Vm_Tree
begin

unbundle bit_operations_syntax

text \<open>
  Address spaces.  \<open>space_inv\<close> is the invariant of all user page tables together: disjoint trees,
  user entries that lead to data pages, reference counts that count the entries, and writable
  pages that are not shared.  \<open>peek\<close> is what user code sees at an address.  The theory shows that the
  operations of \<open>Uvm\<close> keep the invariant and what they do to the views: mapping, page faults (lazy
  allocation and copy-on-write), copies in and out, and \<open>fork\<close>.
\<close>

section \<open>Mapping a range\<close>

lemma unat_next_page: "unat va + 4096 \<le> 2 ^ 38 \<Longrightarrow> unat (va + PGSIZE) = unat va + 4096"
  by (simp add: unat_word_ariths)

lemma vpn_next: "unat va + 4096 \<le> 2 ^ 38 \<Longrightarrow> vpn (va + PGSIZE) = vpn va + 1"
  using unat_next_page [of va] by (simp add: vpn_def)

text \<open>The loop of \<open>map_pages\<close> stops at the right page.\<close>

lemma map_last:
  assumes "sz mod PGSIZE = 0" "sz \<noteq> 0" "k < unat (sz div PGSIZE)"
  shows "va + word_of_nat k * PGSIZE = va + sz - PGSIZE \<longleftrightarrow> k = unat (sz div PGSIZE) - 1"
proof -
  let ?n = "unat (sz div PGSIZE)"
  have sz: "unat sz = ?n * 4096"
  proof -
    have "unat sz mod 4096 = 0" using arg_cong [OF assms(1), of unat] by (simp add: unat_mod)
    with div_mult_mod_eq [of "unat sz" 4096] show ?thesis by (simp add: unat_div)
  qed
  have n: "?n < 2 ^ 52" using sz unat_usize_less [of sz] by simp
  have "unat (word_of_nat k * PGSIZE) = k * 4096"
    using assms(3) n by (simp add: unat_word_ariths unat_of_nat)
  moreover have "unat (sz - PGSIZE) = unat sz - 4096"
    using sz assms(3) by (subst unat_sub) (simp_all add: word_le_nat_alt)
  moreover have "va + word_of_nat k * PGSIZE = va + sz - PGSIZE \<longleftrightarrow> word_of_nat k * PGSIZE = sz - PGSIZE"
    by (simp add: algebra_simps)
  ultimately show ?thesis using sz assms(3) by (auto simp: word_unat_eq_iff)
qed

definition mapped_range :: "(nat \<Rightarrow> usize) \<Rightarrow> nat \<Rightarrow> nat \<Rightarrow> usize \<Rightarrow> usize \<Rightarrow> nat \<Rightarrow> usize" where
  "mapped_range f v n pa perm u =
     (if v \<le> u \<and> u < v + n then pa_to_pte (pa + word_of_nat (u - v) * PGSIZE) OR perm OR PTE_V else f u)"

lemma mapped_range_0 [simp]: "mapped_range f v 0 pa perm = f"
  by (auto simp: mapped_range_def fun_eq_iff)

lemma mapped_range_Suc:
  "mapped_range (f(v := pa_to_pte pa OR perm OR PTE_V)) (v + 1) n (pa + PGSIZE) perm = mapped_range f v (Suc n) pa perm"
proof
  fix u
  show "mapped_range (f(v := pa_to_pte pa OR perm OR PTE_V)) (v + 1) n (pa + PGSIZE) perm u =
        mapped_range f v (Suc n) pa perm u"
  proof (cases "v + 1 \<le> u \<and> u < v + 1 + n")
    case True
    then have "u - v = Suc (u - (v + 1))" by linarith
    then have "pa + PGSIZE + word_of_nat (u - (v + 1)) * PGSIZE = pa + word_of_nat (u - v) * PGSIZE"
      by (simp add: algebra_simps)
    with True show ?thesis by (simp add: mapped_range_def)
  qed (auto simp: mapped_range_def)
qed

lemma map_loop_spec:
  assumes B: "buddy_ok B live"
  shows "mem_inv live m \<Longrightarrow> tree m 2 r \<Longrightarrow> unat va + n * 4096 \<le> 2 ^ 38 \<Longrightarrow>
    (\<forall>u. vpn va \<le> u \<and> u < vpn va + n \<longrightarrow> \<not> is_v (pte m r u)) \<Longrightarrow>
    \<exists>res m' j. map_loop B n r va pa perm m = Some (res, m') \<and> mem_inv live m' \<and>
      updates m r m' (mapped_range (pte m r) (vpn va) j pa perm) \<and>
      (res = Ok () \<and> j = n \<or> res = Err VmAlloc \<and> j < n)"
proof (induction n arbitrary: m va pa)
  case 0
  have "updates m r m (pte m r)" by (rule updates_grows, rule grows_same) (use 0 in simp_all)
  with 0 show ?case by simp
next
  case (Suc n)
  have va: "va < MAXVA" using Suc.prems(3) by (simp add: word_less_nat_alt)
  have absent: "\<not> is_v (pte m r (vpn va))" using Suc.prems(4) by simp
  show ?case
  proof (rule map_one_spec [OF B Suc.prems(1,2) va absent, of pa perm])
    fix m' assume "\<And>n. map_loop B (Suc n) r va pa perm m = Some (Err VmAlloc, m')" "mem_inv live m'"
      "updates m r m' (pte m r)"
    then show ?thesis by (intro exI [of _ "Err VmAlloc"] exI [of _ m'] exI [of _ 0]) simp
  next
    fix m1
    assume m1: "\<And>n. map_loop B (Suc n) r va pa perm m = map_loop B n r (va + PGSIZE) (pa + PGSIZE) perm m1"
      "mem_inv live m1" "updates m r m1 ((pte m r)(vpn va := pa_to_pte pa OR perm OR PTE_V))"
    show ?thesis
    proof (cases n)
      case 0
      have "updates m r m1 (mapped_range (pte m r) (vpn va) 1 pa perm)"
        using m1(3) mapped_range_Suc [of "pte m r" "vpn va" pa perm 0] by simp
      with m1(1,2) 0 show ?thesis by (intro exI [of _ "Ok ()"] exI [of _ m1] exI [of _ 1]) simp
    next
      case (Suc n')
      then have le: "unat va + 4096 \<le> 2 ^ 38" using Suc.prems(3) by simp
      note v1 = vpn_next [OF le] and u1 = unat_next_page [OF le]
      have v: "vpn va + n < NPAGES"
        using Suc.prems(3) by (simp add: vpn_def NPAGES_def less_Suc_eq_le div_le_mono)
      have "\<forall>u. vpn (va + PGSIZE) \<le> u \<and> u < vpn (va + PGSIZE) + n \<longrightarrow> \<not> is_v (pte m1 r u)"
        using Suc.prems(4) updatesD(5) [OF m1(3)] v v1 by simp
      from Suc.IH [OF m1(2) updatesD(1) [OF m1(3)] _ this, of "pa + PGSIZE"] u1 Suc.prems(3)
      obtain res m' j where IH: "map_loop B n r (va + PGSIZE) (pa + PGSIZE) perm m1 = Some (res, m')"
        "mem_inv live m'" "updates m1 r m' (mapped_range (pte m1 r) (vpn (va + PGSIZE)) j (pa + PGSIZE) perm)"
        "res = Ok () \<and> j = n \<or> res = Err VmAlloc \<and> j < n" by auto
      have "updates m r m' (mapped_range (pte m r) (vpn va) (Suc j) pa perm)"
      proof (rule updates_cong [OF updates_trans [OF m1(3) IH(3)]])
        fix u assume "u < NPAGES"
        then show "mapped_range (pte m1 r) (vpn (va + PGSIZE)) j (pa + PGSIZE) perm u =
            mapped_range (pte m r) (vpn va) (Suc j) pa perm u"
          unfolding mapped_range_Suc [symmetric] v1 using updatesD(5) [OF m1(3)] by (simp add: mapped_range_def)
      qed
      with m1(1) IH show ?thesis by (intro exI [of _ res] exI [of _ m'] exI [of _ "Suc j"]) auto
    qed
  qed
qed

text \<open>
  Property C13.  \<open>map_pages\<close> refines a function update: on a range of unmapped pages it either maps
  exactly the pages of the range, in order, to consecutive physical pages with the given permissions,
  or runs out of memory after a prefix.  All other translations of the address space stay the same,
  and so does every frame that is not one of its page tables.
\<close>

theorem map_pages_refines:
  assumes "buddy_ok B live" "mem_inv live m" "tree m 2 r"
    and "va mod PGSIZE = 0" "sz mod PGSIZE = 0" "sz \<noteq> 0" "unat va + unat sz \<le> 2 ^ 38"
    and "\<forall>v. vpn va \<le> v \<and> v < vpn va + unat (sz div PGSIZE) \<longrightarrow> \<not> is_v (pte m r v)"
  shows "\<exists>res m' j. map_pages B r va pa sz perm m = Some (res, m') \<and> mem_inv live m' \<and> tree m' 2 r \<and>
    (res = Ok () \<and> j = unat (sz div PGSIZE) \<or> res = Err VmAlloc \<and> j < unat (sz div PGSIZE)) \<and>
    (\<forall>v < NPAGES. pte m' r v = mapped_range (pte m r) (vpn va) j pa perm v) \<and>
    (\<forall>q. frames m q \<noteq> None \<and> q \<notin> nodes m 2 r \<longrightarrow> frames m' q = frames m q)"
proof -
  have "unat (sz div PGSIZE) * 4096 \<le> unat sz" by (simp add: unat_div)
  then have "unat va + unat (sz div PGSIZE) * 4096 \<le> 2 ^ 38" using assms(7) by linarith
  from map_loop_spec [OF assms(1-3) this assms(8), of pa perm] obtain res m' j where
    L: "map_loop B (unat (sz div PGSIZE)) r va pa perm m = Some (res, m')" "mem_inv live m'"
    "updates m r m' (mapped_range (pte m r) (vpn va) j pa perm)"
    "res = Ok () \<and> j = unat (sz div PGSIZE) \<or> res = Err VmAlloc \<and> j < unat (sz div PGSIZE)" by blast
  have "map_pages B r va pa sz perm m = Some (res, m')"
    using assms(4-6) L(1) unfolding map_pages_def by simp
  moreover have "\<forall>q. frames m q \<noteq> None \<and> q \<notin> nodes m 2 r \<longrightarrow> frames m' q = frames m q"
    using extD(1) [OF updatesD(2) [OF L(3)]] by simp
  ultimately show ?thesis using L(2,4) updatesD(1,5) [OF L(3)] by (intro exI [of _ res] exI [of _ m'] exI [of _ j]) simp
qed

text \<open>An address space with an empty root table in the example memory.\<close>

definition example_space :: "usize list Mem" where
  "example_space = \<lparr>frames = [0x80100000 \<mapsto> zeroed_table], page_refs = (\<lambda>i. if i = 0x100 then 1 else 0),
     kmem = Some [0x80101000, 0x80102000, 0x80103000, 0x80104000]\<rparr>"

lemma example_space_inv: "mem_inv list_live example_space"
  using example_ram by (simp add: mem_inv_def example_space_def list_live_def refs_def)

lemma example_space_tree:
  "tree example_space k 0x80100000" "nodes example_space k 0x80100000 = {0x80100000}"
  "leaf example_space k 0x80100000 va = 0"
  by (rule zero_table_tree, simp add: rd_table_def example_space_def zeroed_table_def)+

theorem map_pages_refines_witness:
  "\<exists>res m' j. map_pages list_buddy 0x80100000 0x1000 0x80104000 0x2000 (PTE_R OR PTE_U) example_space = Some (res, m') \<and>
     (res = Ok () \<and> j = 2 \<or> res = Err VmAlloc \<and> j < 2) \<and>
     (\<forall>v < NPAGES. pte m' 0x80100000 v = mapped_range (\<lambda>_. 0) 1 j 0x80104000 (PTE_R OR PTE_U) v)"
proof -
  have z: "pte example_space 0x80100000 = (\<lambda>_. 0)" by (simp add: pte_def example_space_tree fun_eq_iff)
  from map_pages_refines [OF list_buddy_ok example_space_inv example_space_tree(1),
      where va = "0x1000" and sz = "0x2000" and pa = "0x80104000" and perm = "PTE_R OR PTE_U"]
  show ?thesis by (auto simp: z is_v_def vpn_def)
qed

section \<open>The invariant of all address spaces\<close>

text \<open>Page numbers below the trapframe page belong to user memory.\<close>

definition USERPAGES :: nat where "USERPAGES = NPAGES - 2"

definition mappings :: "'b Mem \<Rightarrow> usize set \<Rightarrow> usize \<Rightarrow> (usize \<times> nat) set" where
  "mappings m R p = {(r, v). r \<in> R \<and> v < USERPAGES \<and> is_v (pte m r v) \<and> pte_to_pa (pte m r v) = p}"

text \<open>User pages are readable; the hardware reserves entries that are writable but not readable.\<close>

definition is_r :: "usize \<Rightarrow> bool" where "is_r e \<longleftrightarrow> bit e 1"

lemma is_r_leaf: "is_r e \<Longrightarrow> is_leaf e"
  by (simp add: is_r_def pte_bits)

definition entry_ok :: "'b Mem \<Rightarrow> nat \<Rightarrow> usize \<Rightarrow> bool" where
  "entry_ok m v e \<longleftrightarrow>
     (if v < USERPAGES
      then is_v e \<longrightarrow> is_r e \<and> rd_page m (pte_to_pa e) \<noteq> None \<and> (is_w e \<longrightarrow> refs m (pte_to_pa e) = 1)
      else is_v e \<and> is_r e \<and> \<not> is_u e \<and> \<not> is_cow e)"

definition tables_ok :: "'b Mem \<Rightarrow> usize set \<Rightarrow> bool" where
  "tables_ok m R \<longleftrightarrow>
     finite R \<and> (\<forall>r \<in> R. tree m 2 r) \<and> (\<forall>r \<in> R. \<forall>r' \<in> R. r \<noteq> r' \<longrightarrow> nodes m 2 r \<inter> nodes m 2 r' = {})"

definition counts_ok :: "'b Mem \<Rightarrow> usize set \<Rightarrow> bool" where
  "counts_ok m R \<longleftrightarrow> (\<forall>p. rd_page m p \<noteq> None \<longrightarrow> refs m p = card (mappings m R p))"

definition entries_ok :: "'b Mem \<Rightarrow> usize set \<Rightarrow> bool" where
  "entries_ok m R \<longleftrightarrow> (\<forall>r \<in> R. \<forall>v < NPAGES. entry_ok m v (pte m r v))"

definition space_inv :: "('b \<Rightarrow> usize set) \<Rightarrow> 'b Mem \<Rightarrow> usize set \<Rightarrow> bool" where
  "space_inv live m R \<longleftrightarrow> mem_inv live m \<and> tables_ok m R \<and> entries_ok m R \<and> counts_ok m R"

text \<open>
  What user code sees: a user page shows its data, an address below the process size that was never
  touched reads as zero, everything else is inaccessible.
\<close>

definition peek :: "'b Mem \<Rightarrow> usize \<Rightarrow> usize \<Rightarrow> usize \<Rightarrow> u8 option" where
  "peek m r sz va =
     (if va \<ge> MAXVA then None
      else let e = pte m r (vpn va) in
        if is_v e then
          if is_u e then (case rd_page m (pte_to_pa e) of None \<Rightarrow> None | Some d \<Rightarrow> Some (d (unat va mod 4096)))
          else None
        else if pg_round_down va < sz then Some 0 else None)"

text \<open>Addresses user code may store to without a copy-on-write fault.\<close>

definition pokeable :: "'b Mem \<Rightarrow> usize \<Rightarrow> usize \<Rightarrow> usize \<Rightarrow> bool" where
  "pokeable m r sz va \<longleftrightarrow>
     va < MAXVA \<and>
     (let e = pte m r (vpn va) in if is_v e then is_u e \<and> is_w e else pg_round_down va < sz)"

section \<open>Framing\<close>

lemma frame_cases: "frames m q = None \<or> (\<exists>t. frames m q = Some (PT t)) \<or> (\<exists>d. frames m q = Some (Pg d))"
  by (metis frame.exhaust option.exhaust)

text \<open>Changing only data frames leaves all tables as they are.\<close>

lemma data_change:
  assumes "tables_ok m R" "\<And>q t. frames m q = Some (PT t) \<Longrightarrow> frames m' q = Some (PT t)"
  shows "tables_ok m' R" "r \<in> R \<Longrightarrow> pte m' r v = pte m r v" "r \<in> R \<Longrightarrow> slot m' 2 r va = slot m 2 r va"
    "r \<in> R \<Longrightarrow> nodes m' 2 r = nodes m 2 r"
proof -
  have "frames m' q = frames m q" if r: "r \<in> R" and q: "q \<in> nodes m 2 r" for r q
  proof -
    have "tree m 2 r" using assms(1) r by (simp add: tables_ok_def)
    from tree_nodes_table [OF this q] assms(2) show ?thesis by auto
  qed
  note same = this
  have F: "nodes m' 2 r = nodes m 2 r" "tree m 2 r \<longrightarrow> tree m' 2 r" "leaf m' 2 r va = leaf m 2 r va"
    "slot m' 2 r va = slot m 2 r va" if "r \<in> R" for r va
    using tree_frame [of m 2 r m', OF same [OF that]] by simp_all
  then show "tables_ok m' R" using assms(1) by (simp add: tables_ok_def)
  show "pte m' r v = pte m r v" if "r \<in> R" using F(3) [OF that] by (simp add: pte_def)
  show "slot m' 2 r va = slot m 2 r va" if "r \<in> R" using F(4) [OF that] .
  show "nodes m' 2 r = nodes m 2 r" if "r \<in> R" using F(1) [OF that] .
qed

text \<open>Updating one address space leaves the others and all data frames as they are.\<close>

lemma updates_rest:
  assumes T: "tables_ok m R" and r: "r \<in> R" and U: "updates m r m' f"
  shows "tables_ok m' R" "r' \<in> R \<Longrightarrow> r' \<noteq> r \<Longrightarrow> pte m' r' v = pte m r' v" "rd_page m' p = rd_page m p"
    "frames m p \<noteq> None \<Longrightarrow> refs m' p = refs m p"
proof -
  note U' = updatesD [OF U]
  have other: "nodes m' 2 x = nodes m 2 x" "tree m' 2 x" "leaf m' 2 x va = leaf m 2 x va"
    and ex: "\<And>q. q \<in> nodes m 2 x \<Longrightarrow> frames m q \<noteq> None"
    if x: "x \<in> R" "x \<noteq> r" for x va
  proof -
    have tx: "tree m 2 x" using T x by (simp add: tables_ok_def)
    then show exx: "\<And>q. q \<in> nodes m 2 x \<Longrightarrow> frames m q \<noteq> None" by (rule tree_exists)
    have "frames m' q = frames m q" if q: "q \<in> nodes m 2 x" for q
    proof (rule extD(1) [OF U'(2) exx [OF q]])
      show "q \<notin> nodes m 2 r" using T x r q by (auto simp: tables_ok_def)
    qed
    from tree_frame [of m 2 x m' va, OF this] tx
    show "nodes m' 2 x = nodes m 2 x" "tree m' 2 x" "leaf m' 2 x va = leaf m 2 x va" by simp_all
  qed
  have apart: "nodes m' 2 r \<inter> nodes m' 2 x = {}" if x: "x \<in> R" "x \<noteq> r" for x
  proof -
    have "q \<notin> nodes m' 2 r" if q: "q \<in> nodes m 2 x" for q
    proof
      assume "q \<in> nodes m' 2 r"
      with U'(4) [of q] ex [OF x q] have "q \<in> nodes m 2 r" by simp
      then show False using T x r q by (auto simp: tables_ok_def)
    qed
    then show ?thesis using other(1) [OF x] by blast
  qed
  show "tables_ok m' R"
    unfolding tables_ok_def
  proof (intro conjI ballI impI)
    show "finite R" using T by (simp add: tables_ok_def)
    show "tree m' 2 x" if "x \<in> R" for x using U'(1) other(2) that by (cases "x = r") auto
    fix x y assume xy: "x \<in> R" "y \<in> R" "x \<noteq> y"
    show "nodes m' 2 x \<inter> nodes m' 2 y = {}"
    proof (cases "x = r \<or> y = r")
      case True
      then show ?thesis using apart xy by (auto simp: Int_commute)
    next
      case False
      then show ?thesis using other(1) xy T by (simp add: tables_ok_def)
    qed
  qed
  show "pte m' r' v = pte m r' v" if "r' \<in> R" "r' \<noteq> r" using other(3) [OF that] by (simp add: pte_def)
  show "refs m' p = refs m p" if "frames m p \<noteq> None" using extD(3) [OF U'(2) that] .
  have table: "\<exists>t. frames m' p = Some (PT t)" if "p \<in> nodes m' 2 r" using tree_nodes_table [OF U'(1) that] .
  show "rd_page m' p = rd_page m p"
  proof (cases "frames m p = None")
    case True
    with U'(6) [OF True] table show ?thesis by (auto simp: rd_page_def)
  next
    case False
    show ?thesis
    proof (cases "p \<in> nodes m 2 r")
      case True
      have "tree m 2 r" using T r by (simp add: tables_ok_def)
      moreover have "p \<in> nodes m' 2 r" using U'(3) True by blast
      ultimately show ?thesis using tree_nodes_table [of m 2 r p] table True by (auto simp: rd_page_def)
    next
      case outside: False
      from extD(1) [OF U'(2) False outside] show ?thesis by (simp add: rd_page_def)
    qed
  qed
qed

lemma mappings_update:
  assumes "\<And>r' v'. r' \<in> R \<Longrightarrow> v' < USERPAGES \<Longrightarrow> (r', v') \<noteq> (r, v) \<Longrightarrow> pte m' r' v' = pte m r' v'"
    and "r \<in> R" "v < USERPAGES"
  shows "mappings m' R p = mappings m R p - {(r, v)} \<union>
    (if is_v (pte m' r v) \<and> pte_to_pa (pte m' r v) = p then {(r, v)} else {})"
proof (rule set_eqI)
  fix x :: "usize \<times> nat"
  obtain r' v' where x: "x = (r', v')" by (cases x)
  show "x \<in> mappings m' R p \<longleftrightarrow> x \<in> mappings m R p - {(r, v)} \<union>
      (if is_v (pte m' r v) \<and> pte_to_pa (pte m' r v) = p then {(r, v)} else {})"
  proof (cases "(r', v') = (r, v)")
    case True
    then show ?thesis using assms(2,3) by (simp add: x mappings_def)
  next
    case False
    then show ?thesis using assms(1) [of r' v'] by (auto simp: x mappings_def)
  qed
qed

lemma mappings_cong:
  assumes "\<And>r' v'. r' \<in> R \<Longrightarrow> v' < USERPAGES \<Longrightarrow> pte m' r' v' = pte m r' v'"
  shows "mappings m' R p = mappings m R p"
  unfolding mappings_def by (rule Collect_cong) (use assms in auto)

lemma finite_mappings: "finite R \<Longrightarrow> finite (mappings m R p)"
  by (rule finite_subset [of _ "R \<times> {..<USERPAGES}"]) (auto simp: mappings_def)

lemma USERPAGES_less: "v < USERPAGES \<Longrightarrow> v < NPAGES"
  by (simp add: USERPAGES_def)

lemma space_invD:
  assumes "space_inv live m R"
  shows "mem_inv live m" "tables_ok m R" "entries_ok m R" "counts_ok m R" "finite R"
    "r \<in> R \<Longrightarrow> tree m 2 r" "r \<in> R \<Longrightarrow> v < NPAGES \<Longrightarrow> entry_ok m v (pte m r v)"
    "rd_page m p \<noteq> None \<Longrightarrow> refs m p = card (mappings m R p)"
  using assms by (auto simp: space_inv_def tables_ok_def entries_ok_def counts_ok_def)

lemma rd_page_frames: "rd_page m p \<noteq> None \<Longrightarrow> frames m p \<noteq> None"
  by (auto simp: rd_page_def split: option.splits)

lemma mapping_page:
  assumes "space_inv live m R" "(r, v) \<in> mappings m R p"
  shows "rd_page m p \<noteq> None"
  using space_invD(7) [OF assms(1), of r v] assms(2) USERPAGES_less by (auto simp: mappings_def entry_ok_def)

section \<open>Page faults\<close>

lemma entry_bits:
  assumes "n < 10"
  shows "bit (pa_to_pte p OR flags) n = bit flags n"
  using assms by (simp add: pa_to_pte_def bit_simps)

lemma entry_pa:
  assumes "ram_page p" "flags < 2 ^ 10"
  shows "pte_to_pa (pa_to_pte p OR flags) = p"
  using ram_page_pa [OF assms(1)] assms(2) by (intro pte_entry_pa) simp_all

text \<open>
  A step that gives address space \<open>r\<close> the new entry \<open>e\<close> for user page \<open>v\<close>, where \<open>e\<close> maps a data
  page \<open>p\<close> that no user entry mapped before, and leaves all other data pages and their counts alone.
\<close>

lemma space_inv_map_fresh:
  assumes I: "space_inv live m R" and r: "r \<in> R" and v: "v < USERPAGES" "\<not> is_v (pte m r v)"
    and m': "mem_inv live m'" "tables_ok m' R"
    and pte: "\<And>r' v'. r' \<in> R \<Longrightarrow> v' < NPAGES \<Longrightarrow> pte m' r' v' = (if r' = r \<and> v' = v then e else pte m r' v')"
    and e: "is_v e" "is_r e" "pte_to_pa e = p"
    and p: "rd_page m p = None" "rd_page m' p \<noteq> None" "refs m' p = 1"
    and data: "\<And>q. q \<noteq> p \<Longrightarrow> rd_page m' q = rd_page m q" "\<And>q. rd_page m q \<noteq> None \<Longrightarrow> refs m' q = refs m q"
  shows "space_inv live m' R"
proof -
  have map: "mappings m' R q = mappings m R q - {(r, v)} \<union> (if p = q then {(r, v)} else {})" for q
  proof -
    have "pte m' r' v' = pte m r' v'" if "r' \<in> R" "v' < USERPAGES" "(r', v') \<noteq> (r, v)" for r' v'
      using pte [OF that(1) USERPAGES_less [OF that(2)]] that(3) by auto
    from mappings_update [OF this r v(1), of q] pte [OF r USERPAGES_less [OF v(1)]] e show ?thesis by simp
  qed
  have no: "(r, v) \<notin> mappings m R q" for q using v(2) by (simp add: mappings_def)
  have "mappings m R p = {}" using mapping_page [OF I] p(1) by fastforce
  with map no have cp: "mappings m' R p = {(r, v)}" "\<And>q. q \<noteq> p \<Longrightarrow> mappings m' R q = mappings m R q" by auto
  have "counts_ok m' R"
    unfolding counts_ok_def
  proof (intro allI impI)
    fix q assume q: "rd_page m' q \<noteq> None"
    show "refs m' q = card (mappings m' R q)"
      using cp p(3) q data space_invD(8) [OF I, of q] by (cases "q = p") auto
  qed
  moreover have "entries_ok m' R"
    unfolding entries_ok_def
  proof (intro ballI allI impI)
    fix r' v' assume r': "r' \<in> R" and v': "v' < NPAGES"
    show "entry_ok m' v' (pte m' r' v')"
    proof (cases "r' = r \<and> v' = v")
      case True
      with pte [OF r' v'] e p v(1) show ?thesis by (simp add: entry_ok_def)
    next
      case False
      have old: "entry_ok m v' (pte m r' v')" using space_invD(7) [OF I r' v'] .
      have "rd_page m' q \<noteq> None \<and> refs m' q = refs m q" if "rd_page m q \<noteq> None" for q
        using that p(1) data by (metis)
      with old False pte [OF r' v'] show ?thesis by (auto simp: entry_ok_def)
    qed
  qed
  ultimately show ?thesis using m' by (simp add: space_inv_def)
qed

lemma peek_cong:
  assumes "\<And>v. v < NPAGES \<Longrightarrow> pte m' r v = pte m r v"
    and "\<And>v. v < NPAGES \<Longrightarrow> is_v (pte m r v) \<Longrightarrow> is_u (pte m r v) \<Longrightarrow>
           rd_page m' (pte_to_pa (pte m r v)) = rd_page m (pte_to_pa (pte m r v))"
  shows "peek m' r sz va = peek m r sz va"
proof (cases "va < MAXVA")
  case True
  from assms [OF vpn_less [OF True]] show ?thesis by (simp add: peek_def Let_def)
next
  case False
  then show ?thesis by (simp add: peek_def not_less)
qed

definition same_ptes :: "usize set \<Rightarrow> 'b Mem \<Rightarrow> 'b Mem \<Rightarrow> bool" where
  "same_ptes R m m' \<longleftrightarrow> (\<forall>r \<in> R. \<forall>v < NPAGES. pte m' r v = pte m r v)"

lemma same_ptesD: "same_ptes R m m' \<Longrightarrow> r \<in> R \<Longrightarrow> v < NPAGES \<Longrightarrow> pte m' r v = pte m r v"
  by (simp add: same_ptes_def)

lemma space_inv_same:
  assumes I: "space_inv live m R" and m': "mem_inv live m'" "tables_ok m' R" "same_ptes R m m'"
    and data: "\<And>q. rd_page m' q = rd_page m q" "\<And>q. rd_page m q \<noteq> None \<Longrightarrow> refs m' q = refs m q"
  shows "space_inv live m' R"
proof -
  have "mappings m' R q = mappings m R q" for q
    by (rule mappings_cong) (simp add: same_ptesD [OF m'(3)] USERPAGES_less)
  then have "counts_ok m' R" using space_invD(4) [OF I] data by (simp add: counts_ok_def)
  moreover have "entries_ok m' R"
    unfolding entries_ok_def
  proof (intro ballI allI impI)
    fix r v assume "r \<in> R" "v < NPAGES"
    with space_invD(7) [OF I, of r v] same_ptesD [OF m'(3), of r v] data
    show "entry_ok m' v (pte m' r v)" by (auto simp: entry_ok_def)
  qed
  ultimately show ?thesis using m' by (simp add: space_inv_def)
qed

lemma page_aligned_mod: "page_aligned a \<Longrightarrow> a mod PGSIZE = 0"
  by (simp add: page_aligned_unat word_unat_eq_iff unat_mod)

lemma map_page_single:
  assumes "page_aligned va"
  shows "map_pages B r va pa PGSIZE perm m = map_loop B (Suc 0) r va pa perm m"
  using page_aligned_mod [OF assms] by (simp add: map_pages_def)

lemma fresh_page:
  assumes I: "space_inv live m R" and new: "frames m p = None" "frames m1 = (frames m)(p \<mapsto> zeroed_page)"
    and m1: "mem_inv live m1" and refs: "\<forall>q. ram_page q \<and> q \<noteq> p \<longrightarrow> refs m1 q = refs m q"
  shows "tables_ok m1 R" "same_ptes R m m1" "\<And>q. q \<noteq> p \<Longrightarrow> rd_page m1 q = rd_page m q"
    "rd_page m1 p = Some (\<lambda>_. 0)" "rd_page m p = None" "\<And>q. rd_page m q \<noteq> None \<Longrightarrow> refs m1 q = refs m q"
    "r \<in> R \<Longrightarrow> tree m1 2 r"
proof -
  have pt: "frames m1 q = Some (PT t)" if "frames m q = Some (PT t)" for q t using that new by auto
  note D = data_change [OF space_invD(2) [OF I] pt]
  show t: "tables_ok m1 R" using D(1) .
  then show "r \<in> R \<Longrightarrow> tree m1 2 r" by (simp add: tables_ok_def)
  show "same_ptes R m m1" using D(2) by (simp add: same_ptes_def)
  show "\<And>q. q \<noteq> p \<Longrightarrow> rd_page m1 q = rd_page m q" "rd_page m1 p = Some (\<lambda>_. 0)" "rd_page m p = None"
    using new by (simp_all add: rd_page_def zeroed_page_def)
  fix q assume q: "rd_page m q \<noteq> None"
  then have "frames m q \<noteq> None" by (rule rd_page_frames)
  then have "q \<noteq> p" "ram_page q" using new(1) space_invD(1) [OF I] by (auto simp: mem_inv_def)
  then show "refs m1 q = refs m q" using refs by blast
qed

text \<open>Freeing a data page that nothing maps.\<close>

lemma drop_unmapped:
  assumes B: "buddy_ok B live" and m: "mem_inv live m" "tables_ok m R" and p: "rd_page m p \<noteq> None" "refs m p = 1"
  obtains m' where "box_drop B p m = Some m'" "mem_inv live m'" "tables_ok m' R" "same_ptes R m m'"
    "\<And>q. rd_page m' q = (if q = p then None else rd_page m q)"
    "\<And>q. rd_page m q \<noteq> None \<Longrightarrow> q \<noteq> p \<Longrightarrow> refs m' q = refs m q"
proof (rule box_drop_spec [OF B m(1) rd_page_frames [OF p(1)]])
  fix m'
  assume m': "box_drop B p m = Some m'" "mem_inv live m'"
    "frames m' = (if refs m p = 1 then (frames m)(p := None) else frames m)"
    "refs m' p = refs m p - 1" "\<And>q. ram_page q \<Longrightarrow> q \<noteq> p \<Longrightarrow> refs m' q = refs m q"
  have fr: "frames m' = (frames m)(p := None)" using m'(3) p(2) by simp
  have pt: "frames m' q = Some (PT t)" if "frames m q = Some (PT t)" for q t
    using that fr p(1) by (auto simp: rd_page_def)
  note D = data_change [OF m(2) pt]
  have "refs m' q = refs m q" if "rd_page m q \<noteq> None" "q \<noteq> p" for q
  proof (rule m'(5) [OF _ that(2)])
    show "ram_page q" using rd_page_frames [OF that(1)] m(1) by (auto simp: mem_inv_def)
  qed
  with m'(1,2) D fr show ?thesis by (intro that [of m']) (auto simp: same_ptes_def rd_page_def)
qed

lemma space_inv_quiet:
  assumes I: "space_inv live m R" and m': "mem_inv live m'" "frames m' = frames m" "refs m' = refs m"
  shows "space_inv live m' R" "same_ptes R m m'" "rd_page m' q = rd_page m q"
proof -
  have pt: "frames m' q = Some (PT t)" if "frames m q = Some (PT t)" for q t using that m' by simp
  note D = data_change [OF space_invD(2) [OF I] pt]
  show s: "same_ptes R m m'" using D(2) by (simp add: same_ptes_def)
  show rd: "rd_page m' q = rd_page m q" for q using m'(2) by (simp add: rd_page_def)
  show "space_inv live m' R" by (rule space_inv_same [OF I m'(1) D(1) s]) (simp_all add: rd m'(3))
qed

lemma lazy_flags: "(PTE_W OR PTE_U OR PTE_R) OR PTE_V = (23 :: usize)"
  by simp

lemma vmfault_lazy_spec:
  assumes B: "buddy_ok B live" and I: "space_inv live m R" and r: "r \<in> R"
    and va: "va < MAXVA" "page_aligned va" and absent: "\<not> is_v (pte m r (vpn va))"
  obtains (fail) m' where "vmfault_lazy B r va m = Some (Err VmAlloc, m')" "space_inv live m' R" "same_ptes R m m'"
      "\<And>q. rd_page m' q = rd_page m q"
  | (ok) p m' where "vmfault_lazy B r va m = Some (Ok p, m')" "space_inv live m' R" "ram_page p" "rd_page m p = None"
      "rd_page m' p = Some (\<lambda>_. 0)" "\<And>q. q \<noteq> p \<Longrightarrow> rd_page m' q = rd_page m q"
      "\<And>r' v. r' \<in> R \<Longrightarrow> v < NPAGES \<Longrightarrow>
         pte m' r' v = (if r' = r \<and> v = vpn va then pa_to_pte p OR 23 else pte m r' v)"
proof -
  let ?v = "vpn va"
  have vN: "?v < NPAGES" using vpn_less [OF va(1)] .
  have vU: "?v < USERPAGES"
    using space_invD(7) [OF I r vN] absent by (auto simp: entry_ok_def split: if_splits)
  show ?thesis
  proof (rule box_new_spec [OF B space_invD(1) [OF I], of zeroed_page])
    fix m1 assume f: "box_new B zeroed_page m = Some (None, m1)" "mem_inv live m1" "frames m1 = frames m" "refs m1 = refs m"
    from f(1) have "vmfault_lazy B r va m = Some (Err VmAlloc, m1)" by (simp add: vmfault_lazy_def)
    then show ?thesis by (rule fail [OF _ space_inv_quiet [OF I f(2-4)]])
  next
    fix p m1
    assume n: "box_new B zeroed_page m = Some (Some p, m1)" "mem_inv live m1" "ram_page p" "frames m p = None"
      "frames m1 = (frames m)(p \<mapsto> zeroed_page)" "refs m1 p = 1" "\<And>q. ram_page q \<Longrightarrow> q \<noteq> p \<Longrightarrow> refs m1 q = refs m q"
    have n7: "\<forall>q. ram_page q \<and> q \<noteq> p \<longrightarrow> refs m1 q = refs m q" using n(7) by simp
    note F = fresh_page [OF I n(4,5,2) n7]
    have T1: "tree m1 2 r" using F(7) [OF r] .
    have pt1: "pte m1 r' v = pte m r' v" if "r' \<in> R" "v < NPAGES" for r' v using same_ptesD [OF F(2) that] .
    have abs1: "\<not> is_v (pte m1 r ?v)" using absent pt1 [OF r vN] by simp
    note single = map_page_single [OF va(2), of B r p "PTE_W OR PTE_U OR PTE_R" m1]
    show ?thesis
    proof (rule map_one_spec [OF B n(2) T1 va(1) abs1, of p "PTE_W OR PTE_U OR PTE_R"])
      fix m2
      assume m2: "\<And>n. map_loop B (Suc n) r va p (PTE_W OR PTE_U OR PTE_R) m1 = Some (Err VmAlloc, m2)"
        "mem_inv live m2" "updates m1 r m2 (pte m1 r)"
      note U = updates_rest [OF F(1) r m2(3)]
      have s12: "same_ptes R m1 m2"
        using U(2) updatesD(5) [OF m2(3)] unfolding same_ptes_def by metis
      have p2: "rd_page m2 p \<noteq> None" "refs m2 p = 1" using U(3,4) [of p] F(4) n(5,6) by simp_all
      show ?thesis
      proof (rule drop_unmapped [OF B m2(2) U(1) p2])
        fix m3
        assume m3: "box_drop B p m2 = Some m3" "mem_inv live m3" "tables_ok m3 R" "same_ptes R m2 m3"
          "\<And>q. rd_page m3 q = (if q = p then None else rd_page m2 q)"
          "\<And>q. rd_page m2 q \<noteq> None \<Longrightarrow> q \<noteq> p \<Longrightarrow> refs m3 q = refs m2 q"
        have run: "vmfault_lazy B r va m = Some (Err VmAlloc, m3)"
          using n(1) single m2(1) m3(1) by (simp add: vmfault_lazy_def)
        have s: "same_ptes R m m3" using F(2) s12 m3(4) by (simp add: same_ptes_def)
        have rd: "rd_page m3 q = rd_page m q" for q using m3(5) U(3) F(3,5) by (cases "q = p") simp_all
        have "refs m3 q = refs m q" if "rd_page m q \<noteq> None" for q
        proof -
          have "q \<noteq> p" using that F(5) by auto
          with that F(3,6) U(3,4) m3(6) rd_page_frames [of m1 q] show ?thesis by simp
        qed
        then have "space_inv live m3 R" by (rule space_inv_same [OF I m3(2,3) s rd])
        with run s rd show ?thesis by (intro fail [of m3]) simp_all
      qed
    next
      fix m2
      assume m2: "\<And>n. map_loop B (Suc n) r va p (PTE_W OR PTE_U OR PTE_R) m1 =
          map_loop B n r (va + PGSIZE) (p + PGSIZE) (PTE_W OR PTE_U OR PTE_R) m2" "mem_inv live m2"
        "updates m1 r m2 ((pte m1 r)(?v := pa_to_pte p OR (PTE_W OR PTE_U OR PTE_R) OR PTE_V))"
      note U = updates_rest [OF F(1) r m2(3)]
      let ?e = "pa_to_pte p OR 23 :: usize"
      have e: "pa_to_pte p OR (PTE_W OR PTE_U OR PTE_R) OR PTE_V = ?e"
        by (simp only: or.assoc lazy_flags [unfolded or.assoc])
      have run: "vmfault_lazy B r va m = Some (Ok p, m2)"
        using n(1) single m2(1) [of 0] by (simp add: vmfault_lazy_def)
      have ptes: "pte m2 r' v = (if r' = r \<and> v = ?v then ?e else pte m r' v)" if "r' \<in> R" "v < NPAGES" for r' v
        using U(2) [OF that(1), of v] updatesD(5) [OF m2(3) that(2)] pt1 [OF that]
        by (cases "r' = r") (auto simp: e [simplified])
      have ev: "is_v ?e" "is_r ?e" "pte_to_pa ?e = p"
        using entry_pa [OF n(3), of 23] by (simp_all add: is_r_def pte_bits entry_bits word_less_nat_alt bit_simps)
      have rd: "rd_page m2 q = rd_page m1 q" for q using U(3) .
      have sp: "space_inv live m2 R"
      proof (rule space_inv_map_fresh [OF I r vU absent m2(2) U(1) _ ev F(5)])
        show "\<And>r' v'. r' \<in> R \<Longrightarrow> v' < NPAGES \<Longrightarrow> pte m2 r' v' = (if r' = r \<and> v' = ?v then ?e else pte m r' v')"
          by (rule ptes)
        show "rd_page m2 p \<noteq> None" "refs m2 p = 1" using rd F(4) U(4) n(5,6) by simp_all
        show "\<And>q. q \<noteq> p \<Longrightarrow> rd_page m2 q = rd_page m q" using rd F(3) by simp
        fix q assume q: "rd_page m q \<noteq> None"
        then have "q \<noteq> p" using F(5) by auto
        with q F(3,6) U(4) rd_page_frames [of m1 q] show "refs m2 q = refs m q" by simp
      qed
      show ?thesis by (rule ok [OF run sp n(3) F(5)]) (simp_all add: rd F ptes)
    qed
  qed
qed

text \<open>The entry a copy-on-write fault installs.\<close>

definition cow_entry :: "usize \<Rightarrow> usize \<Rightarrow> usize" where
  "cow_entry p e = pa_to_pte p OR ((pte_flags e AND NOT PTE_COW) OR PTE_W)"

lemma take_bit10_less: "take_bit 10 w = w \<Longrightarrow> (w :: usize) < 2 ^ 10"
proof -
  assume w: "take_bit 10 w = w"
  have "unat (take_bit 10 w) = take_bit 10 (unat w)" by (simp only: unsigned_take_bit_eq)
  also have "\<dots> < 2 ^ 10" by (rule take_bit_nat_less_exp)
  finally show "w < 2 ^ 10" unfolding w by (simp add: word_less_nat_alt)
qed

lemma cow_entry_facts:
  assumes "ram_page p"
  shows "pte_to_pa (cow_entry p e) = p" "is_v (cow_entry p e) = is_v e" "is_u (cow_entry p e) = is_u e"
    "is_w (cow_entry p e)" "is_r (cow_entry p e) = is_r e" "\<not> is_cow (cow_entry p e)"
proof -
  let ?f = "(pte_flags e AND NOT PTE_COW) OR PTE_W"
  have exp: "bit (2 ^ k :: usize) n \<longleftrightarrow> n = k" if "k < 64" for k n
    using that by (auto simp: bit_exp_iff)
  have bits: "bit ?f n = (bit e n \<and> n < 10 \<and> n \<noteq> 8 \<or> n = 2)" if n: "n < 64" for n
  proof -
    have "bit (NOT PTE_COW) n \<longleftrightarrow> n \<noteq> 8"
      using n exp [of 8 n] by (subst bit_not_iff) simp
    moreover have "bit PTE_W n \<longleftrightarrow> n = 2" using exp [of 2 n] by simp
    moreover have "bit (pte_flags e) n \<longleftrightarrow> bit e n \<and> n < 10"
      using n by (auto simp: pte_flags_def mask10 bit_and_iff bit_mask_iff)
    ultimately show ?thesis by (simp only: bit_and_iff bit_or_iff) blast
  qed
  have "bit (take_bit 10 ?f) n \<longleftrightarrow> bit ?f n" if n: "n < 64" for n
    unfolding bit_take_bit_iff bits [OF n] by auto
  then have "take_bit 10 ?f = ?f" by (intro bit_word_eqI) simp_all
  then have "?f < 2 ^ 10" by (rule take_bit10_less)
  then show "pte_to_pa (cow_entry p e) = p" unfolding cow_entry_def by (rule entry_pa [OF assms])
  have "bit (cow_entry p e) n \<longleftrightarrow> bit e n \<and> n \<noteq> 8 \<or> n = 2" if n: "n < 10" for n
  proof -
    have "bit (cow_entry p e) n = bit ?f n" unfolding cow_entry_def by (rule entry_bits [OF n])
    also have "\<dots> \<longleftrightarrow> bit e n \<and> n \<noteq> 8 \<or> n = 2" using bits [of n] n by linarith
    finally show ?thesis .
  qed
  then show "is_v (cow_entry p e) = is_v e" "is_u (cow_entry p e) = is_u e" "is_w (cow_entry p e)"
    "is_r (cow_entry p e) = is_r e" "\<not> is_cow (cow_entry p e)"
    by (simp_all add: pte_bits is_r_def)
qed

text \<open>
  A step that gives up the mapping of user page \<open>v\<close>: the count of the page mapped there drops, the page
  goes with its last reference, and the new entry is either invalid or maps a fresh page.
\<close>

lemma space_inv_replace:
  assumes I: "space_inv live m R" and r: "r \<in> R" and v: "v < USERPAGES" "is_v (pte m r v)"
    and old: "old = pte_to_pa (pte m r v)"
    and m': "mem_inv live m'" "tables_ok m' R"
    and pte: "\<And>r' v'. r' \<in> R \<Longrightarrow> v' < NPAGES \<Longrightarrow> pte m' r' v' = (if r' = r \<and> v' = v then e else pte m r' v')"
    and e: "is_v e \<Longrightarrow> is_r e \<and> rd_page m (pte_to_pa e) = None \<and> rd_page m' (pte_to_pa e) \<noteq> None \<and> refs m' (pte_to_pa e) = 1"
    and kept: "\<And>q. rd_page m q \<noteq> None \<Longrightarrow> rd_page m' q = (if q = old \<and> refs m old = 1 then None else rd_page m q)"
      "\<And>q. rd_page m q \<noteq> None \<Longrightarrow> refs m' q = (if q = old then refs m q - 1 else refs m q)"
    and new: "\<And>q. rd_page m q = None \<Longrightarrow> rd_page m' q \<noteq> None \<Longrightarrow> is_v e \<and> q = pte_to_pa e"
  shows "space_inv live m' R"
proof -
  have vN: "v < NPAGES" using USERPAGES_less [OF v(1)] .
  have map: "mappings m' R q = mappings m R q - {(r, v)} \<union> (if is_v e \<and> pte_to_pa e = q then {(r, v)} else {})" for q
  proof -
    have "pte m' r' v' = pte m r' v'" if "r' \<in> R" "v' < USERPAGES" "(r', v') \<noteq> (r, v)" for r' v'
      using pte [OF that(1) USERPAGES_less [OF that(2)]] that(3) by auto
    from mappings_update [OF this r v(1), of q] pte [OF r vN] show ?thesis by simp
  qed
  have in_old: "(r, v) \<in> mappings m R q \<longleftrightarrow> q = old" for q using r v old by (auto simp: mappings_def)
  have olddata: "rd_page m old \<noteq> None" using mapping_page [OF I] in_old by blast
  have "counts_ok m' R"
    unfolding counts_ok_def
  proof (intro allI impI)
    fix q assume q: "rd_page m' q \<noteq> None"
    show "refs m' q = card (mappings m' R q)"
    proof (cases "rd_page m q = None")
      case True
      then have "mappings m R q = {}" using mapping_page [OF I] by fastforce
      moreover have "is_v e" "q = pte_to_pa e" using new [OF True q] by simp_all
      ultimately show ?thesis using map [of q] e by simp
    next
      case False
      then have "\<not> (is_v e \<and> pte_to_pa e = q)" using e by auto
      then have "mappings m' R q = mappings m R q - {(r, v)}" unfolding map by (simp only: if_False Un_empty_right)
      then have "card (mappings m' R q) = (if q = old then card (mappings m R q) - 1 else card (mappings m R q))"
        using in_old [of q] by (simp add: card_Diff_singleton_if)
      then show ?thesis unfolding kept(2) [OF False] space_invD(8) [OF I False] by (rule sym)
    qed
  qed
  moreover have "entries_ok m' R"
    unfolding entries_ok_def
  proof (intro ballI allI impI)
    fix r' v' assume r': "r' \<in> R" and v': "v' < NPAGES"
    show "entry_ok m' v' (pte m' r' v')"
    proof (cases "r' = r \<and> v' = v")
      case True
      with pte [OF r' v'] e v(1) show ?thesis by (simp add: entry_ok_def)
    next
      case False
      let ?x = "pte m r' v'" let ?q = "pte_to_pa ?x"
      have x: "pte m' r' v' = ?x" using False pte [OF r' v'] by auto
      have ok: "entry_ok m v' ?x" using space_invD(7) [OF I r' v'] .
      show ?thesis
      proof (cases "v' < USERPAGES \<and> is_v ?x")
        case user: True
        have data: "rd_page m ?q \<noteq> None" using ok user by (simp add: entry_ok_def)
        have "refs m old \<noteq> 1" if "?q = old"
        proof
          assume "refs m old = 1"
          then have "card (mappings m R old) = 1" using space_invD(8) [OF I olddata] by simp
          then obtain y where "mappings m R old = {y}" by (auto simp: card_1_singleton_iff)
          moreover have "(r', v') \<in> mappings m R old" using that r' user by (simp add: mappings_def)
          ultimately have "(r', v') = (r, v)" using in_old [of old] by auto
          with False show False by simp
        qed
        with ok user kept [OF data] data show ?thesis unfolding x by (auto simp: entry_ok_def)
      next
        case other: False
        with ok show ?thesis unfolding x by (auto simp: entry_ok_def)
      qed
    qed
  qed
  ultimately show ?thesis using m' by (simp add: space_inv_def)
qed

section \<open>An example process\<close>

text \<open>
  A page table whose three tables are the consecutive frames at \<open>b\<close> and which translates the last 512
  pages of the address space by the table \<open>tab\<close>.
\<close>

definition top_tables :: "'b Mem \<Rightarrow> usize \<Rightarrow> (nat \<Rightarrow> usize) \<Rightarrow> bool" where
  "top_tables m b tab \<longleftrightarrow>
     ram_page b \<and> ram_page (b + 0x1000) \<and> ram_page (b + 0x2000) \<and>
     frames m b = Some (PT (\<lambda>i. if i = 255 then pa_to_pte (b + 0x1000) OR PTE_V else 0)) \<and>
     frames m (b + 0x1000) = Some (PT (\<lambda>i. if i = 511 then pa_to_pte (b + 0x2000) OR PTE_V else 0)) \<and>
     frames m (b + 0x2000) = Some (PT tab)"

lemma top_tables_tree:
  assumes "top_tables m b tab"
  shows "tree m 2 b" "nodes m 2 b \<subseteq> {b, b + 0x1000, b + 0x2000}"
    "v < NPAGES \<Longrightarrow> pte m b v = (if v div 512 = 131071 then tab (v mod 512) else 0)"
proof -
  note F = assms [unfolded top_tables_def]
  have z: "\<not> is_v 0" by (simp add: is_v_def)
  have c2: "child m b i = (if i = 255 then Some (b + 0x1000) else None)" for i
    using F pte_table_entry [of "b + 0x1000"] z by (simp add: child_def rd_table_def)
  have c1: "child m (b + 0x1000) i = (if i = 511 then Some (b + 0x2000) else None)" for i
    using F pte_table_entry [of "b + 0x2000"] z by (simp add: child_def rd_table_def)
  have rd: "rd_table m b \<noteq> None" "rd_table m (b + 0x1000) \<noteq> None" "rd_table m (b + 0x2000) = Some tab"
    using F by (simp_all add: rd_table_def)
  have n1: "nodes m 1 (b + 0x1000) \<subseteq> {b + 0x1000, b + 0x2000}" by (auto simp: c1 nodes.simps tree.simps split: if_splits)
  show "nodes m 2 b \<subseteq> {b, b + 0x1000, b + 0x2000}"
    using n1 by (auto simp: numeral_2_eq_2 c2 c1 nodes.simps split: if_splits)
  have t1: "tree m 1 (b + 0x1000)" using rd by (auto simp: c1 nodes.simps tree.simps split: if_splits)
  show "tree m 2 b"
    unfolding numeral_2_eq_2
  proof (rule treeI)
    show "rd_table m b \<noteq> None" using rd by simp
    show "tree m (Suc 0) c \<and> b \<notin> nodes m (Suc 0) c" if "child m b i = Some c" for i c
      using that t1 n1 by (auto simp: c2 split: if_splits)
    show "nodes m (Suc 0) c \<inter> nodes m (Suc 0) d = {}"
      if "i \<noteq> j" "child m b i = Some c" "child m b j = Some d" for i j c d
      using that by (auto simp: c2 split: if_splits)
  qed
  show "pte m b v = (if v div 512 = 131071 then tab (v mod 512) else 0)" if v: "v < NPAGES"
  proof -
    let ?va = "word_of_nat (v * 4096) :: usize"
    have u: "unat ?va = v * 4096" using v by (simp add: unat_of_nat NPAGES_def del: of_nat_mult)
    have p: "unat (px 2 ?va) = v div 262144" "unat (px 1 ?va) = v div 512 mod 512" "unat (px 0 ?va) = v mod 512"
      unfolding unat_px u using v by (simp_all add: NPAGES_def)
    have "v div 262144 = v div 512 div 512" by (simp flip: div_mult2_eq)
    moreover have "w = 131071" if "w div 512 = 255" "w mod 512 = 511" for w :: nat
    proof -
      have "w = w div 512 * 512 + w mod 512" by (rule div_mult_mod_eq [symmetric])
      with that show ?thesis by linarith
    qed
    ultimately have "v div 262144 = 255 \<and> v div 512 mod 512 = 511 \<longleftrightarrow> v div 512 = 131071" by auto
    moreover have "leaf m 2 b ?va = (if v div 262144 = 255 \<and> v div 512 mod 512 = 511 then tab (v mod 512) else 0)"
      using p rd(3) by (simp add: numeral_2_eq_2 c2 c1 leaf.simps)
    ultimately show ?thesis by (simp add: pte_def)
  qed
qed

text \<open>
  Two processes: the first has a writable page, an untouched page and a copy-on-write page just below
  its trapframe; the second has no memory yet.
\<close>

definition system_tab :: "nat \<Rightarrow> usize" where
  "system_tab i = (if i = 511 then pa_to_pte 0x80000000 OR 11 else if i = 510 then pa_to_pte 0x80007000 OR 7 else 0)"

definition user_tab :: "nat \<Rightarrow> usize" where
  "user_tab i = (if i = 509 then pa_to_pte 0x80103000 OR 23 else if i = 507 then pa_to_pte 0x80104000 OR 275 else system_tab i)"

definition example_users :: "usize list Mem" where
  "example_users =
     \<lparr>frames = [
        0x80100000 \<mapsto> PT (\<lambda>i. if i = 255 then pa_to_pte 0x80101000 OR PTE_V else 0),
        0x80101000 \<mapsto> PT (\<lambda>i. if i = 511 then pa_to_pte 0x80102000 OR PTE_V else 0),
        0x80102000 \<mapsto> PT user_tab,
        0x80103000 \<mapsto> Pg (\<lambda>_. 7),
        0x80104000 \<mapsto> Pg (\<lambda>i. word_of_nat i),
        0x80110000 \<mapsto> PT (\<lambda>i. if i = 255 then pa_to_pte 0x80111000 OR PTE_V else 0),
        0x80111000 \<mapsto> PT (\<lambda>i. if i = 511 then pa_to_pte 0x80112000 OR PTE_V else 0),
        0x80112000 \<mapsto> PT system_tab],
      page_refs = (\<lambda>_. 1),
      kmem = Some [0x80105000, 0x80106000, 0x80107000, 0x80108000, 0x80109000, 0x8010A000]\<rparr>"

lemma users_ram:
  "ram_page 0x80103000" "ram_page 0x80104000" "ram_page 0x80100000" "ram_page 0x80101000" "ram_page 0x80102000"
  "ram_page 0x80110000" "ram_page 0x80111000" "ram_page 0x80112000"
  by (simp_all add: ram_page_def page_aligned_def)

lemma users_refs: "refs example_users p = 1"
  by (simp add: refs_def example_users_def)

lemma users_mem_inv: "mem_inv list_live example_users"
  using users_ram users_refs by (simp add: mem_inv_def example_users_def list_live_def)

lemma users_tables:
  "top_tables example_users 0x80100000 user_tab" "top_tables example_users 0x80110000 system_tab"
  using users_ram by (simp_all add: top_tables_def example_users_def fun_eq_iff)

lemma tab_entries:
  "is_v (pa_to_pte p OR 23)" "is_r (pa_to_pte p OR 23)" "is_u (pa_to_pte p OR 23)" "is_w (pa_to_pte p OR 23)" "\<not> is_cow (pa_to_pte p OR 23)"
  "is_v (pa_to_pte p OR 275)" "is_r (pa_to_pte p OR 275)" "is_u (pa_to_pte p OR 275)" "\<not> is_w (pa_to_pte p OR 275)" "is_cow (pa_to_pte p OR 275)"
  "is_v (pa_to_pte p OR 11)" "is_r (pa_to_pte p OR 11)" "\<not> is_u (pa_to_pte p OR 11)" "\<not> is_cow (pa_to_pte p OR 11)"
  "is_v (pa_to_pte p OR 7)" "is_r (pa_to_pte p OR 7)" "\<not> is_u (pa_to_pte p OR 7)" "\<not> is_cow (pa_to_pte p OR 7)"
  "\<not> is_v 0"
  by (simp_all add: is_r_def pte_bits pa_to_pte_def bit_simps)

lemma tab_pages:
  "pte_to_pa (pa_to_pte 0x80103000 OR 23) = 0x80103000" "pte_to_pa (pa_to_pte 0x80104000 OR 275) = 0x80104000"
  using entry_pa [OF users_ram(1), of 23] entry_pa [OF users_ram(2), of 275] by (simp_all add: word_less_nat_alt)

lemma top_page:
  assumes "v < NPAGES"
  shows "v div 512 = 131071 \<longleftrightarrow> 67108352 \<le> v" "67108352 \<le> v \<Longrightarrow> v mod 512 = v - 67108352"
proof -
  show "v div 512 = 131071 \<longleftrightarrow> 67108352 \<le> v"
  proof
    assume "v div 512 = 131071"
    then show "67108352 \<le> v" using div_mult_mod_eq [of v 512, symmetric] by linarith
  qed (use assms in \<open>simp add: NPAGES_def div_nat_eqI\<close>)
  assume "67108352 \<le> v"
  then obtain j where j: "v = 131071 * 512 + j" using le_Suc_ex by fastforce
  then have "v mod 512 = j mod 512" by (simp only: mod_mult_self3)
  then show "v mod 512 = v - 67108352" using j assms by (simp add: NPAGES_def)
qed

lemma users_ptes:
  assumes "v < NPAGES"
  shows "pte example_users 0x80100000 v = (if 67108352 \<le> v then user_tab (v - 67108352) else 0)"
    "pte example_users 0x80110000 v = (if 67108352 \<le> v then system_tab (v - 67108352) else 0)"
  using top_page [OF assms] top_tables_tree(3) [OF users_tables(1) assms] top_tables_tree(3) [OF users_tables(2) assms] by simp_all

lemma users_pages: "rd_page example_users p \<noteq> None \<longleftrightarrow> p = 0x80103000 \<or> p = 0x80104000"
  by (auto simp: rd_page_def example_users_def split: if_splits)

lemma users_mappings:
  "mappings example_users {0x80100000, 0x80110000} 0x80103000 = {(0x80100000, 67108861)}"
  "mappings example_users {0x80100000, 0x80110000} 0x80104000 = {(0x80100000, 67108859)}"
  unfolding mappings_def
  by (auto simp: users_ptes USERPAGES_less tab_entries tab_pages user_tab_def system_tab_def USERPAGES_def NPAGES_def split: if_splits)

lemma users_space: "space_inv list_live example_users {0x80100000, 0x80110000}"
proof -
  have "nodes example_users 2 0x80100000 \<inter> nodes example_users 2 0x80110000 = {}"
    by (rule subset_empty [THEN iffD1], rule subset_trans,
        rule Int_mono [OF top_tables_tree(2) [OF users_tables(1)] top_tables_tree(2) [OF users_tables(2)]]) simp
  then have "tables_ok example_users {0x80100000, 0x80110000}"
    using top_tables_tree(1) [OF users_tables(1)] top_tables_tree(1) [OF users_tables(2)] by (auto simp: tables_ok_def)
  moreover have "counts_ok example_users {0x80100000, 0x80110000}"
    by (auto simp: counts_ok_def users_pages [simplified] users_refs users_mappings)
  moreover have "entry_ok example_users v (pte example_users r v)" if "r \<in> {0x80100000, 0x80110000}" "v < NPAGES" for r v
    using that users_pages
    by (auto simp: entry_ok_def users_ptes user_tab_def system_tab_def tab_entries tab_pages users_refs USERPAGES_def NPAGES_def
        split: if_splits)
  then have "entries_ok example_users {0x80100000, 0x80110000}" by (simp add: entries_ok_def)
  ultimately show ?thesis using users_mem_inv by (simp add: space_inv_def)
qed

end
