(* ===== verification/Vm_Fault.thy ===== *)
theory Vm_Fault
  imports Vm_Space
begin

unbundle bit_operations_syntax

text \<open>
  Page faults and copies between kernel and user space.  \<open>vmfault\<close> resolves lazy pages and
  copy-on-write pages without changing what any process sees; \<open>copy_from\<close> returns what the process
  sees, and \<open>copy_to\<close> overwrites exactly the given range of writable user memory.
\<close>

section \<open>Writing to a data page\<close>

definition tables_kept :: "'b Mem \<Rightarrow> 'b Mem \<Rightarrow> bool" where
  "tables_kept m m' \<longleftrightarrow> (\<forall>q t. frames m q = Some (PT t) \<longrightarrow> frames m' q = Some (PT t))"

lemma tables_keptD:
  assumes "tables_ok m R" "tables_kept m m'"
  shows "tables_ok m' R" "r \<in> R \<Longrightarrow> pte m' r v = pte m r v" "r \<in> R \<Longrightarrow> slot m' 2 r va = slot m 2 r va"
    "same_ptes R m m'" "r \<in> R \<Longrightarrow> tree m' 2 r"
proof -
  have "\<And>q t. frames m q = Some (PT t) \<Longrightarrow> frames m' q = Some (PT t)" using assms(2) by (simp add: tables_kept_def)
  note D = data_change [OF assms(1) this]
  show t: "tables_ok m' R" using D(1) by simp
  show p: "pte m' r v = pte m r v" if "r \<in> R" for r v using that D(2) by simp
  show "r \<in> R \<Longrightarrow> slot m' 2 r va = slot m 2 r va" using D(3) by simp
  show "same_ptes R m m'" by (simp add: same_ptes_def p)
  show "r \<in> R \<Longrightarrow> tree m' 2 r" using t by (simp add: tables_ok_def)
qed

lemma wr_page_spec:
  assumes "mem_inv live m" "rd_page m p = Some d"
  obtains m' where "wr_page p off bs m = Some m'" "mem_inv live m'" "refs m' = refs m"
    "tables_kept m m'"
    "\<And>q. rd_page m' q = (if q = p then Some (\<lambda>i. if off \<le> i \<and> i < off + length bs then bs ! (i - off) else d i)
                          else rd_page m q)"
proof
  let ?m' = "m\<lparr>frames := (frames m)(p \<mapsto>
       Pg (\<lambda>i. if off \<le> i \<and> i < off + length bs then bs ! (i - off) else d i))\<rparr>"
  show "wr_page p off bs m = Some ?m'" using assms(2) by (simp add: wr_page_def)
  have p: "p \<in> dom (frames m)" using rd_page_frames [of m p] assms(2) by auto
  then show "mem_inv live ?m'" using assms(1) by (simp add: mem_inv_def insert_absorb)
  show "refs ?m' = refs m" by (simp add: fun_eq_iff)
  show "tables_kept m ?m'" using assms(2) by (auto simp: rd_page_def tables_kept_def)
  show "rd_page ?m' q = (if q = p then Some (\<lambda>i. if off \<le> i \<and> i < off + length bs then bs ! (i - off) else d i)
                          else rd_page m q)" for q
    by (simp add: rd_page_def)
qed

section \<open>Copy-on-write faults\<close>

lemma vmfault_cow_spec:
  assumes B: "buddy_ok B live" and I: "space_inv live m R" and r: "r \<in> R" and va: "va < MAXVA"
    and s: "slot m 2 r va = Some s" and e: "is_v (pte m r (vpn va))" "is_cow (pte m r (vpn va))"
  obtains (fail) m' where "vmfault_cow B s (pte m r (vpn va)) m = Some (Err VmAlloc, m')" "space_inv live m' R"
      "same_ptes R m m'" "\<And>q. rd_page m' q = rd_page m q"
  | (ok) p d m' where "vmfault_cow B s (pte m r (vpn va)) m = Some (Ok p, m')" "space_inv live m' R" "ram_page p"
      "rd_page m p = None" "rd_page m (pte_to_pa (pte m r (vpn va))) = Some d"
      "rd_page m' p = Some (\<lambda>i. if i < 4096 then d i else 0)"
      "\<And>q. rd_page m q \<noteq> None \<Longrightarrow>
         rd_page m' q = (if q = pte_to_pa (pte m r (vpn va)) \<and> refs m q = 1 then None else rd_page m q)"
      "\<And>r' v. r' \<in> R \<Longrightarrow> v < NPAGES \<Longrightarrow>
         pte m' r' v = (if r' = r \<and> v = vpn va then cow_entry p (pte m r (vpn va)) else pte m r' v)"
proof -
  let ?v = "vpn va" let ?e = "pte m r (vpn va)" let ?old = "pte_to_pa (pte m r (vpn va))"
  have vN: "?v < NPAGES" using vpn_less [OF va] .
  have ent: "entry_ok m ?v ?e" using space_invD(7) [OF I r vN] .
  then have vU: "?v < USERPAGES" using e by (auto simp: entry_ok_def split: if_splits)
  then have readable: "is_r ?e" using ent e by (simp add: entry_ok_def)
  from vU ent e obtain d where d: "rd_page m ?old = Some d" by (auto simp: entry_ok_def)
  show ?thesis
  proof (rule box_new_spec [OF B space_invD(1) [OF I], of zeroed_page])
    fix m1 assume f: "box_new B zeroed_page m = Some (None, m1)" "mem_inv live m1" "frames m1 = frames m" "refs m1 = refs m"
    from f(1) have "vmfault_cow B s ?e m = Some (Err VmAlloc, m1)" by (simp add: vmfault_cow_def)
    then show ?thesis by (rule fail [OF _ space_inv_quiet [OF I f(2-4)]])
  next
    fix p m1
    assume n: "box_new B zeroed_page m = Some (Some p, m1)" "mem_inv live m1" "ram_page p" "frames m p = None"
      "frames m1 = (frames m)(p \<mapsto> zeroed_page)" "refs m1 p = 1" "\<And>q. ram_page q \<Longrightarrow> q \<noteq> p \<Longrightarrow> refs m1 q = refs m q"
    have n7: "\<forall>q. ram_page q \<and> q \<noteq> p \<longrightarrow> refs m1 q = refs m q" using n(7) by simp
    note F = fresh_page [OF I n(4,5,2) n7]
    have neq: "?old \<noteq> p" using d F(5) by auto
    have d1: "rd_page m1 ?old = Some d" using F(3) [OF neq] d by simp
    let ?new = "\<lambda>i. if 0 \<le> i \<and> i < 0 + length (map d [0..<4096]) then map d [0..<4096] ! (i - 0) else 0"
    have new: "?new = (\<lambda>i. if i < 4096 then d i else 0)" by (auto simp: fun_eq_iff)
    show ?thesis
    proof (rule wr_page_spec [OF n(2) F(4), of 0 "map d [0..<4096]"])
      fix m2
      assume m2: "wr_page p 0 (map d [0..<4096]) m1 = Some m2" "mem_inv live m2" "refs m2 = refs m1"
        "tables_kept m1 m2"
        "\<And>q. rd_page m2 q = (if q = p then Some ?new else rd_page m1 q)"
      have "tables_kept m m1" using n(4,5) by (auto simp: tables_kept_def)
      then have pt: "tables_kept m m2" using m2(4) by (simp add: tables_kept_def)
      note D = tables_keptD [OF space_invD(2) [OF I] pt]
      have T2: "tree m2 2 r" using D(5) [OF r] .
      have s2: "slot m2 2 r va = Some s" using D(3) [OF r] s by simp
      show ?thesis
      proof (rule write_pte [OF T2 va s2 m2(2), of "cow_entry p ?e"])
        fix m3
        assume m3: "wr_table (fst s) (snd s) (cow_entry p ?e) m2 = Some m3" "mem_inv live m3"
          "updates m2 r m3 ((pte m2 r)(?v := cow_entry p ?e))" "slot m3 2 r va = Some s" "refs m3 = refs m2"
        note U = updates_rest [OF D(1) r m3(3)]
        have ptes3: "pte m3 r' v = (if r' = r \<and> v = ?v then cow_entry p ?e else pte m r' v)"
          if "r' \<in> R" "v < NPAGES" for r' v
          using U(2) [OF that(1), of v] updatesD(5) [OF m3(3) that(2)] D(2) [OF that(1)] D(2) [OF r] by (cases "r' = r") auto
        have rd3: "rd_page m3 q = (if q = p then Some ?new else rd_page m1 q)" for q using U(3) m2(5) by simp
        have old3: "rd_page m3 ?old = Some d" using rd3 neq d1 by simp
        then have fr3: "frames m3 ?old \<noteq> None" using rd_page_frames [of m3] by simp
        show ?thesis
        proof (rule box_drop_spec [OF B m3(2) fr3])
          fix m4
          assume m4: "box_drop B ?old m3 = Some m4" "mem_inv live m4"
            "frames m4 = (if refs m3 ?old = 1 then (frames m3)(?old := None) else frames m3)"
            "refs m4 ?old = refs m3 ?old - 1" "\<And>q. ram_page q \<Longrightarrow> q \<noteq> ?old \<Longrightarrow> refs m4 q = refs m3 q"
          have run: "vmfault_cow B s ?e m = Some (Ok p, m4)"
            using n(1) d1 m2(1) m3(1) m4(1) by (simp add: vmfault_cow_def cow_entry_def)
          have r3: "refs m3 q = refs m q" if "rd_page m q \<noteq> None" for q
            using F(6) [OF that] m2(3) m3(5) by simp
          have pt4: "tables_kept m3 m4" using old3 m4(3) by (auto simp: rd_page_def tables_kept_def)
          note D4 = tables_keptD [OF U(1) pt4]
          have rd4: "rd_page m4 q = (if q = ?old \<and> refs m ?old = 1 then None else rd_page m3 q)" for q
            using m4(3) r3 [of ?old] d by (simp add: rd_page_def)
          have rd4': "rd_page m4 q = (if q = ?old \<and> refs m ?old = 1 then None else rd_page m q)"
            if "rd_page m q \<noteq> None" for q
          proof -
            have "q \<noteq> p" using that F(5) by auto
            then show ?thesis using rd4 rd3 F(3) by simp
          qed
          have new4: "rd_page m4 p = Some ?new" using rd4 rd3 neq by simp
          have ptes: "pte m4 r' v = (if r' = r \<and> v = ?v then cow_entry p ?e else pte m r' v)"
            if "r' \<in> R" "v < NPAGES" for r' v
            using D4(2) [OF that(1)] ptes3 [OF that] by simp
          note ce = cow_entry_facts [OF n(3), of ?e]
          have ram: "ram_page q" if "rd_page m3 q \<noteq> None" for q
            using rd_page_frames [OF that] m3(2) by (auto simp: mem_inv_def)
          have sp: "space_inv live m4 R"
          proof (rule space_inv_replace [OF I r vU e(1) refl m4(2) D4(1) ptes])
            show "is_r (cow_entry p ?e) \<and> rd_page m (pte_to_pa (cow_entry p ?e)) = None \<and>
              rd_page m4 (pte_to_pa (cow_entry p ?e)) \<noteq> None \<and> refs m4 (pte_to_pa (cow_entry p ?e)) = 1"
              using ce F(5) new4 m4(5) [OF n(3)] neq m3(5) m2(3) n(6) readable by simp
            fix q
            show "rd_page m q \<noteq> None \<Longrightarrow> rd_page m4 q = (if q = ?old \<and> refs m ?old = 1 then None else rd_page m q)"
              by (rule rd4')
            show "refs m4 q = (if q = ?old then refs m q - 1 else refs m q)" if q: "rd_page m q \<noteq> None"
            proof (cases "q = ?old")
              case False
              have "rd_page m3 q \<noteq> None" using q rd3 F(3) by auto
              from m4(5) [OF ram [OF this] False] False r3 [OF q] show ?thesis by simp
            qed (use m4(4) r3 [OF q] in simp)
            assume "rd_page m q = None" "rd_page m4 q \<noteq> None"
            then have "q = p" using rd4 [of q] rd3 [of q] F(3) [of q] by (auto split: if_splits)
            then show "is_v (cow_entry p ?e) \<and> q = pte_to_pa (cow_entry p ?e)" using ce e by simp
          qed
          show ?thesis
            by (rule ok [OF run sp n(3) F(5) d _ _ ptes]) (use new4 new rd4' in auto)
        qed
      qed
    qed
  qed
qed

section \<open>Views\<close>

lemma pg_round_down_vpn: "vpn a = vpn b \<Longrightarrow> pg_round_down a = pg_round_down b"
  by (simp add: word_unat_eq_iff unat_pg_round_down vpn_def)

lemma vpn_round_down [simp]: "vpn (pg_round_down a) = vpn a"
  by (simp add: vpn_def unat_pg_round_down)

lemma peek_high: "MAXVA \<le> a \<Longrightarrow> peek m r n a = None"
  by (simp add: peek_def)

lemma user_entry_data:
  assumes "space_inv live m R" "r \<in> R" "v < NPAGES" "is_v (pte m r v)" "is_u (pte m r v)"
  shows "v < USERPAGES" "rd_page m (pte_to_pa (pte m r v)) \<noteq> None"
  using space_invD(7) [OF assms(1-3)] assms(4,5) by (auto simp: entry_ok_def split: if_splits)

lemma pokeable_entry:
  assumes "r \<in> R" and pte: "\<And>r' v'. r' \<in> R \<Longrightarrow> v' < NPAGES \<Longrightarrow> pte m' r' v' = (if r' = r \<and> v' = v then e else pte m r' v')"
    and e: "is_v e" "is_w e" "is_v (pte m r v) \<Longrightarrow> is_u (pte m r v) \<Longrightarrow> is_u e" "\<not> is_v (pte m r v) \<Longrightarrow> is_u e"
  shows "pokeable m r sz x \<longrightarrow> pokeable m' r sz x"
proof (cases "x < MAXVA")
  case True
  then show ?thesis using pte [OF assms(1) vpn_less [OF True]] e by (auto simp: pokeable_def Let_def)
qed (simp add: pokeable_def)

lemma pokeable_same:
  assumes "r \<in> R" "same_ptes R m m'"
  shows "pokeable m r sz x \<longrightarrow> pokeable m' r sz x"
proof (cases "x < MAXVA")
  case True
  then show ?thesis using same_ptesD [OF assms(2,1) vpn_less [OF True]] by (simp add: pokeable_def)
qed (simp add: pokeable_def)

text \<open>A step that changes one entry leaves every other page of every process as it was.\<close>

lemma peek_elsewhere:
  assumes I: "space_inv live m R" "space_inv live m' R" and r': "r' \<in> R"
    and pte: "pte m' r' (vpn a) = pte m r' (vpn a)"
    and data: "\<And>q. rd_page m q \<noteq> None \<Longrightarrow> rd_page m' q \<noteq> None \<Longrightarrow> rd_page m' q = rd_page m q"
  shows "peek m' r' n a = peek m r' n a"
proof (cases "a < MAXVA \<and> is_v (pte m r' (vpn a)) \<and> is_u (pte m r' (vpn a))")
  case True
  then have v: "vpn a < NPAGES" by (simp add: vpn_less)
  have "rd_page m (pte_to_pa (pte m r' (vpn a))) \<noteq> None" "rd_page m' (pte_to_pa (pte m r' (vpn a))) \<noteq> None"
    using user_entry_data(2) [OF I(1) r' v] user_entry_data(2) [OF I(2) r' v] True pte by simp_all
  from data [OF this] pte show ?thesis by (simp add: peek_def Let_def)
qed (use pte in \<open>auto simp: peek_def Let_def not_less\<close>)

definition same_views :: "usize set \<Rightarrow> usize \<Rightarrow> usize \<Rightarrow> 'b Mem \<Rightarrow> 'b Mem \<Rightarrow> bool" where
  "same_views R r sz m m' \<longleftrightarrow>
     (\<forall>r' \<in> R. \<forall>n a. r' \<noteq> r \<or> n = sz \<longrightarrow> peek m' r' n a = peek m r' n a)"

lemma same_viewsD: "same_views R r sz m m' \<Longrightarrow> r' \<in> R \<Longrightarrow> r' \<noteq> r \<or> n = sz \<Longrightarrow> peek m' r' n a = peek m r' n a"
  by (simp add: same_views_def)

lemma same_views_refl [simp]: "same_views R r sz m m"
  by (simp add: same_views_def)

lemma same_views_trans: "same_views R r sz m m1 \<Longrightarrow> same_views R r sz m1 m2 \<Longrightarrow> same_views R r sz m m2"
  by (simp add: same_views_def)

lemma same_views_quiet:
  assumes "same_ptes R m m'" "\<And>q. rd_page m' q = rd_page m q"
  shows "same_views R r sz m m'"
  unfolding same_views_def using peek_cong [of m' _ m] same_ptesD [OF assms(1)] assms(2) by blast

lemma same_views_entry:
  assumes I: "space_inv live m R" "space_inv live m' R" and r: "r \<in> R"
    and pte: "\<And>r' v'. r' \<in> R \<Longrightarrow> v' < NPAGES \<Longrightarrow> pte m' r' v' = (if r' = r \<and> v' = v then e else pte m r' v')"
    and data: "\<And>q. rd_page m q \<noteq> None \<Longrightarrow> rd_page m' q \<noteq> None \<Longrightarrow> rd_page m' q = rd_page m q"
    and here: "\<And>a. a < MAXVA \<Longrightarrow> vpn a = v \<Longrightarrow> peek m' r sz a = peek m r sz a"
  shows "same_views R r sz m m'"
  unfolding same_views_def
proof (intro ballI allI impI)
  fix r' n a assume r': "r' \<in> R" and n: "r' \<noteq> r \<or> n = sz"
  show "peek m' r' n a = peek m r' n a"
  proof (cases "a < MAXVA")
    case False
    then show ?thesis by (simp add: peek_def not_less)
  next
    case a: True
    show ?thesis
    proof (cases "r' = r \<and> vpn a = v")
      case True
      with n here a show ?thesis by simp
    next
      case False
      have "pte m' r' (vpn a) = pte m r' (vpn a)" using pte [OF r' vpn_less [OF a]] False by auto
      from peek_elsewhere [OF I r' this data] show ?thesis by simp
    qed
  qed
qed

lemma vmfault_spec:
  assumes "buddy_ok B live" "space_inv live m R" "r \<in> R" "sz \<le> MAXVA"
  shows "\<exists>res m'. vmfault B r sz va m = Some (res, m') \<and> space_inv live m' R \<and> same_views R r sz m m' \<and>
    (\<forall>x. pokeable m r sz x \<longrightarrow> pokeable m' r sz x) \<and>
    (case res of
       Err e \<Rightarrow> e = VmAlloc \<and> va < sz \<and> same_ptes R m m' \<or>
         e = VmInvalidAddress \<and> m' = m \<and> (sz \<le> va \<or> is_v (pte m r (vpn va)) \<and> \<not> is_cow (pte m r (vpn va)))
     | Ok p \<Rightarrow> va < sz \<and> is_v (pte m' r (vpn va)) \<and> is_w (pte m' r (vpn va)) \<and>
         pte_to_pa (pte m' r (vpn va)) = p \<and> refs m' p = 1 \<and> rd_page m' p \<noteq> None \<and> vpn va < USERPAGES)"
proof (cases "va < sz")
  case False
  then show ?thesis using assms(2) by (simp add: vmfault_def not_less)
next
  case lt: True
  let ?va = "pg_round_down va" let ?e = "pte m r (vpn va)"
  have va: "?va < MAXVA" using lt assms(4) pg_round_down_le [of va] by (metis order_le_less_trans order_less_le_trans)
  have vN: "vpn va < NPAGES" using vpn_less [OF va] by simp
  have al: "page_aligned ?va" by (simp add: page_aligned_unat unat_pg_round_down)
  note T = space_invD(6) [OF assms(2,3)]
  have nle: "\<not> sz \<le> va" using lt by simp
  show ?thesis
  proof (cases "is_v ?e")
    case True
    with va obtain s where s: "walk_raw B r ?va False m = Some (Ok s, m)" "rd_slot m s = Some ?e" "slot m 2 r ?va = Some s"
      by (cases rule: walk_read_pte [OF T va, of B]) (simp_all add: is_v_def)
    have run: "vmfault B r sz va m = (if is_cow ?e then vmfault_cow B s ?e m else Some (Err VmInvalidAddress, m))"
      using nle True s by (simp add: vmfault_def)
    show ?thesis
    proof (cases "is_cow ?e")
      case False
      with run True assms(2) show ?thesis by simp
    next
      case cow: True
      show ?thesis
      proof (rule vmfault_cow_spec [OF assms(1-3) va s(3), unfolded vpn_round_down, OF True cow])
        fix m' assume f: "vmfault_cow B s ?e m = Some (Err VmAlloc, m')" "space_inv live m' R" "same_ptes R m m'"
          "\<And>q. rd_page m' q = rd_page m q"
        with run cow lt same_views_quiet [OF f(3,4)] pokeable_same [OF assms(3) f(3)] show ?thesis by simp
      next
        fix p d m'
        assume k: "vmfault_cow B s ?e m = Some (Ok p, m')" "space_inv live m' R" "ram_page p"
          "rd_page m p = None" "rd_page m (pte_to_pa ?e) = Some d"
          "rd_page m' p = Some (\<lambda>i. if i < 4096 then d i else 0)"
          "\<And>q. rd_page m q \<noteq> None \<Longrightarrow>
             rd_page m' q = (if q = pte_to_pa ?e \<and> refs m q = 1 then None else rd_page m q)"
          "\<And>r' v. r' \<in> R \<Longrightarrow> v < NPAGES \<Longrightarrow>
             pte m' r' v = (if r' = r \<and> v = vpn va then cow_entry p ?e else pte m r' v)"
        note ce = cow_entry_facts [OF k(3), of ?e]
        have e': "pte m' r (vpn va) = cow_entry p ?e" using k(8) [OF assms(3) vN] by simp
        have "same_views R r sz m m'"
        proof (rule same_views_entry [OF assms(2) k(2) assms(3) k(8)])
          show "rd_page m q \<noteq> None \<Longrightarrow> rd_page m' q \<noteq> None \<Longrightarrow> rd_page m' q = rd_page m q" for q
            using k(7) [of q] by (auto split: if_splits)
          show "peek m' r sz a = peek m r sz a" if "vpn a = vpn va" for a
            using that e' ce True k(5,6) by (simp add: peek_def Let_def)
        qed
        moreover have "\<forall>x. pokeable m r sz x \<longrightarrow> pokeable m' r sz x"
          using pokeable_entry [OF assms(3) k(8)] ce True by blast
        moreover have "refs m' p = 1" "vpn va < USERPAGES"
          using space_invD(7) [OF k(2) assms(3) vN] space_invD(7) [OF assms(2,3) vN] cow e' ce True
          by (auto simp: entry_ok_def split: if_splits)
        ultimately show ?thesis using run cow lt k(1,2,6) e' ce True by simp
      qed
    qed
  next
    case False
    have run: "vmfault B r sz va m = vmfault_lazy B r ?va m"
      using nle False by (cases rule: walk_read_pte [OF T va, of B]) (simp_all add: vmfault_def)
    show ?thesis
    proof (rule vmfault_lazy_spec [OF assms(1-3) va al, unfolded vpn_round_down, OF False])
      fix m' assume f: "vmfault_lazy B r ?va m = Some (Err VmAlloc, m')" "space_inv live m' R" "same_ptes R m m'"
        "\<And>q. rd_page m' q = rd_page m q"
      with run lt same_views_quiet [OF f(3,4)] pokeable_same [OF assms(3) f(3)] show ?thesis by simp
    next
      fix p m'
      assume k: "vmfault_lazy B r ?va m = Some (Ok p, m')" "space_inv live m' R" "ram_page p" "rd_page m p = None"
        "rd_page m' p = Some (\<lambda>_. 0)" "\<And>q. q \<noteq> p \<Longrightarrow> rd_page m' q = rd_page m q"
        "\<And>r' v. r' \<in> R \<Longrightarrow> v < NPAGES \<Longrightarrow>
           pte m' r' v = (if r' = r \<and> v = vpn va then pa_to_pte p OR 23 else pte m r' v)"
      let ?n = "pa_to_pte p OR 23 :: usize"
      have e': "pte m' r (vpn va) = ?n" using k(7) [OF assms(3) vN] by simp
      have ev: "is_v ?n" "is_u ?n" "is_w ?n" "pte_to_pa ?n = p"
        using entry_pa [OF k(3), of 23] by (simp_all add: pte_bits entry_bits word_less_nat_alt bit_simps)
      have "same_views R r sz m m'"
      proof (rule same_views_entry [OF assms(2) k(2) assms(3) k(7)])
        show "rd_page m q \<noteq> None \<Longrightarrow> rd_page m' q \<noteq> None \<Longrightarrow> rd_page m' q = rd_page m q" for q
          using k(4,6) by (cases "q = p") auto
        show "peek m' r sz a = peek m r sz a" if a: "a < MAXVA" "vpn a = vpn va" for a
        proof -
          have "pg_round_down a < sz" using pg_round_down_vpn [OF a(2)] pg_round_down_le [of va] lt by simp
          then show ?thesis using a e' ev False k(5) by (simp add: peek_def Let_def not_le)
        qed
      qed
      moreover have "\<forall>x. pokeable m r sz x \<longrightarrow> pokeable m' r sz x"
        using pokeable_entry [OF assms(3) k(7)] ev by blast
      moreover have "vpn va < USERPAGES" using user_entry_data(1) [OF k(2) assms(3) vN] e' ev by simp
      moreover from this have "refs m' p = 1" using space_invD(7) [OF k(2) assms(3) vN] e' ev by (simp add: entry_ok_def)
      ultimately show ?thesis using run lt k(1,2,5) e' ev by simp
    qed
  qed
qed

text \<open>
  Property C9.  A page fault is invisible: \<open>vmfault\<close> always returns, keeps the invariant of all
  address spaces, changes no byte any process can see and takes no write permission away.  It succeeds only below the process size
  on a page that is absent or copy-on-write; then the page is mapped writable, unshared, at the
  returned physical address.  Every other outcome is running out of memory, or an invalid-address
  error with memory untouched.
\<close>

theorem vmfault_transparent:
  assumes "buddy_ok B live" "space_inv live m R" "r \<in> R" "sz \<le> MAXVA"
  shows "\<exists>res m'. vmfault B r sz va m = Some (res, m') \<and> space_inv live m' R \<and> same_views R r sz m m' \<and>
    (\<forall>x. pokeable m r sz x \<longrightarrow> pokeable m' r sz x) \<and>
    (case res of
       Err e \<Rightarrow> e = VmAlloc \<and> va < sz \<and> same_ptes R m m' \<or>
         e = VmInvalidAddress \<and> m' = m \<and> (sz \<le> va \<or> is_v (pte m r (vpn va)) \<and> \<not> is_cow (pte m r (vpn va)))
     | Ok p \<Rightarrow> va < sz \<and> is_v (pte m' r (vpn va)) \<and> is_w (pte m' r (vpn va)) \<and>
         pte_to_pa (pte m' r (vpn va)) = p \<and> refs m' p = 1 \<and> rd_page m' p \<noteq> None \<and> vpn va < USERPAGES)"
  by (rule vmfault_spec [OF assms])

section \<open>Copying from user space\<close>

lemma page_byte:
  assumes "page_aligned a" "i < 4096"
  shows "unat (a + word_of_nat i) = unat a + i" "vpn (a + word_of_nat i) = vpn a" "pg_round_down (a + word_of_nat i) = a"
    "unat (a + word_of_nat i) mod 4096 = i" "a + word_of_nat i < MAXVA \<longleftrightarrow> a < MAXVA"
proof -
  have al: "unat a mod 4096 = 0" using assms(1) by (simp add: page_aligned_unat)
  then obtain k where k: "unat a = 4096 * k" by (auto simp: mod_eq_0_iff_dvd elim: dvdE)
  with unat_usize_less [of a] have kl: "k < 2 ^ 52" by simp
  show u: "unat (a + word_of_nat i) = unat a + i"
    using k kl assms(2) by (simp add: unat_word_ariths unat_of_nat)
  show "vpn (a + word_of_nat i) = vpn a" using k assms(2) by (simp add: vpn_def u)
  show "pg_round_down (a + word_of_nat i) = a" using k assms(2) by (simp add: word_unat_eq_iff unat_pg_round_down u)
  show "unat (a + word_of_nat i) mod 4096 = i" using k assms(2) by (simp add: u)
  show "a + word_of_nat i < MAXVA \<longleftrightarrow> a < MAXVA" using k assms(2) by (auto simp: word_less_nat_alt u)
qed

lemma peek_page:
  assumes "page_aligned a" "i < 4096"
  shows "peek m r sz (a + word_of_nat i) =
    (if a < MAXVA then
       if is_v (pte m r (vpn a)) then
         if is_u (pte m r (vpn a)) then map_option (\<lambda>d. d i) (rd_page m (pte_to_pa (pte m r (vpn a)))) else None
       else if a < sz then Some 0 else None
     else None)"
  using page_byte [OF assms] by (auto simp: peek_def Let_def not_le [symmetric] split: option.split)

lemma walk_addr_user:
  assumes "tree m 2 r"
  shows "\<exists>w. walk_addr B r a m = Some w \<and>
    (case w of Ok p \<Rightarrow> a < MAXVA \<and> is_v (pte m r (vpn a)) \<and> is_u (pte m r (vpn a)) \<and> p = pte_to_pa (pte m r (vpn a))
     | Err _ \<Rightarrow> MAXVA \<le> a \<or> \<not> is_v (pte m r (vpn a)) \<or> \<not> is_u (pte m r (vpn a)))"
proof (cases "a < MAXVA")
  case True
  from walk_pte [OF assms True, of B] obtain w where "walk B r a m = Some w"
    "case w of Ok e \<Rightarrow> e = pte m r (vpn a) | Err _ \<Rightarrow> pte m r (vpn a) = 0" by blast
  then show ?thesis using True by (cases w) (auto simp: walk_addr_def is_v_def)
next
  case False
  then show ?thesis using assms by (auto simp: walk_addr_def walk_def walk_raw_def)
qed

text \<open>\<open>user_page\<close> finds the page behind an address, with the contents the process sees.\<close>

lemma user_page_spec:
  assumes B: "buddy_ok B live" and I: "space_inv live m R" and r: "r \<in> R" and sz: "sz \<le> MAXVA" and a: "page_aligned a"
  shows "\<exists>res m'. user_page B r sz a m = Some (res, m') \<and> space_inv live m' R \<and> same_views R r sz m m' \<and>
    (\<forall>x. pokeable m r sz x \<longrightarrow> pokeable m' r sz x) \<and>
    (case res of
       Ok p \<Rightarrow> a < MAXVA \<and> is_v (pte m' r (vpn a)) \<and> pte_to_pa (pte m' r (vpn a)) = p \<and> vpn a < USERPAGES \<and>
         (\<exists>d. rd_page m' p = Some d \<and> (\<forall>i < 4096. \<forall>b. peek m r sz (a + word_of_nat i) = Some b \<longrightarrow> d i = b)) \<and>
         (pokeable m r sz a \<longrightarrow> is_w (pte m' r (vpn a)))
     | Err e \<Rightarrow> e = VmAlloc \<or>
         e = VmInvalidAddress \<and> (\<forall>i < 4096. peek m r sz (a + word_of_nat i) = None) \<and> \<not> pokeable m r sz a)"
proof -
  note T = space_invD(6) [OF I r]
  from walk_addr_user [OF T, of B a] obtain w where w: "walk_addr B r a m = Some w" and
    wc: "case w of Ok p \<Rightarrow> a < MAXVA \<and> is_v (pte m r (vpn a)) \<and> is_u (pte m r (vpn a)) \<and> p = pte_to_pa (pte m r (vpn a))
     | Err _ \<Rightarrow> MAXVA \<le> a \<or> \<not> is_v (pte m r (vpn a)) \<or> \<not> is_u (pte m r (vpn a))" by blast
  show ?thesis
  proof (cases w)
    case (Ok p)
    with wc have e: "a < MAXVA" "is_v (pte m r (vpn a))" "is_u (pte m r (vpn a))" "p = pte_to_pa (pte m r (vpn a))" by simp_all
    have vN: "vpn a < NPAGES" using vpn_less [OF e(1)] .
    note D = user_entry_data [OF I r vN e(2,3)]
    have "pokeable m r sz a \<longrightarrow> is_w (pte m r (vpn a))" using e by (simp add: pokeable_def Let_def)
    then show ?thesis using w Ok e I D by (auto simp: user_page_def peek_page [OF a])
  next
    case (Err x)
    with wc have e: "MAXVA \<le> a \<or> \<not> is_v (pte m r (vpn a)) \<or> \<not> is_u (pte m r (vpn a))" by simp
    from vmfault_spec [OF B I r sz, of a] obtain res m' where
      v: "vmfault B r sz a m = Some (res, m')" "space_inv live m' R" "same_views R r sz m m'"
        "\<forall>x. pokeable m r sz x \<longrightarrow> pokeable m' r sz x"
      and c: "case res of
       Err e \<Rightarrow> e = VmAlloc \<and> a < sz \<and> same_ptes R m m' \<or>
         e = VmInvalidAddress \<and> m' = m \<and> (sz \<le> a \<or> is_v (pte m r (vpn a)) \<and> \<not> is_cow (pte m r (vpn a)))
     | Ok p \<Rightarrow> a < sz \<and> is_v (pte m' r (vpn a)) \<and> is_w (pte m' r (vpn a)) \<and>
         pte_to_pa (pte m' r (vpn a)) = p \<and> refs m' p = 1 \<and> rd_page m' p \<noteq> None \<and> vpn a < USERPAGES" by blast
    have run: "user_page B r sz a m = Some (res, m')" using w Err v(1) by (simp add: user_page_def)
    show ?thesis
    proof (cases res)
      case (Ok p)
      with c obtain d where d: "a < sz" "is_v (pte m' r (vpn a))" "is_w (pte m' r (vpn a))"
         "pte_to_pa (pte m' r (vpn a)) = p" "rd_page m' p = Some d" "vpn a < USERPAGES" by auto
      have "a < MAXVA" using d(1) sz by (rule order_less_le_trans)
      moreover have "d i = b" if "i < 4096" "peek m r sz (a + word_of_nat i) = Some b" for i b
        using that same_viewsD [OF v(3) r, of sz "a + word_of_nat i"] peek_page [OF a that(1), of m' r sz] d
        by (auto split: if_splits)
      ultimately show ?thesis using run v Ok d by auto
    next
      case (Err x)
      with c e have "x = VmAlloc \<or> x = VmInvalidAddress \<and> (MAXVA \<le> a \<or> sz \<le> a \<and> \<not> is_v (pte m r (vpn a)) \<or>
          is_v (pte m r (vpn a)) \<and> \<not> is_u (pte m r (vpn a)))" using sz by auto
      then have "x = VmAlloc \<or> x = VmInvalidAddress \<and> (\<forall>i < 4096. peek m r sz (a + word_of_nat i) = None) \<and> \<not> pokeable m r sz a"
        using page_byte(3) [OF a, of 0] by (auto simp: pokeable_def Let_def peek_page [OF a])
      with run v Err show ?thesis by simp
    qed
  qed
qed

lemma user_page_cases:
  assumes B: "buddy_ok B live" and I: "space_inv live m R" and r: "r \<in> R" and sz: "sz \<le> MAXVA" and a: "page_aligned a"
  obtains (fail) e m' where "user_page B r sz a m = Some (Err e, m')" "space_inv live m' R" "same_views R r sz m m'"
      "e = VmAlloc \<or> e = VmInvalidAddress \<and> (\<forall>i < 4096. peek m r sz (a + word_of_nat i) = None) \<and> \<not> pokeable m r sz a"
      "\<And>x. pokeable m r sz x \<Longrightarrow> pokeable m' r sz x"
  | (ok) p d m' where "user_page B r sz a m = Some (Ok p, m')" "space_inv live m' R" "same_views R r sz m m'"
      "\<And>x. pokeable m r sz x \<Longrightarrow> pokeable m' r sz x"
      "a < MAXVA" "vpn a < USERPAGES" "is_v (pte m' r (vpn a))" "pte_to_pa (pte m' r (vpn a)) = p" "rd_page m' p = Some d"
      "\<And>i b. i < 4096 \<Longrightarrow> peek m r sz (a + word_of_nat i) = Some b \<Longrightarrow> d i = b"
      "pokeable m r sz a \<Longrightarrow> is_w (pte m' r (vpn a))"
proof -
  from user_page_spec [OF assms] obtain x m1 where
    u: "user_page B r sz a m = Some (x, m1)" "space_inv live m1 R" "same_views R r sz m m1"
      "\<forall>x. pokeable m r sz x \<longrightarrow> pokeable m1 r sz x" and
    c: "case x of
     Ok p \<Rightarrow> a < MAXVA \<and> is_v (pte m1 r (vpn a)) \<and> pte_to_pa (pte m1 r (vpn a)) = p \<and> vpn a < USERPAGES \<and>
       (\<exists>d. rd_page m1 p = Some d \<and> (\<forall>i < 4096. \<forall>b. peek m r sz (a + word_of_nat i) = Some b \<longrightarrow> d i = b)) \<and>
       (pokeable m r sz a \<longrightarrow> is_w (pte m1 r (vpn a)))
   | Err e \<Rightarrow> e = VmAlloc \<or>
       e = VmInvalidAddress \<and> (\<forall>i < 4096. peek m r sz (a + word_of_nat i) = None) \<and> \<not> pokeable m r sz a" by blast
  show ?thesis
  proof (cases x)
    case (Err e)
    with u c show ?thesis by (intro fail [of e m1]) simp_all
  next
    case (Ok p)
    with c obtain d where "rd_page m1 p = Some d"
      "\<And>i b. i < 4096 \<Longrightarrow> peek m r sz (a + word_of_nat i) = Some b \<Longrightarrow> d i = b" by auto
    with u c Ok show ?thesis by (intro ok [of p m1 d]) simp_all
  qed
qed

lemma next_page_byte:
  assumes "off = unat (va - pg_round_down va)" "n = 4096 - off"
  shows "pg_round_down va + PGSIZE + word_of_nat i = va + word_of_nat (n + i)"
    "va + word_of_nat i = pg_round_down va + word_of_nat (off + i)"
proof -
  have off: "off < 4096" using page_offset_less assms(1) by simp
  have va: "va = pg_round_down va + word_of_nat off" using assms(1) by simp
  show "va + word_of_nat i = pg_round_down va + word_of_nat (off + i)" by (subst va) simp
  have "(word_of_nat off + word_of_nat n :: usize) = word_of_nat (off + n)" by simp
  also have "\<dots> = PGSIZE" using off assms(2) by simp
  finally show "pg_round_down va + PGSIZE + word_of_nat i = va + word_of_nat (n + i)"
    by (subst (2) va) (simp add: algebra_simps)
qed

lemma copy_from_spec:
  assumes B: "buddy_ok B live" and sz: "sz \<le> MAXVA" and r: "r \<in> R"
  shows "space_inv live m R \<Longrightarrow>
    \<exists>res m'. copy_from B r sz va len m = Some (res, m') \<and> space_inv live m' R \<and> same_views R r sz m m' \<and>
    (case res of
       Ok bs \<Rightarrow> length bs = len \<and> (\<forall>i < len. \<forall>b. peek m r sz (va + word_of_nat i) = Some b \<longrightarrow> bs ! i = b)
     | Err e \<Rightarrow> e = VmAlloc \<or> e = VmInvalidAddress \<and> (\<exists>i < len. peek m r sz (va + word_of_nat i) = None))"
proof (induction len arbitrary: va m rule: less_induct)
  case (less len)
  define a where "a = pg_round_down va"
  define off where "off = unat (va - pg_round_down va)"
  define n where "n = min (4096 - off) len"
  have off: "off < 4096" using page_offset_less off_def by simp
  have al: "page_aligned a" by (simp add: a_def)
  have here: "va + word_of_nat i = a + word_of_nat (off + i)" for i
    unfolding a_def by (rule next_page_byte(2) [OF off_def refl])
  have there: "a + PGSIZE + word_of_nat i = va + word_of_nat (n + i)" if "n < len" for i
    unfolding a_def by (rule next_page_byte(1) [OF off_def]) (use that n_def in linarith)
  show ?case
  proof (cases "len = 0")
    case True
    with less.prems show ?thesis by (simp add: copy_from.simps)
  next
    case False
    then have n: "0 < n" "n \<le> len" using off by (simp_all add: n_def)
    have run: "copy_from B r sz va len m = do {
        (x, m) \<leftarrow> user_page B r sz a m;
        case x of Err e \<Rightarrow> Some (Err e, m)
        | Ok p \<Rightarrow> do {
            d \<leftarrow> rd_page m p;
            (x, m) \<leftarrow> copy_from B r sz (a + PGSIZE) (len - n) m;
            Some (case x of Err e \<Rightarrow> Err e | Ok bs \<Rightarrow> Ok (map d [off..<off + n] @ bs), m) } }"
      unfolding a_def n_def off_def by (subst copy_from.simps) (simp only: False if_False Let_def)
    show ?thesis
    proof (rule user_page_cases [OF B less.prems r sz al])
      fix e m1
      assume u: "user_page B r sz a m = Some (Err e, m1)" "space_inv live m1 R" "same_views R r sz m m1"
        "e = VmAlloc \<or> e = VmInvalidAddress \<and> (\<forall>i < 4096. peek m r sz (a + word_of_nat i) = None) \<and> \<not> pokeable m r sz a"
      then have "e = VmAlloc \<or> e = VmInvalidAddress \<and> peek m r sz (va + word_of_nat 0) = None"
        unfolding here using off by auto
      then have "e = VmAlloc \<or> e = VmInvalidAddress \<and> (\<exists>i < len. peek m r sz (va + word_of_nat i) = None)"
        using False by blast
      with u run show ?thesis by simp
    next
      fix p d m1
      assume u: "user_page B r sz a m = Some (Ok p, m1)" "space_inv live m1 R" "same_views R r sz m m1"
        and d: "rd_page m1 p = Some d" "\<And>i b. i < 4096 \<Longrightarrow> peek m r sz (a + word_of_nat i) = Some b \<Longrightarrow> d i = b"
      from less.IH [OF _ u(2), of "len - n" "a + PGSIZE"] n obtain y m2 where
        IH: "copy_from B r sz (a + PGSIZE) (len - n) m1 = Some (y, m2)" "space_inv live m2 R" "same_views R r sz m1 m2" and
        yc: "case y of
           Ok bs \<Rightarrow> length bs = len - n \<and> (\<forall>i < len - n. \<forall>b. peek m1 r sz (a + PGSIZE + word_of_nat i) = Some b \<longrightarrow> bs ! i = b)
         | Err e \<Rightarrow> e = VmAlloc \<or> e = VmInvalidAddress \<and> (\<exists>i < len - n. peek m1 r sz (a + PGSIZE + word_of_nat i) = None)"
        by auto
      have pk: "peek m1 r sz (a + PGSIZE + word_of_nat i) = peek m r sz (va + word_of_nat (n + i))" if "i < len - n" for i
      proof -
        have "n < len" using that by simp
        from there [OF this] same_viewsD [OF u(3) r] show ?thesis by metis
      qed
      have run2: "copy_from B r sz va len m = Some (case y of Err e \<Rightarrow> Err e | Ok bs \<Rightarrow> Ok (map d [off..<off + n] @ bs), m2)"
        using run u(1) d(1) IH(1) by simp
      have v2: "same_views R r sz m m2" using same_views_trans [OF u(3) IH(3)] .
      show ?thesis
      proof (cases y)
        case (Err e)
        with yc pk have "e = VmAlloc \<or> e = VmInvalidAddress \<and> (\<exists>i < len. peek m r sz (va + word_of_nat i) = None)"
          by (auto simp: less_diff_conv add.commute)
        with run2 Err IH(2) v2 show ?thesis by simp
      next
        case (Ok bs)
        with yc have bs: "length bs = len - n"
          "\<And>i b. i < len - n \<Longrightarrow> peek m1 r sz (a + PGSIZE + word_of_nat i) = Some b \<Longrightarrow> bs ! i = b" by auto
        have "(map d [off..<off + n] @ bs) ! i = b" if i: "i < len" "peek m r sz (va + word_of_nat i) = Some b" for i b
        proof (cases "i < n")
          case True
          then have "off + i < 4096" using n_def by linarith
          from d(2) [OF this] i(2) True show ?thesis unfolding here by (simp add: nth_append)
        next
          case False
          with pk [of "i - n"] bs(2) [of "i - n" b] i show ?thesis by (simp add: nth_append)
        qed
        with run2 Ok IH(2) v2 bs(1) n show ?thesis by simp
      qed
    qed
  qed
qed

section \<open>Copying to user space\<close>

text \<open>Overwriting a range of a view; inaccessible bytes stay inaccessible.\<close>

definition poke :: "(usize \<Rightarrow> u8 option) \<Rightarrow> usize \<Rightarrow> u8 list \<Rightarrow> usize \<Rightarrow> u8 option" where
  "poke view va bs x =
     (if unat (x - va) < length bs \<and> view x \<noteq> None then Some (bs ! unat (x - va)) else view x)"

lemma poke_Nil [simp]: "poke view va [] = view"
  by (simp add: poke_def fun_eq_iff)

lemma poke_append:
  assumes "length bs + length cs < 2 ^ 64"
  shows "poke (poke view va bs) (va + word_of_nat (length bs)) cs = poke view va (bs @ cs)"
proof
  fix x
  let ?k = "unat (x - va)" let ?n = "length bs"
  have d: "x - (va + word_of_nat ?n) = (x - va) - word_of_nat ?n" by (simp add: algebra_simps)
  have n: "unat (word_of_nat ?n :: usize) = ?n" using assms by (simp add: unat_of_nat)
  show "poke (poke view va bs) (va + word_of_nat ?n) cs x = poke view va (bs @ cs) x"
  proof (cases "?n \<le> ?k")
    case True
    then have "unat (x - (va + word_of_nat ?n)) = ?k - ?n"
      unfolding d by (subst unat_sub) (simp_all add: word_le_nat_alt n)
    with True show ?thesis by (auto simp: poke_def nth_append)
  next
    case False
    have "unat (x - (va + word_of_nat ?n)) = 2 ^ 64 + ?k - ?n"
      using False assms unat_usize_less [of "x - va"] unfolding d
      by (subst unat_sub_if') (auto simp: n)
    then have "\<not> unat (x - (va + word_of_nat ?n)) < length cs" using assms by linarith
    with False show ?thesis by (simp add: poke_def nth_append)
  qed
qed

lemma poke_in_page:
  assumes "page_aligned a" "off + length bs \<le> 4096"
  shows "unat (x - (a + word_of_nat off)) < length bs \<longleftrightarrow>
      vpn x = vpn a \<and> off \<le> unat x mod 4096 \<and> unat x mod 4096 < off + length bs"
    "unat (x - (a + word_of_nat off)) < length bs \<Longrightarrow> unat (x - (a + word_of_nat off)) = unat x mod 4096 - off"
proof -
  let ?k = "unat (x - (a + word_of_nat off))"
  have fwd: "vpn x = vpn a \<and> unat x mod 4096 = off + ?k" if "?k < length bs"
  proof -
    define k where "k = ?k"
    have x: "x = a + word_of_nat (off + k)" by (simp add: k_def)
    have "off + k < 4096" using that assms(2) by (simp add: k_def)
    from page_byte(2,4) [OF assms(1) this] show ?thesis unfolding x [symmetric] k_def by simp
  qed
  have "?k = unat x mod 4096 - off"
    if "vpn x = vpn a" "off \<le> unat x mod 4096" "unat x mod 4096 < off + length bs"
  proof -
    have "unat a mod 4096 = 0" using assms(1) by (simp add: page_aligned_unat)
    then have "unat x = unat a + unat x mod 4096"
      using that(1) div_mult_mod_eq [of "unat x" 4096] div_mult_mod_eq [of "unat a" 4096] by (simp add: vpn_def)
    then have "unat x = unat a + off + (unat x mod 4096 - off)" using that(2) by linarith
    then have "word_of_nat (unat x) = (word_of_nat (unat a + off + (unat x mod 4096 - off)) :: usize)" by (rule arg_cong)
    then have "x - (a + word_of_nat off) = word_of_nat (unat x mod 4096 - off)" by (simp add: algebra_simps)
    then show ?thesis using that(3) assms(2) by (simp add: unat_of_nat)
  qed
  with fwd show "?k < length bs \<longleftrightarrow> vpn x = vpn a \<and> off \<le> unat x mod 4096 \<and> unat x mod 4096 < off + length bs" by auto
  from fwd show "?k < length bs \<Longrightarrow> ?k = unat x mod 4096 - off" by simp
qed

lemma space_inv_data:
  assumes I: "space_inv live m R" and m': "mem_inv live m'" "tables_kept m m'" "refs m' = refs m"
    and data: "\<And>q. rd_page m' q = None \<longleftrightarrow> rd_page m q = None"
  shows "space_inv live m' R" "same_ptes R m m'"
proof -
  note D = tables_keptD [OF space_invD(2) [OF I] m'(2)]
  show s: "same_ptes R m m'" by (rule D(4))
  have "mappings m' R q = mappings m R q" for q by (rule mappings_cong) (simp add: D(2))
  then have "counts_ok m' R" using space_invD(4) [OF I] data m'(3) by (simp add: counts_ok_def)
  moreover have "entries_ok m' R"
    using space_invD(3) [OF I] data m'(3) by (simp add: entries_ok_def entry_ok_def D(2))
  ultimately show "space_inv live m' R" using m'(1) D(1) by (simp add: space_inv_def)
qed

lemma sole_writer:
  assumes I: "space_inv live m R" and r: "r \<in> R" "v < USERPAGES" "is_v (pte m r v)" "is_w (pte m r v)"
    and r': "r' \<in> R" "v' < USERPAGES" "is_v (pte m r' v')" "pte_to_pa (pte m r' v') = pte_to_pa (pte m r v)"
  shows "r' = r \<and> v' = v"
proof -
  let ?p = "pte_to_pa (pte m r v)"
  have "rd_page m ?p \<noteq> None" "refs m ?p = 1"
    using space_invD(7) [OF I r(1) USERPAGES_less [OF r(2)]] r by (simp_all add: entry_ok_def)
  then have "card (mappings m R ?p) = 1" using space_invD(8) [OF I] by simp
  then obtain y where "mappings m R ?p = {y}" by (auto simp: card_1_singleton_iff)
  moreover have "(r, v) \<in> mappings m R ?p" "(r', v') \<in> mappings m R ?p" using r r' by (simp_all add: mappings_def)
  ultimately show ?thesis by auto
qed

text \<open>Writing through a writable user mapping changes the view of that process only.\<close>

lemma poke_page:
  assumes I: "space_inv live m R" and r: "r \<in> R" and a: "page_aligned a" "vpn a < USERPAGES"
    and e: "is_v (pte m r (vpn a))" "is_w (pte m r (vpn a))" and fits: "off + length bs \<le> 4096"
  obtains m' where "wr_page (pte_to_pa (pte m r (vpn a))) off bs m = Some m'" "space_inv live m' R" "same_ptes R m m'"
    "\<And>r' n x. r' \<in> R \<Longrightarrow> r' \<noteq> r \<Longrightarrow> peek m' r' n x = peek m r' n x"
    "\<And>n. peek m' r n = poke (peek m r n) (a + word_of_nat off) bs"
proof -
  let ?p = "pte_to_pa (pte m r (vpn a))"
  obtain d where d: "rd_page m ?p = Some d"
    using space_invD(7) [OF I r USERPAGES_less [OF a(2)]] a(2) e by (auto simp: entry_ok_def)
  show ?thesis
  proof (rule wr_page_spec [OF space_invD(1) [OF I] d, of off bs])
    fix m'
    let ?d = "\<lambda>i. if off \<le> i \<and> i < off + length bs then bs ! (i - off) else d i"
    assume m': "wr_page ?p off bs m = Some m'" "mem_inv live m'" "refs m' = refs m" "tables_kept m m'"
      "\<And>q. rd_page m' q = (if q = ?p then Some ?d else rd_page m q)"
    have S: "space_inv live m' R" "same_ptes R m m'"
      by (rule space_inv_data [OF I m'(2,4,3)], simp add: m'(5) d)+
    have other: "peek m' r' n x = peek m r' n x" if x: "r' \<in> R" "r' \<noteq> r \<or> vpn x \<noteq> vpn a" for r' n x
    proof (cases "x < MAXVA \<and> is_v (pte m r' (vpn x)) \<and> is_u (pte m r' (vpn x))")
      case True
      then have vN: "vpn x < NPAGES" by (simp add: vpn_less)
      have "pte_to_pa (pte m r' (vpn x)) \<noteq> ?p"
        using sole_writer [OF I r a(2) e x(1) user_entry_data(1) [OF I x(1) vN]] True x(2) by auto
      with True same_ptesD [OF S(2) x(1) vN] show ?thesis by (simp add: peek_def m'(5))
    next
      case False
      then show ?thesis
        using same_ptesD [OF S(2) x(1), of "vpn x"] vpn_less [of x] by (auto simp: peek_def Let_def not_le)
    qed
    have "peek m' r n x = poke (peek m r n) (a + word_of_nat off) bs x" for n x
    proof (cases "x < MAXVA \<and> vpn x = vpn a")
      case True
      then have "pte m' r (vpn x) = pte m r (vpn x)" using same_ptesD [OF S(2) r] vpn_less [of x] by simp
      with True show ?thesis
        using poke_in_page [OF a(1) fits, of x] e d by (auto simp: peek_def poke_def m'(5) not_le Let_def)
    next
      case False
      then have "\<not> unat (x - (a + word_of_nat off)) < length bs \<or> peek m r n x = None"
        using poke_in_page(1) [OF a(1) fits, of x] by (auto simp: peek_def not_less)
      moreover have "peek m' r n x = peek m r n x"
      proof (cases "x < MAXVA")
        case True
        with False have "vpn x \<noteq> vpn a" by blast
        then show ?thesis using other [OF r, of x n] by simp
      next
        case False
        then have "MAXVA \<le> x" by (simp only: not_less)
        then show ?thesis by (simp only: peek_high)
      qed
      ultimately show ?thesis by (auto simp: poke_def)
    qed
    then show ?thesis using m'(1) S other by (intro that [of m']) (auto simp: fun_eq_iff)
  qed
qed

lemma walk_present:
  assumes "tree m 2 r" "a < MAXVA" "is_v (pte m r (vpn a))"
  shows "walk B r a m = Some (Ok (pte m r (vpn a)))"
proof -
  from walk_pte [OF assms(1,2), of B] obtain w where "walk B r a m = Some w"
    "case w of Ok e \<Rightarrow> e = pte m r (vpn a) | Err _ \<Rightarrow> pte m r (vpn a) = 0" by blast
  with assms(3) show ?thesis by (cases w) (auto simp: is_v_def)
qed

lemma pokeable_page:
  assumes "page_aligned a" "i < 4096"
  shows "pokeable m r sz (a + word_of_nat i) \<longleftrightarrow> pokeable m r sz a"
  using page_byte [OF assms] page_byte(3) [OF assms(1), of 0] by (simp add: pokeable_def not_le [symmetric])

lemma poke_cong: "view = view' \<Longrightarrow> poke view va bs = poke view' va bs"
  by simp

lemma copy_to_spec:
  assumes B: "buddy_ok B live" and sz: "sz \<le> MAXVA" and r: "r \<in> R"
  shows "space_inv live m R \<Longrightarrow> length src < 2 ^ 64 \<Longrightarrow>
    \<exists>res m' k. copy_to B r sz src va m = Some (res, m') \<and> space_inv live m' R \<and> k \<le> length src \<and>
      peek m' r sz = poke (peek m r sz) va (take k src) \<and>
      (\<forall>r' \<in> R. r' \<noteq> r \<longrightarrow> (\<forall>n a. peek m' r' n a = peek m r' n a)) \<and>
      (\<forall>x. pokeable m r sz x \<longrightarrow> pokeable m' r sz x) \<and>
      (case res of Ok _ \<Rightarrow> k = length src
       | Err e \<Rightarrow> k < length src \<and> (e = VmAlloc \<or> \<not> pokeable m r sz (va + word_of_nat k)))"
proof (induction src arbitrary: va m rule: length_induct)
  case (1 src)
  note IH = 1(1) [rule_format] and I = 1(2) and len = 1(3)
  define a where "a = pg_round_down va"
  define off where "off = unat (va - pg_round_down va)"
  define n where "n = min (4096 - off) (length src)"
  have off: "off < 4096" using page_offset_less off_def by simp
  have al: "page_aligned a" by (simp add: a_def)
  have here: "va + word_of_nat i = a + word_of_nat (off + i)" for i
    unfolding a_def by (rule next_page_byte(2) [OF off_def refl])
  have va: "va = a + word_of_nat off" using here [of 0] by simp
  have there: "a + PGSIZE + word_of_nat i = va + word_of_nat (n + i)" if "n < length src" for i
    unfolding a_def by (rule next_page_byte(1) [OF off_def]) (use that n_def in linarith)
  have unwritten: ?case if "copy_to B r sz src va m = Some (Err e, m1)" "space_inv live m1 R" "same_views R r sz m m1"
      "src \<noteq> []" "e = VmAlloc \<or> \<not> pokeable m r sz va" "\<forall>x. pokeable m r sz x \<longrightarrow> pokeable m1 r sz x" for e m1
  proof -
    have "peek m1 r sz = peek m r sz" using same_viewsD [OF that(3) r] by (simp add: fun_eq_iff)
    then show ?thesis
      using that same_viewsD [OF that(3)] by (intro exI [of _ "Err e"] exI [of _ m1] exI [of _ 0]) simp
  qed
  show ?case
  proof (cases "src = []")
    case True
    with I show ?thesis by (simp add: copy_to.simps)
  next
    case False
    then have n: "0 < n" "n \<le> length src" using off by (simp_all add: n_def)
    have run: "copy_to B r sz src va m =
        (if a > MAXVA then Some (Err VmInvalidAddress, m)
         else do {
          (x, m) \<leftarrow> user_page B r sz a m;
          case x of Err e \<Rightarrow> Some (Err e, m)
          | Ok p \<Rightarrow> do {
              w \<leftarrow> walk B r a m;
              case w of Err e \<Rightarrow> Some (Err e, m)
              | Ok e0 \<Rightarrow> if \<not> is_w e0 then Some (Err VmInvalidPte, m)
                  else do { m \<leftarrow> wr_page p off (take n src) m; copy_to B r sz (drop n src) (a + PGSIZE) m } } })"
      unfolding a_def n_def off_def by (subst copy_to.simps) (simp only: False if_False Let_def)
    show ?thesis
    proof (cases "a > MAXVA")
      case True
      then have "\<not> pokeable m r sz va" unfolding va pokeable_page [OF al off] by (auto simp: pokeable_def)
      moreover have "copy_to B r sz src va m = Some (Err VmInvalidAddress, m)" using run True by simp
      ultimately show ?thesis using unwritten [OF _ I same_views_refl False] by blast
    next
      case low: False
      show ?thesis
      proof (rule user_page_cases [OF B I r sz al])
        fix e m1
        assume u: "user_page B r sz a m = Some (Err e, m1)" "space_inv live m1 R" "same_views R r sz m m1"
          "e = VmAlloc \<or> e = VmInvalidAddress \<and> (\<forall>i < 4096. peek m r sz (a + word_of_nat i) = None) \<and> \<not> pokeable m r sz a"
          "\<And>x. pokeable m r sz x \<Longrightarrow> pokeable m1 r sz x"
        have "e = VmAlloc \<or> \<not> pokeable m r sz va" unfolding va pokeable_page [OF al off] using u(4) by blast
        moreover have "copy_to B r sz src va m = Some (Err e, m1)" using run low u(1) by simp
        ultimately show ?thesis using unwritten [of e m1] u(2,3,5) False by blast
      next
        fix p d m1
        assume u: "user_page B r sz a m = Some (Ok p, m1)" "space_inv live m1 R" "same_views R r sz m m1"
          "\<And>x. pokeable m r sz x \<Longrightarrow> pokeable m1 r sz x"
          "a < MAXVA" "vpn a < USERPAGES" "is_v (pte m1 r (vpn a))" "pte_to_pa (pte m1 r (vpn a)) = p" "rd_page m1 p = Some d"
          and w: "pokeable m r sz a \<Longrightarrow> is_w (pte m1 r (vpn a))"
        note walk = walk_present [OF space_invD(6) [OF u(2) r] u(5,7), of B]
        show ?thesis
        proof (cases "is_w (pte m1 r (vpn a))")
          case False
          then have "\<not> pokeable m r sz va" unfolding va pokeable_page [OF al off] using w by blast
          moreover have "copy_to B r sz src va m = Some (Err VmInvalidPte, m1)" using run low u(1) walk False by simp
          ultimately show ?thesis using unwritten [of VmInvalidPte m1] u(2,3,4) \<open>src \<noteq> []\<close> by blast
        next
          case True
          have fits: "off + length (take n src) \<le> 4096" using n_def off by simp
          show ?thesis
          proof (rule poke_page [OF u(2) r al u(6,7) True fits])
            fix m2
            assume m2: "wr_page (pte_to_pa (pte m1 r (vpn a))) off (take n src) m1 = Some m2" "space_inv live m2 R"
              "same_ptes R m1 m2" "\<And>r' n x. r' \<in> R \<Longrightarrow> r' \<noteq> r \<Longrightarrow> peek m2 r' n x = peek m1 r' n x"
              "\<And>k. peek m2 r k = poke (peek m1 r k) (a + word_of_nat off) (take n src)"
            have len2: "length (drop n src) < length src" "length (drop n src) < 2 ^ 64" using n len by simp_all
            from IH [OF len2(1) m2(2) len2(2), of "a + PGSIZE", unfolded length_drop] obtain res m3 k where
              c: "copy_to B r sz (drop n src) (a + PGSIZE) m2 = Some (res, m3)" "space_inv live m3 R" "k \<le> length src - n"
                "peek m3 r sz = poke (peek m2 r sz) (a + PGSIZE) (take k (drop n src))"
                "\<forall>r' \<in> R. r' \<noteq> r \<longrightarrow> (\<forall>n a. peek m3 r' n a = peek m2 r' n a)"
                "\<forall>x. pokeable m2 r sz x \<longrightarrow> pokeable m3 r sz x"
                "case res of Ok _ \<Rightarrow> k = length src - n
                 | Err e \<Rightarrow> k < length src - n \<and> (e = VmAlloc \<or> \<not> pokeable m2 r sz (a + PGSIZE + word_of_nat k))"
              by blast
            have views: "peek m3 r sz = poke (peek m r sz) va (take (n + k) src)"
            proof (cases "n < length src")
              case True
              have pk: "peek m1 r sz = peek m r sz" using same_viewsD [OF u(3) r] by (simp add: fun_eq_iff)
              have l: "length (take n src) = n" using n by simp
              have b: "a + PGSIZE = va + word_of_nat n" using there [OF True, of 0] by simp
              have "length (take n src) + length (take k (drop n src)) < 2 ^ 64" using len by (auto simp: min_def)
              from poke_append [OF this, of "peek m r sz" va] show ?thesis
                unfolding c(4) m2(5) pk b l va [symmetric] by (simp add: take_add)
            next
              case False
              have pk: "peek m1 r sz = peek m r sz" using same_viewsD [OF u(3) r] by (simp add: fun_eq_iff)
              show ?thesis using c(4) False unfolding m2(5) pk va [symmetric] by simp
            qed
            have pok: "\<forall>x. pokeable m r sz x \<longrightarrow> pokeable m2 r sz x" using u(4) pokeable_same [OF r m2(3)] by blast
            have "case res of Ok _ \<Rightarrow> n + k = length src
                 | Err e \<Rightarrow> n + k < length src \<and> (e = VmAlloc \<or> \<not> pokeable m r sz (va + word_of_nat (n + k)))"
            proof (cases res)
              case (Ok x)
              with c(7) n show ?thesis by simp
            next
              case (Err e)
              with c(7) have k: "k < length src - n" "e = VmAlloc \<or> \<not> pokeable m2 r sz (a + PGSIZE + word_of_nat k)" by simp_all
              then have "a + PGSIZE + word_of_nat k = va + word_of_nat (n + k)" using there [of k] by linarith
              with k(2) pok have "e = VmAlloc \<or> \<not> pokeable m r sz (va + word_of_nat (n + k))" by metis
              with k(1) Err show ?thesis by (simp del: of_nat_add)
            qed
            moreover have "copy_to B r sz src va m = Some (res, m3)"
              using run low u(1,8) walk True m2(1) c(1) by simp
            moreover have "\<forall>r' \<in> R. r' \<noteq> r \<longrightarrow> (\<forall>n a. peek m3 r' n a = peek m r' n a)"
              using c(5) m2(4) same_viewsD [OF u(3)] by simp
            moreover have "n + k \<le> length src" using c(3) n by simp
            ultimately show ?thesis using c(2,6) views pok by (intro exI [of _ res] exI [of _ m3] exI [of _ "n + k"]) simp
          qed
        qed
      qed
    qed
  qed
qed

section \<open>Theorems\<close>

text \<open>
  Property C17.  \<open>copy_from\<close> returns exactly what the process sees: on a range of visible bytes it
  yields those bytes, across page boundaries and through pages that were never touched, or reports
  that memory ran out; no process can see a difference afterwards.
\<close>

theorem copy_from_exact:
  assumes "buddy_ok B live" "space_inv live m R" "r \<in> R" "sz \<le> MAXVA"
    and "\<forall>i < len. peek m r sz (va + word_of_nat i) \<noteq> None"
  shows "\<exists>res m'. copy_from B r sz va len m = Some (res, m') \<and> space_inv live m' R \<and> same_views R r sz m m' \<and>
    (res = Err VmAlloc \<or> res = Ok (map (\<lambda>i. the (peek m r sz (va + word_of_nat i))) [0..<len]))"
proof -
  from copy_from_spec [OF assms(1,4,3,2), of va len] obtain res m' where
    c: "copy_from B r sz va len m = Some (res, m')" "space_inv live m' R" "same_views R r sz m m'" and
    res: "case res of
       Ok bs \<Rightarrow> length bs = len \<and> (\<forall>i < len. \<forall>b. peek m r sz (va + word_of_nat i) = Some b \<longrightarrow> bs ! i = b)
     | Err e \<Rightarrow> e = VmAlloc \<or> e = VmInvalidAddress \<and> (\<exists>i < len. peek m r sz (va + word_of_nat i) = None)" by blast
  have "res = Err VmAlloc \<or> res = Ok (map (\<lambda>i. the (peek m r sz (va + word_of_nat i))) [0..<len])"
    using res assms(5) by (cases res) (auto intro!: nth_equalityI)
  with c show ?thesis by blast
qed

text \<open>
  Property C15.  \<open>copy_to\<close> overwrites exactly the given range and nothing else: on success the view
  of the process is the old one with the bytes replaced, on failure a proper prefix was written, the
  next byte could not be stored to or memory ran out, and in both cases no other process sees a
  change, even where pages were shared.
\<close>

theorem copy_to_exact:
  assumes "buddy_ok B live" "space_inv live m R" "r \<in> R" "sz \<le> MAXVA" "length src < 2 ^ 64"
  shows "\<exists>res m' k. copy_to B r sz src va m = Some (res, m') \<and> space_inv live m' R \<and> k \<le> length src \<and>
      peek m' r sz = poke (peek m r sz) va (take k src) \<and>
      (\<forall>r' \<in> R. r' \<noteq> r \<longrightarrow> (\<forall>n a. peek m' r' n a = peek m r' n a)) \<and>
      (case res of Ok _ \<Rightarrow> k = length src
       | Err e \<Rightarrow> k < length src \<and> (e = VmAlloc \<or> \<not> pokeable m r sz (va + word_of_nat k)))"
  using copy_to_spec [OF assms(1,4,3,2,5), of va] by blast

text \<open>
  Property C31.  The kernel cannot store to a copy-on-write page: \<open>copy_to\<close> finds the page with
  \<open>walk_addr\<close>, never calls \<open>vmfault\<close>, and rejects the entry because it is not writable, although a
  user store to the same address would be resolved by copying the page.
\<close>

theorem copy_to_rejects_cow:
  assumes "space_inv live m R" "r \<in> R" "va < MAXVA" "src \<noteq> []"
    and "is_v (pte m r (vpn va))" "is_u (pte m r (vpn va))" "is_cow (pte m r (vpn va))" "\<not> is_w (pte m r (vpn va))"
  shows "copy_to B r sz src va m = Some (Err VmInvalidPte, m)"
proof -
  let ?a = "pg_round_down va"
  have a: "?a < MAXVA" using pg_round_down_le [of va] assms(3) by (rule order_le_less_trans)
  note T = space_invD(6) [OF assms(1,2)]
  have w: "walk B r ?a m = Some (Ok (pte m r (vpn va)))" using walk_present [OF T a] assms(5) by simp
  have "\<not> ?a > MAXVA" using a by (rule order_less_not_sym)
  moreover have "walk_addr B r ?a m = Some (Ok (pte_to_pa (pte m r (vpn va))))"
    using w assms(5,6) calculation by (simp add: walk_addr_def)
  ultimately show ?thesis using w assms(4,8) by (subst copy_to.simps) (simp add: user_page_def)
qed

section \<open>Witnesses\<close>

lemma users_first: "0x80100000 \<in> {0x80100000, 0x80110000 :: usize}"
  by simp

lemma users_visible:
  assumes "0x3FFFFFB000 \<le> x" "x < (0x3FFFFFE000 :: usize)"
  shows "peek example_users 0x80100000 0x3FFFFFE000 x \<noteq> None"
proof -
  have u: "67108859 * 4096 \<le> unat x" "unat x < 67108862 * 4096"
    using assms by (simp_all add: word_le_nat_alt word_less_nat_alt)
  then have v: "67108859 \<le> vpn x" "vpn x < 67108862" by (simp_all add: vpn_def less_mult_imp_div_less)
  then have "vpn x < NPAGES" by (simp add: NPAGES_def)
  note p = users_ptes(1) [OF this]
  have "x < MAXVA" using assms(2) by (simp add: word_less_nat_alt)
  moreover have "pg_round_down x < 0x3FFFFFE000" using pg_round_down_le [of x] assms(2) by (rule order_le_less_trans)
  moreover have "vpn x = 67108859 \<or> vpn x = 67108860 \<or> vpn x = 67108861" using v by linarith
  ultimately show ?thesis
    using p users_pages [of "0x80103000"] users_pages [of "0x80104000"]
    by (auto simp: peek_def user_tab_def system_tab_def tab_entries tab_pages not_le)
qed

theorem vmfault_transparent_witness:
  "\<exists>res m'. vmfault list_buddy 0x80100000 0x3FFFFFE000 0x3FFFFFB123 example_users = Some (res, m') \<and>
     (case res of Err e \<Rightarrow> e = VmAlloc | Ok p \<Rightarrow> is_w (pte m' 0x80100000 67108859) \<and> refs m' p = 1)"
proof -
  have v: "vpn 0x3FFFFFB123 = 67108859" by (simp add: vpn_def)
  have cow: "is_cow (pte example_users 0x80100000 67108859)" by (simp add: users_ptes NPAGES_def user_tab_def tab_entries)
  have sz: "0x3FFFFFE000 \<le> MAXVA" by simp
  from vmfault_transparent [OF list_buddy_ok users_space users_first sz, of "0x3FFFFFB123"] obtain res m' where
    run: "vmfault list_buddy 0x80100000 0x3FFFFFE000 0x3FFFFFB123 example_users = Some (res, m')" and
    c: "case res of
       Err e \<Rightarrow> e = VmAlloc \<and> 0x3FFFFFB123 < (0x3FFFFFE000 :: usize) \<and> same_ptes {0x80100000, 0x80110000} example_users m' \<or>
         e = VmInvalidAddress \<and> m' = example_users \<and> (0x3FFFFFE000 \<le> (0x3FFFFFB123 :: usize) \<or>
           is_v (pte example_users 0x80100000 (vpn 0x3FFFFFB123)) \<and> \<not> is_cow (pte example_users 0x80100000 (vpn 0x3FFFFFB123)))
     | Ok p \<Rightarrow> 0x3FFFFFB123 < (0x3FFFFFE000 :: usize) \<and> is_v (pte m' 0x80100000 (vpn 0x3FFFFFB123)) \<and>
         is_w (pte m' 0x80100000 (vpn 0x3FFFFFB123)) \<and> pte_to_pa (pte m' 0x80100000 (vpn 0x3FFFFFB123)) = p \<and>
         refs m' p = 1 \<and> rd_page m' p \<noteq> None \<and> vpn 0x3FFFFFB123 < USERPAGES"
    by (elim exE conjE)
  show ?thesis using run c cow by (cases res) (simp_all add: v)
qed

theorem copy_from_exact_witness:
  "\<exists>res m'. copy_from list_buddy 0x80100000 0x3FFFFFE000 0x3FFFFFBFF0 32 example_users = Some (res, m') \<and>
     (res = Err VmAlloc \<or>
      res = Ok (map (\<lambda>i. the (peek example_users 0x80100000 0x3FFFFFE000 (0x3FFFFFBFF0 + word_of_nat i))) [0..<32]))"
proof -
  have "\<forall>i < 32. peek example_users 0x80100000 0x3FFFFFE000 (0x3FFFFFBFF0 + word_of_nat i) \<noteq> None"
  proof (intro allI impI users_visible)
    fix i :: nat assume "i < 32"
    then have "unat (0x3FFFFFBFF0 + word_of_nat i :: usize) = 0x3FFFFFBFF0 + i"
      by (simp add: unat_word_ariths unat_of_nat)
    with \<open>i < 32\<close> show "0x3FFFFFB000 \<le> 0x3FFFFFBFF0 + (word_of_nat i :: usize)"
      "0x3FFFFFBFF0 + word_of_nat i < (0x3FFFFFE000 :: usize)"
      by (simp_all add: word_le_nat_alt word_less_nat_alt)
  qed
  from copy_from_exact [OF list_buddy_ok users_space _ _ this] show ?thesis by auto
qed

theorem copy_to_exact_witness:
  "\<exists>res m' k. copy_to list_buddy 0x80100000 0x3FFFFFE000 [1, 2, 3] 0x3FFFFFCFFE example_users = Some (res, m') \<and>
     peek m' 0x80100000 0x3FFFFFE000 =
       poke (peek example_users 0x80100000 0x3FFFFFE000) 0x3FFFFFCFFE (take k [1, 2, 3]) \<and>
     k \<le> 3"
proof -
  have "0x3FFFFFE000 \<le> MAXVA" "length [1 :: u8, 2, 3] < 2 ^ 64" by simp_all
  from copy_to_exact [OF list_buddy_ok users_space users_first this, of "0x3FFFFFCFFE"] obtain res m' k where
    "copy_to list_buddy 0x80100000 0x3FFFFFE000 [1, 2, 3] 0x3FFFFFCFFE example_users = Some (res, m')"
    "k \<le> length [1 :: u8, 2, 3]"
    "peek m' 0x80100000 0x3FFFFFE000 =
       poke (peek example_users 0x80100000 0x3FFFFFE000) 0x3FFFFFCFFE (take k [1, 2, 3])" by (elim exE conjE)
  then show ?thesis by (intro exI [of _ res] exI [of _ m'] exI [of _ k]) simp
qed

theorem copy_to_rejects_cow_witness:
  "copy_to list_buddy 0x80100000 0x3FFFFFE000 [1, 2, 3] 0x3FFFFFB010 example_users = Some (Err VmInvalidPte, example_users)"
proof (rule copy_to_rejects_cow [OF users_space])
  have v: "vpn 0x3FFFFFB010 = 67108859" by (simp add: vpn_def)
  have e: "pte example_users 0x80100000 (vpn 0x3FFFFFB010) = pa_to_pte 0x80104000 OR 275"
    unfolding v by (simp add: users_ptes NPAGES_def user_tab_def)
  show "is_v (pte example_users 0x80100000 (vpn 0x3FFFFFB010))" "is_u (pte example_users 0x80100000 (vpn 0x3FFFFFB010))"
    "is_cow (pte example_users 0x80100000 (vpn 0x3FFFFFB010))" "\<not> is_w (pte example_users 0x80100000 (vpn 0x3FFFFFB010))"
    unfolding e by (rule tab_entries)+
qed simp_all

end
