(* ===== verification/Vm_Fork.thy ===== *)
theory Vm_Fork
  imports Vm_Fault
begin

unbundle bit_operations_syntax

text \<open>
  Giving memory back and sharing it: \<open>unmap\<close> and the operations built on it release exactly the pages
  of a range, and \<open>Uvm::copy\<close> gives the child of a \<open>fork\<close> the parent's memory image by sharing every
  page copy-on-write.
\<close>

section \<open>Ranges of pages\<close>

lemma page_range_pages:
  assumes "page_aligned va" "unat va + n * 4096 \<le> 2 ^ 38"
  shows "page_range va (va + word_of_nat n * PGSIZE) = map (\<lambda>v. word_of_nat (v * 4096)) [vpn va..<vpn va + n]"
proof -
  have "unat va mod 4096 = 0" using assms(1) by (simp add: page_aligned_unat)
  then have va: "unat va = vpn va * 4096" by (auto simp: vpn_def)
  have n: "n < 2 ^ 38" using assms(2) by simp
  have "unat (va + word_of_nat n * PGSIZE) = unat va + n * 4096"
    using assms(2) n by (simp add: unat_word_ariths unat_of_nat)
  then have cnt: "(unat (va + word_of_nat n * PGSIZE) - unat va + 4095) div 4096 = n" by simp
  have "va = word_of_nat (unat va)" by simp
  then have "va + word_of_nat k * PGSIZE = word_of_nat ((vpn va + k) * 4096)" for k
    unfolding va by (simp add: algebra_simps)
  then show ?thesis unfolding page_range_def cnt
    by (intro nth_equalityI) (simp_all del: of_nat_mult of_nat_add)
qed

lemma page_address:
  assumes "v < NPAGES"
  shows "page_aligned (word_of_nat (v * 4096))" "(word_of_nat (v * 4096) :: usize) < MAXVA" "vpn (word_of_nat (v * 4096)) = v"
  using assms vpn_page [OF assms]
  by (simp_all add: page_aligned_unat unat_of_nat NPAGES_def del: of_nat_mult)

section \<open>Unmapping\<close>

definition unmapped :: "('b \<Rightarrow> usize set) \<Rightarrow> usize set \<Rightarrow> usize \<Rightarrow> nat set \<Rightarrow> 'b Mem \<Rightarrow> 'b Mem \<Rightarrow> bool" where
  "unmapped live R r V m m' \<longleftrightarrow> space_inv live m' R \<and>
     (\<forall>r' \<in> R. \<forall>v < NPAGES. pte m' r' v = (if r' = r \<and> v \<in> V \<and> is_v (pte m r v) then 0 else pte m r' v)) \<and>
     (\<forall>q. rd_page m' q \<noteq> None \<longrightarrow> rd_page m' q = rd_page m q)"

lemma unmappedD:
  assumes "unmapped live R r V m m'"
  shows "space_inv live m' R" "rd_page m' q \<noteq> None \<Longrightarrow> rd_page m' q = rd_page m q"
    "r' \<in> R \<Longrightarrow> v < NPAGES \<Longrightarrow> pte m' r' v = (if r' = r \<and> v \<in> V \<and> is_v (pte m r v) then 0 else pte m r' v)"
  using assms by (simp_all add: unmapped_def)

lemma not_is_v_0 [simp]: "\<not> is_v 0"
  by (simp add: is_v_def)

lemma unmapped_empty: "space_inv live m R \<Longrightarrow> unmapped live R r {} m m"
  by (simp add: unmapped_def)

lemma unmapped_trans:
  assumes "unmapped live R r V m m1" "unmapped live R r W m1 m2" "r \<in> R"
  shows "unmapped live R r (V \<union> W) m m2"
  using assms unfolding unmapped_def by (auto split: if_splits)

lemma unmap_one_spec:
  assumes B: "buddy_ok B live" and I: "space_inv live m R" and r: "r \<in> R" and v: "v < USERPAGES"
  obtains m' where "unmap_one B r True (word_of_nat (v * 4096)) m = Some m'" "unmapped live R r {v} m m'"
proof -
  let ?va = "word_of_nat (v * 4096) :: usize" let ?e = "pte m r v"
  have vN: "v < NPAGES" using USERPAGES_less [OF v] .
  note va = page_address [OF vN]
  note T = space_invD(6) [OF I r]
  show ?thesis
  proof (cases "is_v ?e")
    case False
    have "unmap_one B r True ?va m = Some m"
      using False by (cases rule: walk_read_pte [OF T va(2), of B]) (simp_all add: unmap_one_def va(3) del: of_nat_mult)
    moreover have "unmapped live R r {v} m m" using I False by (auto simp: unmapped_def)
    ultimately show ?thesis by (rule that)
  next
    case True
    have ok: "is_r ?e" "rd_page m (pte_to_pa ?e) \<noteq> None"
      using space_invD(7) [OF I r vN] True v by (simp_all add: entry_ok_def)
    obtain s where s: "walk_raw B r ?va False m = Some (Ok s, m)" "rd_slot m s = Some ?e" "slot m 2 r ?va = Some s"
      using True by (cases rule: walk_read_pte [OF T va(2), of B]) (simp_all add: va(3) del: of_nat_mult)
    show ?thesis
    proof (rule box_drop_spec [OF B space_invD(1) [OF I] rd_page_frames [OF ok(2)]])
      fix m1
      assume m1: "box_drop B (pte_to_pa ?e) m = Some m1" "mem_inv live m1"
        "frames m1 = (if refs m (pte_to_pa ?e) = 1 then (frames m)(pte_to_pa ?e := None) else frames m)"
        "refs m1 (pte_to_pa ?e) = refs m (pte_to_pa ?e) - 1"
        "\<And>q. ram_page q \<Longrightarrow> q \<noteq> pte_to_pa ?e \<Longrightarrow> refs m1 q = refs m q"
      have k: "tables_kept m m1" using ok(2) m1(3) by (auto simp: tables_kept_def rd_page_def)
      note D = tables_keptD [OF space_invD(2) [OF I] k]
      have s1: "slot m1 2 r ?va = Some s" using D(3) [OF r] s(3) by simp
      show ?thesis
      proof (rule write_pte [OF D(5) [OF r] va(2) s1 m1(2), of 0])
        fix m2
        assume m2: "wr_table (fst s) (snd s) 0 m1 = Some m2" "mem_inv live m2"
          "updates m1 r m2 ((pte m1 r)(vpn ?va := 0))" "slot m2 2 r ?va = Some s" "refs m2 = refs m1"
        note U = updates_rest [OF D(1) r m2(3)]
        have ptes: "pte m2 r' v' = (if r' = r \<and> v' = v then 0 else pte m r' v')" if "r' \<in> R" "v' < NPAGES" for r' v'
          using U(2) [OF that(1), of v'] updatesD(5) [OF m2(3) that(2)] D(2) [OF that(1)] D(2) [OF r] va(3)
          by (cases "r' = r") auto
        have rd: "rd_page m2 q = (if q = pte_to_pa ?e \<and> refs m (pte_to_pa ?e) = 1 then None else rd_page m q)" for q
          using U(3) m1(3) by (simp add: rd_page_def)
        have refs: "refs m2 q = (if q = pte_to_pa ?e then refs m q - 1 else refs m q)" if "rd_page m q \<noteq> None" for q
        proof -
          have "ram_page q" using rd_page_frames [OF that] space_invD(1) [OF I] by (auto simp: mem_inv_def)
          then show ?thesis using m1(4,5) m2(5) by simp
        qed
        have "space_inv live m2 R"
          by (rule space_inv_replace [OF I r v True refl m2(2) U(1) ptes])
            (use refs rd in \<open>auto split: if_splits\<close>)
        then have "unmapped live R r {v} m m2" using True rd by (auto simp: unmapped_def ptes split: if_splits)
        moreover have "unmap_one B r True ?va m = Some m2"
          using s True ok is_r_leaf m1(1) m2(1) by (simp add: unmap_one_def assert_that_def del: of_nat_mult)
        ultimately show ?thesis by (intro that)
      qed
    qed
  qed
qed

lemma unmap_loop_spec:
  assumes B: "buddy_ok B live" and r: "r \<in> R"
  shows "space_inv live m R \<Longrightarrow> (\<forall>v \<in> set vs. v < USERPAGES) \<Longrightarrow>
    \<exists>m'. foldO (unmap_one B r True) (map (\<lambda>v. word_of_nat (v * 4096)) vs) m = Some m' \<and> unmapped live R r (set vs) m m'"
proof (induction vs arbitrary: m)
  case Nil
  then show ?case by (simp add: unmapped_empty)
next
  case (Cons v vs)
  have v: "v < USERPAGES" using Cons.prems(2) by simp
  show ?case
  proof (rule unmap_one_spec [OF B Cons.prems(1) r v])
    fix m1 assume m1: "unmap_one B r True (word_of_nat (v * 4096)) m = Some m1" "unmapped live R r {v} m m1"
    from Cons.IH [OF unmappedD(1) [OF m1(2)]] Cons.prems(2) obtain m2 where
      m2: "foldO (unmap_one B r True) (map (\<lambda>v. word_of_nat (v * 4096)) vs) m1 = Some m2" "unmapped live R r (set vs) m1 m2" by auto
    from unmapped_trans [OF m1(2) m2(2) r] m1(1) m2(1) show ?thesis by (simp del: of_nat_mult)
  qed
qed

lemma unmap_spec:
  assumes "buddy_ok B live" "space_inv live m R" "r \<in> R" "page_aligned va" "vpn va + n \<le> USERPAGES"
  shows "\<exists>m'. unmap B r va (word_of_nat n) True m = Some m' \<and> unmapped live R r {vpn va..<vpn va + n} m m'"
proof -
  have "unat va mod 4096 = 0" using assms(4) by (simp add: page_aligned_unat)
  then have "unat va = vpn va * 4096" by (auto simp: vpn_def)
  then have le: "unat va + n * 4096 \<le> 2 ^ 38" using assms(5) by (simp add: USERPAGES_def NPAGES_def)
  from unmap_loop_spec [OF assms(1,3,2), of "[vpn va..<vpn va + n]"] assms(5) show ?thesis
    using page_range_pages [OF assms(4) le] page_aligned_mod [OF assms(4)]
    by (simp add: unmap_def assert_that_def)
qed

section \<open>Sharing a page\<close>

text \<open>The entries \<open>Uvm::copy\<close> leaves in the parent and installs in the child.\<close>

definition cow_share :: "usize \<Rightarrow> usize" where
  "cow_share e = (if is_w e then (e AND NOT PTE_W) OR PTE_COW else e)"

definition child_entry :: "usize \<Rightarrow> usize" where
  "child_entry e = pa_to_pte (pte_to_pa (cow_share e)) OR pte_flags (cow_share e) OR PTE_V"

lemma cow_share_bit:
  assumes "n < 64"
  shows "bit (cow_share e) n \<longleftrightarrow> (if is_w e then bit e n \<and> n \<noteq> 2 \<or> n = 8 else bit e n)"
proof -
  have "bit (2 ^ k :: usize) n \<longleftrightarrow> n = k" if "k < 64" for k using that by (auto simp: bit_exp_iff)
  from this [of 2] this [of 8] have "bit PTE_W n \<longleftrightarrow> n = 2" "bit PTE_COW n \<longleftrightarrow> n = 8" by simp_all
  moreover have "bit (NOT PTE_W) n \<longleftrightarrow> n \<noteq> 2" using assms calculation(1) by (subst bit_not_iff) simp
  ultimately show ?thesis unfolding cow_share_def by (simp add: bit_and_iff bit_or_iff del: riscv_values)
qed

lemma cow_share_facts:
  shows "pte_to_pa (cow_share e) = pte_to_pa e" "is_v (cow_share e) = is_v e" "is_u (cow_share e) = is_u e"
    "\<not> is_w (cow_share e)" "is_r (cow_share e) = is_r e" "is_w e \<or> is_cow e \<Longrightarrow> is_cow (cow_share e)"
proof -
  have "bit (cow_share e) (10 + n) \<longleftrightarrow> bit e (10 + n)" for n
    by (cases "10 + n < 64") (auto simp: cow_share_bit dest: bit_imp_le_length)
  then have "drop_bit 10 (cow_share e) = drop_bit 10 e"
    by (intro bit_word_eqI) (simp add: bit_drop_bit_eq)
  then show "pte_to_pa (cow_share e) = pte_to_pa e" by (simp add: pte_to_pa_def)
  show "is_v (cow_share e) = is_v e" "is_u (cow_share e) = is_u e"
    "\<not> is_w (cow_share e)" "is_r (cow_share e) = is_r e" "is_w e \<or> is_cow e \<Longrightarrow> is_cow (cow_share e)"
    by (auto simp: pte_bits is_r_def cow_share_bit)
qed

lemma child_entry_facts:
  assumes "ram_page (pte_to_pa e)"
  shows "pte_to_pa (child_entry e) = pte_to_pa e" "is_v (child_entry e)" "is_u (child_entry e) = is_u e"
    "\<not> is_w (child_entry e)" "is_r (child_entry e) = is_r e"
proof -
  let ?f = "pte_flags (cow_share e) OR PTE_V"
  have e: "child_entry e = pa_to_pte (pte_to_pa e) OR ?f"
    by (simp only: child_entry_def cow_share_facts or.assoc)
  have v: "bit PTE_V n \<longleftrightarrow> n = 0" for n by (simp add: bit_1_iff)
  have f: "bit ?f n \<longleftrightarrow> n < 10 \<and> bit (cow_share e) n \<or> n = 0" if "n < 64" for n
    unfolding bit_or_iff v pte_flags_def mask10 bit_and_iff bit_mask_iff using that by auto
  have "bit (take_bit 10 ?f) n \<longleftrightarrow> bit ?f n" if n: "n < 64" for n
    unfolding bit_take_bit_iff f [OF n] by auto
  then have "take_bit 10 ?f = ?f" by (intro bit_word_eqI) simp_all
  then have "?f < 2 ^ 10" by (rule take_bit10_less)
  then show "pte_to_pa (child_entry e) = pte_to_pa e" unfolding e by (rule entry_pa [OF assms])
  have b: "bit (child_entry e) n \<longleftrightarrow> bit (cow_share e) n \<or> n = 0" if "n < 10" for n
    unfolding e entry_bits [OF that] using f [of n] that by simp
  then show "is_v (child_entry e)" "is_u (child_entry e) = is_u e" "\<not> is_w (child_entry e)"
    "is_r (child_entry e) = is_r e"
    using cow_share_facts [of e] by (auto simp: pte_bits is_r_def)
qed

lemma space_inv_retouch:
  assumes I: "space_inv live m R" and r: "r \<in> R" and v: "v < USERPAGES" "is_v (pte m r v)"
    and m': "mem_inv live m'" "tables_ok m' R"
    and pte: "\<And>r' v'. r' \<in> R \<Longrightarrow> v' < NPAGES \<Longrightarrow> pte m' r' v' = (if r' = r \<and> v' = v then e else pte m r' v')"
    and e: "is_v e" "is_r e" "pte_to_pa e = pte_to_pa (pte m r v)" "is_w e \<Longrightarrow> is_w (pte m r v)"
    and data: "\<And>q. rd_page m' q = rd_page m q" "\<And>q. rd_page m q \<noteq> None \<Longrightarrow> refs m' q = refs m q"
  shows "space_inv live m' R"
proof -
  have alike: "is_v (pte m' r' v') = is_v (pte m r' v')" "pte_to_pa (pte m' r' v') = pte_to_pa (pte m r' v')"
    if "r' \<in> R" "v' < NPAGES" for r' v'
    using pte [OF that] e v by auto
  then have "mappings m' R q = mappings m R q" for q
    unfolding mappings_def using USERPAGES_less by (intro Collect_cong) auto
  then have "counts_ok m' R" using space_invD(4) [OF I] data by (simp add: counts_ok_def)
  moreover have "entry_ok m' v' (pte m' r' v')" if "r' \<in> R" "v' < NPAGES" for r' v'
    using space_invD(7) [OF I that] pte [OF that] e v data by (auto simp: entry_ok_def)
  then have "entries_ok m' R" by (simp add: entries_ok_def)
  ultimately show ?thesis using m' by (simp add: space_inv_def)
qed

lemma space_inv_share:
  assumes I: "space_inv live m R" and c: "c \<in> R" and v: "v < USERPAGES" "\<not> is_v (pte m c v)"
    and m': "mem_inv live m'" "tables_ok m' R"
    and pte: "\<And>r' v'. r' \<in> R \<Longrightarrow> v' < NPAGES \<Longrightarrow> pte m' r' v' = (if r' = c \<and> v' = v then e else pte m r' v')"
    and e: "is_v e" "is_r e" "\<not> is_w e" "pte_to_pa e = p"
    and p: "rd_page m p \<noteq> None" "\<And>r' v'. (r', v') \<in> mappings m R p \<Longrightarrow> \<not> is_w (pte m r' v')"
    and data: "\<And>q. rd_page m' q = rd_page m q"
      "\<And>q. rd_page m q \<noteq> None \<Longrightarrow> refs m' q = (if q = p then refs m q + 1 else refs m q)"
  shows "space_inv live m' R"
proof -
  have map: "mappings m' R q = (if q = p then insert (c, v) (mappings m R q) else mappings m R q)" for q
  proof -
    have "pte m' r' v' = pte m r' v'" if "r' \<in> R" "v' < USERPAGES" "(r', v') \<noteq> (c, v)" for r' v'
      using pte [OF that(1) USERPAGES_less [OF that(2)]] that(3) by auto
    note U = mappings_update [OF this c v(1), of q]
    have "(c, v) \<notin> mappings m R q" using v(2) by (simp add: mappings_def)
    with U pte [OF c USERPAGES_less [OF v(1)]] e show ?thesis by auto
  qed
  have no: "(c, v) \<notin> mappings m R q" for q using v(2) by (simp add: mappings_def)
  have fin: "finite (mappings m R q)" for q using finite_mappings space_invD(5) [OF I] by blast
  have "refs m' q = card (mappings m' R q)" if "rd_page m' q \<noteq> None" for q
    using that data map no fin space_invD(8) [OF I, of q] by (cases "q = p") simp_all
  then have "counts_ok m' R" by (simp add: counts_ok_def)
  moreover have "entry_ok m' v' (pte m' r' v')" if r': "r' \<in> R" "v' < NPAGES" for r' v'
  proof (cases "r' = c \<and> v' = v")
    case True
    with pte [OF r'] e p(1) data(1) v(1) show ?thesis by (simp add: entry_ok_def)
  next
    case False
    let ?x = "pte m r' v'"
    have "is_w ?x \<and> v' < USERPAGES \<and> is_v ?x \<longrightarrow> pte_to_pa ?x \<noteq> p" using p(2) [of r' v'] r' by (auto simp: mappings_def)
    with space_invD(7) [OF I r'] pte [OF r'] False data show ?thesis by (auto simp: entry_ok_def)
  qed
  then have "entries_ok m' R" by (simp add: entries_ok_def)
  ultimately show ?thesis using m' by (simp add: space_inv_def)
qed

section \<open>Fork\<close>

definition shared :: "('b \<Rightarrow> usize set) \<Rightarrow> usize set \<Rightarrow> usize \<Rightarrow> usize \<Rightarrow> nat \<Rightarrow> 'b Mem \<Rightarrow> 'b Mem \<Rightarrow> bool" where
  "shared live R r c K m m' \<longleftrightarrow> space_inv live m' R \<and> (\<forall>q. rd_page m' q = rd_page m q) \<and>
     (\<forall>r' \<in> R. \<forall>v < NPAGES. pte m' r' v =
        (if v < K \<and> is_v (pte m r v) \<and> r' = r then cow_share (pte m r v)
         else if v < K \<and> is_v (pte m r v) \<and> r' = c then child_entry (pte m r v)
         else pte m r' v))"

lemma sharedD:
  assumes "shared live R r c K m m'"
  shows "space_inv live m' R" "rd_page m' q = rd_page m q"
    "r' \<in> R \<Longrightarrow> v < NPAGES \<Longrightarrow> pte m' r' v =
        (if v < K \<and> is_v (pte m r v) \<and> r' = r then cow_share (pte m r v)
         else if v < K \<and> is_v (pte m r v) \<and> r' = c then child_entry (pte m r v)
         else pte m r' v)"
  using assms by (simp_all add: shared_def)

lemma user_page_ram:
  assumes "space_inv live m R" "r \<in> R" "v < USERPAGES" "is_v (pte m r v)"
  shows "ram_page (pte_to_pa (pte m r v))" "rd_page m (pte_to_pa (pte m r v)) \<noteq> None" "is_r (pte m r v)"
proof -
  have "entry_ok m v (pte m r v)" using space_invD(7) [OF assms(1,2) USERPAGES_less [OF assms(3)]] .
  with assms(3,4) show d: "rd_page m (pte_to_pa (pte m r v)) \<noteq> None" "is_r (pte m r v)" by (simp_all add: entry_ok_def)
  show "ram_page (pte_to_pa (pte m r v))" using rd_page_frames [OF d(1)] space_invD(1) [OF assms(1)] by (auto simp: mem_inv_def)
qed

text \<open>Sharing at most doubles the number of mappings of a page.\<close>

lemma shared_refs:
  assumes I: "space_inv live m R" and S: "shared live R r c K m m'" and "r \<in> R" "K \<le> USERPAGES"
    and p: "rd_page m p \<noteq> None"
  shows "refs m' p \<le> 2 * refs m p"
proof -
  have fin: "finite (mappings m R p)" using finite_mappings space_invD(5) [OF I] by blast
  have "mappings m' R p \<subseteq> mappings m R p \<union> (\<lambda>(_, v). (c, v)) ` mappings m R p"
  proof
    fix x assume x: "x \<in> mappings m' R p"
    obtain r' v where rv: "x = (r', v)" by (cases x)
    with x have v: "r' \<in> R" "v < USERPAGES" "is_v (pte m' r' v)" "pte_to_pa (pte m' r' v) = p" by (auto simp: mappings_def)
    note P = sharedD(3) [OF S v(1) USERPAGES_less [OF v(2)]]
    show "x \<in> mappings m R p \<union> (\<lambda>(_, v). (c, v)) ` mappings m R p"
    proof (cases "v < K \<and> is_v (pte m r v) \<and> (r' = r \<or> r' = c)")
      case True
      then have "pte_to_pa (pte m r v) = p"
        using P v user_page_ram(1) [OF I assms(3) v(2)] cow_share_facts(1) [of "pte m r v"] child_entry_facts(1) [of "pte m r v"]
        by (auto split: if_splits)
      then have "(r, v) \<in> mappings m R p" using True v assms(3) by (simp add: mappings_def)
      with True rv show ?thesis by force
    next
      case False
      then show ?thesis using P v rv by (auto simp: mappings_def split: if_splits)
    qed
  qed
  then have "card (mappings m' R p) \<le> card (mappings m R p \<union> (\<lambda>(_, v). (c, v)) ` mappings m R p)"
    using fin by (intro card_mono) simp_all
  also have "\<dots> \<le> card (mappings m R p) + card (mappings m R p)"
    using card_Un_le card_image_le [OF fin] by (metis (no_types, lifting) add_left_mono order_trans)
  finally show ?thesis
    using space_invD(8) [OF I p] space_invD(8) [OF sharedD(1) [OF S], of p] sharedD(2) [OF S] p by simp
qed

lemma copy_step:
  assumes B: "buddy_ok B live" and I: "space_inv live m R" and rc: "r \<in> R" "c \<in> R" "r \<noteq> c"
    and bound: "\<forall>p. rd_page m p \<noteq> None \<longrightarrow> refs m p \<le> 127"
    and K: "K < USERPAGES" "\<not> is_v (pte m c K)" and S: "shared live R r c K m m1"
  obtains (fail) m2 where "\<And>is. uvm_copy_loop B r c (word_of_nat (K * 4096) # is) m1 =
        do { m \<leftarrow> unmap B c 0 (word_of_nat K) True m2; Some (Err VmAlloc, m) }"
      "space_inv live m2 R" "\<And>q. rd_page m2 q = rd_page m q"
      "\<And>r' v. r' \<in> R \<Longrightarrow> v < NPAGES \<Longrightarrow>
        pte m2 r' v = (if r' = r \<and> v = K then cow_share (pte m1 r' v) else pte m1 r' v)"
  | (ok) m2 where "\<And>is. uvm_copy_loop B r c (word_of_nat (K * 4096) # is) m1 = uvm_copy_loop B r c is m2"
      "shared live R r c (Suc K) m m2"
proof -
  let ?va = "word_of_nat (K * 4096) :: usize" let ?e = "pte m r K"
  have KN: "K < NPAGES" using USERPAGES_less [OF K(1)] .
  note va = page_address [OF KN]
  note S' = sharedD [OF S]
  have e: "pte m1 r K = ?e" "pte m1 c K = pte m c K" using S'(3) [OF rc(1) KN] S'(3) [OF rc(2) KN] by simp_all
  note T1 = space_invD(6) [OF S'(1) rc(1)]
  show ?thesis
  proof (cases "is_v ?e")
    case False
    have "uvm_copy_loop B r c (?va # is) m1 = uvm_copy_loop B r c is m1" for "is"
      using False by (cases rule: walk_read_pte [OF T1 va(2), of B]) (simp_all add: va(3) e del: of_nat_mult)
    moreover have "pte m1 r' v =
            (if v < Suc K \<and> is_v (pte m r v) \<and> r' = r then cow_share (pte m r v)
             else if v < Suc K \<and> is_v (pte m r v) \<and> r' = c then child_entry (pte m r v)
             else pte m r' v)" if "r' \<in> R" "v < NPAGES" for r' v
      using S'(3) [OF that] False by (auto simp: less_Suc_eq)
    then have "shared live R r c (Suc K) m m1" using S'(1,2) by (simp add: shared_def)
    ultimately show ?thesis by (rule ok)
  next
    case True
    obtain s where s: "walk_raw B r ?va False m1 = Some (Ok s, m1)" "rd_slot m1 s = Some ?e" "slot m1 2 r ?va = Some s"
      using True by (cases rule: walk_read_pte [OF T1 va(2), of B]) (simp_all add: va(3) e del: of_nat_mult)
    note pg = user_page_ram [OF I rc(1) K(1) True]
    note cs = cow_share_facts [of ?e] and ce = child_entry_facts [OF pg(1)]
    show ?thesis
    proof (rule write_pte [OF T1 va(2) s(3) space_invD(1) [OF S'(1)], of "cow_share ?e"])
      fix m2
      assume m2: "wr_table (fst s) (snd s) (cow_share ?e) m1 = Some m2" "mem_inv live m2"
        "updates m1 r m2 ((pte m1 r)(vpn ?va := cow_share ?e))" "slot m2 2 r ?va = Some s" "refs m2 = refs m1"
      note U = updates_rest [OF space_invD(2) [OF S'(1)] rc(1) m2(3)]
      have ptes2: "pte m2 r' v = (if r' = r \<and> v = K then cow_share ?e else pte m1 r' v)" if "r' \<in> R" "v < NPAGES" for r' v
        using U(2) [OF that(1), of v] updatesD(5) [OF m2(3) that(2)] va(3) by (cases "r' = r") auto
      have I2: "space_inv live m2 R"
        by (rule space_inv_retouch [OF S'(1) rc(1) K(1) _ m2(2) U(1) ptes2])
          (use e True cs pg(3) U(3) m2(5) in simp_all)
      have abs: "\<not> is_v (pte m2 c (vpn ?va))" using ptes2 [OF rc(2) KN] rc(3) K(2) e(2) va(3) by simp
      have loop: "uvm_copy_loop B r c (?va # is) m1 = do {
            (x, m) \<leftarrow> map_pages B c ?va (pte_to_pa ?e) PGSIZE (pte_flags (cow_share ?e)) m2;
            case x of
              Err z \<Rightarrow> do { m \<leftarrow> unmap B c 0 (word_of_nat K) True m; Some (Err z, m) }
            | Ok _ \<Rightarrow> do { m \<leftarrow> increment_ref (pte_to_pa ?e) m; uvm_copy_loop B r c is m } }" for "is"
      proof -
        have "?va div PGSIZE = word_of_nat K"
          using KN by (simp add: word_unat_eq_iff unat_div unat_of_nat NPAGES_def del: of_nat_mult)
        then show ?thesis
          using s(1,2) True m2(1)
          by (simp add: cow_share_def [symmetric] cs(1) Let_def del: of_nat_mult riscv_values cong del: result.case_cong_weak)
      qed
      show ?thesis
      proof (rule map_one_spec [OF B m2(2) space_invD(6) [OF I2 rc(2)] va(2) abs, of "pte_to_pa ?e" "pte_flags (cow_share ?e)"])
        fix m3
        assume m3: "\<And>n. map_loop B (Suc n) c ?va (pte_to_pa ?e) (pte_flags (cow_share ?e)) m2 = Some (Err VmAlloc, m3)"
          "mem_inv live m3" "updates m2 c m3 (pte m2 c)"
        note U3 = updates_rest [OF space_invD(2) [OF I2] rc(2) m3(3)]
        have same: "same_ptes R m2 m3" using U3(2) updatesD(5) [OF m3(3)] unfolding same_ptes_def by metis
        have I3: "space_inv live m3 R"
          by (rule space_inv_same [OF I2 m3(2) U3(1) same U3(3) U3(4) [OF rd_page_frames]])
        have rd3: "rd_page m3 q = rd_page m q" for q using U3(3) U(3) S'(2) by simp
        have "pte m3 r' v = (if r' = r \<and> v = K then cow_share (pte m1 r' v) else pte m1 r' v)" if "r' \<in> R" "v < NPAGES" for r' v
          using same_ptesD [OF same that] ptes2 [OF that] e(1) by auto
        then show ?thesis using fail [of m3] loop [unfolded map_page_single [OF va(1)] m3(1)] I3 rd3 by simp
      next
        fix m3
        assume m3: "\<And>n. map_loop B (Suc n) c ?va (pte_to_pa ?e) (pte_flags (cow_share ?e)) m2 =
            map_loop B n c (?va + PGSIZE) (pte_to_pa ?e + PGSIZE) (pte_flags (cow_share ?e)) m3" "mem_inv live m3"
          "updates m2 c m3 ((pte m2 c)(vpn ?va := pa_to_pte (pte_to_pa ?e) OR pte_flags (cow_share ?e) OR PTE_V))"
        note U3 = updates_rest [OF space_invD(2) [OF I2] rc(2) m3(3)]
        have ptes3: "pte m3 r' v = (if r' = c \<and> v = K then child_entry ?e else pte m2 r' v)" if "r' \<in> R" "v < NPAGES" for r' v
          using U3(2) [OF that(1), of v] updatesD(5) [OF m3(3) that(2)] va(3) cs(1)
          by (cases "r' = c") (auto simp only: child_entry_def fun_upd_def split: if_splits)
        have d2: "rd_page m2 q = rd_page m q" for q using U(3) S'(2) by simp
        have fr2: "frames m2 (pte_to_pa ?e) \<noteq> None" using rd_page_frames d2 pg(2) by metis
        have rd3: "rd_page m3 q = rd_page m q" for q using U3(3) d2 by simp
        have fr3: "frames m3 (pte_to_pa ?e) \<noteq> None" using rd_page_frames rd3 pg(2) by metis
        have rf3: "refs m3 q = refs m1 q" if "rd_page m q \<noteq> None" for q
          using U3(4) [OF rd_page_frames] that d2 m2(5) by metis
        have "refs m3 (pte_to_pa ?e) < 255"
          using rf3 [OF pg(2)] shared_refs [OF I S rc(1) less_imp_le [OF K(1)] pg(2)] bound pg(2) by fastforce
        then show ?thesis
        proof (rule increment_ref_spec [OF m3(2) fr3])
          fix m4
          assume m4: "increment_ref (pte_to_pa ?e) m3 = Some m4" "mem_inv live m4" "frames m4 = frames m3"
            "refs m4 (pte_to_pa ?e) = refs m3 (pte_to_pa ?e) + 1"
            "\<And>q. ram_page q \<Longrightarrow> q \<noteq> pte_to_pa ?e \<Longrightarrow> refs m4 q = refs m3 q"
          have "tables_kept m3 m4" using m4(3) by (simp add: tables_kept_def)
          note D4 = tables_keptD [OF U3(1) this]
          have ptes4: "pte m4 r' v = (if r' = c \<and> v = K then child_entry ?e else pte m2 r' v)" if "r' \<in> R" "v < NPAGES" for r' v
            using D4(2) [OF that(1)] ptes3 [OF that] by simp
          have rd4: "rd_page m4 q = rd_page m q" for q using m4(3) rd3 by (simp add: rd_page_def)
          have I4: "space_inv live m4 R"
          proof (rule space_inv_share [OF I2 rc(2) K(1) _ m4(2) D4(1) ptes4 ce(2) _ ce(4,1)])
            show "\<not> is_v (pte m2 c K)" "is_r (child_entry ?e)" using abs va(3) ce(5) pg(3) by simp_all
            show "rd_page m2 (pte_to_pa ?e) \<noteq> None" using d2 pg(2) by simp
            show "rd_page m4 q = rd_page m2 q" for q using rd4 d2 by simp
            show "refs m4 q = (if q = pte_to_pa ?e then refs m2 q + 1 else refs m2 q)" if q: "rd_page m2 q \<noteq> None" for q
            proof -
              have "ram_page q" using rd_page_frames [OF q] m2(2) by (auto simp: mem_inv_def)
              moreover have "refs m3 q = refs m2 q" using U3(4) [OF rd_page_frames [OF q]] .
              ultimately show ?thesis using m4(4,5) by auto
            qed
            show "\<not> is_w (pte m2 r' v)" if x: "(r', v) \<in> mappings m2 R (pte_to_pa ?e)" for r' v
            proof
              assume w: "is_w (pte m2 r' v)"
              from x have x': "r' \<in> R" "v < USERPAGES" "is_v (pte m2 r' v)" "pte_to_pa (pte m2 r' v) = pte_to_pa ?e"
                by (auto simp: mappings_def)
              have "pte m2 r K = cow_share ?e" using ptes2 [OF rc(1) KN] by simp
              then have "r = r' \<and> K = v"
                using sole_writer [OF I2 x'(1-3) w rc(1) K(1)] x'(4) cs True by simp
              with w \<open>pte m2 r K = cow_share ?e\<close> cs(4) show False by auto
            qed
          qed
          have "pte m4 r' v =
            (if v < Suc K \<and> is_v (pte m r v) \<and> r' = r then cow_share (pte m r v)
             else if v < Suc K \<and> is_v (pte m r v) \<and> r' = c then child_entry (pte m r v)
             else pte m r' v)" if "r' \<in> R" "v < NPAGES" for r' v
            using ptes4 [OF that] ptes2 [OF that] S'(3) [OF that] True rc(3) by (auto simp: less_Suc_eq)
          then have "shared live R r c (Suc K) m m4" using I4 rd4 by (simp add: shared_def)
          moreover have "uvm_copy_loop B r c (?va # is) m1 = uvm_copy_loop B r c is m4" for "is"
            using loop [unfolded map_page_single [OF va(1)] m3(1)] m4(1) by simp
          ultimately show ?thesis by (intro ok)
        qed
      qed
    qed
  qed
qed

text \<open>The outcome of the whole loop, started with the pages below \<open>K\<close> already shared.\<close>

lemma copy_loop_spec:
  assumes B: "buddy_ok B live" and I: "space_inv live m R" and rc: "r \<in> R" "c \<in> R" "r \<noteq> c"
    and bound: "\<forall>p. rd_page m p \<noteq> None \<longrightarrow> refs m p \<le> 127"
    and empty: "\<forall>v < USERPAGES. \<not> is_v (pte m c v)"
  shows "N \<le> USERPAGES \<Longrightarrow> K \<le> N \<Longrightarrow> shared live R r c K m m1 \<Longrightarrow>
    (\<exists>m'. uvm_copy_loop B r c (map (\<lambda>v. word_of_nat (v * 4096)) [K..<N]) m1 = Some (Ok (), m') \<and>
        shared live R r c N m m') \<or>
    (\<exists>k m2 m' m3. uvm_copy_loop B r c (map (\<lambda>v. word_of_nat (v * 4096)) [K..<N]) m1 = Some (Err VmAlloc, m') \<and>
        k < USERPAGES \<and> shared live R r c k m m2 \<and> space_inv live m3 R \<and> (\<forall>q. rd_page m3 q = rd_page m q) \<and>
        (\<forall>r' \<in> R. \<forall>v < NPAGES. pte m3 r' v = (if r' = r \<and> v = k then cow_share (pte m2 r' v) else pte m2 r' v)) \<and>
        unmapped live R c {0..<k} m3 m')"
proof (induction "N - K" arbitrary: K m1)
  case 0
  then show ?case by simp
next
  case (Suc n)
  then have K: "K < N" "K < USERPAGES" by linarith+
  then have list: "map (\<lambda>v. word_of_nat (v * 4096)) [K..<N] =
      (word_of_nat (K * 4096) :: usize) # map (\<lambda>v. word_of_nat (v * 4096)) [Suc K..<N]"
    by (simp add: upt_conv_Cons del: of_nat_mult)
  have abs: "\<not> is_v (pte m c K)" using empty K(2) by simp
  show ?case
  proof (rule copy_step [OF B I rc bound K(2) abs Suc.prems(3)])
    fix m2
    assume f: "\<And>is. uvm_copy_loop B r c (word_of_nat (K * 4096) # is) m1 =
        do { m \<leftarrow> unmap B c 0 (word_of_nat K) True m2; Some (Err VmAlloc, m) }"
      "space_inv live m2 R" "\<And>q. rd_page m2 q = rd_page m q"
      "\<And>r' v. r' \<in> R \<Longrightarrow> v < NPAGES \<Longrightarrow>
        pte m2 r' v = (if r' = r \<and> v = K then cow_share (pte m1 r' v) else pte m1 r' v)"
    have "page_aligned 0" "vpn 0 = 0" by (simp_all add: page_aligned_unat vpn_def)
    with unmap_spec [OF B f(2) rc(2), of 0 K] K(2) obtain m3 where
      "unmap B c 0 (word_of_nat K) True m2 = Some m3" "unmapped live R c {0..<K} m2 m3" by auto
    then show ?thesis
      unfolding list f(1) using Suc.prems(3) K(2) f(2-4)
      by (intro disjI2 exI [of _ K] exI [of _ m1] exI [of _ m3] exI [of _ m2]) simp
  next
    fix m2
    assume k: "\<And>is. uvm_copy_loop B r c (word_of_nat (K * 4096) # is) m1 = uvm_copy_loop B r c is m2"
      "shared live R r c (Suc K) m m2"
    show ?thesis unfolding list k(1) by (rule Suc.hyps(1) [OF _ Suc.prems(1) _ k(2)]) (use Suc.hyps(2) K in simp_all)
  qed
qed

lemma peek_alike:
  assumes I: "space_inv live m R" "space_inv live m' R" and r: "r \<in> R" "r' \<in> R"
    and e: "is_v (pte m' r' (vpn a)) = is_v (pte m r (vpn a))"
      "is_v (pte m r (vpn a)) \<Longrightarrow> is_u (pte m' r' (vpn a)) = is_u (pte m r (vpn a))"
      "is_v (pte m r (vpn a)) \<Longrightarrow> is_u (pte m r (vpn a)) \<Longrightarrow> pte_to_pa (pte m' r' (vpn a)) = pte_to_pa (pte m r (vpn a))"
    and data: "\<And>q. rd_page m q \<noteq> None \<Longrightarrow> rd_page m' q \<noteq> None \<Longrightarrow> rd_page m' q = rd_page m q"
  shows "peek m' r' n a = peek m r n a"
proof (cases "a < MAXVA \<and> is_v (pte m r (vpn a)) \<and> is_u (pte m r (vpn a))")
  case True
  then have v: "vpn a < NPAGES" by (simp add: vpn_less)
  have "rd_page m (pte_to_pa (pte m r (vpn a))) \<noteq> None" "rd_page m' (pte_to_pa (pte m r (vpn a))) \<noteq> None"
    using user_entry_data(2) [OF I(1) r(1) v] user_entry_data(2) [OF I(2) r(2) v] True e by simp_all
  from data [OF this] True e show ?thesis by (simp add: peek_def Let_def)
qed (use e in \<open>auto simp: peek_def Let_def not_less\<close>)

lemma shared_views:
  assumes I: "space_inv live m R" and S: "shared live R r c K m m'" and rc: "r \<in> R" "c \<in> R" "r \<noteq> c" and K: "K \<le> USERPAGES"
  shows "r' \<in> R \<Longrightarrow> r' \<noteq> c \<Longrightarrow> peek m' r' n a = peek m r' n a"
    "vpn a < K \<Longrightarrow> \<not> is_v (pte m c (vpn a)) \<Longrightarrow> peek m' c n a = peek m r n a"
proof -
  note S' = sharedD [OF S]
  have d: "rd_page m' q = rd_page m q" for q by (rule S'(2))
  show "peek m' r' n a = peek m r' n a" if r': "r' \<in> R" "r' \<noteq> c"
  proof (cases "a < MAXVA")
    case True
    note P = S'(3) [OF r'(1) vpn_less [OF True]]
    show ?thesis
      by (rule peek_alike [OF I S'(1) r'(1) r'(1)]) (use P r'(2) cow_share_facts d in auto)
  qed (simp add: peek_high not_less)
  show "peek m' c n a = peek m r n a" if a: "vpn a < K" "\<not> is_v (pte m c (vpn a))"
  proof -
    have vU: "vpn a < USERPAGES" using a(1) K by simp
    note P = S'(3) [OF rc(2) USERPAGES_less [OF vU]]
    note ce = child_entry_facts [OF user_page_ram(1) [OF I rc(1) vU]]
    show ?thesis
      by (rule peek_alike [OF I S'(1) rc(1,2)]) (use P a rc(3) ce d in \<open>auto split: if_splits\<close>)
  qed
qed

lemma unmapped_views:
  assumes "space_inv live m R" "unmapped live R c V m m'" "r' \<in> R" "r' \<noteq> c"
  shows "peek m' r' n a = peek m r' n a"
proof (cases "a < MAXVA")
  case True
  show ?thesis
    by (rule peek_alike [OF assms(1) unmappedD(1) [OF assms(2)] assms(3,3)])
      (use unmappedD(2,3) [OF assms(2)] assms(3,4) vpn_less [OF True] in auto)
qed (simp add: peek_high not_less)

text \<open>
  Property C4.  \<open>Uvm::copy\<close> gives the child the memory image of the parent.  On success the child
  sees at every page below the size exactly what the parent sees, although no page was copied, and
  neither of them has a writable mapping there, so the first store of either is resolved by a page
  fault and invisible to the other.  If page tables run out of memory the child is left without
  user memory.  Either way the views of the parent and of every other process are unchanged.
\<close>

theorem fork_shares_memory:
  assumes "buddy_ok B live" "space_inv live m R" "r \<in> R" "c \<in> R" "r \<noteq> c" "sz \<le> TRAPFRAME"
    and "\<forall>v < USERPAGES. \<not> is_v (pte m c v)" and "\<forall>p. rd_page m p \<noteq> None \<longrightarrow> refs m p \<le> 127"
  shows "\<exists>res m'. uvm_copy B r c sz m = Some (res, m') \<and> space_inv live m' R \<and>
    (\<forall>r' \<in> R. r' \<noteq> c \<longrightarrow> (\<forall>n a. peek m' r' n a = peek m r' n a)) \<and>
    (case res of
       Ok _ \<Rightarrow> \<forall>a. pg_round_down a < sz \<longrightarrow> peek m' c sz a = peek m r sz a \<and>
         \<not> (is_v (pte m' c (vpn a)) \<and> is_w (pte m' c (vpn a))) \<and> \<not> (is_v (pte m' r (vpn a)) \<and> is_w (pte m' r (vpn a)))
     | Err e \<Rightarrow> e = VmAlloc \<and> (\<forall>v < USERPAGES. \<not> is_v (pte m' c v)))"
proof -
  let ?N = "(unat sz + 4095) div 4096"
  have sz: "unat sz \<le> USERPAGES * 4096" using assms(6) by (simp add: word_le_nat_alt USERPAGES_def NPAGES_def)
  then have N: "?N \<le> USERPAGES" by linarith
  have list: "page_range 0 sz = map (\<lambda>v. word_of_nat (v * 4096)) [0..<?N]" by (simp add: page_range_def mult.commute)
  have S0: "shared live R r c 0 m m" using assms(2) by (simp add: shared_def)
  have run: "uvm_copy B r c sz m = uvm_copy_loop B r c (map (\<lambda>v. word_of_nat (v * 4096)) [0..<?N]) m"
    by (simp only: uvm_copy_def list)
  from copy_loop_spec [OF assms(1-5,8,7) N le0 S0] show ?thesis
    unfolding run [symmetric]
  proof (elim disjE exE conjE)
    fix m' assume m': "uvm_copy B r c sz m = Some (Ok (), m')"
      "shared live R r c ?N m m'"
    note V = shared_views [OF assms(2) m'(2) assms(3-5) N]
    have "peek m' c sz a = peek m r sz a \<and>
        \<not> (is_v (pte m' c (vpn a)) \<and> is_w (pte m' c (vpn a))) \<and> \<not> (is_v (pte m' r (vpn a)) \<and> is_w (pte m' r (vpn a)))"
      if a: "pg_round_down a < sz" for a
    proof -
      have "unat a div 4096 * 4096 < unat sz" using a by (simp add: word_less_nat_alt unat_pg_round_down)
      then have k: "vpn a < ?N" unfolding vpn_def by linarith
      have kU: "vpn a < USERPAGES" using k N by simp
      note P = sharedD(3) [OF m'(2) _ USERPAGES_less [OF kU]]
      have "\<not> is_v (pte m c (vpn a))" using assms(7) kU by blast
      moreover have "\<not> is_w (pte m' c (vpn a))" if "is_v (pte m r (vpn a))"
        using P [OF assms(4)] that k assms(5) child_entry_facts(4) [OF user_page_ram(1) [OF assms(2,3) kU that]] by simp
      ultimately show ?thesis
        using V(2) [OF k] P [OF assms(3)] P [OF assms(4)] k cow_share_facts(4) assms(5) by auto
    qed
    then show ?thesis using m' V(1) sharedD(1) [OF m'(2)] by (intro exI [of _ "Ok ()"] exI [of _ m']) simp
  next
    fix k m2 m' m3
    assume f: "uvm_copy B r c sz m = Some (Err VmAlloc, m')"
      "k < USERPAGES" "shared live R r c k m m2" "space_inv live m3 R" "\<forall>q. rd_page m3 q = rd_page m q"
      "\<forall>r' \<in> R. \<forall>v < NPAGES. pte m3 r' v = (if r' = r \<and> v = k then cow_share (pte m2 r' v) else pte m2 r' v)"
      "unmapped live R c {0..<k} m3 m'"
    note V = shared_views(1) [OF assms(2) f(3) assms(3-5) less_imp_le [OF f(2)]]
    have "peek m' r' n a = peek m r' n a" if r': "r' \<in> R" "r' \<noteq> c" for r' n a
    proof (cases "a < MAXVA")
      case True
      have "peek m3 r' n a = peek m2 r' n a"
        by (rule peek_alike [OF sharedD(1) [OF f(3)] f(4) r'(1,1)])
          (use f(5,6) r' vpn_less [OF True] cow_share_facts sharedD(2) [OF f(3)] in auto)
      with V [OF r'] unmapped_views [OF f(4,7) r'] show ?thesis by simp
    qed (simp add: peek_high not_less)
    moreover have "\<not> is_v (pte m' c v)" if "v < USERPAGES" for v
      using unmappedD(3) [OF f(7) assms(4) USERPAGES_less [OF that]] f(6) sharedD(3) [OF f(3) assms(4) USERPAGES_less [OF that]]
        assms(4,5,7) that USERPAGES_less [OF that] by auto
    ultimately show ?thesis
      using f(1) unmappedD(1) [OF f(7)] by (intro exI [of _ "Err VmAlloc"] exI [of _ m']) simp
  qed
qed

theorem fork_shares_memory_witness:
  "\<exists>res m'. uvm_copy list_buddy 0x80100000 0x80110000 0x3FFFFFE000 example_users = Some (res, m') \<and>
     space_inv list_live m' {0x80100000, 0x80110000} \<and>
     peek m' 0x80100000 0x3FFFFFE000 0x3FFFFFD000 = peek example_users 0x80100000 0x3FFFFFE000 0x3FFFFFD000"
proof -
  have c: "0x80110000 \<in> {0x80100000, 0x80110000 :: usize}" "0x80100000 \<noteq> (0x80110000 :: usize)" "0x3FFFFFE000 \<le> TRAPFRAME"
    by simp_all
  have e: "\<forall>v < USERPAGES. \<not> is_v (pte example_users 0x80110000 v)"
    by (auto simp: users_ptes USERPAGES_less system_tab_def USERPAGES_def NPAGES_def)
  have b: "\<forall>p. rd_page example_users p \<noteq> None \<longrightarrow> refs example_users p \<le> 127" by (simp add: users_refs)
  from fork_shares_memory [OF list_buddy_ok users_space users_first c e b] obtain res m' where
    "uvm_copy list_buddy 0x80100000 0x80110000 0x3FFFFFE000 example_users = Some (res, m')"
    "space_inv list_live m' {0x80100000, 0x80110000}"
    "\<forall>r' \<in> {0x80100000, 0x80110000}. r' \<noteq> 0x80110000 \<longrightarrow> (\<forall>n a. peek m' r' n a = peek example_users r' n a)"
    by (elim exE conjE)
  then show ?thesis by (intro exI [of _ res] exI [of _ m']) simp
qed

end
