(* ===== verification/Usermem.thy ===== *)
theory Usermem
  imports Vm_Fork
begin

text \<open>
  The memory of the current process as the rest of the kernel uses it: \<open>copy_from\<close> and \<open>copy_to\<close>
  behind a small contract.  Pipes, the console and the system calls are verified against the
  contract; the virtual memory of theory \<open>Vm_Fault\<close> provides it.
\<close>

locale user_memory =
  fixes minv :: "'m \<Rightarrow> bool"
    and view :: "'m \<Rightarrow> usize \<Rightarrow> u8 option"
    and others :: "'m \<Rightarrow> 'o"
    and cfrom :: "usize \<Rightarrow> nat \<Rightarrow> 'm \<Rightarrow> ((u8 list, VmError) result \<times> 'm) option"
    and cto :: "u8 list \<Rightarrow> usize \<Rightarrow> 'm \<Rightarrow> ((unit, VmError) result \<times> 'm) option"
  assumes copy_in: "minv m \<Longrightarrow>
      \<exists>res m'. cfrom va n m = Some (res, m') \<and> minv m' \<and> view m' = view m \<and> others m' = others m \<and>
        (case res of
           Ok bs \<Rightarrow> length bs = n \<and> (\<forall>i < n. \<forall>b. view m (va + word_of_nat i) = Some b \<longrightarrow> bs ! i = b)
         | Err _ \<Rightarrow> True)"
    and copy_out: "minv m \<Longrightarrow> length src < 2 ^ 64 \<Longrightarrow>
      \<exists>res m' k. cto src va m = Some (res, m') \<and> minv m' \<and> others m' = others m \<and> k \<le> length src \<and>
        view m' = poke (view m) va (take k src) \<and> (is_ok res \<longrightarrow> k = length src) \<and> (\<not> is_ok res \<longrightarrow> k < length src)"
begin

lemma copy_in_byte:
  assumes "minv m"
  obtains (fail) e m' where "cfrom va 1 m = Some (Err e, m')" "minv m'" "view m' = view m" "others m' = others m"
  | (ok) b m' where "cfrom va 1 m = Some (Ok [b], m')" "minv m'" "view m' = view m" "others m' = others m"
      "view m va \<noteq> None \<Longrightarrow> view m va = Some b"
proof -
  from copy_in [OF assms, of va 1] obtain res m' where
    r: "cfrom va 1 m = Some (res, m')" "minv m'" "view m' = view m" "others m' = others m" and
    c: "case res of
           Ok bs \<Rightarrow> length bs = 1 \<and> (\<forall>i < 1. \<forall>b. view m (va + word_of_nat i) = Some b \<longrightarrow> bs ! i = b)
         | Err _ \<Rightarrow> True" by blast
  show ?thesis
  proof (cases res)
    case (Err e)
    with r show ?thesis by (intro fail [of e m']) simp_all
  next
    case (Ok bs)
    with c obtain b where b: "bs = [b]" by (auto simp: length_Suc_conv)
    have "view m va \<noteq> None \<Longrightarrow> view m va = Some b" using c Ok b by auto
    with r Ok b show ?thesis by (intro ok [of b m']) simp_all
  qed
qed

lemma copy_out_byte:
  assumes "minv m"
  obtains (fail) e m' where "cto [b] va m = Some (Err e, m')" "minv m'" "view m' = view m" "others m' = others m"
  | (ok) m' where "cto [b] va m = Some (Ok (), m')" "minv m'" "view m' = poke (view m) va [b]" "others m' = others m"
proof -
  from copy_out [OF assms, of "[b]" va] obtain res m' k where
    r: "cto [b] va m = Some (res, m')" "minv m'" "others m' = others m" "view m' = poke (view m) va (take k [b])"
      "is_ok res \<longrightarrow> k = length [b]" "\<not> is_ok res \<longrightarrow> k < length [b]" by auto
  show ?thesis
  proof (cases res)
    case (Err e)
    with r show ?thesis by (intro fail [of e m']) simp_all
  next
    case (Ok u)
    with r show ?thesis by (intro ok [of m']) simp_all
  qed
qed

end

section \<open>Virtual memory provides the contract\<close>

definition user_inv :: "'b Buddy \<Rightarrow> ('b \<Rightarrow> usize set) \<Rightarrow> usize set \<Rightarrow> usize \<Rightarrow> usize \<Rightarrow> 'b Mem \<Rightarrow> bool" where
  "user_inv B live R r sz m \<longleftrightarrow> buddy_ok B live \<and> space_inv live m R \<and> r \<in> R \<and> sz \<le> MAXVA"

definition other_views :: "usize set \<Rightarrow> usize \<Rightarrow> 'b Mem \<Rightarrow> usize \<Rightarrow> usize \<Rightarrow> usize \<Rightarrow> u8 option" where
  "other_views R r m r' n a = (if r' \<in> R \<and> r' \<noteq> r then peek m r' n a else None)"

interpretation um: user_memory "user_inv B live R r sz" "\<lambda>m. peek m r sz" "other_views R r" "copy_from B r sz" "copy_to B r sz"
  for B :: "'b Buddy" and live R r sz
proof
  fix m va n assume "user_inv B live R r sz m"
  then have u: "buddy_ok B live" "space_inv live m R" "r \<in> R" "sz \<le> MAXVA" by (simp_all add: user_inv_def)
  from copy_from_spec [OF u(1,4,3,2), of va n] obtain res m' where
    c: "copy_from B r sz va n m = Some (res, m')" "space_inv live m' R" "same_views R r sz m m'" and
    d: "case res of
       Ok bs \<Rightarrow> length bs = n \<and> (\<forall>i < n. \<forall>b. peek m r sz (va + word_of_nat i) = Some b \<longrightarrow> bs ! i = b)
     | Err e \<Rightarrow> e = VmAlloc \<or> e = VmInvalidAddress \<and> (\<exists>i < n. peek m r sz (va + word_of_nat i) = None)" by blast
  have "other_views R r m' = other_views R r m"
    by (intro ext) (simp add: other_views_def same_viewsD [OF c(3)])
  moreover have "peek m' r sz = peek m r sz"
    by (intro ext same_viewsD [OF c(3) u(3)]) simp
  moreover have "case res of
       Ok bs \<Rightarrow> length bs = n \<and> (\<forall>i < n. \<forall>b. peek m r sz (va + word_of_nat i) = Some b \<longrightarrow> bs ! i = b)
     | Err e \<Rightarrow> True" using d by (cases res) simp_all
  ultimately show "\<exists>res m'. copy_from B r sz va n m = Some (res, m') \<and> user_inv B live R r sz m' \<and> peek m' r sz = peek m r sz \<and>
      other_views R r m' = other_views R r m \<and>
      (case res of
       Ok bs \<Rightarrow> length bs = n \<and> (\<forall>i < n. \<forall>b. peek m r sz (va + word_of_nat i) = Some b \<longrightarrow> bs ! i = b)
     | Err e \<Rightarrow> True)"
    using c(1,2) u by (intro exI [of _ res] exI [of _ m']) (simp add: user_inv_def)
next
  fix m src va assume "user_inv B live R r sz m" and len: "length (src :: u8 list) < 2 ^ 64"
  then have u: "buddy_ok B live" "space_inv live m R" "r \<in> R" "sz \<le> MAXVA" by (simp_all add: user_inv_def)
  from copy_to_spec [OF u(1,4,3,2) len, of va] obtain res m' k where
    c: "copy_to B r sz src va m = Some (res, m')" "space_inv live m' R" "k \<le> length src"
      "peek m' r sz = poke (peek m r sz) va (take k src)"
      "\<forall>r' \<in> R. r' \<noteq> r \<longrightarrow> (\<forall>n a. peek m' r' n a = peek m r' n a)" and
    d: "case res of Ok _ \<Rightarrow> k = length src
       | Err e \<Rightarrow> k < length src \<and> (e = VmAlloc \<or> \<not> pokeable m r sz (va + word_of_nat k))" by blast
  have "other_views R r m' = other_views R r m" using c(5) by (intro ext) (simp add: other_views_def)
  moreover have "is_ok res \<longrightarrow> k = length src" "\<not> is_ok res \<longrightarrow> k < length src" using d by (cases res; simp)+
  ultimately show "\<exists>res m' k. copy_to B r sz src va m = Some (res, m') \<and> user_inv B live R r sz m' \<and>
      other_views R r m' = other_views R r m \<and> k \<le> length src \<and>
      peek m' r sz = poke (peek m r sz) va (take k src) \<and> (is_ok res \<longrightarrow> k = length src) \<and> (\<not> is_ok res \<longrightarrow> k < length src)"
    using c u by (intro exI [of _ res] exI [of _ m'] exI [of _ k]) (simp add: user_inv_def)
qed

lemma other_views_peek:
  assumes "other_views R r m' = other_views R r m" "r' \<in> R" "r' \<noteq> r"
  shows "peek m' r' sz = peek m r' sz"
proof
  fix a
  from assms(1) have "other_views R r m' r' sz a = other_views R r m r' sz a" by simp
  then show "peek m' r' sz a = peek m r' sz a" using assms(2,3) by (simp add: other_views_def)
qed

section \<open>Example\<close>

lemma users_inv:
  "user_inv list_buddy list_live {0x80100000, 0x80110000} 0x80100000 0x3FFFFFE000 example_users"
  "user_inv list_buddy list_live {0x80100000, 0x80110000} 0x80110000 0x2000 example_users"
  using list_buddy_ok users_space by (simp_all add: user_inv_def)

lemma users_bytes:
  "\<forall>i < unat (3 :: usize). peek example_users 0x80100000 0x3FFFFFE000 (0x3FFFFFD000 + word_of_nat i) \<noteq> None"
proof (intro allI impI users_visible)
  fix i :: nat assume i: "i < unat (3 :: usize)"
  then have "unat (0x3FFFFFD000 + word_of_nat i :: usize) = 0x3FFFFFD000 + i"
    by (simp add: unat_word_ariths unat_of_nat)
  with i show "0x3FFFFFB000 \<le> 0x3FFFFFD000 + (word_of_nat i :: usize)"
    "0x3FFFFFD000 + word_of_nat i < (0x3FFFFFE000 :: usize)"
    by (simp_all add: word_le_nat_alt word_less_nat_alt)
qed

end
