(* ===== verification/Message.thy ===== *)
theory Message
  imports Usermem
begin

text \<open>
  The kernel message buffer (\<open>kernel/src/message.rs\<close>) and the system calls on it
  (\<open>sys_set_msg\<close>, \<open>sys_get_msg\<close> of \<open>kernel/src/sysproc.rs\<close>).
\<close>

section \<open>Definitions\<close>

definition BUFSIZE :: usize where "BUFSIZE = 4096"

record MessageBuffer =
  msg_data :: "u8 list"
  valid_len :: usize

definition message_new :: MessageBuffer where
  "message_new = \<lparr>msg_data = replicate 4096 0, valid_len = 0\<rparr>"

definition set_msg :: "u8 list \<Rightarrow> usize \<Rightarrow> MessageBuffer \<Rightarrow> (usize, MessageError) result \<times> MessageBuffer" where
  "set_msg buf len mb =
     (if len > BUFSIZE \<or> unat len > length buf then (Err MsgOutOfRange, mb)
      else (Ok len, mb\<lparr>msg_data := splice (msg_data mb) 0 (take (unat len) buf), valid_len := len\<rparr>))"

text \<open>\<open>get_msg\<close> returns the caller's buffer with the message copied into its beginning.\<close>

definition get_msg :: "u8 list \<Rightarrow> usize \<Rightarrow> MessageBuffer \<Rightarrow> (usize, MessageError) result \<times> u8 list" where
  "get_msg buf len mb =
     (if len > valid_len mb \<or> unat len > length buf then (Err MsgOutOfRange, buf)
      else (Ok len, splice buf 0 (take (unat len) (msg_data mb))))"

definition sys_set_msg :: "(usize \<Rightarrow> nat \<Rightarrow> 'm \<Rightarrow> ((u8 list, VmError) result \<times> 'm) option) \<Rightarrow>
    usize \<Rightarrow> usize \<Rightarrow> MessageBuffer \<Rightarrow> 'm \<Rightarrow> ((usize, SysError) result \<times> MessageBuffer \<times> 'm) option" where
  "sys_set_msg cfrom src len mb m =
     (if len > BUFSIZE then Some (Err InvalidArgument, mb, m)
      else do {
        (r, m) \<leftarrow> cfrom src (unat len) m;
        case r of
          Ok dst \<Rightarrow> let (n, mb) = set_msg dst len mb in Some (map_err sys_of_message n, mb, m)
        | Err _ \<Rightarrow> Some (Err BadAddress, mb, m)
      })"

definition sys_get_msg :: "(u8 list \<Rightarrow> usize \<Rightarrow> 'm \<Rightarrow> ((unit, VmError) result \<times> 'm) option) \<Rightarrow>
    usize \<Rightarrow> usize \<Rightarrow> MessageBuffer \<Rightarrow> 'm \<Rightarrow> ((usize, SysError) result \<times> 'm) option" where
  "sys_get_msg cto dst len mb m =
     (if len > BUFSIZE then Some (Err InvalidArgument, m)
      else case get_msg (replicate (unat len) 0) len mb of
        (Err e, _) \<Rightarrow> Some (Err (sys_of_message e), m)
      | (Ok n, src) \<Rightarrow> do {
          (r, m) \<leftarrow> cto (take (unat n) src) dst m;
          Some (if is_ok r then Ok n else Err BadAddress, m)
        })"

section \<open>Storing and fetching\<close>

definition message_wf :: "MessageBuffer \<Rightarrow> bool" where
  "message_wf mb \<longleftrightarrow> length (msg_data mb) = 4096 \<and> valid_len mb \<le> BUFSIZE"

definition message :: "MessageBuffer \<Rightarrow> u8 list" where
  "message mb = take (unat (valid_len mb)) (msg_data mb)"

lemma message_new_wf: "message_wf message_new" "message message_new = []"
  by (simp_all add: message_wf_def message_new_def BUFSIZE_def message_def)

lemma unat_BUFSIZE: "len \<le> BUFSIZE \<Longrightarrow> unat len \<le> 4096"
  by (simp add: BUFSIZE_def word_le_nat_alt)

lemma set_msg_spec:
  assumes "message_wf mb" "len \<le> BUFSIZE" "length buf = unat len"
  shows "fst (set_msg buf len mb) = Ok len" "message_wf (snd (set_msg buf len mb))" "message (snd (set_msg buf len mb)) = buf"
  using assms leD [OF assms(2)] unat_BUFSIZE [OF assms(2)]
  by (simp_all add: set_msg_def message_wf_def message_def splice_def)

lemma get_msg_spec:
  assumes "message_wf mb"
  shows "get_msg (replicate (unat len) 0) len mb =
    (if valid_len mb < len then (Err MsgOutOfRange, replicate (unat len) 0) else (Ok len, take (unat len) (message mb)))"
proof (cases "valid_len mb < len")
  case False
  then have le: "unat len \<le> unat (valid_len mb)" by (simp add: word_less_nat_alt)
  moreover have "unat (valid_len mb) \<le> 4096" using assms unat_BUFSIZE [of "valid_len mb"] by (simp add: message_wf_def)
  ultimately have "length (take (unat len) (msg_data mb)) = unat len" using assms by (simp add: message_wf_def)
  with False le show ?thesis by (simp add: get_msg_def message_def)
qed (simp add: get_msg_def)

context user_memory
begin

lemma sys_set_msg_spec:
  assumes "minv m" "message_wf mb"
  shows "\<exists>res mb' m'. sys_set_msg cfrom src len mb m = Some (res, mb', m') \<and> minv m' \<and> message_wf mb' \<and>
    view m' = view m \<and> others m' = others m \<and>
    (case res of
       Ok n \<Rightarrow> n = len \<and> len \<le> BUFSIZE \<and> length (message mb') = unat len \<and>
         (\<forall>i < unat len. \<forall>b. view m (src + word_of_nat i) = Some b \<longrightarrow> message mb' ! i = b)
     | Err e \<Rightarrow> mb' = mb \<and> (e = BadAddress \<or> e = InvalidArgument \<and> len > BUFSIZE))"
proof (cases "len > BUFSIZE")
  case True
  then show ?thesis using assms by (simp add: sys_set_msg_def)
next
  case False
  then have le: "len \<le> BUFSIZE" by simp
  from copy_in [OF assms(1), of src "unat len"] obtain r m1 where
    c: "cfrom src (unat len) m = Some (r, m1)" "minv m1" "view m1 = view m" "others m1 = others m" and
    d: "case r of
           Ok bs \<Rightarrow> length bs = unat len \<and> (\<forall>i < unat len. \<forall>b. view m (src + word_of_nat i) = Some b \<longrightarrow> bs ! i = b)
         | Err _ \<Rightarrow> True" by blast
  show ?thesis
  proof (cases r)
    case (Ok bs)
    then have "length bs = unat len" using d by simp
    note S = set_msg_spec [OF assms(2) le this]
    obtain n mb' where p: "set_msg bs len mb = (n, mb')" by fastforce
    with S d c Ok le leD [OF le] show ?thesis by (simp add: sys_set_msg_def)
  next
    case (Err e)
    with c False assms show ?thesis by (simp add: sys_set_msg_def)
  qed
qed

lemma sys_get_msg_spec:
  assumes "minv m" "message_wf mb"
  shows "\<exists>res m' k. sys_get_msg cto dst len mb m = Some (res, m') \<and> minv m' \<and> others m' = others m \<and> k \<le> unat len \<and>
    view m' = poke (view m) dst (take k (message mb)) \<and>
    (case res of
       Ok n \<Rightarrow> n = len \<and> len \<le> valid_len mb \<and> k = unat len
     | Err e \<Rightarrow> e = InvalidArgument \<and> k = 0 \<and> len > valid_len mb \<or> e = BadAddress \<and> k < unat len \<and> len \<le> valid_len mb)"
proof (cases "len > valid_len mb")
  case True
  then have "sys_get_msg cto dst len mb m = Some (Err InvalidArgument, m)"
    using get_msg_spec [OF assms(2), of len] by (simp add: sys_get_msg_def)
  with True assms show ?thesis by (intro exI [of _ "Err InvalidArgument"] exI [of _ m] exI [of _ 0]) simp
next
  case False
  then have le: "len \<le> BUFSIZE" using assms(2) by (auto simp: message_wf_def)
  let ?src = "take (unat len) (message mb)"
  have L: "length ?src = unat len"
    using False assms(2) unat_BUFSIZE [of "valid_len mb"] by (simp add: message_wf_def message_def word_less_nat_alt)
  then have l64: "length ?src < 2 ^ 64" using unat_usize_less [of len] by simp
  from copy_out [OF assms(1) l64, of dst] obtain r m' k where
    c: "cto ?src dst m = Some (r, m')" "minv m'" "others m' = others m" "k \<le> unat len"
      "view m' = poke (view m) dst (take k ?src)" "is_ok r \<longrightarrow> k = unat len" "\<not> is_ok r \<longrightarrow> k < unat len"
    unfolding L by blast
  have "sys_get_msg cto dst len mb m = Some (if is_ok r then Ok len else Err BadAddress, m')"
    using get_msg_spec [OF assms(2), of len] leD [OF le] False c(1) by (simp add: sys_get_msg_def)
  moreover have "take k ?src = take k (message mb)" using c(4) by (simp add: min_def)
  ultimately show ?thesis
    using c False by (intro exI [of _ "if is_ok r then Ok len else Err BadAddress"] exI [of _ m'] exI [of _ k]) auto
qed

end

section \<open>Theorems\<close>

text \<open>
  Property C30.  A message set by one process is the message another process gets: after
  \<open>sys_set_msg\<close> succeeded with \<open>len\<close> visible bytes at \<open>src\<close>, \<open>sys_get_msg\<close> of another process with
  any length up to \<open>len\<close> either fails at its buffer or leaves exactly the first bytes of the sender in
  its memory; a longer request is refused with \<open>InvalidArgument\<close>.  The sender's memory never changes.
\<close>

theorem message_transfer:
  assumes "user_inv B live R r1 sz1 m" "user_inv B live R r2 sz2 m" "r1 \<noteq> r2" "message_wf mb"
    and "\<forall>i < unat len. peek m r1 sz1 (src + word_of_nat i) \<noteq> None"
  shows "\<exists>set mb1 m1. sys_set_msg (copy_from B r1 sz1) src len mb m = Some (set, mb1, m1) \<and>
    (case set of
       Err e \<Rightarrow> mb1 = mb
     | Ok n \<Rightarrow> n = len \<and> (\<exists>got m2. sys_get_msg (copy_to B r2 sz2) dst len2 mb1 m1 = Some (got, m2) \<and>
         peek m2 r1 sz1 = peek m r1 sz1 \<and>
         (case got of
            Ok k \<Rightarrow> k = len2 \<and> len2 \<le> len \<and>
              peek m2 r2 sz2 = poke (peek m r2 sz2) dst (map (\<lambda>i. the (peek m r1 sz1 (src + word_of_nat i))) [0..<unat len2])
          | Err e \<Rightarrow> e = InvalidArgument \<and> len < len2 \<or> e = BadAddress \<and> len2 \<le> len)))"
proof -
  let ?bytes = "\<lambda>k. map (\<lambda>i. the (peek m r1 sz1 (src + word_of_nat i))) [0..<k]"
  from um.sys_set_msg_spec [OF assms(1,4), of src len] obtain set mb1 m1 where
    run: "sys_set_msg (copy_from B r1 sz1) src len mb m = Some (set, mb1, m1)" and
    w: "user_inv B live R r1 sz1 m1" "message_wf mb1" "peek m1 r1 sz1 = peek m r1 sz1" "other_views R r1 m1 = other_views R r1 m" and
    d: "case set of
       Ok n \<Rightarrow> n = len \<and> len \<le> BUFSIZE \<and> length (message mb1) = unat len \<and>
         (\<forall>i < unat len. \<forall>b. peek m r1 sz1 (src + word_of_nat i) = Some b \<longrightarrow> message mb1 ! i = b)
     | Err e \<Rightarrow> mb1 = mb \<and> (e = BadAddress \<or> e = InvalidArgument \<and> len > BUFSIZE)" by blast
  show ?thesis
  proof (cases set)
    case (Err e)
    with run d show ?thesis by simp
  next
    case (Ok n)
    with d have o: "n = len" "len \<le> BUFSIZE" "length (message mb1) = unat len"
      "\<forall>i < unat len. \<forall>b. peek m r1 sz1 (src + word_of_nat i) = Some b \<longrightarrow> message mb1 ! i = b" by simp_all
    have bytes: "message mb1 = ?bytes (unat len)"
      using o(3,4) assms(5) by (intro nth_equalityI) fastforce+
    have len: "valid_len mb1 = len"
      using w(2) o(3) unat_BUFSIZE [of "valid_len mb1"] by (simp add: message_wf_def message_def word_unat_eq_iff)
    have u2: "user_inv B live R r2 sz2 m1" using w(1) assms(2) by (simp add: user_inv_def)
    have v2: "peek m1 r2 sz2 = peek m r2 sz2" using assms(2,3) by (intro other_views_peek [OF w(4)]) (simp_all add: user_inv_def)
    from um.sys_get_msg_spec [OF u2 w(2), of dst len2] obtain got m2 k where
      g: "sys_get_msg (copy_to B r2 sz2) dst len2 mb1 m1 = Some (got, m2)" "other_views R r2 m2 = other_views R r2 m1" "k \<le> unat len2"
        "peek m2 r2 sz2 = poke (peek m1 r2 sz2) dst (take k (message mb1))" and
      c: "case got of
         Ok n \<Rightarrow> n = len2 \<and> len2 \<le> valid_len mb1 \<and> k = unat len2
       | Err e \<Rightarrow> e = InvalidArgument \<and> k = 0 \<and> len2 > valid_len mb1 \<or> e = BadAddress \<and> k < unat len2 \<and> len2 \<le> valid_len mb1" by blast
    have v1: "peek m2 r1 sz1 = peek m r1 sz1"
      using other_views_peek [OF g(2), of r1 sz1] assms(1,3) w(3) by (simp add: user_inv_def)
    have "case got of
            Ok k \<Rightarrow> k = len2 \<and> len2 \<le> len \<and> peek m2 r2 sz2 = poke (peek m r2 sz2) dst (?bytes (unat len2))
          | Err e \<Rightarrow> e = InvalidArgument \<and> len < len2 \<or> e = BadAddress \<and> len2 \<le> len"
      using c g(4) v2 unfolding len bytes by (auto simp: take_map take_upt word_le_nat_alt split: result.splits)
    with run Ok o(1) g(1) v1 show ?thesis by simp
  qed
qed

section \<open>Witness\<close>

theorem message_transfer_witness:
  "\<exists>set mb1 m1. sys_set_msg (copy_from list_buddy 0x80100000 0x3FFFFFE000) 0x3FFFFFD000 3 message_new example_users
       = Some (set, mb1, m1) \<and> (case set of Err e \<Rightarrow> mb1 = message_new | Ok n \<Rightarrow> n = 3)"
proof -
  have ne: "0x80100000 \<noteq> (0x80110000 :: usize)" by simp
  from message_transfer [OF users_inv ne message_new_wf(1) users_bytes, of "0x10" 3] show ?thesis
    apply (elim exE conjE)
    subgoal for set mb1 m1
      by (intro exI [of _ set] exI [of _ mb1] exI [of _ m1]) (cases set; simp)
    done
qed

end
