(* ===== verification/Ring.thy ===== *)
theory Ring
  imports Prelude
begin

text \<open>
  Ring buffers.  The pipe and the console keep a fixed array and free-running counters; the array
  index is the counter modulo the size.  This theory shows that such a ring is a queue even when the
  counters wrap around, states the queue contract as a locale, and derives that a queue preserves the
  byte stream that goes through it.
\<close>

section \<open>Wrapping counters\<close>

definition ring_list :: "nat \<Rightarrow> 'a list \<Rightarrow> 'w :: len word \<Rightarrow> 'w word \<Rightarrow> 'a list" where
  "ring_list cap buf r w = map (\<lambda>k. buf ! ((unat r + k) mod cap)) [0..<unat (w - r)]"

lemma length_ring_list [simp]: "length (ring_list cap buf r w) = unat (w - r)"
  by (simp add: ring_list_def)

lemma nth_ring_list: "k < unat (w - r) \<Longrightarrow> ring_list cap buf r w ! k = buf ! ((unat r + k) mod cap)"
  by (simp add: ring_list_def)

lemma word_counter_mod:
  assumes "cap dvd (2 :: nat) ^ LENGTH('w)"
  shows "unat (a + b :: 'w :: len word) mod cap = (unat a + unat b) mod cap"
proof -
  have "unat (a + b) = (unat a + unat b) mod 2 ^ LENGTH('w)" by (simp add: unat_word_ariths)
  then show ?thesis using assms by (simp add: mod_mod_cancel)
qed

lemma word_counter_succ: "unat (w - r :: 'w :: len word) < 2 ^ LENGTH('w) - 1 \<Longrightarrow> unat (w + 1 - r) = unat (w - r) + 1"
proof -
  assume a: "unat (w - r) < 2 ^ LENGTH('w) - 1"
  have "unat (d + 1) = unat d + 1" if "unat d < 2 ^ LENGTH('w) - 1" for d :: "'w word"
    using that by (simp add: unat_word_ariths less_diff_conv)
  from this [OF a] show ?thesis by (simp add: algebra_simps)
qed

lemma counter_pred: "r \<noteq> (w :: 'w :: len word) \<Longrightarrow> unat (w - (r + 1)) = unat (w - r) - 1 \<and> 0 < unat (w - r)"
proof -
  assume "r \<noteq> w"
  then have nz: "w - r \<noteq> 0" by auto
  have "unat (d - 1) = unat d - 1 \<and> 0 < unat d" if "d \<noteq> 0" for d :: "'w word"
    using that by (simp add: unat_minus_one unat_gt_0)
  from this [OF nz] show ?thesis by (simp add: algebra_simps)
qed

lemma word_ring_push:
  fixes w r :: "'w :: len word"
  assumes cap: "cap dvd 2 ^ LENGTH('w)" "cap < 2 ^ LENGTH('w)" and buf: "length buf = cap" "unat (w - r) < cap"
  shows "ring_list cap (buf[unat w mod cap := x]) r (w + 1) = ring_list cap buf r w @ [x]"
proof (rule nth_equalityI)
  have n: "unat (w + 1 - r) = unat (w - r) + 1" using cap(2) buf(2) by (intro word_counter_succ) simp
  then show "length (ring_list cap (buf[unat w mod cap := x]) r (w + 1)) = length (ring_list cap buf r w @ [x])" by simp
  have i: "unat w mod cap = (unat r + unat (w - r)) mod cap" using word_counter_mod [OF cap(1), of r "w - r"] by simp
  have pos: "0 < cap" using buf(2) by simp
  fix k assume "k < length (ring_list cap (buf[unat w mod cap := x]) r (w + 1))"
  then have k: "k < unat (w - r) + 1" using n by simp
  show "ring_list cap (buf[unat w mod cap := x]) r (w + 1) ! k = (ring_list cap buf r w @ [x]) ! k"
  proof (cases "k = unat (w - r)")
    case True
    then show ?thesis using i buf pos n by (simp add: nth_ring_list nth_append)
  next
    case False
    then have k': "k < unat (w - r)" using k by simp
    have "(unat r + k) mod cap \<noteq> (unat r + unat (w - r)) mod cap"
    proof
      assume "(unat r + k) mod cap = (unat r + unat (w - r)) mod cap"
      then have "cap dvd unat (w - r) - k" using k' mod_eq_dvd_iff_nat [of "unat r + k" "unat r + unat (w - r)" cap] by simp
      with k' buf(2) show False by (auto dest: dvd_imp_le)
    qed
    then show ?thesis using k' i n by (simp add: nth_ring_list nth_append)
  qed
qed

lemma word_ring_pop:
  fixes w r :: "'w :: len word"
  assumes "cap dvd 2 ^ LENGTH('w)" "r \<noteq> w"
  shows "ring_list cap buf r w = buf ! (unat r mod cap) # ring_list cap buf (r + 1) w"
proof (rule nth_equalityI)
  note n = counter_pred [OF assms(2)]
  then show "length (ring_list cap buf r w) = length (buf ! (unat r mod cap) # ring_list cap buf (r + 1) w)" by simp
  fix k assume k: "k < length (ring_list cap buf r w)"
  have "(unat (r + 1) + j) mod cap = (unat r + Suc j) mod cap" for j
    using word_counter_mod [OF assms(1), of r 1] by (simp add: mod_Suc_eq) (metis Suc_eq_plus1 mod_add_left_eq add_Suc_right add_Suc)
  then show "ring_list cap buf r w ! k = (buf ! (unat r mod cap) # ring_list cap buf (r + 1) w) ! k"
    using k n by (cases k) (simp_all add: nth_ring_list)
qed

text \<open>The counters of the pipe and of the console are 64 bits wide.\<close>

lemma counter_mod: "cap dvd (2 :: nat) ^ 64 \<Longrightarrow> unat (a + b :: usize) mod cap = (unat a + unat b) mod cap"
  using word_counter_mod [where 'w = 64] by simp

lemma counter_succ: "unat (w - r :: usize) < 2 ^ 64 - 1 \<Longrightarrow> unat (w + 1 - r) = unat (w - r) + 1"
  using word_counter_succ [where 'w = 64, of w r] by simp

lemma ring_push:
  "cap dvd 2 ^ 64 \<Longrightarrow> cap < 2 ^ 64 \<Longrightarrow> length buf = cap \<Longrightarrow> unat (w - r :: usize) < cap \<Longrightarrow>
     ring_list cap (buf[unat w mod cap := x]) r (w + 1) = ring_list cap buf r w @ [x]"
  using word_ring_push [where 'w = 64, of cap buf w r x] by simp

lemma ring_pop: "cap dvd 2 ^ 64 \<Longrightarrow> (r :: usize) \<noteq> w \<Longrightarrow> ring_list cap buf r w = buf ! (unat r mod cap) # ring_list cap buf (r + 1) w"
  using word_ring_pop [where 'w = 64, of cap r w buf] by simp

lemma ring_empty: "ring_list cap buf r w = [] \<longleftrightarrow> r = w"
  using counter_pred [of r w] by (cases "r = w") (auto simp: ring_list_def)

lemma counter_split:
  assumes "unat (w - r :: usize) \<le> unat (e - r)"
  shows "unat (e - w) = unat (e - r) - unat (w - r)"
proof -
  have "e - w = (e - r) - (w - r)" by simp
  then show ?thesis using assms by (metis unat_sub_if_size)
qed

lemma ring_split:
  fixes w r e :: usize
  assumes "cap dvd 2 ^ 64" "unat (w - r) \<le> unat (e - r)"
  shows "ring_list cap buf r e = ring_list cap buf r w @ ring_list cap buf w e"
proof (rule nth_equalityI)
  note n = counter_split [OF assms(2)]
  then show "length (ring_list cap buf r e) = length (ring_list cap buf r w @ ring_list cap buf w e)" using assms(2) by simp
  fix k assume k: "k < length (ring_list cap buf r e)"
  have "unat w mod cap = (unat r + unat (w - r)) mod cap" using counter_mod [OF assms(1), of r "w - r"] by simp
  then have m: "(unat w + j) mod cap = (unat r + (unat (w - r) + j)) mod cap" for j
    by (metis add.assoc mod_add_left_eq)
  show "ring_list cap buf r e ! k = (ring_list cap buf r w @ ring_list cap buf w e) ! k"
  proof (cases "k < unat (w - r)")
    case False
    then have "(unat w + (k - unat (w - r))) mod cap = (unat r + k) mod cap" using m [of "k - unat (w - r)"] by simp
    then show ?thesis using k n False by (simp add: nth_ring_list nth_append)
  qed (use k in \<open>simp add: nth_ring_list nth_append\<close>)
qed

lemma ring_butlast:
  fixes w e :: usize
  assumes "w \<noteq> e"
  shows "ring_list cap buf w (e - 1) = butlast (ring_list cap buf w e)"
    and "last (ring_list cap buf w e) = buf ! ((unat w + (unat (e - w) - 1)) mod cap)"
proof -
  have nz: "e - w \<noteq> 0" using assms by simp
  have "e - 1 - w = (e - w) - 1" by (simp add: algebra_simps)
  then have n: "unat (e - 1 - w) = unat (e - w) - 1" using unat_minus_one [OF nz] by (simp only:)
  have pos: "0 < unat (e - w)" using nz by (simp add: unat_gt_0)
  then have u: "[0..<unat (e - w)] = [0..<unat (e - w) - 1] @ [unat (e - w) - 1]"
    by (metis Suc_diff_1 upt_Suc_append zero_le)
  show "ring_list cap buf w (e - 1) = butlast (ring_list cap buf w e)"
    unfolding ring_list_def n u by simp
  show "last (ring_list cap buf w e) = buf ! ((unat w + (unat (e - w) - 1)) mod cap)"
    unfolding ring_list_def u by simp
qed

section \<open>Queues\<close>

text \<open>
  The contract of a bounded queue, and the stream that goes through it: whatever the order of
  insertions and removals, the elements taken out followed by the elements still inside are the
  elements that were inside followed by the elements put in.
\<close>

datatype 'a queue_op = Push 'a | Pop

fun queue_run :: "('s \<Rightarrow> bool) \<Rightarrow> ('s \<Rightarrow> bool) \<Rightarrow> ('a \<Rightarrow> 's \<Rightarrow> 's) \<Rightarrow> ('s \<Rightarrow> 'a \<times> 's) \<Rightarrow>
    'a queue_op list \<Rightarrow> 's \<Rightarrow> 'a list \<times> 'a list \<times> 's" where
  "queue_run full vacant push pop [] s = ([], [], s)"
| "queue_run full vacant push pop (Push x # ops) s =
     (if full s then queue_run full vacant push pop ops s
      else let (ins, outs, s') = queue_run full vacant push pop ops (push x s) in (x # ins, outs, s'))"
| "queue_run full vacant push pop (Pop # ops) s =
     (if vacant s then queue_run full vacant push pop ops s
      else let (y, s1) = pop s; (ins, outs, s') = queue_run full vacant push pop ops s1 in (ins, y # outs, s'))"

locale fifo =
  fixes wf :: "'s \<Rightarrow> bool"
    and contents :: "'s \<Rightarrow> 'a list"
    and cap :: nat
    and full :: "'s \<Rightarrow> bool"
    and vacant :: "'s \<Rightarrow> bool"
    and push :: "'a \<Rightarrow> 's \<Rightarrow> 's"
    and pop :: "'s \<Rightarrow> 'a \<times> 's"
  assumes bounded: "wf s \<Longrightarrow> length (contents s) \<le> cap"
    and full_iff: "wf s \<Longrightarrow> full s \<longleftrightarrow> length (contents s) = cap"
    and vacant_iff: "wf s \<Longrightarrow> vacant s \<longleftrightarrow> contents s = []"
    and push_spec: "wf s \<Longrightarrow> \<not> full s \<Longrightarrow> wf (push x s) \<and> contents (push x s) = contents s @ [x]"
    and pop_spec: "wf s \<Longrightarrow> \<not> vacant s \<Longrightarrow> wf (snd (pop s)) \<and> contents s = fst (pop s) # contents (snd (pop s))"
begin

lemma stream_preserved:
  "wf s \<Longrightarrow> queue_run full vacant push pop ops s = (ins, outs, s') \<Longrightarrow>
     wf s' \<and> outs @ contents s' = contents s @ ins"
proof (induction ops arbitrary: s ins outs s')
  case Nil
  then show ?case by simp
next
  case (Cons op ops)
  show ?case
  proof (cases op)
    case (Push x)
    show ?thesis
    proof (cases "full s")
      case True
      with Cons Push show ?thesis by simp
    next
      case False
      obtain xs os s2 where r: "queue_run full vacant push pop ops (push x s) = (xs, os, s2)" by (metis prod_cases3)
      from push_spec [OF Cons.prems(1) False, of x] Cons.IH [OF _ r] Cons.prems(2) False r Push show ?thesis by auto
    qed
  next
    case Pop
    show ?thesis
    proof (cases "vacant s")
      case True
      with Cons Pop show ?thesis by simp
    next
      case False
      obtain y s1 where p: "pop s = (y, s1)" by fastforce
      obtain xs os s2 where r: "queue_run full vacant push pop ops s1 = (xs, os, s2)" by (metis prod_cases3)
      from pop_spec [OF Cons.prems(1) False] Cons.IH [OF _ r] Cons.prems(2) False p r Pop show ?thesis by auto
    qed
  qed
qed

end

end
