(* ===== verification/Pipe.thy ===== *)
theory Pipe
  imports Ring Sched Usermem
begin

text \<open>
  Pipes (\<open>kernel/src/pipe.rs\<close>).  The bytes of a pipe live in a ring of 512 bytes.  A call that has to
  wait returns \<open>Blocked\<close> with the number of bytes moved so far, after putting the process to sleep; it
  is resumed with that number.  The user memory of the caller is reached through the copy functions
  passed as first argument.
\<close>

section \<open>Definitions\<close>

definition PIPESIZE :: usize where "PIPESIZE = 512"

record PipeInner =
  pipe_data :: "u8 list"
  num_read :: usize
  num_write :: usize
  read_open :: bool
  write_open :: bool

datatype call = Done "(usize, SysError) result" | Blocked nat

definition pipe_new :: PipeInner where
  "pipe_new = \<lparr>pipe_data = replicate 512 0, num_read = 0, num_write = 0, read_open = True, write_open = True\<rparr>"

definition pipe_close :: "nat \<Rightarrow> nat option \<Rightarrow> bool \<Rightarrow> PipeInner \<times> Sched \<Rightarrow> PipeInner \<times> Sched" where
  "pipe_close pipe_id cur writeable ps =
     (case ps of (inner, s) \<Rightarrow>
        if writeable then (inner\<lparr>write_open := False\<rparr>, wakeup cur (ChPipeRead pipe_id) s)
        else (inner\<lparr>read_open := False\<rparr>, wakeup cur (ChPipeWrite pipe_id) s))"

definition pipe_full :: "PipeInner \<Rightarrow> bool" where
  "pipe_full inner \<longleftrightarrow> num_write inner = num_read inner + PIPESIZE"

definition pipe_empty :: "PipeInner \<Rightarrow> bool" where
  "pipe_empty inner \<longleftrightarrow> num_read inner = num_write inner"

definition pipe_push :: "u8 \<Rightarrow> PipeInner \<Rightarrow> PipeInner" where
  "pipe_push ch inner =
     (let index = unat (num_write inner mod PIPESIZE)
      in inner\<lparr>pipe_data := (pipe_data inner)[index := ch], num_write := num_write inner + 1\<rparr>)"

definition pipe_pop :: "PipeInner \<Rightarrow> u8 \<times> PipeInner" where
  "pipe_pop inner =
     (pipe_data inner ! unat (num_read inner mod PIPESIZE), inner\<lparr>num_read := num_read inner + 1\<rparr>)"

text \<open>The loop of \<open>Pipe::write\<close> with \<open>n - i\<close> bytes to go.\<close>

fun pipe_write_loop :: "(usize \<Rightarrow> nat \<Rightarrow> 'm \<Rightarrow> ((u8 list, VmError) result \<times> 'm) option) \<Rightarrow>
    nat \<Rightarrow> nat \<Rightarrow> usize \<Rightarrow> nat \<Rightarrow> nat \<Rightarrow> PipeInner \<Rightarrow> 'm \<Rightarrow> Sched \<Rightarrow> (call \<times> PipeInner \<times> 'm \<times> Sched) option" where
  "pipe_write_loop cfrom pipe_id cur addr 0 i inner m s =
     Some (Done (Ok (word_of_nat i)), inner, m, wakeup (Some cur) (ChPipeRead pipe_id) s)"
| "pipe_write_loop cfrom pipe_id cur addr (Suc k) i inner m s =
     (if is_killed cur s then Some (Done (Err Interrupted), inner, m, s)
      else if \<not> read_open inner then Some (Done (Err BrokenPipe), inner, m, s)
      else if pipe_full inner then
        Some (Blocked i, inner, m,
              sleep_enter cur (ChPipeWrite pipe_id) (wakeup (Some cur) (ChPipeRead pipe_id) s))
      else do {
        (r, m) \<leftarrow> cfrom (addr + word_of_nat i) 1 m;
        case r of
          Err _ \<Rightarrow> Some (Done (Ok (word_of_nat i)), inner, m, wakeup (Some cur) (ChPipeRead pipe_id) s)
        | Ok ch \<Rightarrow> pipe_write_loop cfrom pipe_id cur addr k (i + 1) (pipe_push (ch ! 0) inner) m s
      })"

definition pipe_write where
  "pipe_write cfrom pipe_id cur addr n = pipe_write_loop cfrom pipe_id cur addr (unat (n :: usize)) 0"

text \<open>What \<open>write\<close> does when the process is scheduled again after \<open>Blocked i\<close>.\<close>

definition pipe_write_resume where
  "pipe_write_resume cfrom pipe_id cur addr n i inner m s =
     pipe_write_loop cfrom pipe_id cur addr (unat (n :: usize) - i) i inner m (sleep_exit cur s)"

fun pipe_read_loop :: "(u8 list \<Rightarrow> usize \<Rightarrow> 'm \<Rightarrow> ((unit, VmError) result \<times> 'm) option) \<Rightarrow>
    nat \<Rightarrow> nat \<Rightarrow> usize \<Rightarrow> nat \<Rightarrow> nat \<Rightarrow> PipeInner \<Rightarrow> 'm \<Rightarrow> Sched \<Rightarrow> (call \<times> PipeInner \<times> 'm \<times> Sched) option" where
  "pipe_read_loop cto pipe_id cur addr 0 i inner m s =
     Some (Done (Ok (word_of_nat i)), inner, m, wakeup (Some cur) (ChPipeWrite pipe_id) s)"
| "pipe_read_loop cto pipe_id cur addr (Suc k) i inner m s =
     (if pipe_empty inner then
        Some (Done (Ok (word_of_nat i)), inner, m, wakeup (Some cur) (ChPipeWrite pipe_id) s)
      else do {
        let (ch, inner') = pipe_pop inner;
        (r, m) \<leftarrow> cto [ch] (addr + word_of_nat i) m;
        case r of
          Err _ \<Rightarrow> Some (Done (Err BadAddress), inner, m, s)
        | Ok _ \<Rightarrow> pipe_read_loop cto pipe_id cur addr k (i + 1) inner' m s
      })"

text \<open>A reader that waited starts over, since the waiting loop comes first.\<close>

definition pipe_read where
  "pipe_read cto pipe_id cur addr n inner m s =
     (if pipe_empty inner \<and> write_open inner then
        if is_killed cur s then Some (Done (Err Interrupted), inner, m, s)
        else Some (Blocked 0, inner, m, sleep_enter cur (ChPipeRead pipe_id) s)
      else pipe_read_loop cto pipe_id cur addr (unat (n :: usize)) 0 inner m s)"

definition pipe_read_resume where
  "pipe_read_resume cto pipe_id cur addr n inner m s = pipe_read cto pipe_id cur addr n inner m (sleep_exit cur s)"

section \<open>A pipe is a queue\<close>

definition pipe_contents :: "PipeInner \<Rightarrow> u8 list" where
  "pipe_contents inner = ring_list 512 (pipe_data inner) (num_read inner) (num_write inner)"

definition pipe_wf :: "PipeInner \<Rightarrow> bool" where
  "pipe_wf inner \<longleftrightarrow> length (pipe_data inner) = 512 \<and> unat (num_write inner - num_read inner) \<le> 512"

lemma pipe_new_wf: "pipe_wf pipe_new" "pipe_contents pipe_new = []"
  by (simp_all add: pipe_wf_def pipe_new_def pipe_contents_def ring_empty)

lemma pipe_full_iff: "pipe_full inner \<longleftrightarrow> unat (num_write inner - num_read inner) = 512"
proof -
  have "num_write inner = num_read inner + PIPESIZE \<longleftrightarrow> num_write inner - num_read inner = 512"
    by (auto simp: PIPESIZE_def algebra_simps)
  then show ?thesis by (simp add: pipe_full_def word_unat_eq_iff)
qed

lemma unat_pipe_index: "unat (w mod PIPESIZE) = unat w mod 512"
  by (simp add: PIPESIZE_def unat_mod)

interpretation pq: fifo pipe_wf pipe_contents 512 pipe_full pipe_empty pipe_push pipe_pop
proof
  fix s :: PipeInner and x
  assume wf: "pipe_wf s"
  then show "length (pipe_contents s) \<le> 512" by (simp add: pipe_wf_def pipe_contents_def)
  show "pipe_full s \<longleftrightarrow> length (pipe_contents s) = 512" by (simp add: pipe_full_iff pipe_contents_def)
  show "pipe_empty s \<longleftrightarrow> pipe_contents s = []" by (simp add: pipe_empty_def pipe_contents_def ring_empty)
  show "pipe_wf (pipe_push x s) \<and> pipe_contents (pipe_push x s) = pipe_contents s @ [x]" if "\<not> pipe_full s"
  proof -
    have l: "unat (num_write s - num_read s) < 512" using that wf by (simp add: pipe_full_iff pipe_wf_def)
    have "pipe_contents (pipe_push x s) = pipe_contents s @ [x]"
      using ring_push [of 512 "pipe_data s" "num_write s" "num_read s" x] l wf
      by (simp add: pipe_contents_def pipe_push_def unat_pipe_index pipe_wf_def)
    moreover have "unat (num_write s + 1 - num_read s) = unat (num_write s - num_read s) + 1"
      using l by (intro counter_succ) simp
    ultimately show ?thesis using wf l by (simp add: pipe_wf_def pipe_push_def)
  qed
  show "pipe_wf (snd (pipe_pop s)) \<and> pipe_contents s = fst (pipe_pop s) # pipe_contents (snd (pipe_pop s))" if "\<not> pipe_empty s"
  proof -
    have "num_read s \<noteq> num_write s" using that by (simp add: pipe_empty_def)
    from ring_pop [OF _ this, of 512 "pipe_data s"] counter_pred [OF this] wf show ?thesis
      by (simp add: pipe_contents_def pipe_pop_def unat_pipe_index pipe_wf_def) linarith
  qed
qed

lemma pipe_push_fields [simp]:
  "read_open (pipe_push b p) = read_open p" "write_open (pipe_push b p) = write_open p" "num_read (pipe_push b p) = num_read p"
  by (simp_all add: pipe_push_def)

lemma pipe_pop_fields [simp]:
  "read_open (snd (pipe_pop p)) = read_open p" "write_open (snd (pipe_pop p)) = write_open p"
  by (simp_all add: pipe_pop_def)

section \<open>Reading and writing\<close>

context user_memory
begin

lemma pipe_write_loop_spec:
  "minv m \<Longrightarrow> pipe_wf p \<Longrightarrow>
    \<exists>c p' m' s' bs. pipe_write_loop cfrom pid cur addr k i p m s = Some (c, p', m', s') \<and>
      minv m' \<and> view m' = view m \<and> others m' = others m \<and> pipe_wf p' \<and> pipe_contents p' = pipe_contents p @ bs \<and>
      length bs \<le> k \<and> (\<forall>j < length bs. \<forall>b. view m (addr + word_of_nat (i + j)) = Some b \<longrightarrow> bs ! j = b) \<and>
      (case c of
         Done (Ok n) \<Rightarrow> n = word_of_nat (i + length bs) \<and> s' = wakeup (Some cur) (ChPipeRead pid) s
       | Done (Err e) \<Rightarrow> bs = [] \<and> s' = s \<and> (e = Interrupted \<and> is_killed cur s \<or> e = BrokenPipe \<and> \<not> read_open p)
       | Blocked n \<Rightarrow> n = i + length bs \<and> length bs < k \<and> pipe_full p' \<and>
           s' = sleep_enter cur (ChPipeWrite pid) (wakeup (Some cur) (ChPipeRead pid) s))"
proof (induction k arbitrary: i p m)
  case 0
  then show ?case by (intro exI [of _ "Done (Ok (word_of_nat i))"] exI [of _ p] exI [of _ m]) simp
next
  case (Suc k)
  consider (stop) "is_killed cur s \<or> \<not> read_open p" | (full) "\<not> is_killed cur s" "read_open p" "pipe_full p"
    | (go) "\<not> is_killed cur s" "read_open p" "\<not> pipe_full p" by blast
  then show ?case
  proof cases
    case stop
    then show ?thesis
      using Suc.prems
      by (intro exI [of _ "Done (Err (if is_killed cur s then Interrupted else BrokenPipe))"] exI [of _ p] exI [of _ m]) auto
  next
    case full
    then show ?thesis using Suc.prems by (intro exI [of _ "Blocked i"] exI [of _ p] exI [of _ m]) simp
  next
    case go
    show ?thesis
    proof (rule copy_in_byte [OF Suc.prems(1), of "addr + word_of_nat i"])
      fix e m1
      assume "cfrom (addr + word_of_nat i) 1 m = Some (Err e, m1)" "minv m1" "view m1 = view m" "others m1 = others m"
      then show ?thesis
        using go Suc.prems by (intro exI [of _ "Done (Ok (word_of_nat i))"] exI [of _ p] exI [of _ m1]) simp
    next
      fix b m1
      assume c: "cfrom (addr + word_of_nat i) 1 m = Some (Ok [b], m1)" "minv m1" "view m1 = view m" "others m1 = others m"
        "view m (addr + word_of_nat i) \<noteq> None \<Longrightarrow> view m (addr + word_of_nat i) = Some b"
      note P = pq.push_spec [OF Suc.prems(2) go(3), of b]
      from Suc.IH [OF c(2), of "pipe_push b p" "i + 1"] P obtain c2 p2 m2 s2 bs where
        IH: "pipe_write_loop cfrom pid cur addr k (i + 1) (pipe_push b p) m1 s = Some (c2, p2, m2, s2)"
          "minv m2" "view m2 = view m1" "others m2 = others m1" "pipe_wf p2" "pipe_contents p2 = pipe_contents (pipe_push b p) @ bs"
          "length bs \<le> k" "\<forall>j < length bs. \<forall>b. view m1 (addr + word_of_nat (i + 1 + j)) = Some b \<longrightarrow> bs ! j = b" and
        c2: "case c2 of
           Done (Ok n) \<Rightarrow> n = word_of_nat (i + 1 + length bs) \<and> s2 = wakeup (Some cur) (ChPipeRead pid) s
         | Done (Err e) \<Rightarrow> bs = [] \<and> s2 = s \<and> (e = Interrupted \<and> is_killed cur s \<or> e = BrokenPipe \<and> \<not> read_open (pipe_push b p))
         | Blocked n \<Rightarrow> n = i + 1 + length bs \<and> length bs < k \<and> pipe_full p2 \<and>
             s2 = sleep_enter cur (ChPipeWrite pid) (wakeup (Some cur) (ChPipeRead pid) s)" by blast
      have bytes: "\<forall>j < length (b # bs). \<forall>x. view m (addr + word_of_nat (i + j)) = Some x \<longrightarrow> (b # bs) ! j = x"
      proof (intro allI impI)
        fix j x assume j: "j < length (b # bs)" and x: "view m (addr + word_of_nat (i + j)) = Some x"
        show "(b # bs) ! j = x"
        proof (cases j)
          case 0
          then show ?thesis using x c(5) by simp
        next
          case (Suc j')
          have "view m1 (addr + word_of_nat (i + 1 + j')) = Some x" using x c(3) Suc by simp
          then show ?thesis using IH(8) j Suc by simp
        qed
      qed
      have "pipe_write_loop cfrom pid cur addr (Suc k) i p m s = Some (c2, p2, m2, s2)"
        using go c(1) IH(1) by simp
      moreover have "case c2 of
           Done (Ok n) \<Rightarrow> n = word_of_nat (i + length (b # bs)) \<and> s2 = wakeup (Some cur) (ChPipeRead pid) s
         | Done (Err e) \<Rightarrow> b # bs = [] \<and> s2 = s \<and> (e = Interrupted \<and> is_killed cur s \<or> e = BrokenPipe \<and> \<not> read_open p)
         | Blocked n \<Rightarrow> n = i + length (b # bs) \<and> length (b # bs) < Suc k \<and> pipe_full p2 \<and>
             s2 = sleep_enter cur (ChPipeWrite pid) (wakeup (Some cur) (ChPipeRead pid) s)"
        using c2 go by (auto split: call.splits result.splits)
      ultimately show ?thesis
        using IH(2-7) P c(3,4) bytes
        by (intro exI [of _ c2] exI [of _ p2] exI [of _ m2] exI [of _ s2] exI [of _ "b # bs"]) simp
    qed
  qed
qed

lemma pipe_read_loop_spec:
  "minv m \<Longrightarrow> pipe_wf p \<Longrightarrow> k < 2 ^ 64 \<Longrightarrow>
    \<exists>c p' m' s' bs. pipe_read_loop cto pid cur addr k i p m s = Some (c, p', m', s') \<and>
      minv m' \<and> others m' = others m \<and> pipe_wf p' \<and> pipe_contents p = bs @ pipe_contents p' \<and>
      length bs \<le> k \<and> view m' = poke (view m) (addr + word_of_nat i) bs \<and>
      (case c of
         Done (Ok n) \<Rightarrow> n = word_of_nat (i + length bs) \<and> (length bs = k \<or> pipe_contents p' = []) \<and>
           s' = wakeup (Some cur) (ChPipeWrite pid) s
       | Done (Err e) \<Rightarrow> e = BadAddress \<and> length bs < k \<and> s' = s
       | Blocked _ \<Rightarrow> False)"
proof (induction k arbitrary: i p m)
  case 0
  then show ?case by (intro exI [of _ "Done (Ok (word_of_nat i))"] exI [of _ p] exI [of _ m]) simp
next
  case (Suc k)
  show ?case
  proof (cases "pipe_empty p")
    case True
    then show ?thesis
      using Suc.prems pq.vacant_iff [OF Suc.prems(2)]
      by (intro exI [of _ "Done (Ok (word_of_nat i))"] exI [of _ p] exI [of _ m]) simp
  next
    case False
    obtain b p1 where pop: "pipe_pop p = (b, p1)" by fastforce
    have P: "pipe_wf p1" "pipe_contents p = b # pipe_contents p1" using pq.pop_spec [OF Suc.prems(2) False] pop by simp_all
    show ?thesis
    proof (rule copy_out_byte [OF Suc.prems(1), of b "addr + word_of_nat i"])
      fix e m1
      assume "cto [b] (addr + word_of_nat i) m = Some (Err e, m1)" "minv m1" "view m1 = view m" "others m1 = others m"
      then show ?thesis
        using False pop Suc.prems by (intro exI [of _ "Done (Err BadAddress)"] exI [of _ p] exI [of _ m1]) simp
    next
      fix m1
      assume c: "cto [b] (addr + word_of_nat i) m = Some (Ok (), m1)" "minv m1"
        "view m1 = poke (view m) (addr + word_of_nat i) [b]" "others m1 = others m"
      have k: "k < 2 ^ 64" using Suc.prems(3) by simp
      from Suc.IH [OF c(2) P(1) k, of "i + 1"] obtain c2 p2 m2 s2 bs where
        IH: "pipe_read_loop cto pid cur addr k (i + 1) p1 m1 s = Some (c2, p2, m2, s2)"
          "minv m2" "others m2 = others m1" "pipe_wf p2" "pipe_contents p1 = bs @ pipe_contents p2"
          "length bs \<le> k" "view m2 = poke (view m1) (addr + word_of_nat (i + 1)) bs" and
        c2: "case c2 of
           Done (Ok n) \<Rightarrow> n = word_of_nat (i + 1 + length bs) \<and> (length bs = k \<or> pipe_contents p2 = []) \<and>
             s2 = wakeup (Some cur) (ChPipeWrite pid) s
         | Done (Err e) \<Rightarrow> e = BadAddress \<and> length bs < k \<and> s2 = s
         | Blocked _ \<Rightarrow> False" by blast
      have "view m2 = poke (view m) (addr + word_of_nat i) (b # bs)"
        using poke_append [of "[b]" bs "view m" "addr + word_of_nat i"] IH(6,7) Suc.prems(3) c(3)
        by (simp add: algebra_simps)
      moreover have "pipe_read_loop cto pid cur addr (Suc k) i p m s = Some (c2, p2, m2, s2)"
        using False pop c(1) IH(1) by simp
      moreover have "case c2 of
           Done (Ok n) \<Rightarrow> n = word_of_nat (i + length (b # bs)) \<and> (length (b # bs) = Suc k \<or> pipe_contents p2 = []) \<and>
             s2 = wakeup (Some cur) (ChPipeWrite pid) s
         | Done (Err e) \<Rightarrow> e = BadAddress \<and> length (b # bs) < Suc k \<and> s2 = s
         | Blocked _ \<Rightarrow> False"
        using c2 by (auto split: call.splits result.splits)
      ultimately show ?thesis
        using IH(2-6) P(2) c(4)
        by (intro exI [of _ c2] exI [of _ p2] exI [of _ m2] exI [of _ s2] exI [of _ "b # bs"]) simp
    qed
  qed
qed

end

section \<open>Theorems\<close>

text \<open>
  Property C21.  \<open>Pipe::write\<close> appends bytes of the caller's memory to the pipe, in order and without
  overwriting unread data.  It returns the number of bytes appended, or waits for a reader exactly
  when the pipe is full and bytes remain, after waking the readers; it fails without effect when the
  caller was killed or the read end is closed.  No process sees its memory change.
\<close>

theorem pipe_write_appends:
  assumes "user_inv B live R r sz m" "pipe_wf p"
  shows "\<exists>c p' m' s' bs. pipe_write (copy_from B r sz) pid cur addr n p m s = Some (c, p', m', s') \<and>
      user_inv B live R r sz m' \<and> peek m' r sz = peek m r sz \<and> other_views R r m' = other_views R r m \<and>
      pipe_wf p' \<and> pipe_contents p' = pipe_contents p @ bs \<and> length bs \<le> unat n \<and>
      (\<forall>j < length bs. \<forall>b. peek m r sz (addr + word_of_nat j) = Some b \<longrightarrow> bs ! j = b) \<and>
      (case c of
         Done (Ok k) \<Rightarrow> k = word_of_nat (length bs) \<and> s' = wakeup (Some cur) (ChPipeRead pid) s
       | Done (Err e) \<Rightarrow> bs = [] \<and> s' = s \<and> (e = Interrupted \<and> is_killed cur s \<or> e = BrokenPipe \<and> \<not> read_open p)
       | Blocked k \<Rightarrow> k = length bs \<and> length bs < unat n \<and> length (pipe_contents p') = 512 \<and>
           s' = sleep_enter cur (ChPipeWrite pid) (wakeup (Some cur) (ChPipeRead pid) s))"
proof -
  from um.pipe_write_loop_spec [OF assms, of pid cur addr "unat n" 0 s] obtain c p' m' s' bs where
    w: "pipe_write_loop (copy_from B r sz) pid cur addr (unat n) 0 p m s = Some (c, p', m', s')"
      "user_inv B live R r sz m'" "peek m' r sz = peek m r sz" "other_views R r m' = other_views R r m"
      "pipe_wf p'" "pipe_contents p' = pipe_contents p @ bs" "length bs \<le> unat n"
      "\<forall>j < length bs. \<forall>b. peek m r sz (addr + word_of_nat (0 + j)) = Some b \<longrightarrow> bs ! j = b" and
    c: "case c of
         Done (Ok k) \<Rightarrow> k = word_of_nat (0 + length bs) \<and> s' = wakeup (Some cur) (ChPipeRead pid) s
       | Done (Err e) \<Rightarrow> bs = [] \<and> s' = s \<and> (e = Interrupted \<and> is_killed cur s \<or> e = BrokenPipe \<and> \<not> read_open p)
       | Blocked k \<Rightarrow> k = 0 + length bs \<and> length bs < unat n \<and> pipe_full p' \<and>
           s' = sleep_enter cur (ChPipeWrite pid) (wakeup (Some cur) (ChPipeRead pid) s)" by blast
  show ?thesis
    using w c pq.full_iff [OF w(5)] unfolding pipe_write_def add_0
    by (intro exI [of _ c] exI [of _ p'] exI [of _ m'] exI [of _ s'] exI [of _ bs]) (simp split: call.splits)
qed

text \<open>
  Property C20.  A byte string survives the trip through a pipe: process \<open>r1\<close> writes at most 512
  bytes into an empty pipe, which never blocks, and when process \<open>r2\<close> reads them its memory holds,
  at the address it gave, exactly the bytes of the writer's memory, while the writer's memory is
  unchanged and the pipe is empty again.  The reader can only fail at its own buffer.
\<close>

theorem pipe_transfer:
  assumes "user_inv B live R r1 sz1 m" "user_inv B live R r2 sz2 m" "r1 \<noteq> r2"
    and "pipe_wf p" "pipe_contents p = []" "read_open p" "\<not> is_killed w s" "n \<le> 512"
    and "\<forall>i < unat n. peek m r1 sz1 (src + word_of_nat i) \<noteq> None"
  shows "\<exists>k p1 m1 s1. pipe_write (copy_from B r1 sz1) pid w src n p m s = Some (Done (Ok k), p1, m1, s1) \<and> k \<le> n \<and>
    (\<exists>c p2 m2 s2. pipe_read (copy_to B r2 sz2) pid q dst n p1 m1 s1 = Some (c, p2, m2, s2) \<and>
      (case c of
         Done (Ok j) \<Rightarrow> j = k \<and> pipe_contents p2 = [] \<and> peek m2 r1 sz1 = peek m r1 sz1 \<and>
           peek m2 r2 sz2 = poke (peek m r2 sz2) dst (map (\<lambda>i. the (peek m r1 sz1 (src + word_of_nat i))) [0..<unat k])
       | Done (Err e) \<Rightarrow> e = BadAddress \<or> k = 0
       | Blocked _ \<Rightarrow> k = 0))"
proof -
  let ?bytes = "\<lambda>k. map (\<lambda>i. the (peek m r1 sz1 (src + word_of_nat i))) [0..<k]"
  have n: "unat n \<le> 512" using assms(8) by (simp add: word_le_nat_alt)
  from um.pipe_write_loop_spec [OF assms(1,4), of pid w src "unat n" 0 s] obtain c p1 m1 s1 bs where
    w: "pipe_write_loop (copy_from B r1 sz1) pid w src (unat n) 0 p m s = Some (c, p1, m1, s1)"
      "user_inv B live R r1 sz1 m1" "peek m1 r1 sz1 = peek m r1 sz1" "other_views R r1 m1 = other_views R r1 m"
      "pipe_wf p1" "pipe_contents p1 = pipe_contents p @ bs" "length bs \<le> unat n"
      "\<forall>j < length bs. \<forall>b. peek m r1 sz1 (src + word_of_nat (0 + j)) = Some b \<longrightarrow> bs ! j = b" and
    c: "case c of
         Done (Ok k) \<Rightarrow> k = word_of_nat (0 + length bs) \<and> s1 = wakeup (Some w) (ChPipeRead pid) s
       | Done (Err e) \<Rightarrow> bs = [] \<and> s1 = s \<and> (e = Interrupted \<and> is_killed w s \<or> e = BrokenPipe \<and> \<not> read_open p)
       | Blocked k \<Rightarrow> k = 0 + length bs \<and> length bs < unat n \<and> pipe_full p1 \<and>
           s1 = sleep_enter w (ChPipeWrite pid) (wakeup (Some w) (ChPipeRead pid) s)" by blast
  define k where "k = (word_of_nat (length bs) :: usize)"
  have k: "unat k = length bs" using w(7) n by (simp add: k_def unat_of_nat)
  have wr: "c = Done (Ok k)"
    using c assms(5,6,7) w(6,7) n pq.full_iff [OF w(5)] by (auto simp: k_def split: call.splits result.splits)
  have bytes: "bs = ?bytes (length bs)"
  proof (rule nth_equalityI)
    fix j assume j: "j < length bs"
    then obtain b where "peek m r1 sz1 (src + word_of_nat j) = Some b" using assms(9) w(7) by fastforce
    then show "bs ! j = ?bytes (length bs) ! j" using j w(8) by simp
  qed simp
  have views: "peek m1 r2 sz2 = peek m r2 sz2"
    using assms(2,3) by (intro other_views_peek [OF w(4)]) (simp_all add: user_inv_def)
  have u2: "user_inv B live R r2 sz2 m1" using w(2) assms(2) by (simp add: user_inv_def)
  from um.pipe_read_loop_spec [OF u2 w(5), of "unat n" pid q dst 0 s1] unat_usize_less [of n] obtain c2 p2 m2 s2 out where
    r: "pipe_read_loop (copy_to B r2 sz2) pid q dst (unat n) 0 p1 m1 s1 = Some (c2, p2, m2, s2)"
      "other_views R r2 m2 = other_views R r2 m1" "pipe_contents p1 = out @ pipe_contents p2" "length out \<le> unat n"
      "peek m2 r2 sz2 = poke (peek m1 r2 sz2) (dst + word_of_nat 0) out" and
    c2: "case c2 of
         Done (Ok x) \<Rightarrow> x = word_of_nat (0 + length out) \<and> (length out = unat n \<or> pipe_contents p2 = []) \<and>
           s2 = wakeup (Some q) (ChPipeWrite pid) s1
       | Done (Err e) \<Rightarrow> e = BadAddress \<and> length out < unat n \<and> s2 = s1
       | Blocked _ \<Rightarrow> False" by auto
  have other: "peek m2 r1 sz1 = peek m r1 sz1"
    using other_views_peek [OF r(2), of r1 sz1] assms(1,3) w(3) by (simp add: user_inv_def)
  have read: "pipe_read (copy_to B r2 sz2) pid q dst n p1 m1 s1 =
      (if bs = [] \<and> write_open p1 then
        if is_killed q s1 then Some (Done (Err Interrupted), p1, m1, s1)
        else Some (Blocked 0, p1, m1, sleep_enter q (ChPipeRead pid) s1)
       else Some (c2, p2, m2, s2))"
    using pq.vacant_iff [OF w(5)] w(6) assms(5) r(1) by (simp add: pipe_read_def)
  have le: "k \<le> n" using k w(7) by (simp add: word_le_nat_alt)
  have "\<exists>c p2 m2 s2. pipe_read (copy_to B r2 sz2) pid q dst n p1 m1 s1 = Some (c, p2, m2, s2) \<and>
      (case c of
         Done (Ok j) \<Rightarrow> j = k \<and> pipe_contents p2 = [] \<and> peek m2 r1 sz1 = peek m r1 sz1 \<and>
           peek m2 r2 sz2 = poke (peek m r2 sz2) dst (?bytes (unat k))
       | Done (Err e) \<Rightarrow> e = BadAddress \<or> k = 0
       | Blocked _ \<Rightarrow> k = 0)"
  proof (cases "bs = [] \<and> write_open p1")
    case True
    then have "k = 0" by (simp add: k_def)
    with read True show ?thesis by simp
  next
    case False
    have "case c2 of
         Done (Ok j) \<Rightarrow> j = k \<and> pipe_contents p2 = [] \<and> peek m2 r1 sz1 = peek m r1 sz1 \<and>
           peek m2 r2 sz2 = poke (peek m r2 sz2) dst (?bytes (unat k))
       | Done (Err e) \<Rightarrow> e = BadAddress \<or> k = 0
       | Blocked _ \<Rightarrow> k = 0"
    proof (cases "\<exists>x. c2 = Done (Ok x)")
      case True
      then obtain x where x: "c2 = Done (Ok x)" by blast
      then have o: "x = word_of_nat (length out)" "length out = unat n \<or> pipe_contents p2 = []" using c2 by simp_all
      have L: "length out + length (pipe_contents p2) = length bs" using r(3) w(6) assms(5) by (metis append_Nil length_append)
      have "length (pipe_contents p2) = 0" if "length out = unat n" using that L w(7) by linarith
      then have "pipe_contents p2 = []" using o(2) by blast
      then have "out = bs" using r(3) w(6) assms(5) by simp
      then show ?thesis using x o \<open>pipe_contents p2 = []\<close> other r(5) views bytes k by (simp add: k_def)
    qed (use c2 in \<open>auto split: call.splits result.splits\<close>)
    with read False show ?thesis by (intro exI [of _ c2] exI [of _ p2] exI [of _ m2] exI [of _ s2]) simp
  qed
  with w(1) wr le show ?thesis unfolding pipe_write_def by blast
qed


section \<open>Witnesses\<close>

theorem pipe_write_appends_witness:
  "\<exists>c p' m' s' bs. pipe_write (copy_from list_buddy 0x80100000 0x3FFFFFE000) 5 0 0x3FFFFFD000 3 pipe_new example_users
       proc_table_new = Some (c, p', m', s') \<and> pipe_contents p' = bs \<and> length bs \<le> 3"
proof -
  from pipe_write_appends [OF users_inv(1) pipe_new_wf(1), of 5 0 "0x3FFFFFD000" 3 proc_table_new] obtain c p' m' s' bs where
    "pipe_write (copy_from list_buddy 0x80100000 0x3FFFFFE000) 5 0 0x3FFFFFD000 3 pipe_new example_users
       proc_table_new = Some (c, p', m', s')" "pipe_contents p' = pipe_contents pipe_new @ bs" "length bs \<le> unat (3 :: usize)"
    by (elim exE conjE)
  then show ?thesis
    by (intro exI [of _ c] exI [of _ p'] exI [of _ m'] exI [of _ s'] exI [of _ bs]) (simp add: pipe_new_wf)
qed

theorem pipe_transfer_witness:
  "\<exists>k p1 m1 s1. pipe_write (copy_from list_buddy 0x80100000 0x3FFFFFE000) 5 0 0x3FFFFFD000 3 pipe_new example_users
       proc_table_new = Some (Done (Ok k), p1, m1, s1) \<and> k \<le> 3"
proof -
  have h: "read_open pipe_new" "\<not> is_killed 0 proc_table_new" "(3 :: usize) \<le> 512"
    by (simp_all add: pipe_new_def is_killed_def proc_table_new_def proc_inner_new_def)
  have ne: "0x80100000 \<noteq> (0x80110000 :: usize)" by simp
  from pipe_transfer [OF users_inv ne pipe_new_wf h users_bytes, of 5 1 "0x10"] obtain k p1 m1 s1 where
    "pipe_write (copy_from list_buddy 0x80100000 0x3FFFFFE000) 5 0 0x3FFFFFD000 3 pipe_new example_users
       proc_table_new = Some (Done (Ok k), p1, m1, s1)" "k \<le> 3"
    by (elim exE conjE)
  then show ?thesis by blast
qed


end
