(* ===== verification/Console.thy ===== *)
theory Console
  imports Pipe
begin

text \<open>
  The UART and the console (\<open>kernel/src/uart.rs\<close>, \<open>console.rs\<close>).  The console input ring is shown to implement a line editor on two lists: the input
  that was committed and the line being typed.
\<close>

section \<open>UART\<close>

definition RHR :: usize where "RHR = 0"
definition THR :: usize where "THR = 0"
definition IER :: usize where "IER = 1"
definition IER_RX_ENABLE :: u8 where "IER_RX_ENABLE = 1"
definition IER_TX_ENABLE :: u8 where "IER_TX_ENABLE = push_bit 1 1"
definition FCR :: usize where "FCR = 2"
definition FCR_FIFO_ENABLE :: u8 where "FCR_FIFO_ENABLE = 1"
definition FCR_FIFO_CLEAR :: u8 where "FCR_FIFO_CLEAR = push_bit 1 3"
definition LCR :: usize where "LCR = 3"
definition LCR_EIGHT_BITS :: u8 where "LCR_EIGHT_BITS = 3"
definition LCR_BAUD_LATCH :: u8 where "LCR_BAUD_LATCH = push_bit 7 1"
definition LSR :: usize where "LSR = 5"
definition LSR_RX_READY :: u8 where "LSR_RX_READY = 1"
definition LSR_TX_IDLE :: u8 where "LSR_TX_IDLE = push_bit 5 1"

text \<open>
  The device as the driver sees it: the register writes made so far, and the flag of the driver that
  a byte is being transmitted.  The panic flags are those of \<open>PRINTF\<close>.
\<close>

record Uart =
  tx_busy :: bool
  reg_writes :: "(usize \<times> u8) list"

record Printf =
  panicking :: bool
  panicked :: bool

definition uart_new :: Uart where
  "uart_new = \<lparr>tx_busy = False, reg_writes = []\<rparr>"

definition write_reg :: "usize \<Rightarrow> u8 \<Rightarrow> Uart \<Rightarrow> Uart" where
  "write_reg reg value u = u\<lparr>reg_writes := reg_writes u @ [(reg, value)]\<rparr>"

definition uart_init :: "Uart \<Rightarrow> Uart" where
  "uart_init u = fold (\<lambda>(reg, value). write_reg reg value)
     [(IER, 0x00), (LCR, LCR_BAUD_LATCH), (0, 0x03), (1, 0x00), (LCR, LCR_EIGHT_BITS),
      (FCR, FCR_FIFO_ENABLE OR FCR_FIFO_CLEAR), (IER, IER_TX_ENABLE OR IER_RX_ENABLE)] u"

definition getc :: "u8 \<Rightarrow> u8 \<Rightarrow> u8 option" where
  "getc lsr rhr = (if lsr AND LSR_RX_READY \<noteq> 0 then Some rhr else None)"

text \<open>
  \<open>uart::write\<close> returns the bytes it has not handed to the device when it goes to sleep; it is called
  again with them when the process runs again.
\<close>

fun uart_write :: "Printf \<Rightarrow> nat \<Rightarrow> nat \<Rightarrow> u8 list \<Rightarrow> Uart \<Rightarrow> Sched \<Rightarrow> u8 list \<times> Uart \<times> Sched" where
  "uart_write pf tx_channel cur [] u s = ([], u, s)"
| "uart_write pf tx_channel cur (c # cs) u s =
     (if panicking pf then ([], u, s)
      else if tx_busy u then (c # cs, u, sleep_enter cur (ChBuffer tx_channel) s)
      else uart_write pf tx_channel cur cs ((write_reg THR c u)\<lparr>tx_busy := True\<rparr>) s)"

text \<open>
  \<open>uart::write_sync\<close> polls the line status before each byte; \<open>None\<close> is the endless loop that stops
  a hart after another one panicked.
\<close>

definition uart_write_sync :: "Printf \<Rightarrow> u8 list \<Rightarrow> Uart \<Rightarrow> Uart option" where
  "uart_write_sync pf buf u = (if panicked pf then None else Some (fold (write_reg THR) buf u))"

section \<open>Console\<close>

definition ctrl :: "u8 \<Rightarrow> u8" where "ctrl c = c - 0x40"

definition INPUT_BUF_SIZE :: usize where "INPUT_BUF_SIZE = 128"

record Console =
  c_buf :: "u8 list"
  c_r :: usize
  c_w :: usize
  c_e :: usize
  c_raw :: bool
  foreground_pid :: "usize option"

definition console_new :: Console where
  "console_new = \<lparr>c_buf = replicate 128 0, c_r = 0, c_w = 0, c_e = 0, c_raw = False, foreground_pid = None\<rparr>"

text \<open>What the handler prints: echoed bytes and the process list.\<close>

datatype echo = Echo u8 | Dump

definition put_backspace :: "echo list" where
  "put_backspace = [Echo 0x08, Echo 0x20, Echo 0x08]"

definition c_room :: "Console \<Rightarrow> bool" where
  "c_room con \<longleftrightarrow> c_e con - c_r con < INPUT_BUF_SIZE"

definition c_append :: "u8 \<Rightarrow> Console \<Rightarrow> Console" where
  "c_append c con =
     (let index = unat (c_e con mod INPUT_BUF_SIZE)
      in con\<lparr>c_buf := (c_buf con)[index := c], c_e := c_e con + 1\<rparr>)"

definition c_commit :: "Console \<Rightarrow> Console" where
  "c_commit con = con\<lparr>c_w := c_e con\<rparr>"

definition c_take :: "Console \<Rightarrow> u8 \<times> Console" where
  "c_take con =
     (let index = unat (c_r con mod INPUT_BUF_SIZE)
      in (c_buf con ! index, con\<lparr>c_r := c_r con + 1\<rparr>))"

text \<open>The loop of Ctrl-U.\<close>

function kill_line :: "Console \<Rightarrow> echo list \<times> Console" where
  "kill_line con =
     (if c_e con \<noteq> c_w con \<and> c_buf con ! unat ((c_e con - 1) mod INPUT_BUF_SIZE) \<noteq> 0x0A
      then let (out, con') = kill_line (con\<lparr>c_e := c_e con - 1\<rparr>) in (put_backspace @ out, con')
      else ([], con))"
  by pat_completeness auto
termination
proof (relation "measure (\<lambda>con. unat (c_e con - c_w con))", simp)
  fix con :: Console
  assume "c_e con \<noteq> c_w con \<and> c_buf con ! unat ((c_e con - 1) mod INPUT_BUF_SIZE) \<noteq> 0x0A"
  then have "c_e con - c_w con \<noteq> 0" by simp
  then have "unat ((c_e con - c_w con) - 1) < unat (c_e con - c_w con)" by (simp add: unat_minus_one unat_gt_0)
  moreover have "c_e con - 1 - c_w con = (c_e con - c_w con) - 1" by (simp add: algebra_simps)
  ultimately have "unat (c_e con - 1 - c_w con) < unat (c_e con - c_w con)" by metis
  then show "(con\<lparr>c_e := c_e con - 1\<rparr>, con) \<in> measure (\<lambda>con. unat (c_e con - c_w con))" by simp
qed

declare kill_line.simps [simp del]

definition console_interrupt :: "nat \<Rightarrow> nat option \<Rightarrow> u8 \<Rightarrow> Console \<times> Sched \<Rightarrow> echo list \<times> Console \<times> Sched" where
  "console_interrupt chan cur c cs =
     (case cs of (con, s) \<Rightarrow>
      if c_raw con \<and> c \<noteq> 0 \<and> c_room con then
        ([], c_commit (c_append c con), wakeup cur (ChBuffer chan) s)
      else if c = ctrl 0x48 \<or> c = 0x7F then
        if c_e con \<noteq> c_w con then (put_backspace, con\<lparr>c_e := c_e con - 1\<rparr>, s) else ([], con, s)
      else if c = ctrl 0x50 then ([Dump], con, s)
      else if c = ctrl 0x55 then let (out, con) = kill_line con in (out, con, s)
      else if c = ctrl 0x43 then
        (case foreground_pid con of None \<Rightarrow> ([], con, s) | Some pid \<Rightarrow> ([], con, snd (kill pid s)))
      else if c \<noteq> 0 \<and> c_room con then
        let c = (if c = 0x0D then 0x0A else c);
            con = c_append c con
        in if c = 0x0A \<or> c = ctrl 0x44 \<or> c_e con - c_r con = INPUT_BUF_SIZE
           then ([Echo c], c_commit con, wakeup cur (ChBuffer chan) s)
           else ([Echo c], con, s)
      else ([], con, s))"

text \<open>\<open>Console::read\<close> with \<open>k\<close> bytes to go and \<open>i\<close> bytes delivered.\<close>

fun console_read_loop :: "(u8 list \<Rightarrow> usize \<Rightarrow> 'm \<Rightarrow> ((unit, VmError) result \<times> 'm) option) \<Rightarrow>
    nat \<Rightarrow> nat \<Rightarrow> usize \<Rightarrow> nat \<Rightarrow> nat \<Rightarrow> Console \<Rightarrow> 'm \<Rightarrow> Sched \<Rightarrow> (call \<times> Console \<times> 'm \<times> Sched) option" where
  "console_read_loop cto chan cur dst 0 i con m s = Some (Done (Ok (word_of_nat i)), con, m, s)"
| "console_read_loop cto chan cur dst (Suc k) i con m s =
     (if c_r con = c_w con then
        if is_killed cur s then Some (Done (Err Interrupted), con, m, s)
        else Some (Blocked i, con, m, sleep_enter cur (ChBuffer chan) s)
      else
        let (c, taken) = c_take con
        in if \<not> c_raw con \<and> c = ctrl 0x44 then
             Some (Done (Ok (word_of_nat i)), if 0 < i then con else taken, m, s)
           else do {
             (r, m) \<leftarrow> cto [c] (dst + word_of_nat i) m;
             case r of
               Err _ \<Rightarrow> Some (Done (Ok (word_of_nat i)), taken, m, s)
             | Ok _ \<Rightarrow>
                 if c = 0x0A \<or> c_raw con then Some (Done (Ok (word_of_nat (i + 1))), taken, m, s)
                 else console_read_loop cto chan cur dst k (i + 1) taken m s
           })"

definition console_read where
  "console_read cto chan cur dst len = console_read_loop cto chan cur dst (unat (len :: usize)) 0"

definition console_read_resume where
  "console_read_resume cto chan cur dst len i con m s =
     console_read_loop cto chan cur dst (unat (len :: usize) - i) i con m (sleep_exit cur s)"

text \<open>
  \<open>Console::write\<close> sends chunks of at most 32 bytes to the UART.  \<open>WBlocked src n rest\<close> is a call
  asleep in \<open>uart::write\<close> with \<open>rest\<close> of the chunk at \<open>src\<close> still to be sent and \<open>n\<close> bytes sent in
  earlier chunks.
\<close>

datatype wcall = WDone "(usize, SysError) result" | WBlocked usize nat "u8 list"

function console_write_loop :: "(usize \<Rightarrow> nat \<Rightarrow> 'm \<Rightarrow> ((u8 list, VmError) result \<times> 'm) option) \<Rightarrow>
    Printf \<Rightarrow> bool \<Rightarrow> nat \<Rightarrow> nat \<Rightarrow> usize \<Rightarrow> nat \<Rightarrow> nat \<Rightarrow> Uart \<Rightarrow> 'm \<Rightarrow> Sched \<Rightarrow> (wcall \<times> Uart \<times> 'm \<times> Sched) option" where
  "console_write_loop cfrom pf raw tx_channel cur src len n u m s =
     (if len \<le> n then Some (WDone (Ok (word_of_nat len)), u, m, s)
      else do {
        let chunk = min 32 (len - n);
        (r, m) \<leftarrow> cfrom src chunk m;
        case r of
          Err _ \<Rightarrow> Some (WDone (Ok (word_of_nat n)), u, m, s)
        | Ok buf \<Rightarrow>
            if raw then do {
              u \<leftarrow> uart_write_sync pf buf u;
              console_write_loop cfrom pf raw tx_channel cur (src + word_of_nat chunk) len (n + chunk) u m s
            } else
              case uart_write pf tx_channel cur buf u s of
                ([], u, s) \<Rightarrow> console_write_loop cfrom pf raw tx_channel cur (src + word_of_nat chunk) len (n + chunk) u m s
              | (rest, u, s) \<Rightarrow> Some (WBlocked src n rest, u, m, s)
      })"
  by pat_completeness auto
termination
  by (relation "measure (\<lambda>(cfrom, pf, raw, tx_channel, cur, src, len, n, u, m, s). len - n)") auto

declare console_write_loop.simps [simp del]

definition console_write where
  "console_write cfrom pf con tx_channel cur src len =
     console_write_loop cfrom pf (c_raw con) tx_channel cur src (unat (len :: usize)) 0"

text \<open>Only a write that began in cooked mode sleeps.\<close>

definition console_write_resume where
  "console_write_resume cfrom pf tx_channel cur len src n rest u m s =
     (case uart_write pf tx_channel cur rest u (sleep_exit cur s) of
        ([], u, s) \<Rightarrow>
          let chunk = min 32 (unat len - n)
          in console_write_loop cfrom pf False tx_channel cur (src + word_of_nat chunk) (unat (len :: usize)) (n + chunk) u m s
      | (rest, u, s) \<Rightarrow> Some (WBlocked src n rest, u, m, s))"

definition CONSOLE_SET_RAW :: usize where "CONSOLE_SET_RAW = 1"
definition CONSOLE_SET_FG_PID :: usize where "CONSOLE_SET_FG_PID = 2"

definition console_ioctl :: "usize \<Rightarrow> usize \<Rightarrow> Console \<Rightarrow> (usize, SysError) result \<times> Console" where
  "console_ioctl cmd arg con =
     (if cmd = CONSOLE_SET_RAW then
        (Ok 0, if arg = 1 then con\<lparr>c_raw := True, c_e := c_w con\<rparr> else con\<lparr>c_raw := False\<rparr>)
      else if cmd = CONSOLE_SET_FG_PID then
        (Ok 0, if arg = 0 then con\<lparr>foreground_pid := None\<rparr> else con\<lparr>foreground_pid := Some arg\<rparr>)
      else (Err InvalidArgument, con))"

text \<open>\<open>uart::handle_interrupt\<close>: \<open>lsr\<close> is the line status, \<open>rx\<close> the characters \<open>getc\<close> returns.\<close>

fun rx_loop :: "nat \<Rightarrow> nat option \<Rightarrow> u8 list \<Rightarrow> Console \<times> Sched \<Rightarrow> echo list \<times> Console \<times> Sched" where
  "rx_loop chan cur [] cs = ([], cs)"
| "rx_loop chan cur (c # rx) cs =
     (let (out, cs) = console_interrupt chan cur c cs;
          (outs, cs) = rx_loop chan cur rx cs
      in (out @ outs, cs))"

definition uart_interrupt where
  "uart_interrupt tx_channel chan cur lsr rx u con s =
     (let (u, s) = (if lsr AND LSR_TX_IDLE \<noteq> 0
                    then (u\<lparr>tx_busy := False\<rparr>, wakeup cur (ChBuffer tx_channel) s) else (u, s))
      in (u, rx_loop chan cur rx (con, s)))"

section \<open>The input ring as two lists\<close>

definition committed :: "Console \<Rightarrow> u8 list" where
  "committed con = ring_list 128 (c_buf con) (c_r con) (c_w con)"

definition pending :: "Console \<Rightarrow> u8 list" where
  "pending con = ring_list 128 (c_buf con) (c_w con) (c_e con)"

definition console_inv :: "Console \<Rightarrow> bool" where
  "console_inv con \<longleftrightarrow> length (c_buf con) = 128 \<and>
     unat (c_w con - c_r con) \<le> unat (c_e con - c_r con) \<and> unat (c_e con - c_r con) \<le> 128"

lemma console_new_inv: "console_inv console_new" "committed console_new = []" "pending console_new = []"
  by (simp_all add: console_inv_def console_new_def committed_def pending_def ring_empty)

lemma unat_console_index: "unat (w mod INPUT_BUF_SIZE) = unat w mod 128"
  by (simp add: INPUT_BUF_SIZE_def unat_mod)

lemma console_occupied:
  "console_inv con \<Longrightarrow> unat (c_e con - c_r con) = length (committed con) + length (pending con)"
  using counter_split [of "c_w con" "c_r con" "c_e con"] by (simp add: console_inv_def committed_def pending_def)

lemma c_room_iff: "console_inv con \<Longrightarrow> c_room con \<longleftrightarrow> length (committed con) + length (pending con) < 128"
  by (simp add: c_room_def INPUT_BUF_SIZE_def word_less_nat_alt console_occupied)

lemma c_append_spec:
  assumes inv: "console_inv con" and room: "c_room con"
  shows "console_inv (c_append c con)" "committed (c_append c con) = committed con" "pending (c_append c con) = pending con @ [c]"
proof -
  let ?r = "c_r con" and ?w = "c_w con" and ?e = "c_e con"
  let ?buf = "(c_buf con)[unat ?e mod 128 := c]"
  have l: "unat (?e - ?r) < 128" "unat (?w - ?r) \<le> unat (?e - ?r)" "length (c_buf con) = 128"
    using inv room by (simp_all add: console_inv_def c_room_def INPUT_BUF_SIZE_def word_less_nat_alt)
  have e: "unat (?e + 1 - ?r) = unat (?e - ?r) + 1" using l(1) by (intro counter_succ) simp
  with l show "console_inv (c_append c con)" by (simp add: console_inv_def c_append_def)
  have whole: "ring_list 128 ?buf ?r (?e + 1) = ring_list 128 (c_buf con) ?r ?e @ [c]" using l by (intro ring_push) simp_all
  have "unat (?e - ?w) < 128" using counter_split [OF l(2)] l(1) by simp
  then have p: "ring_list 128 ?buf ?w (?e + 1) = ring_list 128 (c_buf con) ?w ?e @ [c]" using l(3) by (intro ring_push) simp_all
  have "ring_list 128 ?buf ?r (?e + 1) = ring_list 128 ?buf ?r ?w @ ring_list 128 ?buf ?w (?e + 1)"
    using l(2) e by (intro ring_split) simp_all
  moreover have "ring_list 128 (c_buf con) ?r ?e = ring_list 128 (c_buf con) ?r ?w @ ring_list 128 (c_buf con) ?w ?e"
    using l(2) by (intro ring_split) simp_all
  ultimately have "ring_list 128 ?buf ?r ?w = ring_list 128 (c_buf con) ?r ?w" using whole p by simp
  with p show "committed (c_append c con) = committed con" "pending (c_append c con) = pending con @ [c]"
    by (simp_all add: committed_def pending_def c_append_def unat_console_index)
qed

lemma c_commit_spec:
  assumes "console_inv con"
  shows "console_inv (c_commit con)" "committed (c_commit con) = committed con @ pending con" "pending (c_commit con) = []"
proof -
  show "console_inv (c_commit con)" using assms by (simp add: console_inv_def c_commit_def)
  have "ring_list 128 (c_buf con) (c_r con) (c_e con) =
      ring_list 128 (c_buf con) (c_r con) (c_w con) @ ring_list 128 (c_buf con) (c_w con) (c_e con)"
    using assms by (intro ring_split) (simp_all add: console_inv_def)
  then show "committed (c_commit con) = committed con @ pending con" by (simp add: committed_def pending_def c_commit_def)
  show "pending (c_commit con) = []" by (simp add: pending_def c_commit_def ring_empty)
qed

lemma erase_spec:
  assumes inv: "console_inv con" and ne: "c_e con \<noteq> c_w con"
  shows "console_inv (con\<lparr>c_e := c_e con - 1\<rparr>)" "committed (con\<lparr>c_e := c_e con - 1\<rparr>) = committed con"
    "pending (con\<lparr>c_e := c_e con - 1\<rparr>) = butlast (pending con)" "pending con \<noteq> []"
    "last (pending con) = c_buf con ! unat ((c_e con - 1) mod INPUT_BUF_SIZE)"
proof -
  let ?r = "c_r con" and ?w = "c_w con" and ?e = "c_e con"
  have ne': "?w \<noteq> ?e" using ne by simp
  have l: "unat (?w - ?r) \<le> unat (?e - ?r)" "unat (?e - ?r) \<le> 128" using inv by (simp_all add: console_inv_def)
  have nz: "?e - ?w \<noteq> 0" using ne by simp
  then have pos: "0 < unat (?e - ?w)" by (simp add: unat_gt_0)
  then have nz2: "?e - ?r \<noteq> 0" and lt: "unat (?w - ?r) < unat (?e - ?r)" using counter_split [OF l(1)] by auto
  have "?e - 1 - ?r = (?e - ?r) - 1" by (simp add: algebra_simps)
  then have e: "unat (?e - 1 - ?r) = unat (?e - ?r) - 1" using unat_minus_one [OF nz2] by (simp only:)
  with l lt inv show "console_inv (con\<lparr>c_e := c_e con - 1\<rparr>)" by (simp add: console_inv_def) linarith
  show "committed (con\<lparr>c_e := c_e con - 1\<rparr>) = committed con" by (simp add: committed_def)
  show "pending (con\<lparr>c_e := c_e con - 1\<rparr>) = butlast (pending con)" using ring_butlast(1) [OF ne'] by (simp add: pending_def)
  show "pending con \<noteq> []" using ne' by (simp add: pending_def ring_empty)
  have "unat (?e - 1) mod 128 = (unat ?w + unat (?e - 1 - ?w)) mod 128"
    using counter_mod [of 128 "?w" "?e - 1 - ?w"] by simp
  moreover have "?e - 1 - ?w = (?e - ?w) - 1" by (simp add: algebra_simps)
  ultimately have "unat (?e - 1) mod 128 = (unat ?w + (unat (?e - ?w) - 1)) mod 128"
    using unat_minus_one [OF nz] by (simp only:)
  then show "last (pending con) = c_buf con ! unat ((?e - 1) mod INPUT_BUF_SIZE)"
    using ring_butlast(2) [OF ne'] by (simp add: pending_def unat_console_index)
qed

lemma c_take_spec:
  assumes "console_inv con" "c_r con \<noteq> c_w con"
  shows "console_inv (snd (c_take con))" "committed con = fst (c_take con) # committed (snd (c_take con))"
    "pending (snd (c_take con)) = pending con" "c_raw (snd (c_take con)) = c_raw con"
proof -
  let ?r = "c_r con" and ?w = "c_w con" and ?e = "c_e con"
  have l: "unat (?w - ?r) \<le> unat (?e - ?r)" "unat (?e - ?r) \<le> 128" using assms(1) by (simp_all add: console_inv_def)
  note w = counter_pred [OF assms(2)]
  have "?r \<noteq> ?e" using l(1) w by auto
  note e = counter_pred [OF this]
  from l w e assms(1) show "console_inv (snd (c_take con))" by (simp add: console_inv_def c_take_def) linarith
  show "committed con = fst (c_take con) # committed (snd (c_take con))"
    using ring_pop [OF _ assms(2), of 128] by (simp add: committed_def c_take_def unat_console_index)
  show "pending (snd (c_take con)) = pending con" "c_raw (snd (c_take con)) = c_raw con"
    by (simp_all add: pending_def c_take_def)
qed

interpretation cq: fifo "\<lambda>con. console_inv con \<and> c_w con = c_e con" committed 128 "\<lambda>con. \<not> c_room con"
  "\<lambda>con. c_r con = c_w con" "\<lambda>c con. c_commit (c_append c con)" c_take
proof
  fix con :: Console and c
  assume "console_inv con \<and> c_w con = c_e con"
  then have inv: "console_inv con" and eq: "c_w con = c_e con" by simp_all
  then have p: "pending con = []" by (simp add: pending_def ring_empty)
  from console_occupied [OF inv] show b: "length (committed con) \<le> 128" using inv p by (simp add: console_inv_def)
  show "(\<not> c_room con) = (length (committed con) = 128)" using b p c_room_iff [OF inv] by auto
  show "(c_r con = c_w con) = (committed con = [])" by (simp add: committed_def ring_empty)
  show "(console_inv (c_commit (c_append c con)) \<and> c_w (c_commit (c_append c con)) = c_e (c_commit (c_append c con))) \<and>
      committed (c_commit (c_append c con)) = committed con @ [c]" if "\<not> \<not> c_room con"
    using c_append_spec [OF inv, of c] c_commit_spec [of "c_append c con"] that p by (simp add: c_commit_def)
  show "(console_inv (snd (c_take con)) \<and> c_w (snd (c_take con)) = c_e (snd (c_take con))) \<and>
      committed con = fst (c_take con) # committed (snd (c_take con))" if "\<not> c_r con = c_w con"
    using c_take_spec [OF inv that] eq by (simp add: c_take_def)
qed

section \<open>Line editing\<close>

text \<open>
  The specification of the input side: a key acts on the committed input and the line being typed.
\<close>

definition edit_step :: "bool \<Rightarrow> u8 \<Rightarrow> u8 list \<times> u8 list \<Rightarrow> u8 list \<times> u8 list" where
  "edit_step raw c ed =
     (case ed of (input, line) \<Rightarrow>
      let n = length input + length line
      in if raw \<and> c \<noteq> 0 \<and> n < 128 then (input @ line @ [c], [])
         else if c = 0x08 \<or> c = 0x7F then (input, butlast line)
         else if c = 0x10 \<or> c = 0x03 then (input, line)
         else if c = 0x15 then (input, rev (dropWhile (\<lambda>b. b \<noteq> 0x0A) (rev line)))
         else if c \<noteq> 0 \<and> n < 128 then
           let c = (if c = 0x0D then 0x0A else c)
           in if c = 0x0A \<or> c = 0x04 \<or> n + 1 = 128 then (input @ line @ [c], []) else (input, line @ [c])
         else (input, line))"

lemma ctrl_values: "ctrl 0x48 = 0x08" "ctrl 0x50 = 0x10" "ctrl 0x55 = 0x15" "ctrl 0x43 = 0x03" "ctrl 0x44 = 0x04"
  by (simp_all add: ctrl_def)

lemma kill_line_spec:
  "console_inv con \<Longrightarrow> kill_line con = (out, con') \<Longrightarrow>
     console_inv con' \<and> committed con' = committed con \<and>
     pending con' = rev (dropWhile (\<lambda>b. b \<noteq> 0x0A) (rev (pending con))) \<and>
     out = concat (replicate (length (pending con) - length (pending con')) put_backspace) \<and>
     c_raw con' = c_raw con \<and> foreground_pid con' = foreground_pid con"
proof (induction con arbitrary: out con' rule: kill_line.induct)
  case (1 con)
  show ?case
  proof (cases "c_e con \<noteq> c_w con \<and> c_buf con ! unat ((c_e con - 1) mod INPUT_BUF_SIZE) \<noteq> 0x0A")
    case True
    let ?con = "con\<lparr>c_e := c_e con - 1\<rparr>"
    obtain out1 con1 where k: "kill_line ?con = (out1, con1)" by fastforce
    with "1.prems"(2) True have eq: "out = put_backspace @ out1" "con' = con1" by (subst (asm) kill_line.simps; simp)+
    note E = erase_spec [OF "1.prems"(1)]
    have ne: "c_e con \<noteq> c_w con" using True by simp
    note I = "1.IH" [OF True E(1) [OF ne] k]
    obtain xs x where p: "pending con = xs @ [x]" using E(4) [OF ne] by (metis rev_exhaust)
    then have x: "x \<noteq> 0x0A" using E(5) [OF ne] True by simp
    have pend: "pending con1 = rev (dropWhile (\<lambda>b. b \<noteq> 0x0A) (rev xs))" using I E(3) [OF ne] p by simp
    then have "length (pending con1) \<le> length xs" by (metis length_dropWhile_le length_rev)
    then show ?thesis using I E(2,3) [OF ne] p x pend eq by (simp add: Suc_diff_le)
  next
    case False
    then have eq: "out = []" "con' = con" using "1.prems"(2) by (subst (asm) kill_line.simps; simp)+
    have "pending con = rev (dropWhile (\<lambda>b. b \<noteq> 0x0A) (rev (pending con)))"
    proof (cases "c_e con = c_w con")
      case True
      then have "pending con = []" by (simp add: pending_def ring_empty)
      then show ?thesis by simp
    next
      case ne: False
      note E = erase_spec [OF "1.prems"(1) ne]
      obtain xs x where p: "pending con = xs @ [x]" using E(4) by (metis rev_exhaust)
      with E(5) False ne show ?thesis by simp
    qed
    then show ?thesis using eq "1.prems"(1) by simp
  qed
qed

lemma pending_empty: "pending con = [] \<longleftrightarrow> c_e con = c_w con"
  by (auto simp: pending_def ring_empty)

lemma c_fields [simp]:
  "c_raw (c_append c con) = c_raw con" "c_raw (c_commit con) = c_raw con"
  "foreground_pid (c_append c con) = foreground_pid con" "foreground_pid (c_commit con) = foreground_pid con"
  "c_r (c_append c con) = c_r con"
  by (simp_all add: c_append_def c_commit_def)

lemma console_interrupt_spec:
  assumes inv: "console_inv con" and run: "console_interrupt chan cur c (con, s) = (out, con', s')"
  shows "console_inv con'" "(committed con', pending con') = edit_step (c_raw con) c (committed con, pending con)"
    "c_raw con' = c_raw con" "foreground_pid con' = foreground_pid con"
    "committed con' \<noteq> committed con \<Longrightarrow> s' = wakeup cur (ChBuffer chan) s"
proof -
  note R = c_room_iff [OF inv] and A = c_append_spec [OF inv] and C = c_commit_spec
  note E = erase_spec [OF inv] and K = kill_line_spec [OF inv]
  have full: "c_e (c_append x con) - c_r con = INPUT_BUF_SIZE \<longleftrightarrow> length (committed con) + length (pending con) + 1 = 128"
    if "c_room con" for x
    using console_occupied [OF A(1) [OF that, of x]] A(2,3) [OF that, of x]
    by (simp add: INPUT_BUF_SIZE_def word_unat_eq_iff)
  consider (raw) "c_raw con \<and> c \<noteq> 0 \<and> c_room con"
    | (bs) "\<not> (c_raw con \<and> c \<noteq> 0 \<and> c_room con)" "c = 0x08 \<or> c = 0x7F"
    | (other) "\<not> (c_raw con \<and> c \<noteq> 0 \<and> c_room con)" "c = 0x10 \<or> c = 0x03"
    | (kill) "\<not> (c_raw con \<and> c \<noteq> 0 \<and> c_room con)" "c = 0x15"
    | (key) "\<not> c_raw con" "c \<noteq> 0" "c_room con" "c \<notin> {0x08, 0x7F, 0x10, 0x03, 0x15}"
    | (drop) "c = 0 \<or> \<not> c_room con" "c \<notin> {0x08, 0x7F, 0x10, 0x03, 0x15}" by blast
  then have "console_inv con' \<and> (committed con', pending con') = edit_step (c_raw con) c (committed con, pending con) \<and>
    c_raw con' = c_raw con \<and> foreground_pid con' = foreground_pid con \<and>
    (committed con' \<noteq> committed con \<longrightarrow> s' = wakeup cur (ChBuffer chan) s)"
  proof cases
    case raw
    with run A [of c] C [of "c_append c con"] R show ?thesis by (auto simp: console_interrupt_def edit_step_def)
  next
    case bs
    then have "edit_step (c_raw con) c (committed con, pending con) = (committed con, butlast (pending con))"
      using R by (auto simp: edit_step_def)
    with run bs E inv pending_empty [of con] show ?thesis
      by (auto simp: console_interrupt_def ctrl_values split: if_splits)
  next
    case other
    then have "edit_step (c_raw con) c (committed con, pending con) = (committed con, pending con)"
      using R by (auto simp: edit_step_def)
    with run other inv show ?thesis by (auto simp: console_interrupt_def ctrl_values split: if_splits option.splits)
  next
    case kill
    then have "edit_step (c_raw con) c (committed con, pending con) =
        (committed con, rev (dropWhile (\<lambda>b. b \<noteq> 0x0A) (rev (pending con))))"
      using R by (auto simp: edit_step_def)
    with run kill K show ?thesis by (auto simp: console_interrupt_def ctrl_values split: prod.splits)
  next
    case key
    let ?c = "if c = 0x0D then 0x0A else c"
    let ?stop = "?c = 0x0A \<or> ?c = 0x04 \<or> length (committed con) + length (pending con) + 1 = 128"
    have "edit_step (c_raw con) c (committed con, pending con) =
        (if ?stop then (committed con @ pending con @ [?c], []) else (committed con, pending con @ [?c]))"
      using key R by (simp add: edit_step_def Let_def)
    moreover have "(out, con', s') =
        (if ?stop then ([Echo ?c], c_commit (c_append ?c con), wakeup cur (ChBuffer chan) s) else ([Echo ?c], c_append ?c con, s))"
      using run key full [of ?c] by (simp add: console_interrupt_def ctrl_values Let_def)
    ultimately show ?thesis using A [OF key(3), of ?c] C [of "c_append ?c con"] by (cases ?stop) simp_all
  next
    case drop
    then have "edit_step (c_raw con) c (committed con, pending con) = (committed con, pending con)"
      using R by (auto simp: edit_step_def)
    with run drop inv show ?thesis by (auto simp: console_interrupt_def ctrl_values split: if_splits)
  qed
  then show "console_inv con'" "(committed con', pending con') = edit_step (c_raw con) c (committed con, pending con)"
    "c_raw con' = c_raw con" "foreground_pid con' = foreground_pid con"
    "committed con' \<noteq> committed con \<Longrightarrow> s' = wakeup cur (ChBuffer chan) s" by simp_all
qed

lemma rx_loop_spec:
  "console_inv con \<Longrightarrow> rx_loop chan cur rx (con, s) = (out, con', s') \<Longrightarrow>
     console_inv con' \<and> (committed con', pending con') = fold (edit_step (c_raw con)) rx (committed con, pending con) \<and>
     c_raw con' = c_raw con"
proof (induction rx arbitrary: con s out)
  case Nil
  then show ?case by simp
next
  case (Cons c rx)
  obtain o1 con1 s1 where k: "console_interrupt chan cur c (con, s) = (o1, con1, s1)" by (metis prod_cases3)
  obtain o2 where l: "rx_loop chan cur rx (con1, s1) = (o2, con', s')" using Cons.prems(2) k by (auto split: prod.splits)
  from Cons.IH [OF _ l] console_interrupt_spec(1-3) [OF Cons.prems(1) k] show ?case by simp
qed

definition plain :: "u8 \<Rightarrow> bool" where
  "plain c \<longleftrightarrow> c \<notin> {0x00, 0x03, 0x04, 0x08, 0x0A, 0x0D, 0x10, 0x15, 0x7F}"

lemma rx_loop_plain:
  assumes "console_inv con" "\<not> c_raw con" "\<forall>c \<in> set line. plain c" "length (committed con) + length (pending con) + length line < 128"
  shows "\<exists>con'. rx_loop chan cur line (con, s) = (map Echo line, con', s) \<and> console_inv con' \<and> \<not> c_raw con' \<and>
    committed con' = committed con \<and> pending con' = pending con @ line"
  using assms
proof (induction line arbitrary: con)
  case Nil
  then show ?case by simp
next
  case (Cons c line)
  obtain out con1 s1 where k: "console_interrupt chan cur c (con, s) = (out, con1, s1)" by (metis prod_cases3)
  note S = console_interrupt_spec [OF Cons.prems(1) k]
  have c: "plain c" "length (committed con) + length (pending con) + 1 < 128" using Cons.prems(3,4) by simp_all
  have room: "c_room con" using c(2) c_room_iff [OF Cons.prems(1)] by simp
  note A = c_append_spec [OF Cons.prems(1) room]
  have nf: "c_e (c_append c con) - c_r con \<noteq> INPUT_BUF_SIZE"
    using console_occupied [OF A(1) [of c]] A(2,3) [of c] c(2) by (auto simp: INPUT_BUF_SIZE_def word_unat_eq_iff)
  have eq: "out = [Echo c]" "s1 = s" "con1 = c_append c con"
    using k c(1) Cons.prems(2) room nf by (auto simp: console_interrupt_def ctrl_values plain_def Let_def)
  from Cons.IH [of con1] S(1,3) A(2,3) [of c] Cons.prems obtain con' where
    "rx_loop chan cur line (con1, s) = (map Echo line, con', s)" "console_inv con'" "\<not> c_raw con'"
    "committed con' = committed con" "pending con' = pending con @ c # line" by (auto simp: eq)
  with k eq show ?case by simp
qed

lemma rx_loop_append:
  "rx_loop chan cur (xs @ ys) cs =
     (let (o1, cs) = rx_loop chan cur xs cs; (o2, cs) = rx_loop chan cur ys cs in (o1 @ o2, cs))"
  by (induction xs arbitrary: cs) (auto simp: Let_def split: prod.splits)

lemma console_typed_line:
  assumes "console_inv con" "\<not> c_raw con" "committed con = []" "pending con = []" "\<forall>c \<in> set line. plain c" "length line < 127"
  shows "\<exists>con'. rx_loop chan cur (line @ [0x0D]) (con, s) = (map Echo (line @ [0x0A]), con', wakeup cur (ChBuffer chan) s) \<and>
    console_inv con' \<and> \<not> c_raw con' \<and> committed con' = line @ [0x0A] \<and> pending con' = []"
proof -
  have "length (committed con) + length (pending con) + length line < 128" using assms by simp
  from rx_loop_plain [OF assms(1,2,5) this, of chan cur s] obtain con1 where
    k: "rx_loop chan cur line (con, s) = (map Echo line, con1, s)" "console_inv con1" "\<not> c_raw con1"
      "committed con1 = []" "pending con1 = line" using assms by auto
  have room: "c_room con1" using k assms(6) c_room_iff [OF k(2)] by simp
  have "console_interrupt chan cur 0x0D (con1, s) = ([Echo 0x0A], c_commit (c_append 0x0A con1), wakeup cur (ChBuffer chan) s)"
    using k(3) room by (simp add: console_interrupt_def ctrl_values Let_def)
  with k c_append_spec [OF k(2) room, of "0x0A"] c_commit_spec [of "c_append 0x0A con1"] show ?thesis
    by (simp add: rx_loop_append)
qed

section \<open>Reading\<close>

text \<open>How a read that delivered \<open>bs\<close> after \<open>i\<close> earlier bytes ends.\<close>

definition console_read_end where
  "console_read_end cto chan cur dst k i s con con' m' s' bs c =
     (case c of
         Done (Ok n) \<Rightarrow> n = word_of_nat (i + length bs) \<and> s' = s \<and>
           (committed con = bs @ committed con' \<and>
              (length bs = k \<or> bs \<noteq> [] \<and> (last bs = 0x0A \<or> c_raw con) \<or>
               (\<exists>t. committed con' = 0x04 # t) \<and> \<not> c_raw con \<and> 0 < i + length bs) \<or>
            (\<exists>x. committed con = bs @ x # committed con' \<and> length bs < k \<and>
              (x = 0x04 \<and> \<not> c_raw con \<and> i = 0 \<and> bs = [] \<or>
               (\<exists>m1 e. cto [x] (dst + word_of_nat (i + length bs)) m1 = Some (Err e, m')))))
       | Done (Err e) \<Rightarrow> e = Interrupted \<and> is_killed cur s \<and> s' = s \<and> committed con = bs \<and> 0x0A \<notin> set bs \<and> committed con' = []
       | Blocked n \<Rightarrow> n = i + length bs \<and> length bs < k \<and> committed con = bs \<and> 0x0A \<notin> set bs \<and> committed con' = [] \<and>
           s' = sleep_enter cur (ChBuffer chan) s)"

lemma console_read_end_Cons:
  assumes "console_read_end cto chan cur dst k (i + 1) s con1 con' m' s' bs c"
    and "committed con = x # committed con1" "c_raw con1 = c_raw con" "x \<noteq> 0x0A"
  shows "console_read_end cto chan cur dst (Suc k) i s con con' m' s' (x # bs) c"
  using assms by (cases c; cases "bs = []") (auto simp: console_read_end_def split: result.splits)

context user_memory
begin

lemma console_read_loop_spec:
  "minv m \<Longrightarrow> console_inv con \<Longrightarrow> i + k < 2 ^ 64 \<Longrightarrow>
    \<exists>c con' m' s' bs. console_read_loop cto chan cur dst k i con m s = Some (c, con', m', s') \<and>
      minv m' \<and> others m' = others m \<and> console_inv con' \<and> pending con' = pending con \<and> c_raw con' = c_raw con \<and>
      view m' = poke (view m) (dst + word_of_nat i) bs \<and> length bs \<le> k \<and> 0x0A \<notin> set (butlast bs) \<and>
      console_read_end cto chan cur dst k i s con con' m' s' bs c"
proof (induction k arbitrary: i con m)
  case 0
  then show ?case
    by (intro exI [of _ "Done (Ok (word_of_nat i))"] exI [of _ con] exI [of _ m] exI [of _ s] exI [of _ "[]"])
      (simp add: console_read_end_def)
next
  case (Suc k)
  show ?case
  proof (cases "c_r con = c_w con")
    case True
    then have e: "committed con = []" by (simp add: committed_def ring_empty)
    show ?thesis
    proof (cases "is_killed cur s")
      case k: True
      with True e Suc.prems show ?thesis
        by (intro exI [of _ "Done (Err Interrupted)"] exI [of _ con] exI [of _ m] exI [of _ s] exI [of _ "[]"])
          (simp add: console_read_end_def)
    next
      case k: False
      with True e Suc.prems show ?thesis
        by (intro exI [of _ "Blocked i"] exI [of _ con] exI [of _ m] exI [of _ "sleep_enter cur (ChBuffer chan) s"] exI [of _ "[]"])
          (simp add: console_read_end_def)
    qed
  next
    case False
    obtain x con1 where t: "c_take con = (x, con1)" by fastforce
    have T: "console_inv con1" "committed con = x # committed con1" "pending con1 = pending con" "c_raw con1 = c_raw con"
      using c_take_spec [OF Suc.prems(2) False] t by simp_all
    show ?thesis
    proof (cases "\<not> c_raw con \<and> x = 0x04")
      case True
      then have "console_read_loop cto chan cur dst (Suc k) i con m s =
          Some (Done (Ok (word_of_nat i)), if 0 < i then con else con1, m, s)"
        using False t by (simp add: ctrl_values)
      with True T Suc.prems show ?thesis
        by (intro exI [of _ "Done (Ok (word_of_nat i))"] exI [of _ "if 0 < i then con else con1"] exI [of _ m] exI [of _ s] exI [of _ "[]"])
          (auto simp: console_read_end_def)
    next
      case eof: False
      show ?thesis
      proof (rule copy_out_byte [OF Suc.prems(1), of x "dst + word_of_nat i"])
        fix e m1
        assume c: "cto [x] (dst + word_of_nat i) m = Some (Err e, m1)" "minv m1" "view m1 = view m" "others m1 = others m"
        then have "console_read_loop cto chan cur dst (Suc k) i con m s = Some (Done (Ok (word_of_nat i)), con1, m1, s)"
          using False t eof by (auto simp: ctrl_values)
        with c T show ?thesis
          by (intro exI [of _ "Done (Ok (word_of_nat i))"] exI [of _ con1] exI [of _ m1] exI [of _ s] exI [of _ "[]"])
            (auto simp: console_read_end_def)
      next
        fix m1
        assume c: "cto [x] (dst + word_of_nat i) m = Some (Ok (), m1)" "minv m1"
          "view m1 = poke (view m) (dst + word_of_nat i) [x]" "others m1 = others m"
        show ?thesis
        proof (cases "x = 0x0A \<or> c_raw con")
          case True
          then have "console_read_loop cto chan cur dst (Suc k) i con m s = Some (Done (Ok (word_of_nat (i + 1))), con1, m1, s)"
            using False t eof c(1) by (auto simp: ctrl_values)
          with c T True show ?thesis
            by (intro exI [of _ "Done (Ok (word_of_nat (i + 1)))"] exI [of _ con1] exI [of _ m1] exI [of _ s] exI [of _ "[x]"])
              (auto simp: console_read_end_def)
        next
          case go: False
          have k: "(i + 1) + k < 2 ^ 64" using Suc.prems(3) by simp
          from Suc.IH [OF c(2) T(1) k] obtain c2 con2 m2 s2 bs where
            IH: "console_read_loop cto chan cur dst k (i + 1) con1 m1 s = Some (c2, con2, m2, s2)"
              "minv m2" "others m2 = others m1" "console_inv con2" "pending con2 = pending con1" "c_raw con2 = c_raw con1"
              "view m2 = poke (view m1) (dst + word_of_nat (i + 1)) bs" "length bs \<le> k" "0x0A \<notin> set (butlast bs)" and
            c2: "console_read_end cto chan cur dst k (i + 1) s con1 con2 m2 s2 bs c2" by (elim exE conjE)
          have v: "view m2 = poke (view m) (dst + word_of_nat i) (x # bs)"
            using poke_append [of "[x]" bs "view m" "dst + word_of_nat i"] IH(7,8) Suc.prems(3) c(3)
            by (simp add: algebra_simps)
          have "console_read_loop cto chan cur dst (Suc k) i con m s = Some (c2, con2, m2, s2)"
            using False t eof go c(1) IH(1) by (auto simp: ctrl_values)
          moreover have "console_read_end cto chan cur dst (Suc k) i s con con2 m2 s2 (x # bs) c2"
            using console_read_end_Cons [OF c2 T(2,4)] go by simp
          moreover have "0x0A \<notin> set (butlast (x # bs))" using IH(9) go by simp
          ultimately show ?thesis using IH v T c(4)
            by (intro exI [of _ c2] exI [of _ con2] exI [of _ m2] exI [of _ s2] exI [of _ "x # bs"]) simp
        qed
      qed
    qed
  qed
qed

end

section \<open>Writing\<close>

text \<open>A write together with the transmit interrupts that wake it up, at most \<open>n\<close> of them.\<close>

fun write_rounds where
  "write_rounds 0 cfrom pf con tx_channel chan cur len st = Some st"
| "write_rounds (Suc n) cfrom pf con tx_channel chan cur len (WDone r, rest) = Some (WDone r, rest)"
| "write_rounds (Suc n) cfrom pf con tx_channel chan cur len (WBlocked src k rest, u, m, s) = do {
     let (u, _, _, s) = uart_interrupt tx_channel chan None LSR_TX_IDLE [] u con s;
     st \<leftarrow> console_write_resume cfrom pf tx_channel cur len src k rest u m s;
     write_rounds n cfrom pf con tx_channel chan cur len st
   }"

definition sends :: "u8 list \<Rightarrow> Uart \<Rightarrow> Uart \<Rightarrow> bool" where
  "sends bs u u' \<longleftrightarrow> reg_writes u' = reg_writes u @ map (Pair THR) bs"

lemma sends_simps [simp]: "sends [] u u" "sends bs u (u'\<lparr>tx_busy := x\<rparr>) \<longleftrightarrow> sends bs u u'"
  "sends bs (u\<lparr>tx_busy := x\<rparr>) u' \<longleftrightarrow> sends bs u u'" "sends [b] u (write_reg THR b u)"
  by (simp_all add: sends_def write_reg_def)

lemma sends_append: "sends xs u u1 \<Longrightarrow> sends ys u1 u2 \<Longrightarrow> sends (xs @ ys) u u2"
  by (simp add: sends_def)

lemma write_sync_sends: "\<not> panicked pf \<Longrightarrow> \<exists>u'. uart_write_sync pf bs u = Some u' \<and> sends bs u u'"
proof -
  have "reg_writes (fold (write_reg THR) bs u) = reg_writes u @ map (Pair THR) bs" for bs and u :: Uart
    by (induction bs arbitrary: u) (simp_all add: write_reg_def)
  then show "\<not> panicked pf \<Longrightarrow> ?thesis" by (simp add: uart_write_sync_def sends_def)
qed

lemma uart_write_cases:
  assumes "\<not> panicking pf" "cs \<noteq> []"
  obtains (asleep) "tx_busy u" "uart_write pf ch cur cs u s = (cs, u, sleep_enter cur (ChBuffer ch) s)"
  | (sent) u' s' where "\<not> tx_busy u" "uart_write pf ch cur cs u s = (tl cs, u', s')" "sends [hd cs] u u'" "tx_busy u'"
proof (cases "tx_busy u")
  case True
  with assms asleep show ?thesis by (cases cs) simp_all
next
  case False
  from assms(2) obtain c cs' where c: "cs = c # cs'" by (cases cs) auto
  show ?thesis
  proof (cases cs')
    case Nil
    with c False assms(1) sent show ?thesis by simp
  next
    case (Cons d ds)
    with c False assms(1) sent show ?thesis by simp
  qed
qed

context user_memory
begin

definition shows_bytes :: "usize \<Rightarrow> 'm \<Rightarrow> u8 list \<Rightarrow> bool" where
  "shows_bytes src m bs \<longleftrightarrow> (\<forall>j < length bs. \<forall>b. view m (src + word_of_nat j) = Some b \<longrightarrow> bs ! j = b)"

lemma shows_append:
  assumes "shows_bytes src m xs" "shows_bytes (src + word_of_nat (length xs)) m ys"
  shows "shows_bytes src m (xs @ ys)"
  unfolding shows_bytes_def
proof (intro allI impI)
  fix j b assume j: "j < length (xs @ ys)" and v: "view m (src + word_of_nat j) = Some b"
  show "(xs @ ys) ! j = b"
  proof (cases "j < length xs")
    case True
    with assms(1) v show ?thesis by (simp add: shows_bytes_def nth_append)
  next
    case False
    then have "src + word_of_nat (length xs) + word_of_nat (j - length xs) = src + word_of_nat j" by (simp add: of_nat_diff)
    with assms(2) v False j show ?thesis by (auto simp: shows_bytes_def nth_append)
  qed
qed

text \<open>
  The state of a cooked write of \<open>len\<close> bytes at \<open>src\<close> that began with transmitter \<open>u0\<close>, with at most
  \<open>k\<close> bytes not yet sent.
\<close>

definition writing where
  "writing src len u0 m0 k st \<longleftrightarrow> (case st of (c, u, m, s) \<Rightarrow>
     minv m \<and> view m = view m0 \<and> others m = others m0 \<and>
     (\<exists>bs. sends bs u0 u \<and> length bs \<le> len \<and>
       (case c of
          WDone r \<Rightarrow> r = Ok (word_of_nat (length bs)) \<and> shows_bytes src m0 bs
        | WBlocked a n rest \<Rightarrow> tx_busy u \<and> rest \<noteq> [] \<and> n < len \<and> a = src + word_of_nat n \<and> len - length bs \<le> k \<and>
            length bs + length rest = n + min 32 (len - n) \<and> shows_bytes src m0 (bs @ rest))))"

lemma writing_loop:
  assumes "minv m" "view m = view m0" "others m = others m0" "\<not> panicking pf"
      "sends bs u0 u" "length bs = n" "n \<le> len" "shows_bytes src m0 bs" "len - n \<le> (if tx_busy u then k else Suc k)"
  shows "\<exists>st. console_write_loop cfrom pf False ch cur (src + word_of_nat n) len n u m s = Some st \<and> writing src len u0 m0 k st"
proof (cases "len \<le> n")
  case True
  with assms have "n = len" by simp
  with assms show ?thesis by (subst console_write_loop.simps) (auto simp: writing_def)
next
  case False
  let ?chunk = "min 32 (len - n)" and ?a = "src + word_of_nat n"
  have pos: "0 < ?chunk" using False by simp
  from copy_in [OF assms(1), of ?a ?chunk] obtain r m1 where
    c: "cfrom ?a ?chunk m = Some (r, m1)" "minv m1" "view m1 = view m" "others m1 = others m" and
    d: "case r of Ok cs \<Rightarrow> length cs = ?chunk \<and> (\<forall>i < ?chunk. \<forall>b. view m (?a + word_of_nat i) = Some b \<longrightarrow> cs ! i = b)
        | Err _ \<Rightarrow> True" by blast
  show ?thesis
  proof (cases r)
    case (Err e)
    with c False assms show ?thesis by (subst console_write_loop.simps) (auto simp: writing_def Let_def)
  next
    case (Ok cs)
    with d have cs: "length cs = ?chunk" "shows_bytes ?a m0 cs" using assms(2) by (simp_all add: shows_bytes_def)
    have all: "shows_bytes src m0 (bs @ cs)" using shows_append [OF assms(8)] cs(2) assms(6) by simp
    have ne: "cs \<noteq> []" using cs(1) pos by auto
    from \<open>\<not> panicking pf\<close> ne show ?thesis
    proof (cases rule: uart_write_cases [of pf cs u ch cur s])
      case asleep
      then have "console_write_loop cfrom pf False ch cur ?a len n u m s =
          Some (WBlocked ?a n cs, u, m1, sleep_enter cur (ChBuffer ch) s)"
        using c Ok False ne by (subst console_write_loop.simps) (auto simp: Let_def split: list.splits)
      with asleep c assms cs ne all False show ?thesis by (auto simp: writing_def)
    next
      case (sent u' s')
      have s1: "sends (bs @ [hd cs]) u0 u'" using sends_append [OF assms(5) sent(3)] .
      show ?thesis
      proof (cases "tl cs = []")
        case True
        then have one: "cs = [hd cs]" using ne by (cases cs) simp_all
        then have one': "bs @ [hd cs] = bs @ cs" by simp
        from one have ch1: "?chunk = 1" using cs(1) by (metis length_Cons list.size(3) One_nat_def)
        then have "len - n = 1" using False by (simp add: min_def split: if_splits)
        then have n1: "n + 1 = len" using False by simp
        have "console_write_loop cfrom pf False ch cur ?a len n u m s =
            console_write_loop cfrom pf False ch cur (?a + word_of_nat ?chunk) len (n + ?chunk) u' m1 s'"
          using c Ok False sent True by (subst console_write_loop.simps) (simp add: Let_def)
        also have "\<dots> = Some (WDone (Ok (word_of_nat len)), u', m1, s')"
          using ch1 n1 by (subst console_write_loop.simps) simp
        finally show ?thesis
          using c assms s1 all one' n1 cs(1) ch1 by (auto simp: writing_def intro!: exI [of _ "bs @ cs"])
      next
        case more: False
        have "console_write_loop cfrom pf False ch cur ?a len n u m s = Some (WBlocked ?a n (tl cs), u', m1, s')"
          using c Ok False sent more by (subst console_write_loop.simps) (auto simp: Let_def split: list.splits)
        moreover have "(bs @ [hd cs]) @ tl cs = bs @ cs" using ne by simp
        moreover have "len - length (bs @ [hd cs]) \<le> k" using assms(6,9) sent(1) by simp
        moreover have "length (bs @ [hd cs]) + length (tl cs) = n + ?chunk" using cs(1) assms(6) ne by (cases cs) auto
        moreover have "length (bs @ [hd cs]) \<le> len" using assms(6) False by simp
        ultimately show ?thesis
          using c assms s1 sent(4) all more False
          by (intro exI conjI) (assumption, unfold writing_def, auto intro!: exI [of _ "bs @ [hd cs]"])
      qed
    qed
  qed
qed

end

context user_memory
begin

lemma writing_resume:
  assumes "writing src len u0 m0 (Suc k) (WBlocked a n rest, u, m, s)" "len = unat l" "\<not> panicking pf"
  shows "\<exists>st. console_write_resume cfrom pf ch cur l a n rest (u\<lparr>tx_busy := False\<rparr>) m s = Some st \<and>
    writing src len u0 m0 k st"
proof -
  let ?u = "u\<lparr>tx_busy := False\<rparr>" and ?chunk = "min 32 (len - n)"
  from assms(1) obtain bs where
    w: "minv m" "view m = view m0" "others m = others m0" "sends bs u0 u" "length bs \<le> len" "rest \<noteq> []" "n < len"
      "a = src + word_of_nat n" "len - length bs \<le> Suc k" "length bs + length rest = n + ?chunk" "shows_bytes src m0 (bs @ rest)"
    by (auto simp: writing_def)
  from assms(3) w(6) show ?thesis
  proof (cases rule: uart_write_cases [of pf rest ?u ch cur "sleep_exit cur s"])
    case asleep
    then show ?thesis by simp
  next
    case (sent u' s')
    have s1: "sends (bs @ [hd rest]) u0 u'" using sends_append [OF w(4)] sent(3) by simp
    have eq: "(bs @ [hd rest]) @ tl rest = bs @ rest" using w(6) by simp
    have L: "length (bs @ [hd rest]) + length (tl rest) = n + ?chunk" using w(6,10) by (cases rest) auto
    have k: "len - length (bs @ [hd rest]) \<le> k" using w(9) by simp
    show ?thesis
    proof (cases "tl rest = []")
      case True
      let ?n = "n + ?chunk"
      have "console_write_resume cfrom pf ch cur l a n rest ?u m s =
          console_write_loop cfrom pf False ch cur (src + word_of_nat ?n) len ?n u' m s'"
        using sent(2) True w(8) assms(2) by (simp add: console_write_resume_def Let_def algebra_simps)
      moreover have "shows_bytes src m0 (bs @ [hd rest])" using w(11) eq True by simp
      moreover have "length (bs @ [hd rest]) = ?n" using L True by simp
      ultimately show ?thesis
        using writing_loop [OF w(1-3) assms(3) s1, of ?n len src k ch cur s'] k sent(4) w(7) by simp
    next
      case False
      then have "console_write_resume cfrom pf ch cur l a n rest ?u m s = Some (WBlocked a n (tl rest), u', m, s')"
        using sent(2) by (simp add: console_write_resume_def split: list.splits)
      moreover have "writing src len u0 m0 k (WBlocked a n (tl rest), u', m, s')"
        using w s1 L k eq sent(4) False unfolding writing_def by (auto intro!: exI [of _ "bs @ [hd rest]"])
      ultimately show ?thesis by blast
    qed
  qed
qed

lemma writing_ends: "\<not> writing src len u0 m0 0 (WBlocked a n rest, u, m, s)"
proof
  assume "writing src len u0 m0 0 (WBlocked a n rest, u, m, s)"
  then obtain bs :: "u8 list" where "rest \<noteq> []" "len - length bs \<le> 0" "length bs + length rest = n + min 32 (len - n)" "n < len"
    by (auto simp: writing_def)
  moreover from this(1) have "0 < length rest" by simp
  ultimately show False by linarith
qed

lemma writing_rounds:
  "writing src len u0 m0 k st \<Longrightarrow> len = unat l \<Longrightarrow> \<not> panicking pf \<Longrightarrow>
    \<exists>r u m s. write_rounds k cfrom pf con ch chan cur l st = Some (WDone r, u, m, s) \<and> writing src len u0 m0 0 (WDone r, u, m, s)"
proof (induction k arbitrary: st)
  case 0
  obtain c u m s where st: "st = (c, u, m, s)" by (metis prod_cases4)
  from 0(1) obtain r where "c = WDone r" by (cases c) (auto simp: st writing_ends)
  with 0 st show ?case by simp
next
  case (Suc k)
  obtain c u m s where st: "st = (c, u, m, s)" by (metis prod_cases4)
  show ?case
  proof (cases c)
    case (WDone r)
    with Suc.prems(1) st show ?thesis by (simp add: writing_def)
  next
    case (WBlocked a n rest)
    let ?s = "wakeup None (ChBuffer ch) s"
    have "writing src len u0 m0 (Suc k) (WBlocked a n rest, u, m, ?s)" using Suc.prems(1) st WBlocked by (simp add: writing_def)
    from writing_resume [OF this Suc.prems(2,3), of ch cur] obtain st1 where
      r: "console_write_resume cfrom pf ch cur l a n rest (u\<lparr>tx_busy := False\<rparr>) m ?s = Some st1"
        "writing src len u0 m0 k st1" by blast
    have "uart_interrupt ch chan None LSR_TX_IDLE [] u con s = (u\<lparr>tx_busy := False\<rparr>, [], con, ?s)"
      by (simp add: uart_interrupt_def LSR_TX_IDLE_def)
    with r Suc.IH [OF r(2) Suc.prems(2,3)] st WBlocked show ?thesis by simp
  qed
qed

lemma raw_write_loop:
  "minv m \<Longrightarrow> view m = view m0 \<Longrightarrow> others m = others m0 \<Longrightarrow> \<not> panicked pf \<Longrightarrow>
    sends bs u0 u \<Longrightarrow> length bs = n \<Longrightarrow> n \<le> len \<Longrightarrow> shows_bytes src m0 bs \<Longrightarrow>
    \<exists>r u' m' s'. console_write_loop cfrom pf True ch cur (src + word_of_nat n) len n u m s = Some (WDone r, u', m', s') \<and>
      writing src len u0 m0 k (WDone r, u', m', s')"
proof (induction "len - n" arbitrary: n u m bs rule: less_induct)
  case less
  show ?case
  proof (cases "len \<le> n")
    case True
    with less.prems have "n = len" by simp
    with less.prems show ?thesis by (subst console_write_loop.simps) (auto simp: writing_def)
  next
    case False
    let ?chunk = "min 32 (len - n)" and ?a = "src + word_of_nat n"
    from copy_in [OF less.prems(1), of ?a ?chunk] obtain r m1 where
      c: "cfrom ?a ?chunk m = Some (r, m1)" "minv m1" "view m1 = view m" "others m1 = others m" and
      d: "case r of Ok cs \<Rightarrow> length cs = ?chunk \<and> (\<forall>i < ?chunk. \<forall>b. view m (?a + word_of_nat i) = Some b \<longrightarrow> cs ! i = b)
          | Err _ \<Rightarrow> True" by blast
    show ?thesis
    proof (cases r)
      case (Err e)
      with c False less.prems show ?thesis by (subst console_write_loop.simps) (auto simp: writing_def Let_def)
    next
      case (Ok cs)
      with d have cs: "length cs = ?chunk" "shows_bytes ?a m0 cs" using less.prems(2) by (simp_all add: shows_bytes_def)
      have all: "shows_bytes src m0 (bs @ cs)" using shows_append [OF less.prems(8)] cs(2) less.prems(6) by simp
      from write_sync_sends [OF less.prems(4), of cs u] obtain u1 where u1: "uart_write_sync pf cs u = Some u1" "sends cs u u1" by blast
      have "console_write_loop cfrom pf True ch cur ?a len n u m s =
          console_write_loop cfrom pf True ch cur (src + word_of_nat (n + ?chunk)) len (n + ?chunk) u1 m1 s"
        using c Ok False u1 by (subst console_write_loop.simps) (simp add: Let_def algebra_simps)
      moreover have "length (bs @ cs) = n + ?chunk" "n + ?chunk \<le> len" "len - (n + ?chunk) < len - n"
        using cs(1) less.prems(6) False by simp_all
      ultimately show ?thesis
        using less.hyps [of "n + ?chunk" m1 "bs @ cs" u1] c less.prems sends_append [OF less.prems(5) u1(2)] all by simp
    qed
  qed
qed

lemma console_write_complete:
  assumes "minv m" "\<not> panicking pf" "\<not> panicked pf"
  shows "\<exists>st bs u' m' s'. console_write cfrom pf con ch cur src len u m s = Some st \<and>
    write_rounds (unat len) cfrom pf con ch chan cur len st = Some (WDone (Ok (word_of_nat (length bs))), u', m', s') \<and>
    minv m' \<and> view m' = view m \<and> others m' = others m \<and> length bs \<le> unat len \<and> sends bs u u' \<and> shows_bytes src m bs"
proof (cases "c_raw con")
  case True
  have z: "shows_bytes src m []" "sends [] u u" by (simp_all add: shows_bytes_def)
  from raw_write_loop [OF assms(1) refl refl assms(3) z(2) refl _ z(1), of "unat len" ch cur s 0] obtain r u' m' s' where
    w: "console_write_loop cfrom pf True ch cur src (unat len) 0 u m s = Some (WDone r, u', m', s')"
      "writing src (unat len) u m 0 (WDone r, u', m', s')" by auto
  have "write_rounds (unat len) cfrom pf con ch chan cur len (WDone r, u', m', s') = Some (WDone r, u', m', s')"
    by (cases "unat len") simp_all
  with w True show ?thesis by (auto simp: writing_def console_write_def)
next
  case False
  have z: "shows_bytes src m []" "sends [] u u" by (simp_all add: shows_bytes_def)
  have "unat len - 0 \<le> (if tx_busy u then unat len else Suc (unat len))" by simp
  from writing_loop [OF assms(1) refl refl assms(2) z(2) list.size(3) _ z(1) this, of ch cur s] obtain st where
    w: "console_write_loop cfrom pf False ch cur src (unat len) 0 u m s = Some st" "writing src (unat len) u m (unat len) st" by auto
  from writing_rounds [OF w(2) refl assms(2), of con ch chan cur] obtain r u' m' s' where
    r: "write_rounds (unat len) cfrom pf con ch chan cur len st = Some (WDone r, u', m', s')"
      "writing src (unat len) u m 0 (WDone r, u', m', s')" by blast
  from r(2) have "\<exists>bs. r = Ok (word_of_nat (length bs)) \<and> minv m' \<and> view m' = view m \<and> others m' = others m \<and>
    length bs \<le> unat len \<and> sends bs u u' \<and> shows_bytes src m bs" by (auto simp: writing_def)
  with w(1) r(1) False show ?thesis unfolding console_write_def by auto
qed

end

section \<open>Theorems\<close>

text \<open>
  Property C22.  The interrupt handler implements the line editor \<open>edit_step\<close> on two lists, the input
  committed for \<open>read\<close> and the line being typed, for every key and in both modes, with the read, write
  and edit positions wrapping around: it keeps the documented order \<open>r <= w <= e\<close> within 128 bytes, and
  wakes the readers whenever it commits input.
\<close>

theorem console_refines_editor:
  assumes "console_inv con" "uart_interrupt tx_channel chan cur lsr rx u con s = (u', out, con', s')"
  shows "console_inv con' \<and> length (committed con') + length (pending con') \<le> 128 \<and>
    (committed con', pending con') = fold (edit_step (c_raw con)) rx (committed con, pending con) \<and>
    (\<forall>c. (case console_interrupt chan cur c (con, s) of
       (_, con1, s1) \<Rightarrow> committed con1 = committed con \<or> s1 = wakeup cur (ChBuffer chan) s))"
proof -
  obtain s0 where run: "rx_loop chan cur rx (con, s0) = (out, con', s')"
    using assms(2) by (auto simp: uart_interrupt_def split: if_splits)
  note S = rx_loop_spec [OF assms(1) run]
  have "case console_interrupt chan cur c (con, s) of
       (_, con1, s1) \<Rightarrow> committed con1 = committed con \<or> s1 = wakeup cur (ChBuffer chan) s" for c
  proof (cases "console_interrupt chan cur c (con, s)")
    case (fields o1 con1 s1)
    from console_interrupt_spec(5) [OF assms(1) this] show ?thesis unfolding fields by (cases "committed con1 = committed con") simp_all
  qed
  then have w: "\<forall>c. (case console_interrupt chan cur c (con, s) of
       (_, con1, s1) \<Rightarrow> committed con1 = committed con \<or> s1 = wakeup cur (ChBuffer chan) s)" ..
  from S have i: "console_inv con'" ..
  then have l: "length (committed con') + length (pending con') \<le> 128"
    using console_occupied [OF i] by (simp add: console_inv_def)
  show ?thesis by (intro conjI i l w conjunct1 [OF conjunct2 [OF S]])
qed

text \<open>
  Property C28.  A line typed at the console reaches the reader unchanged: when the plain characters
  \<open>line\<close> and a carriage return arrive on an empty console in cooked mode, they are echoed and the
  readers are woken, and a \<open>read\<close> with room for the line copies exactly the line and a newline into the
  caller's memory, unless a copy to that memory fails.
\<close>

theorem console_line_delivered:
  assumes "user_inv B live R r sz m" "console_inv con" "\<not> c_raw con" "committed con = []" "pending con = []"
    and "\<forall>c \<in> set line. plain c" "length line < 127" "length line < unat len"
  shows "\<exists>u' con1 s1. uart_interrupt tx_channel chan None 0 (line @ [0x0D]) u con s = (u', map Echo (line @ [0x0A]), con1, s1) \<and>
    s1 = wakeup None (ChBuffer chan) s \<and>
    (\<exists>n con2 m2 s2. console_read (copy_to B r sz) chan cur dst len con1 m s1 = Some (Done (Ok n), con2, m2, s2) \<and>
      (n = word_of_nat (length line) + 1 \<and> committed con2 = [] \<and> peek m2 r sz = poke (peek m r sz) dst (line @ [0x0A]) \<or>
       (\<exists>x m1 e. copy_to B r sz [x] (dst + n) m1 = Some (Err e, m2))))"
proof -
  from console_typed_line [OF assms(2-7), of chan None s] obtain con1 where
    t: "rx_loop chan None (line @ [0x0D]) (con, s) = (map Echo (line @ [0x0A]), con1, wakeup None (ChBuffer chan) s)"
      "console_inv con1" "\<not> c_raw con1" "committed con1 = line @ [0x0A]" by blast
  let ?s = "wakeup None (ChBuffer chan) s"
  have "0 + unat len < 2 ^ 64" using unat_usize_less [of len] by simp
  from um.console_read_loop_spec [OF assms(1) t(2) this, of chan cur dst ?s] obtain c con2 m2 s2 bs where
    run: "console_read_loop (copy_to B r sz) chan cur dst (unat len) 0 con1 m ?s = Some (c, con2, m2, s2)" and
    v: "peek m2 r sz = poke (peek m r sz) (dst + word_of_nat 0) bs" "length bs \<le> unat len" "0x0A \<notin> set (butlast bs)" and
    e: "console_read_end (copy_to B r sz) chan cur dst (unat len) 0 ?s con1 con2 m2 s2 bs c" by (elim exE conjE)
  have nl: "0x0A \<notin> set line" "0x04 \<notin> set line" using assms(6) by (auto simp: plain_def)
  have in10: "0x0A \<in> set (committed con1)" using t(4) by simp
  have no4: "\<not> (\<exists>xs ys. line @ [0x0A] = xs @ 0x04 # ys)"
  proof
    assume "\<exists>xs ys. line @ [0x0A] = xs @ 0x04 # ys"
    then obtain xs ys where "line @ [0x0A] = xs @ 0x04 # ys" by blast
    then have "0x04 \<in> set (line @ [0x0A])" by simp
    with nl show False by simp
  qed
  have whole: "bs = line @ [0x0A] \<and> committed con2 = []"
    if eq: "line @ [0x0A] = bs @ committed con2" and "length bs = unat len \<or> bs \<noteq> [] \<and> last bs = 0x0A"
  proof (cases "committed con2" rule: rev_cases)
    case Nil
    with eq show ?thesis by simp
  next
    case (snoc ys y)
    with eq have "line = bs @ ys" by (simp flip: append_assoc)
    with that(2) nl assms(8) show ?thesis by (auto simp del: last_in_set dest: last_in_set)
  qed
  have "\<exists>n. c = Done (Ok n) \<and>
      (n = word_of_nat (length line) + 1 \<and> committed con2 = [] \<and> bs = line @ [0x0A] \<or>
       (\<exists>x m1 e. copy_to B r sz [x] (dst + n) m1 = Some (Err e, m2)))"
  proof (cases c)
    case (Done res)
    show ?thesis
    proof (cases res)
      case (Ok n)
      with e Done t(3,4) have
        E: "n = word_of_nat (length bs)"
          "line @ [0x0A] = bs @ committed con2 \<and> (length bs = unat len \<or> bs \<noteq> [] \<and> last bs = 0x0A \<or> (\<exists>t. committed con2 = 0x04 # t)) \<or>
           (\<exists>x. line @ [0x0A] = bs @ x # committed con2 \<and>
              (x = 0x04 \<or> (\<exists>m1 e. copy_to B r sz [x] (dst + word_of_nat (length bs)) m1 = Some (Err e, m2))))"
        by (auto simp: console_read_end_def)
      from E(2) consider (all) "line @ [0x0A] = bs @ committed con2" "length bs = unat len \<or> bs \<noteq> [] \<and> last bs = 0x0A"
        | (eof) t where "line @ [0x0A] = bs @ 0x04 # t"
        | (fault) x m1 e where "copy_to B r sz [x] (dst + word_of_nat (length bs)) m1 = Some (Err e, m2)" by auto
      then show ?thesis
      proof cases
        case all
        from whole [OF this] have "n = word_of_nat (length line) + 1" using E(1) by simp
        with whole [OF all] Done Ok show ?thesis by blast
      next
        case eof
        with no4 show ?thesis by blast
      next
        case fault
        with Done Ok E(1) show ?thesis by blast
      qed
    next
      case (Err e')
      with e Done in10 show ?thesis by (auto simp: console_read_end_def)
    qed
  next
    case (Blocked n)
    with e in10 show ?thesis by (auto simp: console_read_end_def)
  qed
  moreover have "uart_interrupt tx_channel chan None 0 (line @ [0x0D]) u con s = (u, map Echo (line @ [0x0A]), con1, ?s)"
    using t(1) by (simp add: uart_interrupt_def)
  ultimately show ?thesis using run v(1) unfolding console_read_def by auto
qed

text \<open>
  Property C29.  A write to the console always completes: as long as no hart panics, after at most one
  transmit interrupt per byte the call returns, and the bytes handed to the device, in order, are
  exactly the first bytes of the caller's buffer, as many as the result says.
\<close>

theorem console_write_completes:
  assumes "user_inv B live R r sz m" "\<not> panicking pf" "\<not> panicked pf"
  shows "\<exists>st bs u' m' s'. console_write (copy_from B r sz) pf con tx_channel cur src len u m s = Some st \<and>
    write_rounds (unat len) (copy_from B r sz) pf con tx_channel chan cur len st =
      Some (WDone (Ok (word_of_nat (length bs))), u', m', s') \<and>
    length bs \<le> unat len \<and> reg_writes u' = reg_writes u @ map (Pair THR) bs \<and>
    (\<forall>j < length bs. \<forall>b. peek m r sz (src + word_of_nat j) = Some b \<longrightarrow> bs ! j = b) \<and>
    peek m' r sz = peek m r sz \<and> other_views R r m' = other_views R r m"
  using um.console_write_complete [OF assms, of con tx_channel cur src len u s chan]
  unfolding um.shows_bytes_def sends_def by blast

section \<open>Witnesses\<close>

theorem console_refines_editor_witness:
  "\<exists>u' out con' s'. uart_interrupt 1 2 None 0 [0x61, 0x62, 0x7F, 0x0D] uart_new console_new proc_table_new = (u', out, con', s') \<and>
     console_inv con' \<and> committed con' = [0x61, 0x0A] \<and> pending con' = []"
proof -
  obtain u' out con' s' where
    run: "uart_interrupt 1 2 None 0 [0x61, 0x62, 0x7F, 0x0D] uart_new console_new proc_table_new = (u', out, con', s')"
    by (metis prod_cases4)
  from console_refines_editor [OF console_new_inv(1) run] have "console_inv con'" and
    ed: "(committed con', pending con') = fold (edit_step False) [0x61, 0x62, 0x7F, 0x0D] ([], [])"
    by (auto simp: console_new_def console_new_inv [unfolded console_new_def])
  moreover have "fold (edit_step False) [0x61, 0x62, 0x7F, 0x0D] ([], []) = ([0x61, 0x0A], [])" by (simp add: edit_step_def)
  ultimately show ?thesis using run by simp
qed

theorem console_line_delivered_witness:
  "\<exists>u' con1 s1. uart_interrupt 1 2 None 0 [0x68, 0x69, 0x0D] uart_new console_new proc_table_new =
       (u', [Echo 0x68, Echo 0x69, Echo 0x0A], con1, s1) \<and>
     (\<exists>n con2 m2 s2. console_read (copy_to list_buddy 0x80110000 0x2000) 2 0 0x100 16 con1 example_users s1 =
       Some (Done (Ok n), con2, m2, s2))"
proof -
  have h: "\<not> c_raw console_new" "\<forall>c \<in> set [0x68, 0x69]. plain c" "length [0x68 :: u8, 0x69] < 127" "length [0x68 :: u8, 0x69] < unat (16 :: usize)"
    by (simp_all add: console_new_def plain_def)
  from console_line_delivered [OF users_inv(2) console_new_inv(1) h(1) console_new_inv(2,3) h(2-4), of 1 2 uart_new proc_table_new 0 "0x100"]
  show ?thesis by auto
qed

theorem console_write_completes_witness:
  "\<exists>st bs u' m' s'. console_write (copy_from list_buddy 0x80100000 0x3FFFFFE000) \<lparr>panicking = False, panicked = False\<rparr>
       console_new 1 0 0x3FFFFFD000 3 uart_new example_users proc_table_new = Some st \<and>
     write_rounds 3 (copy_from list_buddy 0x80100000 0x3FFFFFE000) \<lparr>panicking = False, panicked = False\<rparr> console_new 1 2 0 3 st =
       Some (WDone (Ok (word_of_nat (length bs))), u', m', s') \<and> reg_writes u' = map (Pair THR) bs"
proof -
  let ?pf = "\<lparr>panicking = False, panicked = False\<rparr>"
  have h: "\<not> panicking ?pf" "\<not> panicked ?pf" by simp_all
  from console_write_completes [OF users_inv(1) h, of console_new 1 0 "0x3FFFFFD000" 3 uart_new proc_table_new 2]
  show ?thesis by (auto simp: uart_new_def)
qed

end
