(* ===== verification/Blockstore.thy ===== *)
theory Blockstore
  imports Riscv
begin

text \<open>
  What the buffer cache promises to the log and the file system.  A \<open>Store\<close> is the cache as its
  clients see it: the contents of every block, the contents of the disk, how many references each
  block has, which blocks are locked by a caller, and the writes the disk has received.
\<close>

definition BSIZE :: nat where "BSIZE = 1024"

record Store =
  st_view :: "u32 \<Rightarrow> u8 list"
  st_disk :: "u32 \<Rightarrow> u8 list"
  st_refs :: "u32 \<Rightarrow> nat"
  st_held :: "u32 set"
  st_writes :: "(u32 \<times> u8 list) list"

definition in_use :: "Store \<Rightarrow> u32 set" where
  "in_use st = {b. st_refs st b \<noteq> 0}"

text \<open>A block without references has the same contents in memory and on disk.\<close>

definition store_inv :: "Store \<Rightarrow> bool" where
  "store_inv st \<longleftrightarrow> (\<forall>b. st_refs st b = 0 \<longrightarrow> st_view st b = st_disk st b) \<and> (\<forall>b \<in> st_held st. 0 < st_refs st b) \<and>
     finite (in_use st) \<and> (\<forall>b. length (st_view st b) = BSIZE \<and> length (st_disk st b) = BSIZE)"

definition store_read :: "u32 \<Rightarrow> Store \<Rightarrow> Store" where
  "store_read b st = st\<lparr>st_refs := (st_refs st)(b := st_refs st b + 1), st_held := insert b (st_held st)\<rparr>"

definition store_set :: "u32 \<Rightarrow> u8 list \<Rightarrow> Store \<Rightarrow> Store" where
  "store_set b d st = st\<lparr>st_view := (st_view st)(b := d)\<rparr>"

definition store_write :: "u32 \<Rightarrow> Store \<Rightarrow> Store" where
  "store_write b st = st\<lparr>st_disk := (st_disk st)(b := st_view st b), st_writes := st_writes st @ [(b, st_view st b)]\<rparr>"

definition store_release :: "u32 \<Rightarrow> Store \<Rightarrow> Store" where
  "store_release b st = st\<lparr>st_refs := (st_refs st)(b := st_refs st b - 1), st_held := st_held st - {b}\<rparr>"

definition store_pin :: "u32 \<Rightarrow> Store \<Rightarrow> Store" where
  "store_pin b st = st\<lparr>st_refs := (st_refs st)(b := st_refs st b + 1)\<rparr>"

definition store_unpin :: "u32 \<Rightarrow> Store \<Rightarrow> Store" where
  "store_unpin b st = st\<lparr>st_refs := (st_refs st)(b := st_refs st b - 1)\<rparr>"

definition can_ref :: "u32 \<Rightarrow> Store \<Rightarrow> bool" where
  "can_ref b st \<longleftrightarrow> st_refs st b < 2 ^ 32 - 1"

definition can_read :: "nat \<Rightarrow> u32 \<Rightarrow> Store \<Rightarrow> bool" where
  "can_read cap b st \<longleftrightarrow> b \<notin> st_held st \<and> can_ref b st \<and> (0 < st_refs st b \<or> card (in_use st) < cap)"

definition can_release :: "u32 \<Rightarrow> Store \<Rightarrow> bool" where
  "can_release b st \<longleftrightarrow> 1 < st_refs st b \<or> st_view st b = st_disk st b"

text \<open>A block that goes to the cache and to the disk at once.\<close>

definition store_install :: "u32 \<Rightarrow> u8 list \<Rightarrow> Store \<Rightarrow> Store" where
  "store_install b d st = st\<lparr>st_view := (st_view st)(b := d), st_disk := (st_disk st)(b := d), st_writes := st_writes st @ [(b, d)]\<rparr>"

lemmas store_defs = store_read_def store_set_def store_write_def store_release_def store_pin_def store_unpin_def

text \<open>
  The contract.  \<open>handle s i b\<close> says that buffer \<open>i\<close> is the caller's locked copy of block \<open>b\<close>.
\<close>

locale block_cache =
  fixes inv :: "'s \<Rightarrow> bool"
    and abs :: "'s \<Rightarrow> Store"
    and handle :: "'s \<Rightarrow> nat \<Rightarrow> u32 \<Rightarrow> bool"
    and cap :: nat
    and rd :: "u32 \<Rightarrow> 's \<Rightarrow> (nat \<times> 's) option"
    and dat :: "nat \<Rightarrow> 's \<Rightarrow> u8 list"
    and put :: "nat \<Rightarrow> u8 list \<Rightarrow> 's \<Rightarrow> 's"
    and wr :: "nat \<Rightarrow> 's \<Rightarrow> 's"
    and rel :: "nat \<Rightarrow> 's \<Rightarrow> 's"
    and pin :: "nat \<Rightarrow> 's \<Rightarrow> 's"
    and unpin :: "nat \<Rightarrow> 's \<Rightarrow> 's"
  assumes store: "inv s \<Longrightarrow> store_inv (abs s)"
    and handle_held: "inv s \<Longrightarrow> handle s i b \<Longrightarrow> b \<in> st_held (abs s)"
    and handle_data: "inv s \<Longrightarrow> handle s i b \<Longrightarrow> dat i s = st_view (abs s) b"
    and read_ok: "inv s \<Longrightarrow> can_read cap b (abs s) \<Longrightarrow>
      \<exists>i s'. rd b s = Some (i, s') \<and> inv s' \<and> abs s' = store_read b (abs s) \<and> handle s' i b \<and>
        (\<forall>j c. handle s j c \<longrightarrow> handle s' j c)"
    and put_ok: "inv s \<Longrightarrow> handle s i b \<Longrightarrow> length d = BSIZE \<Longrightarrow>
      inv (put i d s) \<and> abs (put i d s) = store_set b d (abs s) \<and> (\<forall>j c. handle s j c \<longrightarrow> handle (put i d s) j c)"
    and write_ok: "inv s \<Longrightarrow> handle s i b \<Longrightarrow>
      inv (wr i s) \<and> abs (wr i s) = store_write b (abs s) \<and> (\<forall>j c. handle s j c \<longrightarrow> handle (wr i s) j c)"
    and release_ok: "inv s \<Longrightarrow> handle s i b \<Longrightarrow> can_release b (abs s) \<Longrightarrow>
      inv (rel i s) \<and> abs (rel i s) = store_release b (abs s) \<and> (\<forall>j c. handle s j c \<longrightarrow> c \<noteq> b \<longrightarrow> handle (rel i s) j c)"
    and pin_ok: "inv s \<Longrightarrow> handle s i b \<Longrightarrow> can_ref b (abs s) \<Longrightarrow>
      inv (pin i s) \<and> abs (pin i s) = store_pin b (abs s) \<and> (\<forall>j c. handle s j c \<longrightarrow> handle (pin i s) j c)"
    and unpin_ok: "inv s \<Longrightarrow> handle s i b \<Longrightarrow> 1 < st_refs (abs s) b \<Longrightarrow>
      inv (unpin i s) \<and> abs (unpin i s) = store_unpin b (abs s) \<and> (\<forall>j c. handle s j c \<longrightarrow> handle (unpin i s) j c)"
begin

lemma can_release_clean: "store_inv st \<Longrightarrow> can_release b (store_read b st)"
  by (auto simp: can_release_def store_read_def store_inv_def)

lemma can_read_second:
  assumes "store_inv st" "can_read cap b st" "a \<noteq> b" "0 < st_refs st b \<or> card (in_use st) + 2 \<le> cap"
  shows "can_read cap b (store_read a st)"
proof -
  have "in_use (store_read a st) = insert a (in_use st)" by (auto simp: in_use_def store_read_def)
  moreover have "finite (in_use st)" using assms(1) by (simp add: store_inv_def)
  ultimately have "card (in_use (store_read a st)) \<le> card (in_use st) + 1" by (simp add: card_insert_if)
  with assms show ?thesis by (auto simp: can_read_def can_ref_def store_read_def)
qed

text \<open>Read a block, change it, write it to the disk, release it.\<close>

lemma update_block:
  assumes inv: "inv s" and rd: "can_read cap b (abs s)" and len: "\<And>d. length d = BSIZE \<Longrightarrow> length (f d) = BSIZE"
  shows "\<exists>i s1. rd b s = Some (i, s1) \<and> inv (rel i (wr i (put i (f (dat i s1)) s1))) \<and>
    abs (rel i (wr i (put i (f (dat i s1)) s1))) = store_install b (f (st_view (abs s) b)) (abs s)"
proof -
  from read_ok [OF inv rd] obtain i s1 where
    1: "rd b s = Some (i, s1)" "inv s1" "abs s1 = store_read b (abs s)" "handle s1 i b" by blast
  have d: "dat i s1 = st_view (abs s) b" using handle_data [OF 1(2,4)] 1(3) by (simp add: store_read_def)
  have L: "length (f (dat i s1)) = BSIZE" using len store [OF inv] d by (simp add: store_inv_def)
  define s2 where "s2 = put i (f (dat i s1)) s1"
  have 2: "inv s2" "abs s2 = store_set b (f (dat i s1)) (abs s1)" "handle s2 i b" using put_ok [OF 1(2,4) L] 1(4) by (simp_all add: s2_def)
  define s3 where "s3 = wr i s2"
  have 3: "inv s3" "abs s3 = store_write b (abs s2)" "handle s3 i b" using write_ok [OF 2(1,3)] 2(3) by (simp_all add: s3_def)
  have "can_release b (abs s3)" by (simp add: can_release_def 3(2) store_write_def)
  from release_ok [OF 3(1,3) this] have 4: "inv (rel i s3)" "abs (rel i s3) = store_release b (abs s3)" by simp_all
  have "b \<notin> st_held (abs s)" using rd by (simp add: can_read_def)
  then have "abs (rel i s3) = store_install b (f (st_view (abs s) b)) (abs s)"
    unfolding 4(2) 3(2) 2(2) 1(3) d by (intro Store.equality) (auto simp: store_defs store_install_def)
  with 1(1) 4(1) show ?thesis by (auto simp: s2_def s3_def)
qed

text \<open>Look at a block and release it; change a block that is, or becomes, pinned.\<close>

lemma peek_block:
  assumes inv: "inv s" and rd: "can_read cap b (abs s)"
  shows "\<exists>i s1. rd b s = Some (i, s1) \<and> inv s1 \<and> handle s1 i b \<and> dat i s1 = st_view (abs s) b \<and> inv (rel i s1) \<and> abs (rel i s1) = abs s"
proof -
  from read_ok [OF inv rd] obtain i s1 where
    1: "rd b s = Some (i, s1)" "inv s1" "abs s1 = store_read b (abs s)" "handle s1 i b" by blast
  from release_ok [OF 1(2,4)] can_release_clean [OF store [OF inv]] have
    2: "inv (rel i s1)" "abs (rel i s1) = store_release b (abs s1)" unfolding 1(3) by simp_all
  have "b \<notin> st_held (abs s)" using rd by (simp add: can_read_def)
  then have "abs (rel i s1) = abs s" unfolding 2(2) 1(3) by (intro Store.equality) (auto simp: store_defs)
  with 1 2(1) handle_data [OF 1(2,4)] show ?thesis by (simp add: store_read_def)
qed

lemma modify_block:
  assumes inv: "inv s" and rd: "can_read cap b (abs s)" and len: "\<And>d. length d = BSIZE \<Longrightarrow> length (f d) = BSIZE"
    and pinned: "\<not> new \<Longrightarrow> 0 < st_refs (abs s) b" and room: "st_refs (abs s) b < 2 ^ 32 - 2"
  shows "\<exists>i s1. rd b s = Some (i, s1) \<and> dat i s1 = st_view (abs s) b \<and> handle (put i (f (dat i s1)) s1) i b \<and> inv (put i (f (dat i s1)) s1) \<and>
    (let s2 = put i (f (dat i s1)) s1; s3 = (if new then pin i s2 else s2)
     in inv (rel i s3) \<and> abs (rel i s3) = (let st = store_set b (f (st_view (abs s) b)) (abs s) in if new then store_pin b st else st))"
proof -
  from read_ok [OF inv rd] obtain i s1 where
    1: "rd b s = Some (i, s1)" "inv s1" "abs s1 = store_read b (abs s)" "handle s1 i b" by blast
  have d: "dat i s1 = st_view (abs s) b" using handle_data [OF 1(2,4)] 1(3) by (simp add: store_read_def)
  have L: "length (f (dat i s1)) = BSIZE" using len store [OF inv] d by (simp add: store_inv_def)
  define s2 where "s2 = put i (f (dat i s1)) s1"
  have 2: "inv s2" "abs s2 = store_set b (f (dat i s1)) (abs s1)" "handle s2 i b" using put_ok [OF 1(2,4) L] 1(4) by (simp_all add: s2_def)
  have "can_ref b (abs s2)" using room by (simp add: can_ref_def 2(2) 1(3) store_defs)
  note P = pin_ok [OF 2(1,3) this]
  define s3 where "s3 = (if new then pin i s2 else s2)"
  have 3: "inv s3" "abs s3 = (if new then store_pin b (abs s2) else abs s2)" "handle s3 i b" using P 2 by (simp_all add: s3_def)
  have "can_release b (abs s3)" using pinned by (auto simp: can_release_def 3(2) 2(2) 1(3) store_defs)
  from release_ok [OF 3(1,3) this] have 4: "inv (rel i s3)" "abs (rel i s3) = store_release b (abs s3)" by simp_all
  have "b \<notin> st_held (abs s)" using rd by (simp add: can_read_def)
  then have "abs (rel i s3) = (let st = store_set b (f (st_view (abs s) b)) (abs s) in if new then store_pin b st else st)"
    unfolding 4(2) 3(2) 2(2) 1(3) d by (intro Store.equality) (auto simp: store_defs Let_def)
  with 1(1) 2 4(1) d show ?thesis unfolding Let_def s2_def [symmetric] s3_def [symmetric] by (auto simp: s2_def s3_def)
qed

text \<open>Two blocks locked at once; \<open>copy_to_first\<close> is the step of writing the log, \<open>copy_to_second\<close> the step of installing it.\<close>

lemma read_two:
  assumes inv: "inv s" and rd: "can_read cap a (abs s)" "can_read cap b (store_read a (abs s))" and ne: "a \<noteq> b"
  shows "\<exists>i j s1 s2. rd a s = Some (i, s1) \<and> rd b s1 = Some (j, s2) \<and> inv s2 \<and> abs s2 = store_read b (store_read a (abs s)) \<and>
    handle s2 i a \<and> handle s2 j b \<and> dat i s2 = st_view (abs s) a \<and> dat j s2 = st_view (abs s) b"
proof -
  from read_ok [OF inv rd(1)] obtain i s1 where
    1: "rd a s = Some (i, s1)" "inv s1" "abs s1 = store_read a (abs s)" "handle s1 i a" by blast
  from read_ok [OF 1(2), of b] rd(2) obtain j s2 where
    2: "rd b s1 = Some (j, s2)" "inv s2" "abs s2 = store_read b (abs s1)" "handle s2 j b" "\<forall>k c. handle s1 k c \<longrightarrow> handle s2 k c"
    unfolding 1(3) by blast
  from 2(5) 1(4) have "handle s2 i a" by blast
  with 1 2 handle_data [OF 2(2)] show ?thesis by (auto simp: store_read_def)
qed

lemma copy_to_first:
  assumes inv: "inv s" and rd: "can_read cap a (abs s)" "can_read cap b (store_read a (abs s))" and ne: "a \<noteq> b"
  shows "\<exists>i j s1 s2. rd a s = Some (i, s1) \<and> rd b s1 = Some (j, s2) \<and>
    inv (rel j (rel i (wr i (put i (dat j s2) s2)))) \<and>
    abs (rel j (rel i (wr i (put i (dat j s2) s2)))) = store_install a (st_view (abs s) b) (abs s)"
proof -
  from read_two [OF assms] obtain i j s1 s2 where
    2: "rd a s = Some (i, s1)" "rd b s1 = Some (j, s2)" "inv s2" "abs s2 = store_read b (store_read a (abs s))"
      "handle s2 i a" "handle s2 j b" "dat i s2 = st_view (abs s) a" "dat j s2 = st_view (abs s) b" by blast
  note S = store [OF inv]
  then have L: "length (dat j s2) = BSIZE" using 2(8) by (simp add: store_inv_def)
  define s3 where "s3 = put i (dat j s2) s2"
  have 3: "inv s3" "abs s3 = store_set a (dat j s2) (abs s2)" "handle s3 i a" "handle s3 j b"
    using put_ok [OF 2(3,5) L] 2(5,6) by (simp_all add: s3_def)
  define s4 where "s4 = wr i s3"
  have 4: "inv s4" "abs s4 = store_write a (abs s3)" "handle s4 i a" "handle s4 j b"
    using write_ok [OF 3(1,3)] 3(3,4) by (simp_all add: s4_def)
  have "can_release a (abs s4)" by (simp add: can_release_def 4(2) store_write_def)
  from release_ok [OF 4(1,3) this] have 5: "inv (rel i s4)" "abs (rel i s4) = store_release a (abs s4)" "handle (rel i s4) j b"
    using 4(4) ne by simp_all
  have "can_release b (abs (rel i s4))"
    using S ne by (auto simp: can_release_def 5(2) 4(2) 3(2) 2(4) store_defs store_inv_def)
  from release_ok [OF 5(1,3) this] have 6: "inv (rel j (rel i s4))" "abs (rel j (rel i s4)) = store_release b (abs (rel i s4))" by simp_all
  have "a \<notin> st_held (abs s)" "b \<notin> st_held (abs s)" using rd by (auto simp: can_read_def store_read_def)
  then have "abs (rel j (rel i s4)) = store_install a (st_view (abs s) b) (abs s)"
    unfolding 6(2) 5(2) 4(2) 3(2) 2(4,8) using ne by (intro Store.equality) (auto simp: store_defs store_install_def fun_eq_iff)
  with 2(1,2) 6(1) show ?thesis by (auto simp: s4_def s3_def)
qed

lemma copy_to_second:
  assumes inv: "inv s" and rd: "can_read cap a (abs s)" "can_read cap b (store_read a (abs s))" and ne: "a \<noteq> b"
    and pinned: "\<not> keep \<Longrightarrow> 0 < st_refs (abs s) b"
  shows "\<exists>i j s1 s2. rd a s = Some (i, s1) \<and> rd b s1 = Some (j, s2) \<and>
    (let s3 = wr j (put j (dat i s2) s2); s4 = (if keep then s3 else unpin j s3); s5 = rel j (rel i s4)
     in inv s5 \<and> abs s5 = (let st = store_install b (st_view (abs s) a) (abs s) in if keep then st else store_unpin b st))"
proof -
  from read_two [OF assms(1-4)] obtain i j s1 s2 where
    2: "rd a s = Some (i, s1)" "rd b s1 = Some (j, s2)" "inv s2" "abs s2 = store_read b (store_read a (abs s))"
      "handle s2 i a" "handle s2 j b" "dat i s2 = st_view (abs s) a" "dat j s2 = st_view (abs s) b" by blast
  note S = store [OF inv]
  then have L: "length (dat i s2) = BSIZE" using 2(7) by (simp add: store_inv_def)
  define s3 where "s3 = wr j (put j (dat i s2) s2)"
  have 3: "inv s3" "abs s3 = store_write b (store_set b (dat i s2) (abs s2))" "handle s3 i a" "handle s3 j b"
    using put_ok [OF 2(3,6) L] write_ok [of "put j (dat i s2) s2" j b] 2(5,6) by (simp_all add: s3_def)
  have ub: "\<not> keep \<Longrightarrow> 1 < st_refs (abs s3) b" using pinned ne by (simp add: 3(2) 2(4) store_defs)
  define s4 where "s4 = (if keep then s3 else unpin j s3)"
  have 4: "inv s4" "abs s4 = (if keep then abs s3 else store_unpin b (abs s3))" "handle s4 i a" "handle s4 j b"
    using unpin_ok [OF 3(1,4)] ub 3 by (simp_all add: s4_def)
  have "can_release a (abs s4)" using S ne by (auto simp: can_release_def 4(2) 3(2) 2(4) store_defs store_inv_def)
  from release_ok [OF 4(1,3) this] have 5: "inv (rel i s4)" "abs (rel i s4) = store_release a (abs s4)" "handle (rel i s4) j b"
    using 4(4) ne by simp_all
  have "can_release b (abs (rel i s4))" using ne by (auto simp: can_release_def 5(2) 4(2) 3(2) store_defs)
  from release_ok [OF 5(1,3) this] have 6: "inv (rel j (rel i s4))" "abs (rel j (rel i s4)) = store_release b (abs (rel i s4))" by simp_all
  have "a \<notin> st_held (abs s)" "b \<notin> st_held (abs s)" using rd by (auto simp: can_read_def store_read_def)
  then have "abs (rel j (rel i s4)) = (let st = store_install b (st_view (abs s) a) (abs s) in if keep then st else store_unpin b st)"
    unfolding 6(2) 5(2) 4(2) 3(2) 2(4,7) using ne pinned
    by (intro Store.equality) (auto simp: store_defs store_install_def fun_eq_iff Let_def)
  with 2(1,2) 6(1) show ?thesis unfolding Let_def s4_def [symmetric] s3_def [symmetric] by (auto simp: s4_def s3_def)
qed

end

end
