(* ===== verification/Bcache.thy ===== *)
theory Bcache
  imports Blockstore
begin

text \<open>
  The buffer cache (\<open>kernel/src/buf.rs\<close>) in front of the disk.  Buffers are found by device and block
  number; a buffer that nobody refers to is recycled in least-recently-used order, which the code keeps
  as a circular list threaded through the metadata with indices.

  The model runs one kernel thread: a buffer's sleep lock is a flag, and locking a buffer that is
  already locked, which would sleep forever, is \<open>None\<close> like a panic.  \<open>virtio_disk::rw\<close> appears as the
  transfer it completes; theory \<open>Virtio\<close> is about the driver.  \<open>bc_writes\<close> records the blocks written
  to the disk in order.
\<close>

section \<open>Definitions\<close>

record BufMeta =
  m_valid :: bool
  m_disk :: bool
  m_dev :: u32
  m_block_no :: u32
  m_ref_count :: u32
  m_prev :: nat
  m_next :: nat

record BCache =
  bc_meta :: "BufMeta list"
  bc_head :: nat
  bc_data :: "u8 list list"
  bc_locked :: "bool list"
  bc_disk :: "u32 \<Rightarrow> u8 list"
  bc_writes :: "(u32 \<times> u8 list) list"

definition buf_meta_new :: BufMeta where
  "buf_meta_new = \<lparr>m_valid = False, m_disk = False, m_dev = 0, m_block_no = 0, m_ref_count = 0, m_prev = 0, m_next = 0\<rparr>"

definition buf_data_new :: "u8 list" where
  "buf_data_new = replicate BSIZE 0"

definition bcache_new :: "(u32 \<Rightarrow> u8 list) \<Rightarrow> BCache" where
  "bcache_new disk = \<lparr>bc_meta = replicate NBUF buf_meta_new, bc_head = 0, bc_data = replicate NBUF buf_data_new,
     bc_locked = replicate NBUF False, bc_disk = disk, bc_writes = []\<rparr>"

definition bcache_init :: "BCache \<Rightarrow> BCache" where
  "bcache_init s = s\<lparr>bc_head := 0,
     bc_meta := map (\<lambda>i. (bc_meta s ! i)\<lparr>m_prev := (if i = 0 then NBUF - 1 else i - 1),
                                         m_next := (if i = NBUF - 1 then 0 else i + 1)\<rparr>) [0..<NBUF]\<rparr>"

definition upd_meta :: "nat \<Rightarrow> (BufMeta \<Rightarrow> BufMeta) \<Rightarrow> BCache \<Rightarrow> BCache" where
  "upd_meta i f s = s\<lparr>bc_meta := (bc_meta s)[i := f (bc_meta s ! i)]\<rparr>"

definition buf_lock :: "nat \<Rightarrow> BCache \<Rightarrow> (nat \<times> BCache) option" where
  "buf_lock i s = (if bc_locked s ! i then None else Some (i, s\<lparr>bc_locked := (bc_locked s)[i := True]\<rparr>))"

text \<open>The search for a buffer to recycle, from the tail of the list.\<close>

partial_function (option) lru_scan :: "BufMeta list \<Rightarrow> nat \<Rightarrow> nat \<Rightarrow> nat option" where
  "lru_scan meta head i =
     (if i = head then None
      else if m_ref_count (meta ! i) = 0 then Some i
      else lru_scan meta head (m_prev (meta ! i)))"

definition bget :: "u32 \<Rightarrow> u32 \<Rightarrow> BCache \<Rightarrow> (nat \<times> BCache) option" where
  "bget dev block_no s =
     (case find_index (\<lambda>m. m_dev m = dev \<and> m_block_no m = block_no) (bc_meta s) of
        Some i \<Rightarrow> buf_lock i (upd_meta i (\<lambda>m. m\<lparr>m_ref_count := m_ref_count m + 1\<rparr>) s)
      | None \<Rightarrow> do {
          i \<leftarrow> lru_scan (bc_meta s) (bc_head s) (m_prev (bc_meta s ! bc_head s));
          buf_lock i (upd_meta i (\<lambda>m. m\<lparr>m_dev := dev, m_block_no := block_no, m_valid := False,
                                        m_ref_count := m_ref_count m + 1\<rparr>) s)
        })"

definition rw :: "nat \<Rightarrow> bool \<Rightarrow> BCache \<Rightarrow> BCache" where
  "rw i write s =
     (let block_no = m_block_no (bc_meta s ! i)
      in if write
         then s\<lparr>bc_disk := (bc_disk s)(block_no := bc_data s ! i), bc_writes := bc_writes s @ [(block_no, bc_data s ! i)]\<rparr>
         else s\<lparr>bc_data := (bc_data s)[i := bc_disk s block_no]\<rparr>)"

definition bread :: "u32 \<Rightarrow> u32 \<Rightarrow> BCache \<Rightarrow> (nat \<times> BCache) option" where
  "bread dev block_no s = do {
     (i, s) \<leftarrow> bget dev block_no s;
     if m_valid (bc_meta s ! i) then Some (i, s)
     else Some (i, upd_meta i (\<lambda>m. m\<lparr>m_valid := True\<rparr>) (rw i False s))
   }"

definition bwrite :: "nat \<Rightarrow> BCache \<Rightarrow> BCache" where
  "bwrite i s = rw i True s"

definition buf_data :: "nat \<Rightarrow> BCache \<Rightarrow> u8 list" where
  "buf_data i s = bc_data s ! i"

definition set_buf_data :: "nat \<Rightarrow> u8 list \<Rightarrow> BCache \<Rightarrow> BCache" where
  "set_buf_data i d s = s\<lparr>bc_data := (bc_data s)[i := d]\<rparr>"

text \<open>The list manipulation of \<open>release\<close>, assignment by assignment.\<close>

definition move_to_front :: "nat \<Rightarrow> BCache \<Rightarrow> BCache" where
  "move_to_front i s =
     (let next = m_next (bc_meta s ! i);
          prev = m_prev (bc_meta s ! i);
          s = upd_meta next (\<lambda>m. m\<lparr>m_prev := m_prev (bc_meta s ! i)\<rparr>) s;
          s = upd_meta prev (\<lambda>m. m\<lparr>m_next := m_next (bc_meta s ! i)\<rparr>) s;
          head = bc_head s;
          first = m_next (bc_meta s ! head);
          s = upd_meta i (\<lambda>m. m\<lparr>m_next := first\<rparr>) s;
          s = upd_meta i (\<lambda>m. m\<lparr>m_prev := head\<rparr>) s;
          s = upd_meta first (\<lambda>m. m\<lparr>m_prev := i\<rparr>) s
      in upd_meta head (\<lambda>m. m\<lparr>m_next := i\<rparr>) s)"

definition brelease :: "nat \<Rightarrow> BCache \<Rightarrow> BCache" where
  "brelease i s =
     (let s = s\<lparr>bc_locked := (bc_locked s)[i := False]\<rparr>;
          s = upd_meta i (\<lambda>m. m\<lparr>m_ref_count := m_ref_count m - 1\<rparr>) s
      in if m_ref_count (bc_meta s ! i) = 0 then move_to_front i s else s)"

definition bpin :: "nat \<Rightarrow> BCache \<Rightarrow> BCache" where
  "bpin i = upd_meta i (\<lambda>m. m\<lparr>m_ref_count := m_ref_count m + 1\<rparr>)"

definition bunpin :: "nat \<Rightarrow> BCache \<Rightarrow> BCache" where
  "bunpin i = upd_meta i (\<lambda>m. m\<lparr>m_ref_count := m_ref_count m - 1\<rparr>)"

section \<open>The list of buffers\<close>

text \<open>\<open>linked nx pv path\<close>: every node of the path and its successor point at each other.\<close>

fun linked :: "(nat \<Rightarrow> nat) \<Rightarrow> (nat \<Rightarrow> nat) \<Rightarrow> nat list \<Rightarrow> bool" where
  "linked nx pv (a # b # path) \<longleftrightarrow> nx a = b \<and> pv b = a \<and> linked nx pv (b # path)"
| "linked nx pv path \<longleftrightarrow> True"

lemma linked_append: "linked nx pv (xs @ m # ys) \<longleftrightarrow> linked nx pv (xs @ [m]) \<and> linked nx pv (m # ys)"
proof (induction xs rule: induct_list012)
  case (3 x y zs)
  then show ?case by simp
qed (cases ys; simp)+

lemma linked_cong:
  "linked nx pv path \<Longrightarrow> \<forall>a \<in> set (butlast path). nx' a = nx a \<Longrightarrow> \<forall>b \<in> set (tl path). pv' b = pv b \<Longrightarrow> linked nx' pv' path"
proof (induction path rule: induct_list012)
  case (3 x y zs)
  then show ?case by (cases zs) auto
qed simp_all

lemma linked_unlink:
  assumes L: "linked nx pv (h # as @ i # bs @ [h])" and D: "distinct (h # as @ i # bs)"
  shows "linked (nx(pv i := nx i)) (pv(nx i := pv i)) (h # as @ bs @ [h])"
    and "pv i = last (h # as)" "nx i = hd (bs @ [h])"
proof -
  let ?p = "last (h # as)" and ?n = "hd (bs @ [h])"
  obtain ps where p: "h # as = ps @ [?p]" by (metis append_butlast_last_id list.distinct(1))
  obtain ns where n: "bs @ [h] = ?n # ns" by (cases bs) auto
  from L p n have "linked nx pv (ps @ ?p # i # ?n # ns)" by (metis append.assoc append_Cons append_Nil)
  then have l: "linked nx pv (ps @ [?p])" "pv i = ?p" "nx i = ?n" "linked nx pv (?n # ns)"
    using linked_append [of nx pv ps ?p "i # ?n # ns"] by simp_all
  then show "pv i = last (h # as)" "nx i = hd (bs @ [h])" by simp_all
  have D': "distinct (ps @ [?p])" "?n \<notin> set (tl (ps @ [?p]))" "?p \<notin> set (butlast (?n # ns))" "?n \<notin> set ns"
  proof -
    show "distinct (ps @ [?p])" using D p by (metis distinct_append append_Cons)
    have t: "tl (ps @ [?p]) = as" using p by (metis list.sel(3))
    show "?n \<notin> set (tl (ps @ [?p]))" unfolding t using D by (cases bs) auto
    have b: "butlast (?n # ns) = bs" using n by (metis butlast_snoc)
    have "?p \<in> set (h # as)" by (rule last_in_set) simp
    then show "?p \<notin> set (butlast (?n # ns))" unfolding b using D by auto
    show "?n \<notin> set ns" using n D by (cases bs) auto
  qed
  let ?nx = "nx(?p := ?n)" and ?pv = "pv(?n := ?p)"
  have "linked ?nx ?pv (ps @ [?p])" using l(1) D'(1,2) by (rule_tac linked_cong) (auto simp: butlast_append)
  moreover have "linked ?nx ?pv (?n # ns)" using l(4) D'(3,4) by (rule_tac linked_cong) auto
  ultimately have "linked ?nx ?pv (ps @ ?p # ?n # ns)" using linked_append [of ?nx ?pv ps ?p "?n # ns"] by simp
  then show "linked (nx(pv i := nx i)) (pv(nx i := pv i)) (h # as @ bs @ [h])"
    using l(2,3) p n by (metis append.assoc append_Cons append_Nil)
qed

lemma linked_insert:
  assumes L: "linked nx pv (h # cs @ [h])" and D: "distinct (h # cs)" and i: "i \<notin> set (h # cs)"
  shows "linked (nx(i := nx h, h := i)) (pv(i := h, nx h := i)) (h # i # cs @ [h])" and "nx h = hd (cs @ [h])"
proof -
  obtain ns where n: "cs @ [h] = hd (cs @ [h]) # ns" by (cases cs) auto
  let ?n = "hd (cs @ [h])"
  from L n have l: "nx h = ?n" "linked nx pv (?n # ns)" by (metis linked.simps(1))+
  then show "nx h = hd (cs @ [h])" by simp
  have b: "butlast (?n # ns) = cs" using n by (metis butlast_snoc)
  have t: "?n \<notin> set ns" "i \<notin> set ns" "i \<noteq> ?n" using n D i by (cases cs; auto)+
  have "linked (nx(i := ?n, h := i)) (pv(i := h, ?n := i)) (?n # ns)"
    using l(2) b t D i by (rule_tac linked_cong) auto
  then show "linked (nx(i := nx h, h := i)) (pv(i := h, nx h := i)) (h # i # cs @ [h])"
    using l(1) n t i by (metis fun_upd_apply linked.simps(1) list.set_intros(1))
qed

text \<open>The search walks the list backwards.\<close>

lemma lru_scan_linked:
  assumes "linked (\<lambda>i. m_next (ms ! i)) (\<lambda>i. m_prev (ms ! i)) (h # xs @ [h])" "h \<notin> set xs"
  shows "lru_scan ms h (m_prev (ms ! h)) = find (\<lambda>i. m_ref_count (ms ! i) = 0) (rev xs)"
proof -
  let ?pv = "\<lambda>i. m_prev (ms ! i)" and ?nx = "\<lambda>i. m_next (ms ! i)"
  have "linked ?nx ?pv (h # ys @ [z]) \<Longrightarrow> h \<notin> set ys \<Longrightarrow>
      lru_scan ms h (?pv z) = find (\<lambda>i. m_ref_count (ms ! i) = 0) (rev ys)" for ys z
  proof (induction ys arbitrary: z rule: rev_induct)
    case Nil
    then show ?case by (simp add: lru_scan.simps)
  next
    case (snoc y ys)
    have "linked ?nx ?pv (h # ys @ [y])" "?pv z = y"
      using snoc.prems(1) linked_append [of ?nx ?pv "h # ys" y "[z]"] by simp_all
    with snoc show ?case by (subst lru_scan.simps) auto
  qed
  from this [OF assms] show ?thesis .
qed

section \<open>Invariant and abstraction\<close>

definition lookup :: "u32 \<Rightarrow> BCache \<Rightarrow> u32 \<Rightarrow> nat option" where
  "lookup dev s b = find_index (\<lambda>m. m_dev m = dev \<and> m_block_no m = b) (bc_meta s)"

definition lru_ok :: "BufMeta list \<Rightarrow> bool" where
  "lru_ok ms \<longleftrightarrow> (\<exists>xs. linked (\<lambda>i. m_next (ms ! i)) (\<lambda>i. m_prev (ms ! i)) (0 # xs @ [0]) \<and> distinct (0 # xs) \<and> set (0 # xs) = {..<NBUF})"

text \<open>Buffer 0 is the head of the list and never caches a block.\<close>

definition buf_ok :: "u32 \<Rightarrow> BCache \<Rightarrow> nat \<Rightarrow> bool" where
  "buf_ok dev s i \<longleftrightarrow> (let m = bc_meta s ! i in
     length (bc_data s ! i) = BSIZE \<and>
     (if m_dev m = dev
      then m_valid m \<and> 0 < i \<and> (bc_locked s ! i \<longrightarrow> m_ref_count m \<noteq> 0) \<and>
        (m_ref_count m = 0 \<longrightarrow> bc_data s ! i = bc_disk s (m_block_no m))
      else m_ref_count m = 0 \<and> \<not> bc_locked s ! i))"

definition cache_inv :: "u32 \<Rightarrow> BCache \<Rightarrow> bool" where
  "cache_inv dev s \<longleftrightarrow> length (bc_meta s) = NBUF \<and> length (bc_data s) = NBUF \<and> length (bc_locked s) = NBUF \<and>
     bc_head s = 0 \<and> lru_ok (bc_meta s) \<and> (\<forall>i < NBUF. buf_ok dev s i) \<and>
     (\<forall>i < NBUF. \<forall>j < NBUF. m_dev (bc_meta s ! i) = dev \<longrightarrow> m_dev (bc_meta s ! j) = dev \<longrightarrow>
        m_block_no (bc_meta s ! i) = m_block_no (bc_meta s ! j) \<longrightarrow> i = j) \<and>
     (\<forall>b. length (bc_disk s b) = BSIZE)"

definition cache_abs :: "u32 \<Rightarrow> BCache \<Rightarrow> Store" where
  "cache_abs dev s =
     \<lparr>st_view = (\<lambda>b. case lookup dev s b of Some i \<Rightarrow> bc_data s ! i | None \<Rightarrow> bc_disk s b),
      st_disk = bc_disk s,
      st_refs = (\<lambda>b. case lookup dev s b of Some i \<Rightarrow> unat (m_ref_count (bc_meta s ! i)) | None \<Rightarrow> 0),
      st_held = {b. \<exists>i. lookup dev s b = Some i \<and> bc_locked s ! i},
      st_writes = bc_writes s\<rparr>"

definition caches :: "u32 \<Rightarrow> BCache \<Rightarrow> nat \<Rightarrow> u32 \<Rightarrow> bool" where
  "caches dev s i b \<longleftrightarrow> i < NBUF \<and> m_dev (bc_meta s ! i) = dev \<and> m_block_no (bc_meta s ! i) = b"

definition buf_handle :: "u32 \<Rightarrow> BCache \<Rightarrow> nat \<Rightarrow> u32 \<Rightarrow> bool" where
  "buf_handle dev s i b \<longleftrightarrow> caches dev s i b \<and> bc_locked s ! i"

lemma lookup_caches:
  assumes "cache_inv dev s"
  shows "lookup dev s b = Some i \<longleftrightarrow> caches dev s i b"
proof
  have len: "length (bc_meta s) = NBUF" using assms by (simp add: cache_inv_def)
  show "caches dev s i b" if "lookup dev s b = Some i"
    using find_index_SomeD [OF that [unfolded lookup_def]] len by (simp add: caches_def)
  show "lookup dev s b = Some i" if c: "caches dev s i b"
  proof (cases "lookup dev s b")
    case None
    with c len show ?thesis by (auto simp: lookup_def caches_def find_index_None_set)
  next
    case (Some j)
    from find_index_SomeD [OF this [unfolded lookup_def]] len have "j < NBUF" "m_dev (bc_meta s ! j) = dev" "m_block_no (bc_meta s ! j) = b"
      by simp_all
    moreover from c have "i < NBUF" "m_dev (bc_meta s ! i) = dev" "m_block_no (bc_meta s ! i) = b" by (simp_all add: caches_def)
    ultimately have "j = i" using assms unfolding cache_inv_def by blast
    with Some show ?thesis by simp
  qed
qed

lemma lookup_None:
  assumes "cache_inv dev s"
  shows "lookup dev s b = None \<longleftrightarrow> (\<forall>i. \<not> caches dev s i b)"
  using lookup_caches [OF assms, of b] by (cases "lookup dev s b") auto

lemma caches_inj: "cache_inv dev s \<Longrightarrow> caches dev s i b \<Longrightarrow> caches dev s j b \<Longrightarrow> i = j"
  by (metis lookup_caches option.inject)

lemma cache_abs_at:
  assumes "cache_inv dev s" "caches dev s i b"
  shows "st_view (cache_abs dev s) b = bc_data s ! i" "st_refs (cache_abs dev s) b = unat (m_ref_count (bc_meta s ! i))"
    "b \<in> st_held (cache_abs dev s) \<longleftrightarrow> bc_locked s ! i"
  using assms lookup_caches [OF assms(1), of b i] by (simp_all add: cache_abs_def)

lemma cache_abs_uncached:
  assumes "cache_inv dev s" "\<forall>i. \<not> caches dev s i b"
  shows "st_view (cache_abs dev s) b = bc_disk s b" "st_refs (cache_abs dev s) b = 0" "b \<notin> st_held (cache_abs dev s)"
  using assms lookup_None [OF assms(1), of b] by (simp_all add: cache_abs_def)

lemma cache_abs_fields [simp]: "st_disk (cache_abs dev s) = bc_disk s" "st_writes (cache_abs dev s) = bc_writes s"
  by (simp_all add: cache_abs_def)

lemma cache_abs_eqI:
  assumes inv: "cache_inv dev s" and fields: "st_disk st = bc_disk s" "st_writes st = bc_writes s"
    and cached: "\<And>i b. caches dev s i b \<Longrightarrow>
        st_view st b = bc_data s ! i \<and> st_refs st b = unat (m_ref_count (bc_meta s ! i)) \<and> (b \<in> st_held st \<longleftrightarrow> bc_locked s ! i)"
    and uncached: "\<And>b. \<forall>i. \<not> caches dev s i b \<Longrightarrow> st_view st b = bc_disk s b \<and> st_refs st b = 0 \<and> b \<notin> st_held st"
  shows "cache_abs dev s = st"
proof -
  have eq: "st_view st b = st_view (cache_abs dev s) b \<and> st_refs st b = st_refs (cache_abs dev s) b \<and>
      (b \<in> st_held st \<longleftrightarrow> b \<in> st_held (cache_abs dev s))" for b
  proof (cases "\<exists>i. caches dev s i b")
    case True
    then obtain i where "caches dev s i b" by blast
    with cached [OF this] cache_abs_at [OF inv this] show ?thesis by simp
  next
    case False
    with uncached [of b] cache_abs_uncached [OF inv] show ?thesis by simp
  qed
  have "st_view st = st_view (cache_abs dev s)" "st_refs st = st_refs (cache_abs dev s)" "st_held st = st_held (cache_abs dev s)"
    using eq by auto
  with fields show ?thesis by (intro Store.equality) simp_all
qed

lemma cache_invD:
  assumes "cache_inv dev s"
  shows "length (bc_meta s) = NBUF" "length (bc_data s) = NBUF" "length (bc_locked s) = NBUF" "bc_head s = 0"
    "lru_ok (bc_meta s)" "\<And>i. i < NBUF \<Longrightarrow> buf_ok dev s i" "\<And>b. length (bc_disk s b) = BSIZE"
  using assms by (simp_all add: cache_inv_def)

text \<open>Updates that keep what every buffer caches and the list.\<close>

definition same_keys :: "BCache \<Rightarrow> BCache \<Rightarrow> bool" where
  "same_keys s s' \<longleftrightarrow> length (bc_meta s') = length (bc_meta s) \<and> length (bc_data s') = length (bc_data s) \<and>
     length (bc_locked s') = length (bc_locked s) \<and> bc_head s' = bc_head s \<and>
     (\<forall>i < NBUF. m_dev (bc_meta s' ! i) = m_dev (bc_meta s ! i) \<and> m_block_no (bc_meta s' ! i) = m_block_no (bc_meta s ! i) \<and>
        m_next (bc_meta s' ! i) = m_next (bc_meta s ! i) \<and> m_prev (bc_meta s' ! i) = m_prev (bc_meta s ! i))"

lemma same_keys_caches: "same_keys s s' \<Longrightarrow> caches dev s' i b \<longleftrightarrow> caches dev s i b"
  by (auto simp: same_keys_def caches_def)

lemma lru_ok_cong:
  assumes "lru_ok ms" "\<And>i. i < NBUF \<Longrightarrow> m_next (ms' ! i) = m_next (ms ! i) \<and> m_prev (ms' ! i) = m_prev (ms ! i)"
  shows "lru_ok ms'"
proof -
  from assms(1) obtain xs where
    l: "linked (\<lambda>i. m_next (ms ! i)) (\<lambda>i. m_prev (ms ! i)) (0 # xs @ [0])" "distinct (0 # xs)" "set (0 # xs) = {..<NBUF}"
    by (auto simp: lru_ok_def)
  have "set (butlast (0 # xs @ [0])) \<subseteq> {..<NBUF}" "set (tl (0 # xs @ [0])) \<subseteq> {..<NBUF}"
    using l(3) by (auto simp: butlast_append)
  then have "linked (\<lambda>i. m_next (ms' ! i)) (\<lambda>i. m_prev (ms' ! i)) (0 # xs @ [0])"
    using linked_cong [OF l(1), of "\<lambda>i. m_next (ms' ! i)" "\<lambda>i. m_prev (ms' ! i)"] assms(2) by blast
  with l(2,3) show ?thesis by (auto simp: lru_ok_def)
qed

lemma cache_inv_step:
  assumes inv: "cache_inv dev s" and keys: "same_keys s s'" and
    bufs: "\<And>i. i < NBUF \<Longrightarrow> buf_ok dev s' i" and disk: "\<And>b. length (bc_disk s' b) = BSIZE"
  shows "cache_inv dev s'"
proof -
  have k: "m_dev (bc_meta s' ! i) = m_dev (bc_meta s ! i)" "m_block_no (bc_meta s' ! i) = m_block_no (bc_meta s ! i)"
    "m_next (bc_meta s' ! i) = m_next (bc_meta s ! i)" "m_prev (bc_meta s' ! i) = m_prev (bc_meta s ! i)" if "i < NBUF" for i
    using keys that by (simp_all add: same_keys_def)
  have "lru_ok (bc_meta s')" using lru_ok_cong [OF cache_invD(5) [OF inv]] k by blast
  with inv keys bufs disk k show ?thesis by (simp add: cache_inv_def same_keys_def)
qed

lemma buf_handle_caches: "buf_handle dev s i b \<Longrightarrow> caches dev s i b" "buf_handle dev s i b \<Longrightarrow> i < NBUF"
  by (simp_all add: buf_handle_def caches_def)

text \<open>An operation on one locked buffer.\<close>

lemma buf_step:
  assumes inv: "cache_inv dev s" and c: "caches dev s i b" and keys: "same_keys s s'"
    and own: "buf_ok dev s' i"
    and rest: "\<And>j. j < NBUF \<Longrightarrow> j \<noteq> i \<Longrightarrow> m_ref_count (bc_meta s' ! j) = m_ref_count (bc_meta s ! j) \<and>
        m_valid (bc_meta s' ! j) = m_valid (bc_meta s ! j) \<and> bc_data s' ! j = bc_data s ! j \<and> bc_locked s' ! j = bc_locked s ! j"
    and disk: "\<And>x. x \<noteq> b \<Longrightarrow> bc_disk s' x = bc_disk s x" "length (bc_disk s' b) = BSIZE"
    and st: "st_disk st = bc_disk s'" "st_writes st = bc_writes s'"
      "\<And>x. x \<noteq> b \<Longrightarrow> st_view st x = st_view (cache_abs dev s) x \<and> st_refs st x = st_refs (cache_abs dev s) x \<and>
        (x \<in> st_held st \<longleftrightarrow> x \<in> st_held (cache_abs dev s))"
      "st_view st b = bc_data s' ! i" "st_refs st b = unat (m_ref_count (bc_meta s' ! i))" "b \<in> st_held st \<longleftrightarrow> bc_locked s' ! i"
  shows "cache_inv dev s' \<and> cache_abs dev s' = st \<and> (\<forall>j x. buf_handle dev s j x \<longrightarrow> x \<noteq> b \<or> bc_locked s' ! i \<longrightarrow> buf_handle dev s' j x)"
proof (intro conjI allI impI)
  have ib: "i < NBUF" "m_dev (bc_meta s ! i) = dev" "m_block_no (bc_meta s ! i) = b" using c by (simp_all add: caches_def)
  have other: "m_block_no (bc_meta s ! j) \<noteq> b" if "j < NBUF" "j \<noteq> i" "m_dev (bc_meta s ! j) = dev" for j
    using caches_inj [OF inv c, of j] that by (auto simp: caches_def)
  have k: "m_dev (bc_meta s' ! j) = m_dev (bc_meta s ! j)" "m_block_no (bc_meta s' ! j) = m_block_no (bc_meta s ! j)" if "j < NBUF" for j
    using keys that by (simp_all add: same_keys_def)
  show I: "cache_inv dev s'"
  proof (rule cache_inv_step [OF inv keys])
    fix j assume j: "j < NBUF"
    show "buf_ok dev s' j"
    proof (cases "j = i")
      case False
      from cache_invD(6) [OF inv j] other [OF j False] rest [OF j False] k [OF j] disk(1) show ?thesis
        by (auto simp: buf_ok_def Let_def)
    qed (use own in simp)
  next
    fix x show "length (bc_disk s' x) = BSIZE" using disk cache_invD(7) [OF inv] by (cases "x = b") simp_all
  qed
  have C: "caches dev s' j x \<longleftrightarrow> caches dev s j x" for j x by (rule same_keys_caches [OF keys])
  show "cache_abs dev s' = st"
  proof (rule cache_abs_eqI [OF I st(1,2)])
    fix j x assume "caches dev s' j x"
    then have jx: "caches dev s j x" by (simp add: C)
    show "st_view st x = bc_data s' ! j \<and> st_refs st x = unat (m_ref_count (bc_meta s' ! j)) \<and> (x \<in> st_held st \<longleftrightarrow> bc_locked s' ! j)"
    proof (cases "j = i")
      case True
      with jx ib have "x = b" by (simp add: caches_def)
      with True st(4-6) show ?thesis by simp
    next
      case False
      with jx other [of j] have "x \<noteq> b" by (auto simp: caches_def)
      with st(3) [of x] cache_abs_at [OF inv jx] rest [of j] False jx show ?thesis by (simp add: caches_def)
    qed
  next
    fix x assume "\<forall>j. \<not> caches dev s' j x"
    then have n: "\<forall>j. \<not> caches dev s j x" by (simp add: C)
    with c have "x \<noteq> b" by blast
    with st(3) [of x] disk(1) [of x] cache_abs_uncached [OF inv n] show "st_view st x = bc_disk s' x \<and> st_refs st x = 0 \<and> x \<notin> st_held st" by simp
  qed
  fix j x assume jx: "buf_handle dev s j x" "x \<noteq> b \<or> bc_locked s' ! i"
  have "caches dev s' j x" using jx(1) by (simp add: buf_handle_def C)
  moreover have "bc_locked s' ! j" using jx rest [of j] c by (cases "j = i") (auto simp: buf_handle_def caches_def)
  ultimately show "buf_handle dev s' j x" by (simp add: buf_handle_def)
qed

lemma put_buf_ok:
  assumes "cache_inv dev s" "buf_handle dev s i b" "length d = BSIZE"
  shows "cache_inv dev (set_buf_data i d s) \<and> cache_abs dev (set_buf_data i d s) = store_set b d (cache_abs dev s) \<and>
    (\<forall>j c. buf_handle dev s j c \<longrightarrow> buf_handle dev (set_buf_data i d s) j c)"
proof -
  note h = buf_handle_caches [OF assms(2)]
  have l: "i < length (bc_data s)" "bc_locked s ! i" using assms h by (simp_all add: cache_invD buf_handle_def)
  note b = cache_invD(6) [OF assms(1) h(2)] and A = cache_abs_at [OF assms(1) h(1)] and D = cache_invD(7) [OF assms(1)]
  have own: "buf_ok dev (set_buf_data i d s) i" using b l h(1) assms(3) by (auto simp: buf_ok_def set_buf_data_def Let_def caches_def)
  have keys: "same_keys s (set_buf_data i d s)" by (simp add: same_keys_def set_buf_data_def)
  have "cache_inv dev (set_buf_data i d s) \<and> cache_abs dev (set_buf_data i d s) = store_set b d (cache_abs dev s) \<and>
    (\<forall>j x. buf_handle dev s j x \<longrightarrow> x \<noteq> b \<or> bc_locked (set_buf_data i d s) ! i \<longrightarrow> buf_handle dev (set_buf_data i d s) j x)"
    by (rule buf_step [OF assms(1) h(1) keys own]) (use l A D in \<open>simp_all add: set_buf_data_def store_set_def\<close>)
  moreover have "bc_locked (set_buf_data i d s) ! i" using l(2) by (simp add: set_buf_data_def)
  ultimately show ?thesis by blast
qed

lemma write_buf_ok:
  assumes "cache_inv dev s" "buf_handle dev s i b"
  shows "cache_inv dev (bwrite i s) \<and> cache_abs dev (bwrite i s) = store_write b (cache_abs dev s) \<and>
    (\<forall>j c. buf_handle dev s j c \<longrightarrow> buf_handle dev (bwrite i s) j c)"
proof -
  note h = buf_handle_caches [OF assms(2)]
  have l: "bc_locked s ! i" "m_block_no (bc_meta s ! i) = b" using assms h by (simp_all add: buf_handle_def caches_def)
  note b = cache_invD(6) [OF assms(1) h(2)] and A = cache_abs_at [OF assms(1) h(1)] and D = cache_invD(7) [OF assms(1)]
  have L: "length (bc_data s ! i) = BSIZE" using b by (simp add: buf_ok_def Let_def)
  have eq: "bwrite i s = s\<lparr>bc_disk := (bc_disk s)(b := bc_data s ! i), bc_writes := bc_writes s @ [(b, bc_data s ! i)]\<rparr>"
    using l by (simp add: bwrite_def rw_def)
  have own: "buf_ok dev (bwrite i s) i" using b l h(1) by (auto simp: buf_ok_def eq Let_def caches_def)
  have keys: "same_keys s (bwrite i s)" by (simp add: same_keys_def eq)
  have "cache_inv dev (bwrite i s) \<and> cache_abs dev (bwrite i s) = store_write b (cache_abs dev s) \<and>
    (\<forall>j x. buf_handle dev s j x \<longrightarrow> x \<noteq> b \<or> bc_locked (bwrite i s) ! i \<longrightarrow> buf_handle dev (bwrite i s) j x)"
    by (rule buf_step [OF assms(1) h(1) keys own]) (use l A D L in \<open>simp_all add: eq store_write_def\<close>)
  moreover have "bc_locked (bwrite i s) ! i" using l(1) by (simp add: eq)
  ultimately show ?thesis by blast
qed

lemma ref_buf_ok:
  assumes "cache_inv dev s" "buf_handle dev s i b" "s' = upd_meta i (\<lambda>m. m\<lparr>m_ref_count := r\<rparr>) s" "r \<noteq> 0"
  shows "cache_inv dev s' \<and> cache_abs dev s' = (cache_abs dev s)\<lparr>st_refs := (st_refs (cache_abs dev s))(b := unat r)\<rparr> \<and>
    (\<forall>j c. buf_handle dev s j c \<longrightarrow> buf_handle dev s' j c)"
proof -
  note h = buf_handle_caches [OF assms(2)]
  have l: "i < length (bc_meta s)" "bc_locked s ! i" using assms h by (simp_all add: cache_invD buf_handle_def)
  note b = cache_invD(6) [OF assms(1) h(2)] and A = cache_abs_at [OF assms(1) h(1)] and D = cache_invD(7) [OF assms(1)]
  have keys: "same_keys s s'" using l by (auto simp: same_keys_def assms(3) upd_meta_def nth_list_update)
  have own: "buf_ok dev s' i" using b l h(1) assms(4) by (auto simp: buf_ok_def assms(3) upd_meta_def Let_def caches_def)
  have "cache_inv dev s' \<and> cache_abs dev s' = (cache_abs dev s)\<lparr>st_refs := (st_refs (cache_abs dev s))(b := unat r)\<rparr> \<and>
    (\<forall>j x. buf_handle dev s j x \<longrightarrow> x \<noteq> b \<or> bc_locked s' ! i \<longrightarrow> buf_handle dev s' j x)"
    by (rule buf_step [OF assms(1) h(1) keys own]) (use l A D in \<open>simp_all add: assms(3) upd_meta_def\<close>)
  moreover have "bc_locked s' ! i" using l(2) by (simp add: assms(3) upd_meta_def)
  ultimately show ?thesis by blast
qed

lemma pin_buf_ok:
  assumes "cache_inv dev s" "buf_handle dev s i b" "can_ref b (cache_abs dev s)"
  shows "cache_inv dev (bpin i s) \<and> cache_abs dev (bpin i s) = store_pin b (cache_abs dev s) \<and>
    (\<forall>j c. buf_handle dev s j c \<longrightarrow> buf_handle dev (bpin i s) j c)"
proof -
  let ?r = "m_ref_count (bc_meta s ! i)"
  have R: "st_refs (cache_abs dev s) b = unat ?r" by (rule cache_abs_at [OF assms(1) buf_handle_caches(1) [OF assms(2)]])
  have "unat ?r < 2 ^ 32 - 1" using assms(3) R by (simp add: can_ref_def)
  then have u: "unat (?r + 1) = unat ?r + 1" by (simp add: unat_word_ariths)
  then have "?r + 1 \<noteq> 0" by (metis add_eq_0_iff_both_eq_0 unat_0 zero_neq_one)
  from ref_buf_ok [OF assms(1,2) refl this] u R show ?thesis by (simp add: bpin_def upd_meta_def store_pin_def)
qed

lemma unpin_buf_ok:
  assumes "cache_inv dev s" "buf_handle dev s i b" "1 < st_refs (cache_abs dev s) b"
  shows "cache_inv dev (bunpin i s) \<and> cache_abs dev (bunpin i s) = store_unpin b (cache_abs dev s) \<and>
    (\<forall>j c. buf_handle dev s j c \<longrightarrow> buf_handle dev (bunpin i s) j c)"
proof -
  let ?r = "m_ref_count (bc_meta s ! i)"
  have R: "st_refs (cache_abs dev s) b = unat ?r" by (rule cache_abs_at [OF assms(1) buf_handle_caches(1) [OF assms(2)]])
  have g: "1 < unat ?r" using assms(3) R by simp
  then have "?r \<noteq> 0" by auto
  then have u: "unat (?r - 1) = unat ?r - 1" by (rule unat_minus_one)
  then have "?r - 1 \<noteq> 0" using g by auto
  from ref_buf_ok [OF assms(1,2) refl this] u R show ?thesis by (simp add: bunpin_def upd_meta_def store_unpin_def)
qed

section \<open>Release\<close>

lemma bc_meta_upd:
  "i < length (bc_meta s) \<Longrightarrow> bc_meta (upd_meta i f s) ! k = (if k = i then f (bc_meta s ! i) else bc_meta s ! k)"
  "length (bc_meta (upd_meta i f s)) = length (bc_meta s)"
  by (simp_all add: upd_meta_def)

lemma upd_meta_fields [simp]:
  "bc_data (upd_meta i f s) = bc_data s" "bc_locked (upd_meta i f s) = bc_locked s" "bc_disk (upd_meta i f s) = bc_disk s"
  "bc_writes (upd_meta i f s) = bc_writes s" "bc_head (upd_meta i f s) = bc_head s"
  by (simp_all add: upd_meta_def)

lemma move_to_front_meta:
  fixes s :: BCache and i :: nat
  defines "nx \<equiv> \<lambda>k. m_next (bc_meta s ! k)" and "pv \<equiv> \<lambda>k. m_prev (bc_meta s ! k)"
  defines "nx1 \<equiv> nx(pv i := nx i)" and "pv1 \<equiv> pv(nx i := pv i)"
  assumes b: "i < length (bc_meta s)" "nx i < length (bc_meta s)" "pv i < length (bc_meta s)" "0 < length (bc_meta s)"
      "nx1 0 < length (bc_meta s)" and h: "bc_head s = 0" and ne: "nx i \<noteq> i" "pv i \<noteq> i" "i \<noteq> 0"
  shows "m_next (bc_meta (move_to_front i s) ! k) = (nx1(i := nx1 0, 0 := i)) k"
    and "m_prev (bc_meta (move_to_front i s) ! k) = (pv1(i := 0, nx1 0 := i)) k"
    and "m_dev (bc_meta (move_to_front i s) ! k) = m_dev (bc_meta s ! k)" "m_block_no (bc_meta (move_to_front i s) ! k) = m_block_no (bc_meta s ! k)"
    and "m_valid (bc_meta (move_to_front i s) ! k) = m_valid (bc_meta s ! k)" "m_ref_count (bc_meta (move_to_front i s) ! k) = m_ref_count (bc_meta s ! k)"
    and "length (bc_meta (move_to_front i s)) = length (bc_meta s)" "bc_data (move_to_front i s) = bc_data s"
    and "bc_locked (move_to_front i s) = bc_locked s" "bc_disk (move_to_front i s) = bc_disk s" "bc_writes (move_to_front i s) = bc_writes s"
    and "bc_head (move_to_front i s) = bc_head s"
proof -
  note d = nx1_def pv1_def nx_def pv_def
  define s1 where "s1 = upd_meta (nx i) (\<lambda>m. m\<lparr>m_prev := pv i\<rparr>) s"
  define s2 where "s2 = upd_meta (pv i) (\<lambda>m. m\<lparr>m_next := nx i\<rparr>) s1"
  have l: "length (bc_meta s1) = length (bc_meta s)" "length (bc_meta s2) = length (bc_meta s)" by (simp_all add: s1_def s2_def bc_meta_upd)
  have m1: "bc_meta s1 ! k = (if k = nx i then (bc_meta s ! k)\<lparr>m_prev := pv i\<rparr> else bc_meta s ! k)" for k
    using b by (simp add: s1_def bc_meta_upd)
  have m2: "bc_meta s2 ! k = (if k = pv i then (bc_meta s1 ! k)\<lparr>m_next := nx i\<rparr> else bc_meta s1 ! k)" for k
    using b l by (simp add: s2_def bc_meta_upd)
  have f: "m_next (bc_meta s2 ! 0) = nx1 0" using m1 m2 by (simp add: d)
  have "m_next (bc_meta s1 ! i) = nx i" using m1 ne by (simp add: d)
  then have eq: "move_to_front i s = upd_meta 0 (\<lambda>m. m\<lparr>m_next := i\<rparr>) (upd_meta (nx1 0) (\<lambda>m. m\<lparr>m_prev := i\<rparr>)
      (upd_meta i (\<lambda>m. m\<lparr>m_prev := 0\<rparr>) (upd_meta i (\<lambda>m. m\<lparr>m_next := nx1 0\<rparr>) s2)))"
    using h f by (simp add: move_to_front_def Let_def s1_def s2_def d)
  have links: "m_next (bc_meta s2 ! k) = nx1 k" "m_prev (bc_meta s2 ! k) = pv1 k" "m_dev (bc_meta s2 ! k) = m_dev (bc_meta s ! k)"
    "m_block_no (bc_meta s2 ! k) = m_block_no (bc_meta s ! k)" "m_valid (bc_meta s2 ! k) = m_valid (bc_meta s ! k)"
    "m_ref_count (bc_meta s2 ! k) = m_ref_count (bc_meta s ! k)" for k
    by (simp_all add: m2 m1 d)
  have L: "i < length (bc_meta s2)" "0 < length (bc_meta s2)" "nx1 0 < length (bc_meta s2)" unfolding l using b by simp_all
  show "m_next (bc_meta (move_to_front i s) ! k) = (nx1(i := nx1 0, 0 := i)) k"
    unfolding eq using L ne by (simp add: bc_meta_upd links)
  show "m_prev (bc_meta (move_to_front i s) ! k) = (pv1(i := 0, nx1 0 := i)) k"
    unfolding eq using L ne by (simp add: bc_meta_upd links)
  show "m_dev (bc_meta (move_to_front i s) ! k) = m_dev (bc_meta s ! k)" "m_block_no (bc_meta (move_to_front i s) ! k) = m_block_no (bc_meta s ! k)"
    "m_valid (bc_meta (move_to_front i s) ! k) = m_valid (bc_meta s ! k)" "m_ref_count (bc_meta (move_to_front i s) ! k) = m_ref_count (bc_meta s ! k)"
    unfolding eq using L ne by (simp_all add: bc_meta_upd links)
  show "length (bc_meta (move_to_front i s)) = length (bc_meta s)" "bc_data (move_to_front i s) = bc_data s"
    "bc_locked (move_to_front i s) = bc_locked s" "bc_disk (move_to_front i s) = bc_disk s" "bc_writes (move_to_front i s) = bc_writes s"
    "bc_head (move_to_front i s) = bc_head s"
    unfolding eq by (simp_all add: bc_meta_upd l s2_def s1_def)
qed

lemma move_to_front_ok:
  assumes inv: "cache_inv dev s" and i: "0 < i" "i < NBUF"
  shows "cache_inv dev (move_to_front i s) \<and> cache_abs dev (move_to_front i s) = cache_abs dev s \<and>
    (\<forall>j c. buf_handle dev s j c \<longrightarrow> buf_handle dev (move_to_front i s) j c)"
proof -
  let ?nx = "\<lambda>k. m_next (bc_meta s ! k)" and ?pv = "\<lambda>k. m_prev (bc_meta s ! k)" and ?s = "move_to_front i s"
  from cache_invD(5) [OF inv] obtain xs where
    x: "linked ?nx ?pv (0 # xs @ [0])" "distinct (0 # xs)" "set (0 # xs) = {..<NBUF}" unfolding lru_ok_def by blast
  have "i \<in> set (0 # xs)" unfolding x(3) using i(2) by simp
  then have "i \<in> set xs" using i(1) by simp
  then obtain as bs where s: "xs = as @ i # bs" by (meson split_list)
  have L: "linked ?nx ?pv (0 # as @ i # bs @ [0])" and D: "distinct (0 # as @ i # bs)" using x s by simp_all
  note U = linked_unlink [OF L D]
  define nx1 where "nx1 = ?nx(?pv i := ?nx i)"
  define pv1 where "pv1 = ?pv(?nx i := ?pv i)"
  have L1: "linked nx1 pv1 (0 # (as @ bs) @ [0])" using U(1) by (simp add: nx1_def pv1_def)
  have D1: "distinct (0 # as @ bs)" "i \<notin> set (0 # as @ bs)" using D by auto
  note N = linked_insert [OF L1 D1]
  have range: "set (0 # as @ i # bs) = {..<NBUF}" using x(3) s by simp
  then have sub: "set as \<subseteq> {..<NBUF}" "set bs \<subseteq> {..<NBUF}" by (metis Un_subset_iff list.set(2) order_refl set_append insert_subset)+
  have pvi: "?pv i \<in> set (0 # as)" unfolding U(2) by (rule last_in_set) simp
  have nxi: "?nx i \<in> set (bs @ [0])" unfolding U(3) by (rule hd_in_set) simp
  have n0: "nx1 0 \<in> set ((as @ bs) @ [0])" unfolding N(2) by (rule hd_in_set) simp
  have b: "?nx i < NBUF" "?pv i < NBUF" "nx1 0 < NBUF" using pvi nxi n0 sub i(2) by auto
  have ne: "?nx i \<noteq> i" "?pv i \<noteq> i" using pvi nxi D i(1) by auto
  have n: "0 < NBUF" and nz: "i \<noteq> 0" using i by simp_all
  note len = cache_invD(1) [OF inv]
  note M = move_to_front_meta [of i s, folded nx1_def pv1_def, unfolded len, OF i(2) b(1,2) n b(3) cache_invD(4) [OF inv] ne nz]
  have "linked (\<lambda>k. m_next (bc_meta ?s ! k)) (\<lambda>k. m_prev (bc_meta ?s ! k)) (0 # (i # as @ bs) @ [0])"
    using N(1) unfolding M(1,2) append_Cons .
  moreover have "distinct (0 # i # as @ bs)" "set (0 # i # as @ bs) = {..<NBUF}" using D range by auto
  ultimately have lru: "lru_ok (bc_meta ?s)" unfolding lru_ok_def by blast
  have ok: "buf_ok dev ?s j \<longleftrightarrow> buf_ok dev s j" for j by (simp add: buf_ok_def M Let_def)
  have I: "cache_inv dev ?s" using inv lru ok by (simp add: cache_inv_def M)
  have C: "caches dev ?s j c \<longleftrightarrow> caches dev s j c" for j c by (simp add: caches_def M)
  have "cache_abs dev ?s = cache_abs dev s"
    by (rule cache_abs_eqI [OF I]) (simp_all add: M C cache_abs_at [OF inv] cache_abs_uncached [OF inv])
  with I C show ?thesis by (simp add: buf_handle_def M)
qed

lemma release_buf_ok:
  assumes "cache_inv dev s" "buf_handle dev s i b" "can_release b (cache_abs dev s)"
  shows "cache_inv dev (brelease i s) \<and> cache_abs dev (brelease i s) = store_release b (cache_abs dev s) \<and>
    (\<forall>j c. buf_handle dev s j c \<longrightarrow> c \<noteq> b \<longrightarrow> buf_handle dev (brelease i s) j c)"
proof -
  note h = buf_handle_caches [OF assms(2)]
  let ?r = "m_ref_count (bc_meta s ! i)"
  have l: "i < length (bc_meta s)" "i < length (bc_locked s)" "bc_locked s ! i" using assms h by (simp_all add: cache_invD buf_handle_def)
  note b = cache_invD(6) [OF assms(1) h(2)] and A = cache_abs_at [OF assms(1) h(1)] and D = cache_invD(7) [OF assms(1)]
  have r0: "?r \<noteq> 0" "0 < i" "m_block_no (bc_meta s ! i) = b" using b l h(1) by (auto simp: buf_ok_def Let_def caches_def)
  define s1 where "s1 = upd_meta i (\<lambda>m. m\<lparr>m_ref_count := m_ref_count m - 1\<rparr>) (s\<lparr>bc_locked := (bc_locked s)[i := False]\<rparr>)"
  have m1: "bc_meta s1 ! k = (if k = i then (bc_meta s ! i)\<lparr>m_ref_count := ?r - 1\<rparr> else bc_meta s ! k)" for k
    using l by (simp add: s1_def bc_meta_upd)
  have f1: "bc_data s1 = bc_data s" "bc_disk s1 = bc_disk s" "bc_writes s1 = bc_writes s" "bc_locked s1 = (bc_locked s)[i := False]"
    "bc_head s1 = bc_head s" "length (bc_meta s1) = length (bc_meta s)" by (simp_all add: s1_def bc_meta_upd)
  have clean: "bc_data s ! i = bc_disk s b" if "?r - 1 = 0"
  proof -
    have "?r = 1" using that by simp
    then have "unat ?r = 1" by simp
    with assms(3) A show ?thesis by (simp add: can_release_def)
  qed
  have keys: "same_keys s s1" by (simp add: same_keys_def f1 m1)
  have own: "buf_ok dev s1 i" using b l h(1) clean r0 by (auto simp: buf_ok_def f1 m1 Let_def caches_def)
  have S: "cache_inv dev s1 \<and> cache_abs dev s1 = store_release b (cache_abs dev s) \<and>
    (\<forall>j x. buf_handle dev s j x \<longrightarrow> x \<noteq> b \<or> bc_locked s1 ! i \<longrightarrow> buf_handle dev s1 j x)"
    by (rule buf_step [OF assms(1) h(1) keys own])
      (use l A D unat_minus_one [OF r0(1)] in \<open>simp_all add: f1 m1 store_release_def\<close>)
  have eq: "brelease i s = (if m_ref_count (bc_meta s1 ! i) = 0 then move_to_front i s1 else s1)"
    by (simp add: brelease_def s1_def Let_def)
  show ?thesis
  proof (cases "m_ref_count (bc_meta s1 ! i) = 0")
    case True
    from move_to_front_ok [of dev s1 i] S r0(2) h(2) True eq show ?thesis by auto
  next
    case False
    with S eq show ?thesis by auto
  qed
qed

section \<open>Read\<close>

lemma bread_cached:
  assumes inv: "cache_inv dev s" and c: "caches dev s i b" and free: "b \<notin> st_held (cache_abs dev s)" "can_ref b (cache_abs dev s)"
  shows "\<exists>s'. bread dev b s = Some (i, s') \<and> cache_inv dev s' \<and> cache_abs dev s' = store_read b (cache_abs dev s) \<and>
    buf_handle dev s' i b \<and> (\<forall>j x. buf_handle dev s j x \<longrightarrow> buf_handle dev s' j x)"
proof -
  let ?r = "m_ref_count (bc_meta s ! i)"
  have i: "i < NBUF" "m_dev (bc_meta s ! i) = dev" using c by (simp_all add: caches_def)
  note b = cache_invD(6) [OF inv i(1)] and A = cache_abs_at [OF inv c] and D = cache_invD(7) [OF inv]
  have l: "i < length (bc_meta s)" "i < length (bc_locked s)" "\<not> bc_locked s ! i"
    using i free(1) A(3) by (simp_all add: cache_invD(1,3) [OF inv])
  have "unat ?r < 2 ^ 32 - 1" using free(2) A(2) by (simp add: can_ref_def)
  then have u: "unat (?r + 1) = unat ?r + 1" by (simp add: unat_word_ariths)
  then have nz: "?r + 1 \<noteq> 0" by (metis add_eq_0_iff_both_eq_0 unat_0 zero_neq_one)
  have v: "m_valid (bc_meta s ! i)" using b i by (simp add: buf_ok_def Let_def)
  define s' where "s' = (upd_meta i (\<lambda>m. m\<lparr>m_ref_count := m_ref_count m + 1\<rparr>) s)\<lparr>bc_locked := (bc_locked s)[i := True]\<rparr>"
  have m: "bc_meta s' ! k = (if k = i then (bc_meta s ! i)\<lparr>m_ref_count := ?r + 1\<rparr> else bc_meta s ! k)" for k
    using bc_meta_upd(1) [OF l(1)] by (simp add: s'_def)
  have f: "bc_data s' = bc_data s" "bc_disk s' = bc_disk s" "bc_writes s' = bc_writes s" "bc_locked s' = (bc_locked s)[i := True]"
    "bc_head s' = bc_head s" "length (bc_meta s') = length (bc_meta s)" by (simp_all add: s'_def bc_meta_upd)
  have run: "bread dev b s = Some (i, s')"
    using lookup_caches [OF inv, of b i] c l v m [of i]
    by (simp add: bread_def bget_def lookup_def buf_lock_def s'_def)
  have keys: "same_keys s s'" by (simp add: same_keys_def f m)
  have own: "buf_ok dev s' i" using b i l nz by (simp add: buf_ok_def f m Let_def)
  have "cache_inv dev s' \<and> cache_abs dev s' = store_read b (cache_abs dev s) \<and>
    (\<forall>j x. buf_handle dev s j x \<longrightarrow> x \<noteq> b \<or> bc_locked s' ! i \<longrightarrow> buf_handle dev s' j x)"
    by (rule buf_step [OF inv c keys own]) (use l A D u in \<open>simp_all add: f m store_read_def\<close>)
  moreover have "bc_locked s' ! i" using l by (simp add: f)
  moreover have "caches dev s' i b" using c same_keys_caches [OF keys] by simp
  ultimately show ?thesis using run by (auto simp: buf_handle_def)
qed

lemma free_buffer:
  assumes inv: "cache_inv dev s" and cap: "card (in_use (cache_abs dev s)) < NBUF - 1"
  shows "\<exists>i. lru_scan (bc_meta s) (bc_head s) (m_prev (bc_meta s ! bc_head s)) = Some i \<and> 0 < i \<and> i < NBUF \<and> m_ref_count (bc_meta s ! i) = 0"
proof -
  let ?P = "\<lambda>i. m_ref_count (bc_meta s ! i) = 0"
  from cache_invD(5) [OF inv] obtain xs where
    x: "linked (\<lambda>k. m_next (bc_meta s ! k)) (\<lambda>k. m_prev (bc_meta s ! k)) (0 # xs @ [0])" "distinct (0 # xs)" "set (0 # xs) = {..<NBUF}"
    unfolding lru_ok_def by blast
  have scan: "lru_scan (bc_meta s) (bc_head s) (m_prev (bc_meta s ! bc_head s)) = find ?P (rev xs)"
    using lru_scan_linked [OF x(1)] x(2) by (simp add: cache_invD(4) [OF inv])
  have xs: "set xs = {0<..<NBUF}"
  proof -
    have "0 \<notin> set xs" using x(2) by simp
    then have "set xs = {..<NBUF} - {0}" unfolding x(3) [symmetric] by simp
    also have "\<dots> = {0<..<NBUF}" by (intro set_eqI) (simp only: lessThan_iff greaterThanLessThan_iff Diff_iff singleton_iff, simp add: conj_commute)
    finally show ?thesis .
  qed
  have "find ?P (rev xs) \<noteq> None"
  proof
    assume "find ?P (rev xs) = None"
    then have all: "m_ref_count (bc_meta s ! i) \<noteq> 0" if "0 < i" "i < NBUF" for i
      using that xs by (simp only: find_None_iff set_rev) (metis greaterThanLessThan_iff)
    have dev: "m_dev (bc_meta s ! i) = dev" if "0 < i" "i < NBUF" for i
      using cache_invD(6) [OF inv that(2)] all [OF that] by (auto simp: buf_ok_def Let_def split: if_splits)
    let ?f = "\<lambda>i. m_block_no (bc_meta s ! i)"
    have inj: "inj_on ?f {0<..<NBUF}"
    proof (rule inj_onI)
      fix i j assume "i \<in> {0<..<NBUF}" "j \<in> {0<..<NBUF}" "?f i = ?f j"
      then have "caches dev s i (?f i)" "caches dev s j (?f i)" using dev by (simp_all add: caches_def)
      then show "i = j" by (rule caches_inj [OF inv])
    qed
    have "?f ` {0<..<NBUF} \<subseteq> in_use (cache_abs dev s)"
    proof (rule image_subsetI)
      fix i assume i: "i \<in> {0<..<NBUF}"
      then have c: "caches dev s i (?f i)" using dev by (simp add: caches_def)
      show "?f i \<in> in_use (cache_abs dev s)" using cache_abs_at(2) [OF inv c] all [of i] i by (simp add: in_use_def unat_gt_0)
    qed
    moreover have "finite (in_use (cache_abs dev s))"
    proof (rule finite_subset)
      show "in_use (cache_abs dev s) \<subseteq> ?f ` {..<NBUF}"
      proof
        fix b assume "b \<in> in_use (cache_abs dev s)"
        then obtain i where "caches dev s i b" using cache_abs_uncached(2) [OF inv, of b] by (auto simp: in_use_def)
        then show "b \<in> ?f ` {..<NBUF}" by (auto simp: caches_def)
      qed
    qed simp
    ultimately have "card (?f ` {0<..<NBUF}) \<le> card (in_use (cache_abs dev s))" by (intro card_mono) simp_all
    then show False using cap card_image [OF inj] by simp
  qed
  then obtain i where i: "find ?P (rev xs) = Some i" by blast
  then have "i \<in> set (rev xs)" "?P i" unfolding find_Some_iff by (metis nth_mem, blast)
  then have "i \<in> set xs" "?P i" by simp_all
  with i scan xs show ?thesis by (auto simp only: greaterThanLessThan_iff)
qed

lemma bread_recycled:
  assumes inv: "cache_inv dev s" and n: "\<forall>i. \<not> caches dev s i b" and cap: "card (in_use (cache_abs dev s)) < NBUF - 1"
  shows "\<exists>i s'. bread dev b s = Some (i, s') \<and> cache_inv dev s' \<and> cache_abs dev s' = store_read b (cache_abs dev s) \<and>
    buf_handle dev s' i b \<and> (\<forall>j x. buf_handle dev s j x \<longrightarrow> buf_handle dev s' j x)"
proof -
  from free_buffer [OF inv cap] obtain i where
    scan: "lru_scan (bc_meta s) (bc_head s) (m_prev (bc_meta s ! bc_head s)) = Some i" and
    i: "0 < i" "i < NBUF" "m_ref_count (bc_meta s ! i) = 0" by blast
  note b = cache_invD(6) [OF inv i(2)] and D = cache_invD(7) [OF inv] and L = cache_invD(1-3) [OF inv]
  have unl: "\<not> bc_locked s ! i" using b i(3) by (auto simp: buf_ok_def Let_def split: if_splits)
  have clean: "m_dev (bc_meta s ! i) = dev \<longrightarrow> bc_data s ! i = bc_disk s (m_block_no (bc_meta s ! i))"
    using b i(3) by (auto simp: buf_ok_def Let_def)
  define s' where "s' = s\<lparr>bc_locked := (bc_locked s)[i := True], bc_data := (bc_data s)[i := bc_disk s b],
    bc_meta := (bc_meta s)[i := (bc_meta s ! i)\<lparr>m_dev := dev, m_block_no := b, m_ref_count := 1, m_valid := True\<rparr>]\<rparr>"
  have lk: "lookup dev s b = None" using lookup_None [OF inv] n by simp
  have run: "bread dev b s = Some (i, s')"
    using lk scan unl i L
    by (simp add: bread_def bget_def lookup_def buf_lock_def rw_def upd_meta_def s'_def)
  have m: "bc_meta s' ! k = (if k = i then (bc_meta s ! i)\<lparr>m_dev := dev, m_block_no := b, m_ref_count := 1, m_valid := True\<rparr> else bc_meta s ! k)"
    "bc_data s' ! k = (if k = i then bc_disk s b else bc_data s ! k)" "bc_locked s' ! k = (if k = i then True else bc_locked s ! k)" for k
    using L i by (simp_all add: s'_def)
  have f: "bc_disk s' = bc_disk s" "bc_writes s' = bc_writes s" "bc_head s' = bc_head s" "length (bc_meta s') = NBUF"
    "length (bc_data s') = NBUF" "length (bc_locked s') = NBUF" using L by (simp_all add: s'_def)
  have lru: "lru_ok (bc_meta s')" by (rule lru_ok_cong [OF cache_invD(5) [OF inv]]) (simp add: m)
  have C: "caches dev s' j x \<longleftrightarrow> (if j = i then x = b else caches dev s j x)" for j x
    using i by (auto simp: caches_def m)
  have ok: "buf_ok dev s' j" if "j < NBUF" for j
    using cache_invD(6) [OF inv that] D i by (cases "j = i") (simp_all add: buf_ok_def m f Let_def)
  have "j = k" if "caches dev s' j x" "caches dev s' k x" for j k x
    using that n caches_inj [OF inv] by (cases "j = i"; cases "k = i") (auto simp: C)
  then have I: "cache_inv dev s'"
    unfolding cache_inv_def using f lru ok cache_invD(4) [OF inv] D by (auto simp: caches_def)
  have A: "cache_abs dev s' = store_read b (cache_abs dev s)"
  proof (rule cache_abs_eqI [OF I])
    fix j x assume c: "caches dev s' j x"
    show "st_view (store_read b (cache_abs dev s)) x = bc_data s' ! j \<and>
       st_refs (store_read b (cache_abs dev s)) x = unat (m_ref_count (bc_meta s' ! j)) \<and>
       (x \<in> st_held (store_read b (cache_abs dev s)) \<longleftrightarrow> bc_locked s' ! j)"
    proof (cases "j = i")
      case True
      with c have "x = b" by (simp add: C)
      with True cache_abs_uncached [OF inv n] show ?thesis by (simp add: store_read_def m)
    next
      case False
      with c have cx: "caches dev s j x" by (simp add: C)
      with n have "x \<noteq> b" by blast
      with False cache_abs_at [OF inv cx] show ?thesis by (simp add: store_read_def m)
    qed
  next
    fix x assume c: "\<forall>j. \<not> caches dev s' j x"
    then have xb: "x \<noteq> b" by (metis C)
    show "st_view (store_read b (cache_abs dev s)) x = bc_disk s' x \<and> st_refs (store_read b (cache_abs dev s)) x = 0 \<and>
       x \<notin> st_held (store_read b (cache_abs dev s))"
    proof (cases "caches dev s i x")
      case True
      with cache_abs_at [OF inv True] clean unl i(3) xb show ?thesis by (simp add: store_read_def f caches_def)
    next
      case False
      have "\<forall>j. \<not> caches dev s j x"
      proof
        fix j show "\<not> caches dev s j x" using c [THEN spec, of j] False by (cases "j = i") (simp_all add: C)
      qed
      with xb cache_abs_uncached [OF inv] show ?thesis by (simp add: store_read_def f)
    qed
  qed (simp_all add: store_read_def f)
  have "buf_handle dev s' i b" by (simp add: buf_handle_def C m)
  moreover have "buf_handle dev s' j x" if "buf_handle dev s j x" for j x
    using that unl by (cases "j = i") (auto simp: buf_handle_def C m)
  ultimately show ?thesis using run I A by blast
qed

lemma cache_store_inv:
  assumes inv: "cache_inv dev s"
  shows "store_inv (cache_abs dev s)"
proof -
  have "(st_refs (cache_abs dev s) b = 0 \<longrightarrow> st_view (cache_abs dev s) b = bc_disk s b) \<and>
      (b \<in> st_held (cache_abs dev s) \<longrightarrow> 0 < st_refs (cache_abs dev s) b) \<and> length (st_view (cache_abs dev s) b) = BSIZE" for b
  proof (cases "\<exists>i. caches dev s i b")
    case True
    then obtain i where c: "caches dev s i b" by blast
    then have "i < NBUF" by (simp add: caches_def)
    from cache_invD(6) [OF inv this] cache_abs_at [OF inv c] c show ?thesis
      by (auto simp: buf_ok_def Let_def caches_def unat_gt_0 unat_eq_0)
  next
    case False
    with cache_abs_uncached [OF inv, of b] cache_invD(7) [OF inv] show ?thesis by simp
  qed
  moreover have "finite (in_use (cache_abs dev s))"
  proof (rule finite_subset)
    show "in_use (cache_abs dev s) \<subseteq> (\<lambda>i. m_block_no (bc_meta s ! i)) ` {..<NBUF}"
    proof
      fix b assume "b \<in> in_use (cache_abs dev s)"
      then obtain i where "caches dev s i b" using cache_abs_uncached(2) [OF inv, of b] by (auto simp: in_use_def)
      then show "b \<in> (\<lambda>i. m_block_no (bc_meta s ! i)) ` {..<NBUF}" by (auto simp: caches_def)
    qed
  qed simp
  ultimately show ?thesis using cache_invD(7) [OF inv] by (simp add: store_inv_def)
qed

interpretation bc: block_cache "cache_inv dev" "cache_abs dev" "buf_handle dev" "NBUF - 1" "bread dev" buf_data set_buf_data
  bwrite brelease bpin bunpin for dev
proof
  fix s i b assume inv: "cache_inv dev s"
  show "store_inv (cache_abs dev s)" by (rule cache_store_inv [OF inv])
  {
    assume h: "buf_handle dev s i b"
    then have c: "caches dev s i b" by (simp add: buf_handle_def)
    from h cache_abs_at [OF inv c] show "b \<in> st_held (cache_abs dev s)" "buf_data i s = st_view (cache_abs dev s) b"
      by (simp_all add: buf_handle_def buf_data_def)
  }
  assume r: "can_read (NBUF - 1) b (cache_abs dev s)"
  show "\<exists>i s'. bread dev b s = Some (i, s') \<and> cache_inv dev s' \<and> cache_abs dev s' = store_read b (cache_abs dev s) \<and>
      buf_handle dev s' i b \<and> (\<forall>j c. buf_handle dev s j c \<longrightarrow> buf_handle dev s' j c)"
  proof (cases "\<exists>i. caches dev s i b")
    case True
    with bread_cached [OF inv] r show ?thesis unfolding can_read_def by blast
  next
    case False
    with bread_recycled [OF inv, of b] r cache_abs_uncached(2) [OF inv, of b] show ?thesis unfolding can_read_def by simp
  qed
qed (fact put_buf_ok write_buf_ok release_buf_ok pin_buf_ok unpin_buf_ok)+

section \<open>The cache after boot\<close>

lemma linked_upt: "linked Suc (\<lambda>i. i - 1) [a..<b]"
proof (induction "b - a" arbitrary: a)
  case (Suc n)
  then have IH: "linked Suc (\<lambda>i. i - 1) [Suc a..<b]" by simp
  show ?case
  proof (cases "Suc a < b")
    case True
    then have "[a..<b] = a # Suc a # [Suc (Suc a)..<b]" "[Suc a..<b] = Suc a # [Suc (Suc a)..<b]" by (simp_all add: upt_conv_Cons)
    with IH show ?thesis by simp
  next
    case False
    then have "b = Suc a" using Suc.hyps(2) by simp
    then show ?thesis by simp
  qed
qed simp

lemma bcache_init_inv:
  assumes "\<And>b. length (disk b) = BSIZE" "dev \<noteq> 0"
  shows "cache_inv dev (bcache_init (bcache_new disk))"
    and "cache_abs dev (bcache_init (bcache_new disk)) =
      \<lparr>st_view = disk, st_disk = disk, st_refs = \<lambda>_. 0, st_held = {}, st_writes = []\<rparr>"
proof -
  let ?s = "bcache_init (bcache_new disk)"
  have m: "bc_meta ?s ! i = buf_meta_new\<lparr>m_prev := (if i = 0 then 29 else i - 1), m_next := (if i = 29 then 0 else i + 1)\<rparr>" if "i < 30" for i
    using that by (simp add: bcache_init_def bcache_new_def)
  have f: "length (bc_meta ?s) = 30" "bc_data ?s = replicate 30 buf_data_new" "bc_locked ?s = replicate 30 False" "bc_head ?s = 0"
    "bc_disk ?s = disk" "bc_writes ?s = []" by (simp_all add: bcache_init_def bcache_new_def)
  let ?nx = "\<lambda>i. m_next (bc_meta ?s ! i)" and ?pv = "\<lambda>i. m_prev (bc_meta ?s ! i)"
  have u: "[0..<30] = [0..<29] @ [29]" "tl [0..<30] = [1..<30 :: nat]" by (simp_all add: upt_rec)
  then have "butlast [0..<30] = [0..<29]" by simp
  with u(2) have "linked ?nx ?pv [0..<30]" by (intro linked_cong [OF linked_upt]) (auto simp: m)
  moreover note u(1)
  moreover have "linked ?nx ?pv [29, 0]" by (simp add: m)
  ultimately have "linked ?nx ?pv ([0..<29] @ 29 # [0])" using linked_append [of ?nx ?pv "[0..<29]" 29 "[0]"] by simp
  moreover have "[0..<29] @ 29 # [0] = 0 # [1..<30] @ [0 :: nat]" by (simp add: upt_rec)
  ultimately have "linked ?nx ?pv (0 # [1..<30] @ [0])" by (simp only:)
  moreover have "distinct (0 # [1..<30])" "set (0 # [1..<30]) = {..<NBUF}" by auto
  ultimately have lru: "lru_ok (bc_meta ?s)" unfolding lru_ok_def by blast
  show I: "cache_inv dev ?s"
    using lru f assms m by (simp add: cache_inv_def buf_ok_def buf_meta_new_def buf_data_new_def Let_def)
  have "\<not> caches dev ?s i b" for i b using assms(2) m by (auto simp: caches_def buf_meta_new_def)
  then show "cache_abs dev ?s = \<lparr>st_view = disk, st_disk = disk, st_refs = \<lambda>_. 0, st_held = {}, st_writes = []\<rparr>"
    by (intro cache_abs_eqI [OF I]) (simp_all add: f)
qed

section \<open>Refinement of the block store\<close>

text \<open>
  The steps of the callers: each uses a buffer it holds, a write that replaces the contents writes a whole
  block, and a buffer is released clean or while it is pinned.
\<close>

inductive cache_step :: "u32 \<Rightarrow> BCache \<Rightarrow> BCache \<Rightarrow> bool" for dev where
  cs_read: "can_read (NBUF - 1) b (cache_abs dev s) \<Longrightarrow> bread dev b s = Some (i, s') \<Longrightarrow> cache_step dev s s'"
| cs_set: "buf_handle dev s i b \<Longrightarrow> length d = BSIZE \<Longrightarrow> cache_step dev s (set_buf_data i d s)"
| cs_write: "buf_handle dev s i b \<Longrightarrow> cache_step dev s (bwrite i s)"
| cs_release: "buf_handle dev s i b \<Longrightarrow> can_release b (cache_abs dev s) \<Longrightarrow> cache_step dev s (brelease i s)"
| cs_pin: "buf_handle dev s i b \<Longrightarrow> can_ref b (cache_abs dev s) \<Longrightarrow> cache_step dev s (bpin i s)"
| cs_unpin: "buf_handle dev s i b \<Longrightarrow> 1 < st_refs (cache_abs dev s) b \<Longrightarrow> cache_step dev s (bunpin i s)"

inductive store_step :: "Store \<Rightarrow> Store \<Rightarrow> bool" where
  ss_read: "b \<notin> st_held st \<Longrightarrow> store_step st (store_read b st)"
| ss_set: "b \<in> st_held st \<Longrightarrow> length d = BSIZE \<Longrightarrow> store_step st (store_set b d st)"
| ss_write: "b \<in> st_held st \<Longrightarrow> store_step st (store_write b st)"
| ss_release: "b \<in> st_held st \<Longrightarrow> store_step st (store_release b st)"
| ss_pin: "b \<in> st_held st \<Longrightarrow> store_step st (store_pin b st)"
| ss_unpin: "b \<in> st_held st \<Longrightarrow> store_step st (store_unpin b st)"

lemma cache_step_sim:
  assumes "cache_step dev s s'" "cache_inv dev s"
  shows "cache_inv dev s' \<and> store_step (cache_abs dev s) (cache_abs dev s')"
  using assms
proof cases
  case (cs_read b i)
  then show ?thesis using bc.read_ok [OF assms(2) cs_read(1)] store_step.ss_read [of b "cache_abs dev s"] by (auto simp: can_read_def)
next
  case (cs_set i b d)
  then show ?thesis using bc.put_ok [OF assms(2) cs_set(2,3)] bc.handle_held [OF assms(2) cs_set(2)] store_step.ss_set [of b "cache_abs dev s" d] by simp
next
  case (cs_write i b)
  then show ?thesis using bc.write_ok [OF assms(2) cs_write(2)] bc.handle_held [OF assms(2) cs_write(2)] store_step.ss_write [of b "cache_abs dev s"] by simp
next
  case (cs_release i b)
  then show ?thesis using bc.release_ok [OF assms(2) cs_release(2,3)] bc.handle_held [OF assms(2) cs_release(2)] store_step.ss_release [of b "cache_abs dev s"] by simp
next
  case (cs_pin i b)
  then show ?thesis using bc.pin_ok [OF assms(2) cs_pin(2,3)] bc.handle_held [OF assms(2) cs_pin(2)] store_step.ss_pin [of b "cache_abs dev s"] by simp
next
  case (cs_unpin i b)
  then show ?thesis using bc.unpin_ok [OF assms(2) cs_unpin(2,3)] bc.handle_held [OF assms(2) cs_unpin(2)] store_step.ss_unpin [of b "cache_abs dev s"] by simp
qed

lemma cache_steps_sim:
  "(cache_step dev)\<^sup>*\<^sup>* s s' \<Longrightarrow> cache_inv dev s \<Longrightarrow> cache_inv dev s' \<and> store_step\<^sup>*\<^sup>* (cache_abs dev s) (cache_abs dev s')"
  by (induction rule: rtranclp_induct) (auto dest: cache_step_sim intro: rtranclp.rtrancl_into_rtrancl)

text \<open>
  Property C10.  The buffer cache is a coherent view of the disk.  After any sequence of reads, changes,
  writes, releases, pins and unpins by callers that follow the protocol, starting from the initialized
  cache, the cache state is one that the abstract block store reaches by the same kind of steps; a locked
  buffer holds the current contents of its block; and a read of a block that is not locked succeeds and
  returns the current contents as long as one of the 29 usable buffers is free or already caches it, so
  eviction never loses a change.
\<close>

theorem cache_refines_store:
  assumes "\<And>b. length (disk b) = BSIZE" "dev \<noteq> 0" "(cache_step dev)\<^sup>*\<^sup>* (bcache_init (bcache_new disk)) s"
  shows "cache_inv dev s \<and>
    store_step\<^sup>*\<^sup>* \<lparr>st_view = disk, st_disk = disk, st_refs = \<lambda>_. 0, st_held = {}, st_writes = []\<rparr> (cache_abs dev s) \<and>
    (\<forall>i b. buf_handle dev s i b \<longrightarrow> buf_data i s = st_view (cache_abs dev s) b) \<and>
    (\<forall>b. can_read (NBUF - 1) b (cache_abs dev s) \<longrightarrow>
      (\<exists>i s'. bread dev b s = Some (i, s') \<and> buf_handle dev s' i b \<and> buf_data i s' = st_view (cache_abs dev s) b))"
proof -
  note I = bcache_init_inv [of disk, OF assms(1,2)]
  from cache_steps_sim [OF assms(3) I(1)] have s: "cache_inv dev s" "store_step\<^sup>*\<^sup>* (cache_abs dev (bcache_init (bcache_new disk))) (cache_abs dev s)" by simp_all
  have "\<exists>i s'. bread dev b s = Some (i, s') \<and> buf_handle dev s' i b \<and> buf_data i s' = st_view (cache_abs dev s) b"
    if "can_read (NBUF - 1) b (cache_abs dev s)" for b using bc.peek_block [OF s(1) that] by blast
  with s bc.handle_data [OF s(1)] show ?thesis unfolding I(2) by blast
qed

theorem cache_refines_store_witness:
  "\<exists>i s j s'. bread 1 9 (bcache_init (bcache_new (\<lambda>b. replicate BSIZE (ucast b)))) = Some (i, s) \<and> buf_data i s = replicate BSIZE 9 \<and>
    bread 1 8 s = Some (j, s') \<and> buf_data j s' = replicate BSIZE 8"
proof -
  let ?d = "\<lambda>b :: u32. replicate BSIZE (ucast b :: u8)"
  let ?c = "bcache_init (bcache_new ?d)"
  have I: "cache_abs 1 ?c = \<lparr>st_view = ?d, st_disk = ?d, st_refs = \<lambda>_. 0, st_held = {}, st_writes = []\<rparr>" "cache_inv 1 ?c"
    by (rule bcache_init_inv; simp)+
  have r9: "can_read (NBUF - 1) 9 (cache_abs 1 ?c)" by (simp add: I can_read_def can_ref_def in_use_def)
  from cache_refines_store [of ?d 1 ?c] r9 obtain i s where
    9: "bread 1 9 ?c = Some (i, s)" "buf_data i s = replicate BSIZE 9" by (auto simp: I)
  from cs_read [OF r9 9(1)] have st: "(cache_step 1)\<^sup>*\<^sup>* ?c s" by blast
  have A: "cache_abs 1 s = store_read 9 (cache_abs 1 ?c)" using bc.read_ok [OF I(2) r9] 9(1) by auto
  have "in_use (cache_abs 1 s) = {9}" by (auto simp: A I in_use_def store_read_def)
  then have "can_read (NBUF - 1) 8 (cache_abs 1 s)" by (simp add: can_read_def) (simp add: A I can_ref_def store_read_def)
  with cache_refines_store [of ?d 1 s, OF _ _ st] obtain j s' where "bread 1 8 s = Some (j, s')" "buf_data j s' = st_view (cache_abs 1 s) 8" by auto
  then show ?thesis using 9 by (auto simp: A I store_read_def)
qed

end
