(* ===== verification/Virtio.thy ===== *)
theory Virtio
  imports Bcache Ring Sched
begin

text \<open>
  The disk driver (\<open>kernel/src/virtio_disk.rs\<close>): descriptor allocation, submission of a request,
  the completion interrupt and the initialization sequence.  Addresses of the structures that the driver
  shares with the device are symbolic.  The device is a parameter; what is assumed of it is stated as
  \<open>virtio_device\<close>.
\<close>

unbundle bit_operations_syntax

section \<open>Registers and shared structures\<close>

definition VIRTIO_MMIO_MAGIC_VALUE :: u32 where "VIRTIO_MMIO_MAGIC_VALUE = 0x000"
definition VIRTIO_MMIO_VERSION :: u32 where "VIRTIO_MMIO_VERSION = 0x004"
definition VIRTIO_MMIO_DEVICE_ID :: u32 where "VIRTIO_MMIO_DEVICE_ID = 0x008"
definition VIRTIO_MMIO_VENDOR_ID :: u32 where "VIRTIO_MMIO_VENDOR_ID = 0x00c"
definition VIRTIO_MMIO_DEVICE_FEATURES :: u32 where "VIRTIO_MMIO_DEVICE_FEATURES = 0x010"
definition VIRTIO_MMIO_DRIVER_FEATURES :: u32 where "VIRTIO_MMIO_DRIVER_FEATURES = 0x020"
definition VIRTIO_MMIO_QUEUE_SEL :: u32 where "VIRTIO_MMIO_QUEUE_SEL = 0x030"
definition VIRTIO_MMIO_QUEUE_NUM_MAX :: u32 where "VIRTIO_MMIO_QUEUE_NUM_MAX = 0x034"
definition VIRTIO_MMIO_QUEUE_NUM :: u32 where "VIRTIO_MMIO_QUEUE_NUM = 0x038"
definition VIRTIO_MMIO_QUEUE_READY :: u32 where "VIRTIO_MMIO_QUEUE_READY = 0x044"
definition VIRTIO_MMIO_QUEUE_NOTIFY :: u32 where "VIRTIO_MMIO_QUEUE_NOTIFY = 0x050"
definition VIRTIO_MMIO_INTERRUPT_STATUS :: u32 where "VIRTIO_MMIO_INTERRUPT_STATUS = 0x060"
definition VIRTIO_MMIO_INTERRUPT_ACK :: u32 where "VIRTIO_MMIO_INTERRUPT_ACK = 0x064"
definition VIRTIO_MMIO_STATUS :: u32 where "VIRTIO_MMIO_STATUS = 0x070"
definition VIRTIO_MMIO_QUEUE_DESC_LOW :: u32 where "VIRTIO_MMIO_QUEUE_DESC_LOW = 0x080"
definition VIRTIO_MMIO_QUEUE_DESC_HIGH :: u32 where "VIRTIO_MMIO_QUEUE_DESC_HIGH = 0x084"
definition VIRTIO_MMIO_DRIVER_DESC_LOW :: u32 where "VIRTIO_MMIO_DRIVER_DESC_LOW = 0x090"
definition VIRTIO_MMIO_DRIVER_DESC_HIGH :: u32 where "VIRTIO_MMIO_DRIVER_DESC_HIGH = 0x094"
definition VIRTIO_MMIO_DEVICE_DESC_LOW :: u32 where "VIRTIO_MMIO_DEVICE_DESC_LOW = 0x0a0"
definition VIRTIO_MMIO_DEVICE_DESC_HIGH :: u32 where "VIRTIO_MMIO_DEVICE_DESC_HIGH = 0x0a4"
definition VIRTIO_CONFIG_S_ACKNOWLEDGE :: u32 where "VIRTIO_CONFIG_S_ACKNOWLEDGE = 1"
definition VIRTIO_CONFIG_S_DRIVER :: u32 where "VIRTIO_CONFIG_S_DRIVER = 2"
definition VIRTIO_CONFIG_S_DRIVER_OK :: u32 where "VIRTIO_CONFIG_S_DRIVER_OK = 4"
definition VIRTIO_CONFIG_S_FEATURES_OK :: u32 where "VIRTIO_CONFIG_S_FEATURES_OK = 8"
definition VIRTIO_BLK_F_RO :: nat where "VIRTIO_BLK_F_RO = 5"
definition VIRTIO_BLK_F_SCSI :: nat where "VIRTIO_BLK_F_SCSI = 7"
definition VIRTIO_BLK_F_CONFIG_WCE :: nat where "VIRTIO_BLK_F_CONFIG_WCE = 11"
definition VIRTIO_BLK_F_MQ :: nat where "VIRTIO_BLK_F_MQ = 12"
definition VIRTIO_F_ANY_LAYOUT :: nat where "VIRTIO_F_ANY_LAYOUT = 27"
definition VIRTIO_RING_F_INDIRECT_DESC :: nat where "VIRTIO_RING_F_INDIRECT_DESC = 28"
definition VIRTIO_RING_F_EVENT_IDX :: nat where "VIRTIO_RING_F_EVENT_IDX = 29"
definition VRING_DESC_F_NEXT :: u16 where "VRING_DESC_F_NEXT = 1"
definition VRING_DESC_F_WRITE :: u16 where "VRING_DESC_F_WRITE = 2"
definition NUM :: nat where "NUM = 8"
definition VIRTIO_BLK_T_IN :: u32 where "VIRTIO_BLK_T_IN = 0"
definition VIRTIO_BLK_T_OUT :: u32 where "VIRTIO_BLK_T_OUT = 1"

text \<open>\<open>NoAddr\<close> is the address 0; the others are \<open>&ops[i]\<close>, the data of buffer \<open>i\<close> and \<open>&info[i].status\<close>.\<close>

datatype dma_addr = NoAddr | OpsAddr nat | DataAddr nat | StatusAddr nat

record VirtqDesc =
  vd_addr :: dma_addr
  vd_len :: u32
  vd_flags :: u16
  vd_next :: u16

record VirtqAvail =
  va_flags :: u16
  va_idx :: u16
  va_ring :: "u16 list"
  va_unused :: u16

record VirtqUsedElem =
  ue_id :: u32
  ue_len :: u32

record VirtqUsed =
  vu_flags :: u16
  vu_idx :: u16
  vu_ring :: "VirtqUsedElem list"

record BlockReq =
  br_type :: u32
  br_reserved :: u32
  br_sector :: u64

record Info =
  in_buf_id :: usize
  in_status :: u8

record Disk =
  dk_desc :: "VirtqDesc list"
  dk_avail :: VirtqAvail
  dk_used :: VirtqUsed
  dk_free :: "bool list"
  dk_used_idx :: u16
  dk_info :: "Info list"
  dk_ops :: "BlockReq list"

definition no_desc :: VirtqDesc where
  "no_desc = \<lparr>vd_addr = NoAddr, vd_len = 0, vd_flags = 0, vd_next = 0\<rparr>"

definition disk_new :: Disk where
  "disk_new = \<lparr>
     dk_desc = replicate NUM no_desc,
     dk_avail = \<lparr>va_flags = 0, va_idx = 0, va_ring = replicate NUM 0, va_unused = 0\<rparr>,
     dk_used = \<lparr>vu_flags = 0, vu_idx = 0, vu_ring = replicate NUM \<lparr>ue_id = 0, ue_len = 0\<rparr>\<rparr>,
     dk_free = replicate NUM True,
     dk_used_idx = 0,
     dk_info = replicate NUM \<lparr>in_buf_id = - 1, in_status = 0\<rparr>,
     dk_ops = replicate NUM \<lparr>br_type = 0, br_reserved = 0, br_sector = 0\<rparr>\<rparr>"

section \<open>Descriptors\<close>

definition alloc_desc :: "Disk \<Rightarrow> (nat, VirtioError) result \<times> Disk" where
  "alloc_desc d =
     (case find_index (\<lambda>free. free) (dk_free d) of
        Some i \<Rightarrow> (Ok i, d\<lparr>dk_free := (dk_free d)[i := False]\<rparr>)
      | None \<Rightarrow> (Err VirtioAlloc, d))"

text \<open>\<open>free_addr\<close> is the address of the array \<open>free\<close>, whose elements are the channels.\<close>

definition free_desc :: "nat \<Rightarrow> nat option \<Rightarrow> nat \<Rightarrow> Disk \<times> Sched \<Rightarrow> (Disk \<times> Sched) option" where
  "free_desc free_addr cur i = (\<lambda>(d, s). do {
     assert_that (i < NUM);
     Some (d\<lparr>dk_desc := (dk_desc d)[i := no_desc], dk_free := (dk_free d)[i := True]\<rparr>,
           wakeup cur (ChBuffer (free_addr + i)) s)
   })"

text \<open>A freed descriptor has no successor, so the walk ends after at most \<open>NUM + 1\<close> descriptors: \<open>fuel\<close> is that number.\<close>

fun free_chain :: "nat \<Rightarrow> nat \<Rightarrow> nat option \<Rightarrow> nat \<Rightarrow> Disk \<times> Sched \<Rightarrow> (Disk \<times> Sched) option" where
  "free_chain 0 free_addr cur i ds = None"
| "free_chain (Suc fuel) free_addr cur i ds = do {
     assert_that (i < NUM);
     let flag = vd_flags (dk_desc (fst ds) ! i);
     let next = vd_next (dk_desc (fst ds) ! i);
     ds \<leftarrow> free_desc free_addr cur i ds;
     if flag AND VRING_DESC_F_NEXT \<noteq> 0 then free_chain fuel free_addr cur (unat next) ds else Some ds
   }"

fun alloc_descs :: "nat \<Rightarrow> nat option \<Rightarrow> nat \<Rightarrow> nat list \<Rightarrow> Disk \<times> Sched \<Rightarrow> ((nat list, VirtioError) result \<times> Disk \<times> Sched) option" where
  "alloc_descs free_addr cur 0 got (d, s) = Some (Ok got, d, s)"
| "alloc_descs free_addr cur (Suc n) got (d, s) =
     (case alloc_desc d of
        (Ok i, d) \<Rightarrow> alloc_descs free_addr cur n (got @ [i]) (d, s)
      | (Err e, d) \<Rightarrow> do { (d, s) \<leftarrow> foldO (free_desc free_addr cur) got (d, s); Some (Err e, d, s) })"

definition alloc3_desc :: "nat \<Rightarrow> nat option \<Rightarrow> Disk \<times> Sched \<Rightarrow> ((nat list, VirtioError) result \<times> Disk \<times> Sched) option" where
  "alloc3_desc free_addr cur ds = alloc_descs free_addr cur 3 [] ds"

section \<open>Requests\<close>

text \<open>
  \<open>rw\<close> up to the point where it waits for the device.  Without three free descriptors the process
  sleeps (\<open>None\<close>) and starts over when it wakes up; otherwise the result has the descriptors and the
  register write that notifies the device.
\<close>

definition format_request :: "nat list \<Rightarrow> nat \<Rightarrow> bool \<Rightarrow> u64 \<Rightarrow> Disk \<Rightarrow> Disk" where
  "format_request ids buf write sector d =
     (let a = ids ! 0; b = ids ! 1; e = ids ! 2;
          d = d\<lparr>dk_ops := (dk_ops d)[a := \<lparr>br_type = (if write then VIRTIO_BLK_T_OUT else VIRTIO_BLK_T_IN), br_reserved = 0, br_sector = sector\<rparr>]\<rparr>;
          d = d\<lparr>dk_desc := (dk_desc d)[a := \<lparr>vd_addr = OpsAddr a, vd_len = 16, vd_flags = VRING_DESC_F_NEXT, vd_next = word_of_nat b\<rparr>]\<rparr>;
          d = d\<lparr>dk_desc := (dk_desc d)[b := \<lparr>vd_addr = DataAddr buf, vd_len = word_of_nat BSIZE,
                 vd_flags = (if write then 0 else VRING_DESC_F_WRITE) OR VRING_DESC_F_NEXT, vd_next = word_of_nat e\<rparr>]\<rparr>;
          d = d\<lparr>dk_info := (dk_info d)[a := (dk_info d ! a)\<lparr>in_status := 0xFF\<rparr>]\<rparr>;
          d = d\<lparr>dk_desc := (dk_desc d)[e := \<lparr>vd_addr = StatusAddr a, vd_len = 1, vd_flags = VRING_DESC_F_WRITE, vd_next = 0\<rparr>]\<rparr>
      in d\<lparr>dk_info := (dk_info d)[a := (dk_info d ! a)\<lparr>in_buf_id := word_of_nat buf\<rparr>]\<rparr>)"

definition publish :: "nat \<Rightarrow> Disk \<Rightarrow> Disk" where
  "publish head d =
     (let avail = dk_avail d; avail_index = unat (va_idx avail) mod NUM
      in d\<lparr>dk_avail := avail\<lparr>va_ring := (va_ring avail)[avail_index := word_of_nat head], va_idx := va_idx avail + 1\<rparr>\<rparr>)"

definition rw_start :: "nat \<Rightarrow> nat \<Rightarrow> nat \<Rightarrow> bool \<Rightarrow> Disk \<Rightarrow> BCache \<Rightarrow> Sched \<Rightarrow> ((nat list \<times> u32 \<times> u32) option \<times> Disk \<times> BCache \<times> Sched) option" where
  "rw_start free_addr cur buf write d c s = do {
     let sector = ucast (m_block_no (bc_meta c ! buf)) * (word_of_nat BSIZE div 512);
     (r, d, s) \<leftarrow> alloc3_desc free_addr (Some cur) (d, s);
     case r of
       Err _ \<Rightarrow> Some (None, d, c, sleep_enter cur (ChBuffer free_addr) s)
     | Ok ids \<Rightarrow> do {
         let d = format_request ids buf write sector d;
         let c = upd_meta buf (\<lambda>m. m\<lparr>m_disk := True\<rparr>) c;
         let d = publish (ids ! 0) d;
         Some (Some (ids, VIRTIO_MMIO_QUEUE_NOTIFY, 0), d, c, s)
       }
   }"

text \<open>\<open>rw\<close> when it is scheduled again: \<open>True\<close> when it returns, \<open>False\<close> when it goes back to sleep.\<close>

definition rw_wait :: "nat \<Rightarrow> nat \<Rightarrow> nat list \<Rightarrow> nat \<Rightarrow> Disk \<Rightarrow> BCache \<Rightarrow> Sched \<Rightarrow> (bool \<times> Disk \<times> Sched) option" where
  "rw_wait free_addr cur ids buf d c s =
     (if m_disk (bc_meta c ! buf) then Some (False, d, sleep_enter cur (ChBuffer buf) s)
      else do {
        let d = d\<lparr>dk_info := (dk_info d)[ids ! 0 := (dk_info d ! (ids ! 0))\<lparr>in_buf_id := - 1\<rparr>]\<rparr>;
        (d, s) \<leftarrow> free_chain (Suc NUM) free_addr (Some cur) (ids ! 0) (d, s);
        Some (True, d, s)
      })"

function interrupt_loop :: "nat option \<Rightarrow> Disk \<Rightarrow> BCache \<Rightarrow> Sched \<Rightarrow> (Disk \<times> BCache \<times> Sched) option" where
  "interrupt_loop cur d c s =
     (if dk_used_idx d = vu_idx (dk_used d) then Some (d, c, s)
      else let id = unat (ue_id (vu_ring (dk_used d) ! (unat (dk_used_idx d) mod NUM)))
        in if NUM \<le> id then None
        else let buf_id = unat (in_buf_id (dk_info d ! id))
          in if NBUF \<le> buf_id then None
          else interrupt_loop cur (d\<lparr>dk_used_idx := dk_used_idx d + 1\<rparr>)
                 (upd_meta buf_id (\<lambda>m. m\<lparr>m_disk := False\<rparr>) c) (wakeup cur (ChBuffer buf_id) s))"
  by pat_completeness auto
termination
proof (relation "measure (\<lambda>(_, d, _, _). unat (vu_idx (dk_used d) - dk_used_idx d))", goal_cases)
  case (2 cur d c s id buf)
  let ?x = "vu_idx (dk_used d) - dk_used_idx d"
  have "?x \<noteq> 0" using 2(1) by simp
  then have "unat (?x - 1) < unat ?x" by (simp add: unat_minus_one unat_gt_0)
  then show ?case by (simp add: algebra_simps)
qed simp

declare interrupt_loop.simps [simp del]

text \<open>The acknowledgement is the one register write; the result also says what was written.\<close>

definition disk_interrupt :: "(u32 \<Rightarrow> u32) \<Rightarrow> nat option \<Rightarrow> Disk \<Rightarrow> BCache \<Rightarrow> Sched \<Rightarrow> ((u32 \<times> u32) \<times> Disk \<times> BCache \<times> Sched) option" where
  "disk_interrupt reg cur d c s = do {
     let intr_status = reg VIRTIO_MMIO_INTERRUPT_STATUS;
     (d, c, s) \<leftarrow> interrupt_loop cur d c s;
     Some ((VIRTIO_MMIO_INTERRUPT_ACK, intr_status AND 3), d, c, s)
   }"

section \<open>Initialization\<close>

text \<open>
  \<open>reg r\<close> is what a read of register \<open>r\<close> returns (each register is read once); the result is the list
  of register writes.
\<close>

definition driver_features :: "u32 \<Rightarrow> u32" where
  "driver_features features =
     features AND NOT (push_bit VIRTIO_BLK_F_RO 1) AND NOT (push_bit VIRTIO_BLK_F_SCSI 1) AND NOT (push_bit VIRTIO_BLK_F_CONFIG_WCE 1)
       AND NOT (push_bit VIRTIO_BLK_F_MQ 1) AND NOT (push_bit VIRTIO_F_ANY_LAYOUT 1) AND NOT (push_bit VIRTIO_RING_F_EVENT_IDX 1)
       AND NOT (push_bit VIRTIO_RING_F_INDIRECT_DESC 1)"

definition virtio_init :: "(u32 \<Rightarrow> u32) \<Rightarrow> usize \<Rightarrow> usize \<Rightarrow> usize \<Rightarrow> (u32 \<times> u32) list option" where
  "virtio_init reg desc_addr avail_addr used_addr = do {
     assert_that (reg VIRTIO_MMIO_MAGIC_VALUE = 0x74726976 \<and> reg VIRTIO_MMIO_VERSION = 2 \<and>
       reg VIRTIO_MMIO_DEVICE_ID = 2 \<and> reg VIRTIO_MMIO_VENDOR_ID = 0x554d4551);
     let status0 = 0;
     let status1 = status0 OR VIRTIO_CONFIG_S_ACKNOWLEDGE;
     let status2 = status1 OR VIRTIO_CONFIG_S_DRIVER;
     let features = driver_features (reg VIRTIO_MMIO_DEVICE_FEATURES);
     let status3 = status2 OR VIRTIO_CONFIG_S_FEATURES_OK;
     let status = reg VIRTIO_MMIO_STATUS;
     assert_that (status AND VIRTIO_CONFIG_S_FEATURES_OK \<noteq> 0);
     assert_that (reg VIRTIO_MMIO_QUEUE_READY = 0);
     let max_size = reg VIRTIO_MMIO_QUEUE_NUM_MAX;
     assert_that (max_size \<noteq> 0);
     assert_that (unat max_size > NUM);
     Some [
       (VIRTIO_MMIO_STATUS, status0), (VIRTIO_MMIO_STATUS, status1), (VIRTIO_MMIO_STATUS, status2),
       (VIRTIO_MMIO_DRIVER_FEATURES, features), (VIRTIO_MMIO_STATUS, status3),
       (VIRTIO_MMIO_QUEUE_SEL, 0), (VIRTIO_MMIO_QUEUE_NUM, word_of_nat NUM),
       (VIRTIO_MMIO_QUEUE_DESC_LOW, ucast desc_addr), (VIRTIO_MMIO_QUEUE_DESC_HIGH, ucast (drop_bit 32 desc_addr)),
       (VIRTIO_MMIO_DRIVER_DESC_LOW, ucast avail_addr), (VIRTIO_MMIO_DRIVER_DESC_HIGH, ucast (drop_bit 32 avail_addr)),
       (VIRTIO_MMIO_DEVICE_DESC_LOW, ucast used_addr), (VIRTIO_MMIO_DEVICE_DESC_HIGH, ucast (drop_bit 32 used_addr)),
       (VIRTIO_MMIO_QUEUE_READY, 1), (VIRTIO_MMIO_STATUS, status OR VIRTIO_CONFIG_S_DRIVER_OK)]
   }"

section \<open>The device and the running driver\<close>

text \<open>
  The driver, the cache, the calls of \<open>rw\<close> in progress (by head descriptor: the descriptors, the buffer
  and the direction), and the device: its position in the available ring and the chains it has taken.
\<close>

record VState =
  v_disk :: Disk
  v_cache :: BCache
  v_calls :: "nat \<Rightarrow> (nat list \<times> nat \<times> bool) option"
  v_last :: u16
  v_fetched :: "nat list"

definition dev_fetch :: "VState \<Rightarrow> VState" where
  "dev_fetch v = v\<lparr>v_last := v_last v + 1,
     v_fetched := v_fetched v @ [unat (va_ring (dk_avail (v_disk v)) ! (unat (v_last v) mod NUM))]\<rparr>"

text \<open>A request as the device reads it from the chain at \<open>h\<close>: buffer, direction, block and status byte.\<close>

definition chain_request :: "Disk \<Rightarrow> nat \<Rightarrow> (nat \<times> bool \<times> u32 \<times> nat) option" where
  "chain_request d h =
     (let d0 = dk_desc d ! h; d1 = dk_desc d ! unat (vd_next d0); d2 = dk_desc d ! unat (vd_next d1)
      in case (vd_addr d0, vd_addr d1, vd_addr d2) of
           (OpsAddr a, DataAddr b, StatusAddr e) \<Rightarrow>
             if vd_flags d0 = VRING_DESC_F_NEXT \<and> vd_len d0 = 16 \<and> vd_len d1 = 1024 \<and> vd_len d2 = 1 \<and> vd_flags d2 = VRING_DESC_F_WRITE
             then if br_type (dk_ops d ! a) = VIRTIO_BLK_T_OUT \<and> vd_flags d1 = VRING_DESC_F_NEXT
                  then Some (b, True, ucast (br_sector (dk_ops d ! a) div 2), e)
                  else if br_type (dk_ops d ! a) = VIRTIO_BLK_T_IN \<and> vd_flags d1 = VRING_DESC_F_WRITE OR VRING_DESC_F_NEXT
                  then Some (b, False, ucast (br_sector (dk_ops d ! a) div 2), e)
                  else None
             else None
         | _ \<Rightarrow> None)"

definition transfer :: "nat \<Rightarrow> bool \<Rightarrow> u32 \<Rightarrow> BCache \<Rightarrow> BCache" where
  "transfer b write block c =
     (if write then c\<lparr>bc_disk := (bc_disk c)(block := bc_data c ! b), bc_writes := bc_writes c @ [(block, bc_data c ! b)]\<rparr>
      else c\<lparr>bc_data := (bc_data c)[b := bc_disk c block]\<rparr>)"

definition dev_complete :: "nat \<Rightarrow> u32 \<Rightarrow> nat \<times> bool \<times> u32 \<times> nat \<Rightarrow> VState \<Rightarrow> VState" where
  "dev_complete h len = (\<lambda>(b, write, block, e) v.
     let d = v_disk v; used = dk_used d
     in v\<lparr>v_cache := transfer b write block (v_cache v), v_fetched := remove1 h (v_fetched v),
          v_disk := d\<lparr>dk_info := (dk_info d)[e := (dk_info d ! e)\<lparr>in_status := 0\<rparr>],
            dk_used := used\<lparr>vu_ring := (vu_ring used)[unat (vu_idx used) mod NUM := \<lparr>ue_id = word_of_nat h, ue_len = len\<rparr>], vu_idx := vu_idx used + 1\<rparr>\<rparr>\<rparr>)"

text \<open>
  What the driver relies on: the device takes an entry of the available ring that the driver has
  published, or carries out a chain it has taken, in any order, and reports it in the used ring.
  For a chain that is not a disk request nothing is promised.
\<close>

definition virtio_device :: "(VState \<Rightarrow> VState \<Rightarrow> bool) \<Rightarrow> bool" where
  "virtio_device D \<longleftrightarrow> (\<forall>v v'. D v v' \<longrightarrow>
     v_last v \<noteq> va_idx (dk_avail (v_disk v)) \<and> v' = dev_fetch v \<or>
     (\<exists>h len. h \<in> set (v_fetched v) \<and>
        (case chain_request (v_disk v) h of Some r \<Rightarrow> v' = dev_complete h len r v | None \<Rightarrow> True)))"

inductive vstep :: "(VState \<Rightarrow> VState \<Rightarrow> bool) \<Rightarrow> VState \<Rightarrow> VState \<Rightarrow> bool" for D where
  vs_start: "buf < NBUF \<Longrightarrow> \<forall>h ids b w. v_calls v h = Some (ids, b, w) \<longrightarrow> b \<noteq> buf \<Longrightarrow>
    rw_start fa cur buf write (v_disk v) (v_cache v) s = Some (Some (ids, n), d, c, s') \<Longrightarrow>
    vstep D v (v\<lparr>v_disk := d, v_cache := c, v_calls := (v_calls v)(ids ! 0 := Some (ids, buf, write))\<rparr>)"
| vs_full: "buf < NBUF \<Longrightarrow> \<forall>h ids b w. v_calls v h = Some (ids, b, w) \<longrightarrow> b \<noteq> buf \<Longrightarrow>
    rw_start fa cur buf write (v_disk v) (v_cache v) s = Some (None, d, c, s') \<Longrightarrow>
    vstep D v (v\<lparr>v_disk := d, v_cache := c\<rparr>)"
| vs_device: "D v v' \<Longrightarrow> vstep D v v'"
| vs_intr: "disk_interrupt reg cur' (v_disk v) (v_cache v) s = Some (a, d, c, s') \<Longrightarrow> vstep D v (v\<lparr>v_disk := d, v_cache := c\<rparr>)"
| vs_done: "v_calls v h = Some (ids, buf, write) \<Longrightarrow> rw_wait fa cur ids buf (v_disk v) (v_cache v) s = Some (True, d, s') \<Longrightarrow>
    vstep D v (v\<lparr>v_disk := d, v_calls := (v_calls v)(h := None)\<rparr>)"
| vs_other: "length (bc_meta c) = NBUF \<Longrightarrow> length (bc_data c) = NBUF \<Longrightarrow> bc_disk c = bc_disk (v_cache v) \<Longrightarrow>
    \<forall>i < NBUF. m_disk (bc_meta c ! i) = m_disk (bc_meta (v_cache v) ! i) \<Longrightarrow>
    \<forall>h ids b w. v_calls v h = Some (ids, b, w) \<longrightarrow>
      m_block_no (bc_meta c ! b) = m_block_no (bc_meta (v_cache v) ! b) \<and> bc_data c ! b = bc_data (v_cache v) ! b \<Longrightarrow>
    vstep D v (v\<lparr>v_cache := c\<rparr>)"

definition vinit :: "BCache \<Rightarrow> VState" where
  "vinit c = \<lparr>v_disk = disk_new, v_cache = c, v_calls = Map.empty, v_last = 0, v_fetched = []\<rparr>"

section \<open>Invariant\<close>

text \<open>
  The first free descriptor is always taken, so a request has the descriptors 0, 1, 2 or 3, 4, 5;
  the last two are never used.  The chains that wait in the available ring, that the device works on and
  that are reported in the used ring belong to different calls; the flag of a buffer is set
  until the driver has seen the report.
\<close>

definition waiting :: "VState \<Rightarrow> nat list" where
  "waiting v = map unat (ring_list NUM (va_ring (dk_avail (v_disk v))) (v_last v) (va_idx (dk_avail (v_disk v))))"

definition reported :: "Disk \<Rightarrow> nat list" where
  "reported d = map (\<lambda>e. unat (ue_id e)) (ring_list NUM (vu_ring (dk_used d)) (dk_used_idx d) (vu_idx (dk_used d)))"

definition disk_wf :: "Disk \<Rightarrow> bool" where
  "disk_wf d \<longleftrightarrow> length (dk_desc d) = NUM \<and> length (va_ring (dk_avail d)) = NUM \<and> length (vu_ring (dk_used d)) = NUM \<and>
     length (dk_info d) = NUM \<and> length (dk_ops d) = NUM"

definition call_ok :: "Disk \<Rightarrow> BCache \<Rightarrow> nat \<Rightarrow> nat list \<Rightarrow> nat \<Rightarrow> bool \<Rightarrow> bool" where
  "call_ok d c h ids b w \<longleftrightarrow> ids = [h, h + 1, h + 2] \<and> b < NBUF \<and>
     dk_desc d ! h = \<lparr>vd_addr = OpsAddr h, vd_len = 16, vd_flags = 1, vd_next = word_of_nat (h + 1)\<rparr> \<and>
     dk_desc d ! (h + 1) = \<lparr>vd_addr = DataAddr b, vd_len = 1024, vd_flags = (if w then 1 else 3), vd_next = word_of_nat (h + 2)\<rparr> \<and>
     dk_desc d ! (h + 2) = \<lparr>vd_addr = StatusAddr h, vd_len = 1, vd_flags = 2, vd_next = 0\<rparr> \<and>
     dk_ops d ! h = \<lparr>br_type = (if w then 1 else 0), br_reserved = 0, br_sector = ucast (m_block_no (bc_meta c ! b)) * 2\<rparr> \<and>
     in_buf_id (dk_info d ! h) = word_of_nat b"

definition calls_ok :: "VState \<Rightarrow> bool" where
  "calls_ok v \<longleftrightarrow> dom (v_calls v) \<subseteq> {0, 3} \<and>
     (\<forall>h ids b w. v_calls v h = Some (ids, b, w) \<longrightarrow> call_ok (v_disk v) (v_cache v) h ids b w) \<and>
     (\<forall>h k ids ids' b w w'. v_calls v h = Some (ids, b, w) \<longrightarrow> v_calls v k = Some (ids', b, w') \<longrightarrow> h = k) \<and>
     dk_free (v_disk v) = (let x = v_calls v 0 = None; y = v_calls v 3 = None in [x, x, x, y, y, y, True, True])"

definition queues_ok :: "VState \<Rightarrow> bool" where
  "queues_ok v \<longleftrightarrow> (let hs = waiting v @ v_fetched v @ reported (v_disk v)
     in distinct hs \<and> set hs \<subseteq> dom (v_calls v) \<and>
        (\<forall>h ids b w. v_calls v h = Some (ids, b, w) \<longrightarrow> (m_disk (bc_meta (v_cache v) ! b) \<longleftrightarrow> h \<in> set hs)))"

definition vinv :: "VState \<Rightarrow> bool" where
  "vinv v \<longleftrightarrow> disk_wf (v_disk v) \<and> length (bc_meta (v_cache v)) = NBUF \<and> length (bc_data (v_cache v)) = NBUF \<and> calls_ok v \<and> queues_ok v"

lemma virtio_values:
  "NUM = 8" "VRING_DESC_F_NEXT = 1" "VRING_DESC_F_WRITE = 2" "VIRTIO_BLK_T_IN = 0" "VIRTIO_BLK_T_OUT = 1"
  by (simp_all add: NUM_def VRING_DESC_F_NEXT_def VRING_DESC_F_WRITE_def VIRTIO_BLK_T_IN_def VIRTIO_BLK_T_OUT_def)

lemma sector_block: "(ucast ((ucast b * 2 :: u64) div 2) :: u32) = b"
proof -
  have b: "unat b < 2 ^ 32" using unsigned_less [of b] by simp
  have u: "unat (ucast b :: u64) = unat b" using b by (simp add: unsigned_ucast_eq take_bit_nat_eq_self)
  have "unat (ucast b * 2 :: u64) = unat b * 2" using b u by (simp add: unat_word_ariths)
  then have "unat ((ucast b * 2 :: u64) div 2) = unat (ucast b :: u64)" using u by (simp add: unat_div)
  then have "(ucast b * 2 :: u64) div 2 = ucast b" by (simp only: word_unat_eq_iff)
  moreover have "(ucast (ucast b :: u64) :: u32) = b" by (rule bit_word_eqI) (simp add: bit_simps)
  ultimately show ?thesis by (simp only:)
qed

lemma calls_okD:
  assumes "calls_ok v" "v_calls v h = Some (ids, b, w)"
  shows "h = 0 \<or> h = 3" "call_ok (v_disk v) (v_cache v) h ids b w"
  using assms unfolding calls_ok_def by (blast, blast)

text \<open>Two calls at most, so neither ring overflows.\<close>

lemma queues_short:
  assumes "calls_ok v" "queues_ok v"
  shows "length (waiting v @ v_fetched v @ reported (v_disk v)) \<le> 2"
proof -
  let ?hs = "waiting v @ v_fetched v @ reported (v_disk v)"
  have a: "distinct ?hs" "set ?hs \<subseteq> dom (v_calls v)" using assms(2) unfolding queues_ok_def Let_def by blast+
  have "dom (v_calls v) \<subseteq> {0, 3}" using assms(1) unfolding calls_ok_def by blast
  with a(2) have "card (set ?hs) \<le> card {0, 3 :: nat}" by (intro card_mono) (simp, rule subset_trans)
  then show ?thesis using distinct_card [OF a(1)] by simp
qed

text \<open>Allocation.\<close>

lemma alloc3_first:
  "dk_free d = [True, True, True, y1, y2, y3, True, True] \<Longrightarrow> alloc3_desc fa cur (d, s) =
     Some (Ok [0, 1, 2], d\<lparr>dk_free := [False, False, False, y1, y2, y3, True, True]\<rparr>, s)"
  by (simp add: alloc3_desc_def numeral_3_eq_3 alloc_desc_def)

lemma alloc3_second:
  "dk_free d = [False, False, False, True, True, True, True, True] \<Longrightarrow> alloc3_desc fa cur (d, s) =
     Some (Ok [3, 4, 5], d\<lparr>dk_free := [False, False, False, False, False, False, True, True]\<rparr>, s)"
  by (simp add: alloc3_desc_def numeral_3_eq_3 alloc_desc_def)

lemma alloc3_full:
  "dk_free d = [False, False, False, False, False, False, True, True] \<Longrightarrow> \<exists>s'. alloc3_desc fa cur (d, s) =
     Some (Err VirtioAlloc, d\<lparr>dk_desc := (dk_desc d)[6 := no_desc, 7 := no_desc], dk_free := [False, False, False, False, False, False, True, True]\<rparr>, s')"
  by (simp add: alloc3_desc_def eval_nat_numeral alloc_desc_def free_desc_def NUM_def)

lemma format_request_fields:
  fixes b :: nat and w :: bool and sec :: u64
  assumes "disk_wf d" "h + 2 < NUM"
  defines "d' \<equiv> format_request [h, h + 1, h + 2] b w sec d"
  shows "dk_desc d' ! h = \<lparr>vd_addr = OpsAddr h, vd_len = 16, vd_flags = 1, vd_next = word_of_nat (h + 1)\<rparr>"
    "dk_desc d' ! (h + 1) = \<lparr>vd_addr = DataAddr b, vd_len = 1024, vd_flags = (if w then 1 else 3), vd_next = word_of_nat (h + 2)\<rparr>"
    "dk_desc d' ! (h + 2) = \<lparr>vd_addr = StatusAddr h, vd_len = 1, vd_flags = 2, vd_next = 0\<rparr>"
    "dk_ops d' ! h = \<lparr>br_type = (if w then 1 else 0), br_reserved = 0, br_sector = sec\<rparr>" "in_buf_id (dk_info d' ! h) = word_of_nat b"
    "i \<notin> {h, h + 1, h + 2} \<Longrightarrow> dk_desc d' ! i = dk_desc d ! i" "i \<noteq> h \<Longrightarrow> dk_ops d' ! i = dk_ops d ! i \<and> dk_info d' ! i = dk_info d ! i"
    "disk_wf d'" "dk_free d' = dk_free d" "dk_avail d' = dk_avail d" "dk_used d' = dk_used d" "dk_used_idx d' = dk_used_idx d"
  using assms(1,2) by (simp_all add: d'_def format_request_def Let_def disk_wf_def virtio_values BSIZE_def)

lemma call_ok_cong:
  assumes "call_ok d c h ids b w" "\<forall>i \<in> {h, h + 1, h + 2}. dk_desc d' ! i = dk_desc d ! i" "dk_ops d' ! h = dk_ops d ! h"
    "in_buf_id (dk_info d' ! h) = in_buf_id (dk_info d ! h)" "m_block_no (bc_meta c' ! b) = m_block_no (bc_meta c ! b)"
  shows "call_ok d' c' h ids b w"
  using assms by (simp add: call_ok_def)

lemma waiting_publish:
  assumes "disk_wf (v_disk v)" "length (waiting v) < NUM" "v_disk v' = publish h d" "dk_avail d = dk_avail (v_disk v)" "v_last v' = v_last v" "h < NUM"
  shows "waiting v' = waiting v @ [h]"
proof -
  let ?r = "va_ring (dk_avail (v_disk v))" and ?i = "va_idx (dk_avail (v_disk v))"
  have "ring_list NUM (?r[unat ?i mod NUM := word_of_nat h]) (v_last v) (?i + 1) = ring_list NUM ?r (v_last v) ?i @ [word_of_nat h]"
    using assms(1,2) by (intro word_ring_push) (simp_all add: NUM_def disk_wf_def waiting_def)
  moreover have "unat (word_of_nat h :: u16) = h" using assms(6) by (simp add: unat_of_nat NUM_def)
  ultimately show ?thesis using assms(3-5) by (simp add: waiting_def publish_def Let_def)
qed

lemma vinv_start:
  fixes w :: bool
  assumes v: "vinv v" and h: "h = 0 \<or> h = 3" "v_calls v h = None" and b: "buf < NBUF" "\<forall>k ids b w. v_calls v k = Some (ids, b, w) \<longrightarrow> b \<noteq> buf"
  defines "d1 \<equiv> (v_disk v)\<lparr>dk_free := (let x = h \<noteq> 0 \<and> v_calls v 0 = None; y = h \<noteq> 3 \<and> v_calls v 3 = None in [x, x, x, y, y, y, True, True])\<rparr>"
  defines "d' \<equiv> publish h (format_request [h, h + 1, h + 2] buf w (ucast (m_block_no (bc_meta (v_cache v) ! buf)) * 2) d1)"
  defines "v' \<equiv> v\<lparr>v_disk := d', v_cache := upd_meta buf (\<lambda>m. m\<lparr>m_disk := True\<rparr>) (v_cache v), v_calls := (v_calls v)(h := Some ([h, h + 1, h + 2], buf, w))\<rparr>"
  shows "vinv v'"
proof -
  have wf: "disk_wf (v_disk v)" "length (bc_meta (v_cache v)) = NBUF" "length (bc_data (v_cache v)) = NBUF" and co: "calls_ok v" and qo: "queues_ok v"
    using v by (simp_all add: vinv_def)
  have h8: "h + 2 < NUM" "h < NUM" using h(1) by (auto simp: NUM_def)
  have wf1: "disk_wf d1" using wf(1) by (simp add: d1_def disk_wf_def)
  define df where "df = format_request [h, h + 1, h + 2] buf w (ucast (m_block_no (bc_meta (v_cache v) ! buf)) * 2) d1"
  note F = format_request_fields [OF wf1 h8(1), where b = buf and w = w and sec = "ucast (m_block_no (bc_meta (v_cache v) ! buf)) * 2", folded df_def]
  have d': "d' = publish h df" by (simp only: d'_def df_def)
  have P: "dk_desc d' = dk_desc df" "dk_ops d' = dk_ops df" "dk_info d' = dk_info df" "dk_free d' = dk_free df" "dk_used d' = dk_used df" "dk_used_idx d' = dk_used_idx df"
    "disk_wf d'" using F(8) unfolding d' by (simp_all add: publish_def Let_def disk_wf_def)
  have m: "bc_meta (v_cache v') ! i = (if i = buf then (bc_meta (v_cache v) ! buf)\<lparr>m_disk := True\<rparr> else bc_meta (v_cache v) ! i)" for i
    using wf(2) b(1) by (simp add: v'_def upd_meta_def nth_list_update)
  have V: "v_disk v' = d'" "v_calls v' = (v_calls v)(h := Some ([h, h + 1, h + 2], buf, w))" "v_last v' = v_last v" "v_fetched v' = v_fetched v"
    by (simp_all add: v'_def)
  have A1: "call_ok d' (v_cache v') k ids b w'" if "v_calls v' k = Some (ids, b, w')" for k ids b w'
  proof (cases "k = h")
    case True
    with that F(1-5) b(1) show ?thesis by (simp add: V call_ok_def P m)
  next
    case False
    with that have c: "v_calls v k = Some (ids, b, w')" by (simp add: V)
    note K = calls_okD [OF co c]
    show ?thesis using F(6,7) False K h(1) by (intro call_ok_cong [OF K(2)]) (auto simp: P m d1_def)
  qed
  have A2: "dom (v_calls v') \<subseteq> {0, 3}" using co h(1) by (auto simp: calls_ok_def V)
  have A3: "k = j" if "v_calls v' k = Some (ids, b, x)" "v_calls v' j = Some (ids', b, y)" for k j ids ids' b x y
    using that co assms(5) by (auto simp: calls_ok_def V split: if_splits)
  have A4: "dk_free d' = (let x = v_calls v' 0 = None; y = v_calls v' 3 = None in [x, x, x, y, y, y, True, True])"
    using h(1) by (auto simp: P F(9) d1_def V Let_def)
  have c': "calls_ok v'" unfolding calls_ok_def V(1) by (intro conjI allI impI A2 A4) (erule A1, erule (1) A3)
  have w: "waiting v' = waiting v @ [h]"
    using queues_short [OF co qo] h8(2) F(10) by (intro waiting_publish [of v v' h df]) (simp_all add: wf V d' d1_def NUM_def)
  have r: "reported d' = reported (v_disk v)" by (simp add: reported_def P F(11,12) d1_def)
  have "h \<notin> set (waiting v @ v_fetched v @ reported (v_disk v))" using qo h(2) by (auto simp: queues_ok_def Let_def)
  then have "queues_ok v'"
    using qo b(2) by (auto simp: queues_ok_def Let_def w r m V)
  with c' show ?thesis using P(7) wf by (simp add: vinv_def v'_def upd_meta_def)
qed

text \<open>The device takes a chain, and carries one out.\<close>

lemma vinv_fetch:
  assumes v: "vinv v" and ne: "v_last v \<noteq> va_idx (dk_avail (v_disk v))"
  shows "vinv (dev_fetch v)" "waiting v \<noteq> []"
proof -
  let ?r = "va_ring (dk_avail (v_disk v))" and ?i = "va_idx (dk_avail (v_disk v))"
  have "ring_list NUM ?r (v_last v) ?i = ?r ! (unat (v_last v) mod NUM) # ring_list NUM ?r (v_last v + 1) ?i"
    using ne by (intro word_ring_pop) (simp_all add: NUM_def)
  then have w: "waiting v = unat (?r ! (unat (v_last v) mod NUM)) # waiting (dev_fetch v)" by (simp add: waiting_def dev_fetch_def)
  then show "waiting v \<noteq> []" by simp
  have F: "v_disk (dev_fetch v) = v_disk v" "v_cache (dev_fetch v) = v_cache v" "v_calls (dev_fetch v) = v_calls v"
    "v_fetched (dev_fetch v) = v_fetched v @ [unat (?r ! (unat (v_last v) mod NUM))]" by (simp_all add: dev_fetch_def)
  have "calls_ok (dev_fetch v)" using v unfolding vinv_def calls_ok_def F by blast
  moreover have "queues_ok (dev_fetch v)" using v unfolding vinv_def queues_ok_def F w Let_def by auto
  ultimately show "vinv (dev_fetch v)" using v by (simp add: vinv_def F)
qed

lemma chain_request_call:
  assumes "call_ok d c h ids b w" "h = 0 \<or> h = 3"
  shows "chain_request d h = Some (b, w, m_block_no (bc_meta c ! b), h)"
proof -
  have "unat (word_of_nat (h + 1) :: u16) = h + 1" "unat (word_of_nat (h + 2) :: u16) = h + 2" using assms(2) by auto
  with assms(1) show ?thesis by (simp add: chain_request_def call_ok_def Let_def virtio_values sector_block)
qed

lemma reported_complete:
  assumes "disk_wf (v_disk v)" "length (reported (v_disk v)) < NUM" "h < NUM"
  shows "reported (v_disk (dev_complete h len r v)) = reported (v_disk v) @ [h]"
proof -
  let ?u = "dk_used (v_disk v)" and ?e = "\<lparr>ue_id = word_of_nat h, ue_len = len\<rparr>"
  have "ring_list NUM ((vu_ring ?u)[unat (vu_idx ?u) mod NUM := ?e]) (dk_used_idx (v_disk v)) (vu_idx ?u + 1) =
      ring_list NUM (vu_ring ?u) (dk_used_idx (v_disk v)) (vu_idx ?u) @ [?e]"
    using assms(1,2) by (intro word_ring_push) (simp_all add: NUM_def disk_wf_def reported_def)
  moreover have "unat (word_of_nat h :: u32) = h" using assms(3) by (simp add: unat_of_nat NUM_def)
  ultimately show ?thesis by (cases r) (simp add: reported_def dev_complete_def Let_def)
qed

lemma transfer_fields [simp]: "bc_meta (transfer b w k c) = bc_meta c" "length (bc_data (transfer b w k c)) = length (bc_data c)"
  by (simp_all add: transfer_def)

lemma vinv_complete:
  assumes v: "vinv v" and h: "h \<in> set (v_fetched v)"
  shows "\<exists>ids b w. v_calls v h = Some (ids, b, w) \<and> chain_request (v_disk v) h = Some (b, w, m_block_no (bc_meta (v_cache v) ! b), h) \<and>
    vinv (dev_complete h len (b, w, m_block_no (bc_meta (v_cache v) ! b), h) v) \<and>
    h \<notin> set (waiting (dev_complete h len (b, w, m_block_no (bc_meta (v_cache v) ! b), h) v) @ remove1 h (v_fetched v))"
proof -
  have wf: "disk_wf (v_disk v)" and co: "calls_ok v" and qo: "queues_ok v" using v by (simp_all add: vinv_def)
  have Q: "distinct (waiting v @ v_fetched v @ reported (v_disk v))" "set (waiting v @ v_fetched v @ reported (v_disk v)) \<subseteq> dom (v_calls v)"
    using qo unfolding queues_ok_def Let_def by blast+
  have "h \<in> dom (v_calls v)" by (rule subsetD [OF Q(2)]) (simp add: h)
  then obtain ids b w where c: "v_calls v h = Some (ids, b, w)" by (metis domD prod_cases3)
  note K = calls_okD [OF co c]
  define v' where "v' = dev_complete h len (b, w, m_block_no (bc_meta (v_cache v) ! b), h) v"
  have V: "v_calls v' = v_calls v" "v_fetched v' = remove1 h (v_fetched v)" "bc_meta (v_cache v') = bc_meta (v_cache v)" "length (bc_data (v_cache v')) = length (bc_data (v_cache v))"
    "dk_desc (v_disk v') = dk_desc (v_disk v)" "dk_ops (v_disk v') = dk_ops (v_disk v)" "dk_free (v_disk v') = dk_free (v_disk v)"
    "dk_avail (v_disk v') = dk_avail (v_disk v)" "v_last v' = v_last v" "disk_wf (v_disk v')"
    using wf by (simp_all add: v'_def dev_complete_def Let_def disk_wf_def)
  have I: "in_buf_id (dk_info (v_disk v') ! i) = in_buf_id (dk_info (v_disk v) ! i)" for i
    using wf K(1) by (cases "i = h") (auto simp: v'_def dev_complete_def Let_def disk_wf_def NUM_def)
  have w: "waiting v' = waiting v" by (simp add: waiting_def V)
  have r: "reported (v_disk v') = reported (v_disk v) @ [h]"
    unfolding v'_def using queues_short [OF co qo] K(1) wf by (intro reported_complete) (auto simp: NUM_def)
  have cc: "call_ok (v_disk v') (v_cache v') k is x y \<longleftrightarrow> call_ok (v_disk v) (v_cache v) k is x y" for k "is" x y
    by (simp add: call_ok_def V I)
  have "calls_ok v'" using co unfolding calls_ok_def V(1,7) cc by blast
  moreover have s: "set (waiting v' @ v_fetched v' @ reported (v_disk v')) = set (waiting v @ v_fetched v @ reported (v_disk v))"
    and d: "distinct (waiting v' @ v_fetched v' @ reported (v_disk v'))" using Q(1) h by (auto simp: w r V)
  have "queues_ok v'" using qo unfolding queues_ok_def Let_def s V(1,3) using d by blast
  ultimately have "vinv v'" using v by (simp add: vinv_def V)
  moreover have "h \<notin> set (waiting v' @ remove1 h (v_fetched v))" using Q(1) h by (auto simp: w)
  ultimately show ?thesis using c chain_request_call [OF K(2,1)] unfolding v'_def by blast
qed

text \<open>The interrupt handler; it never panics.\<close>

lemma vinv_seen:
  assumes v: "vinv v" and ne: "dk_used_idx (v_disk v) \<noteq> vu_idx (dk_used (v_disk v))"
  defines "h \<equiv> unat (ue_id (vu_ring (dk_used (v_disk v)) ! (unat (dk_used_idx (v_disk v)) mod NUM)))"
  defines "b \<equiv> unat (in_buf_id (dk_info (v_disk v) ! h))"
  shows "h < NUM" "b < NBUF"
    "vinv (v\<lparr>v_disk := (v_disk v)\<lparr>dk_used_idx := dk_used_idx (v_disk v) + 1\<rparr>, v_cache := upd_meta b (\<lambda>m. m\<lparr>m_disk := False\<rparr>) (v_cache v)\<rparr>)"
proof -
  let ?d = "v_disk v" and ?v = "v\<lparr>v_disk := (v_disk v)\<lparr>dk_used_idx := dk_used_idx (v_disk v) + 1\<rparr>, v_cache := upd_meta b (\<lambda>m. m\<lparr>m_disk := False\<rparr>) (v_cache v)\<rparr>"
  have wf: "disk_wf ?d" "length (bc_meta (v_cache v)) = NBUF" and co: "calls_ok v" and qo: "queues_ok v" using v by (simp_all add: vinv_def)
  let ?r = "vu_ring (dk_used ?d)" and ?i = "vu_idx (dk_used ?d)"
  have "ring_list NUM ?r (dk_used_idx ?d) ?i = ?r ! (unat (dk_used_idx ?d) mod NUM) # ring_list NUM ?r (dk_used_idx ?d + 1) ?i"
    using ne by (intro word_ring_pop) (simp_all add: NUM_def)
  then have r: "reported ?d = h # reported (?d\<lparr>dk_used_idx := dk_used_idx ?d + 1\<rparr>)" by (simp add: reported_def h_def)
  have Q: "distinct (waiting v @ v_fetched v @ reported ?d)" "set (waiting v @ v_fetched v @ reported ?d) \<subseteq> dom (v_calls v)"
    "\<forall>k ids b w. v_calls v k = Some (ids, b, w) \<longrightarrow> (m_disk (bc_meta (v_cache v) ! b) \<longleftrightarrow> k \<in> set (waiting v @ v_fetched v @ reported ?d))"
    using qo unfolding queues_ok_def Let_def by blast+
  have "h \<in> dom (v_calls v)" by (rule subsetD [OF Q(2)]) (simp add: r)
  then obtain ids b' w where c: "v_calls v h = Some (ids, b', w)" by (metis domD prod_cases3)
  note K = calls_okD [OF co c]
  have "b' < NBUF" using K(2) by (simp add: call_ok_def)
  moreover have "b = b'" using K(2) calculation by (simp add: b_def call_ok_def unat_of_nat)
  ultimately show b: "b < NBUF" by simp
  note bb = \<open>b = b'\<close>
  show "h < NUM" using K(1) by (auto simp: NUM_def)
  have m: "bc_meta (v_cache ?v) ! i = (if i = b then (bc_meta (v_cache v) ! b)\<lparr>m_disk := False\<rparr> else bc_meta (v_cache v) ! i)" for i
    using wf(2) b by (simp add: upd_meta_def nth_list_update)
  have cc: "call_ok (v_disk ?v) (v_cache ?v) k is x y \<longleftrightarrow> call_ok (v_disk v) (v_cache v) k is x y" for k "is" x y
    unfolding call_ok_def m by simp
  have V: "v_calls ?v = v_calls v" "dk_free (v_disk ?v) = dk_free ?d" "v_fetched ?v = v_fetched v" "waiting ?v = waiting v"
    "v_disk ?v = ?d\<lparr>dk_used_idx := dk_used_idx ?d + 1\<rparr>" by (simp_all add: waiting_def)
  have "calls_ok ?v" using co unfolding calls_ok_def V(1,2) cc by blast
  moreover have "queues_ok ?v"
    unfolding queues_ok_def Let_def V(1,3,4,5)
  proof (intro conjI allI impI)
    show "distinct (waiting v @ v_fetched v @ reported (?d\<lparr>dk_used_idx := dk_used_idx ?d + 1\<rparr>))"
      "set (waiting v @ v_fetched v @ reported (?d\<lparr>dk_used_idx := dk_used_idx ?d + 1\<rparr>)) \<subseteq> dom (v_calls v)"
      using Q(1,2) unfolding r by auto
    fix k "is" x y assume k: "v_calls v k = Some (is, x, y)"
    have "x = b \<longleftrightarrow> k = h" using co k c bb unfolding calls_ok_def by (metis option.inject prod.inject)
    then show "m_disk (bc_meta (v_cache ?v) ! x) \<longleftrightarrow> k \<in> set (waiting v @ v_fetched v @ reported (?d\<lparr>dk_used_idx := dk_used_idx ?d + 1\<rparr>))"
      using Q(1) Q(3) [rule_format, OF k] unfolding m r by auto
  qed
  ultimately show "vinv ?v" using v by (simp add: vinv_def upd_meta_def disk_wf_def)
qed

lemma interrupt_spec:
  "vinv v \<Longrightarrow> \<exists>d c s'. interrupt_loop cur (v_disk v) (v_cache v) s = Some (d, c, s') \<and> vinv (v\<lparr>v_disk := d, v_cache := c\<rparr>) \<and>
     bc_data c = bc_data (v_cache v) \<and> bc_disk c = bc_disk (v_cache v) \<and> bc_writes c = bc_writes (v_cache v)"
proof (induction "unat (vu_idx (dk_used (v_disk v)) - dk_used_idx (v_disk v))" arbitrary: v s)
  case 0
  then have "dk_used_idx (v_disk v) = vu_idx (dk_used (v_disk v))" by (simp add: unat_eq_0)
  with 0 show ?case by (subst interrupt_loop.simps) simp
next
  case (Suc n)
  then have ne: "dk_used_idx (v_disk v) \<noteq> vu_idx (dk_used (v_disk v))" by auto
  note S = vinv_seen [OF Suc.prems ne]
  let ?b = "unat (in_buf_id (dk_info (v_disk v) ! unat (ue_id (vu_ring (dk_used (v_disk v)) ! (unat (dk_used_idx (v_disk v)) mod NUM)))))"
  let ?v = "v\<lparr>v_disk := (v_disk v)\<lparr>dk_used_idx := dk_used_idx (v_disk v) + 1\<rparr>, v_cache := upd_meta ?b (\<lambda>m. m\<lparr>m_disk := False\<rparr>) (v_cache v)\<rparr>"
  have "n = unat (vu_idx (dk_used (v_disk ?v)) - dk_used_idx (v_disk ?v))" using Suc.hyps(2) counter_pred [OF ne] by simp
  from Suc.hyps(1) [OF this S(3), of "wakeup cur (ChBuffer ?b) s"] show ?case
    using ne S(1,2) by (subst interrupt_loop.simps) (simp add: Let_def not_le upd_meta_def)
qed

text \<open>A call that returns, and one that finds no descriptors.\<close>

lemma free_chain_call:
  assumes "call_ok d c h ids b w" "h = 0 \<or> h = 3" "disk_wf d" "dk_desc d0 = dk_desc d"
  shows "\<exists>s'. free_chain (Suc NUM) fa cur h (d0, s) =
    Some (d0\<lparr>dk_desc := (dk_desc d0)[h := no_desc, h + 1 := no_desc, h + 2 := no_desc], dk_free := (dk_free d0)[h := True, h + 1 := True, h + 2 := True]\<rparr>, s')"
proof -
  have "unat (word_of_nat (h + 1) :: u16) = h + 1" "unat (word_of_nat (h + 2) :: u16) = h + 2" using assms(2) by auto
  moreover have "h + 2 < 8" using assms(2) by auto
  ultimately have "\<exists>s'. free_chain (Suc (Suc (Suc n))) fa cur h (d0, s) =
      Some (d0\<lparr>dk_desc := (dk_desc d0)[h := no_desc, h + 1 := no_desc, h + 2 := no_desc], dk_free := (dk_free d0)[h := True, h + 1 := True, h + 2 := True]\<rparr>, s')" for n
    using assms(1,3,4) by (simp add: call_ok_def free_desc_def virtio_values disk_wf_def)
  moreover have "Suc NUM = Suc (Suc (Suc 6))" by (simp add: NUM_def)
  ultimately show ?thesis by metis
qed

lemma vinv_done:
  assumes v: "vinv v" and c: "v_calls v h = Some (ids, b, w)" and m: "\<not> m_disk (bc_meta (v_cache v) ! b)"
  shows "\<exists>d s'. rw_wait fa cur ids b (v_disk v) (v_cache v) s = Some (True, d, s') \<and> vinv (v\<lparr>v_disk := d, v_calls := (v_calls v)(h := None)\<rparr>)"
proof -
  have wf: "disk_wf (v_disk v)" and co: "calls_ok v" and qo: "queues_ok v" using v by (simp_all add: vinv_def)
  note K = calls_okD [OF co c]
  have ids: "ids = [h, h + 1, h + 2]" using K(2) by (simp add: call_ok_def)
  let ?d0 = "(v_disk v)\<lparr>dk_info := (dk_info (v_disk v))[h := (dk_info (v_disk v) ! h)\<lparr>in_buf_id := - 1\<rparr>]\<rparr>"
  let ?d1 = "?d0\<lparr>dk_desc := (dk_desc ?d0)[h := no_desc, h + 1 := no_desc, h + 2 := no_desc], dk_free := (dk_free ?d0)[h := True, h + 1 := True, h + 2 := True]\<rparr>"
  have "dk_desc ?d0 = dk_desc (v_disk v)" by simp
  from free_chain_call [OF K(2,1) wf this] obtain s' where s': "free_chain (Suc NUM) fa (Some cur) h (?d0, s) = Some (?d1, s')" by blast
  have run: "rw_wait fa cur ids b (v_disk v) (v_cache v) s = Some (True, ?d1, s')"
    using m s' by (simp add: rw_wait_def ids Let_def del: free_chain.simps)
  let ?v = "v\<lparr>v_disk := ?d1, v_calls := (v_calls v)(h := None)\<rparr>"
  have V: "v_calls ?v = (v_calls v)(h := None)" "v_cache ?v = v_cache v" "v_disk ?v = ?d1" "v_fetched ?v = v_fetched v" "waiting ?v = waiting v" "reported ?d1 = reported (v_disk v)"
    by (simp_all add: waiting_def reported_def)
  have A1: "call_ok ?d1 (v_cache v) k is x y" if "v_calls ?v k = Some (is, x, y)" for k "is" x y
  proof -
    have k: "k \<noteq> h" "v_calls v k = Some (is, x, y)" using that by (auto split: if_splits)
    note K' = calls_okD [OF co k(2)]
    show ?thesis using K K' k(1) by (intro call_ok_cong [OF K'(2)]) auto
  qed
  have A2: "dom (v_calls ?v) \<subseteq> {0, 3}" using co unfolding calls_ok_def V(1) by auto
  have A3: "k = j" if "v_calls ?v k = Some (is, x, y)" "v_calls ?v j = Some (is', x, y')" for k j "is" is' x y y'
    using that co unfolding calls_ok_def V(1) by (metis fun_upd_apply option.distinct(1))
  have A4: "dk_free ?d1 = (let x = v_calls ?v 0 = None; y = v_calls ?v 3 = None in [x, x, x, y, y, y, True, True])"
  proof -
    have "dk_free (v_disk v) = (let x = v_calls v 0 = None; y = v_calls v 3 = None in [x, x, x, y, y, y, True, True])" using co by (simp add: calls_ok_def)
    then show ?thesis using K(1) by (auto simp: Let_def)
  qed
  have "calls_ok ?v" unfolding calls_ok_def V(2,3) by (intro conjI allI impI A2 A4) (erule A1, erule (1) A3)
  moreover have "h \<notin> set (waiting v @ v_fetched v @ reported (v_disk v))" using qo m c unfolding queues_ok_def Let_def by blast
  then have "queues_ok ?v" using qo unfolding queues_ok_def Let_def V by (auto simp: fun_upd_apply)
  ultimately have "vinv ?v" using v by (simp add: vinv_def disk_wf_def)
  with run show ?thesis by blast
qed

text \<open>What starting a request does, in the three states of the descriptor table.\<close>

lemma rw_start_alloc:
  "alloc3_desc fa (Some cur) (d, s) = Some (Ok ids, d1, s1) \<Longrightarrow>
     rw_start fa cur buf w d c s = Some (Some (ids, VIRTIO_MMIO_QUEUE_NOTIFY, 0),
       publish (ids ! 0) (format_request ids buf w (ucast (m_block_no (bc_meta c ! buf)) * 2) d1), upd_meta buf (\<lambda>m. m\<lparr>m_disk := True\<rparr>) c, s1)"
  "alloc3_desc fa (Some cur) (d, s) = Some (Err e, d1, s1) \<Longrightarrow>
     rw_start fa cur buf w d c s = Some (None, d1, c, sleep_enter cur (ChBuffer fa) s1)"
  by (simp_all add: rw_start_def BSIZE_def)

lemma rw_start_spec:
  assumes v: "vinv v" and b: "buf < NBUF" "\<forall>k ids b w. v_calls v k = Some (ids, b, w) \<longrightarrow> b \<noteq> buf"
  shows "if v_calls v 0 \<noteq> None \<and> v_calls v 3 \<noteq> None
    then \<exists>d s'. rw_start fa cur buf w (v_disk v) (v_cache v) s = Some (None, d, v_cache v, sleep_enter cur (ChBuffer fa) s') \<and> vinv (v\<lparr>v_disk := d\<rparr>)
    else \<exists>h d c. rw_start fa cur buf w (v_disk v) (v_cache v) s = Some (Some ([h, h + 1, h + 2], VIRTIO_MMIO_QUEUE_NOTIFY, 0), d, c, s) \<and>
      bc_data c = bc_data (v_cache v) \<and> bc_disk c = bc_disk (v_cache v) \<and> bc_writes c = bc_writes (v_cache v) \<and>
      vinv (v\<lparr>v_disk := d, v_cache := c, v_calls := (v_calls v)(h := Some ([h, h + 1, h + 2], buf, w))\<rparr>)"
proof -
  have wf: "disk_wf (v_disk v)" and co: "calls_ok v" and qo: "queues_ok v" using v by (simp_all add: vinv_def)
  have fr: "dk_free (v_disk v) = (let x = v_calls v 0 = None; y = v_calls v 3 = None in [x, x, x, y, y, y, True, True])" using co by (simp add: calls_ok_def)
  consider "v_calls v 0 = None" | "v_calls v 0 \<noteq> None" "v_calls v 3 = None" | "v_calls v 0 \<noteq> None" "v_calls v 3 \<noteq> None" by blast
  then show ?thesis
  proof cases
    case 1
    let ?y = "v_calls v 3 = None"
    have "dk_free (v_disk v) = [True, True, True, ?y, ?y, ?y, True, True]" using 1 by (simp add: fr Let_def)
    note R = rw_start_alloc(1) [OF alloc3_first [OF this, of fa "Some cur" s], of buf w "v_cache v"]
    from vinv_start [OF v _ 1 b, of w] have "vinv (v\<lparr>
        v_disk := publish 0 (format_request [0, 1, 2] buf w (ucast (m_block_no (bc_meta (v_cache v) ! buf)) * 2)
          (v_disk v\<lparr>dk_free := [False, False, False, ?y, ?y, ?y, True, True]\<rparr>)),
        v_cache := upd_meta buf (\<lambda>m. m\<lparr>m_disk := True\<rparr>) (v_cache v), v_calls := (v_calls v)(0 := Some ([0, 1, 2], buf, w))\<rparr>)"
      by (simp add: Let_def numeral_2_eq_2)
    with R 1 show ?thesis by (auto intro!: exI [of _ 0] simp: upd_meta_def numeral_2_eq_2)
  next
    case 2
    have "dk_free (v_disk v) = [False, False, False, True, True, True, True, True]" using 2 by (simp add: fr Let_def)
    note R = rw_start_alloc(1) [OF alloc3_second [OF this, of fa "Some cur" s], of buf w "v_cache v"]
    from vinv_start [OF v _ 2(2) b, of w] 2 have "vinv (v\<lparr>
        v_disk := publish 3 (format_request [3, 4, 5] buf w (ucast (m_block_no (bc_meta (v_cache v) ! buf)) * 2)
          (v_disk v\<lparr>dk_free := [False, False, False, False, False, False, True, True]\<rparr>)),
        v_cache := upd_meta buf (\<lambda>m. m\<lparr>m_disk := True\<rparr>) (v_cache v), v_calls := (v_calls v)(3 := Some ([3, 4, 5], buf, w))\<rparr>)"
      by (simp add: Let_def)
    with R 2 show ?thesis by (auto intro!: exI [of _ 3] simp: upd_meta_def)
  next
    case 3
    have f: "dk_free (v_disk v) = [False, False, False, False, False, False, True, True]" using 3 by (simp add: fr Let_def)
    from alloc3_full [OF this, of fa "Some cur" s] obtain s' where
      "alloc3_desc fa (Some cur) (v_disk v, s) = Some (Err VirtioAlloc, v_disk v\<lparr>dk_desc := (dk_desc (v_disk v))[6 := no_desc, 7 := no_desc], dk_free := dk_free (v_disk v)\<rparr>, s')"
      unfolding f by blast
    note R = rw_start_alloc(2) [OF this, of buf w "v_cache v"]
    let ?v = "v\<lparr>v_disk := v_disk v\<lparr>dk_desc := (dk_desc (v_disk v))[6 := no_desc, 7 := no_desc], dk_free := dk_free (v_disk v)\<rparr>\<rparr>"
    have V: "v_calls ?v = v_calls v" "v_cache ?v = v_cache v" "dk_free (v_disk ?v) = dk_free (v_disk v)" "v_fetched ?v = v_fetched v"
      "waiting ?v = waiting v" "reported (v_disk ?v) = reported (v_disk v)" by (simp_all add: waiting_def reported_def)
    have "call_ok (v_disk ?v) (v_cache v) k is x y" if "v_calls v k = Some (is, x, y)" for k "is" x y
      using calls_okD [OF co that] by (intro call_ok_cong [OF calls_okD(2) [OF co that]]) auto
    then have "calls_ok ?v" using co unfolding calls_ok_def V by blast
    moreover have "queues_ok ?v" using qo unfolding queues_ok_def V by blast
    ultimately have "vinv ?v" using v by (simp add: vinv_def disk_wf_def)
    with R 3 show ?thesis by auto
  qed
qed

lemma rw_transfer: "rw b w c = transfer b w (m_block_no (bc_meta c ! b)) c"
  by (simp add: rw_def transfer_def Let_def)

lemma device_step:
  assumes "virtio_device D" "vinv v" "D v v'"
  shows "vinv v' \<and> (v_cache v' = v_cache v \<or> (\<exists>h ids b w. v_calls v h = Some (ids, b, w) \<and> h \<in> set (v_fetched v) \<and>
    v_cache v' = rw b w (v_cache v) \<and> h \<notin> set (waiting v' @ v_fetched v')))"
proof -
  from assms(1,3) have "v_last v \<noteq> va_idx (dk_avail (v_disk v)) \<and> v' = dev_fetch v \<or>
     (\<exists>h len. h \<in> set (v_fetched v) \<and> (case chain_request (v_disk v) h of Some r \<Rightarrow> v' = dev_complete h len r v | None \<Rightarrow> True))"
    by (simp add: virtio_device_def)
  then show ?thesis
  proof (elim disjE exE conjE)
    assume "v_last v \<noteq> va_idx (dk_avail (v_disk v))" "v' = dev_fetch v"
    then show ?thesis using vinv_fetch [OF assms(2)] by (simp add: dev_fetch_def)
  next
    fix h len assume h: "h \<in> set (v_fetched v)" and r: "case chain_request (v_disk v) h of Some r \<Rightarrow> v' = dev_complete h len r v | None \<Rightarrow> True"
    from vinv_complete [OF assms(2) h, of len] obtain ids b w where
      k: "v_calls v h = Some (ids, b, w)" "chain_request (v_disk v) h = Some (b, w, m_block_no (bc_meta (v_cache v) ! b), h)"
        "vinv (dev_complete h len (b, w, m_block_no (bc_meta (v_cache v) ! b), h) v)"
        "h \<notin> set (waiting (dev_complete h len (b, w, m_block_no (bc_meta (v_cache v) ! b), h) v) @ remove1 h (v_fetched v))" by blast
    have e: "v' = dev_complete h len (b, w, m_block_no (bc_meta (v_cache v) ! b), h) v" using r k(2) by simp
    have "v_cache v' = rw b w (v_cache v)" "v_fetched v' = remove1 h (v_fetched v)" by (simp_all add: e dev_complete_def Let_def rw_transfer)
    then show ?thesis using k h unfolding e [symmetric] by auto
  qed
qed

lemma vstep_inv:
  assumes "vstep D v v'" "virtio_device D" "vinv v"
  shows "vinv v'"
  using assms(1)
proof cases
  case (vs_start buf fa cur w s ids n d c s')
  show ?thesis using rw_start_spec [OF assms(3) vs_start(2,3), of fa cur w s] vs_start(1,4) by (auto split: if_splits)
next
  case (vs_full buf fa cur w s d c s')
  show ?thesis using rw_start_spec [OF assms(3) vs_full(2,3), of fa cur w s] vs_full(1,4) by (auto split: if_splits)
next
  case vs_device
  then show ?thesis using device_step [OF assms(2,3)] by blast
next
  case (vs_intr reg cur s a d c s')
  then show ?thesis using interrupt_spec [OF assms(3), of cur s] by (auto simp: disk_interrupt_def)
next
  case (vs_done h ids b w fa cur s d s')
  have "\<not> m_disk (bc_meta (v_cache v) ! b)" using vs_done(3) by (auto simp: rw_wait_def)
  from vinv_done [OF assms(3) vs_done(2) this, of fa cur s] vs_done show ?thesis by auto
next
  case (vs_other c)
  let ?v = "v\<lparr>v_cache := c\<rparr>"
  have co: "calls_ok v" and qo: "queues_ok v" using assms(3) by (simp_all add: vinv_def)
  have V: "v_calls ?v = v_calls v" "v_disk ?v = v_disk v" "v_fetched ?v = v_fetched v" "waiting ?v = waiting v" "v_cache ?v = c" by (simp_all add: waiting_def)
  have c': "call_ok (v_disk v) c k is x y" if "v_calls v k = Some (is, x, y)" for k "is" x y
    using calls_okD [OF co that] vs_other(6) that by (intro call_ok_cong [OF calls_okD(2) [OF co that]]) auto
  then have "calls_ok ?v" using co unfolding calls_ok_def V by blast
  moreover have "m_disk (bc_meta c ! x) = m_disk (bc_meta (v_cache v) ! x)" if "v_calls v k = Some (is, x, y)" for k "is" x y
    using c' [OF that] vs_other(5) by (simp add: call_ok_def)
  then have "queues_ok ?v" using qo unfolding queues_ok_def V Let_def by auto
  ultimately show ?thesis using assms(3) vs_other(1-3) by (simp add: vinv_def)
qed

lemma vinit_inv:
  assumes "length (bc_meta c) = NBUF" "length (bc_data c) = NBUF"
  shows "vinv (vinit c)"
proof -
  have "dk_free disk_new = [True, True, True, True, True, True, True, True]" by (simp add: disk_new_def virtio_values numeral_eq_Suc)
  then have "calls_ok (vinit c)" by (simp add: vinit_def calls_ok_def)
  moreover have "disk_wf disk_new" by (simp add: disk_new_def disk_wf_def)
  moreover have "waiting (vinit c) = []" "reported disk_new = []" by (simp_all add: vinit_def disk_new_def waiting_def reported_def ring_list_def)
  then have "queues_ok (vinit c)" by (simp add: queues_ok_def vinit_def)
  ultimately show ?thesis using assms by (simp add: vinv_def vinit_def)
qed

lemma vsteps_inv:
  "(vstep D)\<^sup>*\<^sup>* (vinit c) v \<Longrightarrow> virtio_device D \<Longrightarrow> length (bc_meta c) = NBUF \<Longrightarrow> length (bc_data c) = NBUF \<Longrightarrow> vinv v"
  by (induction rule: rtranclp_induct) (auto intro: vinit_inv vstep_inv)

text \<open>
  Property C14.  The disk driver moves the right block for every request, for any device that follows the
  protocol and in any interleaving of requests by several processes, device activity and interrupts.  In
  every reachable state: the interrupt handler does not panic and touches no data; whatever the device does
  next, it leaves the buffers and the disk alone or has exactly the effect of the transfer (buffer, block,
  direction) of a request in progress, which it then no longer works on; a process waiting in \<open>rw\<close> returns
  only when the device has finished its request, and then succeeds in freeing its descriptors; and a new
  request does not panic and goes to sleep only if two requests are in progress.
\<close>

theorem driver_refines_transfer:
  assumes "virtio_device D" "length (bc_meta c) = NBUF" "length (bc_data c) = NBUF" "(vstep D)\<^sup>*\<^sup>* (vinit c) v"
  shows "(\<exists>a d' c' s'. disk_interrupt reg cur (v_disk v) (v_cache v) s = Some (a, d', c', s') \<and>
      bc_data c' = bc_data (v_cache v) \<and> bc_disk c' = bc_disk (v_cache v) \<and> bc_writes c' = bc_writes (v_cache v)) \<and>
    (\<forall>v'. D v v' \<longrightarrow> v_cache v' = v_cache v \<or>
      (\<exists>h ids b w. v_calls v h = Some (ids, b, w) \<and> h \<in> set (v_fetched v) \<and> v_cache v' = rw b w (v_cache v) \<and> h \<notin> set (waiting v' @ v_fetched v'))) \<and>
    (\<forall>h ids b w. v_calls v h = Some (ids, b, w) \<longrightarrow>
      (if m_disk (bc_meta (v_cache v) ! b) then rw_wait fa p ids b (v_disk v) (v_cache v) s = Some (False, v_disk v, sleep_enter p (ChBuffer b) s)
       else h \<notin> set (waiting v @ v_fetched v) \<and> (\<exists>d' s'. rw_wait fa p ids b (v_disk v) (v_cache v) s = Some (True, d', s')))) \<and>
    (\<forall>buf w. buf < NBUF \<longrightarrow> (\<forall>h ids b w. v_calls v h = Some (ids, b, w) \<longrightarrow> b \<noteq> buf) \<longrightarrow>
      (\<exists>r d' c' s'. rw_start fa p buf w (v_disk v) (v_cache v) s = Some (r, d', c', s') \<and> (r = None \<longleftrightarrow> v_calls v 0 \<noteq> None \<and> v_calls v 3 \<noteq> None)))"
proof (intro conjI)
  have v: "vinv v" using vsteps_inv [OF assms(4,1-3)] .
  show "\<exists>a d' c' s'. disk_interrupt reg cur (v_disk v) (v_cache v) s = Some (a, d', c', s') \<and>
      bc_data c' = bc_data (v_cache v) \<and> bc_disk c' = bc_disk (v_cache v) \<and> bc_writes c' = bc_writes (v_cache v)"
    using interrupt_spec [OF v, of cur s] by (auto simp: disk_interrupt_def)
  show "\<forall>v'. D v v' \<longrightarrow> v_cache v' = v_cache v \<or>
      (\<exists>h ids b w. v_calls v h = Some (ids, b, w) \<and> h \<in> set (v_fetched v) \<and> v_cache v' = rw b w (v_cache v) \<and> h \<notin> set (waiting v' @ v_fetched v'))"
    using device_step [OF assms(1) v] by blast
  have "h \<notin> set (waiting v @ v_fetched v)" if "v_calls v h = Some (ids, b, w)" "\<not> m_disk (bc_meta (v_cache v) ! b)" for h ids b w
    using v that unfolding vinv_def queues_ok_def Let_def by fastforce
  then have W: "if m_disk (bc_meta (v_cache v) ! b) then rw_wait fa p ids b (v_disk v) (v_cache v) s = Some (False, v_disk v, sleep_enter p (ChBuffer b) s)
       else h \<notin> set (waiting v @ v_fetched v) \<and> (\<exists>d' s'. rw_wait fa p ids b (v_disk v) (v_cache v) s = Some (True, d', s'))"
    if "v_calls v h = Some (ids, b, w)" for h ids b w
    using vinv_done [OF v that, of fa p s] that by (cases "m_disk (bc_meta (v_cache v) ! b)") (simp_all only: if_True if_False, simp add: rw_wait_def, blast)
  then show "\<forall>h ids b w. v_calls v h = Some (ids, b, w) \<longrightarrow>
      (if m_disk (bc_meta (v_cache v) ! b) then rw_wait fa p ids b (v_disk v) (v_cache v) s = Some (False, v_disk v, sleep_enter p (ChBuffer b) s)
       else h \<notin> set (waiting v @ v_fetched v) \<and> (\<exists>d' s'. rw_wait fa p ids b (v_disk v) (v_cache v) s = Some (True, d', s')))"
    by blast
  show "\<forall>buf w. buf < NBUF \<longrightarrow> (\<forall>h ids b w. v_calls v h = Some (ids, b, w) \<longrightarrow> b \<noteq> buf) \<longrightarrow>
      (\<exists>r d' c' s'. rw_start fa p buf w (v_disk v) (v_cache v) s = Some (r, d', c', s') \<and> (r = None \<longleftrightarrow> v_calls v 0 \<noteq> None \<and> v_calls v 3 \<noteq> None))"
  proof (intro allI impI)
    fix buf w assume b: "buf < NBUF" "\<forall>h ids b w. v_calls v h = Some (ids, b, w) \<longrightarrow> b \<noteq> buf"
    note S = rw_start_spec [OF v b, of fa p w s]
    show "\<exists>r d' c' s'. rw_start fa p buf w (v_disk v) (v_cache v) s = Some (r, d', c', s') \<and> (r = None \<longleftrightarrow> v_calls v 0 \<noteq> None \<and> v_calls v 3 \<noteq> None)"
    proof (cases "v_calls v 0 \<noteq> None \<and> v_calls v 3 \<noteq> None")
      case True
      then show ?thesis using S [unfolded if_P [OF True]] by blast
    next
      case False
      then show ?thesis using S [unfolded if_not_P [OF False]] by blast
    qed
  qed
qed

definition example_device :: "VState \<Rightarrow> VState \<Rightarrow> bool" where
  "example_device v v' \<longleftrightarrow> v_last v \<noteq> va_idx (dk_avail (v_disk v)) \<and> v' = dev_fetch v \<or>
     (\<exists>h r. h \<in> set (v_fetched v) \<and> chain_request (v_disk v) h = Some r \<and> v' = dev_complete h 1 r v)"

theorem driver_refines_transfer_witness:
  "virtio_device example_device \<and>
   (\<exists>v v' a d' c' s'. (vstep example_device)\<^sup>*\<^sup>* (vinit (bcache_init (bcache_new (\<lambda>_. replicate BSIZE 7)))) v \<and> v_calls v 0 = Some ([0, 1, 2], 3, False) \<and>
     example_device v v' \<and> (v_cache v' = v_cache v \<or> (\<exists>h ids b w. v_calls v h = Some (ids, b, w) \<and> v_cache v' = rw b w (v_cache v))) \<and>
     disk_interrupt (\<lambda>_. 1) None (v_disk v) (v_cache v) proc_table_new = Some (a, d', c', s'))"
proof -
  let ?c = "bcache_init (bcache_new (\<lambda>_. replicate BSIZE 7))"
  have D: "virtio_device example_device" by (fastforce simp: virtio_device_def example_device_def)
  have c: "length (bc_meta ?c) = NBUF" "length (bc_data ?c) = NBUF" by (simp_all add: bcache_init_def bcache_new_def)
  have no: "\<forall>h ids b w. v_calls (vinit ?c) h = Some (ids, b, w) \<longrightarrow> b \<noteq> 3" by (simp add: vinit_def)
  from alloc3_first [of disk_new True True True 0 "Some 0" proc_table_new] have "alloc3_desc 0 (Some 0) (disk_new, proc_table_new) =
      Some (Ok [0, 1, 2], disk_new\<lparr>dk_free := [False, False, False, True, True, True, True, True]\<rparr>, proc_table_new)"
    by (simp add: disk_new_def virtio_values numeral_eq_Suc)
  note S = rw_start_alloc(1) [OF this, of 3 False ?c]
  let ?d = "publish 0 (format_request [0, 1, 2] 3 False (ucast (m_block_no (bc_meta ?c ! 3)) * 2) (disk_new\<lparr>dk_free := [False, False, False, True, True, True, True, True]\<rparr>))"
  let ?v = "(vinit ?c)\<lparr>v_disk := ?d, v_cache := upd_meta 3 (\<lambda>m. m\<lparr>m_disk := True\<rparr>) ?c, v_calls := (v_calls (vinit ?c))(0 := Some ([0, 1, 2], 3, False))\<rparr>"
  have "vstep example_device (vinit ?c) ?v"
    using vs_start [OF _ no, of 0 0 False proc_table_new "[0, 1, 2]" _ ?d _ proc_table_new example_device] S by (simp add: vinit_def)
  then have st: "(vstep example_device)\<^sup>*\<^sup>* (vinit ?c) ?v" by blast
  have e: "example_device ?v (dev_fetch ?v)"
    by (simp add: example_device_def vinit_def publish_def format_request_def disk_new_def Let_def)
  note T = driver_refines_transfer [OF D c st, of "\<lambda>_. 1" None proc_table_new 0 0]
  from T e have "v_cache (dev_fetch ?v) = v_cache ?v \<or> (\<exists>h ids b w. v_calls ?v h = Some (ids, b, w) \<and> v_cache (dev_fetch ?v) = rw b w (v_cache ?v))" by blast
  moreover from T obtain a d' c' s' where "disk_interrupt (\<lambda>_. 1) None (v_disk ?v) (v_cache ?v) proc_table_new = Some (a, d', c', s')" by blast
  moreover have "v_calls ?v 0 = Some ([0, 1, 2], 3, False)" by simp
  ultimately show ?thesis using D st e by blast
qed

text \<open>Descriptor allocation as an instance of the general contract.\<close>

interpretation vd: slot_alloc "\<lambda>d. length (dk_free d) = NUM" NUM "\<lambda>d i. dk_free d ! i" "\<lambda>d. case alloc_desc d of (Ok i, d') \<Rightarrow> Some (i, d') | (Err _, _) \<Rightarrow> None"
proof
  fix d d' :: Disk and i :: nat
  assume l: "length (dk_free d) = NUM"
  { assume a: "(case alloc_desc d of (Ok i, d') \<Rightarrow> Some (i, d') | (Err _, _) \<Rightarrow> None) = Some (i, d')"
    then have f: "find_index (\<lambda>free. free) (dk_free d) = Some i" "d' = d\<lparr>dk_free := (dk_free d)[i := False]\<rparr>"
      by (auto simp: alloc_desc_def split: option.splits)
    from find_index_SomeD [OF f(1)] l f(2)
    show "length (dk_free d') = NUM \<and> i < NUM \<and> dk_free d ! i \<and> (\<forall>j<i. \<not> dk_free d ! j) \<and> (\<forall>j<NUM. dk_free d' ! j = (dk_free d ! j \<and> j \<noteq> i))"
      by (auto simp: nth_list_update) }
  show "((case alloc_desc d of (Ok i, d') \<Rightarrow> Some (i, d') | (Err _, _) \<Rightarrow> None) = None) = (\<forall>i<NUM. \<not> dk_free d ! i)"
    using l find_index_None_iff [of "\<lambda>free. free" "dk_free d"] by (auto simp: alloc_desc_def split: option.splits)
qed

end
