(* ===== verification/Log.thy ===== *)
theory Log
  imports Bcache Sched
begin

text \<open>
  The write-ahead log (\<open>kernel/src/log.rs\<close>).  A transaction pins the blocks it modifies in the cache
  and remembers their numbers; the commit copies them to the log area of the disk, writes the header,
  which is the commit point, and installs them.  Recovery repeats the installation.

  The commit runs when no file system call is active, so it is modelled as one thread over the cache.
\<close>

section \<open>32-bit fields in a block\<close>

definition rd32 :: "u8 list \<Rightarrow> nat \<Rightarrow> u32" where
  "rd32 d off = word_of_nat (of_le (slice d off 4))"

definition wr32 :: "u8 list \<Rightarrow> nat \<Rightarrow> u32 \<Rightarrow> u8 list" where
  "wr32 d off x = splice d off (le_bytes 4 (unat x))"

lemma length_wr32 [simp]: "off + 4 \<le> length d \<Longrightarrow> length (wr32 d off x) = length d"
  by (simp add: wr32_def)

lemma rd32_wr32 [simp]: "off + 4 \<le> length d \<Longrightarrow> rd32 (wr32 d off x) off = x"
proof -
  assume "off + 4 \<le> length d"
  then have "slice (wr32 d off x) off 4 = le_bytes 4 (unat x)"
    using slice_splice_same [of off "le_bytes 4 (unat x)" d] by (simp add: wr32_def)
  moreover have "of_le (le_bytes 4 (unat x)) = unat x"
    using unsigned_less [of x] by (intro of_le_bytes) simp
  ultimately show ?thesis by (simp add: rd32_def)
qed

lemma rd32_wr32_other:
  "off + 4 \<le> length d \<Longrightarrow> k + 4 \<le> length d \<Longrightarrow> k + 4 \<le> off \<or> off + 4 \<le> k \<Longrightarrow> rd32 (wr32 d off x) k = rd32 d k"
  using slice_splice_disjoint [of off "le_bytes 4 (unat x)" d k 4] by (simp add: rd32_def wr32_def)

section \<open>Definitions\<close>

record LogInner =
  l_start :: u32
  l_size :: u32
  l_outstanding :: u32
  l_committing :: bool
  l_dev :: u32
  l_n :: u32
  l_blocks :: "u32 list"

definition log_new :: LogInner where
  "log_new = \<lparr>l_start = 0, l_size = 0, l_outstanding = 0, l_committing = False, l_dev = 0, l_n = 0,
     l_blocks = replicate LOGBLOCKS 0\<rparr>"

definition log_block :: "LogInner \<Rightarrow> nat \<Rightarrow> u32" where
  "log_block l tail = l_start l + word_of_nat tail + 1"

definition install_one :: "bool \<Rightarrow> LogInner \<Rightarrow> nat \<Rightarrow> BCache \<Rightarrow> BCache option" where
  "install_one recovering l tail c = do {
     let block = l_blocks l ! tail;
     (lbuf, c) \<leftarrow> bread (l_dev l) (log_block l tail) c;
     (dbuf, c) \<leftarrow> bread (l_dev l) block c;
     let c = set_buf_data dbuf (buf_data lbuf c) c;
     let c = bwrite dbuf c;
     let c = (if recovering then c else bunpin dbuf c);
     Some (brelease dbuf (brelease lbuf c))
   }"

definition install_trans :: "bool \<Rightarrow> LogInner \<Rightarrow> BCache \<Rightarrow> BCache option" where
  "install_trans recovering l c = foldO (install_one recovering l) [0..<unat (l_n l)] c"

text \<open>\<open>header.blocks\<close> has room for \<open>LOGBLOCKS\<close> entries; more on disk is an index panic.\<close>

definition read_head :: "LogInner \<Rightarrow> BCache \<Rightarrow> (LogInner \<times> BCache) option" where
  "read_head l c = do {
     (buf, c) \<leftarrow> bread (l_dev l) (l_start l) c;
     let d = buf_data buf c;
     let n = rd32 d 0;
     assert_that (unat n \<le> LOGBLOCKS);
     let l = l\<lparr>l_n := n, l_blocks := map (\<lambda>i. rd32 d (4 + 4 * i)) [0..<unat n] @ drop (unat n) (l_blocks l)\<rparr>;
     Some (l, brelease buf c)
   }"

definition put_header :: "LogInner \<Rightarrow> u8 list \<Rightarrow> u8 list" where
  "put_header l d = foldl (\<lambda>d i. wr32 d (4 + 4 * i) (l_blocks l ! i)) (wr32 d 0 (l_n l)) [0..<unat (l_n l)]"

definition write_head :: "LogInner \<Rightarrow> BCache \<Rightarrow> BCache option" where
  "write_head l c = do {
     (buf, c) \<leftarrow> bread (l_dev l) (l_start l) c;
     let c = set_buf_data buf (put_header l (buf_data buf c)) c;
     let c = bwrite buf c;
     Some (brelease buf c)
   }"

definition write_log_one :: "LogInner \<Rightarrow> nat \<Rightarrow> BCache \<Rightarrow> BCache option" where
  "write_log_one l tail c = do {
     let block = l_blocks l ! tail;
     (to, c) \<leftarrow> bread (l_dev l) (log_block l tail) c;
     (from, c) \<leftarrow> bread (l_dev l) block c;
     let c = set_buf_data to (buf_data from c) c;
     let c = bwrite to c;
     Some (brelease from (brelease to c))
   }"

definition write_log :: "LogInner \<Rightarrow> BCache \<Rightarrow> BCache option" where
  "write_log l c = foldO (write_log_one l) [0..<unat (l_n l)] c"

definition commit :: "LogInner \<Rightarrow> BCache \<Rightarrow> (LogInner \<times> BCache) option" where
  "commit l c =
     (if 0 < l_n l then do {
        c \<leftarrow> write_log l c;
        c \<leftarrow> write_head l c;
        c \<leftarrow> install_trans False l c;
        let l = l\<lparr>l_n := 0\<rparr>;
        c \<leftarrow> write_head l c;
        Some (l, c)
      } else Some (l, c))"

text \<open>One round of the loop of \<open>begin_op\<close>; \<open>False\<close> when the process goes to sleep.\<close>

definition begin_op :: "nat \<Rightarrow> LogInner \<Rightarrow> Sched \<Rightarrow> bool \<times> LogInner \<times> Sched" where
  "begin_op cur l s =
     (if l_committing l then (False, l, sleep_enter cur ChLog s)
      else if unat (l_n l) + (unat (l_outstanding l) + 1) * MAXOPBLOCKS > LOGBLOCKS
      then (False, l, sleep_enter cur ChLog s)
      else (True, l\<lparr>l_outstanding := l_outstanding l + 1\<rparr>, s))"

definition end_op :: "nat option \<Rightarrow> LogInner \<Rightarrow> BCache \<Rightarrow> Sched \<Rightarrow> (LogInner \<times> BCache \<times> Sched) option" where
  "end_op cur l c s = do {
     let l = l\<lparr>l_outstanding := l_outstanding l - 1\<rparr>;
     assert_that (\<not> l_committing l);
     if l_outstanding l = 0 then do {
       (l, c) \<leftarrow> commit (l\<lparr>l_committing := True\<rparr>) c;
       Some (l\<lparr>l_committing := False\<rparr>, c, wakeup cur ChLog s)
     } else Some (l, c, wakeup cur ChLog s)
   }"

definition log_write :: "nat \<Rightarrow> LogInner \<Rightarrow> BCache \<Rightarrow> (LogInner \<times> BCache) option" where
  "log_write buf l c = do {
     assert_that (\<not> (unat (l_n l) \<ge> LOGBLOCKS \<or> l_n l \<ge> l_size l - 1));
     assert_that (\<not> l_outstanding l < 1);
     let block_no = m_block_no (bc_meta c ! buf);
     let n = unat (l_n l);
     let i = (case find_index (\<lambda>b. b = block_no) (take n (l_blocks l)) of Some i \<Rightarrow> i | None \<Rightarrow> n);
     let l = l\<lparr>l_blocks := (l_blocks l)[i := block_no]\<rparr>;
     if i = n then Some (l\<lparr>l_n := l_n l + 1\<rparr>, bpin buf c) else Some (l, c)
   }"

definition recover_from_log :: "LogInner \<Rightarrow> BCache \<Rightarrow> (LogInner \<times> BCache) option" where
  "recover_from_log l c = do {
     (l, c) \<leftarrow> read_head l c;
     c \<leftarrow> install_trans True l c;
     let l = l\<lparr>l_n := 0\<rparr>;
     c \<leftarrow> write_head l c;
     Some (l, c)
   }"

definition log_init :: "u32 \<Rightarrow> u32 \<Rightarrow> u32 \<Rightarrow> LogInner \<Rightarrow> BCache \<Rightarrow> (LogInner \<times> BCache) option" where
  "log_init dev logstart nlogs l c =
     recover_from_log (l\<lparr>l_start := logstart, l_size := nlogs, l_dev := dev\<rparr>) c"

text \<open>
  The guard around a file system call: dropping it runs the callback of an operation that failed, then
  ends the operation.
\<close>

record Operation =
  op_on_err :: "(BCache \<Rightarrow> BCache) option"
  op_success :: bool

definition operation_begin :: "(BCache \<Rightarrow> BCache) option \<Rightarrow> nat \<Rightarrow> LogInner \<Rightarrow> Sched \<Rightarrow> Operation option \<times> LogInner \<times> Sched" where
  "operation_begin on_err cur l s =
     (case begin_op cur l s of (admitted, l, s) \<Rightarrow>
        (if admitted then Some \<lparr>op_on_err = on_err, op_success = False\<rparr> else None, l, s))"

definition operation_success :: "Operation \<Rightarrow> Operation" where
  "operation_success op = op\<lparr>op_success := True\<rparr>"

definition operation_drop :: "nat option \<Rightarrow> Operation \<Rightarrow> LogInner \<Rightarrow> BCache \<Rightarrow> Sched \<Rightarrow> (LogInner \<times> BCache \<times> Sched) option" where
  "operation_drop cur op l c s =
     end_op cur l (if op_success op then c else case op_on_err op of Some f \<Rightarrow> f c | None \<Rightarrow> c) s"

section \<open>Sequences of block writes\<close>

definition apply_writes :: "(u32 \<times> u8 list) list \<Rightarrow> (u32 \<Rightarrow> u8 list) \<Rightarrow> u32 \<Rightarrow> u8 list" where
  "apply_writes ws f = fold (\<lambda>(b, d) f. f(b := d)) ws f"

lemma apply_writes_simps [simp]:
  "apply_writes [] f = f" "apply_writes ((b, d) # ws) f = apply_writes ws (f(b := d))"
  "apply_writes (xs @ ys) f = apply_writes ys (apply_writes xs f)"
  by (simp_all add: apply_writes_def)

lemma apply_writes_other: "b \<notin> fst ` set ws \<Longrightarrow> apply_writes ws f b = f b"
  by (induction ws arbitrary: f) auto

lemma apply_writes_nth:
  "i < n \<Longrightarrow> (\<forall>j < n. g j = g i \<longrightarrow> h j = h i) \<Longrightarrow> apply_writes (map (\<lambda>j. (g j, h j)) [0..<n]) f (g i) = h i"
proof (induction n)
  case (Suc n)
  show ?case
  proof (cases "g n = g i")
    case True
    then have "h n = h i" using Suc.prems(2) by blast
    with True show ?thesis by simp
  next
    case False
    then have "i < n" using Suc.prems(1) by (metis less_Suc_eq)
    moreover have "\<forall>j < n. g j = g i \<longrightarrow> h j = h i" using Suc.prems(2) by (metis less_SucI)
    ultimately have "apply_writes (map (\<lambda>j. (g j, h j)) [0..<n]) f (g i) = h i" by (rule Suc.IH)
    with False show ?thesis by simp
  qed
qed simp

lemma apply_writes_same: "(\<forall>(b, d) \<in> set ws. f b = d) \<Longrightarrow> apply_writes ws f = f"
proof (induction ws)
  case (Cons w ws)
  obtain b d where "w = (b, d)" by fastforce
  with Cons show ?case by (auto simp: fun_upd_idem)
qed simp

lemma apply_writes_length:
  "(\<forall>(b, d) \<in> set ws. length d = n) \<Longrightarrow> \<forall>b. length (f b) = n \<Longrightarrow> length (apply_writes ws f b) = n"
  by (induction ws arbitrary: f) auto

definition store_writes :: "(u32 \<times> u8 list) list \<Rightarrow> Store \<Rightarrow> Store" where
  "store_writes ws st = st\<lparr>st_view := apply_writes ws (st_view st), st_disk := apply_writes ws (st_disk st), st_writes := st_writes st @ ws\<rparr>"

lemma store_writes_simps [simp]:
  "store_writes [] st = st" "store_install b d (store_writes ws st) = store_writes (ws @ [(b, d)]) st"
  "store_writes ys (store_writes xs st) = store_writes (xs @ ys) st"
  "st_refs (store_writes ws st) = st_refs st" "st_held (store_writes ws st) = st_held st"
  "st_view (store_writes ws st) = apply_writes ws (st_view st)" "st_disk (store_writes ws st) = apply_writes ws (st_disk st)"
  "st_writes (store_writes ws st) = st_writes st @ ws"
  "in_use (store_writes ws st) = in_use st" "can_read cap b (store_writes ws st) \<longleftrightarrow> can_read cap b st"
  by (simp_all add: store_writes_def store_install_def in_use_def can_read_def can_ref_def)

lemma store_install_writes: "store_install b d st = store_writes [(b, d)] st"
  using store_writes_simps(2) [of b d "[]" st] by simp

section \<open>The log area\<close>

definition log_area :: "LogInner \<Rightarrow> u32 set" where
  "log_area l = {b. unat (l_start l) \<le> unat b \<and> unat b < unat (l_start l) + unat (l_size l)}"

definition home :: "LogInner \<Rightarrow> u32 list" where
  "home l = take (unat (l_n l)) (l_blocks l)"

definition log_wf :: "LogInner \<Rightarrow> bool" where
  "log_wf l \<longleftrightarrow> l_dev l \<noteq> 0 \<and> unat (l_start l) + unat (l_size l) < 2 ^ 32 \<and> unat (l_n l) < unat (l_size l) \<and>
     length (l_blocks l) = LOGBLOCKS \<and> unat (l_n l) \<le> LOGBLOCKS \<and> set (home l) \<inter> log_area l = {}"

lemma log_wf_home: "log_wf l \<Longrightarrow> length (home l) = unat (l_n l)" "i < unat (l_n l) \<Longrightarrow> log_wf l \<Longrightarrow> home l ! i = l_blocks l ! i"
  by (simp_all add: log_wf_def home_def)

lemma unat_log_block:
  assumes "log_wf l" "k < unat (l_n l)"
  shows "unat (log_block l k) = unat (l_start l) + k + 1"
proof -
  have b: "unat (l_start l) + k + 1 < 2 ^ 32" using assms by (simp add: log_wf_def)
  then have k: "unat (word_of_nat k :: u32) = k" by (simp add: unat_of_nat)
  have "unat (l_start l + word_of_nat k) = unat (l_start l) + k" using b k by (simp add: unat_word_ariths)
  then show ?thesis using b by (simp add: log_block_def unat_word_ariths)
qed

lemma log_block_facts:
  assumes "log_wf l"
  shows "l_start l \<in> log_area l" "k < unat (l_n l) \<Longrightarrow> log_block l k \<in> log_area l" "k < unat (l_n l) \<Longrightarrow> log_block l k \<noteq> l_start l"
    "k < unat (l_n l) \<Longrightarrow> j < unat (l_n l) \<Longrightarrow> log_block l k = log_block l j \<Longrightarrow> k = j"
    "k < unat (l_n l) \<Longrightarrow> l_blocks l ! k \<notin> log_area l"
proof -
  show "l_start l \<in> log_area l" using assms by (simp add: log_area_def log_wf_def)
  show "log_block l k \<in> log_area l" if "k < unat (l_n l)"
    using unat_log_block [OF assms that] that assms by (simp add: log_area_def log_wf_def)
  show "log_block l k \<noteq> l_start l" if "k < unat (l_n l)"
  proof
    assume "log_block l k = l_start l"
    with unat_log_block [OF assms that] have "unat (l_start l) = unat (l_start l) + k + 1" by (simp only:)
    then show False by simp
  qed
  show "k = j" if "k < unat (l_n l)" "j < unat (l_n l)" "log_block l k = log_block l j"
  proof -
    from unat_log_block [OF assms that(1)] unat_log_block [OF assms that(2)] that(3)
    have "unat (l_start l) + k + 1 = unat (l_start l) + j + 1" by (simp only:)
    then show ?thesis by simp
  qed
  show "l_blocks l ! k \<notin> log_area l" if "k < unat (l_n l)"
  proof -
    have "l_blocks l ! k \<in> set (home l)" using log_wf_home(1) [OF assms] log_wf_home(2) [OF that assms] that by (metis nth_mem)
    then show ?thesis using assms by (auto simp: log_wf_def)
  qed
qed

section \<open>Commit on the block store\<close>

definition log_writes :: "LogInner \<Rightarrow> (u32 \<Rightarrow> u8 list) \<Rightarrow> nat \<Rightarrow> (u32 \<times> u8 list) list" where
  "log_writes l V k = map (\<lambda>j. (log_block l j, V (l_blocks l ! j))) [0..<k]"

definition home_writes :: "LogInner \<Rightarrow> (u32 \<Rightarrow> u8 list) \<Rightarrow> nat \<Rightarrow> (u32 \<times> u8 list) list" where
  "home_writes l V k = map (\<lambda>j. (l_blocks l ! j, V (l_blocks l ! j))) [0..<k]"

lemma log_writes_other: "log_wf l \<Longrightarrow> k \<le> unat (l_n l) \<Longrightarrow> b \<notin> log_area l \<Longrightarrow> apply_writes (log_writes l V k) f b = f b"
  using log_block_facts(2) by (intro apply_writes_other) (auto simp: log_writes_def)

lemma log_writes_start: "log_wf l \<Longrightarrow> k \<le> unat (l_n l) \<Longrightarrow> apply_writes (log_writes l V k) f (l_start l) = f (l_start l)"
  using log_block_facts(3) [of l] by (intro apply_writes_other) (auto simp: log_writes_def image_iff, metis order_less_le_trans)

lemma log_writes_at:
  "log_wf l \<Longrightarrow> k \<le> unat (l_n l) \<Longrightarrow> i < k \<Longrightarrow> apply_writes (log_writes l V k) f (log_block l i) = V (l_blocks l ! i)"
  unfolding log_writes_def using log_block_facts(4) [of l i]
  by (intro apply_writes_nth [of i k "log_block l" "\<lambda>j. V (l_blocks l ! j)"]) (auto, metis order_less_le_trans)

lemma home_writes_other: "log_wf l \<Longrightarrow> k \<le> unat (l_n l) \<Longrightarrow> b \<in> log_area l \<Longrightarrow> apply_writes (home_writes l V k) f b = f b"
  using log_block_facts(5) [of l] by (intro apply_writes_other) (auto simp: home_writes_def)

text \<open>The store before a commit: nothing locked, exactly the logged blocks pinned.\<close>

definition txn_store :: "LogInner \<Rightarrow> Store \<Rightarrow> bool" where
  "txn_store l st \<longleftrightarrow> st_held st = {} \<and> (\<forall>b. st_refs st b = (if b \<in> set (home l) then 1 else 0))"

lemma txn_in_use: "txn_store l st \<Longrightarrow> in_use st = set (home l)"
  by (auto simp: txn_store_def in_use_def)

lemma txn_can_read:
  assumes "txn_store l st" "card (set (home l)) < 29"
  shows "can_read 29 b st" "store_inv st \<Longrightarrow> b \<in> set (home l) \<Longrightarrow> a \<noteq> b \<Longrightarrow> can_read 29 b (store_read a st)"
proof -
  have u: "in_use st = set (home l)" using assms(1) by (rule txn_in_use)
  have "st_refs st b < 2 ^ 32 - 1" using assms(1) by (simp add: txn_store_def)
  then show r: "can_read 29 b st" using assms u by (simp add: can_read_def can_ref_def txn_store_def)
  show "can_read 29 b (store_read a st)" if "store_inv st" "b \<in> set (home l)" "a \<noteq> b"
  proof -
    have "in_use (store_read a st) = insert a (in_use st)" by (auto simp: in_use_def store_read_def)
    with that assms(1) show ?thesis by (auto simp: can_read_def can_ref_def txn_store_def store_read_def)
  qed
qed

lemma put_header_length: "length d = BSIZE \<Longrightarrow> unat (l_n l) \<le> LOGBLOCKS \<Longrightarrow> length (put_header l d) = BSIZE"
proof -
  have "length (foldl (\<lambda>d i. wr32 d (4 + 4 * i) (f i)) d [0..<k]) = length d" if "4 + 4 * k \<le> length d" for k d f
    using that by (induction k) auto
  moreover assume "length d = BSIZE" "unat (l_n l) \<le> LOGBLOCKS"
  ultimately show ?thesis by (simp add: put_header_def BSIZE_def)
qed

lemma rd32_put_header:
  assumes "length d = BSIZE" "unat (l_n l) \<le> LOGBLOCKS"
  shows "rd32 (put_header l d) 0 = l_n l" "i < unat (l_n l) \<Longrightarrow> rd32 (put_header l d) (4 + 4 * i) = l_blocks l ! i"
proof -
  let ?g = "\<lambda>k. foldl (\<lambda>d i. wr32 d (4 + 4 * i) (l_blocks l ! i)) (wr32 d 0 (l_n l)) [0..<k]"
  have "length (?g k) = 1024 \<and> rd32 (?g k) 0 = l_n l \<and> (\<forall>i < k. rd32 (?g k) (4 + 4 * i) = l_blocks l ! i)" if "k \<le> 30" for k
    using that
  proof (induction k)
    case 0
    then show ?case using assms by (simp add: BSIZE_def)
  next
    case (Suc k)
    then have "length (?g k) = 1024" "rd32 (?g k) 0 = l_n l" "\<forall>i < k. rd32 (?g k) (4 + 4 * i) = l_blocks l ! i" by simp_all
    with Suc.prems show ?case by (auto simp: rd32_wr32_other less_Suc_eq)
  qed
  with assms(2) show "rd32 (put_header l d) 0 = l_n l" "i < unat (l_n l) \<Longrightarrow> rd32 (put_header l d) (4 + 4 * i) = l_blocks l ! i"
    by (simp_all add: put_header_def)
qed

lemma write_head_spec:
  assumes inv: "cache_inv (l_dev l) c" and rd: "can_read 29 (l_start l) (cache_abs (l_dev l) c)" and n: "unat (l_n l) \<le> LOGBLOCKS"
  shows "\<exists>c'. write_head l c = Some c' \<and> cache_inv (l_dev l) c' \<and>
    cache_abs (l_dev l) c' = store_writes [(l_start l, put_header l (st_view (cache_abs (l_dev l) c) (l_start l)))] (cache_abs (l_dev l) c)"
proof -
  have "can_read (NBUF - 1) (l_start l) (cache_abs (l_dev l) c)" using rd by simp
  from bc.update_block [OF inv this, of "put_header l"] put_header_length [OF _ n] obtain i s1 where
    "bread (l_dev l) (l_start l) c = Some (i, s1)"
    "cache_inv (l_dev l) (brelease i (bwrite i (set_buf_data i (put_header l (buf_data i s1)) s1)))"
    "cache_abs (l_dev l) (brelease i (bwrite i (set_buf_data i (put_header l (buf_data i s1)) s1))) =
      store_install (l_start l) (put_header l (st_view (cache_abs (l_dev l) c) (l_start l))) (cache_abs (l_dev l) c)" by blast
  then show ?thesis by (simp add: write_head_def store_install_writes)
qed

lemma clear_head_spec:
  assumes "cache_inv (l_dev l) c" "can_read 29 (l_start l) (cache_abs (l_dev l) c)"
  shows "\<exists>c'. write_head (l\<lparr>l_n := 0\<rparr>) c = Some c' \<and> cache_inv (l_dev l) c' \<and> cache_abs (l_dev l) c' =
    store_writes [(l_start l, put_header (l\<lparr>l_n := 0\<rparr>) (st_view (cache_abs (l_dev l) c) (l_start l)))] (cache_abs (l_dev l) c)"
  using write_head_spec [of "l\<lparr>l_n := 0\<rparr>" c] assms by simp

lemma txn_store_writes [simp]: "txn_store l (store_writes ws st) \<longleftrightarrow> txn_store l st"
  by (simp add: txn_store_def)

lemma write_log_spec:
  assumes wf: "log_wf l" and inv: "cache_inv (l_dev l) c" and txn: "txn_store l (cache_abs (l_dev l) c)" and n: "card (set (home l)) < 29"
  shows "\<exists>c'. write_log l c = Some c' \<and> cache_inv (l_dev l) c' \<and>
    cache_abs (l_dev l) c' = store_writes (log_writes l (st_view (cache_abs (l_dev l) c)) (unat (l_n l))) (cache_abs (l_dev l) c)"
proof -
  let ?A = "cache_abs (l_dev l)" and ?V = "st_view (cache_abs (l_dev l) c)"
  have "\<exists>c'. foldO (write_log_one l) [0..<k] c = Some c' \<and> cache_inv (l_dev l) c' \<and> ?A c' = store_writes (log_writes l ?V k) (?A c)"
    if "k \<le> unat (l_n l)" for k
    using that
  proof (induction k)
    case 0
    then show ?case using inv by (simp add: log_writes_def)
  next
    case (Suc k)
    then obtain c1 where c1: "foldO (write_log_one l) [0..<k] c = Some c1" "cache_inv (l_dev l) c1" "?A c1 = store_writes (log_writes l ?V k) (?A c)"
      by auto
    have k: "k < unat (l_n l)" "k \<le> unat (l_n l)" using Suc.prems by simp_all
    let ?a = "log_block l k" and ?b = "l_blocks l ! k"
    have b: "?b \<in> set (home l)" using log_wf_home(1) [OF wf] log_wf_home(2) [OF k(1) wf] k(1) by (metis nth_mem)
    note B = log_block_facts [OF wf]
    have ne: "?a \<noteq> ?b" using B(2,5) [OF k(1)] by auto
    have t: "txn_store l (?A c1)" using txn c1(3) by simp
    note S = bc.store [OF c1(2)]
    have r: "can_read (NBUF - 1) ?a (?A c1)" "can_read (NBUF - 1) ?b (store_read ?a (?A c1))"
      using txn_can_read(1) [OF t n] txn_can_read(2) [OF t n S b ne] by simp_all
    from bc.copy_to_first [OF c1(2) r ne] obtain i j s1 s2 where
      e: "bread (l_dev l) ?a c1 = Some (i, s1)" "bread (l_dev l) ?b s1 = Some (j, s2)"
      "cache_inv (l_dev l) (brelease j (brelease i (bwrite i (set_buf_data i (buf_data j s2) s2))))"
      "?A (brelease j (brelease i (bwrite i (set_buf_data i (buf_data j s2) s2)))) = store_install ?a (st_view (?A c1) ?b) (?A c1)" by blast
    have v: "st_view (?A c1) ?b = ?V ?b" using log_writes_other [OF wf k(2) B(5) [OF k(1)]] by (simp add: c1(3))
    have "write_log_one l k c1 = Some (brelease j (brelease i (bwrite i (set_buf_data i (buf_data j s2) s2))))"
      using e(1,2) by (simp add: write_log_one_def)
    moreover have "store_install ?a (?V ?b) (?A c1) = store_writes (log_writes l ?V (Suc k)) (?A c)"
      by (simp add: c1(3) log_writes_def)
    ultimately show ?case using c1(1) e(3,4) v by (simp add: foldO_append)
  qed
  from this [OF order_refl] show ?thesis by (simp add: write_log_def)
qed

definition install_writes :: "LogInner \<Rightarrow> (u32 \<Rightarrow> u8 list) \<Rightarrow> nat \<Rightarrow> (u32 \<times> u8 list) list" where
  "install_writes l f k = map (\<lambda>j. (l_blocks l ! j, f (log_block l j))) [0..<k]"

lemma install_writes_other: "log_wf l \<Longrightarrow> k \<le> unat (l_n l) \<Longrightarrow> b \<in> log_area l \<Longrightarrow> apply_writes (install_writes l f k) g b = g b"
  using log_block_facts(5) [of l] by (intro apply_writes_other) (auto simp: install_writes_def)

text \<open>References while installing: recovery has none, a commit drops its pins one by one.\<close>

definition install_refs :: "bool \<Rightarrow> LogInner \<Rightarrow> nat \<Rightarrow> u32 \<Rightarrow> nat" where
  "install_refs recovering l k b = (if \<not> recovering \<and> b \<in> set (drop k (home l)) then 1 else 0)"

lemma install_trans_spec:
  assumes wf: "log_wf l" and inv: "cache_inv (l_dev l) c"
    and st: "st_held (cache_abs (l_dev l) c) = {}" "st_refs (cache_abs (l_dev l) c) = install_refs recovering l 0"
    and d: "recovering \<or> distinct (home l) \<and> length (home l) < 29"
  shows "\<exists>c'. install_trans recovering l c = Some c' \<and> cache_inv (l_dev l) c' \<and>
    cache_abs (l_dev l) c' =
      (store_writes (install_writes l (st_view (cache_abs (l_dev l) c)) (unat (l_n l))) (cache_abs (l_dev l) c))\<lparr>st_refs := \<lambda>_. 0\<rparr>"
proof -
  let ?A = "cache_abs (l_dev l)" and ?V = "st_view (cache_abs (l_dev l) c)"
  have "\<exists>c'. foldO (install_one recovering l) [0..<k] c = Some c' \<and> cache_inv (l_dev l) c' \<and>
      ?A c' = (store_writes (install_writes l ?V k) (?A c))\<lparr>st_refs := install_refs recovering l k\<rparr>"
    if "k \<le> unat (l_n l)" for k
    using that
  proof (induction k)
    case 0
    then show ?case using inv st(2) by (simp add: install_writes_def)
  next
    case (Suc k)
    then obtain c1 where c1: "foldO (install_one recovering l) [0..<k] c = Some c1" "cache_inv (l_dev l) c1"
      "?A c1 = (store_writes (install_writes l ?V k) (?A c))\<lparr>st_refs := install_refs recovering l k\<rparr>" by auto
    have k: "k < unat (l_n l)" "k \<le> unat (l_n l)" using Suc.prems by simp_all
    let ?a = "log_block l k" and ?b = "l_blocks l ! k"
    note B = log_block_facts [OF wf]
    have ne: "?a \<noteq> ?b" using B(2,5) [OF k(1)] by auto
    have h: "home l ! k = ?b" "k < length (home l)" using log_wf_home(1) [OF wf] log_wf_home(2) [OF k(1) wf] k(1) by simp_all
    then have dk: "drop k (home l) = ?b # drop (Suc k) (home l)" by (metis Cons_nth_drop_Suc)
    have nd: "\<not> recovering \<Longrightarrow> ?b \<notin> set (drop (Suc k) (home l))"
      using d dk by (metis distinct.simps(2) distinct_drop)
    have refs: "st_refs (?A c1) = install_refs recovering l k" "st_held (?A c1) = {}" using st(1) by (simp_all add: c1(3))
    have pin: "\<not> recovering \<Longrightarrow> 0 < st_refs (?A c1) ?b" using dk by (simp add: refs install_refs_def)
    have use: "in_use (?A c1) = (if recovering then {} else set (drop k (home l)))" by (auto simp: in_use_def refs install_refs_def)
    have cardle: "card (in_use (?A c1)) < 29"
    proof (cases recovering)
      case False
      have "card (set (drop k (home l))) \<le> length (home l)" by (metis card_length diff_le_self le_trans length_drop)
      with False d use show ?thesis by simp
    qed (simp add: use)
    have cr: "can_read 29 x (?A c1)" for x using cardle by (simp add: can_read_def can_ref_def refs install_refs_def)
    have "0 < st_refs (?A c1) ?b \<or> card (in_use (?A c1)) + 2 \<le> NBUF - 1" using pin use by (cases recovering) simp_all
    then have r: "can_read (NBUF - 1) ?a (?A c1)" "can_read (NBUF - 1) ?b (store_read ?a (?A c1))"
      using cr bc.can_read_second [OF bc.store [OF c1(2)] _ ne] by simp_all
    from bc.copy_to_second [OF c1(2) r ne, of recovering] pin obtain i j s1 s2 where
      e: "bread (l_dev l) ?a c1 = Some (i, s1)" "bread (l_dev l) ?b s1 = Some (j, s2)" and
      f: "let s3 = bwrite j (set_buf_data j (buf_data i s2) s2); s4 = (if recovering then s3 else bunpin j s3); s5 = brelease j (brelease i s4)
        in cache_inv (l_dev l) s5 \<and> ?A s5 =
          (let st = store_install ?b (st_view (?A c1) ?a) (?A c1) in if recovering then st else store_unpin ?b st)" by blast
    define s5 where "s5 = brelease j (brelease i
      (if recovering then bwrite j (set_buf_data j (buf_data i s2) s2) else bunpin j (bwrite j (set_buf_data j (buf_data i s2) s2))))"
    have g: "cache_inv (l_dev l) s5" "?A s5 = (let st = store_install ?b (st_view (?A c1) ?a) (?A c1) in if recovering then st else store_unpin ?b st)"
      using f by (simp_all only: Let_def s5_def)
    have run: "install_one recovering l k c1 = Some s5" using e by (simp add: install_one_def s5_def Let_def)
    have v: "st_view (?A c1) ?a = ?V ?a" using install_writes_other [OF wf k(2) B(2) [OF k(1)]] by (simp add: c1(3))
    have R: "install_refs recovering l (Suc k) =
        (if recovering then install_refs recovering l k else (install_refs recovering l k)(?b := install_refs recovering l k ?b - 1))"
      using nd dk by (auto simp: install_refs_def fun_eq_iff)
    have "?A s5 = (store_writes (install_writes l ?V (Suc k)) (?A c))\<lparr>st_refs := install_refs recovering l (Suc k)\<rparr>"
      unfolding g(2) v R unfolding c1(3)
      by (intro Store.equality) (simp_all add: Let_def store_install_def store_unpin_def store_writes_def install_writes_def)
    with c1(1) run g(1) show ?case by (simp add: foldO_append)
  qed
  from this [OF order_refl] have "\<exists>c'. install_trans recovering l c = Some c' \<and> cache_inv (l_dev l) c' \<and>
      ?A c' = (store_writes (install_writes l ?V (unat (l_n l))) (?A c))\<lparr>st_refs := install_refs recovering l (unat (l_n l))\<rparr>"
    by (simp add: install_trans_def)
  moreover have "install_refs recovering l (unat (l_n l)) = (\<lambda>_. 0)"
    using log_wf_home(1) [OF wf] by (simp add: install_refs_def fun_eq_iff)
  ultimately show ?thesis by simp
qed

definition commit_writes :: "LogInner \<Rightarrow> (u32 \<Rightarrow> u8 list) \<Rightarrow> (u32 \<times> u8 list) list" where
  "commit_writes l V = log_writes l V (unat (l_n l)) @ [(l_start l, put_header l (V (l_start l)))] @
     home_writes l V (unat (l_n l)) @ [(l_start l, put_header (l\<lparr>l_n := 0\<rparr>) (put_header l (V (l_start l))))]"

lemma log_wf_clear [simp]: "log_wf l \<Longrightarrow> log_wf (l\<lparr>l_n := 0\<rparr>)"
  by (simp add: log_wf_def home_def)

lemma commit_spec:
  assumes wf: "log_wf l" and inv: "cache_inv (l_dev l) c" and txn: "txn_store l (cache_abs (l_dev l) c)"
    and d: "distinct (home l)" "0 < unat (l_n l)" "unat (l_n l) < 29"
  shows "\<exists>c'. commit l c = Some (l\<lparr>l_n := 0\<rparr>, c') \<and> cache_inv (l_dev l) c' \<and>
    cache_abs (l_dev l) c' = (store_writes (commit_writes l (st_view (cache_abs (l_dev l) c))) (cache_abs (l_dev l) c))\<lparr>st_refs := \<lambda>_. 0\<rparr>"
proof -
  let ?A = "cache_abs (l_dev l)" and ?V = "st_view (cache_abs (l_dev l) c)" and ?n = "unat (l_n l)"
  have len: "length (home l) = ?n" using wf by (rule log_wf_home)
  then have crd: "card (set (home l)) < 29" using d(1,3) by (simp add: distinct_card)
  have nle: "?n \<le> LOGBLOCKS" using wf by (simp add: log_wf_def)
  note B = log_block_facts [OF wf]
  from write_log_spec [OF wf inv txn crd] obtain c1 where
    c1: "write_log l c = Some c1" "cache_inv (l_dev l) c1" "?A c1 = store_writes (log_writes l ?V ?n) (?A c)" by blast
  have t1: "txn_store l (?A c1)" using txn c1(3) by simp
  from write_head_spec [OF c1(2) txn_can_read(1) [OF t1 crd] nle] obtain c2 where
    c2: "write_head l c1 = Some c2" "cache_inv (l_dev l) c2"
      "?A c2 = store_writes [(l_start l, put_header l (st_view (?A c1) (l_start l)))] (?A c1)" by blast
  have h1: "st_view (?A c1) (l_start l) = ?V (l_start l)" using log_writes_start [OF wf order_refl] by (simp add: c1(3))
  have t2: "st_held (?A c2) = {}" "st_refs (?A c2) = install_refs False l 0"
    using t1 by (simp_all add: c2(3) txn_store_def install_refs_def fun_eq_iff)
  have dd: "False \<or> distinct (home l) \<and> length (home l) < 29" using d len by simp
  from install_trans_spec [OF wf c2(2) t2 dd] obtain c3 where
    c3: "install_trans False l c2 = Some c3" "cache_inv (l_dev l) c3"
      "?A c3 = (store_writes (install_writes l (st_view (?A c2)) ?n) (?A c2))\<lparr>st_refs := \<lambda>_. 0\<rparr>" by blast
  have iw: "install_writes l (st_view (?A c2)) ?n = home_writes l ?V ?n"
    using B(3) log_writes_at [OF wf order_refl] by (auto simp: install_writes_def home_writes_def c2(3) c1(3))
  let ?l0 = "l\<lparr>l_n := 0\<rparr>"
  have "in_use (?A c3) = {}" by (simp add: c3(3) in_use_def)
  then have r3: "can_read 29 (l_start l) (?A c3)" using t2(1) by (simp add: can_read_def can_ref_def c3(3))
  from clear_head_spec [OF c3(2) r3] obtain c4 where
    c4: "write_head ?l0 c3 = Some c4" "cache_inv (l_dev l) c4"
      "?A c4 = store_writes [(l_start l, put_header ?l0 (st_view (?A c3) (l_start l)))] (?A c3)" by blast
  have h3: "st_view (?A c3) (l_start l) = put_header l (?V (l_start l))"
    unfolding c3(3) iw using home_writes_other [OF wf order_refl B(1)] h1 by (simp add: c2(3))
  have "0 < l_n l" using d(2) by (simp add: word_less_nat_alt)
  then have "commit l c = Some (?l0, c4)" using c1(1) c2(1) c3(1) c4(1) by (simp add: commit_def)
  moreover have "?A c4 = (store_writes (commit_writes l ?V) (?A c))\<lparr>st_refs := \<lambda>_. 0\<rparr>"
    unfolding c4(3) h3 unfolding c3(3) iw unfolding c2(3) h1 unfolding c1(3)
    by (intro Store.equality) (simp_all add: commit_writes_def store_writes_def)
  ultimately show ?thesis using c4(2) by blast
qed

section \<open>Recovery\<close>

text \<open>The log that the header on disk \<open>d\<close> describes.\<close>

definition disk_log :: "u32 \<Rightarrow> u32 \<Rightarrow> u32 \<Rightarrow> (u32 \<Rightarrow> u8 list) \<Rightarrow> LogInner" where
  "disk_log dev start sz d = (let n = rd32 (d start) 0 in
     log_new\<lparr>l_start := start, l_size := sz, l_dev := dev, l_n := n,
       l_blocks := map (\<lambda>i. rd32 (d start) (4 + 4 * i)) [0..<unat n] @ drop (unat n) (replicate LOGBLOCKS 0)\<rparr>)"

definition recover_writes :: "LogInner \<Rightarrow> (u32 \<Rightarrow> u8 list) \<Rightarrow> (u32 \<times> u8 list) list" where
  "recover_writes l d = install_writes l d (unat (l_n l)) @ [(l_start l, put_header (l\<lparr>l_n := 0\<rparr>) (d (l_start l)))]"

definition boot :: "u32 \<Rightarrow> u32 \<Rightarrow> u32 \<Rightarrow> (u32 \<Rightarrow> u8 list) \<Rightarrow> (LogInner \<times> BCache) option" where
  "boot dev start sz d = log_init dev start sz log_new (bcache_init (bcache_new d))"

lemma boot_spec:
  assumes wf: "log_wf (disk_log dev start sz d)" and len: "\<And>b. length (d b) = BSIZE"
  shows "\<exists>l c. boot dev start sz d = Some (l, c) \<and> l_n l = 0 \<and> cache_inv dev c \<and> bc_writes c = recover_writes (disk_log dev start sz d) d \<and>
    bc_disk c = apply_writes (recover_writes (disk_log dev start sz d) d) d"
proof -
  let ?L = "disk_log dev start sz d" and ?A = "cache_abs dev" and ?c = "bcache_init (bcache_new d)"
  let ?l = "log_new\<lparr>l_start := start, l_size := sz, l_dev := dev\<rparr>"
  have dev: "dev \<noteq> 0" "l_dev ?L = dev" "l_start ?L = start" "l_n ?L = rd32 (d start) 0"
    using wf by (simp_all add: log_wf_def disk_log_def Let_def)
  note I = bcache_init_inv [of d, OF len dev(1)]
  have "can_read (NBUF - 1) start (?A ?c)" by (simp add: I(2) can_read_def can_ref_def in_use_def)
  from bc.peek_block [OF I(1) this] obtain i c0 where
    0: "bread dev start ?c = Some (i, c0)" "buf_data i c0 = st_view (?A ?c) start" "cache_inv dev (brelease i c0)" "?A (brelease i c0) = ?A ?c" by blast
  define c1 where "c1 = brelease i c0"
  have n: "unat (rd32 (d start) 0) \<le> LOGBLOCKS" using wf dev(4) by (simp add: log_wf_def)
  have "buf_data i c0 = d start" using 0(2) I(2) by simp
  then have rh: "read_head ?l ?c = Some (?L, c1)"
    using 0(1) n by (simp add: read_head_def disk_log_def Let_def log_new_def c1_def)
  have 1: "cache_inv (l_dev ?L) c1" "st_held (cache_abs (l_dev ?L) c1) = {}" "st_refs (cache_abs (l_dev ?L) c1) = install_refs True ?L 0"
    "st_view (cache_abs (l_dev ?L) c1) = d"
    using 0(3,4) I(2) dev(2) by (simp_all add: c1_def install_refs_def fun_eq_iff)
  from install_trans_spec [OF wf 1(1-3)] dev(2) 1(4) obtain c2 where
    2: "install_trans True ?L c1 = Some c2" "cache_inv dev c2"
      "?A c2 = (store_writes (install_writes ?L d (unat (l_n ?L))) (?A c1))\<lparr>st_refs := \<lambda>_. 0\<rparr>" by auto
  let ?l0 = "?L\<lparr>l_n := 0\<rparr>"
  have "in_use (?A c2) = {}" by (simp add: 2(3) in_use_def)
  then have r: "can_read 29 (l_start ?L) (?A c2)" using 1(2) dev(2) by (simp add: can_read_def can_ref_def 2(3))
  from clear_head_spec [of ?L c2, unfolded dev(2), OF 2(2) r] obtain c3 where
    3: "write_head ?l0 c2 = Some c3" "cache_inv dev c3"
      "?A c3 = store_writes [(l_start ?L, put_header ?l0 (st_view (?A c2) (l_start ?L)))] (?A c2)" by auto
  have h: "st_view (?A c2) (l_start ?L) = d (l_start ?L)"
    using install_writes_other [OF wf order_refl log_block_facts(1) [OF wf]] 1(4) dev(2) by (simp add: 2(3))
  have "boot dev start sz d = Some (?l0, c3)" using rh 2(1) 3(1) by (simp add: boot_def log_init_def recover_from_log_def)
  moreover have "st_writes (?A c3) = recover_writes ?L d" "st_disk (?A c3) = apply_writes (recover_writes ?L d) d"
    unfolding 3(3) h using 0(4) I(2) by (simp_all add: 2(3) recover_writes_def c1_def)
  ultimately show ?thesis using 3(2) by (simp add: cache_abs_def)
qed

section \<open>Crash safety\<close>

text \<open>
  A disk whose header is empty and that shows \<open>V\<close> outside the log area, and a disk whose header names
  the blocks of \<open>l\<close>, with their new contents in the log and possibly some of them installed.
\<close>

definition disk_ok :: "(u32 \<Rightarrow> u8 list) \<Rightarrow> bool" where
  "disk_ok d \<longleftrightarrow> (\<forall>b. length (d b) = BSIZE)"

definition clean :: "LogInner \<Rightarrow> (u32 \<Rightarrow> u8 list) \<Rightarrow> (u32 \<Rightarrow> u8 list) \<Rightarrow> bool" where
  "clean l V d \<longleftrightarrow> disk_ok d \<and> rd32 (d (l_start l)) 0 = 0 \<and> (\<forall>b. b \<notin> log_area l \<longrightarrow> d b = V b)"

definition pending :: "LogInner \<Rightarrow> (u32 \<Rightarrow> u8 list) \<Rightarrow> (u32 \<Rightarrow> u8 list) \<Rightarrow> bool" where
  "pending l V d \<longleftrightarrow> disk_ok d \<and> rd32 (d (l_start l)) 0 = l_n l \<and>
     (\<forall>i < unat (l_n l). rd32 (d (l_start l)) (4 + 4 * i) = l_blocks l ! i \<and> d (log_block l i) = V (l_blocks l ! i)) \<and>
     (\<forall>b. b \<notin> log_area l \<longrightarrow> b \<notin> set (home l) \<longrightarrow> d b = V b)"

lemma home_writes_take: "k \<le> n \<Longrightarrow> take k (home_writes l V n) = home_writes l V k" "length (home_writes l V n) = n"
  by (simp_all add: home_writes_def take_map)

lemma log_writes_take: "k \<le> n \<Longrightarrow> take k (log_writes l V n) = log_writes l V k" "length (log_writes l V n) = n"
  by (simp_all add: log_writes_def take_map)

lemma home_writes_frame:
  assumes "log_wf l" "k \<le> unat (l_n l)" "b \<notin> set (home l)"
  shows "apply_writes (home_writes l V k) f b = f b"
proof -
  have "l_blocks l ! j \<in> set (home l)" if "j < k" for j
    using log_wf_home(1) [OF assms(1)] log_wf_home(2) [OF _ assms(1), of j] that assms(2) by (metis nth_mem order_less_le_trans)
  then show ?thesis using assms(3) by (intro apply_writes_other) (auto simp: home_writes_def)
qed

lemma home_writes_at:
  assumes "log_wf l" "b \<in> set (home l)"
  shows "apply_writes (home_writes l V (unat (l_n l))) f b = V b"
proof -
  from assms obtain i where "i < unat (l_n l)" "b = l_blocks l ! i" by (metis in_set_conv_nth log_wf_home)
  then show ?thesis
    using apply_writes_nth [of i "unat (l_n l)" "(!) (l_blocks l)" "\<lambda>j. V (l_blocks l ! j)" f] by (simp add: home_writes_def)
qed

text \<open>The writes after the commit point, in a commit as in a recovery, cut off anywhere.\<close>

lemma pending_prefix:
  assumes wf: "log_wf l" and p: "pending l V d" and V: "disk_ok V" and H: "length H = BSIZE" "rd32 H 0 = 0"
  defines "W \<equiv> home_writes l V (unat (l_n l)) @ [(l_start l, H)]"
  shows "k \<le> unat (l_n l) \<Longrightarrow> pending l V (apply_writes (take k W) d)" "unat (l_n l) < k \<Longrightarrow> clean l V (apply_writes (take k W) d)"
proof -
  note B = log_block_facts [OF wf]
  have ok: "disk_ok (apply_writes (home_writes l V k) d)" for k
    using p V apply_writes_length [of "home_writes l V k" BSIZE d]
    by (auto simp: disk_ok_def home_writes_def pending_def)
  show "pending l V (apply_writes (take k W) d)" if "k \<le> unat (l_n l)"
  proof -
    have "apply_writes (home_writes l V k) d b = d b" if "b \<in> log_area l \<or> b \<notin> set (home l)" for b
      using home_writes_other [OF wf \<open>k \<le> unat (l_n l)\<close>] home_writes_frame [OF wf \<open>k \<le> unat (l_n l)\<close>] that by blast
    then show ?thesis using that p ok [of k] B(1,2) by (simp add: W_def home_writes_take pending_def)
  qed
  show "clean l V (apply_writes (take k W) d)" if "unat (l_n l) < k"
  proof -
    let ?d = "apply_writes (home_writes l V (unat (l_n l))) d"
    have t: "take k W = home_writes l V (unat (l_n l)) @ [(l_start l, H)]" using that by (simp add: W_def home_writes_take)
    have "?d b = V b" if "b \<notin> log_area l" for b
      using home_writes_at [OF wf, of b V d] home_writes_frame [OF wf order_refl, of b V d] p that by (cases "b \<in> set (home l)") (simp_all add: pending_def)
    moreover have "disk_ok (?d(l_start l := H))" using ok [of "unat (l_n l)"] H(1) by (simp add: disk_ok_def)
    ultimately show ?thesis unfolding t using H(2) B(1) by (auto simp: clean_def)
  qed
qed

lemma commit_prefix:
  assumes wf: "log_wf l" and d: "clean l old d" and V: "disk_ok V" "\<forall>b. b \<notin> log_area l \<longrightarrow> b \<notin> set (home l) \<longrightarrow> old b = V b"
  shows "k \<le> unat (l_n l) \<Longrightarrow> clean l old (apply_writes (take k (commit_writes l V)) d)"
    "k = unat (l_n l) + 1 + j \<Longrightarrow> j \<le> unat (l_n l) \<Longrightarrow> pending l V (apply_writes (take k (commit_writes l V)) d)"
    "k = unat (l_n l) + 1 + j \<Longrightarrow> unat (l_n l) < j \<Longrightarrow> clean l V (apply_writes (take k (commit_writes l V)) d)"
proof -
  note B = log_block_facts [OF wf]
  let ?n = "unat (l_n l)" and ?H = "put_header l (V (l_start l))"
  have n: "?n \<le> LOGBLOCKS" using wf by (simp add: log_wf_def)
  have L: "length (V b) = BSIZE" for b using V(1) by (simp add: disk_ok_def)
  have H: "length ?H = BSIZE" "rd32 ?H 0 = l_n l" "\<And>i. i < ?n \<Longrightarrow> rd32 ?H (4 + 4 * i) = l_blocks l ! i"
    using put_header_length [OF L n] rd32_put_header [OF L n] by simp_all
  have H0: "length (put_header (l\<lparr>l_n := 0\<rparr>) ?H) = BSIZE" "rd32 (put_header (l\<lparr>l_n := 0\<rparr>) ?H) 0 = 0"
    using put_header_length [OF H(1), of "l\<lparr>l_n := 0\<rparr>"] rd32_put_header(1) [OF H(1), of "l\<lparr>l_n := 0\<rparr>"] by simp_all
  have ok: "disk_ok (apply_writes (log_writes l V k) d)" for k
    using d L apply_writes_length [of "log_writes l V k" BSIZE d] by (auto simp: disk_ok_def log_writes_def clean_def)
  show "clean l old (apply_writes (take k (commit_writes l V)) d)" if "k \<le> ?n"
    using that d ok [of k] log_writes_other [OF wf that] log_writes_start [OF wf that]
    by (simp add: commit_writes_def log_writes_take clean_def)
  define d1 where "d1 = (apply_writes (log_writes l V ?n) d)(l_start l := ?H)"
  have "d1 (log_block l i) = V (l_blocks l ! i)" if "i < ?n" for i
    using B(3) [OF that] log_writes_at [OF wf order_refl that] by (simp add: d1_def)
  moreover have "d1 b = V b" if "b \<notin> log_area l" "b \<notin> set (home l)" for b
    using that B(1) d V(2) log_writes_other [OF wf order_refl that(1)] by (auto simp: d1_def clean_def)
  moreover have "disk_ok d1" "d1 (l_start l) = ?H" using ok [of ?n] H(1) by (simp_all add: disk_ok_def d1_def)
  ultimately have p: "pending l V d1" using H(2,3) by (simp add: pending_def)
  have s: "apply_writes (take (?n + 1 + j) (commit_writes l V)) d =
      apply_writes (take j (home_writes l V ?n @ [(l_start l, put_header (l\<lparr>l_n := 0\<rparr>) ?H)])) d1" for j
    by (simp add: commit_writes_def log_writes_take d1_def)
  show "pending l V (apply_writes (take k (commit_writes l V)) d)" if "k = ?n + 1 + j" "j \<le> ?n"
    unfolding that(1) s using pending_prefix(1) [OF wf p V(1) H0 that(2)] .
  show "clean l V (apply_writes (take k (commit_writes l V)) d)" if "k = ?n + 1 + j" "?n < j"
    unfolding that(1) s using pending_prefix(2) [OF wf p V(1) H0 that(2)] .
qed

definition settles :: "LogInner \<Rightarrow> (u32 \<Rightarrow> u8 list) \<Rightarrow> (u32 \<Rightarrow> u8 list) \<Rightarrow> bool" where
  "settles l V d \<longleftrightarrow> clean l V d \<or> pending l V d"

lemma disk_log_simps [simp]:
  "l_start (disk_log dev start sz d) = start" "l_size (disk_log dev start sz d) = sz" "l_dev (disk_log dev start sz d) = dev"
  "l_n (disk_log dev start sz d) = rd32 (d start) 0" "log_block (disk_log dev start sz d) k = start + word_of_nat k + 1"
  by (simp_all add: disk_log_def Let_def log_block_def)

lemma log_area_disk_log [simp]: "log_area (disk_log (l_dev l) (l_start l) (l_size l) d) = log_area l"
  by (simp add: log_area_def)

lemma disk_log_blocks: "i < unat (rd32 (d start) 0) \<Longrightarrow> l_blocks (disk_log dev start sz d) ! i = rd32 (d start) (4 + 4 * i)"
  by (simp add: disk_log_def Let_def nth_append)

lemma disk_log_length: "unat (rd32 (d start) 0) \<le> LOGBLOCKS \<Longrightarrow> length (l_blocks (disk_log dev start sz d)) = LOGBLOCKS"
  by (simp add: disk_log_def Let_def)

lemma clean_recovery:
  assumes wf: "log_wf l" and d: "clean l V d"
  shows "log_wf (disk_log (l_dev l) (l_start l) (l_size l) d)" "clean l V (apply_writes (take k (recover_writes (disk_log (l_dev l) (l_start l) (l_size l) d) d)) d)"
proof -
  let ?L = "disk_log (l_dev l) (l_start l) (l_size l) d"
  have n: "rd32 (d (l_start l)) 0 = 0" and L: "length (d b) = BSIZE" for b using d by (simp_all add: clean_def disk_ok_def)
  show "log_wf ?L" using wf n disk_log_length [of d "l_start l"] by (simp add: log_wf_def home_def)
  let ?H = "put_header (?L\<lparr>l_n := 0\<rparr>) (d (l_start l))"
  have "length ?H = BSIZE" "rd32 ?H 0 = 0"
    using put_header_length [OF L, of "?L\<lparr>l_n := 0\<rparr>"] rd32_put_header(1) [OF L, of "?L\<lparr>l_n := 0\<rparr>"] by simp_all
  then have "clean l V (d(l_start l := ?H))" using d log_block_facts(1) [OF wf] by (auto simp: clean_def disk_ok_def)
  moreover have "recover_writes ?L d = [(l_start l, ?H)]" using n by (simp add: recover_writes_def install_writes_def)
  ultimately show "clean l V (apply_writes (take k (recover_writes ?L d)) d)" using d by (cases k) simp_all
qed

lemma pending_recovery:
  assumes wf: "log_wf l" and p: "pending l V d" and V: "disk_ok V"
  shows "log_wf (disk_log (l_dev l) (l_start l) (l_size l) d)"
    "settles l V (apply_writes (take k (recover_writes (disk_log (l_dev l) (l_start l) (l_size l) d) d)) d)"
    "clean l V (apply_writes (recover_writes (disk_log (l_dev l) (l_start l) (l_size l) d) d) d)"
proof -
  let ?L = "disk_log (l_dev l) (l_start l) (l_size l) d" and ?n = "unat (l_n l)"
  have n: "rd32 (d (l_start l)) 0 = l_n l" and L: "length (d b) = BSIZE" for b using p by (simp_all add: pending_def disk_ok_def)
  have b: "l_blocks ?L ! i = l_blocks l ! i" if "i < ?n" for i using that p n by (simp add: disk_log_blocks pending_def)
  have len: "length (l_blocks ?L) = LOGBLOCKS" "length (l_blocks l) = LOGBLOCKS" "?n \<le> LOGBLOCKS"
    using wf disk_log_length [of d "l_start l"] n by (simp_all add: log_wf_def)
  have h: "home ?L = home l" using b len by (intro nth_equalityI) (simp_all add: home_def n)
  show "log_wf ?L" using wf len(1) by (simp add: log_wf_def n h)
  let ?H = "put_header (?L\<lparr>l_n := 0\<rparr>) (d (l_start l))"
  have H: "length ?H = BSIZE" "rd32 ?H 0 = 0"
    using put_header_length [OF L, of "?L\<lparr>l_n := 0\<rparr>"] rd32_put_header(1) [OF L, of "?L\<lparr>l_n := 0\<rparr>"] by simp_all
  have "install_writes ?L d ?n = home_writes l V ?n"
    using b p by (auto simp: install_writes_def home_writes_def pending_def log_block_def)
  then have w: "recover_writes ?L d = home_writes l V ?n @ [(l_start l, ?H)]" by (simp add: recover_writes_def n)
  show "settles l V (apply_writes (take k (recover_writes ?L d)) d)"
    unfolding w settles_def using pending_prefix [OF wf p V H, of k] by (cases "k \<le> ?n") auto
  show "clean l V (apply_writes (recover_writes ?L d) d)"
    unfolding w using pending_prefix(2) [OF wf p V H, of "Suc ?n"] by (simp add: home_writes_take)
qed

lemma boot_settles:
  assumes wf: "log_wf l" and s: "settles l V d" and V: "disk_ok V"
  shows "\<exists>lr cr. boot (l_dev l) (l_start l) (l_size l) d = Some (lr, cr) \<and> clean l V (bc_disk cr) \<and>
    (\<forall>k. settles l V (apply_writes (take k (bc_writes cr)) d))"
proof -
  let ?L = "disk_log (l_dev l) (l_start l) (l_size l) d"
  have len: "length (d b) = BSIZE" for b using s by (auto simp: settles_def clean_def pending_def disk_ok_def)
  have a: "log_wf ?L \<and> clean l V (apply_writes (recover_writes ?L d) d) \<and> (\<forall>k. settles l V (apply_writes (take k (recover_writes ?L d)) d))"
  proof (cases "pending l V d")
    case True
    then show ?thesis using pending_recovery [OF wf True V] by simp
  next
    case False
    then have c: "clean l V d" using s by (simp add: settles_def)
    show ?thesis using clean_recovery [OF wf c] clean_recovery(2) [OF wf c, of "length (recover_writes ?L d)"] by (simp add: settles_def)
  qed
  then have "log_wf ?L" ..
  from boot_spec [OF this len] obtain lr cr where
    b: "boot (l_dev l) (l_start l) (l_size l) d = Some (lr, cr)" "bc_writes cr = recover_writes ?L d" "bc_disk cr = apply_writes (recover_writes ?L d) d"
    by blast
  have "clean l V (bc_disk cr)" "\<forall>k. settles l V (apply_writes (take k (bc_writes cr)) d)" unfolding b using a by blast+
  with b(1) show ?thesis by blast
qed

text \<open>A disk after any number of recoveries that were themselves cut off, each after some of its writes.\<close>

inductive crashed :: "u32 \<Rightarrow> u32 \<Rightarrow> u32 \<Rightarrow> (u32 \<Rightarrow> u8 list) \<Rightarrow> (u32 \<Rightarrow> u8 list) \<Rightarrow> bool" for dev start sz d where
  crashed_once: "crashed dev start sz d d"
| crashed_again: "crashed dev start sz d e \<Longrightarrow> boot dev start sz e = Some (l, c) \<Longrightarrow>
    crashed dev start sz d (apply_writes (take k (bc_writes c)) e)"

lemma crashed_settles:
  assumes "crashed (l_dev l) (l_start l) (l_size l) d e" "log_wf l" "disk_ok V" "settles l V d"
  shows "settles l V e"
  using assms(1)
proof induction
  case (crashed_again e lr c k)
  with boot_settles [OF assms(2) crashed_again.IH assms(3)] show ?case by auto
qed (rule assms(4))

lemma boot_after_crashes:
  assumes "crashed (l_dev l) (l_start l) (l_size l) d e" "log_wf l" "disk_ok V" "settles l V d"
  shows "\<exists>lr cr. boot (l_dev l) (l_start l) (l_size l) e = Some (lr, cr) \<and> (\<forall>b. b \<notin> log_area l \<longrightarrow> bc_disk cr b = V b)"
  using boot_settles [OF assms(2) crashed_settles [OF assms] assms(3)] by (auto simp: clean_def)

section \<open>Transactions\<close>

text \<open>
  During a transaction a block has the reference of its pin, if it is logged, and those of the callers
  that have read it; a block that differs from the disk is logged or still locked.
\<close>

definition txn :: "LogInner \<Rightarrow> (u32 \<Rightarrow> nat) \<Rightarrow> Store \<Rightarrow> bool" where
  "txn l users st \<longleftrightarrow> distinct (home l) \<and> (\<forall>b. st_refs st b = (if b \<in> set (home l) then 1 else 0) + users b)"

lemma txn_no_users: "txn l (\<lambda>_. 0) st \<Longrightarrow> st_held st = {} \<Longrightarrow> txn_store l st"
  by (simp add: txn_def txn_store_def)

lemma log_write_logged:
  assumes "unat (l_n l) < LOGBLOCKS" "\<not> l_n l \<ge> l_size l - 1" "0 < l_outstanding l" "caches dev c i b" "log_wf l" "b \<in> set (home l)"
  shows "log_write i l c = Some (l, c)"
proof -
  have m: "m_block_no (bc_meta c ! i) = b" using assms(4) by (simp add: caches_def)
  have "find_index (\<lambda>x. x = b) (home l) \<noteq> None" using assms(6) by (simp add: find_index_None_set)
  then obtain k where k: "find_index (\<lambda>x. x = b) (home l) = Some k" by blast
  from find_index_SomeD [OF k] have "k < unat (l_n l)" "l_blocks l ! k = b"
    using log_wf_home(1) [OF assms(5)] log_wf_home(2) [OF _ assms(5), of k] by auto
  then have "(l_blocks l)[k := b] = l_blocks l" "k \<noteq> unat (l_n l)" by auto
  with k m assms(1-3) show ?thesis
    unfolding log_write_def home_def by (simp add: not_le word_less_nat_alt word_le_nat_alt)
qed

lemma log_write_new:
  assumes "unat (l_n l) < LOGBLOCKS" "\<not> l_n l \<ge> l_size l - 1" "0 < l_outstanding l" "caches dev c i b" "log_wf l" "b \<notin> set (home l)"
  shows "log_write i l c = Some (l\<lparr>l_blocks := (l_blocks l)[unat (l_n l) := b], l_n := l_n l + 1\<rparr>, bpin i c)"
proof -
  have m: "m_block_no (bc_meta c ! i) = b" using assms(4) by (simp add: caches_def)
  have "find_index (\<lambda>x. x = b) (home l) = None" using assms(6) by (auto simp: find_index_None_set)
  with m assms(1-3) show ?thesis
    unfolding log_write_def home_def by (simp add: not_le word_less_nat_alt word_le_nat_alt)
qed

lemma log_append:
  assumes "log_wf l" "unat (l_n l) < LOGBLOCKS" "\<not> l_n l \<ge> l_size l - 1" "b \<notin> log_area l"
  defines "l' \<equiv> l\<lparr>l_blocks := (l_blocks l)[unat (l_n l) := b], l_n := l_n l + 1\<rparr>"
  shows "home l' = home l @ [b]" "log_wf l'" "unat (l_n l') = unat (l_n l) + 1"
proof -
  have sz: "unat (l_n l) + 1 < unat (l_size l)"
  proof -
    have "l_size l \<noteq> 0" using assms(1) by (auto simp: log_wf_def)
    then have "unat (l_size l - 1) = unat (l_size l) - 1" by (metis unat_minus_one)
    with assms(3) show ?thesis by (simp add: word_le_nat_alt)
  qed
  then have "unat (l_n l) + 1 < 2 ^ 32" using assms(1) by (simp add: log_wf_def)
  then show n: "unat (l_n l') = unat (l_n l) + 1" by (simp add: l'_def unat_word_ariths)
  have len: "length (l_blocks l) = LOGBLOCKS" using assms(1) by (simp add: log_wf_def)
  show h: "home l' = home l @ [b]"
    unfolding home_def n using len assms(2) by (simp add: l'_def take_Suc_conv_app_nth)
  show "log_wf l'" using assms(1,2,4) sz n h len by (auto simp: log_wf_def l'_def log_area_def)
qed

definition log_frame :: "LogInner \<Rightarrow> LogInner \<Rightarrow> bool" where
  "log_frame l l' \<longleftrightarrow> l_start l' = l_start l \<and> l_size l' = l_size l \<and> l_dev l' = l_dev l \<and>
     l_outstanding l' = l_outstanding l \<and> l_committing l' = l_committing l"

definition log_room :: "nat \<Rightarrow> LogInner \<Rightarrow> bool" where
  "log_room k l \<longleftrightarrow> unat (l_n l) + k \<le> LOGBLOCKS \<and> LOGBLOCKS < unat (l_size l) \<and> 0 < l_outstanding l"

lemma log_room_write: "log_room (Suc k) l \<Longrightarrow> unat (l_n l) < LOGBLOCKS \<and> \<not> l_n l \<ge> l_size l - 1 \<and> 0 < l_outstanding l"
proof -
  assume r: "log_room (Suc k) l"
  then have "l_size l \<noteq> 0" by (auto simp: log_room_def)
  then have "unat (l_size l - 1) = unat (l_size l) - 1" by (metis unat_minus_one)
  with r show ?thesis by (auto simp: log_room_def word_le_nat_alt)
qed

text \<open>The step every file system operation is made of: read a block, change it, log it, release it.\<close>

definition logged_update :: "u32 \<Rightarrow> (u8 list \<Rightarrow> u8 list) \<Rightarrow> LogInner \<Rightarrow> BCache \<Rightarrow> (LogInner \<times> BCache) option" where
  "logged_update b f l c = do {
     (buf, c) \<leftarrow> bread (l_dev l) b c;
     let c = set_buf_data buf (f (buf_data buf c)) c;
     (l, c) \<leftarrow> log_write buf l c;
     Some (l, brelease buf c)
   }"

lemma logged_update_spec:
  assumes wf: "log_wf l" and inv: "cache_inv (l_dev l) c" and t: "txn l (\<lambda>_. 0) (cache_abs (l_dev l) c)" "st_held (cache_abs (l_dev l) c) = {}"
    and r: "log_room (Suc k) l" "unat (l_n l) < 29" and b: "b \<notin> log_area l" and f: "\<And>d. length d = BSIZE \<Longrightarrow> length (f d) = BSIZE"
  shows "\<exists>l' c'. logged_update b f l c = Some (l', c') \<and> log_wf l' \<and> log_frame l l' \<and> log_room k l' \<and> unat (l_n l') \<le> unat (l_n l) + 1 \<and>
    set (home l') = insert b (set (home l)) \<and> cache_inv (l_dev l) c' \<and> txn l' (\<lambda>_. 0) (cache_abs (l_dev l) c') \<and>
    st_held (cache_abs (l_dev l) c') = {} \<and> st_view (cache_abs (l_dev l) c') = (st_view (cache_abs (l_dev l) c))(b := f (st_view (cache_abs (l_dev l) c) b)) \<and>
    bc_disk c' = bc_disk c \<and> bc_writes c' = bc_writes c"
proof -
  let ?A = "cache_abs (l_dev l)"
  note R = log_room_write [OF r(1)]
  have refs: "st_refs (?A c) x = (if x \<in> set (home l) then 1 else 0)" for x using t(1) by (simp add: txn_def)
  have ts: "txn_store l (?A c)" using t by (rule txn_no_users)
  have "card (set (home l)) < 29" using r(2) log_wf_home(1) [OF wf] card_length [of "home l"] by simp
  then have rd: "can_read (NBUF - 1) b (?A c)" using txn_can_read(1) [OF ts] by simp
  define new where "new \<longleftrightarrow> b \<notin> set (home l)"
  have p: "\<not> new \<Longrightarrow> 0 < st_refs (?A c) b" "st_refs (?A c) b < 2 ^ 32 - 2" by (simp_all add: refs new_def)
  from bc.modify_block [OF inv rd, of f new, OF f p] obtain i c1 where
    1: "bread (l_dev l) b c = Some (i, c1)" and h: "buf_handle (l_dev l) (set_buf_data i (f (buf_data i c1)) c1) i b" and
    2: "let s3 = (if new then bpin i (set_buf_data i (f (buf_data i c1)) c1) else set_buf_data i (f (buf_data i c1)) c1)
      in cache_inv (l_dev l) (brelease i s3) \<and>
        ?A (brelease i s3) = (let st = store_set b (f (st_view (?A c) b)) (?A c) in if new then store_pin b st else st)"
    unfolding Let_def by blast
  define c2 where "c2 = set_buf_data i (f (buf_data i c1)) c1"
  define c3 where "c3 = brelease i (if new then bpin i c2 else c2)"
  define l' where "l' = (if new then l\<lparr>l_blocks := (l_blocks l)[unat (l_n l) := b], l_n := l_n l + 1\<rparr> else l)"
  have 3: "cache_inv (l_dev l) c3" "?A c3 = (let st = store_set b (f (st_view (?A c) b)) (?A c) in if new then store_pin b st else st)"
    using 2 by (simp_all only: Let_def c2_def c3_def)
  have ch: "caches (l_dev l) c2 i b" using h by (simp add: c2_def buf_handle_def)
  have "log_write i l c2 = Some (l', if new then bpin i c2 else c2)"
    using log_write_logged [OF _ _ _ ch wf] log_write_new [OF _ _ _ ch wf] R by (simp add: new_def l'_def)
  then have run: "logged_update b f l c = Some (l', c3)" using 1 by (simp add: logged_update_def c2_def c3_def)
  note ap = log_append [OF wf conjunct1 [OF R] _ b]
  have L: "log_wf l' \<and> unat (l_n l') \<le> unat (l_n l) + 1 \<and> set (home l') = insert b (set (home l)) \<and> distinct (home l')"
    using ap wf R t(1) by (auto simp: l'_def new_def txn_def)
  have fr: "log_frame l l'" by (simp add: l'_def log_frame_def)
  have rm: "log_room k l'" using L fr r(1) by (simp add: log_room_def log_frame_def)
  have "st_refs (?A c3) x = (if x \<in> set (home l') then 1 else 0)" for x
    using L by (auto simp: 3(2) Let_def store_defs refs new_def)
  then have T: "txn l' (\<lambda>_. 0) (?A c3)" using L by (simp add: txn_def)
  have "st_view (?A c3) = (st_view (?A c))(b := f (st_view (?A c) b))" "st_held (?A c3) = {}" "st_disk (?A c3) = st_disk (?A c)"
    "st_writes (?A c3) = st_writes (?A c)"
    using t(2) by (simp_all add: 3(2) Let_def store_defs)
  then show ?thesis using run L fr rm 3(1) T by (simp add: cache_abs_def)
qed

definition run_updates :: "(u32 \<times> (u8 list \<Rightarrow> u8 list)) list \<Rightarrow> LogInner \<Rightarrow> BCache \<Rightarrow> (LogInner \<times> BCache) option" where
  "run_updates us l c = foldO (\<lambda>(b, f) (l, c). logged_update b f l c) us (l, c)"

definition apply_updates :: "(u32 \<times> (u8 list \<Rightarrow> u8 list)) list \<Rightarrow> (u32 \<Rightarrow> u8 list) \<Rightarrow> u32 \<Rightarrow> u8 list" where
  "apply_updates us V = fold (\<lambda>(b, f) V. V(b := f (V b))) us V"

definition updates_ok :: "LogInner \<Rightarrow> (u32 \<times> (u8 list \<Rightarrow> u8 list)) list \<Rightarrow> bool" where
  "updates_ok l us \<longleftrightarrow> (\<forall>(b, f) \<in> set us. b \<notin> log_area l \<and> (\<forall>d. length d = BSIZE \<longrightarrow> length (f d) = BSIZE))"

lemma log_frame_simps:
  "log_frame l l' \<Longrightarrow> l_dev l' = l_dev l \<and> l_start l' = l_start l \<and> l_size l' = l_size l \<and> l_outstanding l' = l_outstanding l \<and>
     l_committing l' = l_committing l \<and> log_area l' = log_area l"
  "log_frame l l' \<Longrightarrow> log_frame l' m \<Longrightarrow> log_frame l m" "log_frame l l"
  by (simp_all add: log_frame_def log_area_def)

lemma run_updates_spec:
  assumes "log_wf l" "cache_inv (l_dev l) c" "txn l (\<lambda>_. 0) (cache_abs (l_dev l) c)" "st_held (cache_abs (l_dev l) c) = {}"
    "log_room (length us) l" "unat (l_n l) + length us < 30" "updates_ok l us"
  shows "\<exists>l' c'. run_updates us l c = Some (l', c') \<and> log_wf l' \<and> log_frame l l' \<and> unat (l_n l') < 30 \<and>
    cache_inv (l_dev l) c' \<and> txn l' (\<lambda>_. 0) (cache_abs (l_dev l) c') \<and> st_held (cache_abs (l_dev l) c') = {} \<and>
    st_view (cache_abs (l_dev l) c') = apply_updates us (st_view (cache_abs (l_dev l) c)) \<and> bc_disk c' = bc_disk c \<and> bc_writes c' = bc_writes c \<and>
    unat (l_n l') \<le> unat (l_n l) + length us"
  using assms
proof (induction us arbitrary: l c)
  case Nil
  then show ?case by (simp add: run_updates_def apply_updates_def log_frame_simps)
next
  case (Cons u us)
  obtain b f where u: "u = (b, f)" by fastforce
  have r: "log_room (Suc (length us)) l" "unat (l_n l) < 29" using Cons.prems(5,6) by simp_all
  have o: "b \<notin> log_area l" "\<And>d. length d = BSIZE \<Longrightarrow> length (f d) = BSIZE" "updates_ok l us"
    using Cons.prems(7) by (auto simp: updates_ok_def u)
  from logged_update_spec [OF Cons.prems(1-4) r o(1), of f, OF o(2)] obtain l1 c1 where
    1: "logged_update b f l c = Some (l1, c1)" "log_wf l1" "log_frame l l1" "log_room (length us) l1" "unat (l_n l1) \<le> unat (l_n l) + 1"
      "cache_inv (l_dev l) c1" "txn l1 (\<lambda>_. 0) (cache_abs (l_dev l) c1)" "st_held (cache_abs (l_dev l) c1) = {}"
      "st_view (cache_abs (l_dev l) c1) = (st_view (cache_abs (l_dev l) c))(b := f (st_view (cache_abs (l_dev l) c) b))"
      "bc_disk c1 = bc_disk c" "bc_writes c1 = bc_writes c" by blast
  have d: "l_dev l1 = l_dev l" and ok: "updates_ok l1 us" using log_frame_simps(1) [OF 1(3)] o(3) by (simp_all add: updates_ok_def)
  have n: "unat (l_n l1) + length us < 30" using 1(5) Cons.prems(6) by simp
  from Cons.IH [of l1 c1, unfolded d, OF 1(2,6-8,4) n ok] obtain l2 c2 where
    2: "run_updates us l1 c1 = Some (l2, c2)" "log_wf l2" "log_frame l1 l2" "unat (l_n l2) < 30" "cache_inv (l_dev l) c2"
      "txn l2 (\<lambda>_. 0) (cache_abs (l_dev l) c2)" "st_held (cache_abs (l_dev l) c2) = {}"
      "st_view (cache_abs (l_dev l) c2) = apply_updates us (st_view (cache_abs (l_dev l) c1))" "bc_disk c2 = bc_disk c1" "bc_writes c2 = bc_writes c1"
      "unat (l_n l2) \<le> unat (l_n l1) + length us" by blast
  have run: "run_updates (u # us) l c = Some (l2, c2)" using 1(1) 2(1) by (simp add: run_updates_def u)
  have v: "st_view (cache_abs (l_dev l) c2) = apply_updates (u # us) (st_view (cache_abs (l_dev l) c))"
    by (simp add: 2(8) 1(9) apply_updates_def u)
  have n2: "unat (l_n l2) \<le> unat (l_n l) + length (u # us)" using 2(11) 1(5) by simp
  show ?case using run v n2 2(2,4-7) 2(9,10) 1(10,11) log_frame_simps(2) [OF 1(3) 2(3)] by (intro exI [of _ l2] exI [of _ c2]) simp
qed

text \<open>The disk that a reboot settles on, when the machine stops after \<open>k\<close> of the writes of a commit.\<close>

lemma commit_atomic:
  assumes wf: "log_wf l" and inv: "cache_inv (l_dev l) c" and t: "txn l (\<lambda>_. 0) (cache_abs (l_dev l) c)" "st_held (cache_abs (l_dev l) c) = {}"
    and n: "unat (l_n l) < 29" and h: "rd32 (bc_disk c (l_start l)) 0 = 0"
  shows "\<exists>c'. commit l c = Some (l\<lparr>l_n := 0\<rparr>, c') \<and> cache_inv (l_dev l) c' \<and>
    (\<forall>k. settles l (if k \<le> unat (l_n l) then bc_disk c else st_view (cache_abs (l_dev l) c))
      (apply_writes (take k (drop (length (bc_writes c)) (bc_writes c'))) (bc_disk c)))"
proof -
  let ?A = "cache_abs (l_dev l)" and ?V = "st_view (cache_abs (l_dev l) c)"
  have D: "st_disk (?A x) = bc_disk x" "st_writes (?A x) = bc_writes x" for x by (simp_all add: cache_abs_def)
  note S = bc.store [OF inv]
  then have ok: "disk_ok (bc_disk c)" "disk_ok ?V" by (simp_all add: store_inv_def disk_ok_def D)
  have refs: "st_refs (?A c) b = 0" if "b \<notin> set (home l)" for b using t(1) that by (simp add: txn_def)
  then have same: "bc_disk c b = ?V b" if "b \<notin> set (home l)" for b using S that by (simp add: store_inv_def D)
  have cl: "clean l (bc_disk c) (bc_disk c)" using ok(1) h by (simp add: clean_def)
  show ?thesis
  proof (cases "l_n l = 0")
    case True
    then have "home l = []" by (simp add: home_def)
    then have "?V = bc_disk c" using same by (auto simp: fun_eq_iff)
    moreover have "commit l c = Some (l\<lparr>l_n := 0\<rparr>, c)" using True by (simp add: commit_def)
    ultimately show ?thesis using inv cl by (simp add: settles_def)
  next
    case False
    then have n0: "0 < unat (l_n l)" by (simp add: unat_gt_0)
    have d: "distinct (home l)" using t(1) by (simp add: txn_def)
    from commit_spec [OF wf inv txn_no_users [OF t] d n0 n] obtain c' where
      c': "commit l c = Some (l\<lparr>l_n := 0\<rparr>, c')" "cache_inv (l_dev l) c'" "?A c' = (store_writes (commit_writes l ?V) (?A c))\<lparr>st_refs := \<lambda>_. 0\<rparr>"
      by blast
    have "bc_writes c' = bc_writes c @ commit_writes l ?V" using D(2) [of c', symmetric] by (simp add: c'(3) D)
    then have w: "drop (length (bc_writes c)) (bc_writes c') = commit_writes l ?V" by simp
    have same': "\<forall>b. b \<notin> log_area l \<longrightarrow> b \<notin> set (home l) \<longrightarrow> bc_disk c b = ?V b" using same by simp
    note P = commit_prefix [OF wf cl ok(2) same']
    have "settles l (if k \<le> unat (l_n l) then bc_disk c else ?V) (apply_writes (take k (commit_writes l ?V)) (bc_disk c))" for k
    proof (cases "k \<le> unat (l_n l)")
      case False
      then have "k = unat (l_n l) + 1 + (k - unat (l_n l) - 1)" by simp
      from P(2) [OF this] P(3) [OF this] False show ?thesis
        by (cases "k - unat (l_n l) - 1 \<le> unat (l_n l)") (simp_all add: settles_def)
    qed (simp add: settles_def P(1))
    then show ?thesis using c'(1,2) by (intro exI [of _ c'] conjI allI) (simp_all only: w)
  qed
qed

section \<open>Atomicity of a transaction\<close>

text \<open>
  Property C1.  A file system call is all or nothing.  On a quiescent system (an empty log, no buffer in
  use, an empty header on disk) an operation is admitted, changes at most \<open>MAXOPBLOCKS\<close> blocks outside the
  log area through the log, and ends, which commits; none of the steps panics.  When the machine stops
  after \<open>k\<close> of the disk writes this causes, and any number of reboots are themselves interrupted, then the
  next boot that completes leaves every block outside the log area as it was before the operation if the
  header had not been written (\<open>k\<close> is at most the number of logged blocks), and all of them as the operation
  left them otherwise.
\<close>

theorem transaction_atomic:
  assumes "log_wf l" "l_n l = 0" "l_outstanding l = 0" "\<not> l_committing l" "LOGBLOCKS < unat (l_size l)"
    "cache_inv (l_dev l) c" "in_use (cache_abs (l_dev l) c) = {}" "rd32 (bc_disk c (l_start l)) 0 = 0"
    "updates_ok l us" "length us \<le> MAXOPBLOCKS"
  shows "\<exists>l1 s1 l2 c2 l3 c3 s3. begin_op cur l s = (True, l1, s1) \<and> run_updates us l1 c = Some (l2, c2) \<and>
    end_op (Some cur) l2 c2 s1 = Some (l3, c3, s3) \<and> l_n l3 = 0 \<and> l_outstanding l3 = 0 \<and> \<not> l_committing l3 \<and>
    (\<forall>k d. crashed (l_dev l) (l_start l) (l_size l) (apply_writes (take k (drop (length (bc_writes c)) (bc_writes c3))) (bc_disk c)) d \<longrightarrow>
      (\<exists>lr cr. boot (l_dev l) (l_start l) (l_size l) d = Some (lr, cr) \<and>
        (\<forall>b. b \<notin> log_area l \<longrightarrow> bc_disk cr b = (if k \<le> unat (l_n l2) then bc_disk c b else apply_updates us (bc_disk c) b))))"
proof -
  let ?A = "cache_abs (l_dev l)" and ?l1 = "l\<lparr>l_outstanding := 1\<rparr>"
  have B: "begin_op cur l s = (True, ?l1, s)" using assms(2-4) by (simp add: begin_op_def)
  have home: "home ?l1 = []" using assms(2) by (simp add: home_def)
  then have wf1: "log_wf ?l1" using assms(1) by (simp add: log_wf_def)
  note S = bc.store [OF assms(6)]
  have z: "st_refs (?A c) b = 0" for b using assms(7) by (auto simp: in_use_def)
  then have held: "st_held (?A c) = {}" and V: "st_view (?A c) = bc_disk c"
    using S by (auto simp: store_inv_def cache_abs_def fun_eq_iff)
  have t: "txn ?l1 (\<lambda>_. 0) (?A c)" using z home by (simp add: txn_def)
  have r: "log_room (length us) ?l1" "unat (l_n ?l1) + length us < 30" "updates_ok ?l1 us"
    using assms(2,5,9,10) by (simp_all add: log_room_def updates_ok_def log_area_def)
  from run_updates_spec [of ?l1 c us, OF wf1] r t held assms(6) obtain l2 c2 where
    2: "run_updates us ?l1 c = Some (l2, c2)" "log_wf l2" "log_frame ?l1 l2" "unat (l_n l2) \<le> length us" "cache_inv (l_dev l) c2" "txn l2 (\<lambda>_. 0) (?A c2)"
      "st_held (?A c2) = {}" "st_view (?A c2) = apply_updates us (bc_disk c)" "bc_disk c2 = bc_disk c" "bc_writes c2 = bc_writes c"
    using V assms(2) by auto
  define l2' where "l2' = l2\<lparr>l_outstanding := 0, l_committing := True\<rparr>"
  have F: "l_dev l2 = l_dev l" "l_start l2 = l_start l" "l_size l2 = l_size l" "l_outstanding l2 = 1" "\<not> l_committing l2" "log_area l2 = log_area l"
    using log_frame_simps(1) [OF 2(3)] assms(4) by (simp_all add: log_area_def)
  have G: "log_wf l2'" "txn l2' (\<lambda>_. 0) (?A c2)" "l_dev l2' = l_dev l" "l_start l2' = l_start l" "l_size l2' = l_size l" "l_n l2' = l_n l2" "log_area l2' = log_area l"
    using 2(2,6) F by (simp_all add: l2'_def log_wf_def txn_def home_def log_area_def)
  have n: "unat (l_n l2') < 29" using 2(4) assms(10) G(6) by simp
  have h2: "rd32 (bc_disk c2 (l_start l2')) 0 = 0" using assms(8) by (simp add: 2(9) G(4))
  from commit_atomic [of l2' c2, unfolded G(3), OF G(1) 2(5) G(2) 2(7) n h2] obtain c3 where
    3: "commit l2' c2 = Some (l2'\<lparr>l_n := 0\<rparr>, c3)" "\<forall>k. settles l2' (if k \<le> unat (l_n l2) then bc_disk c else apply_updates us (bc_disk c))
      (apply_writes (take k (drop (length (bc_writes c)) (bc_writes c3))) (bc_disk c))"
    unfolding G(6) 2(8-10) by blast
  have E: "end_op (Some cur) l2 c2 s = Some (l2'\<lparr>l_n := 0, l_committing := False\<rparr>, c3, wakeup (Some cur) ChLog s)"
    using 3(1) F(4,5) by (simp add: end_op_def l2'_def)
  note S2 = bc.store [OF 2(5)]
  have ok: "disk_ok (if k \<le> unat (l_n l2) then bc_disk c else apply_updates us (bc_disk c))" for k
    using S S2 by (simp add: store_inv_def disk_ok_def cache_abs_def flip: 2(8))
  have "\<exists>lr cr. boot (l_dev l) (l_start l) (l_size l) d = Some (lr, cr) \<and>
      (\<forall>b. b \<notin> log_area l \<longrightarrow> bc_disk cr b = (if k \<le> unat (l_n l2) then bc_disk c b else apply_updates us (bc_disk c) b))"
    if "crashed (l_dev l) (l_start l) (l_size l) (apply_writes (take k (drop (length (bc_writes c)) (bc_writes c3))) (bc_disk c)) d" for k d
    using boot_after_crashes [of l2', unfolded G(3-5,7), OF that G(1) ok spec [OF 3(2)]] by (auto split: if_splits)
  then have A: "\<forall>k d. crashed (l_dev l) (l_start l) (l_size l) (apply_writes (take k (drop (length (bc_writes c)) (bc_writes c3))) (bc_disk c)) d \<longrightarrow>
      (\<exists>lr cr. boot (l_dev l) (l_start l) (l_size l) d = Some (lr, cr) \<and>
        (\<forall>b. b \<notin> log_area l \<longrightarrow> bc_disk cr b = (if k \<le> unat (l_n l2) then bc_disk c b else apply_updates us (bc_disk c) b)))"
    by blast
  show ?thesis
    by (rule exI [of _ ?l1], rule exI [of _ s], rule exI [of _ l2], rule exI [of _ c2], rule exI [of _ "l2'\<lparr>l_n := 0, l_committing := False\<rparr>"],
        rule exI [of _ c3], rule exI [of _ "wakeup (Some cur) ChLog s"]) (intro conjI B 2(1) E A, simp_all add: l2'_def)
qed

definition example_log :: LogInner where
  "example_log = log_new\<lparr>l_start := 2, l_size := 31, l_dev := 1\<rparr>"

definition example_cache :: BCache where
  "example_cache = bcache_init (bcache_new (\<lambda>_. replicate BSIZE 0))"

lemma example_cache_facts:
  "cache_inv 1 example_cache" "cache_abs 1 example_cache = \<lparr>st_view = \<lambda>_. replicate BSIZE 0, st_disk = \<lambda>_. replicate BSIZE 0, st_refs = \<lambda>_. 0, st_held = {}, st_writes = []\<rparr>"
  "bc_disk example_cache b = replicate BSIZE 0" "bc_writes example_cache = []"
  using bcache_init_inv [of "\<lambda>_. replicate BSIZE 0" 1] by (simp_all add: example_cache_def bcache_init_def bcache_new_def)

lemma example_log_facts:
  "log_wf example_log" "l_n example_log = 0" "l_outstanding example_log = 0" "\<not> l_committing example_log" "unat (l_size example_log) = 31"
  "l_dev example_log = 1" "l_start example_log = 2" "l_size example_log = 31" "40 \<notin> log_area example_log" "41 \<notin> log_area example_log"
  by (simp_all add: example_log_def log_new_def log_wf_def home_def log_area_def)

lemma rd32_zero: "rd32 (replicate BSIZE 0) 0 = 0"
proof -
  have "replicate BSIZE (0 :: u8) = 0 # 0 # 0 # 0 # replicate 1020 0"
    using replicate_add [of 4 1020 "0 :: u8"] by (simp add: BSIZE_def numeral_eq_Suc)
  then show ?thesis by (simp add: rd32_def slice_def numeral_eq_Suc)
qed

theorem transaction_atomic_witness:
  "\<exists>l1 s1 l2 c2 l3 c3 s3 lr cr. begin_op 0 example_log proc_table_new = (True, l1, s1) \<and>
    run_updates [(40, \<lambda>_. replicate BSIZE 7), (41, \<lambda>_. replicate BSIZE 8)] l1 example_cache = Some (l2, c2) \<and>
    end_op (Some 0) l2 c2 s1 = Some (l3, c3, s3) \<and> boot 1 2 31 (apply_writes (take 3 (bc_writes c3)) (\<lambda>_. replicate BSIZE 0)) = Some (lr, cr) \<and>
    bc_disk cr 40 = replicate BSIZE (if 3 \<le> unat (l_n l2) then 0 else 7) \<and> bc_disk cr 41 = replicate BSIZE (if 3 \<le> unat (l_n l2) then 0 else 8)"
proof -
  let ?us = "[(40, \<lambda>_. replicate BSIZE 7), (41, \<lambda>_. replicate BSIZE 8)] :: (u32 \<times> (u8 list \<Rightarrow> u8 list)) list"
  have d: "bc_disk example_cache = (\<lambda>_. replicate BSIZE 0)" by (simp add: fun_eq_iff example_cache_facts(3))
  have u: "updates_ok example_log ?us" "length ?us \<le> MAXOPBLOCKS" using example_log_facts by (simp_all add: updates_ok_def)
  have iu: "in_use (cache_abs (l_dev example_log) example_cache) = {}" by (simp add: example_log_facts example_cache_facts(2) in_use_def)
  note E = example_log_facts
  have sz: "LOGBLOCKS < unat (l_size example_log)" and ci: "cache_inv (l_dev example_log) example_cache" and
    hd: "rd32 (bc_disk example_cache (l_start example_log)) 0 = 0"
    by (simp_all only: E example_cache_facts rd32_zero) simp
  note T = transaction_atomic [of _ _ _ 0 proc_table_new, OF E(1-4) sz ci iu hd u]
  from T [unfolded E(6-8) example_cache_facts(4) d list.size(3) drop_0] obtain l1 s1 l2 c2 l3 c3 s3 where
    r: "begin_op 0 example_log proc_table_new = (True, l1, s1)" "run_updates ?us l1 example_cache = Some (l2, c2)" "end_op (Some 0) l2 c2 s1 = Some (l3, c3, s3)" and
    A: "\<forall>k d. crashed 1 2 31 (apply_writes (take k (bc_writes c3)) (\<lambda>_. replicate BSIZE 0)) d \<longrightarrow>
      (\<exists>lr cr. boot 1 2 31 d = Some (lr, cr) \<and>
        (\<forall>b. b \<notin> log_area example_log \<longrightarrow> bc_disk cr b = (if k \<le> unat (l_n l2) then replicate BSIZE 0 else apply_updates ?us (\<lambda>_. replicate BSIZE 0) b)))"
    by (elim exE conjE)
  from A [rule_format, OF crashed_once, of 3] obtain lr cr where
    "boot 1 2 31 (apply_writes (take 3 (bc_writes c3)) (\<lambda>_. replicate BSIZE 0)) = Some (lr, cr)"
    "\<forall>b. b \<notin> log_area example_log \<longrightarrow> bc_disk cr b = (if 3 \<le> unat (l_n l2) then replicate BSIZE 0 else apply_updates ?us (\<lambda>_. replicate BSIZE 0) b)" by blast
  with r example_log_facts(9,10) show ?thesis
    by (intro exI [of _ l1] exI [of _ s1] exI [of _ l2] exI [of _ c2] exI [of _ l3] exI [of _ c3] exI [of _ s3] exI [of _ lr] exI [of _ cr])
      (simp add: apply_updates_def)
qed

section \<open>Log space\<close>

text \<open>
  Concurrent operations, each with the number of \<open>log_write\<close> calls it may still make.  The cache, the
  buffer and the process of a step are arbitrary.
\<close>

inductive log_run :: "LogInner \<Rightarrow> nat list \<Rightarrow> bool" where
  lr_init: "l_n l = 0 \<Longrightarrow> l_outstanding l = 0 \<Longrightarrow> \<not> l_committing l \<Longrightarrow> LOGBLOCKS < unat (l_size l) \<Longrightarrow> log_run l []"
| lr_begin: "log_run l qs \<Longrightarrow> begin_op cur l s = (True, l', s') \<Longrightarrow> log_run l' (MAXOPBLOCKS # qs)"
| lr_write: "log_run l (xs @ Suc q # ys) \<Longrightarrow> log_write buf l c = Some (l', c') \<Longrightarrow> log_run l' (xs @ q # ys)"
| lr_end: "log_run l (xs @ q # ys) \<Longrightarrow> end_op cur l c s = Some (l', c', s') \<Longrightarrow> log_run l' (xs @ ys)"

definition log_space :: "LogInner \<Rightarrow> nat list \<Rightarrow> bool" where
  "log_space l qs \<longleftrightarrow> unat (l_n l) + sum_list qs \<le> LOGBLOCKS \<and> unat (l_outstanding l) = length qs \<and> length qs \<le> 3 \<and>
     (\<forall>q \<in> set qs. q \<le> MAXOPBLOCKS) \<and> \<not> l_committing l \<and> LOGBLOCKS < unat (l_size l)"

lemma log_write_frame:
  assumes "log_write buf l c = Some (l', c')"
  shows "log_frame l l' \<and> unat (l_n l') \<le> unat (l_n l) + 1 \<and> unat (l_n l) \<le> unat (l_n l')"
proof -
  have n: "unat (l_n l) < LOGBLOCKS" using assms by (auto simp: log_write_def split: if_splits)
  then have "unat (l_n l + 1) = unat (l_n l) + 1" by (simp add: unat_word_ariths)
  with assms n show ?thesis by (auto simp: log_write_def log_frame_def Let_def split: if_splits)
qed

lemma commit_frame: "commit l c = Some (l', c') \<Longrightarrow> l' = l\<lparr>l_n := 0\<rparr>"
proof (cases "0 < l_n l")
  case True
  moreover assume "commit l c = Some (l', c')"
  ultimately show ?thesis by (auto simp: commit_def Let_def split: bind_splits)
next
  case False
  then have "l_n l = 0" using word_neq_0_conv by blast
  moreover assume "commit l c = Some (l', c')"
  ultimately show ?thesis by (simp add: commit_def)
qed

lemma log_run_space: "log_run l qs \<Longrightarrow> log_space l qs"
proof (induction rule: log_run.induct)
  case (lr_init l)
  then show ?case by (simp add: log_space_def)
next
  case (lr_begin l qs cur s l' s')
  have g: "unat (l_n l) + (unat (l_outstanding l) + 1) * MAXOPBLOCKS \<le> LOGBLOCKS" and l': "l' = l\<lparr>l_outstanding := l_outstanding l + 1\<rparr>"
    using lr_begin(2) by (auto simp: begin_op_def split: if_splits)
  have "sum_list qs \<le> length qs * MAXOPBLOCKS" if "\<forall>q \<in> set qs. q \<le> MAXOPBLOCKS" for qs
    using that by (induction qs) auto
  then have "sum_list qs \<le> length qs * MAXOPBLOCKS" using lr_begin.IH by (simp add: log_space_def)
  moreover have "unat (l_outstanding l + 1) = unat (l_outstanding l) + 1" using g by (simp add: unat_word_ariths)
  ultimately show ?case using lr_begin.IH g by (auto simp: log_space_def l')
next
  case (lr_write l xs q ys buf c l' c')
  then show ?case using log_write_frame [OF lr_write(2)] by (auto simp: log_space_def log_frame_def)
next
  case (lr_end l xs q ys cur c s l' c' s')
  have o: "l_outstanding l \<noteq> 0" using lr_end.IH by (auto simp: log_space_def)
  then have "unat (l_outstanding l - 1) = unat (l_outstanding l) - 1" by (rule unat_minus_one)
  then have o1: "unat (l_outstanding l - 1) = length (xs @ ys)" using lr_end.IH by (simp add: log_space_def)
  show ?case
  proof (cases "l_outstanding l - 1 = 0")
    case True
    then have "xs @ ys = []" using o1 by simp
    with True lr_end(2) lr_end.IH show ?thesis by (auto simp: end_op_def log_space_def dest!: commit_frame split: if_splits bind_splits)
  next
    case False
    then have "l' = l\<lparr>l_outstanding := l_outstanding l - 1\<rparr>" using lr_end(2) by (auto simp: end_op_def Let_def split: if_splits)
    then show ?thesis using o1 lr_end.IH by (auto simp: log_space_def)
  qed
qed

text \<open>
  Property C24.  Admission control keeps the log from overflowing.  However operations begin, log blocks
  and end, as long as each makes at most \<open>MAXOPBLOCKS\<close> calls of \<open>log_write\<close>: at most three operations run at
  once, the log never holds more than \<open>LOGBLOCKS\<close> blocks, and an operation that still has a call left
  makes it without the panics ``transaction too big'' and ``outside of trans''.
\<close>

theorem log_never_overflows:
  assumes "log_run l qs"
  shows "length qs \<le> 3 \<and> unat (l_n l) + sum_list qs \<le> LOGBLOCKS \<and>
    (\<forall>i < length qs. 0 < qs ! i \<longrightarrow> (\<exists>l' c'. log_write buf l c = Some (l', c') \<and> log_run l' (qs[i := qs ! i - 1])))"
proof -
  note S = log_run_space [OF assms]
  have "\<exists>l' c'. log_write buf l c = Some (l', c') \<and> log_run l' (qs[i := qs ! i - 1])" if i: "i < length qs" "0 < qs ! i" for i
  proof -
    have "qs ! i \<le> sum_list qs" using i(1) by (intro member_le_sum_list) simp_all
    then have "log_room 1 l" using S i by (auto simp: log_room_def log_space_def word_less_nat_alt)
    then have "log_write buf l c \<noteq> None" using log_room_write [of 0 l] by (auto simp: log_write_def Let_def not_le word_less_nat_alt)
    then obtain l' c' where w: "log_write buf l c = Some (l', c')" by auto
    have "qs = take i qs @ Suc (qs ! i - 1) # drop (Suc i) qs" using i by (simp add: id_take_nth_drop [symmetric])
    with assms lr_write [OF _ w] have "log_run l' (take i qs @ (qs ! i - 1) # drop (Suc i) qs)" by metis
    with w i(1) show ?thesis by (auto simp: upd_conv_take_nth_drop)
  qed
  with S show ?thesis by (auto simp: log_space_def)
qed

theorem log_never_overflows_witness:
  "log_run (example_log\<lparr>l_outstanding := 1\<rparr>) [10] \<and> (\<exists>l' c'. log_write 3 (example_log\<lparr>l_outstanding := 1\<rparr>) example_cache = Some (l', c') \<and> log_run l' [9])"
proof -
  have "log_run example_log []" by (rule lr_init) (simp_all add: example_log_facts)
  moreover have "begin_op 0 example_log proc_table_new = (True, example_log\<lparr>l_outstanding := 1\<rparr>, proc_table_new)"
    by (simp add: begin_op_def example_log_facts)
  ultimately have r: "log_run (example_log\<lparr>l_outstanding := 1\<rparr>) [10]" using lr_begin by fastforce
  from log_never_overflows [OF this, of 3 example_cache] have "\<exists>l' c'. log_write 3 (example_log\<lparr>l_outstanding := 1\<rparr>) example_cache = Some (l', c') \<and> log_run l' [9]"
    by simp
  with r show ?thesis ..
qed

end
