(* ===== verification/Txn.thy ===== *)
theory Txn
  imports Log
begin

text \<open>
  What a file system operation sees of the cache and the log while its transaction is open: blocks are
  read, changed with a log record, and released; nothing else is visible.  The locale states this contract;
  it is interpreted on the log and the cache.
\<close>

type_synonym bstore = "LogInner \<times> BCache"

definition tx_read :: "u32 \<Rightarrow> u32 \<Rightarrow> bstore \<Rightarrow> (nat \<times> bstore) option" where
  "tx_read dev b = (\<lambda>(l, c). do { (i, c) \<leftarrow> bread dev b c; Some (i, (l, c)) })"

definition tx_data :: "nat \<Rightarrow> bstore \<Rightarrow> u8 list" where
  "tx_data i s = buf_data i (snd s)"

definition tx_set :: "nat \<Rightarrow> u8 list \<Rightarrow> bstore \<Rightarrow> bstore" where
  "tx_set i d = (\<lambda>(l, c). (l, set_buf_data i d c))"

definition tx_log :: "nat \<Rightarrow> bstore \<Rightarrow> bstore option" where
  "tx_log i = (\<lambda>(l, c). log_write i l c)"

definition tx_release :: "nat \<Rightarrow> bstore \<Rightarrow> bstore" where
  "tx_release i = (\<lambda>(l, c). (l, brelease i c))"

section \<open>The contract\<close>

text \<open>
  \<open>ok k H s\<close>: the transaction may log \<open>k\<close> more blocks and the caller holds the blocks \<open>H\<close>.
\<close>

locale transaction =
  fixes ok :: "nat \<Rightarrow> u32 set \<Rightarrow> 's \<Rightarrow> bool"
    and area :: "u32 set"
    and view :: "'s \<Rightarrow> u32 \<Rightarrow> u8 list"
    and handle :: "'s \<Rightarrow> nat \<Rightarrow> u32 \<Rightarrow> bool"
    and rd :: "u32 \<Rightarrow> 's \<Rightarrow> (nat \<times> 's) option"
    and dat :: "nat \<Rightarrow> 's \<Rightarrow> u8 list"
    and put :: "nat \<Rightarrow> u8 list \<Rightarrow> 's \<Rightarrow> 's"
    and log :: "nat \<Rightarrow> 's \<Rightarrow> 's option"
    and rel :: "nat \<Rightarrow> 's \<Rightarrow> 's"
  assumes block_size: "ok k H s \<Longrightarrow> length (view s b) = BSIZE"
    and room_mono: "ok (Suc k) H s \<Longrightarrow> ok k H s"
    and read_law: "ok k H s \<Longrightarrow> b \<notin> H \<Longrightarrow> card H < 4 \<Longrightarrow>
      \<exists>i s'. rd b s = Some (i, s') \<and> ok k (insert b H) s' \<and> view s' = view s \<and> handle s' i b \<and> (\<forall>j c. handle s j c \<longrightarrow> handle s' j c)"
    and data_law: "ok k H s \<Longrightarrow> handle s i b \<Longrightarrow> dat i s = view s b"
    and update_law: "ok (Suc k) H s \<Longrightarrow> handle s i b \<Longrightarrow> b \<notin> area \<Longrightarrow> length d = BSIZE \<Longrightarrow>
      \<exists>s'. log i (put i d s) = Some s' \<and> ok k H s' \<and> view s' = (view s)(b := d) \<and> (\<forall>j c. handle s j c \<longrightarrow> handle s' j c)"
    and release_law: "ok k H s \<Longrightarrow> handle s i b \<Longrightarrow>
      ok k (H - {b}) (rel i s) \<and> view (rel i s) = view s \<and> (\<forall>j c. handle s j c \<longrightarrow> c \<noteq> b \<longrightarrow> handle (rel i s) j c)"
begin

lemma room_le: "ok k H s \<Longrightarrow> j \<le> k \<Longrightarrow> ok j H s"
proof (induction "k - j" arbitrary: k)
  case (Suc n)
  then have "ok (Suc (k - 1)) H s" "n = (k - 1) - j" "j \<le> k - 1" by simp_all
  then show ?case using Suc.hyps(1) room_mono by blast
qed simp

text \<open>Read a block and release it; read a block, replace it, log it and release it.\<close>

lemma peek:
  assumes "ok k H s" "b \<notin> H" "card H < 4"
  shows "\<exists>i s1. rd b s = Some (i, s1) \<and> dat i s1 = view s b \<and> ok k H (rel i s1) \<and> view (rel i s1) = view s \<and>
    ok k (insert b H) s1 \<and> view s1 = view s \<and> handle s1 i b \<and> (\<forall>j c. handle s j c \<longrightarrow> handle s1 j c) \<and> (\<forall>j c. handle s j c \<longrightarrow> c \<noteq> b \<longrightarrow> handle (rel i s1) j c)"
proof -
  from read_law [OF assms] obtain i s1 where
    1: "rd b s = Some (i, s1)" "ok k (insert b H) s1" "view s1 = view s" "handle s1 i b" "\<forall>j c. handle s j c \<longrightarrow> handle s1 j c" by blast
  have "insert b H - {b} = H" using assms(2) by simp
  with release_law [OF 1(2,4)] have "ok k H (rel i s1)" "view (rel i s1) = view s" "\<forall>j c. handle s1 j c \<longrightarrow> c \<noteq> b \<longrightarrow> handle (rel i s1) j c"
    by (simp_all add: 1(3))
  with 1 data_law [OF 1(2,4)] show ?thesis by auto
qed

lemma modify:
  assumes "ok (Suc k) H s" "b \<notin> H" "card H < 4" "b \<notin> area" "length (f (view s b)) = BSIZE"
  shows "\<exists>i s1 s2. rd b s = Some (i, s1) \<and> dat i s1 = view s b \<and> log i (put i (f (view s b)) s1) = Some s2 \<and>
    ok k H (rel i s2) \<and> view (rel i s2) = (view s)(b := f (view s b)) \<and> (\<forall>j c. handle s j c \<longrightarrow> c \<noteq> b \<longrightarrow> handle (rel i s2) j c)"
proof -
  from peek [OF assms(1-3)] obtain i s1 where
    1: "rd b s = Some (i, s1)" "dat i s1 = view s b" "ok (Suc k) (insert b H) s1" "view s1 = view s" "handle s1 i b" "\<forall>j c. handle s j c \<longrightarrow> handle s1 j c"
    by blast
  from update_law [OF 1(3,5) assms(4,5)] obtain s2 where
    2: "log i (put i (f (view s b)) s1) = Some s2" "ok k (insert b H) s2" "view s2 = (view s1)(b := f (view s b))" "\<forall>j c. handle s1 j c \<longrightarrow> handle s2 j c" by blast
  then have h: "handle s2 i b" using 1(5) by blast
  have "insert b H - {b} = H" using assms(2) by simp
  with release_law [OF 2(2) h] have "ok k H (rel i s2)" "view (rel i s2) = (view s)(b := f (view s b))" "\<forall>j c. handle s2 j c \<longrightarrow> c \<noteq> b \<longrightarrow> handle (rel i s2) j c"
    by (simp_all add: 2(3) 1(4))
  with 1 2 show ?thesis by blast
qed

end

section \<open>The log and the cache provide it\<close>

definition txn_ok :: "u32 \<Rightarrow> u32 set \<Rightarrow> nat \<Rightarrow> u32 set \<Rightarrow> bstore \<Rightarrow> bool" where
  "txn_ok dev area k H = (\<lambda>(l, c). log_wf l \<and> l_dev l = dev \<and> log_area l = area \<and> log_room k l \<and> unat (l_n l) + k \<le> 25 \<and> cache_inv dev c \<and>
     txn l (\<lambda>b. if b \<in> H then 1 else 0) (cache_abs dev c) \<and> st_held (cache_abs dev c) = H \<and>
     (\<forall>b. b \<notin> set (home l) \<longrightarrow> st_view (cache_abs dev c) b = st_disk (cache_abs dev c) b))"

definition txn_view :: "u32 \<Rightarrow> bstore \<Rightarrow> u32 \<Rightarrow> u8 list" where
  "txn_view dev s = st_view (cache_abs dev (snd s))"

definition txn_handle :: "u32 \<Rightarrow> bstore \<Rightarrow> nat \<Rightarrow> u32 \<Rightarrow> bool" where
  "txn_handle dev s = buf_handle dev (snd s)"

lemma txn_read_law:
  assumes "txn_ok dev area k H s" "b \<notin> H" "card H < 4"
  shows "\<exists>i s'. tx_read dev b s = Some (i, s') \<and> txn_ok dev area k (insert b H) s' \<and> txn_view dev s' = txn_view dev s \<and>
    txn_handle dev s' i b \<and> (\<forall>j c. txn_handle dev s j c \<longrightarrow> txn_handle dev s' j c)"
proof -
  obtain l c where s: "s = (l, c)" by fastforce
  have A: "cache_inv dev c" "txn l (\<lambda>b. if b \<in> H then 1 else 0) (cache_abs dev c)" "st_held (cache_abs dev c) = H" "unat (l_n l) \<le> 25" "log_wf l"
    "\<forall>b. b \<notin> set (home l) \<longrightarrow> st_view (cache_abs dev c) b = st_disk (cache_abs dev c) b"
    using assms(1) by (simp_all add: txn_ok_def s)
  note S = bc.store [OF A(1)]
  have u: "in_use (cache_abs dev c) \<subseteq> set (home l) \<union> H" using A(2) by (auto simp: in_use_def txn_def split: if_splits)
  have fin: "finite H"
  proof -
    have "H \<subseteq> in_use (cache_abs dev c)" using S A(3) by (auto simp: store_inv_def in_use_def)
    then show ?thesis using S by (simp add: store_inv_def finite_subset)
  qed
  have "card (set (home l)) \<le> 25" using log_wf_home(1) [OF A(5)] A(4) card_length [of "home l"] by simp
  then have "card (set (home l) \<union> H) < 29" using card_Un_le [of "set (home l)" H] assms(3) by simp
  then have "card (in_use (cache_abs dev c)) < 29" using card_mono [OF _ u] fin by simp
  moreover have "st_refs (cache_abs dev c) b < 2 ^ 32 - 1" using A(2) by (simp add: txn_def)
  ultimately have "can_read (NBUF - 1) b (cache_abs dev c)" using A(3) assms(2) by (simp add: can_read_def can_ref_def)
  from bc.read_ok [OF A(1) this] obtain i c' where
    1: "bread dev b c = Some (i, c')" "cache_inv dev c'" "cache_abs dev c' = store_read b (cache_abs dev c)" "buf_handle dev c' i b"
      "\<forall>j x. buf_handle dev c j x \<longrightarrow> buf_handle dev c' j x" by blast
  have "bc_disk c' = bc_disk c" using arg_cong [OF 1(3), of st_disk] by (simp add: store_read_def)
  then have "txn_ok dev area k (insert b H) (l, c')"
    using assms(1,2) 1(2) by (auto simp: txn_ok_def s 1(3) store_read_def txn_def)
  with 1 show ?thesis by (auto simp: tx_read_def txn_view_def txn_handle_def s store_read_def)
qed

lemma txn_update_law:
  assumes "txn_ok dev area (Suc k) H s" "txn_handle dev s i b" "b \<notin> area" "length d = BSIZE"
  shows "\<exists>s'. tx_log i (tx_set i d s) = Some s' \<and> txn_ok dev area k H s' \<and> txn_view dev s' = (txn_view dev s)(b := d) \<and>
    (\<forall>j c. txn_handle dev s j c \<longrightarrow> txn_handle dev s' j c)"
proof -
  obtain l c where s: "s = (l, c)" by fastforce
  have A: "cache_inv dev c" "txn l (\<lambda>b. if b \<in> H then 1 else 0) (cache_abs dev c)" "st_held (cache_abs dev c) = H" "log_wf l" "log_room (Suc k) l"
    "log_area l = area" "unat (l_n l) + Suc k \<le> 25" "l_dev l = dev" "\<forall>b. b \<notin> set (home l) \<longrightarrow> st_view (cache_abs dev c) b = st_disk (cache_abs dev c) b"
    using assms(1) by (simp_all add: txn_ok_def s)
  have h: "buf_handle dev c i b" using assms(2) by (simp add: txn_handle_def s)
  define c2 where "c2 = set_buf_data i d c"
  have 2: "cache_inv dev c2" "cache_abs dev c2 = store_set b d (cache_abs dev c)" "buf_handle dev c2 i b" "\<forall>j x. buf_handle dev c j x \<longrightarrow> buf_handle dev c2 j x"
    using bc.put_ok [OF A(1) h assms(4)] h by (simp_all add: c2_def)
  have D2: "bc_disk c2 = bc_disk c" using arg_cong [OF 2(2), of st_disk] by (simp add: store_set_def)
  have ch: "caches dev c2 i b" using 2(3) by (simp add: buf_handle_def)
  have bH: "b \<in> H" using bc.handle_held [OF A(1) h] A(3) by simp
  note R = log_room_write [OF A(5)]
  show ?thesis
  proof (cases "b \<in> set (home l)")
    case True
    have "log_write i l c2 = Some (l, c2)" using log_write_logged [OF _ _ _ ch A(4) True] R by simp
    moreover have "log_room k l" using A(5) by (simp add: log_room_def)
    then have "txn_ok dev area k H (l, c2)" using A 2(1) True D2 by (auto simp: txn_ok_def 2(2) store_set_def txn_def)
    ultimately show ?thesis using 2 by (simp add: tx_log_def tx_set_def s c2_def [symmetric] txn_view_def txn_handle_def store_set_def)
  next
    case False
    let ?l = "l\<lparr>l_blocks := (l_blocks l)[unat (l_n l) := b], l_n := l_n l + 1\<rparr>"
    have w: "log_write i l c2 = Some (?l, bpin i c2)" using log_write_new [OF _ _ _ ch A(4) False] R by simp
    note ap = log_append [OF A(4) conjunct1 [OF R] conjunct1 [OF conjunct2 [OF R]], of b, unfolded A(6), OF assms(3)]
    have "st_refs (cache_abs dev c2) b < 2 ^ 32 - 1" using A(2) by (simp add: 2(2) store_set_def txn_def)
    then have "can_ref b (cache_abs dev c2)" by (simp add: can_ref_def)
    from bc.pin_ok [OF 2(1,3) this] have
      3: "cache_inv dev (bpin i c2)" "cache_abs dev (bpin i c2) = store_pin b (cache_abs dev c2)" "\<forall>j x. buf_handle dev c2 j x \<longrightarrow> buf_handle dev (bpin i c2) j x" by simp_all
    have D3: "bc_disk (bpin i c2) = bc_disk c" using arg_cong [OF 3(2), of st_disk] D2 by (simp add: store_pin_def)
    have rm: "log_room k ?l" using A(5) ap(3) by (simp add: log_room_def)
    have t: "txn ?l (\<lambda>b. if b \<in> H then 1 else 0) (cache_abs dev (bpin i c2))"
      using A(2) False unfolding txn_def ap(1) by (auto simp: 3(2) 2(2) store_defs)
    have v: "\<forall>x. x \<notin> set (home ?l) \<longrightarrow> st_view (cache_abs dev (bpin i c2)) x = st_disk (cache_abs dev (bpin i c2)) x"
      using A(9) D3 unfolding ap(1) by (simp add: 3(2) 2(2) store_defs)
    have ar: "log_area ?l = area" using A(6) by (simp add: log_area_def)
    have "txn_ok dev area k H (?l, bpin i c2)" using ap(2,3) A(3,7,8) rm t v ar 3(1) by (simp add: txn_ok_def) (simp add: 3(2) 2(2) store_defs)
    then show ?thesis using w 2(4) 3 by (simp add: tx_log_def tx_set_def s c2_def [symmetric] txn_view_def txn_handle_def 2(2) store_defs)
  qed
qed

lemma txn_release_law:
  assumes "txn_ok dev area k H s" "txn_handle dev s i b"
  shows "txn_ok dev area k (H - {b}) (tx_release i s) \<and> txn_view dev (tx_release i s) = txn_view dev s \<and>
    (\<forall>j c. txn_handle dev s j c \<longrightarrow> c \<noteq> b \<longrightarrow> txn_handle dev (tx_release i s) j c)"
proof -
  obtain l c where s: "s = (l, c)" by fastforce
  have A: "cache_inv dev c" "txn l (\<lambda>b. if b \<in> H then 1 else 0) (cache_abs dev c)" "st_held (cache_abs dev c) = H"
    "\<forall>b. b \<notin> set (home l) \<longrightarrow> st_view (cache_abs dev c) b = st_disk (cache_abs dev c) b"
    using assms(1) by (simp_all add: txn_ok_def s)
  have h: "buf_handle dev c i b" using assms(2) by (simp add: txn_handle_def s)
  have bH: "b \<in> H" using bc.handle_held [OF A(1) h] A(3) by simp
  have "can_release b (cache_abs dev c)" using A(2,4) bH by (auto simp: can_release_def txn_def)
  from bc.release_ok [OF A(1) h this] have
    1: "cache_inv dev (brelease i c)" "cache_abs dev (brelease i c) = store_release b (cache_abs dev c)"
      "\<forall>j x. buf_handle dev c j x \<longrightarrow> x \<noteq> b \<longrightarrow> buf_handle dev (brelease i c) j x" by simp_all
  have "bc_disk (brelease i c) = bc_disk c" using arg_cong [OF 1(2), of st_disk] by (simp add: store_release_def)
  then have "txn_ok dev area k (H - {b}) (l, brelease i c)"
    using assms(1) bH 1(1) by (auto simp: txn_ok_def s 1(2) store_defs txn_def)
  then show ?thesis using 1 by (simp add: tx_release_def s txn_view_def txn_handle_def store_defs)
qed

interpretation tx: transaction "txn_ok dev area" area "txn_view dev" "txn_handle dev" "tx_read dev" tx_data tx_set tx_log tx_release for dev area
proof
  fix k H s b
  show "length (txn_view dev s b) = BSIZE" if "txn_ok dev area k H s"
    using that bc.store [of dev "snd s"] by (auto simp: txn_ok_def txn_view_def store_inv_def split: prod.splits)
  show "txn_ok dev area k H s" if "txn_ok dev area (Suc k) H s"
    using that by (auto simp: txn_ok_def log_room_def split: prod.splits)
  show "tx_data i s = txn_view dev s b" if "txn_ok dev area k H s" "txn_handle dev s i b" for i
    using that bc.handle_data [of dev "snd s" i b] by (auto simp: txn_ok_def txn_view_def txn_handle_def tx_data_def split: prod.splits)
qed (use txn_read_law txn_update_law txn_release_law in auto)

end
