(* ===== verification/Fs.thy ===== *)
theory Fs
  imports Txn Vm
begin

text \<open>
  The file system (\<open>kernel/src/fs.rs\<close>): block allocation, inodes, files, directories and path names.
  Every access to the disk goes through the buffer cache and the log of an open transaction.  The
  superblock \<open>sb\<close>, read once at boot, is an argument.  An inode lock that is taken makes the caller
  wait, which the model does not return from (\<open>None\<close>).
\<close>

unbundle bit_operations_syntax

section \<open>Constants and the superblock\<close>

definition FSMAGIC :: u32 where "FSMAGIC = 0x10203040"
definition ROOTINO :: u32 where "ROOTINO = 1"
definition NDIRECT :: nat where "NDIRECT = 12"
definition NINDIRECT :: nat where "NINDIRECT = BSIZE div 4"
definition MAXFILE :: nat where "MAXFILE = NDIRECT + NINDIRECT"
definition IPB :: u32 where "IPB = word_of_nat (BSIZE div 64)"
definition BPB :: u32 where "BPB = word_of_nat BSIZE * 8"
definition DIRSIZE :: nat where "DIRSIZE = 14"

record SuperBlock =
  sb_magic :: u32
  sb_size :: u32
  sb_nblocks :: u32
  sb_ninodes :: u32
  sb_nlogs :: u32
  sb_logstart :: u32
  sb_inodestart :: u32
  sb_bmapstart :: u32

definition superblock_decode :: "u8 list \<Rightarrow> SuperBlock" where
  "superblock_decode d = \<lparr>sb_magic = rd32 d 0, sb_size = rd32 d 4, sb_nblocks = rd32 d 8, sb_ninodes = rd32 d 12,
     sb_nlogs = rd32 d 16, sb_logstart = rd32 d 20, sb_inodestart = rd32 d 24, sb_bmapstart = rd32 d 28\<rparr>"

definition superblock_initialize :: "u32 \<Rightarrow> bstore \<Rightarrow> (SuperBlock \<times> bstore) option" where
  "superblock_initialize dev s = do {
     (buf, s) \<leftarrow> tx_read dev 1 s;
     let sb = superblock_decode (tx_data buf s);
     let s = tx_release buf s;
     assert_that (sb_magic sb = FSMAGIC);
     Some (sb, s)
   }"

section \<open>Blocks\<close>

definition block_zero :: "u32 \<Rightarrow> u32 \<Rightarrow> bstore \<Rightarrow> bstore option" where
  "block_zero dev b s = do {
     (buf, s) \<leftarrow> tx_read dev b s;
     s \<leftarrow> tx_log buf (tx_set buf (replicate BSIZE 0) s);
     Some (tx_release buf s)
   }"

definition bitmap_free :: "u8 list \<Rightarrow> nat \<Rightarrow> bool" where
  "bitmap_free d bi \<longleftrightarrow> d ! (bi div 8) AND push_bit (bi mod 8) 1 = 0"

definition bitmap_take :: "u8 list \<Rightarrow> nat \<Rightarrow> u8 list" where
  "bitmap_take d bi = d[bi div 8 := d ! (bi div 8) OR push_bit (bi mod 8) 1]"

definition bitmap_give :: "u8 list \<Rightarrow> nat \<Rightarrow> u8 list" where
  "bitmap_give d bi = d[bi div 8 := d ! (bi div 8) AND NOT (push_bit (bi mod 8) 1)]"

text \<open>The scan of one bitmap block from block number \<open>b\<close> on; it stops at the end of the disk.\<close>

fun bitmap_scan :: "u32 \<Rightarrow> u32 \<Rightarrow> u8 list \<Rightarrow> nat list \<Rightarrow> nat option" where
  "bitmap_scan b sz d [] = None"
| "bitmap_scan b sz d (bi # bis) =
     (if b + word_of_nat bi \<ge> sz then None
      else if bitmap_free d bi then Some bi
      else bitmap_scan b sz d bis)"

fun block_alloc_loop :: "SuperBlock \<Rightarrow> u32 \<Rightarrow> u32 list \<Rightarrow> bstore \<Rightarrow> ((u32, FsError) result \<times> bstore) option" where
  "block_alloc_loop sb dev [] s = Some (Err FsOutOfBlock, s)"
| "block_alloc_loop sb dev (b # bs) s = do {
     (buf, s) \<leftarrow> tx_read dev (sb_bmapstart sb + b div BPB) s;
     case bitmap_scan b (sb_size sb) (tx_data buf s) [0..<unat BPB] of
       Some bi \<Rightarrow> do {
         s \<leftarrow> tx_log buf (tx_set buf (bitmap_take (tx_data buf s) bi) s);
         let s = tx_release buf s;
         let block = b + word_of_nat bi;
         s \<leftarrow> block_zero dev block s;
         Some (Ok block, s)
       }
     | None \<Rightarrow> block_alloc_loop sb dev bs (tx_release buf s)
   }"

definition step_by :: "nat \<Rightarrow> nat \<Rightarrow> nat \<Rightarrow> nat list" where
  "step_by from to step = map (\<lambda>k. from + k * step) [0..<(to - from + step - 1) div step]"

definition block_alloc :: "SuperBlock \<Rightarrow> u32 \<Rightarrow> bstore \<Rightarrow> ((u32, FsError) result \<times> bstore) option" where
  "block_alloc sb dev = block_alloc_loop sb dev (map word_of_nat (step_by 0 (unat (sb_size sb)) (unat BPB)))"

definition block_free :: "SuperBlock \<Rightarrow> u32 \<Rightarrow> u32 \<Rightarrow> bstore \<Rightarrow> bstore option" where
  "block_free sb dev b s = do {
     (buf, s) \<leftarrow> tx_read dev (sb_bmapstart sb + b div BPB) s;
     let bi = unat (b mod BPB);
     assert_that (\<not> bitmap_free (tx_data buf s) bi);
     s \<leftarrow> tx_log buf (tx_set buf (bitmap_give (tx_data buf s) bi) s);
     Some (tx_release buf s)
   }"

section \<open>Inodes on disk\<close>

datatype InodeType = TypeFree | TypeDirectory | TypeFile | TypeDevice

fun inode_type_code :: "InodeType \<Rightarrow> u16" where
  "inode_type_code TypeFree = 0"
| "inode_type_code TypeDirectory = 1"
| "inode_type_code TypeFile = 2"
| "inode_type_code TypeDevice = 3"

text \<open>Another number in the type field of a block is not an inode (undefined behaviour).\<close>

definition inode_type_of :: "u16 \<Rightarrow> InodeType option" where
  "inode_type_of c = find (\<lambda>t. inode_type_code t = c) [TypeFree, TypeDirectory, TypeFile, TypeDevice]"

definition rd16 :: "u8 list \<Rightarrow> nat \<Rightarrow> u16" where
  "rd16 d off = word_of_nat (of_le (slice d off 2))"

definition wr16 :: "u8 list \<Rightarrow> nat \<Rightarrow> u16 \<Rightarrow> u8 list" where
  "wr16 d off x = splice d off (le_bytes 2 (unat x))"

record DiskInode =
  di_type :: InodeType
  di_major :: u16
  di_minor :: u16
  di_nlink :: u16
  di_size :: u32
  di_addrs :: "u32 list"

definition dinode_offset :: "u32 \<Rightarrow> nat" where
  "dinode_offset inum = unat (inum mod IPB) * 64"

definition dinode_get :: "u8 list \<Rightarrow> u32 \<Rightarrow> DiskInode option" where
  "dinode_get d inum = (let off = dinode_offset inum in
     map_option (\<lambda>t. \<lparr>di_type = t, di_major = rd16 d (off + 2), di_minor = rd16 d (off + 4), di_nlink = rd16 d (off + 6),
       di_size = rd32 d (off + 8), di_addrs = map (\<lambda>k. rd32 d (off + 12 + 4 * k)) [0..<NDIRECT + 1]\<rparr>)
       (inode_type_of (rd16 d off)))"

definition dinode_put :: "u8 list \<Rightarrow> u32 \<Rightarrow> DiskInode \<Rightarrow> u8 list" where
  "dinode_put d inum di = (let off = dinode_offset inum;
     d = wr16 d off (inode_type_code (di_type di));
     d = wr16 d (off + 2) (di_major di);
     d = wr16 d (off + 4) (di_minor di);
     d = wr16 d (off + 6) (di_nlink di);
     d = wr32 d (off + 8) (di_size di)
     in foldl (\<lambda>d k. wr32 d (off + 12 + 4 * k) (di_addrs di ! k)) d [0..<NDIRECT + 1])"

section \<open>The inode table\<close>

record InodeInner =
  ii_valid :: bool
  ii_type :: InodeType
  ii_major :: u16
  ii_minor :: u16
  ii_nlink :: u16
  ii_size :: u32
  ii_addrs :: "u32 list"

definition inode_inner_new :: InodeInner where
  "inode_inner_new = \<lparr>ii_valid = False, ii_type = TypeFree, ii_major = 0, ii_minor = 0, ii_nlink = 0, ii_size = 0,
     ii_addrs = replicate (NDIRECT + 1) 0\<rparr>"

record InodeMeta =
  im_dev :: u32
  im_inum :: u32
  im_ref :: u32

definition inode_meta_new :: InodeMeta where
  "inode_meta_new = \<lparr>im_dev = 0, im_inum = 0, im_ref = 0\<rparr>"

record Inode =
  ip_id :: nat
  ip_dev :: u32
  ip_inum :: u32

definition inode_new :: "nat \<Rightarrow> u32 \<Rightarrow> u32 \<Rightarrow> Inode" where
  "inode_new idx dev inum = \<lparr>ip_id = idx, ip_dev = dev, ip_inum = inum\<rparr>"

record Stat =
  st_dev :: u32
  st_ino :: u32
  st_type :: InodeType
  st_nlink :: u16
  st_size :: u64

text \<open>The file system state: log and cache, and the inode table with its sleep locks.\<close>

record Fs =
  fs_store :: bstore
  it_meta :: "InodeMeta list"
  it_inner :: "InodeInner list"
  it_locked :: "bool list"

definition inode_table_new :: "bstore \<Rightarrow> Fs" where
  "inode_table_new s = \<lparr>fs_store = s, it_meta = replicate NINODE inode_meta_new, it_inner = replicate NINODE inode_inner_new,
     it_locked = replicate NINODE False\<rparr>"

definition on_store :: "(bstore \<Rightarrow> ('a \<times> bstore) option) \<Rightarrow> Fs \<Rightarrow> ('a \<times> Fs) option" where
  "on_store op f = do { (r, s) \<leftarrow> op (fs_store f); Some (r, f\<lparr>fs_store := s\<rparr>) }"

definition on_store_unit :: "(bstore \<Rightarrow> bstore option) \<Rightarrow> Fs \<Rightarrow> Fs option" where
  "on_store_unit op f = do { s \<leftarrow> op (fs_store f); Some (f\<lparr>fs_store := s\<rparr>) }"

definition inner_of :: "Inode \<Rightarrow> Fs \<Rightarrow> InodeInner" where
  "inner_of ip f = it_inner f ! ip_id ip"

definition set_inner :: "Inode \<Rightarrow> InodeInner \<Rightarrow> Fs \<Rightarrow> Fs" where
  "set_inner ip x f = f\<lparr>it_inner := (it_inner f)[ip_id ip := x]\<rparr>"

definition set_meta :: "nat \<Rightarrow> InodeMeta \<Rightarrow> Fs \<Rightarrow> Fs" where
  "set_meta idx x f = f\<lparr>it_meta := (it_meta f)[idx := x]\<rparr>"

definition inode_get :: "u32 \<Rightarrow> u32 \<Rightarrow> Fs \<Rightarrow> (Inode, FsError) result \<times> Fs" where
  "inode_get dev inum f =
     (case find_index (\<lambda>m. im_ref m > 0 \<and> im_dev m = dev \<and> im_inum m = inum) (it_meta f) of
        Some idx \<Rightarrow> (Ok (inode_new idx dev inum), set_meta idx ((it_meta f ! idx)\<lparr>im_ref := im_ref (it_meta f ! idx) + 1\<rparr>) f)
      | None \<Rightarrow>
         (case find_index (\<lambda>m. im_ref m = 0) (it_meta f) of
            Some idx \<Rightarrow>
              let f = set_meta idx \<lparr>im_dev = dev, im_inum = inum, im_ref = 1\<rparr> f
              in (Ok (inode_new idx dev inum), f\<lparr>it_inner := (it_inner f)[idx := (it_inner f ! idx)\<lparr>ii_valid := False\<rparr>]\<rparr>)
          | None \<Rightarrow> (Err FsOutOfInode, f)))"

fun inode_alloc_loop :: "SuperBlock \<Rightarrow> u32 \<Rightarrow> InodeType \<Rightarrow> u32 list \<Rightarrow> Fs \<Rightarrow> ((Inode, FsError) result \<times> Fs) option" where
  "inode_alloc_loop sb dev ty [] f = Some (Err FsOutOfInode, f)"
| "inode_alloc_loop sb dev ty (inum # inums) f = do {
     (buf, f) \<leftarrow> on_store (tx_read dev (sb_inodestart sb + inum div IPB)) f;
     let d = tx_data buf (fs_store f);
     dinode \<leftarrow> dinode_get d inum;
     if di_type dinode = TypeFree then do {
       f \<leftarrow> on_store_unit (\<lambda>s. tx_log buf (tx_set buf (wr16 d (dinode_offset inum) (inode_type_code ty)) s)) f;
       let f = f\<lparr>fs_store := tx_release buf (fs_store f)\<rparr>;
       Some (inode_get dev inum f)
     } else inode_alloc_loop sb dev ty inums (f\<lparr>fs_store := tx_release buf (fs_store f)\<rparr>)
   }"

definition inode_alloc :: "SuperBlock \<Rightarrow> u32 \<Rightarrow> InodeType \<Rightarrow> Fs \<Rightarrow> ((Inode, FsError) result \<times> Fs) option" where
  "inode_alloc sb dev ty = inode_alloc_loop sb dev ty (map word_of_nat [1..<unat (sb_ninodes sb)])"

definition inode_update :: "SuperBlock \<Rightarrow> Inode \<Rightarrow> Fs \<Rightarrow> Fs option" where
  "inode_update sb ip f = do {
     let inner = inner_of ip f;
     (buf, f) \<leftarrow> on_store (tx_read (ip_dev ip) (sb_inodestart sb + ip_inum ip div IPB)) f;
     let d = dinode_put (tx_data buf (fs_store f)) (ip_inum ip)
       \<lparr>di_type = ii_type inner, di_major = ii_major inner, di_minor = ii_minor inner, di_nlink = ii_nlink inner,
        di_size = ii_size inner, di_addrs = ii_addrs inner\<rparr>;
     f \<leftarrow> on_store_unit (\<lambda>s. tx_log buf (tx_set buf d s)) f;
     Some (f\<lparr>fs_store := tx_release buf (fs_store f)\<rparr>)
   }"

definition inode_dup :: "Inode \<Rightarrow> Fs \<Rightarrow> Inode \<times> Fs" where
  "inode_dup ip f = (ip, set_meta (ip_id ip) ((it_meta f ! ip_id ip)\<lparr>im_ref := im_ref (it_meta f ! ip_id ip) + 1\<rparr>) f)"

definition inode_acquire :: "Inode \<Rightarrow> Fs \<Rightarrow> Fs option" where
  "inode_acquire ip f = do { assert_that (\<not> it_locked f ! ip_id ip); Some (f\<lparr>it_locked := (it_locked f)[ip_id ip := True]\<rparr>) }"

definition inode_unlock :: "Inode \<Rightarrow> Fs \<Rightarrow> Fs" where
  "inode_unlock ip f = f\<lparr>it_locked := (it_locked f)[ip_id ip := False]\<rparr>"

definition inode_lock :: "SuperBlock \<Rightarrow> Inode \<Rightarrow> Fs \<Rightarrow> Fs option" where
  "inode_lock sb ip f = do {
     f \<leftarrow> inode_acquire ip f;
     if ii_valid (inner_of ip f) then Some f
     else do {
       (buf, f) \<leftarrow> on_store (tx_read (ip_dev ip) (sb_inodestart sb + ip_inum ip div IPB)) f;
       dinode \<leftarrow> dinode_get (tx_data buf (fs_store f)) (ip_inum ip);
       let f = f\<lparr>fs_store := tx_release buf (fs_store f)\<rparr>;
       let f = set_inner ip \<lparr>ii_valid = True, ii_type = di_type dinode, ii_major = di_major dinode, ii_minor = di_minor dinode,
         ii_nlink = di_nlink dinode, ii_size = di_size dinode, ii_addrs = di_addrs dinode\<rparr> f;
       assert_that (di_type dinode \<noteq> TypeFree);
       Some f
     }
   }"

text \<open>\<open>trunc\<close>: the direct blocks, then the blocks of the indirect block, then the indirect block.\<close>

definition trunc_direct :: "SuperBlock \<Rightarrow> Inode \<Rightarrow> nat \<Rightarrow> Fs \<Rightarrow> Fs option" where
  "trunc_direct sb ip i f =
     (let inner = inner_of ip f in
      if ii_addrs inner ! i \<noteq> 0 then do {
        f \<leftarrow> on_store_unit (block_free sb (ip_dev ip) (ii_addrs inner ! i)) f;
        Some (set_inner ip (inner\<lparr>ii_addrs := (ii_addrs inner)[i := 0]\<rparr>) f)
      } else Some f)"

definition indirect_entries :: "u8 list \<Rightarrow> u32 list" where
  "indirect_entries d = map (\<lambda>k. rd32 d (4 * k)) [0..<NINDIRECT]"

definition trunc_indirect :: "SuperBlock \<Rightarrow> Inode \<Rightarrow> Fs \<Rightarrow> Fs option" where
  "trunc_indirect sb ip f =
     (let inner = inner_of ip f in
      if ii_addrs inner ! NDIRECT \<noteq> 0 then do {
        (buf, f) \<leftarrow> on_store (tx_read (ip_dev ip) (ii_addrs inner ! NDIRECT)) f;
        f \<leftarrow> foldO (\<lambda>block f. if block \<noteq> 0 then on_store_unit (block_free sb (ip_dev ip) block) f else Some f)
               (indirect_entries (tx_data buf (fs_store f))) f;
        let f = f\<lparr>fs_store := tx_release buf (fs_store f)\<rparr>;
        f \<leftarrow> on_store_unit (block_free sb (ip_dev ip) (ii_addrs inner ! NDIRECT)) f;
        Some (set_inner ip (inner\<lparr>ii_addrs := (ii_addrs inner)[NDIRECT := 0]\<rparr>) f)
      } else Some f)"

definition inode_trunc :: "SuperBlock \<Rightarrow> Inode \<Rightarrow> Fs \<Rightarrow> Fs option" where
  "inode_trunc sb ip f = do {
     f \<leftarrow> foldO (trunc_direct sb ip) [0..<NDIRECT] f;
     f \<leftarrow> trunc_indirect sb ip f;
     inode_update sb ip (set_inner ip ((inner_of ip f)\<lparr>ii_size := 0\<rparr>) f)
   }"

definition inode_put :: "SuperBlock \<Rightarrow> Inode \<Rightarrow> Fs \<Rightarrow> Fs option" where
  "inode_put sb ip f = do {
     f \<leftarrow> (if im_ref (it_meta f ! ip_id ip) = 1 then do {
         f \<leftarrow> inode_acquire ip f;
         f \<leftarrow> (if ii_valid (inner_of ip f) \<and> ii_nlink (inner_of ip f) = 0 then do {
             f \<leftarrow> inode_trunc sb ip f;
             let f = set_inner ip ((inner_of ip f)\<lparr>ii_type := TypeFree\<rparr>) f;
             f \<leftarrow> inode_update sb ip f;
             Some (set_inner ip ((inner_of ip f)\<lparr>ii_valid := False\<rparr>) f)
           } else Some f);
         Some (inode_unlock ip f)
       } else Some f);
     let meta = it_meta f ! ip_id ip;
     Some (set_meta (ip_id ip) (meta\<lparr>im_ref := im_ref meta - 1\<rparr>) f)
   }"

definition inode_unlock_put :: "SuperBlock \<Rightarrow> Inode \<Rightarrow> Fs \<Rightarrow> Fs option" where
  "inode_unlock_put sb ip f = inode_put sb ip (inode_unlock ip f)"

text \<open>\<open>reclaim\<close> at boot; the guard of the operation is dropped at the end of each round.\<close>

definition reclaim_one :: "SuperBlock \<Rightarrow> u32 \<Rightarrow> nat \<Rightarrow> u32 \<Rightarrow> Fs \<times> Sched \<Rightarrow> (Fs \<times> Sched) option" where
  "reclaim_one sb dev cur inum = (\<lambda>(f, s). do {
     (buf, f) \<leftarrow> on_store (tx_read dev (sb_inodestart sb + inum div IPB)) f;
     dinode \<leftarrow> dinode_get (tx_data buf (fs_store f)) inum;
     let (inode, f) = (if di_type dinode \<noteq> TypeFree \<and> di_nlink dinode = 0 then map_prod Some (\<lambda>x. x) (inode_get dev inum f) else (None, f));
     let f = f\<lparr>fs_store := tx_release buf (fs_store f)\<rparr>;
     case inode of
       Some (Ok ip) \<Rightarrow> (case operation_begin None cur (fst (fs_store f)) s of
           (None, _, _) \<Rightarrow> None
         | (Some op, l, s) \<Rightarrow> do {
             let f = f\<lparr>fs_store := (l, snd (fs_store f))\<rparr>;
             f \<leftarrow> inode_lock sb ip f;
             let f = inode_unlock ip f;
             f \<leftarrow> inode_put sb ip f;
             (l, c, s) \<leftarrow> operation_drop (Some cur) op (fst (fs_store f)) (snd (fs_store f)) s;
             Some (f\<lparr>fs_store := (l, c)\<rparr>, s)
           })
     | _ \<Rightarrow> Some (f, s)
   })"

definition inode_reclaim :: "SuperBlock \<Rightarrow> u32 \<Rightarrow> nat \<Rightarrow> Fs \<times> Sched \<Rightarrow> (Fs \<times> Sched) option" where
  "inode_reclaim sb dev cur = foldO (reclaim_one sb dev cur) (map word_of_nat [1..<unat (sb_ninodes sb)])"

definition fs_init :: "u32 \<Rightarrow> nat \<Rightarrow> Fs \<times> Sched \<Rightarrow> (SuperBlock \<times> Fs \<times> Sched) option" where
  "fs_init dev cur = (\<lambda>(f, s). do {
     (sb, f) \<leftarrow> on_store (superblock_initialize dev) f;
     (l, c) \<leftarrow> log_init dev (sb_logstart sb) (sb_nlogs sb) (fst (fs_store f)) (snd (fs_store f));
     (f, s) \<leftarrow> inode_reclaim sb dev cur (f\<lparr>fs_store := (l, c)\<rparr>, s);
     Some (sb, f, s)
   })"

section \<open>File contents\<close>

text \<open>
  \<open>map\<close>; when the allocation for an indirect block fails, the buffer of the indirect block stays locked.
\<close>

definition inode_map :: "SuperBlock \<Rightarrow> Inode \<Rightarrow> nat \<Rightarrow> Fs \<Rightarrow> ((u32, FsError) result \<times> Fs) option" where
  "inode_map sb ip block_no f =
     (let inner = inner_of ip f in
      if block_no < NDIRECT then
        if ii_addrs inner ! block_no = 0 then do {
          (r, f) \<leftarrow> on_store (block_alloc sb (ip_dev ip)) f;
          case r of
            Err e \<Rightarrow> Some (Err e, f)
          | Ok b \<Rightarrow> Some (Ok b, set_inner ip (inner\<lparr>ii_addrs := (ii_addrs inner)[block_no := b]\<rparr>) f)
        } else Some (Ok (ii_addrs inner ! block_no), f)
      else if block_no - NDIRECT < NINDIRECT then do {
        (r, f) \<leftarrow> (if ii_addrs inner ! NDIRECT = 0 then do {
            (r, f) \<leftarrow> on_store (block_alloc sb (ip_dev ip)) f;
            case r of
              Err e \<Rightarrow> Some (Err e, f)
            | Ok b \<Rightarrow> Some (Ok b, set_inner ip (inner\<lparr>ii_addrs := (ii_addrs inner)[NDIRECT := b]\<rparr>) f)
          } else Some (Ok (ii_addrs inner ! NDIRECT), f));
        case r of
          Err e \<Rightarrow> Some (Err e, f)
        | Ok in_block_no \<Rightarrow> do {
            (buf, f) \<leftarrow> on_store (tx_read (ip_dev ip) in_block_no) f;
            let d = tx_data buf (fs_store f);
            let addr = rd32 d (4 * (block_no - NDIRECT));
            if addr = 0 then do {
              (r, f) \<leftarrow> on_store (block_alloc sb (ip_dev ip)) f;
              case r of
                Err e \<Rightarrow> Some (Err e, f)
              | Ok b \<Rightarrow> do {
                  f \<leftarrow> on_store_unit (\<lambda>s. tx_log buf (tx_set buf (wr32 d (4 * (block_no - NDIRECT)) b) s)) f;
                  Some (Ok b, f\<lparr>fs_store := tx_release buf (fs_store f)\<rparr>)
                }
            } else Some (Ok addr, f\<lparr>fs_store := tx_release buf (fs_store f)\<rparr>)
          }
      } else Some (Err FsOutOfRange, f))"

definition inode_stat :: "Inode \<Rightarrow> Fs \<Rightarrow> Stat" where
  "inode_stat ip f = (let inner = inner_of ip f in
     \<lparr>st_dev = ip_dev ip, st_ino = ip_inum ip, st_type = ii_type inner, st_nlink = ii_nlink inner, st_size = ucast (ii_size inner)\<rparr>)"

text \<open>
  Where the bytes of a read go and where those of a write come from: a kernel buffer, or user memory
  at an address that advances.  A failed copy from the user may have copied some bytes; a copy from a kernel
  buffer copies all that is left of it.
\<close>

definition kernel_sink :: "u8 list \<Rightarrow> u8 list \<Rightarrow> (bool \<times> u8 list) option" where
  "kernel_sink src dst = Some (True, dst @ src)"

definition user_sink :: "(u8 list \<Rightarrow> usize \<Rightarrow> 'm \<Rightarrow> ((unit, VmError) result \<times> 'm) option) \<Rightarrow> u8 list \<Rightarrow> usize \<times> 'm \<Rightarrow> (bool \<times> usize \<times> 'm) option" where
  "user_sink cto src = (\<lambda>(va, m). do { (r, m) \<leftarrow> cto src va m; Some (is_ok r, va + word_of_nat (length src), m) })"

definition kernel_source :: "nat \<Rightarrow> u8 list \<Rightarrow> ((bool \<times> u8 list) \<times> u8 list) option" where
  "kernel_source n src = Some ((True, src), drop n src)"

definition user_source :: "(usize \<Rightarrow> nat \<Rightarrow> 'm \<Rightarrow> ((bool \<times> u8 list) \<times> 'm) option) \<Rightarrow> nat \<Rightarrow> usize \<times> 'm \<Rightarrow> ((bool \<times> u8 list) \<times> usize \<times> 'm) option" where
  "user_source cfrom n = (\<lambda>(va, m). do { (r, m) \<leftarrow> cfrom va n m; Some (r, va + word_of_nat n, m) })"

text \<open>The checked addition in the callers rules out overflow, so the loops run on natural numbers.\<close>

function inode_read_loop :: "SuperBlock \<Rightarrow> (u8 list \<Rightarrow> 'u \<Rightarrow> (bool \<times> 'u) option) \<Rightarrow> Inode \<Rightarrow> nat \<Rightarrow> nat \<Rightarrow> nat \<Rightarrow> 'u \<Rightarrow> Fs \<Rightarrow>
    ((u32, FsError) result \<times> 'u \<times> Fs) option" where
  "inode_read_loop sb sink ip n tot off u f =
     (if tot < n then do {
        (r, f) \<leftarrow> inode_map sb ip (off div BSIZE) f;
        case r of
          Err _ \<Rightarrow> Some (Ok (word_of_nat tot), u, f)
        | Ok addr \<Rightarrow> do {
            (buf, f) \<leftarrow> on_store (tx_read (ip_dev ip) addr) f;
            let m = min (n - tot) (BSIZE - off mod BSIZE);
            (good, u) \<leftarrow> sink (slice (tx_data buf (fs_store f)) (off mod BSIZE) m) u;
            let f = f\<lparr>fs_store := tx_release buf (fs_store f)\<rparr>;
            if \<not> good then Some (Err FsRead, u, f)
            else inode_read_loop sb sink ip n (tot + m) (off + m) u f
          }
      } else Some (Ok (word_of_nat tot), u, f))"
  by pat_completeness auto
termination
  by (relation "measure (\<lambda>(sb, sink, ip, n, tot, off, u, f). n - tot)") (auto simp: BSIZE_def)

declare inode_read_loop.simps [simp del]

definition inode_read :: "SuperBlock \<Rightarrow> (u8 list \<Rightarrow> 'u \<Rightarrow> (bool \<times> 'u) option) \<Rightarrow> Inode \<Rightarrow> u32 \<Rightarrow> u32 \<Rightarrow> 'u \<Rightarrow> Fs \<Rightarrow>
    ((u32, FsError) result \<times> 'u \<times> Fs) option" where
  "inode_read sb sink ip offset n u f =
     (let sz = ii_size (inner_of ip f) in
      if offset > sz \<or> checked_add offset n = None then Some (Err FsRead, u, f)
      else let n = (if offset + n > sz then sz - offset else n)
        in inode_read_loop sb sink ip (unat n) 0 (unat offset) u f)"

text \<open>A kernel source that does not fit into the rest of the block is copied past the end of the buffer.\<close>

function inode_write_loop :: "SuperBlock \<Rightarrow> (nat \<Rightarrow> 'u \<Rightarrow> ((bool \<times> u8 list) \<times> 'u) option) \<Rightarrow> Inode \<Rightarrow> nat \<Rightarrow> nat \<Rightarrow> nat \<Rightarrow> 'u \<Rightarrow> Fs \<Rightarrow>
    (nat \<times> nat \<times> 'u \<times> Fs) option" where
  "inode_write_loop sb source ip n tot off u f =
     (if tot < n then do {
        (r, f) \<leftarrow> inode_map sb ip (off div BSIZE) f;
        case r of
          Err _ \<Rightarrow> Some (tot, off, u, f)
        | Ok addr \<Rightarrow> do {
            (buf, f) \<leftarrow> on_store (tx_read (ip_dev ip) addr) f;
            let m = min (n - tot) (BSIZE - off mod BSIZE);
            ((good, bytes), u) \<leftarrow> source m u;
            assert_that (off mod BSIZE + length bytes \<le> BSIZE);
            let d = splice (tx_data buf (fs_store f)) (off mod BSIZE) bytes;
            if \<not> good then Some (tot, off, u, f\<lparr>fs_store := tx_release buf (tx_set buf d (fs_store f))\<rparr>)
            else do {
              f \<leftarrow> on_store_unit (\<lambda>s. tx_log buf (tx_set buf d s)) f;
              let f = f\<lparr>fs_store := tx_release buf (fs_store f)\<rparr>;
              inode_write_loop sb source ip n (tot + m) (off + m) u f
            }
          }
      } else Some (tot, off, u, f))"
  by pat_completeness auto
termination
  by (relation "measure (\<lambda>(sb, source, ip, n, tot, off, u, f). n - tot)") (auto simp: BSIZE_def)

declare inode_write_loop.simps [simp del]

definition inode_write :: "SuperBlock \<Rightarrow> (nat \<Rightarrow> 'u \<Rightarrow> ((bool \<times> u8 list) \<times> 'u) option) \<Rightarrow> Inode \<Rightarrow> u32 \<Rightarrow> u32 \<Rightarrow> 'u \<Rightarrow> Fs \<Rightarrow>
    ((u32, FsError) result \<times> 'u \<times> Fs) option" where
  "inode_write sb source ip offset n u f =
     (if offset > ii_size (inner_of ip f) \<or> checked_add offset n = None then Some (Err FsWrite, u, f)
      else if offset + n > word_of_nat (MAXFILE * BSIZE) then Some (Err FsWrite, u, f)
      else do {
        (tot, off, u, f) \<leftarrow> inode_write_loop sb source ip (unat n) 0 (unat offset) u f;
        let inner = inner_of ip f;
        let f = (if word_of_nat off > ii_size inner then set_inner ip (inner\<lparr>ii_size := word_of_nat off\<rparr>) f else f);
        f \<leftarrow> inode_update sb ip f;
        Some (Ok (word_of_nat tot), u, f)
      })"

section \<open>Directories\<close>

record Directory =
  dir_inum :: u16
  dir_name :: "u8 list"

definition DIRENT :: nat where "DIRENT = 16"

definition directory_new_empty :: Directory where
  "directory_new_empty = \<lparr>dir_inum = 0, dir_name = replicate DIRSIZE 0\<rparr>"

definition directory_from_bytes :: "u8 list \<Rightarrow> Directory" where
  "directory_from_bytes d = \<lparr>dir_inum = rd16 d 0, dir_name = slice d 2 DIRSIZE\<rparr>"

definition directory_as_bytes :: "Directory \<Rightarrow> u8 list" where
  "directory_as_bytes e = le_bytes 2 (unat (dir_inum e)) @ dir_name e"

definition directory_from_inode :: "SuperBlock \<Rightarrow> Inode \<Rightarrow> nat \<Rightarrow> Fs \<Rightarrow> ((Directory, FsError) result \<times> Fs) option" where
  "directory_from_inode sb ip offset f = do {
     (r, bytes, f) \<leftarrow> inode_read sb kernel_sink ip (word_of_nat offset) (word_of_nat DIRENT) [] f;
     case r of
       Err e \<Rightarrow> Some (Err e, f)
     | Ok n \<Rightarrow> do { assert_that (unat n = DIRENT); Some (Ok (directory_from_bytes bytes), f) }
   }"

definition is_name_equal :: "Directory \<Rightarrow> u8 list \<Rightarrow> bool" where
  "is_name_equal e name \<longleftrightarrow> takeWhile (\<lambda>c. c \<noteq> 0) (dir_name e) = name"

definition directory_set_name :: "u8 list \<Rightarrow> Directory \<Rightarrow> Directory" where
  "directory_set_name name e =
     (let len = min (length name) DIRSIZE in e\<lparr>dir_name := take len name @ replicate (DIRSIZE - len) 0\<rparr>)"

fun directory_empty_loop :: "SuperBlock \<Rightarrow> Inode \<Rightarrow> nat list \<Rightarrow> Fs \<Rightarrow> (bool \<times> Fs) option" where
  "directory_empty_loop sb ip [] f = Some (True, f)"
| "directory_empty_loop sb ip (offset # offsets) f = do {
     (r, f) \<leftarrow> directory_from_inode sb ip offset f;
     case r of
       Err _ \<Rightarrow> None
     | Ok e \<Rightarrow> if dir_inum e \<noteq> 0 then Some (False, f) else directory_empty_loop sb ip offsets f
   }"

definition directory_is_empty :: "SuperBlock \<Rightarrow> Inode \<Rightarrow> Fs \<Rightarrow> (bool \<times> Fs) option" where
  "directory_is_empty sb ip f = directory_empty_loop sb ip (step_by (2 * DIRENT) (unat (ii_size (inner_of ip f))) DIRENT) f"

fun directory_lookup_loop :: "SuperBlock \<Rightarrow> Inode \<Rightarrow> u8 list \<Rightarrow> nat list \<Rightarrow> Fs \<Rightarrow> (((nat \<times> Inode) option, FsError) result \<times> Fs) option" where
  "directory_lookup_loop sb ip name [] f = Some (Ok None, f)"
| "directory_lookup_loop sb ip name (offset # offsets) f = do {
     (r, f) \<leftarrow> directory_from_inode sb ip offset f;
     case r of
       Err e \<Rightarrow> Some (Err e, f)
     | Ok e \<Rightarrow>
         if dir_inum e = 0 then directory_lookup_loop sb ip name offsets f
         else if is_name_equal e name then
           (case inode_get (ip_dev ip) (ucast (dir_inum e)) f of
              (Err e, f) \<Rightarrow> Some (Err e, f)
            | (Ok ip', f) \<Rightarrow> Some (Ok (Some (offset, ip')), f))
         else directory_lookup_loop sb ip name offsets f
   }"

definition directory_lookup :: "SuperBlock \<Rightarrow> Inode \<Rightarrow> u8 list \<Rightarrow> Fs \<Rightarrow> (((nat \<times> Inode) option, FsError) result \<times> Fs) option" where
  "directory_lookup sb ip name f = do {
     assert_that (ii_type (inner_of ip f) = TypeDirectory);
     directory_lookup_loop sb ip name (step_by 0 (unat (ii_size (inner_of ip f))) DIRENT) f
   }"

text \<open>The offset of the first unused entry, or the end of the directory.\<close>

fun directory_slot_loop :: "SuperBlock \<Rightarrow> Inode \<Rightarrow> nat list \<Rightarrow> nat \<Rightarrow> Fs \<Rightarrow> ((nat, FsError) result \<times> Fs) option" where
  "directory_slot_loop sb ip [] end f = Some (Ok end, f)"
| "directory_slot_loop sb ip (offset # offsets) end f = do {
     (r, f) \<leftarrow> directory_from_inode sb ip offset f;
     case r of
       Err e \<Rightarrow> Some (Err e, f)
     | Ok e \<Rightarrow> if dir_inum e = 0 then Some (Ok offset, f) else directory_slot_loop sb ip offsets (offset + DIRENT) f
   }"

definition directory_link :: "SuperBlock \<Rightarrow> Inode \<Rightarrow> u8 list \<Rightarrow> u16 \<Rightarrow> Fs \<Rightarrow> ((unit, FsError) result \<times> Fs) option" where
  "directory_link sb ip name inum f = do {
     (r, f) \<leftarrow> directory_lookup sb ip name f;
     case r of
       Ok (Some (_, ip')) \<Rightarrow> do { f \<leftarrow> inode_put sb ip' f; Some (Err FsLink, f) }
     | _ \<Rightarrow> do {
         (r, f) \<leftarrow> directory_slot_loop sb ip (step_by 0 (unat (ii_size (inner_of ip f))) DIRENT) 0 f;
         case r of
           Err e \<Rightarrow> Some (Err e, f)
         | Ok offset \<Rightarrow> do {
             let e = (directory_set_name name directory_new_empty)\<lparr>dir_inum := inum\<rparr>;
             (r, _, f) \<leftarrow> inode_write sb kernel_source ip (word_of_nat offset) (word_of_nat DIRENT) (directory_as_bytes e) f;
             case r of
               Err e \<Rightarrow> Some (Err e, f)
             | Ok n \<Rightarrow> Some (if unat n \<noteq> DIRENT then Err FsLink else Ok (), f)
           }
       }
   }"

section \<open>Paths\<close>

text \<open>Path names are byte strings; 47 is the slash.\<close>

definition slash :: u8 where "slash = 47"

definition path_is_absolute :: "u8 list \<Rightarrow> bool" where
  "path_is_absolute p \<longleftrightarrow> p \<noteq> [] \<and> hd p = slash"

definition next_component :: "u8 list \<Rightarrow> (u8 list \<times> u8 list) option" where
  "next_component p =
     (let s = dropWhile (\<lambda>c. c = slash) p in
      if s = [] then None
      else Some (takeWhile (\<lambda>c. c \<noteq> slash) s, dropWhile (\<lambda>c. c = slash) (dropWhile (\<lambda>c. c \<noteq> slash) s)))"

lemma next_component_shorter: "next_component p = Some (c, rest) \<Longrightarrow> length rest < length p"
proof -
  assume a: "next_component p = Some (c, rest)"
  let ?s = "dropWhile (\<lambda>c. c = slash) p"
  have ne: "?s \<noteq> []" and r: "rest = dropWhile (\<lambda>c. c = slash) (dropWhile (\<lambda>c. c \<noteq> slash) ?s)"
    using a by (auto simp: next_component_def Let_def split: if_splits)
  obtain x xs where s: "?s = x # xs" using ne by (cases ?s) auto
  then have x: "x \<noteq> slash" by (metis (mono_tags, lifting) dropWhile_eq_Cons_conv)
  have "length rest \<le> length xs" unfolding r s using x by (simp add: le_trans [OF length_dropWhile_le length_dropWhile_le])
  also have "\<dots> < length ?s" by (simp add: s)
  also have "\<dots> \<le> length p" by (rule length_dropWhile_le)
  finally show ?thesis .
qed

function resolve_loop :: "SuperBlock \<Rightarrow> bool \<Rightarrow> Inode \<Rightarrow> u8 list \<Rightarrow> u8 list \<Rightarrow> Fs \<Rightarrow> ((Inode \<times> u8 list, FsError) result \<times> Fs) option" where
  "resolve_loop sb parent ip name path f =
     (case next_component path of
        None \<Rightarrow>
          if parent then do { f \<leftarrow> inode_put sb ip f; Some (Err FsResolve, f) }
          else Some (Ok (ip, name), f)
      | Some (component, rest) \<Rightarrow> do {
          f \<leftarrow> inode_lock sb ip f;
          if ii_type (inner_of ip f) \<noteq> TypeDirectory then do {
            f \<leftarrow> inode_unlock_put sb ip f;
            Some (Err FsResolve, f)
          } else if parent \<and> rest = [] then Some (Ok (ip, component), inode_unlock ip f)
          else do {
            (r, f) \<leftarrow> directory_lookup sb ip component f;
            case r of
              Err e \<Rightarrow> do { f \<leftarrow> inode_unlock_put sb ip f; Some (Err e, f) }
            | Ok None \<Rightarrow> do { f \<leftarrow> inode_unlock_put sb ip f; Some (Err FsResolve, f) }
            | Ok (Some (_, next)) \<Rightarrow> do {
                f \<leftarrow> inode_unlock_put sb ip f;
                resolve_loop sb parent next component rest f
              }
          }
        })"
  by pat_completeness auto
termination
  by (relation "measure (\<lambda>(sb, parent, ip, name, path, f). length path)") (auto dest: next_component_shorter)

declare resolve_loop.simps [simp del]

definition resolve_inner :: "SuperBlock \<Rightarrow> bool \<Rightarrow> Inode \<Rightarrow> u8 list \<Rightarrow> Fs \<Rightarrow> ((Inode \<times> u8 list, FsError) result \<times> Fs) option" where
  "resolve_inner sb parent cwd path f =
     (case (if path_is_absolute path then inode_get ROOTDEV ROOTINO f else map_prod Ok (\<lambda>x. x) (inode_dup cwd f)) of
        (Err e, f) \<Rightarrow> Some (Err e, f)
      | (Ok ip, f) \<Rightarrow> resolve_loop sb parent ip [] path f)"

definition path_resolve :: "SuperBlock \<Rightarrow> Inode \<Rightarrow> u8 list \<Rightarrow> Fs \<Rightarrow> ((Inode, FsError) result \<times> Fs) option" where
  "path_resolve sb cwd path f = do {
     (r, f) \<leftarrow> resolve_inner sb False cwd path f;
     Some (case r of Ok (ip, _) \<Rightarrow> Ok ip | Err e \<Rightarrow> Err e, f)
   }"

definition path_resolve_parent :: "SuperBlock \<Rightarrow> Inode \<Rightarrow> u8 list \<Rightarrow> Fs \<Rightarrow> ((Inode \<times> u8 list, FsError) result \<times> Fs) option" where
  "path_resolve_parent sb cwd path f = resolve_inner sb True cwd path f"

section \<open>Creating files\<close>

text \<open>The cleanup of \<open>create\<close> when a directory entry cannot be written.\<close>

definition create_fail :: "SuperBlock \<Rightarrow> Inode \<Rightarrow> Inode \<Rightarrow> Fs \<Rightarrow> ((Inode, FsError) result \<times> Fs) option" where
  "create_fail sb parent ip f = do {
     f \<leftarrow> inode_update sb ip (set_inner ip ((inner_of ip f)\<lparr>ii_nlink := 0\<rparr>) f);
     f \<leftarrow> inode_unlock_put sb ip f;
     f \<leftarrow> inode_unlock_put sb parent f;
     Some (Err FsCreate, f)
   }"

definition dot :: "u8 list" where "dot = [46]"
definition dotdot :: "u8 list" where "dotdot = [46, 46]"

text \<open>\<open>.\<close> and \<open>..\<close>; the second is not tried when the first fails.\<close>

definition create_dots :: "SuperBlock \<Rightarrow> Inode \<Rightarrow> Inode \<Rightarrow> Fs \<Rightarrow> (bool \<times> Fs) option" where
  "create_dots sb parent ip f = do {
     (r, f) \<leftarrow> directory_link sb ip dot (ucast (ip_inum ip)) f;
     if \<not> is_ok r then Some (False, f)
     else do {
       (r, f) \<leftarrow> directory_link sb ip dotdot (ucast (ip_inum parent)) f;
       Some (is_ok r, f)
     }
   }"

definition create_new :: "SuperBlock \<Rightarrow> Inode \<Rightarrow> u8 list \<Rightarrow> InodeType \<Rightarrow> u16 \<Rightarrow> u16 \<Rightarrow> Fs \<Rightarrow> ((Inode, FsError) result \<times> Fs) option" where
  "create_new sb parent name ty major minor f = do {
     (r, f) \<leftarrow> inode_alloc sb (ip_dev parent) ty f;
     case r of
       Err e \<Rightarrow> do { f \<leftarrow> inode_unlock_put sb parent f; Some (Err e, f) }
     | Ok ip \<Rightarrow> do {
         f \<leftarrow> inode_lock sb ip f;
         f \<leftarrow> inode_update sb ip (set_inner ip ((inner_of ip f)\<lparr>ii_major := major, ii_minor := minor, ii_nlink := 1\<rparr>) f);
         (good, f) \<leftarrow> (if ty = TypeDirectory then create_dots sb parent ip f else Some (True, f));
         if \<not> good then create_fail sb parent ip f
         else do {
           (r, f) \<leftarrow> directory_link sb parent name (ucast (ip_inum ip)) f;
           if \<not> is_ok r then create_fail sb parent ip f
           else do {
             f \<leftarrow> (if ty = TypeDirectory
                   then inode_update sb parent (set_inner parent ((inner_of parent f)\<lparr>ii_nlink := ii_nlink (inner_of parent f) + 1\<rparr>) f)
                   else Some f);
             f \<leftarrow> inode_unlock_put sb parent f;
             Some (Ok ip, f)
           }
         }
       }
   }"

text \<open>The inode that \<open>create\<close> returns is locked.\<close>

definition inode_create :: "SuperBlock \<Rightarrow> Inode \<Rightarrow> u8 list \<Rightarrow> InodeType \<Rightarrow> u16 \<Rightarrow> u16 \<Rightarrow> Fs \<Rightarrow> ((Inode, FsError) result \<times> Fs) option" where
  "inode_create sb cwd path ty major minor f = do {
     (r, f) \<leftarrow> path_resolve_parent sb cwd path f;
     case r of
       Err e \<Rightarrow> Some (Err e, f)
     | Ok (parent, name) \<Rightarrow> do {
         f \<leftarrow> inode_lock sb parent f;
         (r, f) \<leftarrow> directory_lookup sb parent name f;
         case r of
           Ok (Some (_, ip)) \<Rightarrow> do {
             f \<leftarrow> inode_unlock_put sb parent f;
             f \<leftarrow> inode_lock sb ip f;
             if ty = TypeFile \<and> (ii_type (inner_of ip f) = TypeFile \<or> ii_type (inner_of ip f) = TypeDevice)
             then Some (Ok ip, f)
             else do { f \<leftarrow> inode_unlock_put sb ip f; Some (Err FsCreate, f) }
           }
         | _ \<Rightarrow> create_new sb parent name ty major minor f
       }
   }"

section \<open>The path of the working directory\<close>

text \<open>\<open>String::from_utf8\<close>: the well-formed byte sequences of UTF-8.\<close>

definition in_range :: "nat \<Rightarrow> nat \<Rightarrow> u8 \<Rightarrow> bool" where
  "in_range lo hi c \<longleftrightarrow> lo \<le> unat c \<and> unat c \<le> hi"

fun utf8 :: "u8 list \<Rightarrow> bool" where
  "utf8 [] = True"
| "utf8 (a # s) =
     (if in_range 0 0x7F a then utf8 s
      else case s of
        [] \<Rightarrow> False
      | b # s2 \<Rightarrow>
          if in_range 0xC2 0xDF a then in_range 0x80 0xBF b \<and> utf8 s2
          else case s2 of
            [] \<Rightarrow> False
          | c # s3 \<Rightarrow>
              if in_range 0xE0 0xEF a
              then in_range (if a = 0xE0 then 0xA0 else 0x80) (if a = 0xED then 0x9F else 0xBF) b \<and> in_range 0x80 0xBF c \<and> utf8 s3
              else case s3 of
                [] \<Rightarrow> False
              | d # s4 \<Rightarrow>
                  in_range 0xF0 0xF4 a \<and> in_range (if a = 0xF0 then 0x90 else 0x80) (if a = 0xF4 then 0x8F else 0xBF) b \<and>
                  in_range 0x80 0xBF c \<and> in_range 0x80 0xBF d \<and> utf8 s4)"

datatype name_scan = Found "u8 list" | BadName | ScanError FsError | NotFound

fun parent_scan :: "SuperBlock \<Rightarrow> Inode \<Rightarrow> u32 \<Rightarrow> nat list \<Rightarrow> Fs \<Rightarrow> (name_scan \<times> Fs) option" where
  "parent_scan sb parent inum [] f = Some (NotFound, f)"
| "parent_scan sb parent inum (offset # offsets) f = do {
     (r, f) \<leftarrow> directory_from_inode sb parent offset f;
     case r of
       Err e \<Rightarrow> Some (ScanError e, f)
     | Ok e \<Rightarrow>
         if ucast (dir_inum e) = inum
         then let name = takeWhile (\<lambda>c. c \<noteq> 0) (dir_name e) in Some (if utf8 name then Found name else BadName, f)
         else parent_scan sb parent inum offsets f
   }"

text \<open>Directories that form a cycle without the root make \<open>make_path\<close> run forever.\<close>

partial_function (option) make_path_loop ::
    "SuperBlock \<Rightarrow> Inode \<Rightarrow> u8 list list \<Rightarrow> Fs \<Rightarrow> ((u8 list, FsError) result \<times> Fs) option" where
  "make_path_loop sb ip parts f =
     (if ip_inum ip = ROOTINO then do {
        f \<leftarrow> inode_put sb ip (inode_unlock ip f);
        Some (Ok (if parts = [] then [slash] else concat (rev parts)), f)
      } else do {
        (r, f) \<leftarrow> directory_lookup sb ip dotdot f;
        case r of
          Err e \<Rightarrow> do { f \<leftarrow> inode_put sb ip (inode_unlock ip f); Some (Err e, f) }
        | Ok None \<Rightarrow> do { f \<leftarrow> inode_put sb ip (inode_unlock ip f); Some (Err FsOutOfRange, f) }
        | Ok (Some (_, parent)) \<Rightarrow> do {
            f \<leftarrow> inode_lock sb parent (inode_unlock ip f);
            (r, f) \<leftarrow> parent_scan sb parent (ip_inum ip) (step_by 0 (unat (ii_size (inner_of parent f))) DIRENT) f;
            case r of
              ScanError e \<Rightarrow> do {
                f \<leftarrow> inode_put sb parent (inode_unlock parent f);
                f \<leftarrow> inode_put sb ip f;
                Some (Err e, f)
              }
            | BadName \<Rightarrow> do {
                f \<leftarrow> inode_put sb parent (inode_unlock parent f);
                f \<leftarrow> inode_put sb ip f;
                Some (Err FsInvalidName, f)
              }
            | NotFound \<Rightarrow> do {
                f \<leftarrow> inode_put sb ip (inode_unlock parent f);
                f \<leftarrow> inode_put sb parent f;
                Some (Err FsResolve, f)
              }
            | Found name \<Rightarrow> do {
                f \<leftarrow> inode_put sb ip (inode_unlock parent f);
                f \<leftarrow> inode_lock sb parent f;
                make_path_loop sb parent (parts @ [name, [slash]]) f
              }
          }
      })"

definition make_path :: "SuperBlock \<Rightarrow> Inode \<Rightarrow> Fs \<Rightarrow> ((u8 list, FsError) result \<times> Fs) option" where
  "make_path sb ip f = do { f \<leftarrow> inode_lock sb ip f; make_path_loop sb ip [] f }"

end
