(* ===== verification/Fs_Blocks.thy ===== *)
theory Fs_Blocks
  imports Fs
begin

text \<open>
  Block allocation.  The bitmap is read as a set of block numbers; \<open>alloc\<close> adds the first block that is
  not in the set and clears it, \<open>free\<close> removes a block.
\<close>

section \<open>Bits\<close>

lemma bitmap_free_bit: "bi div 8 < length d \<Longrightarrow> bitmap_free d bi \<longleftrightarrow> \<not> bit (d ! (bi div 8)) (bi mod 8)"
proof -
  have "x AND push_bit j 1 = 0 \<longleftrightarrow> \<not> bit x j" if "j < 8" for x :: u8 and j
  proof
    assume a: "x AND push_bit j 1 = 0"
    show "\<not> bit x j"
    proof
      assume "bit x j"
      then have "bit (x AND push_bit j 1) j" using that by (simp add: bit_simps)
      then show False unfolding a by simp
    qed
  next
    assume "\<not> bit x j"
    then show "x AND push_bit j 1 = 0" by (intro bit_word_eqI) (auto simp: bit_simps)
  qed
  then show ?thesis by (simp add: bitmap_free_def)
qed

lemma bitmap_take_give:
  assumes "bi div 8 < length d" "bj div 8 < length d"
  shows "bitmap_free (bitmap_take d bi) bj \<longleftrightarrow> bj \<noteq> bi \<and> bitmap_free d bj"
    "bitmap_free (bitmap_give d bi) bj \<longleftrightarrow> bj = bi \<or> bitmap_free d bj"
    "length (bitmap_take d bi) = length d" "length (bitmap_give d bi) = length d"
proof -
  have e: "bj div 8 = bi div 8 \<Longrightarrow> bj mod 8 = bi mod 8 \<longleftrightarrow> bj = bi" by (metis div_mod_decomp)
  have t: "bj div 8 < length (bitmap_take d bi)" "bj div 8 < length (bitmap_give d bi)" using assms by (simp_all add: bitmap_take_def bitmap_give_def)
  show "bitmap_free (bitmap_take d bi) bj \<longleftrightarrow> bj \<noteq> bi \<and> bitmap_free d bj"
    unfolding bitmap_free_bit [OF t(1)] bitmap_free_bit [OF assms(2)]
    using assms e by (cases "bj div 8 = bi div 8") (auto simp: bitmap_take_def bit_simps)
  show "bitmap_free (bitmap_give d bi) bj \<longleftrightarrow> bj = bi \<or> bitmap_free d bj"
    unfolding bitmap_free_bit [OF t(2)] bitmap_free_bit [OF assms(2)]
    using assms e by (cases "bj div 8 = bi div 8") (auto simp: bitmap_give_def bit_simps)
qed (simp_all add: bitmap_take_def bitmap_give_def)

section \<open>The set of blocks in use\<close>

text \<open>A block number is located in the bitmap by \<open>bmap_block\<close> and \<open>bmap_index\<close>.\<close>

definition bmap_block :: "SuperBlock \<Rightarrow> u32 \<Rightarrow> u32" where
  "bmap_block sb b = sb_bmapstart sb + b div BPB"

definition bmap_index :: "u32 \<Rightarrow> nat" where
  "bmap_index b = unat (b mod BPB)"

definition used :: "SuperBlock \<Rightarrow> (u32 \<Rightarrow> u8 list) \<Rightarrow> u32 set" where
  "used sb V = {b. b < sb_size sb \<and> \<not> bitmap_free (V (bmap_block sb b)) (bmap_index b)}"

lemma BPB_values: "BPB = 8192" "unat BPB = 8192" "unat (b div BPB) = unat b div 8192" "bmap_index b = unat b mod 8192" "bmap_index b div 8 < BSIZE"
proof -
  show v: "BPB = 8192" by (simp add: BPB_def BSIZE_def)
  show "unat BPB = 8192" "unat (b div BPB) = unat b div 8192" by (simp_all add: v unat_div)
  show i: "bmap_index b = unat b mod 8192" by (simp add: bmap_index_def v unat_mod)
  have "unat b mod 8192 < 8192" by simp
  then have "unat b mod 8192 div 8 < 1024" by (simp add: div_less_iff_less_mult)
  then show "bmap_index b div 8 < BSIZE" by (simp add: i BSIZE_def)
qed

definition geometry :: "SuperBlock \<Rightarrow> bool" where
  "geometry sb \<longleftrightarrow> unat (sb_size sb) + 8192 \<le> 2 ^ 32 \<and> unat (sb_bmapstart sb) + unat (sb_size sb) div 8192 < 2 ^ 32"

lemma bmap_block_inj:
  assumes "geometry sb" "a < sb_size sb" "b < sb_size sb" "bmap_block sb a = bmap_block sb b" "bmap_index a = bmap_index b"
  shows "a = b"
proof -
  have "a div BPB = b div BPB" using assms(4) by (simp add: bmap_block_def)
  then have "unat a div 8192 = unat b div 8192" by (metis BPB_values(3))
  moreover have "unat a mod 8192 = unat b mod 8192" using assms(5) by (simp add: BPB_values(4))
  ultimately have "unat a = unat b" by (metis div_mod_decomp)
  then show ?thesis by (simp add: word_unat_eq_iff)
qed

text \<open>The bitmap of a well-formed file system lies outside the log and marks itself and the log as used.\<close>

definition bitmap_ok :: "SuperBlock \<Rightarrow> u32 set \<Rightarrow> (u32 \<Rightarrow> u8 list) \<Rightarrow> bool" where
  "bitmap_ok sb area V \<longleftrightarrow> geometry sb \<and> (\<forall>b < sb_size sb. bmap_block sb b \<notin> area \<and>
     (b \<notin> used sb V \<longrightarrow> b \<notin> area \<and> (\<forall>c < sb_size sb. b \<noteq> bmap_block sb c)))"

lemma used_update:
  assumes "geometry sb" "b < sb_size sb" "length (V (bmap_block sb b)) = BSIZE"
  shows "used sb (V(bmap_block sb b := bitmap_take (V (bmap_block sb b)) (bmap_index b))) = insert b (used sb V)"
    "used sb (V(bmap_block sb b := bitmap_give (V (bmap_block sb b)) (bmap_index b))) = used sb V - {b}"
proof -
  let ?d = "V (bmap_block sb b)"
  have x: "bitmap_free ((V(bmap_block sb b := bitmap_take ?d (bmap_index b))) (bmap_block sb c)) (bmap_index c) \<longleftrightarrow> c \<noteq> b \<and> bitmap_free (V (bmap_block sb c)) (bmap_index c)"
    "bitmap_free ((V(bmap_block sb b := bitmap_give ?d (bmap_index b))) (bmap_block sb c)) (bmap_index c) \<longleftrightarrow> c = b \<or> bitmap_free (V (bmap_block sb c)) (bmap_index c)"
    if c: "c < sb_size sb" for c
  proof -
    have l: "bmap_index b div 8 < length ?d" "bmap_index c div 8 < length ?d" using BPB_values(5) assms(3) by simp_all
    note t = bitmap_take_give(1,2) [OF l]
    have i: "bmap_block sb c = bmap_block sb b \<Longrightarrow> bmap_index c = bmap_index b \<longleftrightarrow> c = b" using bmap_block_inj [OF assms(1) c assms(2)] by blast
    show "bitmap_free ((V(bmap_block sb b := bitmap_take ?d (bmap_index b))) (bmap_block sb c)) (bmap_index c) \<longleftrightarrow> c \<noteq> b \<and> bitmap_free (V (bmap_block sb c)) (bmap_index c)"
      "bitmap_free ((V(bmap_block sb b := bitmap_give ?d (bmap_index b))) (bmap_block sb c)) (bmap_index c) \<longleftrightarrow> c = b \<or> bitmap_free (V (bmap_block sb c)) (bmap_index c)"
      using t i by (cases "bmap_block sb c = bmap_block sb b"; simp; blast)+
  qed
  show "used sb (V(bmap_block sb b := bitmap_take (V (bmap_block sb b)) (bmap_index b))) = insert b (used sb V)"
    using x(1) assms(2) unfolding used_def by blast
  show "used sb (V(bmap_block sb b := bitmap_give (V (bmap_block sb b)) (bmap_index b))) = used sb V - {b}"
    using x(2) unfolding used_def by blast
qed

lemma used_other: "(\<forall>c < sb_size sb. b \<noteq> bmap_block sb c) \<Longrightarrow> used sb (V(b := d)) = used sb V"
  by (auto simp: used_def)

section \<open>Scanning\<close>

lemma bitmap_scan_Some:
  "bitmap_scan b sz d [j..<n] = Some bi \<Longrightarrow> j \<le> bi \<and> bi < n \<and> b + word_of_nat bi < sz \<and> bitmap_free d bi \<and> (\<forall>i. j \<le> i \<longrightarrow> i < bi \<longrightarrow> \<not> bitmap_free d i)"
proof (induction "n - j" arbitrary: j)
  case (Suc k)
  then have u: "[j..<n] = j # [Suc j..<n]" by (simp add: upt_rec)
  show ?case
  proof (cases "b + word_of_nat j \<ge> sz \<or> bitmap_free d j")
    case True
    then show ?thesis using Suc.prems Suc.hyps(2) by (auto simp: u not_le split: if_splits)
  next
    case False
    then have "bitmap_scan b sz d [Suc j..<n] = Some bi" using Suc.prems by (simp add: u)
    from Suc.hyps(1) [OF _ this] Suc.hyps(2) have
      r: "Suc j \<le> bi" "bi < n" "b + word_of_nat bi < sz" "bitmap_free d bi" "\<forall>i. Suc j \<le> i \<longrightarrow> i < bi \<longrightarrow> \<not> bitmap_free d i" by simp_all
    then have "\<not> bitmap_free d i" if "j \<le> i" "i < bi" for i using that False by (cases "i = j") simp_all
    with r show ?thesis by simp
  qed
qed simp

lemma bitmap_scan_None:
  "bitmap_scan b sz d [j..<n] = None \<Longrightarrow> unat b + n \<le> 2 ^ 32 \<Longrightarrow> j \<le> i \<Longrightarrow> i < n \<Longrightarrow> b + word_of_nat i < sz \<Longrightarrow> \<not> bitmap_free d i"
proof (induction "n - j" arbitrary: j)
  case (Suc k)
  then have u: "[j..<n] = j # [Suc j..<n]" by (simp add: upt_rec)
  have w: "unat (b + word_of_nat x) = unat b + x" if "x < n" for x
    using that Suc.prems(2) by (simp add: unat_word_ariths unat_of_nat)
  have lt: "b + word_of_nat j < sz"
  proof -
    have "unat (b + word_of_nat j) \<le> unat (b + word_of_nat i)" using w [of i] w [of j] Suc.prems(3,4) by simp
    then show ?thesis using Suc.prems(5) by (simp add: word_less_nat_alt)
  qed
  then have nf: "\<not> bitmap_free d j" and r: "bitmap_scan b sz d [Suc j..<n] = None" using Suc.prems(1) by (auto simp: u not_le split: if_splits)
  show ?case
  proof (cases "i = j")
    case False
    with Suc.prems(3) have "Suc j \<le> i" by simp
    from Suc.hyps(1) [OF _ r Suc.prems(2) this Suc.prems(4,5)] Suc.hyps(2) show ?thesis by simp
  qed (simp add: nf)
qed simp

section \<open>Allocation and release\<close>

definition keeps_handles :: "u32 \<Rightarrow> u32 set \<Rightarrow> bstore \<Rightarrow> bstore \<Rightarrow> bool" where
  "keeps_handles dev H s s' \<longleftrightarrow> (\<forall>j c. c \<in> H \<longrightarrow> txn_handle dev s j c \<longrightarrow> txn_handle dev s' j c)"

lemma keeps_handles_trans: "keeps_handles dev H s s' \<Longrightarrow> keeps_handles dev H s' s'' \<Longrightarrow> keeps_handles dev H s s''"
  by (simp add: keeps_handles_def)

lemma block_zero_spec:
  assumes "txn_ok dev area (Suc k) H s" "b \<notin> H" "card H < 4" "b \<notin> area"
  shows "\<exists>s'. block_zero dev b s = Some s' \<and> txn_ok dev area k H s' \<and> txn_view dev s' = (txn_view dev s)(b := replicate BSIZE 0) \<and> keeps_handles dev H s s'"
proof -
  have "length ((\<lambda>_. replicate BSIZE (0 :: u8)) (txn_view dev s b)) = BSIZE" by simp
  from tx.modify [OF assms this] obtain i s1 s2 where
    "tx_read dev b s = Some (i, s1)" "tx_log i (tx_set i (replicate BSIZE 0) s1) = Some s2" "txn_ok dev area k H (tx_release i s2)"
    "txn_view dev (tx_release i s2) = (txn_view dev s)(b := replicate BSIZE 0)" "\<forall>j c. txn_handle dev s j c \<longrightarrow> c \<noteq> b \<longrightarrow> txn_handle dev (tx_release i s2) j c" by blast
  then show ?thesis using assms(2) by (auto simp: block_zero_def keeps_handles_def)
qed

lemma block_free_spec:
  assumes "txn_ok dev area (Suc k) H s" "bmap_block sb b \<notin> H" "card H < 4" "bmap_block sb b \<notin> area" "b \<in> used sb (txn_view dev s)"
  shows "\<exists>s'. block_free sb dev b s = Some s' \<and> txn_ok dev area k H s' \<and> keeps_handles dev H s s' \<and>
    txn_view dev s' = (txn_view dev s)(bmap_block sb b := bitmap_give (txn_view dev s (bmap_block sb b)) (bmap_index b))"
proof -
  have "length (bitmap_give (txn_view dev s (bmap_block sb b)) (bmap_index b)) = BSIZE" using tx.block_size [OF assms(1)] by (simp add: bitmap_give_def)
  from tx.modify [OF assms(1-4), of "\<lambda>d. bitmap_give d (bmap_index b)", OF this] obtain i s1 s2 where
    "tx_read dev (bmap_block sb b) s = Some (i, s1)" "tx_data i s1 = txn_view dev s (bmap_block sb b)"
    "tx_log i (tx_set i (bitmap_give (txn_view dev s (bmap_block sb b)) (bmap_index b)) s1) = Some s2" "txn_ok dev area k H (tx_release i s2)"
    "txn_view dev (tx_release i s2) = (txn_view dev s)(bmap_block sb b := bitmap_give (txn_view dev s (bmap_block sb b)) (bmap_index b))"
    "\<forall>j c. txn_handle dev s j c \<longrightarrow> c \<noteq> bmap_block sb b \<longrightarrow> txn_handle dev (tx_release i s2) j c" by blast
  then show ?thesis using assms(2,5) unfolding block_free_def bmap_block_def [symmetric] bmap_index_def [symmetric]
    by (auto simp: keeps_handles_def used_def)
qed

text \<open>A free block in the bitmap is a panic of \<open>free\<close>.\<close>

lemma block_free_panics:
  assumes "txn_ok dev area k H s" "bmap_block sb b \<notin> H" "card H < 4" "b < sb_size sb" "b \<notin> used sb (txn_view dev s)"
  shows "block_free sb dev b s = None"
proof -
  from tx.peek [OF assms(1-3)] obtain i s1 where
    "tx_read dev (bmap_block sb b) s = Some (i, s1)" "tx_data i s1 = txn_view dev s (bmap_block sb b)" by blast
  then show ?thesis using assms(4,5) unfolding block_free_def bmap_block_def [symmetric] bmap_index_def [symmetric] by (simp add: used_def)
qed

lemma unat_u32: "n < 2 ^ 32 \<Longrightarrow> unat (word_of_nat n :: u32) = n"
  unfolding unat_of_nat by simp

definition chunk :: "nat \<Rightarrow> u32" where
  "chunk q = word_of_nat (q * 8192)"

lemma chunk_index:
  assumes "q * 8192 + bi < 2 ^ 32" "bi < 8192"
  shows "unat (chunk q + word_of_nat bi :: u32) = q * 8192 + bi" "bmap_index (chunk q + word_of_nat bi) = bi"
    "bmap_block sb (chunk q + word_of_nat bi) = sb_bmapstart sb + chunk q div BPB"
proof -
  have q: "unat (chunk q) = q * 8192" "unat (word_of_nat bi :: u32) = bi" using assms unfolding chunk_def by (intro unat_u32; linarith)+
  show u: "unat (chunk q + word_of_nat bi :: u32) = q * 8192 + bi" unfolding unat_word_ariths q using assms(1) by simp
  then show "bmap_index (chunk q + word_of_nat bi) = bi" using assms(2) by (simp add: BPB_values(4))
  have "unat ((chunk q + word_of_nat bi :: u32) div BPB) = unat (chunk q div BPB :: u32)"
    unfolding BPB_values(3) u q using assms(2) by simp
  then have "(chunk q + word_of_nat bi :: u32) div BPB = chunk q div BPB" by (simp add: word_unat_eq_iff)
  then show "bmap_block sb (chunk q + word_of_nat bi) = sb_bmapstart sb + chunk q div BPB" by (simp add: bmap_block_def)
qed

text \<open>What allocation promises: the first free block, cleared, or none when all are in use.\<close>

definition alloc_post :: "SuperBlock \<Rightarrow> (u32 \<Rightarrow> u8 list) \<Rightarrow> (u32, FsError) result \<Rightarrow> (u32 \<Rightarrow> u8 list) \<Rightarrow> bool" where
  "alloc_post sb V r V' = (case r of
     Ok b \<Rightarrow> b < sb_size sb \<and> b \<notin> used sb V \<and> (\<forall>c < b. c \<in> used sb V) \<and>
       V' = (V(bmap_block sb b := bitmap_take (V (bmap_block sb b)) (bmap_index b)))(b := replicate BSIZE 0)
   | Err e \<Rightarrow> e = FsOutOfBlock \<and> (\<forall>b < sb_size sb. b \<in> used sb V) \<and> V' = V)"

definition alloc_pre :: "SuperBlock \<Rightarrow> u32 set \<Rightarrow> u32 set \<Rightarrow> (u32 \<Rightarrow> u8 list) \<Rightarrow> bool" where
  "alloc_pre sb area H V \<longleftrightarrow> bitmap_ok sb area V \<and> (\<forall>b < sb_size sb. bmap_block sb b \<notin> H \<and> (b \<notin> used sb V \<longrightarrow> b \<notin> H))"

lemma block_alloc_loop_spec:
  assumes "txn_ok dev area (Suc (Suc k)) H s" "card H < 4" "alloc_pre sb area H (txn_view dev s)" "Q * 8192 < unat (sb_size sb) + 8192"
    "unat (sb_size sb) \<le> Q * 8192" "\<forall>c. unat c < q * 8192 \<longrightarrow> c < sb_size sb \<longrightarrow> c \<in> used sb (txn_view dev s)" "q \<le> Q"
  shows "\<exists>r s'. block_alloc_loop sb dev (map chunk [q..<Q]) s = Some (r, s') \<and> txn_ok dev area k H s' \<and>
    keeps_handles dev H s s' \<and> alloc_post sb (txn_view dev s) r (txn_view dev s')"
  using assms
proof (induction "Q - q" arbitrary: q s)
  case 0
  then have "block_alloc_loop sb dev (map chunk [q..<Q]) s = Some (Err FsOutOfBlock, s)" by simp
  moreover have "\<forall>b < sb_size sb. b \<in> used sb (txn_view dev s)" using 0 by (auto simp: word_less_nat_alt)
  ultimately show ?case using tx.room_le [OF 0(2), of k] by (intro exI [of _ "Err FsOutOfBlock"] exI [of _ s]) (simp add: alloc_post_def keeps_handles_def)
next
  case (Suc n)
  let ?V = "txn_view dev s" and ?b = "chunk q"
  have qQ: "q < Q" using Suc.hyps(2) by simp
  then have u: "[q..<Q] = q # [Suc q..<Q]" by (simp add: upt_rec)
  have geo: "geometry sb" "unat (sb_size sb) + 8192 \<le> 2 ^ 32" using Suc.prems(3) by (simp_all add: alloc_pre_def bitmap_ok_def geometry_def)
  have qs: "q * 8192 < unat (sb_size sb)" using qQ Suc.prems(4) by (simp add: algebra_simps)
  have ub: "unat ?b = q * 8192" using qs geo(2) unfolding chunk_def by (intro unat_u32) linarith
  then have bsz: "?b < sb_size sb" using qs by (simp add: word_less_nat_alt)
  note C = chunk_index [of q]
  have C0: "bmap_block sb ?b = sb_bmapstart sb + ?b div BPB" by (simp add: bmap_block_def)
  have pre: "bmap_block sb ?b \<notin> H" "bmap_block sb ?b \<notin> area" using Suc.prems(3) bsz by (auto simp: alloc_pre_def bitmap_ok_def)
  from tx.peek [OF Suc.prems(1) pre(1) Suc.prems(2)] obtain i s1 where
    1: "tx_read dev (bmap_block sb ?b) s = Some (i, s1)" "tx_data i s1 = ?V (bmap_block sb ?b)" "txn_ok dev area (Suc (Suc k)) H (tx_release i s1)"
      "txn_view dev (tx_release i s1) = ?V" "txn_ok dev area (Suc (Suc k)) (insert (bmap_block sb ?b) H) s1" "txn_view dev s1 = ?V" "txn_handle dev s1 i (bmap_block sb ?b)"
      "\<forall>j c. txn_handle dev s j c \<longrightarrow> txn_handle dev s1 j c" "\<forall>j c. txn_handle dev s j c \<longrightarrow> c \<noteq> bmap_block sb ?b \<longrightarrow> txn_handle dev (tx_release i s1) j c" by blast
  show ?case
  proof (cases "bitmap_scan ?b (sb_size sb) (?V (bmap_block sb ?b)) [0..<8192]")
    case None
    have "c \<in> used sb ?V" if "unat c < Suc q * 8192" "c < sb_size sb" for c
    proof (cases "unat c < q * 8192")
      case False
      define bi where "bi = unat c - q * 8192"
      have bi: "bi < 8192" "q * 8192 + bi < 2 ^ 32" "unat c = q * 8192 + bi" using that False unsigned_less [of c] by (simp_all add: bi_def)
      then have c: "c = ?b + word_of_nat bi" using C(1) [OF bi(2,1)] by (simp add: word_unat_eq_iff)
      have "unat ?b + 8192 \<le> 2 ^ 32" using qs geo(2) ub by simp
      from bitmap_scan_None [OF None this, of bi] bi(1) that(2) c have "\<not> bitmap_free (?V (bmap_block sb ?b)) bi" by simp
      then show ?thesis using C(2,3) [OF bi(2,1)] that(2) c C0 by (simp add: used_def)
    qed (use Suc.prems(6) that in blast)
    then have d: "\<forall>c. unat c < Suc q * 8192 \<longrightarrow> c < sb_size sb \<longrightarrow> c \<in> used sb (txn_view dev (tx_release i s1))" by (simp add: 1(4))
    have pre': "alloc_pre sb area H (txn_view dev (tx_release i s1))" using Suc.prems(3) by (simp add: 1(4))
    have "n = Q - Suc q" "Suc q \<le> Q" using Suc.hyps(2) by simp_all
    from Suc.hyps(1) [OF this(1) 1(3) Suc.prems(2) pre' Suc.prems(4,5) d this(2)] obtain r s' where
      2: "block_alloc_loop sb dev (map chunk [Suc q..<Q]) (tx_release i s1) = Some (r, s')" "txn_ok dev area k H s'"
        "keeps_handles dev H (tx_release i s1) s'" "alloc_post sb (txn_view dev (tx_release i s1)) r (txn_view dev s')" by blast
    have "keeps_handles dev H s (tx_release i s1)" using 1(9) pre(1) by (auto simp: keeps_handles_def)
    from keeps_handles_trans [OF this 2(3)] show ?thesis using 1(1,2,4) 2(1,2,4) None by (simp add: u C0 BPB_values(2))
  next
    case (Some bi)
    note S = bitmap_scan_Some [OF Some]
    have bi: "bi < 8192" "q * 8192 + bi < 2 ^ 32" using S qs geo(2) by simp_all
    define b where "b = ?b + word_of_nat bi"
    have B: "bmap_index b = bi" "bmap_block sb b = bmap_block sb ?b" "unat b = q * 8192 + bi" "b < sb_size sb"
      using C [OF bi(2,1)] S by (simp_all add: b_def C0)
    have nu: "b \<notin> used sb ?V" using S B by (simp add: used_def)
    have pb: "b \<notin> area" "b \<notin> H" "b \<noteq> bmap_block sb ?b" using Suc.prems(3) nu B(4) bsz by (auto simp: alloc_pre_def bitmap_ok_def)
    have first: "c \<in> used sb ?V" if "c < b" for c
    proof (cases "unat c < q * 8192")
      case True
      then show ?thesis using Suc.prems(6) that B(4) by (meson order.strict_trans)
    next
      case False
      define ci where "ci = unat c - q * 8192"
      have cc: "unat c < q * 8192 + bi" using that B(3) by (simp add: word_less_nat_alt)
      then have ci: "ci < bi" "unat c = q * 8192 + ci" "ci < 8192" "q * 8192 + ci < 2 ^ 32" using False bi by (simp_all add: ci_def)
      then have c: "c = ?b + word_of_nat ci" using C(1) [OF ci(4,3)] by (simp add: word_unat_eq_iff)
      have "c < sb_size sb" using that B(4) by (rule order.strict_trans)
      then show ?thesis using S ci C(2,3) [OF ci(4,3)] c C0 by (simp add: used_def)
    qed
    have len: "length (bitmap_take (?V (bmap_block sb ?b)) bi) = BSIZE" using tx.block_size [OF Suc.prems(1)] by (simp add: bitmap_take_def)
    from tx.update_law [OF 1(5,7) pre(2) len] obtain s2 where
      2: "tx_log i (tx_set i (bitmap_take (?V (bmap_block sb ?b)) bi) s1) = Some s2" "txn_ok dev area (Suc k) (insert (bmap_block sb ?b) H) s2"
        "txn_view dev s2 = ?V(bmap_block sb ?b := bitmap_take (?V (bmap_block sb ?b)) bi)" "\<forall>j c. txn_handle dev s1 j c \<longrightarrow> txn_handle dev s2 j c"
      using 1(6) by auto
    have h2: "txn_handle dev s2 i (bmap_block sb ?b)" using 1(7) 2(4) by blast
    have eq: "insert (bmap_block sb ?b) H - {bmap_block sb ?b} = H" using pre(1) by simp
    from tx.release_law [OF 2(2) h2] have
      3: "txn_ok dev area (Suc k) H (tx_release i s2)" "txn_view dev (tx_release i s2) = txn_view dev s2"
        "\<forall>j c. txn_handle dev s2 j c \<longrightarrow> c \<noteq> bmap_block sb ?b \<longrightarrow> txn_handle dev (tx_release i s2) j c" unfolding eq by simp_all
    from block_zero_spec [OF 3(1) pb(2) Suc.prems(2) pb(1)] obtain s' where
      4: "block_zero dev b (tx_release i s2) = Some s'" "txn_ok dev area k H s'" "txn_view dev s' = (txn_view dev (tx_release i s2))(b := replicate BSIZE 0)"
        "keeps_handles dev H (tx_release i s2) s'" by blast
    have "block_alloc_loop sb dev (map chunk [q..<Q]) s = Some (Ok b, s')"
      using 1(1,2) 2(1) 4(1) Some by (simp add: u C0 BPB_values(2) b_def)
    moreover have "keeps_handles dev H s (tx_release i s2)" using 1(8) 2(4) 3(3) pre(1) unfolding keeps_handles_def by metis
    then have "keeps_handles dev H s s'" using 4(4) by (rule keeps_handles_trans)
    moreover have "alloc_post sb ?V (Ok b) (txn_view dev s')" using B nu first by (simp add: alloc_post_def 4(3) 3(2) 2(3))
    ultimately show ?thesis using 4(2) by blast
  qed
qed

lemma block_alloc_spec:
  assumes "txn_ok dev area (Suc (Suc k)) H s" "card H < 4" "alloc_pre sb area H (txn_view dev s)"
  shows "\<exists>r s'. block_alloc sb dev s = Some (r, s') \<and> txn_ok dev area k H s' \<and> keeps_handles dev H s s' \<and> alloc_post sb (txn_view dev s) r (txn_view dev s')"
proof -
  let ?Q = "(unat (sb_size sb) + 8191) div 8192"
  have "unat (sb_size sb) \<le> ?Q * 8192" "?Q * 8192 < unat (sb_size sb) + 8192" by linarith+
  then have q: "?Q * 8192 < unat (sb_size sb) + 8192" "unat (sb_size sb) \<le> ?Q * 8192" by simp_all
  have "map word_of_nat (step_by 0 (unat (sb_size sb)) (unat BPB)) = map chunk [0..<?Q]"
    by (simp add: step_by_def BPB_values(2) chunk_def o_def add.commute)
  then show ?thesis using block_alloc_loop_spec [OF assms q, of 0] by (simp add: block_alloc_def)
qed

lemma alloc_used:
  assumes "alloc_post sb V (Ok b) V'" "bitmap_ok sb area V" "length (V (bmap_block sb b)) = BSIZE"
  shows "used sb V' = insert b (used sb V)" "bitmap_ok sb area V'" "V' b = replicate BSIZE 0" "c \<notin> {b, bmap_block sb b} \<Longrightarrow> V' c = V c"
proof -
  have P: "b < sb_size sb" "b \<notin> used sb V" "V' = (V(bmap_block sb b := bitmap_take (V (bmap_block sb b)) (bmap_index b)))(b := replicate BSIZE 0)"
    using assms(1) by (simp_all add: alloc_post_def)
  have g: "geometry sb" and nb: "\<forall>c < sb_size sb. b \<noteq> bmap_block sb c" using assms(2) P(1,2) by (auto simp: bitmap_ok_def)
  show u: "used sb V' = insert b (used sb V)"
    unfolding P(3) used_other [OF nb] by (rule used_update(1) [of sb b V, OF g P(1) assms(3)])
  show "bitmap_ok sb area V'" using assms(2) unfolding bitmap_ok_def u by blast
  show "V' b = replicate BSIZE 0" "c \<notin> {b, bmap_block sb b} \<Longrightarrow> V' c = V c" by (simp_all add: P(3))
qed

text \<open>
  Property C11.  Block allocation is exact.  Inside a transaction with room in the log, \<open>alloc\<close> does not
  panic and either reports \<open>OutOfBlock\<close>, changing nothing, exactly when every block is in use, or returns
  the first free block, filled with zeros; the set of blocks in use grows by exactly that block and no
  other block than it and its bitmap block changes.  Freeing the block succeeds and restores
  the set; freeing it a second time panics.
\<close>

theorem block_alloc_exact:
  assumes "txn_ok dev area (Suc (Suc (Suc k))) {} s" "bitmap_ok sb area (txn_view dev s)"
  shows "\<exists>r s1. block_alloc sb dev s = Some (r, s1) \<and> bitmap_ok sb area (txn_view dev s1) \<and>
    (r = Err FsOutOfBlock \<and> used sb (txn_view dev s) = {b. b < sb_size sb} \<and> txn_view dev s1 = txn_view dev s \<or>
     (\<exists>b. r = Ok b \<and> b < sb_size sb \<and> b \<notin> used sb (txn_view dev s) \<and> (\<forall>c < b. c \<in> used sb (txn_view dev s)) \<and>
       txn_view dev s1 b = replicate BSIZE 0 \<and> used sb (txn_view dev s1) = insert b (used sb (txn_view dev s)) \<and>
       (\<forall>c. c \<notin> {b, bmap_block sb b} \<longrightarrow> txn_view dev s1 c = txn_view dev s c) \<and>
       (\<exists>s2. block_free sb dev b s1 = Some s2 \<and> used sb (txn_view dev s2) = used sb (txn_view dev s) \<and> block_free sb dev b s2 = None)))"
proof -
  let ?V = "txn_view dev s"
  have "alloc_pre sb area {} ?V" using assms(2) by (simp add: alloc_pre_def)
  from block_alloc_spec [OF assms(1) _ this] obtain r s1 where
    1: "block_alloc sb dev s = Some (r, s1)" "txn_ok dev area (Suc k) {} s1" "alloc_post sb ?V r (txn_view dev s1)" by auto
  show ?thesis
  proof (cases r)
    case (Err e)
    then have "e = FsOutOfBlock" "\<forall>b < sb_size sb. b \<in> used sb ?V" "txn_view dev s1 = ?V" using 1(3) by (simp_all add: alloc_post_def)
    then show ?thesis using 1(1) Err assms(2) by (auto simp: used_def)
  next
    case (Ok b)
    have len: "length (?V (bmap_block sb b)) = BSIZE" "length (txn_view dev s1 (bmap_block sb b)) = BSIZE" using tx.block_size assms(1) 1(2) by blast+
    note A = alloc_used [OF 1(3) [unfolded Ok] assms(2) len(1)]
    have P: "b < sb_size sb" "b \<notin> used sb ?V" "\<forall>c < b. c \<in> used sb ?V" using 1(3) by (simp_all add: alloc_post_def Ok)
    have g: "geometry sb" "bmap_block sb b \<notin> area" using assms(2) P(1) by (auto simp: bitmap_ok_def)
    have "b \<in> used sb (txn_view dev s1)" by (simp add: A(1))
    from block_free_spec [OF 1(2) _ _ g(2) this] obtain s2 where
      2: "block_free sb dev b s1 = Some s2" "txn_ok dev area k {} s2"
        "txn_view dev s2 = (txn_view dev s1)(bmap_block sb b := bitmap_give (txn_view dev s1 (bmap_block sb b)) (bmap_index b))" by auto
    have u: "used sb (txn_view dev s2) = used sb ?V" unfolding 2(3) used_update(2) [of sb b "txn_view dev s1", OF g(1) P(1) len(2)] A(1) using P(2) by blast
    have "block_free sb dev b s2 = None" using block_free_panics [OF 2(2) _ _ P(1)] P(2) u by simp
    then show ?thesis using 1(1) Ok A P 2(1) u by blast
  qed
qed

text \<open>A disk with the layout of \<open>mkfs\<close>, on which the first 64 blocks are in use.\<close>

definition example_sb :: SuperBlock where
  "example_sb = \<lparr>sb_magic = FSMAGIC, sb_size = 2000, sb_nblocks = 1953, sb_ninodes = 200, sb_nlogs = 31, sb_logstart = 2, sb_inodestart = 33, sb_bmapstart = 46\<rparr>"

definition example_disk :: "u32 \<Rightarrow> u8 list" where
  "example_disk b = (if b = 46 then replicate 8 255 @ replicate 1016 0 else replicate BSIZE 0)"

definition example_store :: bstore where
  "example_store = (example_log\<lparr>l_outstanding := 1\<rparr>, bcache_init (bcache_new example_disk))"

lemma example_store_facts:
  "txn_ok 1 (log_area example_log) 10 {} example_store" "txn_view 1 example_store = example_disk"
proof -
  have len: "length (example_disk b) = BSIZE" for b by (simp add: example_disk_def BSIZE_def)
  have "(1 :: u32) \<noteq> 0" by simp
  note I = bcache_init_inv [of example_disk, OF len this]
  have wf: "log_wf (example_log\<lparr>l_outstanding := 1\<rparr>)" by (simp add: example_log_def log_new_def log_wf_def home_def)
  have "home (example_log\<lparr>l_outstanding := 1\<rparr>) = []" "log_area (example_log\<lparr>l_outstanding := 1\<rparr>) = log_area example_log" "log_room 10 (example_log\<lparr>l_outstanding := 1\<rparr>)"
    "l_dev (example_log\<lparr>l_outstanding := 1\<rparr>) = 1" "unat (l_n (example_log\<lparr>l_outstanding := 1\<rparr>)) = 0"
    by (simp_all add: home_def log_area_def log_room_def example_log_def log_new_def)
  moreover have "st_view (cache_abs 1 (bcache_init (bcache_new example_disk))) = example_disk" "st_disk (cache_abs 1 (bcache_init (bcache_new example_disk))) = example_disk"
    "st_held (cache_abs 1 (bcache_init (bcache_new example_disk))) = {}" "st_refs (cache_abs 1 (bcache_init (bcache_new example_disk))) = (\<lambda>_. 0)" unfolding I(2) by simp_all
  ultimately show "txn_ok 1 (log_area example_log) 10 {} example_store" "txn_view 1 example_store = example_disk"
    using wf I(1) by (simp_all add: txn_ok_def txn_view_def example_store_def txn_def)
qed

lemma example_bitmap:
  assumes "b < 2000"
  shows "bmap_block example_sb b = 46" "b \<in> used example_sb example_disk \<longleftrightarrow> unat b < 64"
proof -
  have u: "unat b < 2000" using assms by (simp add: word_less_nat_alt)
  then have "unat (b div BPB) = 0" by (simp add: BPB_values(3))
  then have "b div BPB = 0" by (simp add: unat_eq_0)
  then show bm: "bmap_block example_sb b = 46" by (simp add: bmap_block_def example_sb_def)
  have i: "bmap_index b = unat b" using u by (simp add: BPB_values(4))
  have d: "example_disk 46 ! k = (if k < 8 then 255 else 0)" if "k < 1024" for k using that by (simp add: example_disk_def nth_append)
  have "unat b div 8 < 1024" using u by simp
  then have "bitmap_free (example_disk 46) (unat b) \<longleftrightarrow> \<not> bit (if unat b div 8 < 8 then 255 :: u8 else 0) (unat b mod 8)"
    using bitmap_free_bit [of "unat b" "example_disk 46"] d by (simp add: example_disk_def)
  moreover have "bit (255 :: u8) k" if "k < 8" for k
  proof -
    have "(255 :: u8) = - 1" by simp
    then show ?thesis using that by (simp only: bit_minus_1_iff) simp
  qed
  ultimately show "b \<in> used example_sb example_disk \<longleftrightarrow> unat b < 64"
    using assms by (simp add: used_def bm i) (simp add: example_sb_def div_less_iff_less_mult)
qed

lemma example_bitmap_ok: "bitmap_ok example_sb (log_area example_log) example_disk"
proof -
  have "sb_size example_sb = 2000" "geometry example_sb" by (simp_all add: example_sb_def geometry_def)
  moreover have "(46 :: u32) \<notin> log_area example_log" "b \<notin> log_area example_log" if "\<not> unat b < 64" for b
    using that by (simp_all add: log_area_def example_log_def)
  moreover have "(46 :: u32) \<notin> log_area example_log" by (simp add: log_area_def example_log_def)
  moreover have "b \<noteq> 46" if "\<not> unat b < 64" for b :: u32 using that by auto
  ultimately show ?thesis using example_bitmap by (simp add: bitmap_ok_def)
qed

theorem block_alloc_exact_witness:
  "\<exists>s1 s2. block_alloc example_sb 1 example_store = Some (Ok 64, s1) \<and> txn_view 1 s1 64 = replicate BSIZE 0 \<and>
     block_free example_sb 1 64 s1 = Some s2 \<and> block_free example_sb 1 64 s2 = None"
proof -
  have "txn_ok 1 (log_area example_log) (Suc (Suc (Suc 7))) {} example_store" using example_store_facts(1) by (simp add: eval_nat_numeral)
  moreover have "bitmap_ok example_sb (log_area example_log) (txn_view 1 example_store)" using example_bitmap_ok by (simp add: example_store_facts)
  ultimately have T: "\<exists>r s1. block_alloc example_sb 1 example_store = Some (r, s1) \<and> bitmap_ok example_sb (log_area example_log) (txn_view 1 s1) \<and>
    (r = Err FsOutOfBlock \<and> used example_sb example_disk = {b. b < sb_size example_sb} \<and> txn_view 1 s1 = example_disk \<or>
     (\<exists>b. r = Ok b \<and> b < sb_size example_sb \<and> b \<notin> used example_sb example_disk \<and> (\<forall>c < b. c \<in> used example_sb example_disk) \<and>
       txn_view 1 s1 b = replicate BSIZE 0 \<and> used example_sb (txn_view 1 s1) = insert b (used example_sb example_disk) \<and>
       (\<forall>c. c \<notin> {b, bmap_block example_sb b} \<longrightarrow> txn_view 1 s1 c = example_disk c) \<and>
       (\<exists>s2. block_free example_sb 1 b s1 = Some s2 \<and> used example_sb (txn_view 1 s2) = used example_sb example_disk \<and> block_free example_sb 1 b s2 = None)))"
    unfolding example_store_facts(2) [symmetric] by (rule block_alloc_exact)
  have sz: "sb_size example_sb = 2000" by (simp add: example_sb_def)
  have f: "(64 :: u32) \<notin> used example_sb example_disk" using example_bitmap(2) [of 64] by simp
  have "(64 :: u32) \<in> {b. b < sb_size example_sb}" by (simp add: sz)
  with f have "used example_sb example_disk \<noteq> {b. b < sb_size example_sb}" by metis
  with T obtain s1 b s2 where b: "block_alloc example_sb 1 example_store = Some (Ok b, s1)" "b < 2000" "b \<notin> used example_sb example_disk" "\<forall>c < b. c \<in> used example_sb example_disk"
    "txn_view 1 s1 b = replicate BSIZE 0" "block_free example_sb 1 b s1 = Some s2" "block_free example_sb 1 b s2 = None" unfolding sz by blast
  have "\<not> 64 < b" using b(4) f by blast
  moreover have "\<not> unat b < 64" using example_bitmap(2) [OF b(2)] b(3) by simp
  ultimately have "b = 64" by (simp add: word_less_nat_alt word_unat_eq_iff)
  with b show ?thesis by blast
qed

end
