(* ===== verification/Fs_Inode.thy ===== *)
theory Fs_Inode
  imports Fs_Blocks
begin

text \<open>
  Inodes: the layout of an inode on disk, writing an inode back and reading it again, and the table of
  inodes in memory.
\<close>

section \<open>Fields in a block\<close>

lemma slice_wr:
  "off + 4 \<le> length d \<Longrightarrow> p + m \<le> length d \<Longrightarrow> p + m \<le> off \<or> off + 4 \<le> p \<Longrightarrow> slice (wr32 d off x) p m = slice d p m"
  "off + 2 \<le> length d \<Longrightarrow> p + m \<le> length d \<Longrightarrow> p + m \<le> off \<or> off + 2 \<le> p \<Longrightarrow> slice (wr16 d off y) p m = slice d p m"
  using slice_splice_disjoint [of off "le_bytes 4 (unat x)" d p m] slice_splice_disjoint [of off "le_bytes 2 (unat y)" d p m]
  by (simp_all add: wr32_def wr16_def)

lemma length_wr16 [simp]: "off + 2 \<le> length d \<Longrightarrow> length (wr16 d off x) = length d"
  by (simp add: wr16_def)

lemma rd16_wr16 [simp]: "off + 2 \<le> length d \<Longrightarrow> rd16 (wr16 d off x) off = x"
proof -
  assume "off + 2 \<le> length d"
  then have "slice (wr16 d off x) off 2 = le_bytes 2 (unat x)"
    using slice_splice_same [of off "le_bytes 2 (unat x)" d] by (simp add: wr16_def)
  moreover have "of_le (le_bytes 2 (unat x)) = unat x" using unsigned_less [of x] by (intro of_le_bytes) simp
  ultimately show ?thesis by (simp add: rd16_def)
qed

lemma rd_cong: "slice d p 2 = slice d' p 2 \<Longrightarrow> rd16 d p = rd16 d' p" "slice d p 4 = slice d' p 4 \<Longrightarrow> rd32 d p = rd32 d' p"
  by (simp_all add: rd16_def rd32_def)

lemma put_words:
  fixes xs :: "u32 list"
  assumes "base + 4 * n \<le> length d"
  defines "d' \<equiv> foldl (\<lambda>d k. wr32 d (base + 4 * k) (xs ! k)) d [0..<n]"
  shows "length d' = length d" "k < n \<Longrightarrow> rd32 d' (base + 4 * k) = xs ! k"
    "p + m \<le> length d \<Longrightarrow> p + m \<le> base \<or> base + 4 * n \<le> p \<Longrightarrow> slice d' p m = slice d p m"
proof -
  have "length (foldl (\<lambda>d k. wr32 d (base + 4 * k) (xs ! k)) d [0..<n]) = length d \<and>
      (\<forall>k < n. rd32 (foldl (\<lambda>d k. wr32 d (base + 4 * k) (xs ! k)) d [0..<n]) (base + 4 * k) = xs ! k) \<and>
      (\<forall>p m. p + m \<le> length d \<longrightarrow> p + m \<le> base \<or> base + 4 * n \<le> p \<longrightarrow> slice (foldl (\<lambda>d k. wr32 d (base + 4 * k) (xs ! k)) d [0..<n]) p m = slice d p m)"
    using assms(1)
  proof (induction n)
    case (Suc n)
    define e where "e = foldl (\<lambda>d k. wr32 d (base + 4 * k) (xs ! k)) d [0..<n]"
    have I: "length e = length d" "\<forall>k < n. rd32 e (base + 4 * k) = xs ! k" "\<forall>p m. p + m \<le> length d \<longrightarrow> p + m \<le> base \<or> base + 4 * n \<le> p \<longrightarrow> slice e p m = slice d p m"
      using Suc by (simp_all add: e_def)
    have b: "base + 4 * n + 4 \<le> length e" using Suc.prems I(1) by simp
    have f: "foldl (\<lambda>d k. wr32 d (base + 4 * k) (xs ! k)) d [0..<Suc n] = wr32 e (base + 4 * n) (xs ! n)" by (simp add: e_def)
    have A: "rd32 (wr32 e (base + 4 * n) (xs ! n)) (base + 4 * k) = xs ! k" if "k < Suc n" for k
    proof (cases "k = n")
      case False
      then have "k < n" using that by simp
      then show ?thesis using I(2) b rd32_wr32_other [of "base + 4 * n" e "base + 4 * k"] by simp
    qed (use b in simp)
    have B: "slice (wr32 e (base + 4 * n) (xs ! n)) p m = slice d p m" if "p + m \<le> length d" "p + m \<le> base \<or> base + 4 * Suc n \<le> p" for p m
    proof -
      have "slice (wr32 e (base + 4 * n) (xs ! n)) p m = slice e p m" using that b I(1) by (intro slice_wr(1)) auto
      also have "\<dots> = slice d p m" using I(3) that by auto
      finally show ?thesis .
    qed
    show ?case unfolding f using A B b I(1) by simp
  qed simp
  then show "length d' = length d" "k < n \<Longrightarrow> rd32 d' (base + 4 * k) = xs ! k"
    "p + m \<le> length d \<Longrightarrow> p + m \<le> base \<or> base + 4 * n \<le> p \<Longrightarrow> slice d' p m = slice d p m" unfolding d'_def by blast+
qed

section \<open>Inodes on disk\<close>

lemma inode_type_code [simp]: "inode_type_of (inode_type_code t) = Some t"
  by (cases t) (simp_all add: inode_type_of_def)

lemma fs_values: "NDIRECT = 12" "NINDIRECT = 256" "MAXFILE = 268" "IPB = 16" "DIRSIZE = 14" "DIRENT = 16"
  by (simp_all add: NDIRECT_def NINDIRECT_def MAXFILE_def IPB_def DIRSIZE_def DIRENT_def BSIZE_def)

lemma dinode_offset: "dinode_offset i + 64 \<le> 1024" "dinode_offset i = 64 * (unat i mod 16)"
  by (simp_all add: dinode_offset_def fs_values unat_mod)

lemma dinode_put_spec:
  assumes "length d = BSIZE"
  shows "length (dinode_put d i di) = BSIZE"
    "length (di_addrs di) = NDIRECT + 1 \<Longrightarrow> dinode_get (dinode_put d i di) i = Some di"
    "unat j mod 16 \<noteq> unat i mod 16 \<Longrightarrow> dinode_get (dinode_put d i di) j = dinode_get d j"
proof -
  let ?o = "dinode_offset i"
  define e where "e = wr32 (wr16 (wr16 (wr16 (wr16 d ?o (inode_type_code (di_type di))) (?o + 2) (di_major di)) (?o + 4) (di_minor di)) (?o + 6) (di_nlink di)) (?o + 8) (di_size di)"
  have o: "?o + 64 \<le> length d" using dinode_offset(1) assms by (simp add: BSIZE_def)
  have le: "length e = length d" using o by (simp add: e_def)
  have p: "dinode_put d i di = foldl (\<lambda>d k. wr32 d (?o + 12 + 4 * k) (di_addrs di ! k)) e [0..<13]"
    by (simp add: dinode_put_def e_def fs_values Let_def)
  have b: "?o + 12 + 4 * 13 \<le> length e" using o le by simp
  note P = put_words [OF b, where xs = "di_addrs di", folded p]
  show "length (dinode_put d i di) = BSIZE" using P(1) le assms by simp
  have e: "rd16 e ?o = inode_type_code (di_type di)" "rd16 e (?o + 2) = di_major di" "rd16 e (?o + 4) = di_minor di" "rd16 e (?o + 6) = di_nlink di"
    "rd32 e (?o + 8) = di_size di"
    unfolding e_def using o by (simp_all add: rd16_def rd32_def slice_wr)
      (simp_all add: rd16_def [symmetric] rd32_def [symmetric])
  have q: "rd16 (dinode_put d i di) (?o + m) = rd16 e (?o + m)" "m + 4 \<le> 12 \<Longrightarrow> rd32 (dinode_put d i di) (?o + m) = rd32 e (?o + m)" if "m + 2 \<le> 12" for m
    using that o le P(3) [of "?o + m" 2] P(3) [of "?o + m" 4] by (simp_all add: rd16_def rd32_def)
  have q0: "rd16 (dinode_put d i di) ?o = rd16 e ?o" using q(1) [of 0] by simp
  show "dinode_get (dinode_put d i di) i = Some di" if "length (di_addrs di) = NDIRECT + 1"
  proof -
    have "map (\<lambda>k. rd32 (dinode_put d i di) (?o + 12 + 4 * k)) [0..<13] = di_addrs di"
      using P(2) that by (intro nth_equalityI) (simp_all add: fs_values)
    then show ?thesis using e q0 q(1) [of 2] q(1) [of 4] q(1) [of 6] q(2) [of 8] by (simp add: dinode_get_def Let_def fs_values)
  qed
  show "dinode_get (dinode_put d i di) j = dinode_get d j" if "unat j mod 16 \<noteq> unat i mod 16"
  proof -
    let ?j = "dinode_offset j"
    have dj: "?j + 64 \<le> ?o \<or> ?o + 64 \<le> ?j" using that by (auto simp: dinode_offset(2))
    have j: "?j + 64 \<le> length d" using dinode_offset(1) assms by (simp add: BSIZE_def)
    have s: "slice (dinode_put d i di) (?j + m) l = slice d (?j + m) l" if "m + l \<le> 64" for m l
    proof -
      have "slice (dinode_put d i di) (?j + m) l = slice e (?j + m) l" using that dj j le by (intro P(3)) auto
      also have "\<dots> = slice d (?j + m) l" unfolding e_def using dj that j o by (elim disjE) (simp_all add: slice_wr)
      finally show ?thesis .
    qed
    have s0: "slice (dinode_put d i di) ?j 2 = slice d ?j 2" using s [of 0 2] by simp
    have "rd32 (dinode_put d i di) (?j + 12 + 4 * k) = rd32 d (?j + 12 + 4 * k)" if "k < 13" for k
      using s [of "12 + 4 * k" 4] that by (intro rd_cong) (simp add: add.assoc)
    then have "map (\<lambda>k. rd32 (dinode_put d i di) (?j + 12 + 4 * k)) [0..<NDIRECT + 1] = map (\<lambda>k. rd32 d (?j + 12 + 4 * k)) [0..<NDIRECT + 1]" by (simp add: fs_values)
    moreover have "rd16 (dinode_put d i di) ?j = rd16 d ?j" "rd16 (dinode_put d i di) (?j + 2) = rd16 d (?j + 2)" "rd16 (dinode_put d i di) (?j + 4) = rd16 d (?j + 4)"
      "rd16 (dinode_put d i di) (?j + 6) = rd16 d (?j + 6)" "rd32 (dinode_put d i di) (?j + 8) = rd32 d (?j + 8)"
      by (intro rd_cong s0 s; simp)+
    ultimately show ?thesis unfolding dinode_get_def Let_def by (simp only:)
  qed
qed

section \<open>Writing an inode back and reading it\<close>

text \<open>The block an inode lies in, and the inode a view of the disk holds.\<close>

definition iblock :: "SuperBlock \<Rightarrow> u32 \<Rightarrow> u32" where
  "iblock sb inum = sb_inodestart sb + inum div IPB"

definition disk_inode :: "SuperBlock \<Rightarrow> (u32 \<Rightarrow> u8 list) \<Rightarrow> u32 \<Rightarrow> DiskInode option" where
  "disk_inode sb V inum = dinode_get (V (iblock sb inum)) inum"

definition as_dinode :: "InodeInner \<Rightarrow> DiskInode" where
  "as_dinode x = \<lparr>di_type = ii_type x, di_major = ii_major x, di_minor = ii_minor x, di_nlink = ii_nlink x, di_size = ii_size x, di_addrs = ii_addrs x\<rparr>"

lemma iblock_inj: "iblock sb i = iblock sb j \<Longrightarrow> unat i mod 16 = unat j mod 16 \<Longrightarrow> i = j"
proof -
  assume "iblock sb i = iblock sb j" and m: "unat i mod 16 = unat j mod 16"
  then have "i div 16 = j div 16" by (simp add: iblock_def fs_values)
  then have "unat i div 16 = unat j div 16" using unat_div [of i 16] unat_div [of j 16] by simp
  then show "i = j" using m by (metis div_mod_decomp word_unat_eq_iff)
qed

lemma disk_inode_put:
  assumes "length (V (iblock sb i)) = BSIZE" "length (di_addrs di) = NDIRECT + 1"
  shows "disk_inode sb (V(iblock sb i := dinode_put (V (iblock sb i)) i di)) j = (if j = i then Some di else disk_inode sb V j)"
proof (cases "iblock sb j = iblock sb i \<and> j \<noteq> i")
  case True
  then have "unat j mod 16 \<noteq> unat i mod 16" using iblock_inj by blast
  then show ?thesis using True dinode_put_spec(3) [OF assms(1)] by (simp add: disk_inode_def)
next
  case False
  then show ?thesis using dinode_put_spec(2) [OF assms] by (auto simp: disk_inode_def)
qed

lemma inode_update_spec:
  assumes "txn_ok (ip_dev ip) area (Suc k) H (fs_store f)" "iblock sb (ip_inum ip) \<notin> H \<union> area" "card H < 4"
  shows "\<exists>s'. inode_update sb ip f = Some (f\<lparr>fs_store := s'\<rparr>) \<and> txn_ok (ip_dev ip) area k H s' \<and> keeps_handles (ip_dev ip) H (fs_store f) s' \<and>
    txn_view (ip_dev ip) s' = (txn_view (ip_dev ip) (fs_store f))
      (iblock sb (ip_inum ip) := dinode_put (txn_view (ip_dev ip) (fs_store f) (iblock sb (ip_inum ip))) (ip_inum ip) (as_dinode (inner_of ip f)))"
proof -
  let ?b = "iblock sb (ip_inum ip)" and ?V = "txn_view (ip_dev ip) (fs_store f)"
  have nb: "?b \<notin> H" "?b \<notin> area" using assms(2) by simp_all
  have len: "length (dinode_put (?V ?b) (ip_inum ip) (as_dinode (inner_of ip f))) = BSIZE"
    using dinode_put_spec(1) tx.block_size [OF assms(1)] by blast
  from tx.modify [OF assms(1) nb(1) assms(3) nb(2), of "\<lambda>d. dinode_put d (ip_inum ip) (as_dinode (inner_of ip f))", OF len] obtain i s1 s2 where
    1: "tx_read (ip_dev ip) ?b (fs_store f) = Some (i, s1)" "tx_data i s1 = ?V ?b" "tx_log i (tx_set i (dinode_put (?V ?b) (ip_inum ip) (as_dinode (inner_of ip f))) s1) = Some s2"
      "txn_ok (ip_dev ip) area k H (tx_release i s2)" "txn_view (ip_dev ip) (tx_release i s2) = ?V(?b := dinode_put (?V ?b) (ip_inum ip) (as_dinode (inner_of ip f)))"
      "\<forall>j c. txn_handle (ip_dev ip) (fs_store f) j c \<longrightarrow> c \<noteq> ?b \<longrightarrow> txn_handle (ip_dev ip) (tx_release i s2) j c" by blast
  have "inode_update sb ip f = Some (f\<lparr>fs_store := tx_release i s2\<rparr>)"
    using 1(1-3) unfolding iblock_def as_dinode_def by (simp add: inode_update_def on_store_def on_store_unit_def inner_of_def Let_def)
  moreover have "keeps_handles (ip_dev ip) H (fs_store f) (tx_release i s2)" using 1(6) nb(1) unfolding keeps_handles_def by metis
  ultimately show ?thesis using 1(4,5) by blast
qed

lemma inode_lock_spec:
  assumes "txn_ok (ip_dev ip) area k H (fs_store f)" "iblock sb (ip_inum ip) \<notin> H" "card H < 4" "\<not> it_locked f ! ip_id ip" "ip_id ip < length (it_inner f)"
    "\<not> ii_valid (inner_of ip f)" "disk_inode sb (txn_view (ip_dev ip) (fs_store f)) (ip_inum ip) = Some di" "di_type di \<noteq> TypeFree"
  shows "\<exists>f'. inode_lock sb ip f = Some f' \<and> txn_ok (ip_dev ip) area k H (fs_store f') \<and> txn_view (ip_dev ip) (fs_store f') = txn_view (ip_dev ip) (fs_store f) \<and>
    it_locked f' = (it_locked f)[ip_id ip := True] \<and> as_dinode (inner_of ip f') = di \<and> ii_valid (inner_of ip f') \<and> it_meta f' = it_meta f"
proof -
  let ?b = "iblock sb (ip_inum ip)"
  from tx.peek [OF assms(1-3)] obtain i s1 where
    1: "tx_read (ip_dev ip) ?b (fs_store f) = Some (i, s1)" "tx_data i s1 = txn_view (ip_dev ip) (fs_store f) ?b" "txn_ok (ip_dev ip) area k H (tx_release i s1)"
      "txn_view (ip_dev ip) (tx_release i s1) = txn_view (ip_dev ip) (fs_store f)" by blast
  show ?thesis using 1 assms(4-8) unfolding iblock_def disk_inode_def
    by (simp add: inode_lock_def inode_acquire_def on_store_def inner_of_def set_inner_def as_dinode_def)
qed

section \<open>The table of inodes in memory\<close>

lemma foldO_frame: "(\<And>x f f'. x \<in> set xs \<Longrightarrow> op x f = Some f' \<Longrightarrow> g f' = g f) \<Longrightarrow> foldO op xs f = Some f' \<Longrightarrow> g f' = g f"
proof (induction xs arbitrary: f)
  case (Cons x xs)
  then obtain f1 where f1: "op x f = Some f1" "foldO op xs f1 = Some f'" by (auto simp: Option.bind_eq_Some_conv)
  have "g f' = g f1" by (rule Cons.IH [OF _ f1(2)], rule Cons.prems(1)) simp_all
  also have "\<dots> = g f" by (rule Cons.prems(1) [OF _ f1(1)]) simp
  finally show ?case .
qed simp

lemma inode_update_meta: "inode_update sb ip f = Some f' \<Longrightarrow> it_meta f' = it_meta f"
  by (auto simp: inode_update_def on_store_def on_store_unit_def Let_def Option.bind_eq_Some_conv)

lemma inode_lock_meta: "inode_lock sb ip f = Some f' \<Longrightarrow> it_meta f' = it_meta f"
  by (auto simp: inode_lock_def inode_acquire_def on_store_def set_inner_def Let_def Option.bind_eq_Some_conv assert_that_def split: if_splits)

lemma inode_trunc_meta: "inode_trunc sb ip f = Some f' \<Longrightarrow> it_meta f' = it_meta f"
proof -
  assume "inode_trunc sb ip f = Some f'"
  then obtain f1 f2 where f: "foldO (trunc_direct sb ip) [0..<NDIRECT] f = Some f1" "trunc_indirect sb ip f1 = Some f2"
    "inode_update sb ip (set_inner ip ((inner_of ip f2)\<lparr>ii_size := 0\<rparr>) f2) = Some f'"
    by (auto simp: inode_trunc_def Option.bind_eq_Some_conv)
  have "it_meta f1 = it_meta f"
    by (rule foldO_frame [OF _ f(1)]) (auto simp: trunc_direct_def on_store_unit_def set_inner_def Let_def Option.bind_eq_Some_conv split: if_splits)
  moreover have "it_meta f2 = it_meta f1"
  proof (cases "ii_addrs (inner_of ip f1) ! NDIRECT = 0")
    case False
    then obtain buf g g' g'' where g: "on_store (tx_read (ip_dev ip) (ii_addrs (inner_of ip f1) ! NDIRECT)) f1 = Some (buf, g)"
      "foldO (\<lambda>block f. if block \<noteq> 0 then on_store_unit (block_free sb (ip_dev ip) block) f else Some f) (indirect_entries (tx_data buf (fs_store g))) g = Some g'"
      "on_store_unit (block_free sb (ip_dev ip) (ii_addrs (inner_of ip f1) ! NDIRECT)) (g'\<lparr>fs_store := tx_release buf (fs_store g')\<rparr>) = Some g''" "it_meta f2 = it_meta g''"
      using f(2) by (auto simp: trunc_indirect_def set_inner_def Let_def Option.bind_eq_Some_conv)
    have "it_meta g' = it_meta g"
      by (rule foldO_frame [OF _ g(2)]) (auto simp: on_store_unit_def Option.bind_eq_Some_conv split: if_splits)
    then show ?thesis using g(1,3,4) by (auto simp: on_store_def on_store_unit_def Option.bind_eq_Some_conv)
  qed (use f(2) in \<open>simp add: trunc_indirect_def Let_def\<close>)
  ultimately show ?thesis using inode_update_meta [OF f(3)] by (simp add: set_inner_def)
qed

lemma inode_put_meta:
  assumes "inode_put sb ip f = Some f'"
  shows "it_meta f' = (it_meta f)[ip_id ip := (it_meta f ! ip_id ip)\<lparr>im_ref := im_ref (it_meta f ! ip_id ip) - 1\<rparr>]"
proof -
  from assms obtain g where g: "f' = set_meta (ip_id ip) ((it_meta g ! ip_id ip)\<lparr>im_ref := im_ref (it_meta g ! ip_id ip) - 1\<rparr>) g"
    "g = f \<or> (\<exists>h. inode_acquire ip f = Some h \<and> (g = inode_unlock ip h \<or>
       (\<exists>h1 h2. inode_trunc sb ip h = Some h1 \<and> inode_update sb ip (set_inner ip ((inner_of ip h1)\<lparr>ii_type := TypeFree\<rparr>) h1) = Some h2 \<and>
          g = inode_unlock ip (set_inner ip ((inner_of ip h2)\<lparr>ii_valid := False\<rparr>) h2))))"
    by (auto simp: inode_put_def Let_def Option.bind_eq_Some_conv split: if_splits)
  have "it_meta g = it_meta f"
    using g(2) by (auto simp: inode_acquire_def inode_unlock_def set_inner_def assert_that_def Option.bind_eq_Some_conv dest!: inode_trunc_meta inode_update_meta split: if_splits)
  then show ?thesis by (simp add: g(1) set_meta_def)
qed

text \<open>
  \<open>itab_run sb s f hs\<close>: from the empty table over the disk \<open>s\<close>, a sequence of operations leads to \<open>f\<close>, with \<open>hs\<close> the
  references handed out and not yet dropped.
\<close>

inductive itab_run :: "SuperBlock \<Rightarrow> Fs \<Rightarrow> Inode list \<Rightarrow> bool" for sb where
  start: "itab_run sb (inode_table_new s) []"
| get: "itab_run sb f hs \<Longrightarrow> length hs + 1 < 2 ^ 32 \<Longrightarrow> inode_get dev inum f = (Ok ip, f') \<Longrightarrow> itab_run sb f' (ip # hs)"
| get_err: "itab_run sb f hs \<Longrightarrow> inode_get dev inum f = (Err e, f') \<Longrightarrow> itab_run sb f' hs"
| dup: "itab_run sb f hs \<Longrightarrow> length hs + 1 < 2 ^ 32 \<Longrightarrow> ip \<in> set hs \<Longrightarrow> inode_dup ip f = (ip', f') \<Longrightarrow> itab_run sb f' (ip' # hs)"
| put: "itab_run sb f hs \<Longrightarrow> ip \<in> set hs \<Longrightarrow> inode_put sb ip f = Some f' \<Longrightarrow> itab_run sb f' (remove1 ip hs)"
| lock: "itab_run sb f hs \<Longrightarrow> ip \<in> set hs \<Longrightarrow> inode_lock sb ip f = Some f' \<Longrightarrow> itab_run sb f' hs"
| unlock: "itab_run sb f hs \<Longrightarrow> itab_run sb (inode_unlock ip f) hs"
| update: "itab_run sb f hs \<Longrightarrow> ip \<in> set hs \<Longrightarrow> inode_update sb ip f = Some f' \<Longrightarrow> itab_run sb f' hs"
| trunc: "itab_run sb f hs \<Longrightarrow> ip \<in> set hs \<Longrightarrow> inode_trunc sb ip f = Some f' \<Longrightarrow> itab_run sb f' hs"

lemma card_all: "card {i. i < n \<and> P i} = n \<longleftrightarrow> (\<forall>i < n. P i)"
proof
  assume "card {i. i < n \<and> P i} = n"
  then have "{i. i < n \<and> P i} = {..<n}" by (intro card_subset_eq) auto
  then show "\<forall>i < n. P i" by blast
next
  assume "\<forall>i < n. P i"
  then have "{i. i < n \<and> P i} = {..<n}" by blast
  then show "card {i. i < n \<and> P i} = n" by simp
qed

definition refs_to :: "nat \<Rightarrow> Inode list \<Rightarrow> nat" where
  "refs_to i hs = length (filter (\<lambda>h. ip_id h = i) hs)"

definition keys_unique :: "InodeMeta list \<Rightarrow> bool" where
  "keys_unique ms \<longleftrightarrow> (\<forall>i < NINODE. \<forall>j < NINODE. im_ref (ms ! i) \<noteq> 0 \<longrightarrow> im_ref (ms ! j) \<noteq> 0 \<longrightarrow> im_dev (ms ! i) = im_dev (ms ! j) \<longrightarrow>
     im_inum (ms ! i) = im_inum (ms ! j) \<longrightarrow> i = j)"

definition itab_inv :: "Fs \<Rightarrow> Inode list \<Rightarrow> bool" where
  "itab_inv f hs \<longleftrightarrow> length (it_meta f) = NINODE \<and> length hs < 2 ^ 32 \<and> (\<forall>i < NINODE. unat (im_ref (it_meta f ! i)) = refs_to i hs) \<and>
     (\<forall>h \<in> set hs. ip_id h < NINODE \<and> im_dev (it_meta f ! ip_id h) = ip_dev h \<and> im_inum (it_meta f ! ip_id h) = ip_inum h) \<and> keys_unique (it_meta f)"

lemma keys_unique_mono:
  assumes "keys_unique ms" "\<And>i. i < NINODE \<Longrightarrow> im_ref (ms' ! i) \<noteq> 0 \<Longrightarrow> im_ref (ms ! i) \<noteq> 0 \<and> im_dev (ms' ! i) = im_dev (ms ! i) \<and> im_inum (ms' ! i) = im_inum (ms ! i)"
  shows "keys_unique ms'"
  using assms unfolding keys_unique_def by metis

lemma itab_inv_cong: "it_meta f' = it_meta f \<Longrightarrow> itab_inv f hs \<Longrightarrow> itab_inv f' hs"
  by (simp add: itab_inv_def)

lemma refs_to_le: "refs_to i hs \<le> length hs"
  by (simp add: refs_to_def)

lemma refs_to_pos: "h \<in> set hs \<Longrightarrow> refs_to (ip_id h) hs \<noteq> 0"
  by (auto simp: refs_to_def filter_empty_conv)

lemma refs_to_zero: "refs_to i hs = 0 \<Longrightarrow> h \<in> set hs \<Longrightarrow> ip_id h \<noteq> i"
  by (auto simp: refs_to_def filter_empty_conv)

lemma refs_to_Cons: "refs_to i (h # hs) = (if ip_id h = i then Suc (refs_to i hs) else refs_to i hs)"
  by (simp add: refs_to_def)

lemma refs_to_remove1: "h \<in> set hs \<Longrightarrow> refs_to i (remove1 h hs) = (if ip_id h = i then refs_to i hs - 1 else refs_to i hs)"
  by (induction hs) (auto simp: refs_to_Cons, metis Suc_pred neq0_conv refs_to_pos)

lemma unat_inc: "unat x + 1 < 2 ^ 32 \<Longrightarrow> unat (x + 1 :: u32) = Suc (unat x)"
  by (simp add: unat_word_ariths)

lemma itab_inv_inc:
  assumes "itab_inv f hs" "length hs + 1 < 2 ^ 32" "ip_id ip < NINODE" "im_ref (it_meta f ! ip_id ip) \<noteq> 0"
    "im_dev (it_meta f ! ip_id ip) = ip_dev ip" "im_inum (it_meta f ! ip_id ip) = ip_inum ip"
  shows "itab_inv (set_meta (ip_id ip) ((it_meta f ! ip_id ip)\<lparr>im_ref := im_ref (it_meta f ! ip_id ip) + 1\<rparr>) f) (ip # hs)"
proof -
  let ?m = "it_meta f ! ip_id ip"
  have I: "length (it_meta f) = NINODE" "\<forall>i < NINODE. unat (im_ref (it_meta f ! i)) = refs_to i hs"
    "\<forall>h \<in> set hs. ip_id h < NINODE \<and> im_dev (it_meta f ! ip_id h) = ip_dev h \<and> im_inum (it_meta f ! ip_id h) = ip_inum h" using assms(1) by (simp_all add: itab_inv_def)
  have ku: "keys_unique (it_meta f)" using assms(1) by (simp add: itab_inv_def)
  have u: "unat (im_ref ?m + 1) = Suc (refs_to (ip_id ip) hs)" using I(2) assms(2,3) refs_to_le [of "ip_id ip" hs] by (subst unat_inc) simp_all
  then have nz: "im_ref ?m + 1 \<noteq> 0" by (metis Zero_not_Suc unat_0)
  have r: "\<forall>i < NINODE. unat (im_ref ((it_meta f)[ip_id ip := ?m\<lparr>im_ref := im_ref ?m + 1\<rparr>] ! i)) = refs_to i (ip # hs)"
    using I u assms(3) by (auto simp: nth_list_update refs_to_Cons)
  have "keys_unique ((it_meta f)[ip_id ip := ?m\<lparr>im_ref := im_ref ?m + 1\<rparr>])"
    using I(1) assms(3,4) by (intro keys_unique_mono [OF ku]) (simp add: nth_list_update split: if_splits)
  then show ?thesis using assms(2,3,5,6) I(1,3) r unfolding itab_inv_def set_meta_def by (simp add: nth_list_update)
qed

lemma itab_inv_fresh:
  assumes "itab_inv f hs" "length hs + 1 < 2 ^ 32" "ip_id ip < NINODE" "im_ref (it_meta f ! ip_id ip) = 0"
    "\<forall>i < NINODE. \<not> (im_ref (it_meta f ! i) > 0 \<and> im_dev (it_meta f ! i) = ip_dev ip \<and> im_inum (it_meta f ! i) = ip_inum ip)"
  shows "itab_inv (set_meta (ip_id ip) \<lparr>im_dev = ip_dev ip, im_inum = ip_inum ip, im_ref = 1\<rparr> f) (ip # hs)"
proof -
  have I: "length (it_meta f) = NINODE" "\<forall>i < NINODE. unat (im_ref (it_meta f ! i)) = refs_to i hs"
    "\<forall>h \<in> set hs. ip_id h < NINODE \<and> im_dev (it_meta f ! ip_id h) = ip_dev h \<and> im_inum (it_meta f ! ip_id h) = ip_inum h"
    "keys_unique (it_meta f)" using assms(1) by (simp_all add: itab_inv_def)
  have z: "refs_to (ip_id ip) hs = 0" using I(2) assms(3,4) by (metis unat_0)
  note nh = refs_to_zero [OF z]
  have a: "\<forall>i < NINODE. unat (im_ref ((it_meta f)[ip_id ip := \<lparr>im_dev = ip_dev ip, im_inum = ip_inum ip, im_ref = 1\<rparr>] ! i)) = refs_to i (ip # hs)"
    using I(1,2) assms(3) z by (auto simp: nth_list_update refs_to_Cons)
  have b: "ip_id h < NINODE \<and> im_dev ((it_meta f)[ip_id ip := \<lparr>im_dev = ip_dev ip, im_inum = ip_inum ip, im_ref = 1\<rparr>] ! ip_id h) = ip_dev h \<and>
      im_inum ((it_meta f)[ip_id ip := \<lparr>im_dev = ip_dev ip, im_inum = ip_inum ip, im_ref = 1\<rparr>] ! ip_id h) = ip_inum h" if "h \<in> set (ip # hs)" for h
  proof (cases "h = ip")
    case False
    then have "h \<in> set hs" using that by simp
    then have "ip_id ip \<noteq> ip_id h" using nh by metis
    then show ?thesis using \<open>h \<in> set hs\<close> I(3) by simp
  qed (use assms(3) I(1) in simp)
  have "keys_unique ((it_meta f)[ip_id ip := \<lparr>im_dev = ip_dev ip, im_inum = ip_inum ip, im_ref = 1\<rparr>])"
    using I(1,4) assms(3,5) unfolding keys_unique_def by (auto simp: nth_list_update word_gt_0)
  then show ?thesis using a b assms(2) I(1) unfolding itab_inv_def set_meta_def by simp
qed

lemma itab_inv_put:
  assumes "itab_inv f hs" "ip \<in> set hs" "it_meta f' = (it_meta f)[ip_id ip := (it_meta f ! ip_id ip)\<lparr>im_ref := im_ref (it_meta f ! ip_id ip) - 1\<rparr>]"
  shows "itab_inv f' (remove1 ip hs)"
proof -
  let ?m = "it_meta f ! ip_id ip"
  have I: "length (it_meta f) = NINODE" "\<forall>i < NINODE. unat (im_ref (it_meta f ! i)) = refs_to i hs"
    "\<forall>h \<in> set hs. ip_id h < NINODE \<and> im_dev (it_meta f ! ip_id h) = ip_dev h \<and> im_inum (it_meta f ! ip_id h) = ip_inum h" using assms(1) by (simp_all add: itab_inv_def)
  have ku: "keys_unique (it_meta f)" using assms(1) by (simp add: itab_inv_def)
  have id: "ip_id ip < NINODE" using I(3) assms(2) by blast
  have nz: "im_ref ?m \<noteq> 0" using refs_to_pos [OF assms(2)] I(2) id by (metis unat_0)
  then have u: "unat (im_ref ?m - 1) = refs_to (ip_id ip) hs - 1" using I(2) id by (simp add: unat_minus_one)
  have a: "\<forall>i < NINODE. unat (im_ref (it_meta f' ! i)) = refs_to i (remove1 ip hs)"
    using I u id by (auto simp: assms(3) nth_list_update refs_to_remove1 [OF assms(2)])
  have b: "\<forall>h \<in> set (remove1 ip hs). ip_id h < NINODE \<and> im_dev (it_meta f' ! ip_id h) = ip_dev h \<and> im_inum (it_meta f' ! ip_id h) = ip_inum h"
  proof
    fix h assume "h \<in> set (remove1 ip hs)"
    then have h: "h \<in> set hs" using set_remove1_subset by fastforce
    then show "ip_id h < NINODE \<and> im_dev (it_meta f' ! ip_id h) = ip_dev h \<and> im_inum (it_meta f' ! ip_id h) = ip_inum h"
      using I(1,3) id by (simp add: assms(3) nth_list_update)
  qed
  have "keys_unique (it_meta f')"
    using nz id I(1) unfolding assms(3) by (intro keys_unique_mono [OF ku]) (simp add: nth_list_update split: if_splits)
  moreover have "length (remove1 ip hs) < 2 ^ 32" using assms(1) by (auto simp: itab_inv_def length_remove1)
  ultimately show ?thesis using a b I(1) assms(3) unfolding itab_inv_def by simp
qed

lemma itab_inv_get:
  assumes "itab_inv f hs" "length hs + 1 < 2 ^ 32" "inode_get dev inum f = (Ok ip, f')"
  shows "itab_inv f' (ip # hs)"
proof (cases "find_index (\<lambda>m. im_ref m > 0 \<and> im_dev m = dev \<and> im_inum m = inum) (it_meta f)")
  case (Some idx)
  then have ip: "ip = inode_new idx dev inum" "f' = set_meta idx ((it_meta f ! idx)\<lparr>im_ref := im_ref (it_meta f ! idx) + 1\<rparr>) f"
    using assms(3) by (simp_all add: inode_get_def)
  have "idx < NINODE" "im_ref (it_meta f ! idx) \<noteq> 0" "im_dev (it_meta f ! idx) = dev" "im_inum (it_meta f ! idx) = inum"
    using find_index_SomeD [OF Some] assms(1) by (auto simp: itab_inv_def word_gt_0)
  then show ?thesis using itab_inv_inc [OF assms(1,2), of ip] by (simp add: ip inode_new_def)
next
  case None
  then obtain idx where idx: "find_index (\<lambda>m. im_ref m = 0) (it_meta f) = Some idx" "ip = inode_new idx dev inum"
    "it_meta f' = it_meta (set_meta idx \<lparr>im_dev = dev, im_inum = inum, im_ref = 1\<rparr> f)"
    using assms(3) by (auto simp: inode_get_def set_meta_def Let_def split: option.splits)
  have len: "length (it_meta f) = NINODE" using assms(1) by (simp add: itab_inv_def)
  have "idx < NINODE" "im_ref (it_meta f ! idx) = 0" using find_index_SomeD [OF idx(1)] len by auto
  moreover have "\<forall>i < NINODE. \<not> (im_ref (it_meta f ! i) > 0 \<and> im_dev (it_meta f ! i) = dev \<and> im_inum (it_meta f ! i) = inum)"
    using None len by (simp add: find_index_None_iff)
  ultimately have "itab_inv (set_meta idx \<lparr>im_dev = dev, im_inum = inum, im_ref = 1\<rparr> f) (ip # hs)"
    using itab_inv_fresh [OF assms(1,2), of ip] by (simp add: idx(2) inode_new_def)
  then show ?thesis by (rule itab_inv_cong [OF idx(3)])
qed

lemma itab_run_inv: "itab_run sb f hs \<Longrightarrow> itab_inv f hs"
proof (induction rule: itab_run.induct)
  case (start s)
  show ?case by (simp add: itab_inv_def keys_unique_def inode_table_new_def inode_meta_new_def refs_to_def)
next
  case (get f hs dev inum ip f')
  then show ?case using itab_inv_get by blast
next
  case (get_err f hs dev inum e f')
  then have "f' = f" by (auto simp: inode_get_def Let_def split: option.splits)
  then show ?case using get_err.IH by simp
next
  case (dup f hs ip ip' f')
  from dup.IH dup.hyps(3) have "ip_id ip < NINODE" "im_dev (it_meta f ! ip_id ip) = ip_dev ip" "im_inum (it_meta f ! ip_id ip) = ip_inum ip"
    "unat (im_ref (it_meta f ! ip_id ip)) = refs_to (ip_id ip) hs" by (auto simp: itab_inv_def)
  moreover from this(4) have "im_ref (it_meta f ! ip_id ip) \<noteq> 0" using refs_to_pos [OF dup.hyps(3)] by (metis unat_0)
  ultimately show ?case using itab_inv_inc [OF dup.IH dup.hyps(2), of ip] dup.hyps(4) by (auto simp: inode_dup_def)
next
  case (put f hs ip f')
  then show ?case using itab_inv_put inode_put_meta by blast
next
  case (lock f hs ip f')
  then show ?case using itab_inv_cong inode_lock_meta by blast
next
  case (unlock f hs ip)
  show ?case by (rule itab_inv_cong [OF _ unlock.IH]) (simp add: inode_unlock_def)
next
  case (update f hs ip f')
  then show ?case using itab_inv_cong inode_update_meta by blast
next
  case (trunc f hs ip f')
  then show ?case using itab_inv_cong inode_trunc_meta by blast
qed

definition inode_key :: "Inode \<Rightarrow> u32 \<times> u32" where
  "inode_key h = (ip_dev h, ip_inum h)"

lemma itab_inv_keys:
  assumes "itab_inv f hs"
  shows "h \<in> set hs \<Longrightarrow> im_ref (it_meta f ! ip_id h) \<noteq> 0" "h \<in> set hs \<Longrightarrow> h' \<in> set hs \<Longrightarrow> inode_key h = inode_key h' \<Longrightarrow> h = h'"
    "inode_key ` set hs = {(im_dev m, im_inum m) |m. m \<in> set (it_meta f) \<and> im_ref m \<noteq> 0}"
    "card (inode_key ` set hs) = card {i. i < NINODE \<and> im_ref (it_meta f ! i) \<noteq> 0}"
proof -
  have I: "length (it_meta f) = NINODE" "\<forall>i < NINODE. unat (im_ref (it_meta f ! i)) = refs_to i hs"
    "\<forall>h \<in> set hs. ip_id h < NINODE \<and> im_dev (it_meta f ! ip_id h) = ip_dev h \<and> im_inum (it_meta f ! ip_id h) = ip_inum h" "keys_unique (it_meta f)"
    using assms by (simp_all add: itab_inv_def)
  show r: "im_ref (it_meta f ! ip_id h) \<noteq> 0" if "h \<in> set hs" for h using refs_to_pos [OF that] I(2,3) that by (metis unat_0)
  show "h = h'" if "h \<in> set hs" "h' \<in> set hs" "inode_key h = inode_key h'"
  proof -
    have "ip_id h = ip_id h'" using that I(3,4) r unfolding keys_unique_def by (simp add: inode_key_def)
    then show ?thesis using that(3) by (simp add: inode_key_def)
  qed
  let ?U = "{i. i < NINODE \<and> im_ref (it_meta f ! i) \<noteq> 0}" and ?k = "\<lambda>i. (im_dev (it_meta f ! i), im_inum (it_meta f ! i))"
  have used: "\<exists>h \<in> set hs. ip_id h = i" if "i \<in> ?U" for i
  proof -
    have "refs_to i hs \<noteq> 0" using that I(2) by (metis (mono_tags, lifting) mem_Collect_eq unat_eq_0)
    then show ?thesis by (auto simp: refs_to_def filter_empty_conv)
  qed
  have key: "inode_key h = ?k (ip_id h)" if "h \<in> set hs" for h using I(3) that by (simp add: inode_key_def)
  have im: "inode_key ` set hs = ?k ` ?U"
  proof
    show "inode_key ` set hs \<subseteq> ?k ` ?U"
    proof
      fix x assume "x \<in> inode_key ` set hs"
      then obtain h where h: "h \<in> set hs" "x = inode_key h" by blast
      then have "x = ?k (ip_id h)" "ip_id h \<in> ?U" using key r I(3) by simp_all
      then show "x \<in> ?k ` ?U" by (rule image_eqI)
    qed
    show "?k ` ?U \<subseteq> inode_key ` set hs" using key used by (metis (no_types, lifting) image_eqI image_subsetI)
  qed
  also have "\<dots> = {(im_dev m, im_inum m) |m. m \<in> set (it_meta f) \<and> im_ref m \<noteq> 0}" by (force simp: in_set_conv_nth I(1))
  finally show "inode_key ` set hs = {(im_dev m, im_inum m) |m. m \<in> set (it_meta f) \<and> im_ref m \<noteq> 0}" .
  have "inj_on ?k ?U" using I(4) by (auto simp: keys_unique_def inj_on_def)
  then show "card (inode_key ` set hs) = card ?U" unfolding im by (rule card_image)
qed

text \<open>
  Property C12.  One entry per inode.  Whatever sequence of operations the kernel performs on the inode
  table, the count of an entry is the number of references handed out and not dropped, so the entry of a
  referenced inode is never recycled; two references to the same inode of the same device are to the same entry, and hence
  to the same lock; and a request for an inode fails only when it is not in the table and the
  references are to as many different inodes as the table has entries.
\<close>

theorem inode_table_unique:
  assumes "itab_run sb f hs"
  shows "(\<forall>i < NINODE. unat (im_ref (it_meta f ! i)) = length (filter (\<lambda>h. ip_id h = i) hs)) \<and>
    (\<forall>h \<in> set hs. ip_id h < NINODE \<and> im_ref (it_meta f ! ip_id h) \<noteq> 0 \<and> im_dev (it_meta f ! ip_id h) = ip_dev h \<and> im_inum (it_meta f ! ip_id h) = ip_inum h) \<and>
    (\<forall>h \<in> set hs. \<forall>h' \<in> set hs. ip_dev h = ip_dev h' \<longrightarrow> ip_inum h = ip_inum h' \<longrightarrow> ip_id h = ip_id h') \<and>
    (fst (inode_get dev inum f) = Err FsOutOfInode \<longleftrightarrow> (dev, inum) \<notin> inode_key ` set hs \<and> card (inode_key ` set hs) = NINODE)"
proof (intro conjI)
  have I: "itab_inv f hs" using assms by (rule itab_run_inv)
  note K = itab_inv_keys [OF I]
  show "\<forall>i < NINODE. unat (im_ref (it_meta f ! i)) = length (filter (\<lambda>h. ip_id h = i) hs)" using I by (simp add: itab_inv_def refs_to_def)
  show "\<forall>h \<in> set hs. ip_id h < NINODE \<and> im_ref (it_meta f ! ip_id h) \<noteq> 0 \<and> im_dev (it_meta f ! ip_id h) = ip_dev h \<and> im_inum (it_meta f ! ip_id h) = ip_inum h"
    using I K(1) by (simp add: itab_inv_def)
  show "\<forall>h \<in> set hs. \<forall>h' \<in> set hs. ip_dev h = ip_dev h' \<longrightarrow> ip_inum h = ip_inum h' \<longrightarrow> ip_id h = ip_id h'"
    using K(2) by (metis inode_key_def)
  have len: "length (it_meta f) = NINODE" using I by (simp add: itab_inv_def)
  have "(dev, inum) \<notin> inode_key ` set hs \<longleftrightarrow> find_index (\<lambda>m. im_ref m > 0 \<and> im_dev m = dev \<and> im_inum m = inum) (it_meta f) = None"
    unfolding K(3) find_index_None_set by (auto simp: word_gt_0)
  moreover have "card (inode_key ` set hs) = NINODE \<longleftrightarrow> find_index (\<lambda>m. im_ref m = 0) (it_meta f) = None"
    unfolding K(4) card_all find_index_None_iff len by simp
  ultimately show "fst (inode_get dev inum f) = Err FsOutOfInode \<longleftrightarrow> (dev, inum) \<notin> inode_key ` set hs \<and> card (inode_key ` set hs) = NINODE"
    by (auto simp: inode_get_def Let_def split: option.splits)
qed

theorem inode_table_unique_witness:
  "\<exists>f. inode_get 1 1 (inode_table_new example_store) = (Ok (inode_new 0 1 1), f) \<and> unat (im_ref (it_meta f ! 0)) = 1 \<and> im_ref (it_meta f ! 0) \<noteq> 0 \<and>
     fst (inode_get 1 2 f) \<noteq> Err FsOutOfInode"
proof -
  define f where "f = snd (inode_get 1 1 (inode_table_new example_store))"
  have g: "inode_get 1 1 (inode_table_new example_store) = (Ok (inode_new 0 1 1), f)"
    by (simp add: f_def inode_get_def inode_table_new_def inode_meta_new_def Let_def numeral_nat)
  have r: "itab_run example_sb f [inode_new 0 1 1]" using itab_run.get [OF itab_run.start _ g] by simp
  note T = inode_table_unique [OF r, of 1 2]
  note T0 = conjunct1 [OF T] and T1 = conjunct1 [OF conjunct2 [OF T]] and T2 = conjunct2 [OF conjunct2 [OF conjunct2 [OF T]]]
  have "fst (inode_get 1 2 f) \<noteq> Err FsOutOfInode" using T2 by simp
  moreover have "im_ref (it_meta f ! 0) \<noteq> 0" using T1 by (simp add: inode_new_def)
  moreover have "unat (im_ref (it_meta f ! 0)) = 1" using T0 [rule_format, of 0] by (simp add: inode_new_def)
  ultimately show ?thesis using g by blast
qed

text \<open>
  Property C5.  An inode survives in the table's slot or on disk.  Writing back a locked inode inside a transaction with room
  in the log does not panic, changes no other inode of the disk, and makes the disk hold exactly the fields of the copy in memory; when
  the slot of the table is later lost, locking the inode again loads the same fields.
\<close>

theorem inode_roundtrip:
  assumes "txn_ok (ip_dev ip) area (Suc k) {} (fs_store f)" "iblock sb (ip_inum ip) \<notin> area" "ip_id ip < length (it_inner f)" "ip_id ip < length (it_locked f)"
    "length (ii_addrs (inner_of ip f)) = NDIRECT + 1" "ii_type (inner_of ip f) \<noteq> TypeFree"
  shows "\<exists>f1. inode_update sb ip f = Some f1 \<and> txn_ok (ip_dev ip) area k {} (fs_store f1) \<and>
    (\<forall>j. disk_inode sb (txn_view (ip_dev ip) (fs_store f1)) j = (if j = ip_inum ip then Some (as_dinode (inner_of ip f)) else disk_inode sb (txn_view (ip_dev ip) (fs_store f)) j)) \<and>
    (\<forall>b. b \<noteq> iblock sb (ip_inum ip) \<longrightarrow> txn_view (ip_dev ip) (fs_store f1) b = txn_view (ip_dev ip) (fs_store f) b) \<and>
    (\<exists>f2. inode_lock sb ip (inode_unlock ip (set_inner ip inode_inner_new f1)) = Some f2 \<and> inner_of ip f2 = (inner_of ip f)\<lparr>ii_valid := True\<rparr>)"
proof -
  let ?V = "txn_view (ip_dev ip) (fs_store f)" and ?b = "iblock sb (ip_inum ip)" and ?di = "as_dinode (inner_of ip f)"
  have "?b \<notin> {} \<union> area" using assms(2) by simp
  from inode_update_spec [OF assms(1) this] obtain s' where
    1: "inode_update sb ip f = Some (f\<lparr>fs_store := s'\<rparr>)" "txn_ok (ip_dev ip) area k {} s'" "txn_view (ip_dev ip) s' = ?V(?b := dinode_put (?V ?b) (ip_inum ip) ?di)" by auto
  have len: "length (?V ?b) = BSIZE" "length (di_addrs ?di) = NDIRECT + 1" using tx.block_size [OF assms(1)] assms(5) by (simp_all add: as_dinode_def)
  note D = disk_inode_put [of ?V sb "ip_inum ip" ?di, OF len, folded 1(3)]
  define g where "g = inode_unlock ip (set_inner ip inode_inner_new (f\<lparr>fs_store := s'\<rparr>))"
  have g: "fs_store g = s'" "\<not> it_locked g ! ip_id ip" "ip_id ip < length (it_inner g)" "\<not> ii_valid (inner_of ip g)"
    using assms(3,4) by (simp_all add: g_def inode_unlock_def set_inner_def inner_of_def inode_inner_new_def)
  have "\<exists>f2. inode_lock sb ip g = Some f2 \<and> as_dinode (inner_of ip f2) = ?di \<and> ii_valid (inner_of ip f2)"
    using inode_lock_spec [of ip area k "{}" g sb ?di] 1(2) g D assms(6) by (auto simp: as_dinode_def)
  then obtain f2 where f2: "inode_lock sb ip g = Some f2" "as_dinode (inner_of ip f2) = ?di" "ii_valid (inner_of ip f2)" by blast
  have "inner_of ip f2 = (inner_of ip f)\<lparr>ii_valid := True\<rparr>" using f2(2,3) by (simp add: as_dinode_def)
  then show ?thesis using 1 D f2(1) unfolding g_def by auto
qed

definition example_inode :: InodeInner where
  "example_inode = inode_inner_new\<lparr>ii_valid := True, ii_type := TypeFile, ii_nlink := 1, ii_size := 5, ii_addrs := 60 # replicate 12 0\<rparr>"

definition example_fs :: Fs where
  "example_fs = (set_inner (inode_new 0 1 17) example_inode (inode_table_new example_store))\<lparr>it_locked := True # replicate (NINODE - 1) False\<rparr>"

theorem inode_roundtrip_witness:
  "\<exists>f1 f2. inode_update example_sb (inode_new 0 1 17) example_fs = Some f1 \<and>
     disk_inode example_sb (txn_view 1 (fs_store f1)) 17 = Some (as_dinode example_inode) \<and>
     inode_lock example_sb (inode_new 0 1 17) (inode_unlock (inode_new 0 1 17) (set_inner (inode_new 0 1 17) inode_inner_new f1)) = Some f2 \<and>
     ii_size (inner_of (inode_new 0 1 17) f2) = 5"
proof -
  have i: "inner_of (inode_new 0 1 17) example_fs = example_inode" "fs_store example_fs = example_store" "length (it_inner example_fs) = NINODE" "length (it_locked example_fs) = NINODE"
    by (simp_all add: example_fs_def set_inner_def inner_of_def inode_new_def inode_table_new_def)
  have "txn_ok 1 (log_area example_log) (Suc 9) {} example_store" using example_store_facts(1) by simp
  moreover have "iblock example_sb 17 \<notin> log_area example_log" by (simp add: iblock_def example_sb_def fs_values log_area_def example_log_def)
  ultimately show ?thesis
    using inode_roundtrip [of "inode_new 0 1 17" "log_area example_log" 9 example_fs example_sb] i
    by (auto simp: inode_new_def example_inode_def inode_inner_new_def fs_values)
qed

end
