(* ===== verification/Kernel.thy ===== *)
theory Kernel
  imports Fs Pipe Console Message Procs
begin

text \<open>
  The state of the whole kernel: the components of the other theories together with the private data of
  the processes (\<open>ProcData\<close> and \<open>TrapFrame\<close> of \<open>kernel/src/proc.rs\<close>) and the table of open files
  (\<open>kernel/src/file.rs\<close>).  The functions below are executed by the process \<open>cur\<close>.  Waiting for a lock or
  for the log is not returning (\<open>None\<close>); waiting for a pipe or the console is \<open>Blocked\<close>.
\<close>

section \<open>Process data\<close>

record TrapFrame =
  kernel_satp :: usize
  kernel_sp :: usize
  kernel_trap :: usize
  epc :: usize
  kernel_hartid :: usize
  tf_ra :: usize
  tf_sp :: usize
  tf_gp :: usize
  tf_tp :: usize
  tf_t0 :: usize
  tf_t1 :: usize
  tf_t2 :: usize
  tf_s0 :: usize
  tf_s1 :: usize
  a0 :: usize
  a1 :: usize
  a2 :: usize
  a3 :: usize
  a4 :: usize
  a5 :: usize
  a6 :: usize
  a7 :: usize
  tf_s2 :: usize
  tf_s3 :: usize
  tf_s4 :: usize
  tf_s5 :: usize
  tf_s6 :: usize
  tf_s7 :: usize
  tf_s8 :: usize
  tf_s9 :: usize
  tf_s10 :: usize
  tf_s11 :: usize
  tf_t3 :: usize
  tf_t4 :: usize
  tf_t5 :: usize
  tf_t6 :: usize

definition trapframe_zeroed :: TrapFrame where
  "trapframe_zeroed = \<lparr>kernel_satp = 0, kernel_sp = 0, kernel_trap = 0, epc = 0, kernel_hartid = 0, tf_ra = 0, tf_sp = 0, tf_gp = 0, tf_tp = 0,
     tf_t0 = 0, tf_t1 = 0, tf_t2 = 0, tf_s0 = 0, tf_s1 = 0, a0 = 0, a1 = 0, a2 = 0, a3 = 0, a4 = 0, a5 = 0, a6 = 0, a7 = 0, tf_s2 = 0, tf_s3 = 0,
     tf_s4 = 0, tf_s5 = 0, tf_s6 = 0, tf_s7 = 0, tf_s8 = 0, tf_s9 = 0, tf_s10 = 0, tf_s11 = 0, tf_t3 = 0, tf_t4 = 0, tf_t5 = 0, tf_t6 = 0\<rparr>"

text \<open>The trap frame is a page of its own: its address and its contents.  A file is an index into the file table.\<close>

record ProcData =
  pd_kstack :: usize
  pd_size :: usize
  pd_pagetable :: "usize option"
  pd_trapframe :: "(usize \<times> TrapFrame) option"
  pd_context :: Context
  open_files :: "nat option list"
  cwd :: Inode
  pd_name :: "u8 list"

definition proc_data_new :: ProcData where
  "proc_data_new = \<lparr>pd_kstack = 0, pd_size = 0, pd_pagetable = None, pd_trapframe = None, pd_context = context_new,
     open_files = replicate NOFILE None, cwd = inode_new 0 0 0, pd_name = []\<rparr>"

section \<open>Open files\<close>

datatype FileType = FNone | FPipe nat | FInode Inode | FDevice Inode u16

record FileInner =
  readable :: bool
  writeable :: bool
  ftype :: FileType
  foffset :: u32

definition file_inner_new :: FileInner where
  "file_inner_new = \<lparr>readable = False, writeable = False, ftype = FNone, foffset = 0\<rparr>"

text \<open>
  \<open>pipes\<close> are the pipes on the heap, by the order of their creation.  \<open>flocked\<close> are the locks of the file table, \<open>power\<close> the
  value written to the power device.
\<close>

record 'b Kernel =
  mem :: "'b Mem"
  fs :: Fs
  sb :: SuperBlock
  sched :: Sched
  data :: "ProcData list"
  ref_counts :: "usize list"
  files :: "FileInner list"
  flocked :: "bool list"
  pipes :: "PipeInner list"
  console :: Console
  uart :: Uart
  printf :: Printf
  msg :: MessageBuffer
  ticks :: usize
  power :: "u32 option"

section \<open>Access to the current process\<close>

definition upd_data :: "nat \<Rightarrow> (ProcData \<Rightarrow> ProcData) \<Rightarrow> 'b Kernel \<Rightarrow> 'b Kernel" where
  "upd_data cur g k = k\<lparr>data := (data k)[cur := g (data k ! cur)]\<rparr>"

definition upd_file :: "nat \<Rightarrow> (FileInner \<Rightarrow> FileInner) \<Rightarrow> 'b Kernel \<Rightarrow> 'b Kernel" where
  "upd_file i g k = k\<lparr>files := (files k)[i := g (files k ! i)]\<rparr>"

definition set_open :: "nat \<Rightarrow> nat \<Rightarrow> nat option \<Rightarrow> 'b Kernel \<Rightarrow> 'b Kernel" where
  "set_open cur fd x = upd_data cur (\<lambda>d. d\<lparr>open_files := (open_files d)[fd := x]\<rparr>)"

definition set_trapframe :: "nat \<Rightarrow> (TrapFrame \<Rightarrow> TrapFrame) \<Rightarrow> 'b Kernel \<Rightarrow> 'b Kernel" where
  "set_trapframe cur g = upd_data cur (\<lambda>d. d\<lparr>pd_trapframe := map_option (map_prod (\<lambda>pa. pa) g) (pd_trapframe d)\<rparr>)"

definition copy_to_user :: "'b Buddy \<Rightarrow> ProcData \<Rightarrow> u8 list \<Rightarrow> usize \<Rightarrow> 'b Mem \<Rightarrow> ((unit, VmError) result \<times> 'b Mem) option" where
  "copy_to_user B d src dst m = do { r \<leftarrow> pd_pagetable d; copy_to B r (pd_size d) src dst m }"

definition copy_from_user :: "'b Buddy \<Rightarrow> ProcData \<Rightarrow> usize \<Rightarrow> nat \<Rightarrow> 'b Mem \<Rightarrow> ((u8 list, VmError) result \<times> 'b Mem) option" where
  "copy_from_user B d src len m = do { r \<leftarrow> pd_pagetable d; copy_from B r (pd_size d) src len m }"

text \<open>\<open>copy_from\<close> once more, with the bytes a failed copy leaves in the destination.\<close>

function copy_part :: "'b Buddy \<Rightarrow> usize \<Rightarrow> usize \<Rightarrow> usize \<Rightarrow> nat \<Rightarrow> 'b Mem \<Rightarrow> ((bool \<times> u8 list) \<times> 'b Mem) option" where
  "copy_part B pagetable sz srcva len m =
     (if len = 0 then Some ((True, []), m)
      else do {
        let va0 = pg_round_down srcva;
        (r, m) \<leftarrow> user_page B pagetable sz va0 m;
        case r of
          Err e \<Rightarrow> Some ((False, []), m)
        | Ok pa0 \<Rightarrow> do {
            d \<leftarrow> rd_page m pa0;
            let off = unat (srcva - va0);
            let n = min (4096 - off) len;
            ((good, bs), m) \<leftarrow> copy_part B pagetable sz (va0 + PGSIZE) (len - n) m;
            Some ((good, map d [off..<off + n] @ bs), m)
          }
      })"
  by pat_completeness auto
termination
  by (relation "measure (\<lambda>(B, pagetable, sz, srcva, len, m). len)") (auto simp: page_offset_less)

declare copy_part.simps [simp del]

definition copy_part_user :: "'b Buddy \<Rightarrow> ProcData \<Rightarrow> usize \<Rightarrow> nat \<Rightarrow> 'b Mem \<Rightarrow> ((bool \<times> u8 list) \<times> 'b Mem) option" where
  "copy_part_user B d src len m = do { r \<leftarrow> pd_pagetable d; copy_part B r (pd_size d) src len m }"

lemma copy_part_copy_from:
  "copy_from B r sz va len m = Some (Ok bs, m') \<longleftrightarrow> copy_part B r sz va len m = Some ((True, bs), m')"
proof (induction B r sz va len m arbitrary: bs rule: copy_part.induct)
  case (1 B r sz va len m)
  show ?case
  proof (cases "len = 0")
    case False
    show ?thesis
    proof (cases "user_page B r sz (pg_round_down va) m")
      case (Some p)
      obtain x m1 where p: "p = (x, m1)" by fastforce
      show ?thesis
      proof (cases x)
        case (Ok pa0)
        show ?thesis
        proof (cases "rd_page m1 pa0")
          case (Some d)
          let ?n = "min (4096 - unat (va - pg_round_down va)) len"
          have IH: "copy_from B r sz (pg_round_down va + PGSIZE) (len - ?n) m1 = Some (Ok bs, m') \<longleftrightarrow>
              copy_part B r sz (pg_round_down va + PGSIZE) (len - ?n) m1 = Some ((True, bs), m')" for bs
            using 1 [of "pg_round_down va" p x m1 pa0 d] False \<open>user_page B r sz (pg_round_down va) m = Some p\<close> p Ok Some by blast
          let ?c = "map d [unat (va - pg_round_down va)..<unat (va - pg_round_down va) + ?n]"
          note U = False \<open>user_page B r sz (pg_round_down va) m = Some p\<close> p Ok Some
          have "copy_from B r sz va len m = Some (Ok bs, m') \<longleftrightarrow> (\<exists>bs0. copy_from B r sz (pg_round_down va + PGSIZE) (len - ?n) m1 = Some (Ok bs0, m') \<and> bs = ?c @ bs0)"
            using U by (subst copy_from.simps) (auto simp: Let_def Option.bind_eq_Some_conv split: result.splits, metis result.exhaust)
          moreover have "copy_part B r sz va len m = Some ((True, bs), m') \<longleftrightarrow> (\<exists>bs0. copy_part B r sz (pg_round_down va + PGSIZE) (len - ?n) m1 = Some ((True, bs0), m') \<and> bs = ?c @ bs0)"
            using U by (subst copy_part.simps) (auto simp: Let_def Option.bind_eq_Some_conv)
          ultimately show ?thesis using IH by blast
        qed (use False Some p Ok in \<open>subst copy_from.simps, subst copy_part.simps, simp add: Let_def\<close>)
      qed (use False Some p in \<open>subst copy_from.simps, subst copy_part.simps, simp add: Let_def\<close>)
    qed (use False in \<open>subst copy_from.simps, subst copy_part.simps, simp add: Let_def\<close>)
  qed (subst copy_from.simps, subst copy_part.simps, simp)
qed

section \<open>Parts of the state\<close>

definition on_fs :: "(Fs \<Rightarrow> ('a \<times> Fs) option) \<Rightarrow> 'b Kernel \<Rightarrow> ('a \<times> 'b Kernel) option" where
  "on_fs op k = do { (r, f) \<leftarrow> op (fs k); Some (r, k\<lparr>fs := f\<rparr>) }"

definition on_fs_unit :: "(Fs \<Rightarrow> Fs option) \<Rightarrow> 'b Kernel \<Rightarrow> 'b Kernel option" where
  "on_fs_unit op k = do { f \<leftarrow> op (fs k); Some (k\<lparr>fs := f\<rparr>) }"

text \<open>\<open>Operation::begin\<close> and the end of its scope.\<close>

definition op_begin :: "nat \<Rightarrow> 'b Kernel \<Rightarrow> (Operation \<times> 'b Kernel) option" where
  "op_begin cur k =
     (case operation_begin None cur (fst (fs_store (fs k))) (sched k) of
        (None, _, _) \<Rightarrow> None
      | (Some op, l, s) \<Rightarrow> Some (op, k\<lparr>fs := (fs k)\<lparr>fs_store := (l, snd (fs_store (fs k)))\<rparr>, sched := s\<rparr>))"

definition op_end :: "nat \<Rightarrow> Operation \<Rightarrow> 'b Kernel \<Rightarrow> 'b Kernel option" where
  "op_end cur op k = do {
     (l, c, s) \<leftarrow> operation_drop (Some cur) op (fst (fs_store (fs k))) (snd (fs_store (fs k))) (sched k);
     Some (k\<lparr>fs := (fs k)\<lparr>fs_store := (l, c)\<rparr>, sched := s\<rparr>)
   }"

definition in_op :: "nat \<Rightarrow> ('b Kernel \<Rightarrow> ('a \<times> 'b Kernel) option) \<Rightarrow> 'b Kernel \<Rightarrow> ('a \<times> 'b Kernel) option" where
  "in_op cur body k = do {
     (op, k) \<leftarrow> op_begin cur k;
     (r, k) \<leftarrow> body k;
     k \<leftarrow> op_end cur op k;
     Some (r, k)
   }"

end
