(* ===== verification/File.thy ===== *)
theory File
  imports Kernel
begin

text \<open>
  Open files (\<open>kernel/src/file.rs\<close> and \<open>Pipe::alloc\<close> of \<open>kernel/src/pipe.rs\<close>).  Reading and writing hold
  the lock of the file, also while waiting for a pipe or the console; a call that waits is continued by the
  \<open>resume\<close> functions.
\<close>

unbundle bit_operations_syntax

section \<open>Operations\<close>

definition READ_ONLY :: usize where "READ_ONLY = 0x000"
definition WRITE_ONLY :: usize where "WRITE_ONLY = 0x001"
definition READ_WRITE :: usize where "READ_WRITE = 0x002"
definition CREATE :: usize where "CREATE = 0x200"
definition TRUNCATE :: usize where "TRUNCATE = 0x400"
definition CONSOLE :: nat where "CONSOLE = 1"

text \<open>The addresses on which readers of the console and writers of the UART sleep.\<close>

definition con_chan :: nat where "con_chan = 0"
definition tx_chan :: nat where "tx_chan = 1"

definition file_alloc :: "'b Kernel \<Rightarrow> (nat, FsError) result \<times> 'b Kernel" where
  "file_alloc k =
     (case find_index (\<lambda>r. r = 0) (ref_counts k) of
        None \<Rightarrow> (Err FsOutOfFile, k)
      | Some i \<Rightarrow> (Ok i, k\<lparr>ref_counts := (ref_counts k)[i := 1]\<rparr>))"

definition file_dup :: "nat \<Rightarrow> 'b Kernel \<Rightarrow> 'b Kernel option" where
  "file_dup i k = do {
     assert_that (ref_counts k ! i \<ge> 1);
     Some (k\<lparr>ref_counts := (ref_counts k)[i := ref_counts k ! i + 1]\<rparr>)
   }"

definition file_lock :: "nat \<Rightarrow> 'b Kernel \<Rightarrow> 'b Kernel option" where
  "file_lock i k = do { assert_that (\<not> flocked k ! i); Some (k\<lparr>flocked := (flocked k)[i := True]\<rparr>) }"

definition file_unlock :: "nat \<Rightarrow> 'b Kernel \<Rightarrow> 'b Kernel" where
  "file_unlock i k = k\<lparr>flocked := (flocked k)[i := False]\<rparr>"

definition close_inode :: "nat \<Rightarrow> Inode \<Rightarrow> 'b Kernel \<Rightarrow> 'b Kernel option" where
  "close_inode cur ip k = do {
     (_, k) \<leftarrow> in_op cur (\<lambda>k. do { k \<leftarrow> on_fs_unit (inode_put (sb k) ip) k; Some ((), k) }) k;
     Some k
   }"

definition file_close :: "nat \<Rightarrow> nat \<Rightarrow> 'b Kernel \<Rightarrow> 'b Kernel option" where
  "file_close cur i k = do {
     let r = ref_counts k ! i;
     assert_that (r \<ge> 1);
     let k = k\<lparr>ref_counts := (ref_counts k)[i := r - 1]\<rparr>;
     if r - 1 > 0 then Some k
     else do {
       k \<leftarrow> file_lock i k;
       let inner = files k ! i;
       let k = file_unlock i (upd_file i (\<lambda>f. f\<lparr>ftype := FNone\<rparr>) k);
       case ftype inner of
         FNone \<Rightarrow> Some k
       | FPipe p \<Rightarrow>
           let (pipe, s) = pipe_close p (Some cur) (writeable inner) (pipes k ! p, sched k)
           in Some (k\<lparr>pipes := (pipes k)[p := pipe], sched := s\<rparr>)
       | FInode ip \<Rightarrow> close_inode cur ip k
       | FDevice ip _ \<Rightarrow> close_inode cur ip k
     }
   }"

text \<open>The layout of \<open>Stat\<close> in memory is the compiler's choice, the argument \<open>layout\<close>.\<close>

definition stat_inode :: "'b Buddy \<Rightarrow> (Stat \<Rightarrow> u8 list) \<Rightarrow> nat \<Rightarrow> Inode \<Rightarrow> usize \<Rightarrow> 'b Kernel \<Rightarrow> ((unit, SysError) result \<times> 'b Kernel) option" where
  "stat_inode B layout cur ip addr k = do {
     k \<leftarrow> on_fs_unit (inode_lock (sb k) ip) k;
     let stat = inode_stat ip (fs k);
     let k = k\<lparr>fs := inode_unlock ip (fs k)\<rparr>;
     (r, m) \<leftarrow> copy_to_user B (data k ! cur) (layout stat) addr (mem k);
     Some (if is_ok r then Ok () else Err BadAddress, k\<lparr>mem := m\<rparr>)
   }"

definition file_stat :: "'b Buddy \<Rightarrow> (Stat \<Rightarrow> u8 list) \<Rightarrow> nat \<Rightarrow> nat \<Rightarrow> usize \<Rightarrow> 'b Kernel \<Rightarrow> ((unit, SysError) result \<times> 'b Kernel) option" where
  "file_stat B layout cur i addr k = do {
     k \<leftarrow> file_lock i k;
     (r, k) \<leftarrow> (case ftype (files k ! i) of
         FInode ip \<Rightarrow> stat_inode B layout cur ip addr k
       | FDevice ip _ \<Rightarrow> stat_inode B layout cur ip addr k
       | _ \<Rightarrow> Some (Err BadDescriptor, k));
     Some (r, file_unlock i k)
   }"

text \<open>
  The outcome of \<open>read\<close> and \<open>write\<close>: the result, or waiting with the number of bytes moved, or waiting for
  the UART in the middle of a chunk.
\<close>

datatype fcall = FDone "(usize, SysError) result" | FWait nat | FWaitTx usize nat "u8 list"

definition fcall_of :: "call \<Rightarrow> fcall" where
  "fcall_of c = (case c of Done r \<Rightarrow> FDone r | Blocked n \<Rightarrow> FWait n)"

definition fcall_of_write :: "wcall \<Rightarrow> fcall" where
  "fcall_of_write c = (case c of WDone r \<Rightarrow> FDone r | WBlocked src n rest \<Rightarrow> FWaitTx src n rest)"

definition file_finish :: "nat \<Rightarrow> fcall \<Rightarrow> 'b Kernel \<Rightarrow> fcall \<times> 'b Kernel" where
  "file_finish i c k = (c, case c of FDone _ \<Rightarrow> file_unlock i k | _ \<Rightarrow> k)"

definition after_pipe :: "nat \<Rightarrow> nat \<Rightarrow> 'b Kernel \<Rightarrow> (call \<times> PipeInner \<times> 'b Mem \<times> Sched) option \<Rightarrow> (fcall \<times> 'b Kernel) option" where
  "after_pipe i p k r = do {
     (c, pipe, m, s) \<leftarrow> r;
     Some (file_finish i (fcall_of c) (k\<lparr>pipes := (pipes k)[p := pipe], mem := m, sched := s\<rparr>))
   }"

definition after_console :: "nat \<Rightarrow> 'b Kernel \<Rightarrow> (call \<times> Console \<times> 'b Mem \<times> Sched) option \<Rightarrow> (fcall \<times> 'b Kernel) option" where
  "after_console i k r = do {
     (c, con, m, s) \<leftarrow> r;
     Some (file_finish i (fcall_of c) (k\<lparr>console := con, mem := m, sched := s\<rparr>))
   }"

definition after_tx :: "nat \<Rightarrow> 'b Kernel \<Rightarrow> (wcall \<times> Uart \<times> 'b Mem \<times> Sched) option \<Rightarrow> (fcall \<times> 'b Kernel) option" where
  "after_tx i k r = do {
     (c, u, m, s) \<leftarrow> r;
     Some (file_finish i (fcall_of_write c) (k\<lparr>uart := u, mem := m, sched := s\<rparr>))
   }"

text \<open>A length that is not below \<open>2 ^ 63\<close> is not allowed for \<open>slice::from_raw_parts_mut\<close>.\<close>

definition read_inode :: "'b Buddy \<Rightarrow> nat \<Rightarrow> nat \<Rightarrow> Inode \<Rightarrow> usize \<Rightarrow> usize \<Rightarrow> 'b Kernel \<Rightarrow> ((usize, SysError) result \<times> 'b Kernel) option" where
  "read_inode B cur i ip addr n k = do {
     k \<leftarrow> on_fs_unit (inode_lock (sb k) ip) k;
     assert_that (n < 2 ^ 63);
     (r, (_, m), f) \<leftarrow> inode_read (sb k) (user_sink (copy_to_user B (data k ! cur))) ip (foffset (files k ! i)) (ucast n) (addr, mem k) (fs k);
     let k = k\<lparr>fs := f, mem := m\<rparr>;
     let k = (case r of Ok read \<Rightarrow> upd_file i (\<lambda>x. x\<lparr>foffset := foffset x + read\<rparr>) k | Err _ \<Rightarrow> k);
     let k = k\<lparr>fs := inode_unlock ip (fs k)\<rparr>;
     Some (case r of Ok read \<Rightarrow> Ok (ucast read) | Err _ \<Rightarrow> Err IoError, k)
   }"

definition file_read :: "'b Buddy \<Rightarrow> nat \<Rightarrow> nat \<Rightarrow> usize \<Rightarrow> usize \<Rightarrow> 'b Kernel \<Rightarrow> (fcall \<times> 'b Kernel) option" where
  "file_read B cur i addr n k = do {
     k \<leftarrow> file_lock i k;
     if \<not> readable (files k ! i) then Some (file_finish i (FDone (Err BadDescriptor)) k)
     else case ftype (files k ! i) of
       FNone \<Rightarrow> None
     | FPipe p \<Rightarrow> after_pipe i p k (pipe_read (copy_to_user B (data k ! cur)) p cur addr n (pipes k ! p) (mem k) (sched k))
     | FInode ip \<Rightarrow> do { (r, k) \<leftarrow> read_inode B cur i ip addr n k; Some (file_finish i (FDone r) k) }
     | FDevice _ major \<Rightarrow>
         if unat major \<ge> NDEV then None
         else if unat major = CONSOLE then after_console i k (console_read (copy_to_user B (data k ! cur)) con_chan cur addr n (console k) (mem k) (sched k))
         else Some (file_finish i (FDone (Err NoEntry)) k)
   }"

definition file_read_resume :: "'b Buddy \<Rightarrow> nat \<Rightarrow> nat \<Rightarrow> usize \<Rightarrow> usize \<Rightarrow> nat \<Rightarrow> 'b Kernel \<Rightarrow> (fcall \<times> 'b Kernel) option" where
  "file_read_resume B cur i addr n done k =
     (case ftype (files k ! i) of
        FPipe p \<Rightarrow> after_pipe i p k (pipe_read_resume (copy_to_user B (data k ! cur)) p cur addr n (pipes k ! p) (mem k) (sched k))
      | _ \<Rightarrow> after_console i k (console_read_resume (copy_to_user B (data k ! cur)) con_chan cur addr n done (console k) (mem k) (sched k)))"

text \<open>
  \<open>write\<close> on an inode, in transactions of at most \<open>FILE_MAX\<close> bytes.  The loop ends when all is written or
  \<open>Inode::write\<close> fails; when \<open>Inode::write\<close> succeeds with 0 bytes it is called again.
\<close>

definition FILE_MAX :: nat where "FILE_MAX = ((MAXOPBLOCKS - 1 - 1 - 2) div 2) * BSIZE"

definition write_chunk :: "'b Buddy \<Rightarrow> nat \<Rightarrow> nat \<Rightarrow> Inode \<Rightarrow> usize \<Rightarrow> nat \<Rightarrow> 'b Kernel \<Rightarrow> ((u32, FsError) result \<times> 'b Kernel) option" where
  "write_chunk B cur i ip addr n1 k = do {
     k \<leftarrow> on_fs_unit (inode_lock (sb k) ip) k;
     (w, (_, m), f) \<leftarrow> inode_write (sb k) (user_source (copy_part_user B (data k ! cur))) ip (foffset (files k ! i)) (word_of_nat n1) (addr, mem k) (fs k);
     let k = k\<lparr>fs := f, mem := m\<rparr>;
     let k = (case w of Ok written \<Rightarrow> upd_file i (\<lambda>x. x\<lparr>foffset := foffset x + written\<rparr>) k | Err _ \<Rightarrow> k);
     Some (w, k\<lparr>fs := inode_unlock ip (fs k)\<rparr>)
   }"

partial_function (option) write_loop :: "'b Buddy \<Rightarrow> nat \<Rightarrow> nat \<Rightarrow> Inode \<Rightarrow> usize \<Rightarrow> nat \<Rightarrow> nat \<Rightarrow> 'b Kernel \<Rightarrow> (nat \<times> 'b Kernel) option" where
  "write_loop B cur i ip addr n done k =
     (if done < n then do {
        (w, k) \<leftarrow> in_op cur (write_chunk B cur i ip (addr + word_of_nat done) (min (n - done) FILE_MAX)) k;
        case w of
          Err _ \<Rightarrow> Some (done, k)
        | Ok written \<Rightarrow> write_loop B cur i ip addr n (done + unat written) k
      } else Some (done, k))"

definition file_write :: "'b Buddy \<Rightarrow> nat \<Rightarrow> nat \<Rightarrow> usize \<Rightarrow> usize \<Rightarrow> 'b Kernel \<Rightarrow> (fcall \<times> 'b Kernel) option" where
  "file_write B cur i addr n k = do {
     k \<leftarrow> file_lock i k;
     if \<not> writeable (files k ! i) then Some (file_finish i (FDone (Err BadDescriptor)) k)
     else case ftype (files k ! i) of
       FNone \<Rightarrow> None
     | FPipe p \<Rightarrow> after_pipe i p k (pipe_write (copy_from_user B (data k ! cur)) p cur addr n (pipes k ! p) (mem k) (sched k))
     | FInode ip \<Rightarrow> do {
         (done, k) \<leftarrow> write_loop B cur i ip addr (unat n) 0 k;
         Some (file_finish i (FDone (if done = unat n then Ok n else Err IoError)) k)
       }
     | FDevice _ major \<Rightarrow>
         if unat major \<ge> NDEV then None
         else if unat major = CONSOLE
         then after_tx i k (console_write (copy_from_user B (data k ! cur)) (printf k) (console k) tx_chan cur addr n (uart k) (mem k) (sched k))
         else Some (file_finish i (FDone (Err NoEntry)) k)
   }"

definition file_write_resume :: "'b Buddy \<Rightarrow> nat \<Rightarrow> nat \<Rightarrow> usize \<Rightarrow> usize \<Rightarrow> fcall \<Rightarrow> 'b Kernel \<Rightarrow> (fcall \<times> 'b Kernel) option" where
  "file_write_resume B cur i addr n c k =
     (case (c, ftype (files k ! i)) of
        (FWait done, FPipe p) \<Rightarrow> after_pipe i p k (pipe_write_resume (copy_from_user B (data k ! cur)) p cur addr n done (pipes k ! p) (mem k) (sched k))
      | (FWaitTx src done rest, _) \<Rightarrow> after_tx i k (console_write_resume (copy_from_user B (data k ! cur)) (printf k) tx_chan cur n src done rest (uart k) (mem k) (sched k))
      | _ \<Rightarrow> None)"

definition file_ioctl :: "nat \<Rightarrow> usize \<Rightarrow> usize \<Rightarrow> 'b Kernel \<Rightarrow> ((usize, SysError) result \<times> 'b Kernel) option" where
  "file_ioctl i cmd arg k = do {
     k \<leftarrow> file_lock i k;
     Some (case ftype (files k ! i) of
         FDevice _ major \<Rightarrow>
           if unat major = CONSOLE then let (r, con) = console_ioctl cmd arg (console k) in (r, file_unlock i (k\<lparr>console := con\<rparr>))
           else (Err NotImplemented, file_unlock i k)
       | _ \<Rightarrow> (Err BadDescriptor, file_unlock i k))
   }"

text \<open>\<open>heap\<close> tells whether the allocation of the pipe on the heap succeeds.\<close>

definition pipe_alloc :: "bool \<Rightarrow> nat \<Rightarrow> 'b Kernel \<Rightarrow> ((nat \<times> nat, FsError) result \<times> 'b Kernel) option" where
  "pipe_alloc heap cur k =
     (case file_alloc k of
        (Err e, k) \<Rightarrow> Some (Err e, k)
      | (Ok f0, k) \<Rightarrow>
         (case file_alloc k of
            (Err e, k) \<Rightarrow> do { k \<leftarrow> file_close cur f0 k; Some (Err e, k) }
          | (Ok f1, k) \<Rightarrow>
              if \<not> heap then do { k \<leftarrow> file_close cur f0 k; k \<leftarrow> file_close cur f1 k; Some (Err FsOutOfPipe, k) }
              else do {
                let p = length (pipes k);
                let k = k\<lparr>pipes := pipes k @ [pipe_new]\<rparr>;
                k \<leftarrow> file_lock f0 k;
                let k = file_unlock f0 (upd_file f0 (\<lambda>f. f\<lparr>ftype := FPipe p, readable := True, writeable := False\<rparr>) k);
                k \<leftarrow> file_lock f1 k;
                let k = file_unlock f1 (upd_file f1 (\<lambda>f. f\<lparr>ftype := FPipe p, readable := False, writeable := True\<rparr>) k);
                Some (Ok (f0, f1), k)
              }))"

end
