(* ===== verification/Sysfile.thy ===== *)
theory Sysfile
  imports File
begin

text \<open>
  System calls on files (\<open>kernel/src/sysfile.rs\<close>) and the access to their arguments (\<open>SyscallArgs\<close> of
  \<open>kernel/src/syscall.rs\<close>).  A call is executed by the process \<open>cur\<close> with the trap frame \<open>tf\<close>.
\<close>

unbundle bit_operations_syntax

section \<open>Arguments\<close>

definition get_raw :: "TrapFrame \<Rightarrow> nat \<Rightarrow> usize option" where
  "get_raw tf index =
     (if index = 0 then Some (a0 tf) else if index = 1 then Some (a1 tf) else if index = 2 then Some (a2 tf)
      else if index = 3 then Some (a3 tf) else if index = 4 then Some (a4 tf) else if index = 5 then Some (a5 tf) else None)"

definition get_int :: "TrapFrame \<Rightarrow> nat \<Rightarrow> int option" where
  "get_int tf index = map_option sint (get_raw tf index)"

definition get_file :: "TrapFrame \<Rightarrow> nat \<Rightarrow> ProcData \<Rightarrow> (nat \<times> nat, SysError) result option" where
  "get_file tf index d = do {
     n \<leftarrow> get_int tf index;
     Some (if n < 0 then Err BadDescriptor
           else if nat n \<ge> NOFILE then Err BadDescriptor
           else case open_files d ! nat n of Some file \<Rightarrow> Ok (nat n, file) | None \<Rightarrow> Err BadDescriptor)
   }"

text \<open>\<open>String::push\<close> of a byte as a character: a byte from 128 on takes two bytes in UTF-8.\<close>

definition push_char :: "u8 list \<Rightarrow> u8 \<Rightarrow> u8 list" where
  "push_char s b = s @ (if b < 0x80 then [b] else [0xC0 OR drop_bit 6 b, 0x80 OR (b AND 0x3F)])"

fun fetch_loop :: "(usize \<Rightarrow> nat \<Rightarrow> 'm \<Rightarrow> ((u8 list, VmError) result \<times> 'm) option) \<Rightarrow> usize \<Rightarrow> nat \<Rightarrow> u8 list \<Rightarrow> 'm \<Rightarrow> ((u8 list, SysError) result \<times> 'm) option" where
  "fetch_loop cfrom addr 0 s m = Some (Ok s, m)"
| "fetch_loop cfrom addr (Suc n) s m = do {
     (r, m) \<leftarrow> cfrom addr 1 m;
     case r of
       Err _ \<Rightarrow> Some (Err BadAddress, m)
     | Ok buf \<Rightarrow> if buf ! 0 = 0 then Some (Ok s, m) else fetch_loop cfrom (addr + 1) n (push_char s (buf ! 0)) m
   }"

definition fetch_string :: "'b Buddy \<Rightarrow> nat \<Rightarrow> usize \<Rightarrow> nat \<Rightarrow> 'b Kernel \<Rightarrow> ((u8 list, SysError) result \<times> 'b Kernel) option" where
  "fetch_string B cur addr len k = do {
     (r, m) \<leftarrow> fetch_loop (copy_from_user B (data k ! cur)) addr len [] (mem k);
     Some (r, k\<lparr>mem := m\<rparr>)
   }"

section \<open>Descriptors\<close>

definition fd_alloc :: "nat \<Rightarrow> nat \<Rightarrow> 'b Kernel \<Rightarrow> (nat, SysError) result \<times> 'b Kernel" where
  "fd_alloc cur file k =
     (case find_index (\<lambda>x. x = None) (open_files (data k ! cur)) of
        None \<Rightarrow> (Err TooManyFiles, k)
      | Some fd \<Rightarrow> (Ok fd, set_open cur fd (Some file) k))"

definition sys_dup :: "nat \<Rightarrow> TrapFrame \<Rightarrow> 'b Kernel \<Rightarrow> ((usize, SysError) result \<times> 'b Kernel) option" where
  "sys_dup cur tf k = do {
     r \<leftarrow> get_file tf 0 (data k ! cur);
     case r of
       Err e \<Rightarrow> Some (Err e, k)
     | Ok (_, file) \<Rightarrow>
        (case fd_alloc cur file k of
           (Err e, k) \<Rightarrow> Some (Err e, k)
         | (Ok fd, k) \<Rightarrow> do { k \<leftarrow> file_dup file k; Some (Ok (word_of_nat fd), k) })
   }"

definition sys_read :: "'b Buddy \<Rightarrow> nat \<Rightarrow> TrapFrame \<Rightarrow> 'b Kernel \<Rightarrow> (fcall \<times> 'b Kernel) option" where
  "sys_read B cur tf k = do {
     addr \<leftarrow> get_raw tf 1;
     n \<leftarrow> get_raw tf 2;
     r \<leftarrow> get_file tf 0 (data k ! cur);
     case r of Err e \<Rightarrow> Some (FDone (Err e), k) | Ok (_, file) \<Rightarrow> file_read B cur file addr n k
   }"

definition sys_write :: "'b Buddy \<Rightarrow> nat \<Rightarrow> TrapFrame \<Rightarrow> 'b Kernel \<Rightarrow> (fcall \<times> 'b Kernel) option" where
  "sys_write B cur tf k = do {
     addr \<leftarrow> get_raw tf 1;
     n \<leftarrow> get_raw tf 2;
     r \<leftarrow> get_file tf 0 (data k ! cur);
     case r of Err e \<Rightarrow> Some (FDone (Err e), k) | Ok (_, file) \<Rightarrow> file_write B cur file addr n k
   }"

definition sys_close :: "nat \<Rightarrow> TrapFrame \<Rightarrow> 'b Kernel \<Rightarrow> ((usize, SysError) result \<times> 'b Kernel) option" where
  "sys_close cur tf k = do {
     r \<leftarrow> get_file tf 0 (data k ! cur);
     case r of
       Err e \<Rightarrow> Some (Err e, k)
     | Ok (fd, file) \<Rightarrow> do { k \<leftarrow> file_close cur file (set_open cur fd None k); Some (Ok 0, k) }
   }"

definition sys_fstat :: "'b Buddy \<Rightarrow> (Stat \<Rightarrow> u8 list) \<Rightarrow> nat \<Rightarrow> TrapFrame \<Rightarrow> 'b Kernel \<Rightarrow> ((usize, SysError) result \<times> 'b Kernel) option" where
  "sys_fstat B layout cur tf k = do {
     addr \<leftarrow> get_raw tf 1;
     r \<leftarrow> get_file tf 0 (data k ! cur);
     case r of
       Err e \<Rightarrow> Some (Err e, k)
     | Ok (_, file) \<Rightarrow> do {
         (r, k) \<leftarrow> file_stat B layout cur file addr k;
         Some (case r of Ok _ \<Rightarrow> Ok 0 | Err e \<Rightarrow> Err e, k)
       }
   }"

definition sys_ioctl :: "nat \<Rightarrow> TrapFrame \<Rightarrow> 'b Kernel \<Rightarrow> ((usize, SysError) result \<times> 'b Kernel) option" where
  "sys_ioctl cur tf k = do {
     cmd \<leftarrow> get_raw tf 1;
     arg \<leftarrow> get_raw tf 2;
     r \<leftarrow> get_file tf 0 (data k ! cur);
     case r of Err e \<Rightarrow> Some (Err e, k) | Ok (_, file) \<Rightarrow> file_ioctl file cmd arg k
   }"

text \<open>\<open>usize::to_le_bytes\<close>.\<close>

definition usize_bytes :: "usize \<Rightarrow> u8 list" where
  "usize_bytes x = le_bytes 8 (unat x)"

definition pipe_copy_out :: "'b Buddy \<Rightarrow> nat \<Rightarrow> usize \<Rightarrow> nat \<Rightarrow> nat \<Rightarrow> 'b Kernel \<Rightarrow> (bool \<times> 'b Kernel) option" where
  "pipe_copy_out B cur fd_array fd0 fd1 k = do {
     (r, m) \<leftarrow> copy_to_user B (data k ! cur) (usize_bytes (word_of_nat fd0)) fd_array (mem k);
     if \<not> is_ok r then Some (False, k\<lparr>mem := m\<rparr>)
     else do {
       (r, m) \<leftarrow> copy_to_user B (data k ! cur) (usize_bytes (word_of_nat fd1)) (fd_array + 8) m;
       Some (is_ok r, k\<lparr>mem := m\<rparr>)
     }
   }"

definition close_both :: "nat \<Rightarrow> nat \<Rightarrow> nat \<Rightarrow> SysError \<Rightarrow> 'b Kernel \<Rightarrow> ((usize, SysError) result \<times> 'b Kernel) option" where
  "close_both cur read write e k = do { k \<leftarrow> file_close cur read k; k \<leftarrow> file_close cur write k; Some (Err e, k) }"

definition sys_pipe :: "'b Buddy \<Rightarrow> bool \<Rightarrow> nat \<Rightarrow> TrapFrame \<Rightarrow> 'b Kernel \<Rightarrow> ((usize, SysError) result \<times> 'b Kernel) option" where
  "sys_pipe B heap cur tf k = do {
     fd_array \<leftarrow> get_raw tf 0;
     (r, k) \<leftarrow> pipe_alloc heap cur k;
     case r of
       Err e \<Rightarrow> Some (Err (sys_of_fs e), k)
     | Ok (read, write) \<Rightarrow>
        (case fd_alloc cur read k of
           (Err _, k) \<Rightarrow> close_both cur read write TooManyFiles k
         | (Ok fd0, k) \<Rightarrow>
            (case fd_alloc cur write k of
               (Err _, k) \<Rightarrow> close_both cur read write TooManyFiles (set_open cur fd0 None k)
             | (Ok fd1, k) \<Rightarrow> do {
                 (good, k) \<leftarrow> pipe_copy_out B cur fd_array fd0 fd1 k;
                 if good then Some (Ok 0, k)
                 else close_both cur read write BadAddress (set_open cur fd1 None (set_open cur fd0 None k))
               }))
   }"

section \<open>Names\<close>

text \<open>\<open>link\<close>: the part that adds the new name; a parent on another device is not put back.\<close>

definition link_new :: "nat \<Rightarrow> Inode \<Rightarrow> u8 list \<Rightarrow> 'b Kernel \<Rightarrow> ((usize, SysError) result \<times> 'b Kernel) option" where
  "link_new cur old path k = do {
     (r, k) \<leftarrow> on_fs (path_resolve_parent (sb k) (cwd (data k ! cur)) path) k;
     case r of
       Err _ \<Rightarrow> Some (Err NoEntry, k)
     | Ok (parent, name) \<Rightarrow>
         if ip_dev parent \<noteq> ip_dev old then Some (Err CrossDeviceLink, k)
         else do {
           k \<leftarrow> on_fs_unit (inode_lock (sb k) parent) k;
           (r, k) \<leftarrow> on_fs (directory_link (sb k) parent name (ucast (ip_inum old))) k;
           k \<leftarrow> on_fs_unit (inode_unlock_put (sb k) parent) k;
           Some (case r of Ok _ \<Rightarrow> Ok 0 | Err e \<Rightarrow> Err (sys_of_fs e), k)
         }
   }"

definition add_nlink :: "u16 \<Rightarrow> Inode \<Rightarrow> 'b Kernel \<Rightarrow> 'b Kernel option" where
  "add_nlink x ip k =
     on_fs_unit (\<lambda>f. inode_update (sb k) ip (set_inner ip ((inner_of ip f)\<lparr>ii_nlink := ii_nlink (inner_of ip f) + x\<rparr>) f)) k"

definition link_body :: "nat \<Rightarrow> u8 list \<Rightarrow> u8 list \<Rightarrow> 'b Kernel \<Rightarrow> ((usize, SysError) result \<times> 'b Kernel) option" where
  "link_body cur old_path new_path k = do {
     (r, k) \<leftarrow> on_fs (path_resolve (sb k) (cwd (data k ! cur)) old_path) k;
     case r of
       Err _ \<Rightarrow> Some (Err NoEntry, k)
     | Ok old \<Rightarrow> do {
         k \<leftarrow> on_fs_unit (inode_lock (sb k) old) k;
         if ii_type (inner_of old (fs k)) = TypeDirectory then do {
           k \<leftarrow> on_fs_unit (inode_unlock_put (sb k) old) k;
           Some (Err NotPermitted, k)
         } else do {
           k \<leftarrow> add_nlink 1 old k;
           let k = k\<lparr>fs := inode_unlock old (fs k)\<rparr>;
           (r, k) \<leftarrow> link_new cur old new_path k;
           k \<leftarrow> (if is_ok r then Some k
                 else do {
                   k \<leftarrow> on_fs_unit (inode_lock (sb k) old) k;
                   k \<leftarrow> add_nlink (- 1) old k;
                   Some (k\<lparr>fs := inode_unlock old (fs k)\<rparr>)
                 });
           k \<leftarrow> on_fs_unit (inode_put (sb k) old) k;
           Some (r, k)
         }
       }
   }"

definition sys_link :: "'b Buddy \<Rightarrow> nat \<Rightarrow> TrapFrame \<Rightarrow> 'b Kernel \<Rightarrow> ((usize, SysError) result \<times> 'b Kernel) option" where
  "sys_link B cur tf k = do {
     old_addr \<leftarrow> get_raw tf 0;
     (old, k) \<leftarrow> fetch_string B cur old_addr MAXPATH k;
     case old of
       Err e \<Rightarrow> Some (Err e, k)
     | Ok old \<Rightarrow> do {
         new_addr \<leftarrow> get_raw tf 1;
         (new, k) \<leftarrow> fetch_string B cur new_addr MAXPATH k;
         case new of Err e \<Rightarrow> Some (Err e, k) | Ok new \<Rightarrow> in_op cur (link_body cur old new) k
       }
   }"

text \<open>\<open>unlink\<close> with the parent and the inode locked; a failed write unlocks the inode but does not put it back.\<close>

definition unlink_entry :: "Inode \<Rightarrow> Inode \<Rightarrow> nat \<Rightarrow> 'b Kernel \<Rightarrow> ((usize, SysError) result \<times> 'b Kernel) option" where
  "unlink_entry parent ip offset k = do {
     (r, _, f) \<leftarrow> inode_write (sb k) kernel_source parent (word_of_nat offset) (word_of_nat DIRENT) (directory_as_bytes directory_new_empty) (fs k);
     let k = k\<lparr>fs := f\<rparr>;
     case r of
       Err _ \<Rightarrow> do { k \<leftarrow> on_fs_unit (inode_unlock_put (sb k) parent) k; Some (Err IoError, k\<lparr>fs := inode_unlock ip (fs k)\<rparr>) }
     | Ok n \<Rightarrow> do {
         assert_that (unat n = DIRENT);
         k \<leftarrow> (if ii_type (inner_of ip (fs k)) = TypeDirectory then add_nlink (- 1) parent k else Some k);
         k \<leftarrow> on_fs_unit (inode_unlock_put (sb k) parent) k;
         k \<leftarrow> add_nlink (- 1) ip k;
         k \<leftarrow> on_fs_unit (inode_unlock_put (sb k) ip) k;
         Some (Ok 0, k)
       }
   }"

definition unlink_body :: "nat \<Rightarrow> u8 list \<Rightarrow> 'b Kernel \<Rightarrow> ((usize, SysError) result \<times> 'b Kernel) option" where
  "unlink_body cur path k = do {
     (r, k) \<leftarrow> on_fs (path_resolve_parent (sb k) (cwd (data k ! cur)) path) k;
     case r of
       Err _ \<Rightarrow> Some (Err NoEntry, k)
     | Ok (parent, name) \<Rightarrow> do {
         k \<leftarrow> on_fs_unit (inode_lock (sb k) parent) k;
         if name = dot \<or> name = dotdot then do {
           k \<leftarrow> on_fs_unit (inode_unlock_put (sb k) parent) k;
           Some (Err InvalidArgument, k)
         } else do {
           (r, k) \<leftarrow> on_fs (directory_lookup (sb k) parent name) k;
           case r of
             Ok (Some (offset, ip)) \<Rightarrow> do {
               k \<leftarrow> on_fs_unit (inode_lock (sb k) ip) k;
               assert_that (ii_nlink (inner_of ip (fs k)) \<ge> 1);
               (vacant, k) \<leftarrow> (if ii_type (inner_of ip (fs k)) = TypeDirectory then on_fs (directory_is_empty (sb k) ip) k else Some (True, k));
               if \<not> vacant then do {
                 k \<leftarrow> on_fs_unit (inode_unlock_put (sb k) ip) k;
                 k \<leftarrow> on_fs_unit (inode_unlock_put (sb k) parent) k;
                 Some (Err NotEmpty, k)
               } else unlink_entry parent ip offset k
             }
           | _ \<Rightarrow> do { k \<leftarrow> on_fs_unit (inode_unlock_put (sb k) parent) k; Some (Err NoEntry, k) }
         }
       }
   }"

definition sys_unlink :: "'b Buddy \<Rightarrow> nat \<Rightarrow> TrapFrame \<Rightarrow> 'b Kernel \<Rightarrow> ((usize, SysError) result \<times> 'b Kernel) option" where
  "sys_unlink B cur tf k = do {
     addr \<leftarrow> get_raw tf 0;
     (path, k) \<leftarrow> fetch_string B cur addr MAXPATH k;
     case path of Err e \<Rightarrow> Some (Err e, k) | Ok path \<Rightarrow> in_op cur (unlink_body cur path) k
   }"

section \<open>Opening and creating\<close>

text \<open>\<open>open\<close> up to the locked inode, then from the locked inode on.\<close>

definition open_inode :: "nat \<Rightarrow> u8 list \<Rightarrow> usize \<Rightarrow> 'b Kernel \<Rightarrow> ((Inode, SysError) result \<times> 'b Kernel) option" where
  "open_inode cur path o_mode k =
     (if o_mode AND CREATE \<noteq> 0 then do {
        (r, k) \<leftarrow> on_fs (inode_create (sb k) (cwd (data k ! cur)) path TypeFile 0 0) k;
        Some (map_err sys_of_fs r, k)
      } else do {
        (r, k) \<leftarrow> on_fs (path_resolve (sb k) (cwd (data k ! cur)) path) k;
        case r of
          Err _ \<Rightarrow> Some (Err NoEntry, k)
        | Ok ip \<Rightarrow> do {
            k \<leftarrow> on_fs_unit (inode_lock (sb k) ip) k;
            if ii_type (inner_of ip (fs k)) = TypeDirectory \<and> o_mode \<noteq> READ_ONLY then do {
              k \<leftarrow> on_fs_unit (inode_unlock_put (sb k) ip) k;
              Some (Err IsDirectory, k)
            } else Some (Ok ip, k)
          }
      })"

definition open_fill :: "nat \<Rightarrow> Inode \<Rightarrow> usize \<Rightarrow> 'b Kernel \<Rightarrow> 'b Kernel option" where
  "open_fill file ip o_mode k = do {
     let inner = inner_of ip (fs k);
     k \<leftarrow> file_lock file k;
     let k = upd_file file (\<lambda>x. if ii_type inner = TypeDevice then x\<lparr>ftype := FDevice ip (ii_major inner)\<rparr> else x\<lparr>ftype := FInode ip, foffset := 0\<rparr>) k;
     let k = upd_file file (\<lambda>x. x\<lparr>readable := (o_mode AND WRITE_ONLY = 0), writeable := (o_mode AND WRITE_ONLY \<noteq> 0 \<or> o_mode AND READ_WRITE \<noteq> 0)\<rparr>) k;
     k \<leftarrow> (if o_mode AND TRUNCATE \<noteq> 0 \<and> ii_type inner = TypeFile then on_fs_unit (inode_trunc (sb k) ip) k else Some k);
     Some (file_unlock file (k\<lparr>fs := inode_unlock ip (fs k)\<rparr>))
   }"

definition open_body :: "nat \<Rightarrow> u8 list \<Rightarrow> usize \<Rightarrow> 'b Kernel \<Rightarrow> ((usize, SysError) result \<times> 'b Kernel) option" where
  "open_body cur path o_mode k = do {
     (r, k) \<leftarrow> open_inode cur path o_mode k;
     case r of
       Err e \<Rightarrow> Some (Err e, k)
     | Ok ip \<Rightarrow>
         if ii_type (inner_of ip (fs k)) = TypeDevice \<and> ii_major (inner_of ip (fs k)) \<ge> word_of_nat NDEV then do {
           k \<leftarrow> on_fs_unit (inode_unlock_put (sb k) ip) k;
           Some (Err NoEntry, k)
         } else
          (case file_alloc k of
             (Err e, k) \<Rightarrow> do { k \<leftarrow> on_fs_unit (inode_unlock_put (sb k) ip) k; Some (Err (sys_of_fs e), k) }
           | (Ok file, k) \<Rightarrow>
              (case fd_alloc cur file k of
                 (Err e, k) \<Rightarrow> do {
                   k \<leftarrow> file_close cur file k;
                   k \<leftarrow> on_fs_unit (inode_unlock_put (sb k) ip) k;
                   Some (Err e, k)
                 }
               | (Ok fd, k) \<Rightarrow> do { k \<leftarrow> open_fill file ip o_mode k; Some (Ok (word_of_nat fd), k) }))
   }"

definition sys_open :: "'b Buddy \<Rightarrow> nat \<Rightarrow> TrapFrame \<Rightarrow> 'b Kernel \<Rightarrow> ((usize, SysError) result \<times> 'b Kernel) option" where
  "sys_open B cur tf k = do {
     o_mode \<leftarrow> get_raw tf 1;
     addr \<leftarrow> get_raw tf 0;
     (path, k) \<leftarrow> fetch_string B cur addr MAXPATH k;
     case path of Err e \<Rightarrow> Some (Err e, k) | Ok path \<Rightarrow> in_op cur (open_body cur path o_mode) k
   }"

text \<open>\<open>mkdir\<close> and \<open>mknod\<close>, which fetch the path inside the transaction.\<close>

definition make_node :: "'b Buddy \<Rightarrow> nat \<Rightarrow> usize \<Rightarrow> InodeType \<Rightarrow> u16 \<Rightarrow> u16 \<Rightarrow> 'b Kernel \<Rightarrow> ((usize, SysError) result \<times> 'b Kernel) option" where
  "make_node B cur addr ty major minor k = do {
     (path, k) \<leftarrow> fetch_string B cur addr MAXPATH k;
     case path of
       Err e \<Rightarrow> Some (Err e, k)
     | Ok path \<Rightarrow> do {
         (r, k) \<leftarrow> on_fs (inode_create (sb k) (cwd (data k ! cur)) path ty major minor) k;
         case r of
           Err e \<Rightarrow> Some (Err (sys_of_fs e), k)
         | Ok ip \<Rightarrow> do { k \<leftarrow> on_fs_unit (inode_unlock_put (sb k) ip) k; Some (Ok 0, k) }
       }
   }"

definition sys_mkdir :: "'b Buddy \<Rightarrow> nat \<Rightarrow> TrapFrame \<Rightarrow> 'b Kernel \<Rightarrow> ((usize, SysError) result \<times> 'b Kernel) option" where
  "sys_mkdir B cur tf = in_op cur (\<lambda>k. do { addr \<leftarrow> get_raw tf 0; make_node B cur addr TypeDirectory 0 0 k })"

definition sys_mknod :: "'b Buddy \<Rightarrow> nat \<Rightarrow> TrapFrame \<Rightarrow> 'b Kernel \<Rightarrow> ((usize, SysError) result \<times> 'b Kernel) option" where
  "sys_mknod B cur tf = in_op cur (\<lambda>k. do {
     major \<leftarrow> get_raw tf 1;
     minor \<leftarrow> get_raw tf 2;
     addr \<leftarrow> get_raw tf 0;
     make_node B cur addr TypeDevice (ucast major) (ucast minor) k
   })"

definition chdir_body :: "'b Buddy \<Rightarrow> nat \<Rightarrow> usize \<Rightarrow> 'b Kernel \<Rightarrow> ((usize, SysError) result \<times> 'b Kernel) option" where
  "chdir_body B cur addr k = do {
     (path, k) \<leftarrow> fetch_string B cur addr MAXPATH k;
     case path of
       Err e \<Rightarrow> Some (Err e, k)
     | Ok path \<Rightarrow> do {
         (r, k) \<leftarrow> on_fs (path_resolve (sb k) (cwd (data k ! cur)) path) k;
         case r of
           Err _ \<Rightarrow> Some (Err NoEntry, k)
         | Ok ip \<Rightarrow> do {
             k \<leftarrow> on_fs_unit (inode_lock (sb k) ip) k;
             if ii_type (inner_of ip (fs k)) \<noteq> TypeDirectory then do {
               k \<leftarrow> on_fs_unit (inode_unlock_put (sb k) ip) k;
               Some (Err NotDirectory, k)
             } else do {
               let old = cwd (data k ! cur);
               let k = upd_data cur (\<lambda>d. d\<lparr>cwd := ip\<rparr>) (k\<lparr>fs := inode_unlock ip (fs k)\<rparr>);
               k \<leftarrow> on_fs_unit (inode_put (sb k) old) k;
               Some (Ok 0, k)
             }
           }
       }
   }"

definition sys_chdir :: "'b Buddy \<Rightarrow> nat \<Rightarrow> TrapFrame \<Rightarrow> 'b Kernel \<Rightarrow> ((usize, SysError) result \<times> 'b Kernel) option" where
  "sys_chdir B cur tf = in_op cur (\<lambda>k. do { addr \<leftarrow> get_raw tf 0; chdir_body B cur addr k })"

definition pwd_body :: "'b Buddy \<Rightarrow> nat \<Rightarrow> TrapFrame \<Rightarrow> 'b Kernel \<Rightarrow> ((usize, SysError) result \<times> 'b Kernel) option" where
  "pwd_body B cur tf k = do {
     let (ip, f) = inode_dup (cwd (data k ! cur)) (fs k);
     (path, k) \<leftarrow> on_fs (make_path (sb k) ip) (k\<lparr>fs := f\<rparr>);
     case path of
       Err e \<Rightarrow> Some (Err (sys_of_fs e), k)
     | Ok path \<Rightarrow> do {
         dst \<leftarrow> get_raw tf 0;
         n \<leftarrow> get_raw tf 1;
         if length path > unat n then Some (Err InvalidArgument, k)
         else do {
           (r, m) \<leftarrow> copy_to_user B (data k ! cur) path dst (mem k);
           Some (if is_ok r then Ok (word_of_nat (length path)) else Err BadAddress, k\<lparr>mem := m\<rparr>)
         }
       }
   }"

definition sys_pwd :: "'b Buddy \<Rightarrow> nat \<Rightarrow> TrapFrame \<Rightarrow> 'b Kernel \<Rightarrow> ((usize, SysError) result \<times> 'b Kernel) option" where
  "sys_pwd B cur tf = in_op cur (pwd_body B cur tf)"

end
