(* ===== verification/Process.thy ===== *)
theory Process
  imports Sysfile
begin

text \<open>
  Processes with their memory and files (\<open>kernel/src/proc.rs\<close>): creation, \<open>fork\<close>, \<open>exit\<close>, \<open>wait\<close>, growth, and the
  first process.  The tables of the scheduler are those of the theories \<open>Sched\<close> and \<open>Procs\<close>.  The
  addresses \<open>trampoline\<close> and \<open>fork_ret\<close> are those of the linker.
\<close>

unbundle bit_operations_syntax

section \<open>Creation and release\<close>

definition create_pagetable :: "'b Buddy \<Rightarrow> usize \<Rightarrow> ProcData \<Rightarrow> 'b Mem \<Rightarrow> ((usize, KernelError) result \<times> 'b Mem) option" where
  "create_pagetable B trampoline d m = do {
     (r, m) \<leftarrow> table_new B m;
     case r of
       Err e \<Rightarrow> Some (Err (KVm e), m)
     | Ok uvm \<Rightarrow> do {
         (r, m) \<leftarrow> map_pages B uvm TRAMPOLINE trampoline PGSIZE (PTE_R OR PTE_X) m;
         case r of
           Err e \<Rightarrow> do { m \<leftarrow> uvm_free B uvm 0 m; Some (Err (KVm e), m) }
         | Ok _ \<Rightarrow> do {
             (tf, _) \<leftarrow> pd_trapframe d;
             (r, m) \<leftarrow> map_pages B uvm TRAPFRAME tf PGSIZE (PTE_R OR PTE_W) m;
             case r of
               Err e \<Rightarrow> do { m \<leftarrow> unmap B uvm TRAMPOLINE 1 False m; m \<leftarrow> uvm_free B uvm 0 m; Some (Err (KVm e), m) }
             | Ok _ \<Rightarrow> Some (Ok uvm, m)
           }
       }
   }"

definition proc_release :: "'b Buddy \<Rightarrow> nat \<Rightarrow> 'b Kernel \<Rightarrow> 'b Kernel option" where
  "proc_release B i k = do {
     let d = data k ! i;
     m \<leftarrow> (case pd_trapframe d of None \<Rightarrow> Some (mem k) | Some (tf, _) \<Rightarrow> box_drop B tf (mem k));
     m \<leftarrow> (case pd_pagetable d of None \<Rightarrow> Some m | Some uvm \<Rightarrow> proc_free B uvm (pd_size d) m);
     Some (upd_data i (\<lambda>d. d\<lparr>pd_trapframe := None, pd_pagetable := None, pd_size := 0, pd_name := []\<rparr>) (k\<lparr>mem := m, sched := free_inner i (sched k)\<rparr>))
   }"

definition proc_alloc :: "'b Buddy \<Rightarrow> usize \<Rightarrow> usize \<Rightarrow> 'b Kernel \<Rightarrow> ((nat, KernelError) result \<times> 'b Kernel) option" where
  "proc_alloc B trampoline fork_ret k =
     (case alloc_inner (sched k) of
        None \<Rightarrow> Some (Err KOutOfProc, k)
      | Some (i, s) \<Rightarrow> do {
          let k = k\<lparr>sched := s\<rparr>;
          (r, m) \<leftarrow> box_new B zeroed_page (mem k);
          let k = k\<lparr>mem := m\<rparr>;
          case r of
            None \<Rightarrow> do { k \<leftarrow> proc_release B i k; Some (Err KAlloc, k) }
          | Some tf \<Rightarrow> do {
              let k = upd_data i (\<lambda>d. d\<lparr>pd_trapframe := Some (tf, trapframe_zeroed)\<rparr>) k;
              (r, m) \<leftarrow> create_pagetable B trampoline (data k ! i) (mem k);
              let k = k\<lparr>mem := m\<rparr>;
              case r of
                Err e \<Rightarrow> do { k \<leftarrow> proc_release B i k; Some (Err e, k) }
              | Ok uvm \<Rightarrow>
                  Some (Ok i, upd_data i (\<lambda>d. d\<lparr>pd_pagetable := Some uvm,
                    pd_context := (context_zero (pd_context d))\<lparr>ra := fork_ret, sp := pd_kstack d + NKSTACK_PAGES * PGSIZE\<rparr>\<rparr>) k)
            }
        })"

definition proc_init :: "'b Kernel \<Rightarrow> 'b Kernel" where
  "proc_init k = k\<lparr>data := map (\<lambda>i. (data k ! i)\<lparr>pd_kstack := kstack (word_of_nat i)\<rparr>) [0..<length (data k)]\<rparr>"

definition user_init :: "'b Buddy \<Rightarrow> usize \<Rightarrow> usize \<Rightarrow> 'b Kernel \<Rightarrow> 'b Kernel option" where
  "user_init B trampoline fork_ret k = do {
     (r, k) \<leftarrow> proc_alloc B trampoline fork_ret k;
     case r of
       Err _ \<Rightarrow> None
     | Ok i \<Rightarrow> do {
         let k = k\<lparr>sched := (sched k)\<lparr>init_proc := (case init_proc (sched k) of None \<Rightarrow> Some i | Some j \<Rightarrow> Some j)\<rparr>\<rparr>;
         (r, k) \<leftarrow> on_fs (path_resolve (sb k) (cwd (data k ! i)) [slash]) k;
         case r of
           Err _ \<Rightarrow> None
         | Ok root \<Rightarrow> Some (upd_data i (\<lambda>d. d\<lparr>cwd := root\<rparr>) (k\<lparr>sched := upd_proc i (\<lambda>p. p\<lparr>p_state := Runnable\<rparr>) (sched k)\<rparr>))
       }
   }"

section \<open>Memory of a process\<close>

definition grow :: "'b Buddy \<Rightarrow> nat \<Rightarrow> usize \<Rightarrow> bool \<Rightarrow> 'b Kernel \<Rightarrow> ((usize, KernelError) result \<times> 'b Kernel) option" where
  "grow B cur n lazy k = do {
     let d = data k ! cur;
     let size = pd_size d;
     (r, m) \<leftarrow> (if sint n > 0 then
         if lazy then Some (Ok (size + n), mem k)
         else do { uvm \<leftarrow> pd_pagetable d; (r, m) \<leftarrow> uvm_alloc B uvm size (size + n) PTE_W (mem k); Some (map_err KVm r, m) }
       else if sint n < 0 then
         if - n > size then Some (Err KInvalidArgument, mem k)
         else do { uvm \<leftarrow> pd_pagetable d; (size, m) \<leftarrow> uvm_dealloc B uvm size (size - (- n)) (mem k); Some (Ok size, m) }
       else Some (Ok size, mem k));
     let k = k\<lparr>mem := m\<rparr>;
     Some (r, case r of Ok size \<Rightarrow> upd_data cur (\<lambda>d. d\<lparr>pd_size := size\<rparr>) k | Err _ \<Rightarrow> k)
   }"

section \<open>Fork, exit and wait\<close>

definition fork_file :: "nat \<Rightarrow> nat \<Rightarrow> nat \<Rightarrow> 'b Kernel \<Rightarrow> 'b Kernel option" where
  "fork_file parent new fd k =
     (case open_files (data k ! parent) ! fd of
        None \<Rightarrow> Some k
      | Some file \<Rightarrow> do { k \<leftarrow> file_dup file k; Some (set_open new fd (Some file) k) })"

definition fork :: "'b Buddy \<Rightarrow> usize \<Rightarrow> usize \<Rightarrow> nat \<Rightarrow> 'b Kernel \<Rightarrow> ((usize, KernelError) result \<times> 'b Kernel) option" where
  "fork B trampoline fork_ret cur k = do {
     let parent_pass = p_pass (procs (sched k) ! cur);
     (r, k) \<leftarrow> proc_alloc B trampoline fork_ret k;
     case r of
       Err e \<Rightarrow> Some (Err e, k)
     | Ok new \<Rightarrow> do {
         uvm \<leftarrow> pd_pagetable (data k ! cur);
         new_uvm \<leftarrow> pd_pagetable (data k ! new);
         (r, m) \<leftarrow> uvm_copy B uvm new_uvm (pd_size (data k ! cur)) (mem k);
         let k = k\<lparr>mem := m\<rparr>;
         case r of
           Err e \<Rightarrow> do { k \<leftarrow> proc_release B new k; Some (Err (KVm e), k) }
         | Ok _ \<Rightarrow> do {
             let k = upd_data new (\<lambda>d. d\<lparr>pd_size := pd_size (data k ! cur)\<rparr>) k;
             (_, tf) \<leftarrow> pd_trapframe (data k ! cur);
             let k = set_trapframe new (\<lambda>_. tf\<lparr>a0 := 0\<rparr>) k;
             k \<leftarrow> foldO (fork_file cur new) [0..<NOFILE] k;
             let (dir, f) = inode_dup (cwd (data k ! cur)) (fs k);
             let k = upd_data new (\<lambda>d. d\<lparr>cwd := dir, pd_name := pd_name (data k ! cur)\<rparr>) (k\<lparr>fs := f\<rparr>);
             let pid = p_pid (procs (sched k) ! new);
             Some (Ok pid, k\<lparr>sched := fork_publish cur parent_pass new (sched k)\<rparr>)
           }
       }
   }"

definition exit_file :: "nat \<Rightarrow> nat \<Rightarrow> 'b Kernel \<Rightarrow> 'b Kernel option" where
  "exit_file cur fd k =
     (case open_files (data k ! cur) ! fd of
        None \<Rightarrow> Some k
      | Some file \<Rightarrow> file_close cur file (set_open cur fd None k))"

definition exit_proc :: "nat \<Rightarrow> usize \<Rightarrow> 'b Kernel \<Rightarrow> 'b Kernel option" where
  "exit_proc cur status k = do {
     init \<leftarrow> init_proc (sched k);
     assert_that (cur \<noteq> init);
     k \<leftarrow> foldO (exit_file cur) [0..<NOFILE] k;
     k \<leftarrow> close_inode cur (cwd (data k ! cur)) k;
     s \<leftarrow> exit_inner cur status (sched k);
     Some (k\<lparr>sched := s\<rparr>)
   }"

text \<open>The outcome of \<open>wait\<close>: the pid of a child that exited, no child, or sleep.\<close>

datatype wait_call = Waited usize | NoWait | WaitSleep

definition wait_proc :: "'b Buddy \<Rightarrow> nat \<Rightarrow> usize \<Rightarrow> 'b Kernel \<Rightarrow> (wait_call \<times> 'b Kernel) option" where
  "wait_proc B cur addr k =
     (case wait_scan_children cur (sched k) of
        NoChild \<Rightarrow> Some (NoWait, k)
      | ChildAlive \<Rightarrow> Some (WaitSleep, k\<lparr>sched := sleep_enter cur (ChProc cur) (sched k)\<rparr>)
      | Reap i \<Rightarrow> do {
          let inner = procs (sched k) ! i;
          m \<leftarrow> (if addr \<noteq> 0 then do {
              (r, m) \<leftarrow> copy_to_user B (data k ! cur) (usize_bytes (p_xstate inner)) addr (mem k);
              assert_that (is_ok r);
              Some m
            } else Some (mem k));
          k \<leftarrow> proc_release B i (k\<lparr>mem := m, sched := (sched k)\<lparr>parents := (parents (sched k))[i := None]\<rparr>\<rparr>);
          Some (Waited (p_pid inner), k)
        })"

definition wait_resume :: "'b Buddy \<Rightarrow> nat \<Rightarrow> usize \<Rightarrow> 'b Kernel \<Rightarrow> (wait_call \<times> 'b Kernel) option" where
  "wait_resume B cur addr k = wait_proc B cur addr (k\<lparr>sched := sleep_exit cur (sched k)\<rparr>)"

definition get_pgdir :: "ProcData \<Rightarrow> usize option" where
  "get_pgdir d = pd_pagetable d"

end
