(* ===== verification/Exec.thy ===== *)
theory Exec
  imports Process
begin

text \<open>
  Program execution (\<open>kernel/src/exec.rs\<close>, \<open>load_elf_segment\<close> of \<open>kernel/src/vm.rs\<close>): reading the ELF file,
  loading its segments into a new page table, building the stack with the arguments, and committing
  to the new image.
\<close>

unbundle bit_operations_syntax

section \<open>ELF headers\<close>

definition rd64 :: "u8 list \<Rightarrow> nat \<Rightarrow> u64" where
  "rd64 d off = word_of_nat (of_le (slice d off 8))"

definition ELF_MAGIC :: u32 where "ELF_MAGIC = 0x464C457F"
definition ELF_HEADER :: nat where "ELF_HEADER = 64"
definition PROGRAM_HEADER :: nat where "PROGRAM_HEADER = 56"
definition ELF_PROG_LOAD :: u32 where "ELF_PROG_LOAD = 1"

record ElfHeader =
  e_magic :: u32
  e_elf :: "u8 list"
  e_type :: u16
  e_machine :: u16
  e_version :: u32
  e_entry :: u64
  e_phoff :: u64
  e_shoff :: u64
  e_flags :: u32
  e_ehsize :: u16
  e_phentsize :: u16
  e_phnum :: u16
  e_shentsize :: u16
  e_shnum :: u16
  e_shstrndx :: u16

definition elf_from_bytes :: "u8 list \<Rightarrow> ElfHeader" where
  "elf_from_bytes b = \<lparr>e_magic = rd32 b 0, e_elf = slice b 4 12, e_type = rd16 b 16, e_machine = rd16 b 18, e_version = rd32 b 20,
     e_entry = rd64 b 24, e_phoff = rd64 b 32, e_shoff = rd64 b 40, e_flags = rd32 b 48, e_ehsize = rd16 b 52, e_phentsize = rd16 b 54,
     e_phnum = rd16 b 56, e_shentsize = rd16 b 58, e_shnum = rd16 b 60, e_shstrndx = rd16 b 62\<rparr>"

record ProgramHeader =
  ph_type :: u32
  ph_flags :: u32
  ph_offset :: u64
  ph_vaddr :: u64
  ph_paddr :: u64
  ph_filesz :: u64
  ph_memsz :: u64
  ph_align :: u64

definition ph_from_bytes :: "u8 list \<Rightarrow> ProgramHeader" where
  "ph_from_bytes b = \<lparr>ph_type = rd32 b 0, ph_flags = rd32 b 4, ph_offset = rd64 b 8, ph_vaddr = rd64 b 16, ph_paddr = rd64 b 24,
     ph_filesz = rd64 b 32, ph_memsz = rd64 b 40, ph_align = rd64 b 48\<rparr>"

definition get_perms :: "ProgramHeader \<Rightarrow> usize" where
  "get_perms ph =
     (let perm = (if ph_flags ph AND 0x1 \<noteq> 0 then PTE_X else 0)
      in if ph_flags ph AND 0x2 \<noteq> 0 then perm OR PTE_W else perm)"

section \<open>Loading\<close>

definition load_page :: "Inode \<Rightarrow> usize \<Rightarrow> u32 \<Rightarrow> nat \<Rightarrow> 'b Kernel \<Rightarrow> (bool \<times> 'b Kernel) option" where
  "load_page ip pa offset n k = do {
     (r, bytes, f) \<leftarrow> inode_read (sb k) kernel_sink ip offset (word_of_nat n) [] (fs k);
     m \<leftarrow> wr_page pa 0 bytes (mem k);
     Some (case r of Ok read \<Rightarrow> unat read = n | Err _ \<Rightarrow> False, k\<lparr>fs := f, mem := m\<rparr>)
   }"

text \<open>The loop of \<open>load_elf_segment\<close> over the page offsets of a segment of \<open>sz\<close> bytes.\<close>

fun load_pages :: "'b Buddy \<Rightarrow> Inode \<Rightarrow> usize \<Rightarrow> usize \<Rightarrow> u32 \<Rightarrow> nat \<Rightarrow> nat list \<Rightarrow> 'b Kernel \<Rightarrow> ((unit, VmError) result \<times> 'b Kernel) option" where
  "load_pages B ip uvm va offset sz [] k = Some (Ok (), k)"
| "load_pages B ip uvm va offset sz (i # is) k = do {
     r \<leftarrow> walk_addr B uvm (va + word_of_nat i) (mem k);
     case r of
       Err e \<Rightarrow> Some (Err e, k)
     | Ok pa \<Rightarrow> do {
         (good, k) \<leftarrow> load_page ip pa (offset + word_of_nat i) (min (sz - i) 4096) k;
         if good then load_pages B ip uvm va offset sz is k else Some (Err VmFs, k)
       }
   }"

definition load_elf_segment :: "'b Buddy \<Rightarrow> Inode \<Rightarrow> usize \<Rightarrow> usize \<Rightarrow> u32 \<Rightarrow> usize \<Rightarrow> 'b Kernel \<Rightarrow> ((unit, VmError) result \<times> 'b Kernel) option" where
  "load_elf_segment B ip uvm va offset sz k = load_pages B ip uvm va offset (unat sz) (step_by 0 (unat sz) 4096) k"

definition read_kernel :: "Inode \<Rightarrow> u32 \<Rightarrow> u32 \<Rightarrow> 'b Kernel \<Rightarrow> ((u32, FsError) result \<times> u8 list \<times> 'b Kernel) option" where
  "read_kernel ip offset n k = do { (r, bytes, f) \<leftarrow> inode_read (sb k) kernel_sink ip offset n [] (fs k); Some (r, bytes, k\<lparr>fs := f\<rparr>) }"

definition on_mem :: "('b Mem \<Rightarrow> ('r \<times> 'b Mem) option) \<Rightarrow> 'b Kernel \<Rightarrow> ('r \<times> 'b Kernel) option" where
  "on_mem op k = do { (r, m) \<leftarrow> op (mem k); Some (r, k\<lparr>mem := m\<rparr>) }"

text \<open>Giving up: the new page table is freed in most cases, and the inode is put back.\<close>

definition exec_abort :: "'b Buddy \<Rightarrow> usize \<Rightarrow> usize \<Rightarrow> Inode \<Rightarrow> ExecError \<Rightarrow> 'b Kernel \<Rightarrow> (('r, ExecError) result \<times> 'b Kernel) option" where
  "exec_abort B uvm sz ip e k = do {
     m \<leftarrow> proc_free B uvm sz (mem k);
     k \<leftarrow> on_fs_unit (inode_unlock_put (sb k) ip) (k\<lparr>mem := m\<rparr>);
     Some (Err e, k)
   }"

text \<open>The loop over the program headers; a header that cannot be read leaks the new page table.\<close>

fun load_segments :: "'b Buddy \<Rightarrow> Inode \<Rightarrow> usize \<Rightarrow> nat \<Rightarrow> u64 \<Rightarrow> usize \<Rightarrow> 'b Kernel \<Rightarrow> ((usize, ExecError) result \<times> 'b Kernel) option" where
  "load_segments B ip uvm 0 offset sz k = Some (Ok sz, k)"
| "load_segments B ip uvm (Suc n) offset sz k = do {
     (r, bytes, k) \<leftarrow> read_kernel ip (ucast offset) (word_of_nat PROGRAM_HEADER) k;
     if r \<noteq> Ok (word_of_nat PROGRAM_HEADER) then do {
       k \<leftarrow> on_fs_unit (inode_unlock_put (sb k) ip) k;
       Some (Err ExecMemory, k)
     } else do {
       let ph = ph_from_bytes bytes;
       let offset = offset + word_of_nat PROGRAM_HEADER;
       if ph_type ph \<noteq> ELF_PROG_LOAD then load_segments B ip uvm n offset sz k
       else if ph_memsz ph < ph_filesz ph \<or> checked_add (ph_vaddr ph) (ph_memsz ph) = None \<or> ph_vaddr ph mod PGSIZE \<noteq> 0
       then exec_abort B uvm sz ip ExecHeader k
       else do {
         (r, k) \<leftarrow> on_mem (uvm_alloc B uvm sz (ph_vaddr ph + ph_memsz ph) (get_perms ph)) k;
         case r of
           Err _ \<Rightarrow> exec_abort B uvm sz ip ExecAlloc k
         | Ok sz \<Rightarrow> do {
             (r, k) \<leftarrow> load_elf_segment B ip uvm (ph_vaddr ph) (ucast (ph_offset ph)) (ph_filesz ph) k;
             if \<not> is_ok r then exec_abort B uvm sz ip ExecMemory k
             else load_segments B ip uvm n offset sz k
           }
       }
     }
   }"

text \<open>The part of \<open>exec\<close> inside the transaction: the new page table, its size and the entry point.\<close>

definition exec_load :: "'b Buddy \<Rightarrow> usize \<Rightarrow> nat \<Rightarrow> u8 list \<Rightarrow> 'b Kernel \<Rightarrow> ((usize \<times> usize \<times> usize, ExecError) result \<times> 'b Kernel) option" where
  "exec_load B trampoline cur path k = do {
     (r, k) \<leftarrow> on_fs (path_resolve (sb k) (cwd (data k ! cur)) path) k;
     case r of
       Err _ \<Rightarrow> Some (Err ExecRead, k)
     | Ok ip \<Rightarrow> do {
         k \<leftarrow> on_fs_unit (inode_lock (sb k) ip) k;
         (r, bytes, k) \<leftarrow> read_kernel ip 0 (word_of_nat ELF_HEADER) k;
         if r \<noteq> Ok (word_of_nat ELF_HEADER) then do {
           k \<leftarrow> on_fs_unit (inode_unlock_put (sb k) ip) k;
           Some (Err ExecRead, k)
         } else do {
           let elf = elf_from_bytes bytes;
           if e_magic elf \<noteq> ELF_MAGIC then do {
             k \<leftarrow> on_fs_unit (inode_unlock_put (sb k) ip) k;
             Some (Err ExecElf, k)
           } else do {
             (r, k) \<leftarrow> on_mem (create_pagetable B trampoline (data k ! cur)) k;
             case r of
               Err _ \<Rightarrow> do { k \<leftarrow> on_fs_unit (inode_unlock_put (sb k) ip) k; Some (Err ExecAlloc, k) }
             | Ok uvm \<Rightarrow> do {
                 (r, k) \<leftarrow> load_segments B ip uvm (unat (e_phnum elf)) (e_phoff elf) 0 k;
                 case r of
                   Err e \<Rightarrow> Some (Err e, k)
                 | Ok sz \<Rightarrow> do {
                     k \<leftarrow> on_fs_unit (inode_unlock_put (sb k) ip) k;
                     Some (Ok (uvm, sz, e_entry elf), k)
                   }
               }
           }
         }
       }
   }"

section \<open>The stack\<close>

text \<open>
  The loop that copies the argument strings; it yields the stack pointer and the addresses of the
  arguments.  \<open>cto\<close> copies into the new image.
\<close>

fun push_args :: "(u8 list \<Rightarrow> usize \<Rightarrow> 'm \<Rightarrow> ((unit, VmError) result \<times> 'm) option) \<Rightarrow> usize \<Rightarrow> u8 list list \<Rightarrow> usize \<Rightarrow> usize list \<Rightarrow> 'm \<Rightarrow>
    ((usize \<times> usize list, ExecError) result \<times> 'm) option" where
  "push_args cto stackbase [] stk ustack m = Some (Ok (stk, ustack), m)"
| "push_args cto stackbase (arg # args) stk ustack m =
     (if length ustack \<ge> MAXARG then Some (Err ExecMemory, m)
      else do {
        let stk = stk - word_of_nat (length arg + 1);
        let stk = stk - stk mod 16;
        if stk < stackbase then Some (Err ExecMemory, m)
        else do {
          (r, m) \<leftarrow> cto arg stk m;
          if \<not> is_ok r then Some (Err ExecMemory, m)
          else do {
            (r, m) \<leftarrow> cto [0] (stk + word_of_nat (length arg)) m;
            if \<not> is_ok r then Some (Err ExecMemory, m)
            else push_args cto stackbase args stk (ustack @ [stk]) m
          }
        }
      })"

text \<open>The strings, then the array of their addresses with a null at the end; the array has \<open>MAXARG\<close> slots.\<close>

definition build_stack :: "(u8 list \<Rightarrow> usize \<Rightarrow> 'm \<Rightarrow> ((unit, VmError) result \<times> 'm) option) \<Rightarrow> usize \<Rightarrow> u8 list list \<Rightarrow> 'm \<Rightarrow> ((usize \<times> nat, ExecError) result \<times> 'm) option" where
  "build_stack cto sz argv m = do {
     let stackbase = sz - USERSTACK * PGSIZE;
     (r, m) \<leftarrow> push_args cto stackbase argv sz [] m;
     case r of
       Err e \<Rightarrow> Some (Err e, m)
     | Ok (stk, ustack) \<Rightarrow> do {
         let argc = length ustack;
         assert_that (argc < MAXARG);
         let stk = stk - word_of_nat ((argc + 1) * 8);
         let stk = stk - stk mod 16;
         if stk < stackbase then Some (Err ExecMemory, m)
         else do {
           (r, m) \<leftarrow> cto (concat (map usize_bytes (ustack @ [0]))) stk m;
           Some (if is_ok r then Ok (stk, argc) else Err ExecMemory, m)
         }
       }
   }"

text \<open>What follows the last slash of a path.\<close>

definition base_name :: "u8 list \<Rightarrow> u8 list" where
  "base_name path = rev (takeWhile (\<lambda>c. c \<noteq> slash) (rev path))"

section \<open>exec\<close>

definition exec_fail :: "'b Buddy \<Rightarrow> usize \<Rightarrow> usize \<Rightarrow> ExecError \<Rightarrow> 'b Kernel \<Rightarrow> ((usize, ExecError) result \<times> 'b Kernel) option" where
  "exec_fail B uvm sz e k = do { m \<leftarrow> proc_free B uvm sz (mem k); Some (Err e, k\<lparr>mem := m\<rparr>) }"

definition exec_commit :: "'b Buddy \<Rightarrow> nat \<Rightarrow> u8 list \<Rightarrow> usize \<Rightarrow> usize \<Rightarrow> usize \<Rightarrow> usize \<Rightarrow> 'b Kernel \<Rightarrow> 'b Kernel option" where
  "exec_commit B cur path uvm sz entry stk k = do {
     let old_size = pd_size (data k ! cur);
     old_uvm \<leftarrow> pd_pagetable (data k ! cur);
     let k = upd_data cur (\<lambda>d. d\<lparr>pd_name := base_name path, pd_pagetable := Some uvm, pd_size := sz\<rparr>) k;
     _ \<leftarrow> pd_trapframe (data k ! cur);
     let k = set_trapframe cur (\<lambda>tf. tf\<lparr>a1 := stk, epc := entry, tf_sp := stk\<rparr>) k;
     m \<leftarrow> proc_free B old_uvm old_size (mem k);
     Some (k\<lparr>mem := m\<rparr>)
   }"

definition exec :: "'b Buddy \<Rightarrow> usize \<Rightarrow> nat \<Rightarrow> u8 list \<Rightarrow> u8 list list \<Rightarrow> 'b Kernel \<Rightarrow> ((usize, ExecError) result \<times> 'b Kernel) option" where
  "exec B trampoline cur path argv k = do {
     (r, k) \<leftarrow> in_op cur (exec_load B trampoline cur path) k;
     case r of
       Err e \<Rightarrow> Some (Err e, k)
     | Ok (uvm, sz, entry) \<Rightarrow> do {
         let sz = pg_round_up sz;
         (r, k) \<leftarrow> on_mem (uvm_alloc B uvm sz (sz + (USERSTACK + 1) * PGSIZE) PTE_W) k;
         case r of
           Err _ \<Rightarrow> exec_fail B uvm sz ExecAlloc k
         | Ok sz \<Rightarrow> do {
             (r, k) \<leftarrow> on_mem (uvm_clear B uvm (sz - (USERSTACK + 1) * PGSIZE)) k;
             if \<not> is_ok r then exec_fail B uvm sz ExecMemory k
             else do {
               (r, k) \<leftarrow> on_mem (build_stack (copy_to B uvm (pd_size (data k ! cur))) sz argv) k;
               case r of
                 Err e \<Rightarrow> exec_fail B uvm sz e k
               | Ok (stk, argc) \<Rightarrow> do {
                   k \<leftarrow> exec_commit B cur path uvm sz entry stk k;
                   Some (Ok (word_of_nat argc), k)
                 }
             }
           }
       }
   }"

text \<open>\<open>sys_exec\<close>: the addresses of the arguments are fetched until a null, at most \<open>MAXARG\<close> of them.\<close>

fun fetch_argv :: "'b Buddy \<Rightarrow> nat \<Rightarrow> usize \<Rightarrow> nat \<Rightarrow> u8 list list \<Rightarrow> 'b Kernel \<Rightarrow> ((u8 list list, SysError) result \<times> 'b Kernel) option" where
  "fetch_argv B cur uargv 0 argv k = Some (Ok argv, k)"
| "fetch_argv B cur uargv (Suc n) argv k = do {
     (r, k) \<leftarrow> on_mem (copy_from_user B (data k ! cur) uargv 8) k;
     case r of
       Err _ \<Rightarrow> Some (Err BadAddress, k)
     | Ok b \<Rightarrow>
         if rd64 b 0 = 0 then Some (Ok argv, k)
         else do {
           (s, k) \<leftarrow> fetch_string B cur (rd64 b 0) 4096 k;
           case s of Err e \<Rightarrow> Some (Err e, k) | Ok s \<Rightarrow> fetch_argv B cur (uargv + 8) n (argv @ [s]) k
         }
   }"

definition sys_exec :: "'b Buddy \<Rightarrow> usize \<Rightarrow> nat \<Rightarrow> TrapFrame \<Rightarrow> 'b Kernel \<Rightarrow> ((usize, SysError) result \<times> 'b Kernel) option" where
  "sys_exec B trampoline cur tf k = do {
     uargv \<leftarrow> get_raw tf 1;
     addr \<leftarrow> get_raw tf 0;
     (path, k) \<leftarrow> fetch_string B cur addr MAXPATH k;
     case path of
       Err e \<Rightarrow> Some (Err e, k)
     | Ok path \<Rightarrow> do {
         (argv, k) \<leftarrow> fetch_argv B cur uargv MAXARG [] k;
         case argv of
           Err e \<Rightarrow> Some (Err e, k)
         | Ok argv \<Rightarrow> do {
             (r, k) \<leftarrow> exec B trampoline cur path argv k;
             Some (map_err (\<lambda>_. InvalidExecutable) r, k)
           }
       }
   }"

text \<open>
  The first run of a new process; the very first of all initialises the file system and starts
  \<open>/init\<close>.
\<close>

definition fork_ret_first :: "'b Buddy \<Rightarrow> usize \<Rightarrow> nat \<Rightarrow> 'b Kernel \<Rightarrow> 'b Kernel option" where
  "fork_ret_first B trampoline cur k = do {
     (sblock, f, s) \<leftarrow> fs_init ROOTDEV cur (fs k, sched k);
     let k = k\<lparr>sb := sblock, fs := f, sched := s\<rparr>;
     (r, k) \<leftarrow> exec B trampoline cur [47, 105, 110, 105, 116] [[105, 110, 105, 116]] k;
     case r of Err _ \<Rightarrow> None | Ok argc \<Rightarrow> Some (set_trapframe cur (\<lambda>tf. tf\<lparr>a0 := argc\<rparr>) k)
   }"

end
