(* ===== verification/Syscalls.thy ===== *)
theory Syscalls
  imports Exec
begin

text \<open>
  System calls on processes (\<open>kernel/src/sysproc.rs\<close>) and the dispatch of all system calls (\<open>syscall\<close> of
  \<open>kernel/src/syscall.rs\<close>).  What is fixed outside the kernel's Rust code is collected in \<open>Env\<close>: the page allocator,
  two linker addresses, the layout of \<open>Stat\<close>, and whether the heap has room for a pipe.
\<close>

unbundle bit_operations_syntax

section \<open>Outcomes\<close>

record 'b Env =
  buddy :: "'b Buddy"
  trampoline_at :: usize
  fork_ret_at :: usize
  stat_layout :: "Stat \<Rightarrow> u8 list"
  pipe_heap :: bool

text \<open>
  A call returns, waits (for a file, for a child, or for the clock since a number of ticks), or never returns
  because the process has exited or the machine is off.
\<close>

datatype outcome =
    SReturn "(usize, SysError) result"
  | SFile fcall
  | SChild
  | STicks usize
  | SGone

type_synonym 'b step_result = "(outcome \<times> 'b Kernel) option"

definition returns :: "((usize, SysError) result \<times> 'b Kernel) option \<Rightarrow> 'b step_result" where
  "returns r = map_option (map_prod SReturn (\<lambda>k. k)) r"

definition file_outcome :: "(fcall \<times> 'b Kernel) option \<Rightarrow> 'b step_result" where
  "file_outcome r = map_option (map_prod (\<lambda>c. case c of FDone v \<Rightarrow> SReturn v | _ \<Rightarrow> SFile c) (\<lambda>k. k)) r"

section \<open>Calls on processes\<close>

definition sys_exit :: "nat \<Rightarrow> TrapFrame \<Rightarrow> 'b Kernel \<Rightarrow> 'b step_result" where
  "sys_exit cur tf k = do {
     n \<leftarrow> get_raw tf 0;
     k \<leftarrow> exit_proc cur n k;
     Some (SGone, k)
   }"

definition sys_getpid :: "nat \<Rightarrow> 'b Kernel \<Rightarrow> (usize, SysError) result" where
  "sys_getpid cur k = Ok (p_pid (procs (sched k) ! cur))"

definition sys_fork :: "'b Env \<Rightarrow> nat \<Rightarrow> 'b Kernel \<Rightarrow> ((usize, SysError) result \<times> 'b Kernel) option" where
  "sys_fork E cur k = do {
     (r, k) \<leftarrow> fork (buddy E) (trampoline_at E) (fork_ret_at E) cur k;
     Some (case r of Ok pid \<Rightarrow> Ok pid | Err _ \<Rightarrow> Err ResourceUnavailable, k)
   }"

definition wait_outcome :: "(wait_call \<times> 'b Kernel) option \<Rightarrow> 'b step_result" where
  "wait_outcome r =
     map_option (map_prod (\<lambda>c. case c of Waited pid \<Rightarrow> SReturn (Ok pid) | NoWait \<Rightarrow> SReturn (Err NoChildren) | WaitSleep \<Rightarrow> SChild) (\<lambda>k. k)) r"

definition sys_wait :: "'b Env \<Rightarrow> nat \<Rightarrow> TrapFrame \<Rightarrow> 'b Kernel \<Rightarrow> 'b step_result" where
  "sys_wait E cur tf k = do {
     addr \<leftarrow> get_raw tf 0;
     wait_outcome (wait_proc (buddy E) cur addr k)
   }"

definition sys_sbrk :: "'b Env \<Rightarrow> nat \<Rightarrow> TrapFrame \<Rightarrow> 'b Kernel \<Rightarrow> ((usize, SysError) result \<times> 'b Kernel) option" where
  "sys_sbrk E cur tf k = do {
     n \<leftarrow> get_raw tf 0;
     let addr = pd_size (data k ! cur);
     (r, k) \<leftarrow> grow (buddy E) cur n (sint n \<ge> 0) k;
     Some (case r of Ok _ \<Rightarrow> Ok addr | Err _ \<Rightarrow> Err OutOfMemory, k)
   }"

definition sleep_loop :: "nat \<Rightarrow> usize \<Rightarrow> usize \<Rightarrow> 'b Kernel \<Rightarrow> outcome \<times> 'b Kernel" where
  "sleep_loop cur ticks0 duration k =
     (if ticks k - ticks0 < duration then
        if is_killed cur (sched k) then (SReturn (Err Interrupted), k)
        else (STicks ticks0, k\<lparr>sched := sleep_enter cur ChTicks (sched k)\<rparr>)
      else (SReturn (Ok 0), k))"

definition sleep_duration :: "usize \<Rightarrow> usize" where
  "sleep_duration n = (if sint n < 0 then 0 else n)"

definition sys_sleep :: "nat \<Rightarrow> TrapFrame \<Rightarrow> 'b Kernel \<Rightarrow> 'b step_result" where
  "sys_sleep cur tf k = do {
     n \<leftarrow> get_raw tf 0;
     Some (sleep_loop cur (ticks k) (sleep_duration n) k)
   }"

definition sys_sleep_resume :: "nat \<Rightarrow> usize \<Rightarrow> usize \<Rightarrow> 'b Kernel \<Rightarrow> outcome \<times> 'b Kernel" where
  "sys_sleep_resume cur ticks0 duration k = sleep_loop cur ticks0 duration (k\<lparr>sched := sleep_exit cur (sched k)\<rparr>)"

definition sys_kill :: "TrapFrame \<Rightarrow> 'b Kernel \<Rightarrow> ((usize, SysError) result \<times> 'b Kernel) option" where
  "sys_kill tf k = do {
     pid \<leftarrow> get_raw tf 0;
     let (found, s) = kill pid (sched k);
     Some (if found then Ok 0 else Err NoProcess, k\<lparr>sched := s\<rparr>)
   }"

definition sys_uptime :: "'b Kernel \<Rightarrow> (usize, SysError) result" where
  "sys_uptime k = Ok (ticks k)"

definition power_code :: "u32 \<Rightarrow> u32" where
  "power_code c = (if c = 0 then 0x5555 else push_bit 16 c OR 0x3333)"

definition sys_poweroff :: "TrapFrame \<Rightarrow> 'b Kernel \<Rightarrow> 'b step_result" where
  "sys_poweroff tf k = do {
     n \<leftarrow> get_raw tf 0;
     Some (SGone, k\<lparr>power := Some (power_code (ucast n))\<rparr>)
   }"

definition sys_my_getpid :: "nat \<Rightarrow> 'b Kernel \<Rightarrow> (usize, SysError) result" where
  "sys_my_getpid cur k = Ok (p_pid (procs (sched k) ! cur))"

definition sys_check_proc :: "TrapFrame \<Rightarrow> 'b Kernel \<Rightarrow> (usize, SysError) result option" where
  "sys_check_proc tf k = do {
     pid \<leftarrow> get_raw tf 0;
     Some (if pid_exists pid (sched k) then Ok 0 else Ok (- 1))
   }"

definition do_set_msg :: "'b Env \<Rightarrow> nat \<Rightarrow> TrapFrame \<Rightarrow> 'b Kernel \<Rightarrow> ((usize, SysError) result \<times> 'b Kernel) option" where
  "do_set_msg E cur tf k = do {
     src \<leftarrow> get_raw tf 0;
     len \<leftarrow> get_raw tf 1;
     (r, mb, m) \<leftarrow> sys_set_msg (copy_from_user (buddy E) (data k ! cur)) src len (msg k) (mem k);
     Some (r, k\<lparr>msg := mb, mem := m\<rparr>)
   }"

definition do_get_msg :: "'b Env \<Rightarrow> nat \<Rightarrow> TrapFrame \<Rightarrow> 'b Kernel \<Rightarrow> ((usize, SysError) result \<times> 'b Kernel) option" where
  "do_get_msg E cur tf k = do {
     dst \<leftarrow> get_raw tf 0;
     len \<leftarrow> get_raw tf 1;
     (r, m) \<leftarrow> sys_get_msg (copy_to_user (buddy E) (data k ! cur)) dst len (msg k) (mem k);
     Some (r, k\<lparr>mem := m\<rparr>)
   }"

definition sys_get_pgdir :: "nat \<Rightarrow> 'b Kernel \<Rightarrow> (usize, SysError) result option" where
  "sys_get_pgdir cur k = map_option Ok (get_pgdir (data k ! cur))"

definition sys_settickets :: "nat \<Rightarrow> TrapFrame \<Rightarrow> 'b Kernel \<Rightarrow> ((usize, SysError) result \<times> 'b Kernel) option" where
  "sys_settickets cur tf k = do {
     tickets \<leftarrow> get_raw tf 0;
     let (r, s) = set_tickets cur tickets (sched k);
     Some (if is_ok r then Ok 0 else Err InvalidArgument, k\<lparr>sched := s\<rparr>)
   }"

text \<open>\<open>PStat\<close> is \<open>repr(C)\<close>: six words one after the other.\<close>

definition pstat_bytes :: "PStat \<Rightarrow> u8 list" where
  "pstat_bytes p = concat (map usize_bytes [ps_inuse p, ps_pid p, ps_tickets p, ps_pass p, ps_stride p, ps_n_schedule p])"

definition PSTAT :: usize where "PSTAT = 48"

fun getpinfo_loop :: "(u8 list \<Rightarrow> usize \<Rightarrow> 'm \<Rightarrow> ((unit, VmError) result \<times> 'm) option) \<Rightarrow> Sched \<Rightarrow> nat list \<Rightarrow> usize \<Rightarrow> 'm \<Rightarrow> ((usize, SysError) result \<times> 'm) option" where
  "getpinfo_loop cto s [] dst m = Some (Ok 0, m)"
| "getpinfo_loop cto s (i # is) dst m = do {
     pstat \<leftarrow> getpinfo i s;
     (r, m) \<leftarrow> cto (pstat_bytes pstat) dst m;
     if is_ok r then getpinfo_loop cto s is (dst + PSTAT) m else Some (Err BadAddress, m)
   }"

definition sys_getpinfo :: "'b Env \<Rightarrow> nat \<Rightarrow> TrapFrame \<Rightarrow> 'b Kernel \<Rightarrow> ((usize, SysError) result \<times> 'b Kernel) option" where
  "sys_getpinfo E cur tf k = do {
     dst \<leftarrow> get_raw tf 0;
     (r, m) \<leftarrow> getpinfo_loop (copy_to_user (buddy E) (data k ! cur)) (sched k) [0..<NPROC] dst (mem k);
     Some (r, k\<lparr>mem := m\<rparr>)
   }"

section \<open>Dispatch\<close>

definition pure_result :: "'b Kernel \<Rightarrow> (usize, SysError) result \<Rightarrow> 'b step_result" where
  "pure_result k r = Some (SReturn r, k)"

definition dispatch :: "'b Env \<Rightarrow> nat \<Rightarrow> TrapFrame \<Rightarrow> Syscall \<Rightarrow> 'b Kernel \<Rightarrow> 'b step_result" where
  "dispatch E cur tf c k =
     (case c of
        Fork \<Rightarrow> returns (sys_fork E cur k)
      | Exit \<Rightarrow> sys_exit cur tf k
      | Wait \<Rightarrow> sys_wait E cur tf k
      | SPipe \<Rightarrow> returns (sys_pipe (buddy E) (pipe_heap E) cur tf k)
      | Read \<Rightarrow> file_outcome (sys_read (buddy E) cur tf k)
      | Kill \<Rightarrow> returns (sys_kill tf k)
      | Abi.Exec \<Rightarrow> returns (sys_exec (buddy E) (trampoline_at E) cur tf k)
      | Fstat \<Rightarrow> returns (sys_fstat (buddy E) (stat_layout E) cur tf k)
      | Chdir \<Rightarrow> returns (sys_chdir (buddy E) cur tf k)
      | Dup \<Rightarrow> returns (sys_dup cur tf k)
      | Getpid \<Rightarrow> pure_result k (sys_getpid cur k)
      | Sbrk \<Rightarrow> returns (sys_sbrk E cur tf k)
      | Sleep \<Rightarrow> sys_sleep cur tf k
      | Uptime \<Rightarrow> pure_result k (sys_uptime k)
      | Open \<Rightarrow> returns (sys_open (buddy E) cur tf k)
      | Write \<Rightarrow> file_outcome (sys_write (buddy E) cur tf k)
      | Mknod \<Rightarrow> returns (sys_mknod (buddy E) cur tf k)
      | Unlink \<Rightarrow> returns (sys_unlink (buddy E) cur tf k)
      | Link \<Rightarrow> returns (sys_link (buddy E) cur tf k)
      | Mkdir \<Rightarrow> returns (sys_mkdir (buddy E) cur tf k)
      | Close \<Rightarrow> returns (sys_close cur tf k)
      | Poweroff \<Rightarrow> sys_poweroff tf k
      | Ioctl \<Rightarrow> returns (sys_ioctl cur tf k)
      | Mygetpid \<Rightarrow> pure_result k (sys_my_getpid cur k)
      | Checkproc \<Rightarrow> sys_check_proc tf k \<bind> pure_result k
      | Setmsg \<Rightarrow> returns (do_set_msg E cur tf k)
      | Getmsg \<Rightarrow> returns (do_get_msg E cur tf k)
      | Getpgdir \<Rightarrow> sys_get_pgdir cur k \<bind> pure_result k
      | Pwd \<Rightarrow> returns (sys_pwd (buddy E) cur tf k)
      | Settickets \<Rightarrow> returns (sys_settickets cur tf k)
      | Getpinfo \<Rightarrow> returns (sys_getpinfo E cur tf k))"

definition syscall_finish :: "nat \<Rightarrow> outcome \<times> 'b Kernel \<Rightarrow> outcome \<times> 'b Kernel" where
  "syscall_finish cur = (\<lambda>(c, k). (c, case c of SReturn r \<Rightarrow> set_trapframe cur (\<lambda>tf. tf\<lparr>a0 := syscall_ret r\<rparr>) k | _ \<Rightarrow> k))"

definition syscall :: "'b Env \<Rightarrow> nat \<Rightarrow> 'b Kernel \<Rightarrow> 'b step_result" where
  "syscall E cur k = do {
     (_, tf) \<leftarrow> pd_trapframe (data k ! cur);
     r \<leftarrow> (case syscall_try_from (a7 tf) of
         Ok c \<Rightarrow> dispatch E cur tf c k
       | Err e \<Rightarrow> pure_result k (Err e));
     Some (syscall_finish cur r)
   }"

text \<open>The rest of a call that waited, after \<open>sleep\<close> returns.\<close>

definition syscall_resume :: "'b Env \<Rightarrow> nat \<Rightarrow> outcome \<Rightarrow> 'b Kernel \<Rightarrow> 'b step_result" where
  "syscall_resume E cur c k = do {
     (_, tf) \<leftarrow> pd_trapframe (data k ! cur);
     r \<leftarrow> (case c of
         SChild \<Rightarrow> wait_outcome (wait_resume (buddy E) cur (a0 tf) k)
       | STicks ticks0 \<Rightarrow> Some (sys_sleep_resume cur ticks0 (sleep_duration (a0 tf)) k)
       | SFile w \<Rightarrow> do {
           f \<leftarrow> get_file tf 0 (data k ! cur);
           case f of
             Err _ \<Rightarrow> None
           | Ok (_, file) \<Rightarrow> file_outcome
               (if a7 tf = syscall_number Read
                then (case w of FWait done \<Rightarrow> file_read_resume (buddy E) cur file (a1 tf) (a2 tf) done k | _ \<Rightarrow> None)
                else file_write_resume (buddy E) cur file (a1 tf) (a2 tf) w k)
         }
       | _ \<Rightarrow> None);
     Some (syscall_finish cur r)
   }"

end
