(* ===== verification/Traps.thy ===== *)
theory Traps
  imports Syscalls Virtio
begin

text \<open>
  Traps (\<open>kernel/src/trap.rs\<close>), the interrupt controller (\<open>kernel/src/plic.rs\<close>), and the start of the machine
  (\<open>kernel/src/start.rs\<close>, \<open>main\<close> of \<open>kernel/src/lib.rs\<close>).  \<open>Regs\<close> holds the registers of the hart
  the code runs on; what the devices answer is an argument, what is written to them is recorded.
\<close>

unbundle bit_operations_syntax

section \<open>The machine\<close>

record Regs =
  hartid :: usize
  sstatus :: usize
  sepc :: usize
  scause :: usize
  stval :: usize
  stvec :: usize
  satp :: usize
  time :: usize
  stimecmp :: usize

record 'b Machine =
  kern :: "'b Kernel"
  vdisk :: Disk
  hart :: Regs
  mmio :: "(usize \<times> u32) list"
  echoed :: "echo list"

text \<open>What the devices answer: the interrupt claimed, the line status and the characters of the UART, the registers of the disk.\<close>

record Devices =
  irq :: u32
  lsr :: u8
  rx :: "u8 list"
  disk_reg :: "u32 \<Rightarrow> u32"

text \<open>Addresses the linker gives to code.\<close>

record Link =
  kernelvec :: usize
  uservec :: usize
  userret :: usize
  usertrap_at :: usize

section \<open>Interrupt controller\<close>

definition plic_claim :: "Devices \<Rightarrow> u32" where
  "plic_claim dev = irq dev"

definition plic_complete :: "u32 \<Rightarrow> 'b Machine \<Rightarrow> 'b Machine" where
  "plic_complete i mc = mc\<lparr>mmio := mmio mc @ [(ucast (PLIC_SCLAIM (hartid (hart mc))), i)]\<rparr>"

definition plic_init :: "'b Machine \<Rightarrow> 'b Machine" where
  "plic_init mc = mc\<lparr>mmio := mmio mc @ [(PLIC + UART0_IRQ * 4, 1), (PLIC + VIRTIO0_IRQ * 4, 1)]\<rparr>"

definition plic_init_hart :: "'b Machine \<Rightarrow> 'b Machine" where
  "plic_init_hart mc = mc\<lparr>mmio := mmio mc @
     [(ucast (PLIC_SENABLE (hartid (hart mc))), push_bit (unat UART0_IRQ) 1 OR push_bit (unat VIRTIO0_IRQ) 1),
      (ucast (PLIC_SPRIORITY (hartid (hart mc))), 0)]\<rparr>"

section \<open>Interrupts\<close>

definition clock_intr :: "nat option \<Rightarrow> 'b Machine \<Rightarrow> 'b Machine" where
  "clock_intr cur mc =
     (let mc = (if hartid (hart mc) = 0
                then mc\<lparr>kern := (kern mc)\<lparr>ticks := ticks (kern mc) + 1, sched := wakeup cur ChTicks (sched (kern mc))\<rparr>\<rparr>
                else mc)
      in mc\<lparr>hart := (hart mc)\<lparr>stimecmp := time (hart mc) + 1000000\<rparr>\<rparr>)"

datatype InterruptType = IDevice | ITimer

definition handle_uart :: "Devices \<Rightarrow> nat option \<Rightarrow> 'b Machine \<Rightarrow> 'b Machine" where
  "handle_uart dev cur mc =
     (let k = kern mc; (u, out, con, s) = uart_interrupt tx_chan con_chan cur (lsr dev) (rx dev) (uart k) (console k) (sched k)
      in mc\<lparr>kern := k\<lparr>uart := u, console := con, sched := s\<rparr>, echoed := echoed mc @ out\<rparr>)"

definition handle_disk :: "Devices \<Rightarrow> nat option \<Rightarrow> 'b Machine \<Rightarrow> 'b Machine option" where
  "handle_disk dev cur mc = do {
     let k = kern mc;
     ((reg, ack), d, c, s) \<leftarrow> disk_interrupt (disk_reg dev) cur (vdisk mc) (snd (fs_store (fs k))) (sched k);
     Some (mc\<lparr>kern := k\<lparr>fs := (fs k)\<lparr>fs_store := (fst (fs_store (fs k)), c)\<rparr>, sched := s\<rparr>, vdisk := d,
              mmio := mmio mc @ [(VIRTIO0 + ucast reg, ack)]\<rparr>)
   }"

definition external_interrupt :: "Devices \<Rightarrow> nat option \<Rightarrow> 'b Machine \<Rightarrow> 'b Machine option" where
  "external_interrupt dev cur mc = do {
     let i = plic_claim dev;
     mc \<leftarrow> (if ucast i = UART0_IRQ then Some (handle_uart dev cur mc)
            else if ucast i = VIRTIO0_IRQ then handle_disk dev cur mc
            else Some mc);
     Some (if i \<noteq> 0 then plic_complete i mc else mc)
   }"

definition device_interrupt :: "Devices \<Rightarrow> nat option \<Rightarrow> Interrupt \<Rightarrow> 'b Machine \<Rightarrow> (InterruptType option \<times> 'b Machine) option" where
  "device_interrupt dev cur intr mc =
     (case intr of
        SupervisorExternal \<Rightarrow> do { mc \<leftarrow> external_interrupt dev cur mc; Some (Some IDevice, mc) }
      | SupervisorTimer \<Rightarrow> Some (Some ITimer, clock_intr cur mc)
      | _ \<Rightarrow> Some (None, mc))"

section \<open>Traps from user space\<close>

text \<open>
  How the handler ends: in user mode with the page table register to load, giving up the processor, waiting in a
  system call, or never.
\<close>

datatype trap_end = ToUser usize | Yields | Waits outcome | Gone

definition usertrapret :: "Link \<Rightarrow> usize \<Rightarrow> nat \<Rightarrow> 'b Machine \<Rightarrow> (trap_end \<times> 'b Machine) option" where
  "usertrapret L trampoline cur mc = do {
     let h = hart mc;
     let d = data (kern mc) ! cur;
     (_, tf) \<leftarrow> pd_trapframe d;
     pt \<leftarrow> pd_pagetable d;
     let k = set_trapframe cur (\<lambda>tf. tf\<lparr>kernel_satp := satp h, kernel_sp := pd_kstack d + NKSTACK_PAGES * PGSIZE,
               kernel_trap := usertrap_at L, kernel_hartid := hartid h\<rparr>) (kern mc);
     let x = intr_disable (sstatus h);
     let x = x AND NOT SPP;
     let x = x OR SPIE;
     let h = h\<lparr>stvec := TRAMPOLINE + (uservec L - trampoline), sstatus := x, sepc := epc tf\<rparr>;
     Some (ToUser (satp_make pt), mc\<lparr>kern := k, hart := h\<rparr>)
   }"

definition set_killed :: "nat \<Rightarrow> 'b Machine \<Rightarrow> 'b Machine" where
  "set_killed cur mc = mc\<lparr>kern := (kern mc)\<lparr>sched := upd_proc cur (\<lambda>p. p\<lparr>p_killed := True\<rparr>) (sched (kern mc))\<rparr>\<rparr>"

definition exit_killed :: "nat \<Rightarrow> 'b Machine \<Rightarrow> (trap_end \<times> 'b Machine) option" where
  "exit_killed cur mc = do { k \<leftarrow> exit_proc cur (- 1) (kern mc); Some (Gone, mc\<lparr>kern := k\<rparr>) }"

text \<open>The end of \<open>usertrap\<close>, after the cause is handled.\<close>

definition usertrap_end :: "Link \<Rightarrow> usize \<Rightarrow> nat \<Rightarrow> InterruptType option \<Rightarrow> 'b Machine \<Rightarrow> (trap_end \<times> 'b Machine) option" where
  "usertrap_end L trampoline cur which_dev mc =
     (if is_killed cur (sched (kern mc)) then exit_killed cur mc
      else if which_dev = Some ITimer then Some (Yields, mc\<lparr>kern := (kern mc)\<lparr>sched := yield_proc cur (sched (kern mc))\<rparr>\<rparr>)
      else usertrapret L trampoline cur mc)"

definition after_syscall :: "Link \<Rightarrow> usize \<Rightarrow> nat \<Rightarrow> 'b Machine \<Rightarrow> outcome \<times> 'b Kernel \<Rightarrow> (trap_end \<times> 'b Machine) option" where
  "after_syscall L trampoline cur mc = (\<lambda>(c, k).
     case c of
       SReturn _ \<Rightarrow> usertrap_end L trampoline cur None (mc\<lparr>kern := k\<rparr>)
     | SGone \<Rightarrow> Some (Gone, mc\<lparr>kern := k\<rparr>)
     | _ \<Rightarrow> Some (Waits c, mc\<lparr>kern := k\<rparr>))"

definition user_syscall :: "'b Env \<Rightarrow> Link \<Rightarrow> nat \<Rightarrow> 'b Machine \<Rightarrow> (trap_end \<times> 'b Machine) option" where
  "user_syscall E L cur mc =
     (if is_killed cur (sched (kern mc)) then exit_killed cur mc
      else do {
        let mc = mc\<lparr>kern := set_trapframe cur (\<lambda>tf. tf\<lparr>epc := epc tf + 4\<rparr>) (kern mc),
                   hart := (hart mc)\<lparr>sstatus := intr_enable (sstatus (hart mc))\<rparr>\<rparr>;
        r \<leftarrow> syscall E cur (kern mc);
        after_syscall L (trampoline_at E) cur mc r
      })"

definition user_fault :: "'b Env \<Rightarrow> Link \<Rightarrow> nat \<Rightarrow> 'b Machine \<Rightarrow> (trap_end \<times> 'b Machine) option" where
  "user_fault E L cur mc = do {
     let k = kern mc;
     pt \<leftarrow> pd_pagetable (data k ! cur);
     (r, m) \<leftarrow> vmfault (buddy E) pt (pd_size (data k ! cur)) (stval (hart mc)) (mem k);
     let mc = mc\<lparr>kern := k\<lparr>mem := m\<rparr>\<rparr>;
     usertrap_end L (trampoline_at E) cur None (if is_ok r then mc else set_killed cur mc)
   }"

definition usertrap :: "'b Env \<Rightarrow> Link \<Rightarrow> Devices \<Rightarrow> nat \<Rightarrow> 'b Machine \<Rightarrow> (trap_end \<times> 'b Machine) option" where
  "usertrap E L dev cur mc = do {
     assert_that (sstatus (hart mc) AND SPP = 0);
     let mc = mc\<lparr>hart := (hart mc)\<lparr>stvec := kernelvec L\<rparr>\<rparr>;
     _ \<leftarrow> pd_pagetable (data (kern mc) ! cur);
     _ \<leftarrow> pd_trapframe (data (kern mc) ! cur);
     let mc = mc\<lparr>kern := set_trapframe cur (\<lambda>tf. tf\<lparr>epc := sepc (hart mc)\<rparr>) (kern mc)\<rparr>;
     case scause_cause (scause (hart mc)) of
       TrapException EnvironmentCall \<Rightarrow> user_syscall E L cur mc
     | TrapException StorePageFault \<Rightarrow> user_fault E L cur mc
     | TrapException LoadPageFault \<Rightarrow> user_fault E L cur mc
     | TrapInterrupt intr \<Rightarrow> do {
         (which_dev, mc) \<leftarrow> device_interrupt dev (Some cur) intr mc;
         usertrap_end L (trampoline_at E) cur which_dev (if which_dev = None then set_killed cur mc else mc)
       }
     | _ \<Rightarrow> usertrap_end L (trampoline_at E) cur None (set_killed cur mc)
   }"

text \<open>The rest of the handler when the process runs again: after \<open>yield\<close>, and after waiting in a system call.\<close>

definition usertrap_resume :: "'b Env \<Rightarrow> Link \<Rightarrow> nat \<Rightarrow> trap_end \<Rightarrow> 'b Machine \<Rightarrow> (trap_end \<times> 'b Machine) option" where
  "usertrap_resume E L cur t mc =
     (case t of
        Yields \<Rightarrow> usertrapret L (trampoline_at E) cur mc
      | Waits c \<Rightarrow> do { r \<leftarrow> syscall_resume E cur c (kern mc); after_syscall L (trampoline_at E) cur mc r }
      | _ \<Rightarrow> None)"

section \<open>Traps from the kernel\<close>

definition kerneltrap :: "Devices \<Rightarrow> nat option \<Rightarrow> 'b Machine \<Rightarrow> (bool \<times> 'b Machine) option" where
  "kerneltrap dev cur mc = do {
     assert_that (sstatus (hart mc) AND SPP \<noteq> 0);
     assert_that (\<not> intr_get (sstatus (hart mc)));
     case scause_cause (scause (hart mc)) of
       TrapInterrupt intr \<Rightarrow> do {
         (which_dev, mc) \<leftarrow> device_interrupt dev cur intr mc;
         case (which_dev, cur) of
           (None, _) \<Rightarrow> None
         | (Some ITimer, Some i) \<Rightarrow> Some (True, mc\<lparr>kern := (kern mc)\<lparr>sched := yield_proc i (sched (kern mc))\<rparr>\<rparr>)
         | _ \<Rightarrow> Some (False, mc)
       }
     | _ \<Rightarrow> None
   }"

text \<open>The registers the handler saved on its stack, restored at its end.\<close>

definition kerneltrap_restore :: "Regs \<Rightarrow> 'b Machine \<Rightarrow> 'b Machine" where
  "kerneltrap_restore h0 mc = mc\<lparr>hart := (hart mc)\<lparr>sepc := sepc h0, sstatus := sstatus h0\<rparr>\<rparr>"

definition trap_init_hart :: "Link \<Rightarrow> 'b Machine \<Rightarrow> 'b Machine" where
  "trap_init_hart L mc = mc\<lparr>hart := (hart mc)\<lparr>stvec := kernelvec L\<rparr>\<rparr>"

section \<open>Start\<close>

text \<open>The registers of machine mode that \<open>start\<close> sets, and \<open>tp\<close>.\<close>

record Mregs =
  mstatus :: usize
  mepc :: usize
  medeleg :: usize
  mideleg :: usize
  sie :: usize
  mie :: usize
  menvcfg :: usize
  mcounteren :: usize
  pmpaddr0 :: usize
  pmpcfg0 :: usize
  mhartid :: usize

definition MPP_MASK :: usize where "MPP_MASK = push_bit 11 3"
definition MPP_SUPERVISOR :: usize where "MPP_SUPERVISOR = 1"
definition SEIE :: usize where "SEIE = push_bit 9 1"
definition STIE :: usize where "STIE = push_bit 5 1"
definition SSIE :: usize where "SSIE = push_bit 1 1"

definition set_mpp :: "usize \<Rightarrow> Mregs \<Rightarrow> Mregs" where
  "set_mpp mode r = r\<lparr>mstatus := (mstatus r AND NOT MPP_MASK) OR push_bit 11 mode\<rparr>"

definition timer_init :: "Mregs \<times> Regs \<Rightarrow> Mregs \<times> Regs" where
  "timer_init = (\<lambda>(r, h).
     (r\<lparr>mie := mie r OR STIE, menvcfg := menvcfg r OR push_bit 63 1, mcounteren := mcounteren r OR 2\<rparr>,
      h\<lparr>stimecmp := time h + 1000000\<rparr>))"

definition start :: "usize \<Rightarrow> Mregs \<times> Regs \<Rightarrow> Mregs \<times> Regs" where
  "start main = (\<lambda>(r, h).
     let r = set_mpp MPP_SUPERVISOR r;
         r = r\<lparr>mepc := main\<rparr>;
         h = h\<lparr>satp := 0\<rparr>;
         r = r\<lparr>medeleg := 0xffff, mideleg := 0xffff, sie := sie r OR SEIE OR STIE OR SSIE\<rparr>;
         r = r\<lparr>pmpaddr0 := 0x3fffffffffffff, pmpcfg0 := 0xf\<rparr>;
         (r, h) = timer_init (r, h)
     in (r, h\<lparr>hartid := mhartid r\<rparr>))"

definition vm_init_hart :: "usize \<Rightarrow> 'b Machine \<Rightarrow> 'b Machine" where
  "vm_init_hart kvm mc = mc\<lparr>hart := (hart mc)\<lparr>satp := init_hart_satp kvm\<rparr>\<rparr>"

text \<open>
  \<open>main\<close> on hart 0 up to the scheduler (the page allocator is initialized in \<open>mem\<close>), and on the other
  harts.  \<open>queues\<close> are the addresses of the three parts of the disk queue.
\<close>

definition main_first :: "'b Env \<Rightarrow> Link \<Rightarrow> usize \<Rightarrow> (u32 \<Rightarrow> u32) \<Rightarrow> usize \<times> usize \<times> usize \<Rightarrow> 'b Machine \<Rightarrow> (usize \<times> 'b Machine) option" where
  "main_first E L etext reg = (\<lambda>(desc, avail, used) mc. do {
     let mc = mc\<lparr>kern := (kern mc)\<lparr>uart := uart_init (uart (kern mc))\<rparr>\<rparr>;
     (kvm, m) \<leftarrow> kvm_init (buddy E) etext (trampoline_at E) (mem (kern mc));
     let mc = mc\<lparr>kern := (kern mc)\<lparr>mem := m\<rparr>\<rparr>;
     let mc = vm_init_hart kvm mc;
     let mc = mc\<lparr>kern := proc_init (kern mc)\<rparr>;
     let mc = plic_init_hart (plic_init (trap_init_hart L mc));
     let mc = mc\<lparr>kern := (kern mc)\<lparr>fs := (fs (kern mc))\<lparr>fs_store := (fst (fs_store (fs (kern mc))), bcache_init (snd (fs_store (fs (kern mc)))))\<rparr>\<rparr>\<rparr>;
     ws \<leftarrow> virtio_init reg desc avail used;
     let mc = mc\<lparr>mmio := mmio mc @ map (\<lambda>(r, v). (VIRTIO0 + ucast r, v)) ws\<rparr>;
     k \<leftarrow> user_init (buddy E) (trampoline_at E) (fork_ret_at E) (kern mc);
     Some (kvm, mc\<lparr>kern := k\<rparr>)
   })"

definition main_other :: "Link \<Rightarrow> usize \<Rightarrow> 'b Machine \<Rightarrow> 'b Machine" where
  "main_other L kvm mc = plic_init_hart (trap_init_hart L (vm_init_hart kvm mc))"

end
