(* ===== verification/Line_Editor.thy ===== *)
theory Line_Editor
  imports Prelude
begin

text \<open>
  The line editor of user space (\<open>user/src/line.rs\<close>).  The bytes the user types are a list; what the editor
  does to the terminal is a list of events.  Indices are natural numbers (they stay below 512, and the
  number of history entries only matters modulo 16 and up to 16); a subtraction that would underflow and an
  index out of range are panics.
\<close>

section \<open>State\<close>

definition LINE_MAX :: nat where "LINE_MAX = 256"
definition HISTORY_SIZE :: nat where "HISTORY_SIZE = 16"

record LineEditor =
  buf :: "u8 list"
  len :: nat
  cursor :: nat
  prompt :: "u8 list"
  history :: "u8 list list"
  history_lens :: "nat list"
  history_entries :: nat
  history_offset :: nat
  stashed_buf :: "u8 list"
  stashed_len :: nat

definition line_editor_new :: LineEditor where
  "line_editor_new =
     \<lparr>buf = replicate LINE_MAX 0, len = 0, cursor = 0, prompt = [],
      history = replicate HISTORY_SIZE (replicate LINE_MAX 0), history_lens = replicate HISTORY_SIZE 0,
      history_entries = 0, history_offset = 0, stashed_buf = replicate LINE_MAX 0, stashed_len = 0\<rparr>"

text \<open>Calls the editor makes: output on the two streams, and the console mode.\<close>

datatype event = Out "u8 list" | ErrOut "u8 list" | Raw bool

section \<open>Output\<close>

fun digits :: "nat \<Rightarrow> u8 list" where
  "digits n = (if n = 0 then [] else word_of_nat (48 + n mod 10) # digits (n div 10))"

declare digits.simps [simp del]

definition write_decimal :: "nat \<Rightarrow> u8 list option" where
  "write_decimal n =
     (if n = 0 then Some [48]
      else do { assert_that (length (digits n) \<le> 10); Some (rev (digits n)) })"

definition append_out :: "u8 list \<Rightarrow> u8 list \<Rightarrow> u8 list option" where
  "append_out bs out = do { assert_that (length out + length bs \<le> 512); Some (out @ bs) }"

definition redraw :: "LineEditor \<Rightarrow> event list option" where
  "redraw e = do {
     out \<leftarrow> append_out [13] [];
     out \<leftarrow> append_out (prompt e) out;
     assert_that (len e \<le> length (buf e));
     out \<leftarrow> append_out (take (len e) (buf e)) out;
     out \<leftarrow> append_out [27, 91, 75] out;
     assert_that (cursor e \<le> len e);
     let back = len e - cursor e;
     out \<leftarrow> (if back > 0 then do {
         out \<leftarrow> append_out [27, 91] out;
         ds \<leftarrow> write_decimal back;
         out \<leftarrow> append_out ds out;
         append_out [68] out
       } else Some out);
     Some [Out out]
   }"

definition redraw_full :: "LineEditor \<Rightarrow> event list option" where
  "redraw_full e = do { out \<leftarrow> redraw e; Some (Out [27, 91, 50, 74, 27, 91, 72] # out) }"

definition redrawn :: "LineEditor \<Rightarrow> (event list \<times> LineEditor) option" where
  "redrawn e = do { out \<leftarrow> redraw e; Some (out, e) }"

section \<open>Editing\<close>

definition put_at :: "nat \<Rightarrow> u8 \<Rightarrow> u8 list \<Rightarrow> u8 list option" where
  "put_at i c b = do { assert_that (i < length b); Some (b[i := c]) }"

definition insert_char :: "u8 \<Rightarrow> LineEditor \<Rightarrow> (event list \<times> LineEditor) option" where
  "insert_char c e =
     (if cursor e \<ge> LINE_MAX then Some ([], e)
      else do {
        b \<leftarrow> foldO (\<lambda>i b. put_at (i + 1) (b ! i) b) (rev [cursor e..<len e]) (buf e);
        b \<leftarrow> put_at (cursor e) c b;
        redrawn (e\<lparr>buf := b, cursor := cursor e + 1, len := len e + 1\<rparr>)
      })"

definition backspace :: "LineEditor \<Rightarrow> (event list \<times> LineEditor) option" where
  "backspace e =
     (if cursor e = 0 then Some ([], e)
      else do {
        assert_that (len e \<ge> 1);
        b \<leftarrow> foldO (\<lambda>i b. do { assert_that (i + 1 < length b); put_at i (b ! (i + 1)) b }) [cursor e - 1..<len e - 1] (buf e);
        redrawn (e\<lparr>buf := b, len := len e - 1, cursor := cursor e - 1\<rparr>)
      })"

text \<open>Move \<open>buf[cursor..len]\<close> left by \<open>d\<close>.\<close>

definition shift_left :: "nat \<Rightarrow> LineEditor \<Rightarrow> u8 list option" where
  "shift_left d e = foldO (\<lambda>j b. do { assert_that (j < length b); put_at (j - d) (b ! j) b }) [cursor e..<len e] (buf e)"

definition le_kill_line :: "LineEditor \<Rightarrow> (event list \<times> LineEditor) option" where
  "le_kill_line e = do {
     b \<leftarrow> shift_left (cursor e) e;
     assert_that (cursor e \<le> len e);
     redrawn (e\<lparr>buf := b, len := len e - cursor e, cursor := 0\<rparr>)
   }"

text \<open>The two loops that look for the start of the word before position \<open>i\<close>.\<close>

fun skip_back :: "(u8 \<Rightarrow> bool) \<Rightarrow> u8 list \<Rightarrow> nat \<Rightarrow> nat" where
  "skip_back P b 0 = 0"
| "skip_back P b (Suc i) = (if P (b ! i) then skip_back P b i else Suc i)"

definition kill_word :: "LineEditor \<Rightarrow> (event list \<times> LineEditor) option" where
  "kill_word e = do {
     let i = skip_back (\<lambda>c. c = 32) (buf e) (cursor e);
     let i = skip_back (\<lambda>c. c \<noteq> 32) (buf e) i;
     b \<leftarrow> shift_left (cursor e - i) e;
     assert_that (cursor e - i \<le> len e);
     redrawn (e\<lparr>buf := b, len := len e - (cursor e - i), cursor := i\<rparr>)
   }"

definition move_left :: "LineEditor \<Rightarrow> event list \<times> LineEditor" where
  "move_left e = (if cursor e > 0 then ([Out [27, 91, 68]], e\<lparr>cursor := cursor e - 1\<rparr>) else ([], e))"

definition move_right :: "LineEditor \<Rightarrow> event list \<times> LineEditor" where
  "move_right e = (if cursor e < len e then ([Out [27, 91, 67]], e\<lparr>cursor := cursor e + 1\<rparr>) else ([], e))"

definition move_to_start :: "LineEditor \<Rightarrow> (event list \<times> LineEditor) option" where
  "move_to_start e = redrawn (e\<lparr>cursor := 0\<rparr>)"

definition move_to_end :: "LineEditor \<Rightarrow> (event list \<times> LineEditor) option" where
  "move_to_end e = redrawn (e\<lparr>cursor := len e\<rparr>)"

section \<open>History\<close>

text \<open>\<open>a[..n].copy_from_slice(b[..n])\<close>.\<close>

definition copy_prefix :: "nat \<Rightarrow> u8 list \<Rightarrow> u8 list \<Rightarrow> u8 list option" where
  "copy_prefix n a b = do { assert_that (n \<le> length a \<and> n \<le> length b); Some (take n b @ drop n a) }"

definition add_to_history :: "LineEditor \<Rightarrow> LineEditor option" where
  "add_to_history e = do {
     let slot = history_entries e mod HISTORY_SIZE;
     h \<leftarrow> copy_prefix (len e) (history e ! slot) (buf e);
     Some (e\<lparr>history := (history e)[slot := h], history_lens := (history_lens e)[slot := len e], history_entries := history_entries e + 1\<rparr>)
   }"

definition load_from_history :: "LineEditor \<Rightarrow> LineEditor option" where
  "load_from_history e = do {
     assert_that (history_offset e \<le> history_entries e);
     let slot = (history_entries e - history_offset e) mod HISTORY_SIZE;
     let n = history_lens e ! slot;
     b \<leftarrow> copy_prefix n (buf e) (history e ! slot);
     Some (e\<lparr>buf := b, len := n, cursor := n\<rparr>)
   }"

definition history_up :: "LineEditor \<Rightarrow> (event list \<times> LineEditor) option" where
  "history_up e =
     (let available = min (history_entries e) HISTORY_SIZE in
      if history_offset e \<ge> available then Some ([], e)
      else do {
        e \<leftarrow> (if history_offset e = 0 then do {
            b \<leftarrow> copy_prefix (len e) (stashed_buf e) (buf e);
            Some (e\<lparr>stashed_buf := b, stashed_len := len e\<rparr>)
          } else Some e);
        e \<leftarrow> load_from_history (e\<lparr>history_offset := history_offset e + 1\<rparr>);
        redrawn e
      })"

definition history_down :: "LineEditor \<Rightarrow> (event list \<times> LineEditor) option" where
  "history_down e =
     (if history_offset e = 0 then Some ([], e)
      else do {
        let e = e\<lparr>history_offset := history_offset e - 1\<rparr>;
        e \<leftarrow> (if history_offset e = 0 then do {
            b \<leftarrow> copy_prefix (stashed_len e) (buf e) (stashed_buf e);
            Some (e\<lparr>buf := b, len := stashed_len e, cursor := stashed_len e\<rparr>)
          } else load_from_history e);
        redrawn e
      })"

section \<open>Reading a line\<close>

definition handle_escape :: "u8 \<Rightarrow> u8 \<Rightarrow> LineEditor \<Rightarrow> (event list \<times> LineEditor) option" where
  "handle_escape a b e =
     (if a = 91 \<and> b = 65 then history_up e
      else if a = 91 \<and> b = 66 then history_down e
      else if a = 91 \<and> b = 68 then Some (move_left e)
      else if a = 91 \<and> b = 67 then Some (move_right e)
      else Some ([], e))"

definition is_text :: "u8 \<Rightarrow> bool" where
  "is_text c \<longleftrightarrow> 32 \<le> c \<and> c \<le> 126"

definition handle_key :: "u8 \<Rightarrow> LineEditor \<Rightarrow> (event list \<times> LineEditor) option" where
  "handle_key c e =
     (if c = 8 \<or> c = 127 then backspace e
      else if c = 1 then move_to_start e
      else if c = 5 then move_to_end e
      else if c = 21 then le_kill_line e
      else if c = 23 then kill_word e
      else if c = 12 then do { out \<leftarrow> redraw_full e; Some (out, e) }
      else if is_text c then insert_char c e
      else Some ([], e))"

text \<open>How the loop of \<open>read_line\<close> ends: the line is accepted, the input is ended, or more bytes must be typed.\<close>

datatype line_end = Accept | Eof | NeedInput

fun edit_loop :: "u8 list \<Rightarrow> LineEditor \<Rightarrow> (line_end \<times> u8 list \<times> event list \<times> LineEditor) option" where
  "edit_loop [] e = Some (NeedInput, [], [], e)"
| "edit_loop (c # cs) e =
     (if c = 10 \<or> c = 13 then Some (Accept, cs, [Out [13, 10]], e)
      else if c = 27 then
        (case cs of
           a # b # cs \<Rightarrow> do {
             (out, e) \<leftarrow> handle_escape a b e;
             (r, cs, outs, e) \<leftarrow> edit_loop cs e;
             Some (r, cs, out @ outs, e)
           }
         | _ \<Rightarrow> Some (NeedInput, c # cs, [], e))
      else if c = 4 \<and> len e = 0 then Some (Eof, cs, [Out [13, 10]], e)
      else if c = 3 then Some (Accept, cs, [Out [94, 67, 13, 10]], e\<lparr>len := 0, cursor := 0\<rparr>)
      else do {
        (out, e) \<leftarrow> handle_key c e;
        (r, cs, outs, e) \<leftarrow> edit_loop cs e;
        Some (r, cs, out @ outs, e)
      })"

datatype line_result = GotLine "u8 list" | NoLine | Typing

definition read_line :: "u8 list \<Rightarrow> u8 list \<Rightarrow> LineEditor \<Rightarrow> (line_result \<times> u8 list \<times> event list \<times> LineEditor) option" where
  "read_line p input e = do {
     (r, rest, out, e) \<leftarrow> edit_loop input (e\<lparr>len := 0, cursor := 0, prompt := p\<rparr>);
     let start = [Raw True, ErrOut p];
     case r of
       NeedInput \<Rightarrow> Some (Typing, rest, start @ out, e)
     | Eof \<Rightarrow> Some (NoLine, rest, start @ out, e)
     | Accept \<Rightarrow> do {
         e \<leftarrow> (if len e > 0 then add_to_history e else Some e);
         let e = e\<lparr>history_offset := 0\<rparr>;
         assert_that (len e \<le> length (buf e));
         Some (GotLine (take (len e) (buf e)), rest, start @ out @ [Raw False], e)
       }
   }"

section \<open>Moving bytes in the buffer\<close>

lemma foldO_map: "foldO f (map g xs) s = foldO (\<lambda>x. f (g x)) xs s"
  by (induction xs arbitrary: s) (auto split: Option.bind_splits)

lemma shift_right_nth:
  assumes "k \<le> n" "n < length b"
  shows "\<exists>r. foldO (\<lambda>i b. put_at (i + 1) (b ! i) b) (rev [k..<n]) b = Some r \<and> length r = length b \<and>
    (\<forall>i < length b. r ! i = (if k < i \<and> i \<le> n then b ! (i - 1) else b ! i))"
  using assms
proof (induction n arbitrary: b)
  case (Suc n)
  show ?case
  proof (cases "k = Suc n")
    case False
    let ?b = "b[Suc n := b ! n]"
    obtain r where r: "foldO (\<lambda>i b. put_at (i + 1) (b ! i) b) (rev [k..<n]) ?b = Some r" "length r = length b"
      "\<forall>i < length b. r ! i = (if k < i \<and> i \<le> n then ?b ! (i - 1) else ?b ! i)"
      using Suc.IH [of ?b] Suc.prems False by auto
    have "r ! i = (if k < i \<and> i \<le> Suc n then b ! (i - 1) else b ! i)" if "i < length b" for i
      using r(3) that False Suc.prems by (auto simp: nth_list_update)
    then show ?thesis using r False Suc.prems by (auto simp: put_at_def)
  qed auto
qed auto

lemma shift_right_spec:
  assumes "k \<le> n" "n < length b"
  shows "Option.bind (foldO (\<lambda>i b. put_at (i + 1) (b ! i) b) (rev [k..<n]) b) (put_at k c) =
    Some (take k b @ c # take (n - k) (drop k b) @ drop (Suc n) b)"
proof -
  obtain r where r: "foldO (\<lambda>i b. put_at (i + 1) (b ! i) b) (rev [k..<n]) b = Some r" "length r = length b"
    "\<forall>i < length b. r ! i = (if k < i \<and> i \<le> n then b ! (i - 1) else b ! i)"
    using shift_right_nth [OF assms] by auto
  have "r[k := c] = take k b @ c # take (n - k) (drop k b) @ drop (Suc n) b"
    using r(2,3) assms by (intro nth_equalityI) (auto simp: nth_append nth_list_update nth_Cons' min_def)
  then show ?thesis using r(1,2) assms by (simp add: put_at_def)
qed

lemma shift_left_nth:
  assumes "d \<le> c" "c \<le> n" "n \<le> length b"
  shows "\<exists>r. foldO (\<lambda>j b. do { assert_that (j < length b); put_at (j - d) (b ! j) b }) [c..<n] b = Some r \<and> length r = length b \<and>
    (\<forall>i < length b. r ! i = (if c - d \<le> i \<and> i < n - d then b ! (i + d) else b ! i))"
  using assms
proof (induction n)
  case (Suc n)
  show ?case
  proof (cases "c = Suc n")
    case False
    then obtain r where r: "foldO (\<lambda>j b. do { assert_that (j < length b); put_at (j - d) (b ! j) b }) [c..<n] b = Some r" "length r = length b"
      "\<forall>i < length b. r ! i = (if c - d \<le> i \<and> i < n - d then b ! (i + d) else b ! i)"
      using Suc by auto
    have "r ! n = b ! n" using r(3) Suc.prems by auto
    then have "foldO (\<lambda>j b. do { assert_that (j < length b); put_at (j - d) (b ! j) b }) [c..<Suc n] b = Some (r[n - d := b ! n])"
      using r(1,2) False Suc.prems by (simp add: foldO_append put_at_def)
    moreover have "r[n - d := b ! n] ! i = (if c - d \<le> i \<and> i < Suc n - d then b ! (i + d) else b ! i)" if "i < length b" for i
      using r(2,3) that False Suc.prems by (cases "i = n - d") (auto simp: nth_list_update)
    ultimately show ?thesis using r(2) by auto
  qed (use Suc.prems in auto)
qed simp

lemma shift_left_fold:
  assumes "d \<le> c" "c \<le> n" "n \<le> length b"
  shows "foldO (\<lambda>j b. do { assert_that (j < length b); put_at (j - d) (b ! j) b }) [c..<n] b =
    Some (take (c - d) b @ take (n - c) (drop c b) @ drop (n - d) b)"
proof -
  obtain r where r: "foldO (\<lambda>j b. do { assert_that (j < length b); put_at (j - d) (b ! j) b }) [c..<n] b = Some r" "length r = length b"
    "\<forall>i < length b. r ! i = (if c - d \<le> i \<and> i < n - d then b ! (i + d) else b ! i)"
    using shift_left_nth [OF assms] by auto
  have "r = take (c - d) b @ take (n - c) (drop c b) @ drop (n - d) b"
    using r(2,3) assms by (intro nth_equalityI) (auto simp: nth_append min_def intro!: arg_cong [where f = "(!) b"])
  then show ?thesis using r(1) by simp
qed

lemma backspace_fold:
  assumes "1 \<le> c" "c \<le> n" "n \<le> length b"
  shows "foldO (\<lambda>i b. do { assert_that (i + 1 < length b); put_at i (b ! (i + 1)) b }) [c - 1..<n - 1] b =
    Some (take (c - 1) b @ take (n - c) (drop c b) @ drop (n - 1) b)"
proof -
  obtain c' n' where cn: "c = Suc c'" "n = Suc n'" using assms by (cases c; cases n) auto
  have "foldO (\<lambda>j b. do { assert_that (j < length b); put_at (j - 1) (b ! j) b }) (map Suc [c'..<n']) b =
      Some (take (c - 1) b @ take (n - c) (drop c b) @ drop (n - 1) b)"
    using shift_left_fold [of 1 c n b] assms unfolding cn map_Suc_upt by simp
  then show ?thesis unfolding foldO_map cn by simp
qed

lemma skip_back_le: "skip_back P b i \<le> i"
  by (induction i) (auto simp: le_SucI)

lemma take_skip_back: "i \<le> length b \<Longrightarrow> take (skip_back P b i) b = rev (dropWhile P (rev (take i b)))"
  by (induction i) (auto simp: take_Suc_conv_app_nth)

end
