(* ===== verification/Line_Refine.thy ===== *)
theory Line_Refine
  imports Line_Editor
begin

text \<open>
  What the line editor promises, as an editor on two lists (the text before and after the cursor) with a list of
  earlier lines, and the proof that the buffers of \<open>user/src/line.rs\<close> implement it.
\<close>

section \<open>The editor on lists\<close>

record Zed =
  before :: "u8 list"
  after :: "u8 list"
  earlier :: "u8 list list"
  pos :: nat
  kept :: "u8 list"

definition zdraw :: "u8 list \<Rightarrow> Zed \<Rightarrow> event list" where
  "zdraw p z = [Out ([13] @ p @ before z @ after z @ [27, 91, 75] @
     (if after z = [] then [] else [27, 91] @ rev (digits (length (after z))) @ [68]))]"

definition zshow :: "u8 list \<Rightarrow> Zed \<Rightarrow> (event list \<times> Zed) option" where
  "zshow p z = Some (zdraw p z, z)"

definition zput :: "u8 list \<Rightarrow> Zed \<Rightarrow> Zed" where
  "zput text z = z\<lparr>before := text, after := []\<rparr>"

text \<open>Typing into a full line fails in the middle of the line and does nothing at its end.\<close>

definition zinsert :: "u8 list \<Rightarrow> u8 \<Rightarrow> Zed \<Rightarrow> (event list \<times> Zed) option" where
  "zinsert p c z =
     (if length (before z) \<ge> 256 then Some ([], z)
      else if length (before z) + length (after z) \<ge> 256 then None
      else zshow p (z\<lparr>before := before z @ [c]\<rparr>))"

definition zword :: "u8 list \<Rightarrow> u8 list" where
  "zword l = rev (dropWhile (\<lambda>c. c \<noteq> 32) (dropWhile (\<lambda>c. c = 32) (rev l)))"

definition zkey :: "u8 list \<Rightarrow> u8 \<Rightarrow> Zed \<Rightarrow> (event list \<times> Zed) option" where
  "zkey p c z =
     (if c = 8 \<or> c = 127 then if before z = [] then Some ([], z) else zshow p (z\<lparr>before := butlast (before z)\<rparr>)
      else if c = 1 then zshow p (z\<lparr>before := [], after := before z @ after z\<rparr>)
      else if c = 5 then zshow p (zput (before z @ after z) z)
      else if c = 21 then zshow p (z\<lparr>before := []\<rparr>)
      else if c = 23 then zshow p (z\<lparr>before := zword (before z)\<rparr>)
      else if c = 12 then Some (Out [27, 91, 50, 74, 27, 91, 72] # zdraw p z, z)
      else if is_text c then zinsert p c z
      else Some ([], z))"

definition zup :: "u8 list \<Rightarrow> Zed \<Rightarrow> (event list \<times> Zed) option" where
  "zup p z =
     (if pos z \<ge> length (earlier z) then Some ([], z)
      else zshow p (zput (earlier z ! pos z) (z\<lparr>pos := pos z + 1, kept := (if pos z = 0 then before z @ after z else kept z)\<rparr>)))"

definition zdown :: "u8 list \<Rightarrow> Zed \<Rightarrow> (event list \<times> Zed) option" where
  "zdown p z =
     (if pos z = 0 then Some ([], z)
      else zshow p (zput (if pos z = 1 then kept z else earlier z ! (pos z - 2)) (z\<lparr>pos := pos z - 1\<rparr>)))"

definition zescape :: "u8 list \<Rightarrow> u8 \<Rightarrow> u8 \<Rightarrow> Zed \<Rightarrow> (event list \<times> Zed) option" where
  "zescape p a b z =
     (if a = 91 \<and> b = 65 then zup p z
      else if a = 91 \<and> b = 66 then zdown p z
      else if a = 91 \<and> b = 68 then
        Some (if before z = [] then ([], z)
              else ([Out [27, 91, 68]], z\<lparr>before := butlast (before z), after := last (before z) # after z\<rparr>))
      else if a = 91 \<and> b = 67 then
        Some (if after z = [] then ([], z)
              else ([Out [27, 91, 67]], z\<lparr>before := before z @ [hd (after z)], after := tl (after z)\<rparr>))
      else Some ([], z))"

fun zloop :: "u8 list \<Rightarrow> u8 list \<Rightarrow> Zed \<Rightarrow> (line_end \<times> u8 list \<times> event list \<times> Zed) option" where
  "zloop p [] z = Some (NeedInput, [], [], z)"
| "zloop p (c # cs) z =
     (if c = 10 \<or> c = 13 then Some (Accept, cs, [Out [13, 10]], z)
      else if c = 27 then
        (case cs of
           a # b # cs \<Rightarrow> do {
             (out, z) \<leftarrow> zescape p a b z;
             (r, cs, outs, z) \<leftarrow> zloop p cs z;
             Some (r, cs, out @ outs, z)
           }
         | _ \<Rightarrow> Some (NeedInput, c # cs, [], z))
      else if c = 4 \<and> before z @ after z = [] then Some (Eof, cs, [Out [13, 10]], z)
      else if c = 3 then Some (Accept, cs, [Out [94, 67, 13, 10]], zput [] z)
      else do {
        (out, z) \<leftarrow> zkey p c z;
        (r, cs, outs, z) \<leftarrow> zloop p cs z;
        Some (r, cs, out @ outs, z)
      })"

text \<open>An accepted line that is not empty becomes the most recent of at most 16 earlier lines.\<close>

definition zread_line :: "u8 list \<Rightarrow> u8 list \<Rightarrow> Zed \<Rightarrow> (line_result \<times> u8 list \<times> event list \<times> Zed) option" where
  "zread_line p input z = do {
     (r, rest, out, z) \<leftarrow> zloop p input (zput [] z);
     let text = before z @ after z;
     let start = [Raw True, ErrOut p];
     Some (case r of
         NeedInput \<Rightarrow> (Typing, rest, start @ out, z)
       | Eof \<Rightarrow> (NoLine, rest, start @ out, z)
       | Accept \<Rightarrow> (GotLine text, rest, start @ out @ [Raw False],
           z\<lparr>earlier := (if text = [] then earlier z else take 16 (text # earlier z)), pos := 0\<rparr>))
   }"

section \<open>Abstraction\<close>

definition entry :: "LineEditor \<Rightarrow> nat \<Rightarrow> u8 list" where
  "entry e j = (let s = (history_entries e - 1 - j) mod 16 in take (history_lens e ! s) (history e ! s))"

lemma entry_offset [simp]: "entry (e\<lparr>history_offset := n\<rparr>) = entry e"
  by (simp add: entry_def fun_eq_iff)

definition zed :: "LineEditor \<Rightarrow> Zed" where
  "zed e = \<lparr>before = take (cursor e) (buf e), after = take (len e - cursor e) (drop (cursor e) (buf e)),
     earlier = map (entry e) [0..<min (history_entries e) 16], pos = history_offset e, kept = take (stashed_len e) (stashed_buf e)\<rparr>"

definition editor_inv :: "LineEditor \<Rightarrow> bool" where
  "editor_inv e \<longleftrightarrow>
     length (buf e) = 256 \<and> cursor e \<le> len e \<and> len e \<le> 256 \<and>
     length (history e) = 16 \<and> (\<forall>h \<in> set (history e). length h = 256) \<and>
     length (history_lens e) = 16 \<and> (\<forall>n \<in> set (history_lens e). n \<le> 256) \<and>
     history_offset e \<le> min (history_entries e) 16 \<and> length (stashed_buf e) = 256 \<and> stashed_len e \<le> 256"

lemmas line_defs = LINE_MAX_def HISTORY_SIZE_def

lemma editor_inv_new: "editor_inv line_editor_new"
  by (simp add: editor_inv_def line_editor_new_def line_defs)

text \<open>An operation on the buffers does what an operation on the lists says.\<close>

definition implements :: "(event list \<times> LineEditor) option \<Rightarrow> (event list \<times> Zed) option \<Rightarrow> LineEditor \<Rightarrow> bool" where
  "implements x y e \<longleftrightarrow>
     (case y of
        None \<Rightarrow> x = None
      | Some (out, z) \<Rightarrow> \<exists>e'. x = Some (out, e') \<and> editor_inv e' \<and> zed e' = z \<and> prompt e' = prompt e)"

lemma implements_id: "editor_inv e \<Longrightarrow> implements (Some (out, e)) (Some (out, zed e)) e"
  by (simp add: implements_def)

lemma length_digits: "n < 1000 \<Longrightarrow> length (digits n) \<le> 3"
  by (subst digits.simps, subst digits.simps, subst digits.simps, subst digits.simps) auto

lemma redraw_zdraw:
  assumes "editor_inv e" "length (prompt e) \<le> 246"
  shows "redraw e = Some (zdraw (prompt e) (zed e))"
proof -
  obtain x y where xy: "x = before (zed e)" "y = after (zed e)" by blast
  have n: "length x = cursor e" "length y = len e - cursor e" "take (len e) (buf e) = x @ y" "cursor e \<le> len e" "len e \<le> length (buf e)" "len e \<le> 256"
    using assms(1) unfolding xy by (auto simp: zed_def editor_inv_def simp flip: take_add)
  have "length (digits (length y)) \<le> 3" using n by (intro length_digits) simp
  then show ?thesis
    using assms(2) n unfolding redraw_def append_out_def write_decimal_def zdraw_def xy(1) [symmetric] xy(2) [symmetric] n(3)
    by (cases "y = []") (auto simp: Let_def)
qed

lemma redrawn_implements:
  assumes "editor_inv e'" "length (prompt e) \<le> 246" "prompt e' = prompt e" "zed e' = z"
  shows "implements (redrawn e') (zshow (prompt e) z) e"
  using redraw_zdraw [of e'] assms by (auto simp: redrawn_def implements_def zshow_def)

section \<open>Each key\<close>

lemma insert_implements:
  assumes "editor_inv e" "length (prompt e) \<le> 246"
  shows "implements (insert_char c e) (zinsert (prompt e) c (zed e)) e"
proof (cases "len e < 256")
  case True
  have cur: "cursor e \<le> len e" "len e < length (buf e)" using assms(1) True by (auto simp: editor_inv_def)
  let ?b = "take (cursor e) (buf e) @ c # take (len e - cursor e) (drop (cursor e) (buf e)) @ drop (Suc (len e)) (buf e)"
  let ?e = "e\<lparr>buf := ?b, cursor := cursor e + 1, len := len e + 1\<rparr>"
  have "insert_char c e = redrawn ?e"
    using shift_right_spec [OF cur, of c] cur True assms(1)
    by (auto simp: insert_char_def line_defs editor_inv_def bind_eq_Some_conv simp flip: Option.bind_assoc)
  moreover have "zinsert (prompt e) c (zed e) = zshow (prompt e) ((zed e)\<lparr>before := before (zed e) @ [c]\<rparr>)"
    using cur True assms(1) by (auto simp: zinsert_def zed_def editor_inv_def)
  moreover have "editor_inv ?e" "zed ?e = (zed e)\<lparr>before := before (zed e) @ [c]\<rparr>"
    using cur True assms(1) by (auto simp: editor_inv_def zed_def entry_def)
  ultimately show ?thesis using redrawn_implements [of ?e e] assms(2) by simp
next
  case False
  then have n: "len e = 256" "length (buf e) = 256" using assms(1) by (auto simp: editor_inv_def)
  show ?thesis
  proof (cases "cursor e = 256")
    case True
    then show ?thesis using n assms implements_id [of e] by (auto simp: insert_char_def zinsert_def line_defs zed_def)
  next
    case False
    then have "cursor e < 256" using assms(1) by (auto simp: editor_inv_def)
    then have "rev [cursor e..<256] = 255 # rev [cursor e..<255]" using upt_Suc_append [of "cursor e" 255] by simp
    then show ?thesis using n \<open>cursor e < 256\<close> by (simp add: insert_char_def zinsert_def line_defs zed_def implements_def put_at_def)
  qed
qed

lemma shift_implements:
  assumes "editor_inv e" "length (prompt e) \<le> 246" "d \<le> cursor e"
    and z: "z = (zed e)\<lparr>before := take (cursor e - d) (buf e)\<rparr>"
  shows "implements (do { b \<leftarrow> shift_left d e; assert_that (d \<le> len e); redrawn (e\<lparr>buf := b, len := len e - d, cursor := cursor e - d\<rparr>) })
    (zshow (prompt e) z) e"
proof -
  let ?b = "take (cursor e - d) (buf e) @ take (len e - cursor e) (drop (cursor e) (buf e)) @ drop (len e - d) (buf e)"
  let ?e = "e\<lparr>buf := ?b, len := len e - d, cursor := cursor e - d\<rparr>"
  have "shift_left d e = Some ?b"
    using shift_left_fold [of d "cursor e" "len e" "buf e"] assms(1,3) by (simp add: shift_left_def editor_inv_def)
  moreover have "editor_inv ?e" "zed ?e = z"
    using assms(1,3) unfolding z by (auto simp: editor_inv_def zed_def entry_def min_def)
  ultimately show ?thesis using redrawn_implements [of ?e e z] assms by (simp add: editor_inv_def)
qed

lemma backspace_implements:
  assumes "editor_inv e" "length (prompt e) \<le> 246" "cursor e \<noteq> 0"
  shows "implements (backspace e) (zshow (prompt e) ((zed e)\<lparr>before := butlast (before (zed e))\<rparr>)) e"
proof -
  let ?b = "take (cursor e - 1) (buf e) @ take (len e - cursor e) (drop (cursor e) (buf e)) @ drop (len e - 1) (buf e)"
  have "shift_left 1 e = Some ?b" "backspace e = redrawn (e\<lparr>buf := ?b, len := len e - 1, cursor := cursor e - 1\<rparr>)"
    using shift_left_fold [of 1 "cursor e" "len e" "buf e"] backspace_fold [of "cursor e" "len e" "buf e"] assms
    by (auto simp: shift_left_def editor_inv_def backspace_def)
  then have "backspace e = do { b \<leftarrow> shift_left 1 e; assert_that (1 \<le> len e); redrawn (e\<lparr>buf := b, len := len e - 1, cursor := cursor e - 1\<rparr>) }"
    using assms by (simp add: editor_inv_def)
  moreover have "take (cursor e - 1) (buf e) = butlast (before (zed e))"
    using assms by (simp add: zed_def editor_inv_def butlast_take)
  ultimately show ?thesis using shift_implements [of e 1 "(zed e)\<lparr>before := butlast (before (zed e))\<rparr>"] assms by simp
qed

lemma kill_word_implements:
  assumes "editor_inv e" "length (prompt e) \<le> 246"
  shows "implements (kill_word e) (zshow (prompt e) ((zed e)\<lparr>before := zword (before (zed e))\<rparr>)) e"
proof -
  let ?i = "skip_back (\<lambda>c. c = 32) (buf e) (cursor e)"
  let ?j = "skip_back (\<lambda>c. c \<noteq> 32) (buf e) ?i"
  have le: "?i \<le> cursor e" "?j \<le> ?i" by (rule skip_back_le)+
  have "take ?j (buf e) = zword (before (zed e))"
    using take_skip_back [of ?i "buf e" "\<lambda>c. c \<noteq> 32"] take_skip_back [of "cursor e" "buf e" "\<lambda>c. c = 32"] le assms(1)
    by (simp add: zword_def zed_def editor_inv_def)
  moreover have j: "cursor e - (cursor e - ?j) = ?j" using le by simp
  have "kill_word e = do { b \<leftarrow> shift_left (cursor e - ?j) e; assert_that (cursor e - ?j \<le> len e);
      redrawn (e\<lparr>buf := b, len := len e - (cursor e - ?j), cursor := cursor e - (cursor e - ?j)\<rparr>) }"
    unfolding kill_word_def Let_def j ..
  ultimately show ?thesis
    using shift_implements [of e "cursor e - ?j" "(zed e)\<lparr>before := zword (before (zed e))\<rparr>"] assms by (simp only: j diff_le_self simp_thms)
qed

lemma key_implements:
  assumes "editor_inv e" "length (prompt e) \<le> 246"
  shows "implements (handle_key c e) (zkey (prompt e) c (zed e)) e"
proof -
  have id: "implements (Some (out, e)) (Some (out, zed e)) e" for out using assms(1) by (rule implements_id)
  have len: "take (len e) (buf e) = before (zed e) @ after (zed e)"
    using assms(1) by (simp add: zed_def editor_inv_def flip: take_add)
  have nil: "before (zed e) = [] \<longleftrightarrow> cursor e = 0" using assms(1) by (auto simp: zed_def editor_inv_def)
  have "implements (move_to_start e) (zshow (prompt e) ((zed e)\<lparr>before := [], after := before (zed e) @ after (zed e)\<rparr>)) e"
    unfolding move_to_start_def len [symmetric] using assms by (intro redrawn_implements) (auto simp: editor_inv_def zed_def entry_def)
  moreover have "implements (move_to_end e) (zshow (prompt e) (zput (before (zed e) @ after (zed e)) (zed e))) e"
    unfolding move_to_end_def len [symmetric] using assms by (intro redrawn_implements) (auto simp: editor_inv_def zed_def entry_def zput_def)
  moreover have "implements (le_kill_line e) (zshow (prompt e) ((zed e)\<lparr>before := []\<rparr>)) e"
    using shift_implements [of e "cursor e" "(zed e)\<lparr>before := []\<rparr>"] assms by (simp add: le_kill_line_def)
  moreover have "implements (do { out \<leftarrow> redraw_full e; Some (out, e) }) (Some (Out [27, 91, 50, 74, 27, 91, 72] # zdraw (prompt e) (zed e), zed e)) e"
    using redraw_zdraw [OF assms] id by (simp add: redraw_full_def)
  ultimately show ?thesis
    using insert_implements [OF assms, of c] backspace_implements [OF assms] kill_word_implements [OF assms] id nil
    unfolding handle_key_def zkey_def by (auto simp: backspace_def)
qed

section \<open>The history\<close>

lemma load_spec:
  assumes "editor_inv e" "n \<le> length src" "length src = 256"
  shows "\<exists>b. copy_prefix n (buf e) src = Some b \<and> editor_inv (e\<lparr>buf := b, len := n, cursor := n\<rparr>) \<and>
    zed (e\<lparr>buf := b, len := n, cursor := n\<rparr>) = zput (take n src) (zed e)"
  using assms by (auto simp: copy_prefix_def editor_inv_def zed_def entry_def zput_def)

lemma load_from_history_spec:
  assumes "editor_inv e" "history_offset e \<noteq> 0"
  shows "\<exists>e'. load_from_history e = Some e' \<and> editor_inv e' \<and> prompt e' = prompt e \<and>
    zed e' = zput (earlier (zed e) ! (history_offset e - 1)) (zed e)"
proof -
  let ?s = "(history_entries e - history_offset e) mod 16"
  have o: "1 \<le> history_offset e" "history_offset e \<le> history_entries e" "history_offset e \<le> 16" using assms by (auto simp: editor_inv_def)
  have s: "?s < 16" by simp
  have mem: "history e ! ?s \<in> set (history e)" "history_lens e ! ?s \<in> set (history_lens e)"
    using assms(1) s by (auto simp: editor_inv_def)
  then have "history_lens e ! ?s \<le> length (history e ! ?s)" "length (history e ! ?s) = 256"
    using assms(1) by (auto simp: editor_inv_def)
  from load_spec [OF assms(1) this] obtain b where b: "copy_prefix (history_lens e ! ?s) (buf e) (history e ! ?s) = Some b"
    "editor_inv (e\<lparr>buf := b, len := history_lens e ! ?s, cursor := history_lens e ! ?s\<rparr>)"
    "zed (e\<lparr>buf := b, len := history_lens e ! ?s, cursor := history_lens e ! ?s\<rparr>) = zput (take (history_lens e ! ?s) (history e ! ?s)) (zed e)"
    by blast
  have "history_offset e - 1 < min (history_entries e) 16" using o by linarith
  then have "earlier (zed e) ! (history_offset e - 1) = entry e (history_offset e - 1)" by (simp add: zed_def)
  also have "\<dots> = take (history_lens e ! ?s) (history e ! ?s)" using o by (simp add: entry_def Let_def)
  finally show ?thesis using b o by (simp add: load_from_history_def line_defs Let_def)
qed

lemma up_implements:
  assumes "editor_inv e" "length (prompt e) \<le> 246"
  shows "implements (history_up e) (zup (prompt e) (zed e)) e"
proof (cases "history_offset e \<ge> min (history_entries e) 16")
  case True
  then show ?thesis using implements_id [OF assms(1)] by (auto simp: history_up_def zup_def line_defs zed_def)
next
  case False
  let ?stash = "if history_offset e = 0 then take (len e) (buf e) @ drop (len e) (stashed_buf e) else stashed_buf e"
  let ?n = "if history_offset e = 0 then len e else stashed_len e"
  let ?e = "e\<lparr>stashed_buf := ?stash, stashed_len := ?n, history_offset := history_offset e + 1\<rparr>"
  have t: "take (len e) (buf e) = before (zed e) @ after (zed e)"
    using assms(1) by (simp add: zed_def editor_inv_def flip: take_add)
  have inv: "editor_inv ?e" using assms(1) False by (auto simp: editor_inv_def)
  have z: "zed ?e = (zed e)\<lparr>pos := pos (zed e) + 1, kept := (if pos (zed e) = 0 then before (zed e) @ after (zed e) else kept (zed e))\<rparr>"
    using assms(1) unfolding t [symmetric] by (auto simp: zed_def entry_def editor_inv_def)
  obtain e' where e': "load_from_history ?e = Some e'" "editor_inv e'" "prompt e' = prompt e"
    "zed e' = zput (earlier (zed ?e) ! history_offset e) (zed ?e)"
    using load_from_history_spec [OF inv] by auto
  have "history_up e = redrawn e'"
    using False assms(1) e'(1) by (auto simp: history_up_def line_defs copy_prefix_def editor_inv_def Let_def split: if_splits)
  moreover have "zup (prompt e) (zed e) = zshow (prompt e) (zed e')"
    using False e'(4) unfolding z by (simp add: zup_def zed_def)
  ultimately show ?thesis using redrawn_implements [OF e'(2) assms(2) e'(3) refl] by simp
qed

lemma down_implements:
  assumes "editor_inv e" "length (prompt e) \<le> 246"
  shows "implements (history_down e) (zdown (prompt e) (zed e)) e"
proof (cases "history_offset e = 0")
  case True
  then show ?thesis using implements_id [OF assms(1)] by (simp add: history_down_def zdown_def zed_def)
next
  case False
  let ?e = "e\<lparr>history_offset := history_offset e - 1\<rparr>"
  have inv: "editor_inv ?e" using assms(1) by (auto simp: editor_inv_def)
  have z: "zed ?e = (zed e)\<lparr>pos := pos (zed e) - 1\<rparr>" by (simp add: zed_def entry_def)
  show ?thesis
  proof (cases "history_offset e = 1")
    case True
    obtain b where b: "copy_prefix (stashed_len e) (buf e) (stashed_buf e) = Some b"
      "editor_inv (?e\<lparr>buf := b, len := stashed_len e, cursor := stashed_len e\<rparr>)"
      "zed (?e\<lparr>buf := b, len := stashed_len e, cursor := stashed_len e\<rparr>) = zput (take (stashed_len e) (stashed_buf e)) (zed ?e)"
      using load_spec [OF inv, of "stashed_len e" "stashed_buf e"] assms(1) by (auto simp: editor_inv_def)
    have "zdown (prompt e) (zed e) = zshow (prompt e) (zput (take (stashed_len e) (stashed_buf e)) (zed ?e))"
      using True by (simp add: zdown_def zed_def)
    then show ?thesis using redrawn_implements [OF b(2) assms(2) _ b(3)] b(1) True by (simp add: history_down_def)
  next
    case ne: False
    have two: "history_offset ?e - 1 = history_offset e - 2" "history_offset ?e \<noteq> 0" "prompt ?e = prompt e" using False ne by auto
    obtain e' where e': "load_from_history ?e = Some e'" "editor_inv e'" "prompt e' = prompt e"
      "zed e' = zput (earlier (zed ?e) ! (history_offset e - 2)) (zed ?e)"
      using load_from_history_spec [OF inv two(2)] unfolding two(1,3) by blast
    have "history_down e = redrawn e'" using False ne e'(1) by (simp add: history_down_def)
    moreover have "zdown (prompt e) (zed e) = zshow (prompt e) (zed e')"
      using False ne e'(4) unfolding z by (simp add: zdown_def zed_def)
    ultimately show ?thesis using redrawn_implements [OF e'(2) assms(2) e'(3) refl] by simp
  qed
qed

lemma moves_implement:
  assumes "editor_inv e"
  shows "implements (Some (move_left e)) (zescape p 91 68 (zed e)) e"
    and "implements (Some (move_right e)) (zescape p 91 67 (zed e)) e"
proof -
  have n: "cursor e \<le> len e" "len e \<le> length (buf e)" using assms by (auto simp: editor_inv_def)
  show "implements (Some (move_left e)) (zescape p 91 68 (zed e)) e"
  proof (cases "cursor e = 0")
    case False
    let ?e = "e\<lparr>cursor := cursor e - 1\<rparr>"
    have "last (take (cursor e) (buf e)) = buf e ! (cursor e - 1)" using False n by (subst last_conv_nth) (auto simp: min_absorb2)
    moreover have "take (len e - (cursor e - 1)) (drop (cursor e - 1) (buf e)) = buf e ! (cursor e - 1) # take (len e - cursor e) (drop (cursor e) (buf e))"
      using False n Cons_nth_drop_Suc [of "cursor e - 1" "buf e", symmetric] by (auto simp: take_Cons')
    ultimately have "zed ?e = (zed e)\<lparr>before := butlast (before (zed e)), after := last (before (zed e)) # after (zed e)\<rparr>"
      using False n by (simp add: zed_def entry_def butlast_take)
    moreover have "editor_inv ?e" using assms by (auto simp: editor_inv_def)
    ultimately show ?thesis using False n by (auto simp: implements_def move_left_def zescape_def) (auto simp: zed_def)
  qed (use implements_id [OF assms] n in \<open>auto simp: move_left_def zescape_def zed_def\<close>)
  show "implements (Some (move_right e)) (zescape p 91 67 (zed e)) e"
  proof (cases "cursor e = len e")
    case False
    let ?e = "e\<lparr>cursor := cursor e + 1\<rparr>"
    have d: "take (len e - cursor e) (drop (cursor e) (buf e)) = buf e ! cursor e # take (len e - (cursor e + 1)) (drop (cursor e + 1) (buf e))"
      using False n Cons_nth_drop_Suc [of "cursor e" "buf e", symmetric] by (auto simp: take_Cons')
    then have "zed ?e = (zed e)\<lparr>before := before (zed e) @ [hd (after (zed e))], after := tl (after (zed e))\<rparr>" "after (zed e) \<noteq> []"
      using False n by (auto simp: zed_def entry_def take_Suc_conv_app_nth)
    moreover have "editor_inv ?e" using assms False by (auto simp: editor_inv_def)
    ultimately show ?thesis using False n by (auto simp: implements_def move_right_def zescape_def)
  qed (use implements_id [OF assms] n in \<open>auto simp: move_right_def zescape_def zed_def\<close>)
qed

lemma escape_implements:
  assumes "editor_inv e" "length (prompt e) \<le> 246"
  shows "implements (handle_escape a b e) (zescape (prompt e) a b (zed e)) e"
  using moves_implement [OF assms(1), of "prompt e"] up_implements [OF assms] down_implements [OF assms] implements_id [OF assms(1)]
  unfolding handle_escape_def zescape_def by (auto simp: zescape_def)

lemma add_entry:
  assumes "length h = 16" "length n = 16" "i < min (m + 1) 16"
  shows "take (n[m mod 16 := l] ! ((m - i) mod 16)) (h[m mod 16 := x] ! ((m - i) mod 16)) =
    (if i = 0 then take l x else take (n ! ((m - i) mod 16)) (h ! ((m - i) mod 16)))"
proof (cases "i = 0")
  case False
  have "(m - i) mod 16 \<noteq> m mod 16"
  proof
    assume "(m - i) mod 16 = m mod 16"
    then have "16 dvd m - (m - i)" using mod_eq_dvd_iff_nat [of "m - i" m 16] by simp
    moreover have "m - (m - i) = i" using assms(3) by simp
    ultimately show False using False assms(3) by (auto dest: dvd_imp_le)
  qed
  then show ?thesis using False by simp
qed (use assms in simp)

lemma add_to_history_spec:
  assumes "editor_inv e"
  shows "\<exists>e'. add_to_history e = Some e' \<and> editor_inv (e'\<lparr>history_offset := 0\<rparr>) \<and> len e' = len e \<and> buf e' = buf e \<and>
    zed (e'\<lparr>history_offset := 0\<rparr>) = (zed e)\<lparr>earlier := take 16 (take (len e) (buf e) # earlier (zed e)), pos := 0\<rparr>"
proof -
  let ?m = "history_entries e"
  let ?s = "?m mod 16"
  let ?h = "take (len e) (buf e) @ drop (len e) (history e ! ?s)"
  let ?e = "e\<lparr>history := (history e)[?s := ?h], history_lens := (history_lens e)[?s := len e], history_entries := ?m + 1\<rparr>"
  have n: "length (history e) = 16" "length (history_lens e) = 16" "len e \<le> 256" "length (buf e) = 256" using assms by (auto simp: editor_inv_def)
  have "history e ! ?s \<in> set (history e)" using n by simp
  then have hs: "length (history e ! ?s) = 256" using assms by (simp add: editor_inv_def)
  have "add_to_history e = Some ?e" using n hs by (simp add: add_to_history_def line_defs copy_prefix_def Let_def)
  moreover have "editor_inv (?e\<lparr>history_offset := 0\<rparr>)"
    using assms n hs by (auto simp: editor_inv_def dest!: subsetD [OF set_update_subset_insert])
  moreover have "map (entry ?e) [0..<min (?m + 1) 16] = take 16 (take (len e) (buf e) # map (entry e) [0..<min ?m 16])"
  proof (rule nth_equalityI)
    fix i assume "i < length (map (entry ?e) [0..<min (?m + 1) 16])"
    then have i: "i < min (?m + 1) 16" by simp
    have "entry ?e i = (if i = 0 then take (len e) ?h else take (history_lens e ! ((?m - i) mod 16)) (history e ! ((?m - i) mod 16)))"
      using add_entry [OF n(1,2) i, of "len e" ?h] by (simp add: entry_def Let_def)
    moreover have "take (len e) ?h = take (len e) (buf e)" using n by simp
    moreover have "map (entry ?e) [0..<min (?m + 1) 16] ! i = entry ?e i"
      using i by (subst nth_map) (simp_all add: nth_upt del: upt_Suc)
    moreover have "take 16 (take (len e) (buf e) # map (entry e) [0..<min ?m 16]) ! i =
        (if i = 0 then take (len e) (buf e) else entry e (i - 1))"
      using i by (cases i) auto
    moreover have "?m - 1 - (i - 1) = ?m - i" if "i \<noteq> 0" using that i by simp
    ultimately show "map (entry ?e) [0..<min (?m + 1) 16] ! i = take 16 (take (len e) (buf e) # map (entry e) [0..<min ?m 16]) ! i"
      by (simp add: entry_def Let_def)
  qed simp
  ultimately show ?thesis by (auto simp: zed_def)
qed

section \<open>Whole lines\<close>

lemma loop_refines:
  assumes "editor_inv e" "prompt e = p" "length p \<le> 246"
  shows "case zloop p cs (zed e) of None \<Rightarrow> edit_loop cs e = None
    | Some (r, rest, out, z) \<Rightarrow> \<exists>e'. edit_loop cs e = Some (r, rest, out, e') \<and> editor_inv e' \<and> zed e' = z"
  using assms
proof (induction "length cs" arbitrary: cs e rule: less_induct)
  case less
  have step: "case Option.bind y (\<lambda>(out, z). Option.bind (zloop p cs' z) (\<lambda>(r, cs, outs, z). Some (r, cs, out @ outs, z))) of
      None \<Rightarrow> Option.bind x (\<lambda>(out, e). Option.bind (edit_loop cs' e) (\<lambda>(r, cs, outs, e). Some (r, cs, out @ outs, e))) = None
    | Some (r, rest, out, z) \<Rightarrow> \<exists>e'. Option.bind x (\<lambda>(out, e). Option.bind (edit_loop cs' e) (\<lambda>(r, cs, outs, e). Some (r, cs, out @ outs, e))) = Some (r, rest, out, e') \<and> editor_inv e' \<and> zed e' = z"
    if imp: "implements x y e" and short: "length cs' < length cs" for x y cs'
  proof (cases y)
    case (Some q)
    obtain out z where q: "q = (out, z)" by fastforce
    then obtain e1 where e1: "x = Some (out, e1)" "editor_inv e1" "zed e1 = z" "prompt e1 = p"
      using imp Some less.prems(2) by (auto simp: implements_def)
    show ?thesis using less.hyps [OF short e1(2,4) less.prems(3)] e1 Some q by (auto split: option.splits)
  qed (use imp in \<open>simp add: implements_def\<close>)
  have empty: "before (zed e) @ after (zed e) = [] \<longleftrightarrow> len e = 0"
    using less.prems(1) by (auto simp: zed_def editor_inv_def)
  have id: "\<exists>e'. Some (r, rest, out, e) = Some (r, rest, out, e') \<and> editor_inv e' \<and> zed e' = zed e" for r :: line_end and rest :: "u8 list" and out
    using less.prems(1) by simp
  have cut: "editor_inv (e\<lparr>len := 0, cursor := 0\<rparr>)" "zed (e\<lparr>len := 0, cursor := 0\<rparr>) = zput [] (zed e)"
    using less.prems(1) by (auto simp: editor_inv_def zed_def entry_def zput_def)
  show ?case
  proof (cases cs)
    case (Cons c cs1)
    note key = step [OF key_implements [OF less.prems(1), unfolded less.prems(2), OF less.prems(3), of c], of cs1]
    show ?thesis
    proof (cases "c = 27")
      case True
      show ?thesis
      proof (cases "\<exists>a b cs2. cs1 = a # b # cs2")
        case True
        then obtain a b cs2 where cs1: "cs1 = a # b # cs2" by blast
        have "zloop p cs (zed e) = Option.bind (zescape p a b (zed e)) (\<lambda>(out, z). Option.bind (zloop p cs2 z) (\<lambda>(r, cs, outs, z). Some (r, cs, out @ outs, z)))"
          "edit_loop cs e = Option.bind (handle_escape a b e) (\<lambda>(out, e). Option.bind (edit_loop cs2 e) (\<lambda>(r, cs, outs, e). Some (r, cs, out @ outs, e)))"
          "length cs2 < length cs"
          using Cons cs1 \<open>c = 27\<close> by auto
        then show ?thesis
          using step [OF escape_implements [OF less.prems(1), unfolded less.prems(2), OF less.prems(3), of a b], of cs2] by presburger
      next
        case False
        then show ?thesis using Cons \<open>c = 27\<close> id by (auto split: list.splits)
      qed
    next
      case False
      show ?thesis
      proof (cases "c = 10 \<or> c = 13 \<or> c = 4 \<and> len e = 0 \<or> c = 3")
        case True
        then show ?thesis using Cons False empty id cut by auto
      next
        case other: False
        then have "zloop p cs (zed e) = Option.bind (zkey p c (zed e)) (\<lambda>(out, z). Option.bind (zloop p cs1 z) (\<lambda>(r, cs, outs, z). Some (r, cs, out @ outs, z)))"
          "edit_loop cs e = Option.bind (handle_key c e) (\<lambda>(out, e). Option.bind (edit_loop cs1 e) (\<lambda>(r, cs, outs, e). Some (r, cs, out @ outs, e)))"
          "length cs1 < length cs"
          using Cons False empty by auto
        then show ?thesis using key by presburger
      qed
    qed
  qed (use id in auto)
qed

text \<open>
  Property C6.  For any bytes typed, with a prompt of at most 246 bytes, \<open>read_line\<close> on the buffers returns
  the same line, leaves the same bytes unread, writes the same output and keeps the same history as the editor on
  lists; it panics only where that editor fails, which is typing a character into a full line before its end.
\<close>

theorem line_editor_refines:
  assumes "editor_inv e" "length p \<le> 246"
  shows "case zread_line p input (zed e) of
      None \<Rightarrow> read_line p input e = None
    | Some (r, rest, events, z) \<Rightarrow> \<exists>e'. read_line p input e = Some (r, rest, events, e') \<and> editor_inv e' \<and> zed e' = z"
proof -
  let ?e = "e\<lparr>len := 0, cursor := 0, prompt := p\<rparr>"
  have z: "zed ?e = zput [] (zed e)" "editor_inv ?e" "prompt ?e = p"
    using assms(1) by (auto simp: editor_inv_def zed_def entry_def zput_def)
  show ?thesis
  proof (cases "zloop p input (zed ?e)")
    case None
    then show ?thesis using loop_refines [OF z(2,3) assms(2), of input] z(1) by (simp add: zread_line_def read_line_def)
  next
    case (Some q)
    obtain r rest out zz where q: "q = (r, rest, out, zz)" by (metis prod_cases4)
    then obtain e' where e': "edit_loop input ?e = Some (r, rest, out, e')" "editor_inv e'" "zed e' = zz"
      using loop_refines [OF z(2,3) assms(2), of input] Some by auto
    have t: "take (len e') (buf e') = before zz @ after zz" "len e' \<le> length (buf e')" "len e' > 0 \<longleftrightarrow> before zz @ after zz \<noteq> []"
      using e'(2,3) by (auto simp: zed_def editor_inv_def simp flip: take_add)
    obtain e2 where e2: "add_to_history e' = Some e2" "editor_inv (e2\<lparr>history_offset := 0\<rparr>)" "len e2 = len e'" "buf e2 = buf e'"
      "zed (e2\<lparr>history_offset := 0\<rparr>) = zz\<lparr>earlier := take 16 ((before zz @ after zz) # earlier zz), pos := 0\<rparr>"
      using add_to_history_spec [OF e'(2)] t e'(3) by auto
    have e3: "editor_inv (e'\<lparr>history_offset := 0\<rparr>)" "zed (e'\<lparr>history_offset := 0\<rparr>) = zz\<lparr>pos := 0\<rparr>"
      using e'(2,3) by (auto simp: editor_inv_def zed_def)
    show ?thesis
      using Some q e' e2 e3 t z(1) by (cases r; cases "len e' > 0") (auto simp: zread_line_def read_line_def Let_def)
  qed
qed

theorem line_editor_refines_witness:
  "\<exists>e'. read_line [36, 32] [120, 115, 27, 91, 68, 8, 108, 13, 10] line_editor_new =
     Some (GotLine [108, 115], [10],
       [Raw True, ErrOut [36, 32], Out [13, 36, 32, 120, 27, 91, 75], Out [13, 36, 32, 120, 115, 27, 91, 75], Out [27, 91, 68],
        Out [13, 36, 32, 115, 27, 91, 75, 27, 91, 49, 68], Out [13, 36, 32, 108, 115, 27, 91, 75, 27, 91, 49, 68], Out [13, 10], Raw False], e') \<and>
     editor_inv e' \<and> earlier (zed e') = [[108, 115]]"
proof -
  have z: "zed line_editor_new = \<lparr>before = [], after = [], earlier = [], pos = 0, kept = []\<rparr>"
    by (simp add: zed_def line_editor_new_def)
  have d: "rev (digits (Suc 0)) = [49]" by (simp add: digits.simps)
  have "zread_line [36, 32] [120, 115, 27, 91, 68, 8, 108, 13, 10] (zed line_editor_new) =
     Some (GotLine [108, 115], [10],
       [Raw True, ErrOut [36, 32], Out [13, 36, 32, 120, 27, 91, 75], Out [13, 36, 32, 120, 115, 27, 91, 75], Out [27, 91, 68],
        Out [13, 36, 32, 115, 27, 91, 75, 27, 91, 49, 68], Out [13, 36, 32, 108, 115, 27, 91, 75, 27, 91, 49, 68], Out [13, 10], Raw False],
       \<lparr>before = [108], after = [115], earlier = [[108, 115]], pos = 0, kept = []\<rparr>)"
    unfolding z by (simp add: zread_line_def zkey_def zput_def zescape_def zinsert_def zshow_def zdraw_def is_text_def d Let_def)
  then show ?thesis
    using line_editor_refines [OF editor_inv_new, of "[36, 32]" "[120, 115, 27, 91, 68, 8, 108, 13, 10]"] by auto
qed

end
