(* ===== verification/Shell.thy ===== *)
theory Shell
  imports Line_Editor "HOL-Library.Sublist"
begin

text \<open>
  The shell (\<open>user/bin/sh.rs\<close>): the tokenizer, the parser with its arenas, and the commands it runs.  A line is
  a list of ASCII bytes, as the line editor returns it.  Tokens are produced all at once instead of
  on demand.  What \<open>run_cmd\<close> does is the tree of its system calls, with a branch for the child and one for the parent at
  each \<open>fork\<close>.
\<close>

unbundle bit_operations_syntax

section \<open>Tokens\<close>

definition MAXARGS :: nat where "MAXARGS = 16"
definition MAXNODES :: nat where "MAXNODES = 16"
definition MAXARGV :: nat where "MAXARGV = 32"

definition is_whitespace :: "u8 \<Rightarrow> bool" where
  "is_whitespace c \<longleftrightarrow> c = 32 \<or> 9 \<le> c \<and> c \<le> 13"

definition is_symbol :: "u8 \<Rightarrow> bool" where
  "is_symbol c \<longleftrightarrow> c \<in> {124, 40, 41, 59, 38, 60, 62}"

definition is_word_char :: "u8 \<Rightarrow> bool" where
  "is_word_char c \<longleftrightarrow> \<not> (is_whitespace c \<or> is_symbol c)"

definition next_token :: "u8 list \<Rightarrow> (u8 list \<times> u8 list) option" where
  "next_token input =
     (case dropWhile is_whitespace input of
        [] \<Rightarrow> None
      | c # cs \<Rightarrow>
          if c = 62 then (if take 1 cs = [62] then Some ([62, 62], drop 1 cs) else Some ([62], cs))
          else if is_symbol c then Some ([c], cs)
          else Some (c # takeWhile is_word_char cs, dropWhile is_word_char cs))"

lemma next_token_shorter: "next_token s = Some (t, r) \<Longrightarrow> length r < length s"
proof -
  have "length (dropWhile is_whitespace s) \<le> length s" by (rule length_dropWhile_le)
  moreover have "length (dropWhile is_word_char cs) < Suc (length cs)" for cs by (simp add: less_Suc_eq_le length_dropWhile_le)
  ultimately show "next_token s = Some (t, r) \<Longrightarrow> length r < length s"
    by (auto simp: next_token_def split: list.splits if_splits intro: less_le_trans)
qed

function tokenize :: "u8 list \<Rightarrow> u8 list list" where
  "tokenize s = (case next_token s of None \<Rightarrow> [] | Some (t, r) \<Rightarrow> t # tokenize r)"
  by pat_completeness auto
termination
  by (relation "measure length") (auto dest: next_token_shorter)

declare tokenize.simps [simp del]

section \<open>Arenas\<close>

text \<open>\<open>fd\<close> is the descriptor a redirection replaces.\<close>

datatype CommandType =
    CExec nat nat
  | CRedirect nat "u8 list" usize nat
  | CPipe nat nat
  | CList nat nat
  | CBackground nat

record Arena =
  nodes :: "CommandType option list"
  node_count :: nat
  argv :: "u8 list list"
  argv_count :: nat

definition arena_new :: Arena where
  "arena_new = \<lparr>nodes = replicate MAXNODES None, node_count = 0, argv = replicate MAXARGV [], argv_count = 0\<rparr>"

fun store_args :: "u8 list list \<Rightarrow> Arena \<Rightarrow> Arena option" where
  "store_args [] A = Some A"
| "store_args (arg # args) A = do {
     assert_that (argv_count A < length (argv A));
     let A = A\<lparr>argv := (argv A)[argv_count A := arg], argv_count := argv_count A + 1\<rparr>;
     assert_that (argv_count A < length (argv A));
     store_args args A
   }"

definition alloc_argv :: "u8 list list \<Rightarrow> Arena \<Rightarrow> ((nat \<times> nat) \<times> Arena) option" where
  "alloc_argv args A = do {
     let start = argv_count A;
     A \<leftarrow> store_args args A;
     Some ((start, length args), A)
   }"

definition alloc_cmd :: "CommandType \<Rightarrow> Arena \<Rightarrow> (nat \<times> Arena) option" where
  "alloc_cmd cmd A = do {
     let idx = node_count A;
     assert_that (idx < length (nodes A));
     let A = A\<lparr>nodes := (nodes A)[idx := Some cmd], node_count := idx + 1\<rparr>;
     assert_that (node_count A < length (nodes A));
     Some (idx, A)
   }"

section \<open>The parser\<close>

definition peek_token :: "u8 list list \<Rightarrow> u8 list option" where
  "peek_token ts = (case ts of [] \<Rightarrow> None | t # _ \<Rightarrow> Some t)"

definition is_special :: "u8 list \<Rightarrow> bool" where
  "is_special token \<longleftrightarrow> sublist token [124, 40, 41, 38, 59, 60, 62, 62]"

text \<open>Mode and descriptor of a redirection.\<close>

definition redirection :: "u8 list \<Rightarrow> (usize \<times> nat) option" where
  "redirection token =
     (if token = [60] then Some (0x000, 0)
      else if token = [62] then Some (0x001 OR 0x200 OR 0x400, 1)
      else if token = [62, 62] then Some (0x001 OR 0x200, 1)
      else None)"

fun parse_redirects :: "CommandType \<Rightarrow> u8 list list \<Rightarrow> Arena \<Rightarrow> (CommandType \<times> u8 list list \<times> Arena) option" where
  "parse_redirects cmd [] A = Some (cmd, [], A)"
| "parse_redirects cmd [t] A = (if redirection t = None then Some (cmd, [t], A) else None)"
| "parse_redirects cmd (t # file # ts) A =
     (case redirection t of
        None \<Rightarrow> Some (cmd, t # file # ts, A)
      | Some (mode, fd) \<Rightarrow> do {
          (inner, A) \<leftarrow> alloc_cmd cmd A;
          parse_redirects (CRedirect inner file mode fd) ts A
        })"

definition parse_args :: "u8 list list \<Rightarrow> Arena \<Rightarrow> (CommandType option \<times> u8 list list \<times> Arena) option" where
  "parse_args ts A = do {
     let args = takeWhile (\<lambda>t. \<not> is_special t) ts;
     let ts = dropWhile (\<lambda>t. \<not> is_special t) ts;
     assert_that (length args \<le> MAXARGS);
     if args = [] then Some (None, ts, A)
     else do {
       ((start, argc), A) \<leftarrow> alloc_argv args A;
       (cmd, ts, A) \<leftarrow> parse_redirects (CExec start argc) ts A;
       Some (Some cmd, ts, A)
     }
   }"

definition parse_background :: "CommandType \<Rightarrow> u8 list list \<Rightarrow> Arena \<Rightarrow> (CommandType \<times> u8 list list \<times> Arena) option" where
  "parse_background cmd ts A =
     (if peek_token ts = Some [38] then do {
        (i, A) \<leftarrow> alloc_cmd cmd A;
        Some (CBackground i, tl ts, A)
      } else Some (cmd, ts, A))"

lemma parse_redirects_shorter: "parse_redirects cmd ts A = Some (cmd', ts', A') \<Longrightarrow> length ts' \<le> length ts"
proof (induction cmd ts A rule: parse_redirects.induct)
  case (3 cmd t f ts A)
  show ?case
  proof (cases "redirection t")
    case (Some p)
    obtain mode fd where p: "p = (mode, fd)" by fastforce
    obtain i A1 where a: "alloc_cmd cmd A = Some (i, A1)" "parse_redirects (CRedirect i f mode fd) ts A1 = Some (cmd', ts', A')"
      using "3.prems" Some p by (auto simp: bind_eq_Some_conv)
    then show ?thesis using "3.IH" [OF Some p [symmetric] a(1) refl a(2)] by simp
  qed (use 3 in simp)
qed (auto split: if_splits)

lemma parse_args_shorter: "parse_args ts A = Some (r, ts', A') \<Longrightarrow> length ts' \<le> length ts"
proof -
  have "length (dropWhile (\<lambda>t. \<not> is_special t) ts) \<le> length ts" by (rule length_dropWhile_le)
  then show "parse_args ts A = Some (r, ts', A') \<Longrightarrow> length ts' \<le> length ts"
    by (auto simp: parse_args_def Let_def bind_eq_Some_conv split: if_splits dest!: parse_redirects_shorter)
qed

lemma parse_background_shorter: "parse_background cmd ts A = Some (cmd', ts', A') \<Longrightarrow> length ts' \<le> length ts"
  by (auto simp: parse_background_def bind_eq_Some_conv split: if_splits)

function parse_line :: "u8 list list \<Rightarrow> Arena \<Rightarrow> (CommandType option \<times> u8 list list \<times> Arena) option"
  and parse_pipe :: "u8 list list \<Rightarrow> Arena \<Rightarrow> (CommandType option \<times> u8 list list \<times> Arena) option"
  and parse_exec :: "u8 list list \<Rightarrow> Arena \<Rightarrow> (CommandType option \<times> u8 list list \<times> Arena) option" where
  "parse_line ts A = do {
     (r, ts, A) \<leftarrow> parse_pipe ts A;
     case r of
       None \<Rightarrow> Some (None, ts, A)
     | Some cmd \<Rightarrow> do {
         (cmd, ts, A) \<leftarrow> parse_background cmd ts A;
         if peek_token ts = Some [59] then do {
           (r, ts, A) \<leftarrow> parse_line (tl ts) A;
           case r of
             None \<Rightarrow> Some (Some cmd, ts, A)
           | Some right \<Rightarrow> do {
               (i, A) \<leftarrow> alloc_cmd cmd A;
               (j, A) \<leftarrow> alloc_cmd right A;
               Some (Some (CList i j), ts, A)
             }
         } else Some (Some cmd, ts, A)
       }
   }"
| "parse_pipe ts A = do {
     (r, ts, A) \<leftarrow> parse_exec ts A;
     case r of
       None \<Rightarrow> Some (None, ts, A)
     | Some left \<Rightarrow>
         if peek_token ts = Some [124] then do {
           (r, ts, A) \<leftarrow> parse_pipe (tl ts) A;
           case r of
             None \<Rightarrow> Some (None, ts, A)
           | Some right \<Rightarrow> do {
               (i, A) \<leftarrow> alloc_cmd left A;
               (j, A) \<leftarrow> alloc_cmd right A;
               Some (Some (CPipe i j), ts, A)
             }
         } else Some (Some left, ts, A)
   }"
| "parse_exec ts A =
     (if peek_token ts = Some [40] then do {
        (r, ts, A) \<leftarrow> parse_line (tl ts) A;
        case r of
          None \<Rightarrow> Some (None, ts, A)
        | Some cmd \<Rightarrow> do {
            assert_that (peek_token ts = Some [41]);
            (cmd, ts, A) \<leftarrow> parse_redirects cmd (tl ts) A;
            Some (Some cmd, ts, A)
          }
      } else parse_args ts A)"
  by pat_completeness auto

termination
proof -
  have shorter:
    "parse_line_parse_pipe_parse_exec_dom (Inl (ts, A)) \<Longrightarrow> parse_line ts A = Some (r, ts', A') \<Longrightarrow> length ts' \<le> length ts"
    "parse_line_parse_pipe_parse_exec_dom (Inr (Inl (ts, A))) \<Longrightarrow> parse_pipe ts A = Some (r, ts', A') \<Longrightarrow> length ts' \<le> length ts"
    "parse_line_parse_pipe_parse_exec_dom (Inr (Inr (ts, A))) \<Longrightarrow> parse_exec ts A = Some (r, ts', A') \<Longrightarrow> length ts' \<le> length ts"
    for ts A r ts' A'
  proof (induction ts A and ts A and ts A arbitrary: r ts' A' and r ts' A' and r ts' A' rule: parse_line_parse_pipe_parse_exec.pinduct)
    case (1 ts A)
    obtain r1 ts1 A1 where p: "parse_pipe ts A = Some (r1, ts1, A1)"
      using "1.prems" "1.hyps" by (auto simp: parse_line.psimps bind_eq_Some_conv)
    show ?case
    proof (cases r1)
      case (Some cmd)
      obtain cmd2 ts2 A2 where b: "parse_background cmd ts1 A1 = Some (cmd2, ts2, A2)"
        using "1.prems" "1.hyps" p Some by (auto simp: parse_line.psimps bind_eq_Some_conv)
      note le = "1.IH"(1) [OF p] parse_background_shorter [OF b]
      show ?thesis
      proof (cases "peek_token ts2 = Some [59]")
        case True
        obtain r3 A3 where "parse_line (tl ts2) A2 = Some (r3, ts', A3)"
          using "1.prems" "1.hyps" p Some b True by (auto simp: parse_line.psimps bind_eq_Some_conv split: option.splits)
        then show ?thesis using "1.IH"(2) [OF p refl refl Some b refl refl True] le by fastforce
      qed (use "1.prems" "1.hyps" p Some b le in \<open>auto simp: parse_line.psimps\<close>)
    qed (use "1.prems" "1.hyps" p "1.IH"(1) [OF p] in \<open>auto simp: parse_line.psimps\<close>)
  next
    case (2 ts A)
    obtain r1 ts1 A1 where p: "parse_exec ts A = Some (r1, ts1, A1)"
      using "2.prems" "2.hyps" by (auto simp: parse_pipe.psimps bind_eq_Some_conv)
    show ?case
    proof (cases r1)
      case (Some cmd)
      show ?thesis
      proof (cases "peek_token ts1 = Some [124]")
        case True
        obtain r3 A3 where "parse_pipe (tl ts1) A1 = Some (r3, ts', A3)"
          using "2.prems" "2.hyps" p Some True by (auto simp: parse_pipe.psimps bind_eq_Some_conv split: option.splits)
        then show ?thesis using "2.IH"(2) [OF p refl refl Some True] "2.IH"(1) [OF p] by fastforce
      qed (use "2.prems" "2.hyps" p Some "2.IH"(1) [OF p] in \<open>auto simp: parse_pipe.psimps\<close>)
    qed (use "2.prems" "2.hyps" p "2.IH"(1) [OF p] in \<open>auto simp: parse_pipe.psimps\<close>)
  next
    case (3 ts A)
    show ?case
    proof (cases "peek_token ts = Some [40]")
      case True
      obtain r1 ts1 A1 where p: "parse_line (tl ts) A = Some (r1, ts1, A1)"
        using "3.prems" "3.hyps" True by (auto simp: parse_exec.psimps bind_eq_Some_conv)
      note le = "3.IH" [OF True p]
      show ?thesis
        using "3.prems" "3.hyps" True p le
        by (cases r1) (auto simp: parse_exec.psimps bind_eq_Some_conv split: if_splits dest!: parse_redirects_shorter)
    qed (use "3.prems" "3.hyps" in \<open>auto simp: parse_exec.psimps dest: parse_args_shorter\<close>)
  qed
  show ?thesis
    by (relation "measure (\<lambda>x. case x of Inl (ts, A) \<Rightarrow> 3 * length ts + 2 | Inr (Inl (ts, A)) \<Rightarrow> 3 * length ts + 1 | Inr (Inr (ts, A)) \<Rightarrow> 3 * length ts)")
      (auto dest!: shorter parse_background_shorter simp: peek_token_def split: list.splits)
qed

declare parse_line.simps [simp del] parse_pipe.simps [simp del] parse_exec.simps [simp del]

section \<open>Running a command\<close>

text \<open>
  The system calls of a process: each constructor is one call and what follows it.  \<open>PExec\<close> replaces the process
  and \<open>PStop\<close> ends it with a message on the error stream or a panic.
\<close>

datatype prog =
    PExec "u8 list" "u8 list list"
  | PClose nat prog
  | POpen "u8 list" usize prog
  | PPipe "nat \<Rightarrow> nat \<Rightarrow> prog"
  | PDup nat prog
  | PFork prog prog
  | PWait prog
  | PExit nat
  | PStop

definition exec_cmd :: "u8 list \<Rightarrow> u8 list list \<Rightarrow> prog" where
  "exec_cmd cmd args = (if length cmd \<ge> 128 then PStop else PExec (47 # cmd) args)"

text \<open>\<open>arena.nodes[i].take()\<close>.\<close>

definition take_node :: "nat \<Rightarrow> Arena \<Rightarrow> (CommandType \<times> Arena) option" where
  "take_node i A =
     (if i < length (nodes A)
      then map_option (\<lambda>c. (c, A\<lparr>nodes := (nodes A)[i := None]\<rparr>)) (nodes A ! i)
      else None)"

definition node_total :: "Arena \<Rightarrow> nat" where
  "node_total A = length (filter (\<lambda>x. x \<noteq> None) (nodes A))"

lemma take_node_total: "take_node i A = Some (c, A') \<Longrightarrow> node_total A' < node_total A"
proof -
  assume t: "take_node i A = Some (c, A')"
  then have i: "i < length (nodes A)" "nodes A ! i \<noteq> None" "nodes A' = (nodes A)[i := None]"
    by (auto simp: take_node_def split: if_splits)
  have "nodes A = take i (nodes A) @ nodes A ! i # drop (Suc i) (nodes A)" using i(1) by (rule id_take_nth_drop)
  then have "filter (\<lambda>x. x \<noteq> None) (nodes A) = filter (\<lambda>x. x \<noteq> None) (take i (nodes A)) @ nodes A ! i # filter (\<lambda>x. x \<noteq> None) (drop (Suc i) (nodes A))"
    using i(2) by (metis (mono_tags, lifting) filter.simps(2) filter_append)
  then show "node_total A' < node_total A" using i by (simp add: node_total_def upd_conv_take_nth_drop)
qed

function run_cmd :: "CommandType \<Rightarrow> Arena \<Rightarrow> prog" where
  "run_cmd (CExec start argc) A = exec_cmd (argv A ! start) (slice (argv A) start argc)"
| "run_cmd (CRedirect i file mode fd) A =
     PClose fd (POpen file mode (case take_node i A of None \<Rightarrow> PStop | Some (c, A) \<Rightarrow> run_cmd c A))"
| "run_cmd (CPipe l r) A =
     PPipe (\<lambda>read_fd write_fd.
       PFork (PClose read_fd (PClose 1 (PDup write_fd (PClose write_fd (case take_node l A of None \<Rightarrow> PStop | Some (c, A) \<Rightarrow> run_cmd c A)))))
         (PFork (PClose write_fd (PClose 0 (PDup read_fd (PClose read_fd (case take_node r A of None \<Rightarrow> PStop | Some (c, A) \<Rightarrow> run_cmd c A)))))
           (PClose read_fd (PClose write_fd (PWait (PWait (PExit 0)))))))"
| "run_cmd (CList l r) A =
     PFork (case take_node l A of None \<Rightarrow> PStop | Some (c, A) \<Rightarrow> run_cmd c A)
       (PWait (case take_node r A of None \<Rightarrow> PStop | Some (c, A) \<Rightarrow> run_cmd c A))"
| "run_cmd (CBackground i) A = PFork (case take_node i A of None \<Rightarrow> PStop | Some (c, A) \<Rightarrow> run_cmd c A) (PExit 0)"
  by pat_completeness auto
termination
  by (relation "measure (\<lambda>(c, A). node_total A)") (auto dest: take_node_total)

text \<open>
  What the shell does with a line: \<open>exit\<close> and \<open>cd\<close> itself, any other command in a child that parses the line again.
\<close>

datatype shell_act = ShExit | ShCd "u8 list" | ShRun prog | ShNothing

definition shell_child :: "u8 list \<Rightarrow> prog" where
  "shell_child line =
     (case parse_line (tokenize line) arena_new of
        None \<Rightarrow> PStop
      | Some (None, _, _) \<Rightarrow> PStop
      | Some (Some root, _, A) \<Rightarrow> run_cmd root A)"

definition shell_line :: "u8 list \<Rightarrow> shell_act" where
  "shell_line line =
     (case next_token line of
        None \<Rightarrow> ShNothing
      | Some (t, rest) \<Rightarrow>
          if t = [101, 120, 105, 116] then ShExit
          else if t = [99, 100] then ShCd (case next_token rest of None \<Rightarrow> [47] | Some (path, _) \<Rightarrow> path)
          else ShRun (shell_child line))"

end
