(* ===== verification/Shell_Run.thy ===== *)
theory Shell_Run
  imports Shell
begin

text \<open>
  What the shell promises: a line of the grammar in the comment before \<open>Parser\<close> of \<open>user/bin/sh.rs\<close> starts
  the programs of its command tree, each with its arguments and with its descriptors 0, 1 and 2 connected as the tree says.
\<close>

section \<open>Command lines\<close>

datatype cmd =
    Simple "u8 list list"
  | Redir cmd "u8 list" usize nat
  | PipeC cmd cmd
  | Seq cmd cmd
  | Bg cmd

definition is_word :: "u8 list \<Rightarrow> bool" where
  "is_word t \<longleftrightarrow> t \<noteq> [] \<and> list_all is_word_char t"

fun redir_tokens :: "(u8 list \<times> u8 list) list \<Rightarrow> u8 list list" where
  "redir_tokens [] = []"
| "redir_tokens ((r, f) # rs) = r # f # redir_tokens rs"

fun redir_all :: "cmd \<Rightarrow> (u8 list \<times> u8 list) list \<Rightarrow> cmd" where
  "redir_all t [] = t"
| "redir_all t ((r, f) # rs) = redir_all (Redir t f (fst (the (redirection r))) (snd (the (redirection r)))) rs"

definition redirs_ok :: "(u8 list \<times> u8 list) list \<Rightarrow> bool" where
  "redirs_ok rs \<longleftrightarrow> (\<forall>(r, f) \<in> set rs. redirection r \<noteq> None \<and> is_word f)"

definition amp :: "bool \<Rightarrow> u8 list list" where
  "amp b = (if b then [[38]] else [])"

definition bg :: "bool \<Rightarrow> cmd \<Rightarrow> cmd" where
  "bg b t = (if b then Bg t else t)"

inductive gline :: "u8 list list \<Rightarrow> cmd \<Rightarrow> bool"
  and gpipe :: "u8 list list \<Rightarrow> cmd \<Rightarrow> bool"
  and gexec :: "u8 list list \<Rightarrow> cmd \<Rightarrow> bool" where
  line_last: "gpipe ts t \<Longrightarrow> gline (ts @ amp b) (bg b t)"
| line_more: "gpipe ts t \<Longrightarrow> gline us u \<Longrightarrow> gline (ts @ amp b @ [59] # us) (Seq (bg b t) u)"
| pipe_last: "gexec ts t \<Longrightarrow> gpipe ts t"
| pipe_more: "gexec ts t \<Longrightarrow> gpipe us u \<Longrightarrow> gpipe (ts @ [124] # us) (PipeC t u)"
| exec_args: "args \<noteq> [] \<Longrightarrow> \<forall>a \<in> set args. is_word a \<Longrightarrow> length args \<le> 16 \<Longrightarrow> redirs_ok rs \<Longrightarrow>
    gexec (args @ redir_tokens rs) (redir_all (Simple args) rs)"
| exec_group: "gline ts t \<Longrightarrow> redirs_ok rs \<Longrightarrow> gexec ([40] # ts @ [41] # redir_tokens rs) (redir_all t rs)"

text \<open>What a command takes in the arenas.\<close>

fun nodes_of :: "cmd \<Rightarrow> nat" where
  "nodes_of (Simple args) = 0"
| "nodes_of (Redir t f m fd) = nodes_of t + 1"
| "nodes_of (PipeC t u) = nodes_of t + nodes_of u + 2"
| "nodes_of (Seq t u) = nodes_of t + nodes_of u + 2"
| "nodes_of (Bg t) = nodes_of t + 1"

fun args_of :: "cmd \<Rightarrow> nat" where
  "args_of (Simple args) = length args"
| "args_of (Redir t f m fd) = args_of t"
| "args_of (PipeC t u) = args_of t + args_of u"
| "args_of (Seq t u) = args_of t + args_of u"
| "args_of (Bg t) = args_of t"

section \<open>Programs started\<close>

datatype obj = Given nat | PipeRead nat | PipeWrite nat | Opened "u8 list" usize

text \<open>The programs a process and its children start, when every system call succeeds; a new descriptor is the lowest free one.\<close>

primrec started :: "prog \<Rightarrow> obj option list \<Rightarrow> nat \<Rightarrow> ((u8 list \<times> u8 list list \<times> obj option list) list \<times> nat) option" where
  "started (PExec path args) T n = Some ([(path, args, T)], n)"
| "started (PClose fd p) T n = do { assert_that (fd < length T \<and> T ! fd \<noteq> None); started p (T[fd := None]) n }"
| "started (POpen file mode p) T n = do { fd \<leftarrow> find_index (\<lambda>x. x = None) T; started p (T[fd := Some (Opened file mode)]) n }"
| "started (PPipe p) T n = do {
     r \<leftarrow> find_index (\<lambda>x. x = None) T;
     let T = T[r := Some (PipeRead n)];
     w \<leftarrow> find_index (\<lambda>x. x = None) T;
     started (p r w) (T[w := Some (PipeWrite n)]) (n + 1)
   }"
| "started (PDup fd p) T n = do {
     assert_that (fd < length T \<and> T ! fd \<noteq> None);
     x \<leftarrow> find_index (\<lambda>x. x = None) T;
     started p (T[x := T ! fd]) n
   }"
| "started (PFork p q) T n = do { (xs, n) \<leftarrow> started p T n; (ys, n) \<leftarrow> started q T n; Some (xs @ ys, n) }"
| "started (PWait p) T n = started p T n"
| "started (PExit code) T n = Some ([], n)"
| "started PStop T n = Some ([], n)"

definition std :: "obj \<Rightarrow> obj \<Rightarrow> obj \<Rightarrow> obj option list" where
  "std i x e = Some i # Some x # Some e # replicate 13 None"

fun meaning :: "cmd \<Rightarrow> obj \<Rightarrow> obj \<Rightarrow> obj \<Rightarrow> nat \<Rightarrow> (u8 list \<times> u8 list list \<times> obj option list) list \<times> nat" where
  "meaning (Simple args) i x e n = (if length (hd args) \<ge> 128 then [] else [(47 # hd args, args, std i x e)], n)"
| "meaning (Redir t f m fd) i x e n = (if fd = 0 then meaning t (Opened f m) x e n else meaning t i (Opened f m) e n)"
| "meaning (PipeC t u) i x e n =
     (let (xs, n') = meaning t i (PipeWrite n) e (n + 1); (ys, n'') = meaning u (PipeRead n) x e n' in (xs @ ys, n''))"
| "meaning (Seq t u) i x e n = (let (xs, n') = meaning t i x e n; (ys, n'') = meaning u i x e n' in (xs @ ys, n''))"
| "meaning (Bg t) i x e n = meaning t i x e n"

section \<open>Trees in the arenas\<close>

definition arena_ok :: "Arena \<Rightarrow> bool" where
  "arena_ok A \<longleftrightarrow> length (nodes A) = 16 \<and> length (argv A) = 32 \<and> node_count A < 16 \<and> argv_count A < 32"

lemma arena_ok_new: "arena_ok arena_new"
  by (simp add: arena_ok_def arena_new_def MAXNODES_def MAXARGV_def)

text \<open>The command \<open>c\<close> is the root of the tree, whose other nodes are at the indices from \<open>a\<close> below \<open>b\<close>.\<close>

fun rep :: "cmd \<Rightarrow> Arena \<Rightarrow> CommandType \<Rightarrow> nat \<Rightarrow> nat \<Rightarrow> bool" where
  "rep (Simple args) A c a b \<longleftrightarrow>
     a = b \<and> (\<exists>s. c = CExec s (length args) \<and> s + length args \<le> argv_count A \<and> slice (argv A) s (length args) = args \<and> args \<noteq> [])"
| "rep (Redir t f m fd) A c a b \<longleftrightarrow> fd \<le> 1 \<and> (\<exists>c' b'. b = Suc b' \<and> c = CRedirect b' f m fd \<and> nodes A ! b' = Some c' \<and> rep t A c' a b')"
| "rep (PipeC t u) A c a b \<longleftrightarrow>
     (\<exists>ct cu m b'. b = b' + 2 \<and> c = CPipe b' (b' + 1) \<and> nodes A ! b' = Some ct \<and> nodes A ! (b' + 1) = Some cu \<and> rep t A ct a m \<and> rep u A cu m b')"
| "rep (Seq t u) A c a b \<longleftrightarrow>
     (\<exists>ct cu m b'. b = b' + 2 \<and> c = CList b' (b' + 1) \<and> nodes A ! b' = Some ct \<and> nodes A ! (b' + 1) = Some cu \<and> rep t A ct a m \<and> rep u A cu m b')"
| "rep (Bg t) A c a b \<longleftrightarrow> (\<exists>c' b'. b = Suc b' \<and> c = CBackground b' \<and> nodes A ! b' = Some c' \<and> rep t A c' a b')"

lemma rep_le: "rep t A c a b \<Longrightarrow> a \<le> b"
  by (induction t A c a b rule: rep.induct) (auto, fastforce+)

lemma slice_take: "s + n \<le> k \<Longrightarrow> slice (take k xs) s n = slice xs s n"
  by (simp add: slice_def drop_take min_absorb1)

text \<open>Trees stay when arguments are added and when other nodes change.\<close>

definition keeps :: "Arena \<Rightarrow> Arena \<Rightarrow> nat \<Rightarrow> nat \<Rightarrow> bool" where
  "keeps A A' a b \<longleftrightarrow> (\<forall>i. a \<le> i \<and> i < b \<longrightarrow> nodes A' ! i = nodes A ! i) \<and>
     argv_count A \<le> argv_count A' \<and> take (argv_count A) (argv A') = take (argv_count A) (argv A)"

lemma keeps_less: "keeps A A' a b \<Longrightarrow> a \<le> a' \<Longrightarrow> b' \<le> b \<Longrightarrow> keeps A A' a' b'"
  by (auto simp: keeps_def)

lemma rep_keeps: "rep t A c a b \<Longrightarrow> keeps A A' a b \<Longrightarrow> rep t A' c a b"
proof (induction t arbitrary: c a b)
  case (Simple args)
  then obtain s where s: "c = CExec s (length args)" "s + length args \<le> argv_count A" "slice (argv A) s (length args) = args" "args \<noteq> []" "a = b" by auto
  have "slice (argv A') s (length args) = args"
    using slice_take [OF s(2), of "argv A'"] slice_take [OF s(2), of "argv A"] Simple.prems(2) s(3) by (simp add: keeps_def)
  then show ?case using s Simple.prems(2) by (auto simp: keeps_def)
next
  case (Redir t f m fd)
  then obtain c' b' where r: "fd \<le> 1" "b = Suc b'" "c = CRedirect b' f m fd" "nodes A ! b' = Some c'" "rep t A c' a b'" by auto
  moreover have "nodes A' ! b' = nodes A ! b'" using Redir.prems(2) rep_le [OF r(5)] r(2) by (auto simp: keeps_def)
  moreover have "rep t A' c' a b'" using Redir.IH [OF r(5) keeps_less [OF Redir.prems(2)]] r(2) by simp
  ultimately show ?case by simp
next
  case (PipeC t u)
  then obtain ct cu m b' where r: "b = b' + 2" "c = CPipe b' (b' + 1)" "nodes A ! b' = Some ct" "nodes A ! (b' + 1) = Some cu" "rep t A ct a m" "rep u A cu m b'" by auto
  have le: "a \<le> m" "m \<le> b'" using r(5,6) by (auto dest: rep_le)
  then have "nodes A' ! b' = nodes A ! b'" "nodes A' ! (b' + 1) = nodes A ! (b' + 1)" using PipeC.prems(2) r(1) by (auto simp: keeps_def)
  moreover have "rep t A' ct a m" "rep u A' cu m b'" using PipeC.IH(1) [OF r(5) keeps_less [OF PipeC.prems(2)]] PipeC.IH(2) [OF r(6) keeps_less [OF PipeC.prems(2)]] r(1) le by simp_all
  ultimately show ?case using r by auto
next
  case (Seq t u)
  then obtain ct cu m b' where r: "b = b' + 2" "c = CList b' (b' + 1)" "nodes A ! b' = Some ct" "nodes A ! (b' + 1) = Some cu" "rep t A ct a m" "rep u A cu m b'" by auto
  have le: "a \<le> m" "m \<le> b'" using r(5,6) by (auto dest: rep_le)
  then have "nodes A' ! b' = nodes A ! b'" "nodes A' ! (b' + 1) = nodes A ! (b' + 1)" using Seq.prems(2) r(1) by (auto simp: keeps_def)
  moreover have "rep t A' ct a m" "rep u A' cu m b'" using Seq.IH(1) [OF r(5) keeps_less [OF Seq.prems(2)]] Seq.IH(2) [OF r(6) keeps_less [OF Seq.prems(2)]] r(1) le by simp_all
  ultimately show ?case using r by auto
next
  case (Bg t)
  then obtain c' b' where r: "b = Suc b'" "c = CBackground b'" "nodes A ! b' = Some c'" "rep t A c' a b'" by auto
  moreover have "nodes A' ! b' = nodes A ! b'" using Bg.prems(2) rep_le [OF r(4)] r(1) by (auto simp: keeps_def)
  moreover have "rep t A' c' a b'" using Bg.IH [OF r(4) keeps_less [OF Bg.prems(2)]] r(1) by simp
  ultimately show ?case by simp
qed

section \<open>Running a tree\<close>

lemma take_node_keeps:
  assumes "nodes A ! i = Some c" "i < length (nodes A)" "b \<le> i"
  shows "\<exists>A'. take_node i A = Some (c, A') \<and> keeps A A' a b \<and> length (nodes A') = length (nodes A)"
  using assms by (auto simp: take_node_def keeps_def)

lemma run_node:
  assumes "\<And>A c a b. rep t A c a b \<Longrightarrow> b \<le> length (nodes A) \<Longrightarrow> started (run_cmd c A) T n = y"
    and "nodes A ! i = Some c" "i < length (nodes A)" "b \<le> i" "rep t A c a b"
  shows "started (case take_node i A of None \<Rightarrow> PStop | Some (c, A) \<Rightarrow> run_cmd c A) T n = y"
proof -
  obtain A' where A': "take_node i A = Some (c, A')" "keeps A A' a b" "length (nodes A') = length (nodes A)"
    using take_node_keeps [OF assms(2,3,4)] by blast
  have "started (run_cmd c A') T n = y" using assms(1) [of A' c a b] rep_keeps [OF assms(5) A'(2)] A'(3) assms(3,4) by simp
  then show ?thesis using A'(1) by simp
qed

text \<open>The descriptors after \<open>pipe\<close>, and what the two children and the parent make of them.\<close>

definition piped :: "obj \<Rightarrow> obj \<Rightarrow> obj \<Rightarrow> nat \<Rightarrow> obj option list" where
  "piped i x e n = Some i # Some x # Some e # Some (PipeRead n) # Some (PipeWrite n) # replicate 11 None"

lemma std_unfold: "std i x e = Some i # Some x # Some e # None # None # replicate 11 None"
  by (simp add: std_def eval_nat_numeral)

lemma started_pipe: "started (PPipe p) (std i x e) n = started (p 3 4) (piped i x e n) (n + 1)"
  by (simp add: std_unfold piped_def numeral_3_eq_3 eval_nat_numeral)

lemma started_left: "started (PClose 3 (PClose 1 (PDup 4 (PClose 4 p)))) (piped i x e n) m = started p (std i (PipeWrite n) e) m"
  by (simp add: std_unfold piped_def)

lemma started_right: "started (PClose 4 (PClose 0 (PDup 3 (PClose 3 p)))) (piped i x e n) m = started p (std (PipeRead n) x e) m"
  by (simp add: std_unfold piped_def)

lemma started_parent: "started (PClose 3 (PClose 4 (PWait (PWait (PExit 0))))) (piped i x e n) m = Some ([], m)"
  by (simp add: piped_def)

lemma run_started: "rep t A c a b \<Longrightarrow> b \<le> length (nodes A) \<Longrightarrow> started (run_cmd c A) (std i x e) n = Some (meaning t i x e n)"
proof (induction t arbitrary: A c a b i x e n)
  case (Simple args)
  then obtain s where s: "c = CExec s (length args)" "slice (argv A) s (length args) = args" "args \<noteq> []" by auto
  have "s < length (argv A)" using s(2,3) by (cases "s < length (argv A)") (auto simp: slice_def)
  then have "hd (slice (argv A) s (length args)) = argv A ! s" using s(3) by (simp add: slice_def hd_drop_conv_nth)
  then have "argv A ! s = hd args" using s(2) by simp
  then show ?case using s by (simp add: exec_cmd_def)
next
  case (Redir t f m fd)
  then obtain c' b' where r: "fd \<le> 1" "b = Suc b'" "c = CRedirect b' f m fd" "nodes A ! b' = Some c'" "rep t A c' a b'" by auto
  note run = run_node [OF Redir.IH r(4) _ order_refl r(5)]
  from r(1) consider "fd = 0" | "fd = 1" by linarith
  then show ?case using run Redir.prems(2) r(2,3) by cases (simp_all add: std_unfold)
next
  case (PipeC t u)
  then obtain ct cu m b' where r: "b = b' + 2" "c = CPipe b' (b' + 1)" "nodes A ! b' = Some ct" "nodes A ! (b' + 1) = Some cu" "rep t A ct a m" "rep u A cu m b'" by auto
  have le: "m \<le> b'" using r(6) by (rule rep_le)
  note t = run_node [OF PipeC.IH(1) r(3) _ le r(5)] and u = run_node [OF PipeC.IH(2) r(4) _ _ r(6)]
  show ?case
    unfolding r(2) run_cmd.simps started_pipe started.simps(6) started_left started_right started_parent
    using t u PipeC.prems(2) r(1) by (auto split: prod.splits)
next
  case (Seq t u)
  then obtain ct cu m b' where r: "b = b' + 2" "c = CList b' (b' + 1)" "nodes A ! b' = Some ct" "nodes A ! (b' + 1) = Some cu" "rep t A ct a m" "rep u A cu m b'" by auto
  have le: "m \<le> b'" using r(6) by (rule rep_le)
  note t = run_node [OF Seq.IH(1) r(3) _ le r(5)] and u = run_node [OF Seq.IH(2) r(4) _ _ r(6)]
  show ?case unfolding r(2) using t u Seq.prems(2) r(1) by (auto split: prod.splits)
next
  case (Bg t)
  then obtain c' b' where r: "b = Suc b'" "c = CBackground b'" "nodes A ! b' = Some c'" "rep t A c' a b'" by auto
  note run = run_node [OF Bg.IH r(3) _ order_refl r(4)]
  show ?case unfolding r(2) using run Bg.prems(2) r(1) by (auto split: prod.splits)
qed

section \<open>Parsing a line\<close>

lemma word_not_special: "is_word t \<Longrightarrow> \<not> is_special t"
proof
  assume "is_word t" "is_special t"
  then have "set t \<subseteq> set [124, 40, 41, 38, 59, 60, 62, 62]" "t \<noteq> []" "list_all is_word_char t"
    unfolding is_special_def is_word_def by (blast dest: set_mono_sublist)+
  then show False by (cases t) (auto simp: is_word_char_def is_symbol_def)
qed

lemma sublist_single: "x \<in> set xs \<Longrightarrow> sublist [x] xs"
  by (auto simp: in_set_conv_decomp sublist_def)

lemma special_tokens: "is_special [124]" "is_special [40]" "is_special [41]" "is_special [38]" "is_special [59]" "is_special [60]" "is_special [62]" "is_special [62, 62]"
  using sublist_appendI [of "[62, 62]" "[124, 40, 41, 38, 59, 60]" "[]"] by (simp_all add: is_special_def sublist_single)

lemma redirection_special: "redirection t \<noteq> None \<Longrightarrow> is_special t"
  by (auto simp: redirection_def special_tokens split: if_splits)

lemma redirection_fd: "redirection t = Some (mode, fd) \<Longrightarrow> fd \<le> 1"
  by (auto simp: redirection_def split: if_splits)

definition follows :: "u8 list list \<Rightarrow> u8 list list \<Rightarrow> bool" where
  "follows F rest \<longleftrightarrow> rest = [] \<or> hd rest \<in> set F"

definition grew :: "Arena \<Rightarrow> Arena \<Rightarrow> bool" where
  "grew A A' \<longleftrightarrow> arena_ok A' \<and> node_count A \<le> node_count A' \<and> keeps A A' 0 (node_count A)"

lemma grew_trans: "grew A A' \<Longrightarrow> grew A' A'' \<Longrightarrow> grew A A''"
proof -
  assume a: "grew A A'" "grew A' A''"
  then have "argv_count A \<le> argv_count A'" "take (argv_count A') (argv A'') = take (argv_count A') (argv A')" by (auto simp: grew_def keeps_def)
  then have "take (argv_count A) (argv A'') = take (argv_count A) (argv A')"
    by (metis min.absorb1 take_take)
  then show "grew A A''" using a by (auto simp: grew_def keeps_def)
qed

lemma rep_grew: "rep t A c a b \<Longrightarrow> b \<le> node_count A \<Longrightarrow> grew A A' \<Longrightarrow> rep t A' c a b"
  by (auto simp: grew_def intro: rep_keeps keeps_less)

lemma alloc_spec:
  assumes "arena_ok A" "node_count A < 15"
  shows "\<exists>A'. alloc_cmd c A = Some (node_count A, A') \<and> grew A A' \<and> node_count A' = Suc (node_count A) \<and> argv_count A' = argv_count A \<and>
    nodes A' ! node_count A = Some c"
  using assms by (auto simp: alloc_cmd_def Let_def arena_ok_def grew_def keeps_def)

text \<open>The shape of a successful step: the command, the tokens left, and the tree in the arena.\<close>

definition built :: "(CommandType \<times> u8 list list \<times> Arena) option \<Rightarrow> cmd \<Rightarrow> u8 list list \<Rightarrow> Arena \<Rightarrow> nat \<Rightarrow> nat \<Rightarrow> nat \<Rightarrow> bool" where
  "built r t rest A a n k \<longleftrightarrow> (\<exists>c A'. r = Some (c, rest, A') \<and> grew A A' \<and> node_count A' = n \<and> argv_count A' = k \<and> rep t A' c a n)"

lemma redirects_built:
  assumes "redirs_ok rs" "follows [[124], [38], [59], [41]] rest" "arena_ok A" "node_count A + length rs \<le> 15" "rep t A c a (node_count A)"
  shows "built (parse_redirects c (redir_tokens rs @ rest) A) (redir_all t rs) rest A a (node_count A + length rs) (argv_count A)"
  using assms
proof (induction rs arbitrary: t c A)
  case Nil
  have "redirection (hd rest) = None" if "rest \<noteq> []" using Nil(2) that by (auto simp: follows_def redirection_def)
  then have "parse_redirects c rest A = Some (c, rest, A)" by (cases rest rule: remdups_adj.cases) auto
  then show ?case using Nil by (auto simp: built_def grew_def keeps_def)
next
  case (Cons x rs)
  obtain r f where x: "x = (r, f)" by fastforce
  obtain mode fd where m: "redirection r = Some (mode, fd)" "fd \<le> 1" using Cons.prems(1) x redirection_fd by (auto simp: redirs_ok_def)
  obtain A1 where A1: "alloc_cmd c A = Some (node_count A, A1)" "grew A A1" "node_count A1 = Suc (node_count A)" "argv_count A1 = argv_count A"
    "nodes A1 ! node_count A = Some c" using alloc_spec [OF Cons.prems(3), of c] Cons.prems(4) by auto
  have "rep (Redir t f mode fd) A1 (CRedirect (node_count A) f mode fd) a (node_count A1)"
    using rep_grew [OF Cons.prems(5) _ A1(2)] A1 m by simp
  moreover have "arena_ok A1" "redirs_ok rs" "node_count A1 + length rs \<le> 15" using A1(2,3) Cons.prems by (auto simp: grew_def redirs_ok_def)
  ultimately have "built (parse_redirects (CRedirect (node_count A) f mode fd) (redir_tokens rs @ rest) A1) (redir_all (Redir t f mode fd) rs) rest A1 a
      (node_count A1 + length rs) (argv_count A1)"
    using Cons.IH Cons.prems(2) by blast
  then show ?case using A1 m x grew_trans [OF A1(2)] by (auto simp: built_def)
qed

lemma store_spec:
  assumes "arena_ok A" "argv_count A + length args < 32"
  shows "store_args args A = Some (A\<lparr>argv := splice (argv A) (argv_count A) args, argv_count := argv_count A + length args\<rparr>)"
  using assms
proof (induction args arbitrary: A)
  case Nil
  then show ?case by (simp add: splice_def)
next
  case (Cons x args)
  let ?A = "A\<lparr>argv := (argv A)[argv_count A := x], argv_count := argv_count A + 1\<rparr>"
  have "arena_ok ?A" "argv_count ?A + length args < 32" using Cons.prems by (auto simp: arena_ok_def)
  from Cons.IH [OF this] show ?case
    using Cons.prems by (simp add: arena_ok_def Let_def splice_def upd_conv_take_nth_drop take_Suc_conv_app_nth)
qed

lemma join_spec:
  assumes "arena_ok A" "node_count A + 2 \<le> 15" "rep t A ct a m" "rep u A cu m (node_count A)"
  shows "\<exists>A1 A2. alloc_cmd ct A = Some (node_count A, A1) \<and> alloc_cmd cu A1 = Some (node_count A + 1, A2) \<and> grew A A2 \<and>
    node_count A2 = node_count A + 2 \<and> argv_count A2 = argv_count A \<and> nodes A2 ! node_count A = Some ct \<and> nodes A2 ! (node_count A + 1) = Some cu \<and>
    rep t A2 ct a m \<and> rep u A2 cu m (node_count A)"
proof -
  obtain A1 where A1: "alloc_cmd ct A = Some (node_count A, A1)" "grew A A1" "node_count A1 = Suc (node_count A)" "argv_count A1 = argv_count A"
    "nodes A1 ! node_count A = Some ct" using alloc_spec [OF assms(1), of ct] assms(2) by auto
  have "arena_ok A1" using A1(2) by (simp add: grew_def)
  then obtain A2 where A2: "alloc_cmd cu A1 = Some (node_count A1, A2)" "grew A1 A2" "node_count A2 = Suc (node_count A1)" "argv_count A2 = argv_count A1"
    "nodes A2 ! node_count A1 = Some cu" using alloc_spec [of A1 cu] assms(2) A1(3) by auto
  have "nodes A2 ! node_count A = nodes A1 ! node_count A" using A2(2) A1(3) by (auto simp: grew_def keeps_def)
  moreover have "grew A A2" using A1(2) A2(2) by (rule grew_trans)
  moreover have "rep t A2 ct a m" "rep u A2 cu m (node_count A)"
    using assms(3,4) \<open>grew A A2\<close> rep_le [OF assms(4)] by (auto intro: rep_grew)
  ultimately show ?thesis using A1 A2 by auto
qed

lemma background_built:
  assumes "rep t A c a (node_count A)" "arena_ok A" "node_count A + (if b then 1 else 0) \<le> 15" "follows [[59], [41]] rest"
  shows "built (parse_background c (amp b @ rest) A) (bg b t) rest A a (node_count A + (if b then 1 else 0)) (argv_count A)"
proof (cases b)
  case True
  obtain A1 where A1: "alloc_cmd c A = Some (node_count A, A1)" "grew A A1" "node_count A1 = Suc (node_count A)" "argv_count A1 = argv_count A"
    "nodes A1 ! node_count A = Some c" using alloc_spec [OF assms(2), of c] assms(3) True by auto
  then show ?thesis using True rep_grew [OF assms(1) _ A1(2)] by (auto simp: parse_background_def built_def amp_def bg_def peek_token_def)
next
  case False
  have "peek_token rest \<noteq> Some [38]" using assms(4) by (auto simp: follows_def peek_token_def split: list.splits)
  then show ?thesis using False assms by (auto simp: parse_background_def built_def amp_def bg_def grew_def keeps_def)
qed

definition parsed :: "(u8 list list \<Rightarrow> Arena \<Rightarrow> (CommandType option \<times> u8 list list \<times> Arena) option) \<Rightarrow> u8 list list \<Rightarrow> u8 list list \<Rightarrow> cmd \<Rightarrow> bool" where
  "parsed pf F ts t \<longleftrightarrow> (\<forall>A rest. follows F rest \<longrightarrow> arena_ok A \<longrightarrow> node_count A + nodes_of t \<le> 15 \<longrightarrow> argv_count A + args_of t \<le> 31 \<longrightarrow>
     (\<exists>c A'. pf (ts @ rest) A = Some (Some c, rest, A') \<and> grew A A' \<and> node_count A' = node_count A + nodes_of t \<and>
        argv_count A' = argv_count A + args_of t \<and> rep t A' c (node_count A) (node_count A')))"

lemma parsedD:
  assumes "parsed pf F ts t" "follows F rest" "arena_ok A" "node_count A + nodes_of t \<le> 15" "argv_count A + args_of t \<le> 31"
  obtains c A' where "pf (ts @ rest) A = Some (Some c, rest, A')" "grew A A'" "arena_ok A'" "node_count A' = node_count A + nodes_of t"
    "argv_count A' = argv_count A + args_of t" "rep t A' c (node_count A) (node_count A')"
proof -
  obtain c A' where "pf (ts @ rest) A = Some (Some c, rest, A')" "grew A A'" "node_count A' = node_count A + nodes_of t"
    "argv_count A' = argv_count A + args_of t" "rep t A' c (node_count A) (node_count A')"
    using assms unfolding parsed_def by blast
  moreover have "arena_ok A'" using \<open>grew A A'\<close> by (simp add: grew_def)
  ultimately show thesis using that by blast
qed

lemma redir_all_size: "nodes_of (redir_all t rs) = nodes_of t + length rs" "args_of (redir_all t rs) = args_of t"
  by (induction t rs rule: redir_all.induct) auto

lemma nodes_of_bg: "nodes_of (bg b t) = nodes_of t + (if b then 1 else 0)" "args_of (bg b t) = args_of t"
  by (auto simp: bg_def)

lemma parsed_args:
  assumes "args \<noteq> []" "\<forall>a \<in> set args. is_word a" "length args \<le> 16" "redirs_ok rs"
  shows "parsed parse_exec [[124], [38], [59], [41]] (args @ redir_tokens rs) (redir_all (Simple args) rs)"
  unfolding parsed_def
proof (intro allI impI)
  fix A rest assume a: "follows [[124], [38], [59], [41]] rest" "arena_ok A"
    "node_count A + nodes_of (redir_all (Simple args) rs) \<le> 15" "argv_count A + args_of (redir_all (Simple args) rs) \<le> 31"
  let ?A = "A\<lparr>argv := splice (argv A) (argv_count A) args, argv_count := argv_count A + length args\<rparr>"
  have n: "argv_count A + length args < 32" "node_count A + length rs \<le> 15" using a(3,4) by (auto simp: redir_all_size)
  have g: "grew A ?A" "rep (Simple args) ?A (CExec (argv_count A) (length args)) (node_count ?A) (node_count ?A)" "arena_ok ?A"
    using a(2) n(1) assms(1) by (auto simp: grew_def keeps_def arena_ok_def splice_def slice_def)
  have first: "is_special (hd (redir_tokens rs @ rest))" if "redir_tokens rs @ rest \<noteq> []"
    using assms(4) a(1) that special_tokens redirection_special by (cases rs) (auto simp: redirs_ok_def follows_def)
  have "takeWhile (\<lambda>t. \<not> is_special t) (args @ redir_tokens rs @ rest) = args \<and> dropWhile (\<lambda>t. \<not> is_special t) (args @ redir_tokens rs @ rest) = redir_tokens rs @ rest"
    using assms(2) first word_not_special by (cases "redir_tokens rs @ rest") (auto simp: takeWhile_append dropWhile_append)
  moreover have "peek_token (args @ redir_tokens rs @ rest) \<noteq> Some [40]"
    using assms(1,2) word_not_special special_tokens(2) by (cases args) (auto simp: peek_token_def)
  ultimately have "parse_exec ((args @ redir_tokens rs) @ rest) A = Option.bind (parse_redirects (CExec (argv_count A) (length args)) (redir_tokens rs @ rest) ?A) (\<lambda>(cmd, ts, A). Some (Some cmd, ts, A))"
    using assms(1,3) store_spec [OF a(2) n(1)] by (simp add: parse_exec.simps parse_args_def alloc_argv_def Let_def MAXARGS_def)
  moreover have "built (parse_redirects (CExec (argv_count A) (length args)) (redir_tokens rs @ rest) ?A) (redir_all (Simple args) rs) rest ?A (node_count ?A) (node_count ?A + length rs) (argv_count ?A)"
    using redirects_built [OF assms(4) a(1) g(3) _ g(2)] n(2) by simp
  ultimately show "\<exists>c A'. parse_exec ((args @ redir_tokens rs) @ rest) A = Some (Some c, rest, A') \<and> grew A A' \<and>
      node_count A' = node_count A + nodes_of (redir_all (Simple args) rs) \<and>
      argv_count A' = argv_count A + args_of (redir_all (Simple args) rs) \<and> rep (redir_all (Simple args) rs) A' c (node_count A) (node_count A')"
    using grew_trans [OF g(1)] by (auto simp: built_def redir_all_size)
qed

lemma parsed_group:
  assumes "parsed parse_line [[41]] ts t" "redirs_ok rs"
  shows "parsed parse_exec [[124], [38], [59], [41]] ([40] # ts @ [41] # redir_tokens rs) (redir_all t rs)"
  unfolding parsed_def
proof (intro allI impI)
  fix A rest assume a: "follows [[124], [38], [59], [41]] rest" "arena_ok A"
    "node_count A + nodes_of (redir_all t rs) \<le> 15" "argv_count A + args_of (redir_all t rs) \<le> 31"
  obtain c A1 where p: "parse_line (ts @ [41] # redir_tokens rs @ rest) A = Some (Some c, [41] # redir_tokens rs @ rest, A1)" "grew A A1" "arena_ok A1"
    "node_count A1 = node_count A + nodes_of t" "argv_count A1 = argv_count A + args_of t" "rep t A1 c (node_count A) (node_count A1)"
    using parsedD [OF assms(1), of "[41] # redir_tokens rs @ rest" A] a by (auto simp: follows_def redir_all_size)
  have "built (parse_redirects c (redir_tokens rs @ rest) A1) (redir_all t rs) rest A1 (node_count A) (node_count A1 + length rs) (argv_count A1)"
    using redirects_built [OF assms(2) a(1) p(3) _ p(6)] a(3) p(4) by (simp add: redir_all_size)
  then show "\<exists>c A'. parse_exec (([40] # ts @ [41] # redir_tokens rs) @ rest) A = Some (Some c, rest, A') \<and> grew A A' \<and>
      node_count A' = node_count A + nodes_of (redir_all t rs) \<and> argv_count A' = argv_count A + args_of (redir_all t rs) \<and>
      rep (redir_all t rs) A' c (node_count A) (node_count A')"
    using p grew_trans [OF p(2)] by (auto simp: built_def redir_all_size parse_exec.simps peek_token_def)
qed

lemma parsed_pipe_last:
  assumes "parsed parse_exec [[124], [38], [59], [41]] ts t"
  shows "parsed parse_pipe [[38], [59], [41]] ts t"
  unfolding parsed_def
proof (intro allI impI)
  fix A rest assume a: "follows [[38], [59], [41]] rest" "arena_ok A" "node_count A + nodes_of t \<le> 15" "argv_count A + args_of t \<le> 31"
  have "follows [[124], [38], [59], [41]] rest" "peek_token rest \<noteq> Some [124]" using a(1) by (auto simp: follows_def peek_token_def split: list.splits)
  moreover from parsedD [OF assms this(1) a(2-4)] obtain c A' where "parse_exec (ts @ rest) A = Some (Some c, rest, A')" "grew A A'"
    "node_count A' = node_count A + nodes_of t" "argv_count A' = argv_count A + args_of t" "rep t A' c (node_count A) (node_count A')" by blast
  ultimately show "\<exists>c A'. parse_pipe (ts @ rest) A = Some (Some c, rest, A') \<and> grew A A' \<and> node_count A' = node_count A + nodes_of t \<and>
      argv_count A' = argv_count A + args_of t \<and> rep t A' c (node_count A) (node_count A')"
    by (auto simp: parse_pipe.simps)
qed

lemma parsed_pipe_more:
  assumes "parsed parse_exec [[124], [38], [59], [41]] ts t" "parsed parse_pipe [[38], [59], [41]] us u"
  shows "parsed parse_pipe [[38], [59], [41]] (ts @ [124] # us) (PipeC t u)"
  unfolding parsed_def
proof (intro allI impI)
  fix A rest assume a: "follows [[38], [59], [41]] rest" "arena_ok A" "node_count A + nodes_of (PipeC t u) \<le> 15" "argv_count A + args_of (PipeC t u) \<le> 31"
  obtain ct A1 where t: "parse_exec (ts @ [124] # us @ rest) A = Some (Some ct, [124] # us @ rest, A1)" "grew A A1" "arena_ok A1"
    "node_count A1 = node_count A + nodes_of t" "argv_count A1 = argv_count A + args_of t" "rep t A1 ct (node_count A) (node_count A1)"
    using parsedD [OF assms(1), of "[124] # us @ rest" A] a by (auto simp: follows_def)
  obtain cu A2 where u: "parse_pipe (us @ rest) A1 = Some (Some cu, rest, A2)" "grew A1 A2" "arena_ok A2"
    "node_count A2 = node_count A1 + nodes_of u" "argv_count A2 = argv_count A1 + args_of u" "rep u A2 cu (node_count A1) (node_count A2)"
    using parsedD [OF assms(2) a(1) t(3)] a t by auto
  obtain A3 A4 where j: "alloc_cmd ct A2 = Some (node_count A2, A3)" "alloc_cmd cu A3 = Some (node_count A2 + 1, A4)" "grew A2 A4"
    "node_count A4 = node_count A2 + 2" "argv_count A4 = argv_count A2" "nodes A4 ! node_count A2 = Some ct" "nodes A4 ! (node_count A2 + 1) = Some cu"
    "rep t A4 ct (node_count A) (node_count A1)" "rep u A4 cu (node_count A1) (node_count A2)"
    using join_spec [OF u(3) _ rep_grew [OF t(6) order_refl u(2)] u(6)] a(3) t(4) u(4) by auto
  have "parse_pipe ((ts @ [124] # us) @ rest) A = Some (Some (CPipe (node_count A2) (node_count A2 + 1)), rest, A4)"
    using t(1) u(1) j(1,2) by (simp add: parse_pipe.simps [of "ts @ [124] # us @ rest"] peek_token_def)
  moreover have "grew A A4" using t(2) u(2) j(3) by (blast intro: grew_trans)
  moreover have "rep (PipeC t u) A4 (CPipe (node_count A2) (node_count A2 + 1)) (node_count A) (node_count A4)"
    using j by auto
  ultimately show "\<exists>c A'. parse_pipe ((ts @ [124] # us) @ rest) A = Some (Some c, rest, A') \<and> grew A A' \<and> node_count A' = node_count A + nodes_of (PipeC t u) \<and>
      argv_count A' = argv_count A + args_of (PipeC t u) \<and> rep (PipeC t u) A' c (node_count A) (node_count A')"
    using t u j by auto
qed

lemma parsed_line_step:
  assumes "parsed parse_pipe [[38], [59], [41]] ts t" "follows [[59], [41]] rest" "arena_ok A"
    "node_count A + nodes_of (bg b t) \<le> 15" "argv_count A + args_of (bg b t) \<le> 31"
  obtains ct c A1 A2 where "parse_pipe (ts @ amp b @ rest) A = Some (Some ct, amp b @ rest, A1)" "parse_background ct (amp b @ rest) A1 = Some (c, rest, A2)"
    "grew A A2" "arena_ok A2" "node_count A2 = node_count A + nodes_of (bg b t)" "argv_count A2 = argv_count A + args_of (bg b t)"
    "rep (bg b t) A2 c (node_count A) (node_count A2)"
proof -
  have "follows [[38], [59], [41]] (amp b @ rest)" using assms(2) by (auto simp: follows_def amp_def)
  then obtain ct A1 where t: "parse_pipe (ts @ amp b @ rest) A = Some (Some ct, amp b @ rest, A1)" "grew A A1" "arena_ok A1"
    "node_count A1 = node_count A + nodes_of t" "argv_count A1 = argv_count A + args_of t" "rep t A1 ct (node_count A) (node_count A1)"
    using parsedD [OF assms(1) _ assms(3)] assms(4,5) by (auto simp: nodes_of_bg)
  have "built (parse_background ct (amp b @ rest) A1) (bg b t) rest A1 (node_count A) (node_count A1 + (if b then 1 else 0)) (argv_count A1)"
    using background_built [OF t(6,3) _ assms(2)] assms(4) t(4) by (simp add: nodes_of_bg)
  then obtain c A2 where p: "parse_background ct (amp b @ rest) A1 = Some (c, rest, A2)" "grew A1 A2" "node_count A2 = node_count A1 + (if b then 1 else 0)"
    "argv_count A2 = argv_count A1" "rep (bg b t) A2 c (node_count A) (node_count A2)"
    by (auto simp: built_def)
  have "grew A A2" using t(2) p(2) by (rule grew_trans)
  moreover have "arena_ok A2" using p(2) by (simp add: grew_def)
  ultimately show thesis by (rule that [OF t(1) p(1) _ _ _ _ p(5)]) (simp_all add: t p nodes_of_bg)
qed

lemma parsed_line_last:
  assumes "parsed parse_pipe [[38], [59], [41]] ts t"
  shows "parsed parse_line [[41]] (ts @ amp b) (bg b t)"
  unfolding parsed_def
proof (intro allI impI)
  fix A rest assume a: "follows [[41]] rest" "arena_ok A" "node_count A + nodes_of (bg b t) \<le> 15" "argv_count A + args_of (bg b t) \<le> 31"
  have f: "follows [[59], [41]] rest" "peek_token rest \<noteq> Some [59]" using a(1) by (auto simp: follows_def peek_token_def split: list.splits)
  obtain ct c A1 A2 where "parse_pipe (ts @ amp b @ rest) A = Some (Some ct, amp b @ rest, A1)" "parse_background ct (amp b @ rest) A1 = Some (c, rest, A2)"
    "grew A A2" "node_count A2 = node_count A + nodes_of (bg b t)" "argv_count A2 = argv_count A + args_of (bg b t)" "rep (bg b t) A2 c (node_count A) (node_count A2)"
    by (rule parsed_line_step [OF assms f(1) a(2-4)])
  then show "\<exists>c A'. parse_line ((ts @ amp b) @ rest) A = Some (Some c, rest, A') \<and> grew A A' \<and> node_count A' = node_count A + nodes_of (bg b t) \<and>
      argv_count A' = argv_count A + args_of (bg b t) \<and> rep (bg b t) A' c (node_count A) (node_count A')"
    using f(2) by (simp add: parse_line.simps [of "ts @ amp b @ rest"])
qed

lemma parsed_line_more:
  assumes "parsed parse_pipe [[38], [59], [41]] ts t" "parsed parse_line [[41]] us u"
  shows "parsed parse_line [[41]] (ts @ amp b @ [59] # us) (Seq (bg b t) u)"
  unfolding parsed_def
proof (intro allI impI)
  fix A rest assume a: "follows [[41]] rest" "arena_ok A" "node_count A + nodes_of (Seq (bg b t) u) \<le> 15" "argv_count A + args_of (Seq (bg b t) u) \<le> 31"
  have f: "follows [[59], [41]] ([59] # us @ rest)" by (simp add: follows_def)
  have lim: "node_count A + nodes_of (bg b t) \<le> 15" "argv_count A + args_of (bg b t) \<le> 31" using a by auto
  obtain c0 ct A0 A1 where t: "parse_pipe (ts @ amp b @ [59] # us @ rest) A = Some (Some c0, amp b @ [59] # us @ rest, A0)"
    "parse_background c0 (amp b @ [59] # us @ rest) A0 = Some (ct, [59] # us @ rest, A1)"
    "grew A A1" "arena_ok A1" "node_count A1 = node_count A + nodes_of (bg b t)" "argv_count A1 = argv_count A + args_of (bg b t)"
    "rep (bg b t) A1 ct (node_count A) (node_count A1)"
    by (rule parsed_line_step [OF assms(1) f a(2) lim])
  obtain cu A2 where u: "parse_line (us @ rest) A1 = Some (Some cu, rest, A2)" "grew A1 A2" "arena_ok A2"
    "node_count A2 = node_count A1 + nodes_of u" "argv_count A2 = argv_count A1 + args_of u" "rep u A2 cu (node_count A1) (node_count A2)"
    using parsedD [OF assms(2) a(1) t(4)] a t by auto
  obtain A3 A4 where j: "alloc_cmd ct A2 = Some (node_count A2, A3)" "alloc_cmd cu A3 = Some (node_count A2 + 1, A4)" "grew A2 A4"
    "node_count A4 = node_count A2 + 2" "argv_count A4 = argv_count A2" "nodes A4 ! node_count A2 = Some ct" "nodes A4 ! (node_count A2 + 1) = Some cu"
    "rep (bg b t) A4 ct (node_count A) (node_count A1)" "rep u A4 cu (node_count A1) (node_count A2)"
    using join_spec [OF u(3) _ rep_grew [OF t(7) order_refl u(2)] u(6)] a(3) t(5) u(4) by auto
  have "parse_line ((ts @ amp b @ [59] # us) @ rest) A = Some (Some (CList (node_count A2) (node_count A2 + 1)), rest, A4)"
    using t(1,2) u(1) j(1,2) by (simp add: parse_line.simps [of "ts @ amp b @ [59] # us @ rest"] peek_token_def)
  moreover have "grew A A4" using t(3) u(2) j(3) by (blast intro: grew_trans)
  moreover have "rep (Seq (bg b t) u) A4 (CList (node_count A2) (node_count A2 + 1)) (node_count A) (node_count A4)"
    using j by auto
  ultimately show "\<exists>c A'. parse_line ((ts @ amp b @ [59] # us) @ rest) A = Some (Some c, rest, A') \<and> grew A A' \<and>
      node_count A' = node_count A + nodes_of (Seq (bg b t) u) \<and> argv_count A' = argv_count A + args_of (Seq (bg b t) u) \<and>
      rep (Seq (bg b t) u) A' c (node_count A) (node_count A')"
    using t u j by auto
qed

lemma grammar_parsed:
  shows "gline ts t \<Longrightarrow> parsed parse_line [[41]] ts t"
    and "gpipe ts t \<Longrightarrow> parsed parse_pipe [[38], [59], [41]] ts t"
    and "gexec ts t \<Longrightarrow> parsed parse_exec [[124], [38], [59], [41]] ts t"
  by (induction rule: gline_gpipe_gexec.inducts)
    (blast intro: parsed_line_last parsed_line_more parsed_pipe_last parsed_pipe_more parsed_args parsed_group)+



end
