(* ===== verification/Frame.thy ===== *)
theory Frame
  imports Traps
begin

text \<open>
  What the operations of the kernel leave alone: the table of open files, the descriptors and the trap frames of
  the processes, and which processes are dead (not in use, or zombies).  Each lemma says that one operation keeps
  this view of the state, unless the operation is about it.
\<close>

section \<open>The view\<close>

definition dead :: "ProcInner \<Rightarrow> bool" where
  "dead p \<longleftrightarrow> p_state p = Unused \<or> p_state p = Used \<or> p_state p = Zombie"

definition dead_of :: "Sched \<Rightarrow> bool list" where
  "dead_of s = map dead (procs s)"

definition alive :: "nat \<Rightarrow> Sched \<Rightarrow> bool" where
  "alive i s \<longleftrightarrow> i < length (procs s) \<and> \<not> dead (procs s ! i)"

definition kview :: "'b Kernel \<Rightarrow> usize list \<times> FileType list \<times> nat option list list \<times> (usize \<times> TrapFrame) option list \<times> nat \<times> bool list" where
  "kview k = (ref_counts k, map ftype (files k), map open_files (data k), map pd_trapframe (data k), length (pipes k), dead_of (sched k))"

lemma alive_dead_of: "dead_of s' = dead_of s \<Longrightarrow> alive i s' = alive i s"
proof -
  assume a: "dead_of s' = dead_of s"
  have "alive i s \<longleftrightarrow> i < length (dead_of s) \<and> \<not> dead_of s ! i" for s by (auto simp: alive_def dead_of_def)
  then show "alive i s' = alive i s" using a by simp
qed

lemma alive_kview: "kview k' = kview k \<Longrightarrow> alive i (sched k') = alive i (sched k)"
  by (rule alive_dead_of) (simp add: kview_def)

lemma kview_simps [simp]:
  "kview (k\<lparr>mem := m\<rparr>) = kview k"
  "kview (k\<lparr>fs := f\<rparr>) = kview k"
  "kview (k\<lparr>sb := b\<rparr>) = kview k"
  "kview (k\<lparr>flocked := fl\<rparr>) = kview k"
  "kview (k\<lparr>console := c\<rparr>) = kview k"
  "kview (k\<lparr>uart := u\<rparr>) = kview k"
  "kview (k\<lparr>printf := pf\<rparr>) = kview k"
  "kview (k\<lparr>msg := mb\<rparr>) = kview k"
  "kview (k\<lparr>ticks := t\<rparr>) = kview k"
  "kview (k\<lparr>power := w\<rparr>) = kview k"
  "kview (k\<lparr>pipes := (pipes k)[p := pipe]\<rparr>) = kview k"
  by (simp_all add: kview_def)

lemma kview_sched: "dead_of s = dead_of (sched k) \<Longrightarrow> kview (k\<lparr>sched := s\<rparr>) = kview k"
  by (simp add: kview_def)

lemma kview_upd_data:
  "(\<And>d. open_files (g d) = open_files d) \<Longrightarrow> (\<And>d. pd_trapframe (g d) = pd_trapframe d) \<Longrightarrow> kview (upd_data i g k) = kview k"
  by (simp add: kview_def upd_data_def map_update) (metis list_update_beyond list_update_id nth_map not_le_imp_less length_map)

lemma kview_upd_file: "(\<And>x. ftype (g x) = ftype x) \<Longrightarrow> kview (upd_file i g k) = kview k"
  by (simp add: kview_def upd_file_def map_update) (metis list_update_beyond list_update_id nth_map not_le_imp_less length_map)

lemma kview_file_lock: "file_lock i k = Some k' \<Longrightarrow> kview k' = kview k"
  by (auto simp: file_lock_def split: if_splits)

lemma kview_file_unlock [simp]: "kview (file_unlock i k) = kview k"
  by (simp add: file_unlock_def)

section \<open>The scheduler\<close>

lemma dead_of_upd_proc:
  "(dead (f (procs s ! i)) = dead (procs s ! i)) \<Longrightarrow> dead_of (upd_proc i f s) = dead_of s"
  by (simp add: dead_of_def upd_proc_def map_update) (metis list_update_beyond list_update_id nth_map not_le_imp_less length_map)

lemma dead_of_wakeup [simp]: "dead_of (wakeup cur ch s) = dead_of s"
  by (rule nth_equalityI) (auto simp: dead_of_def wakeup_def Let_def wake_one_def dead_def)

lemma dead_of_sleep_enter: "alive i s \<Longrightarrow> dead_of (sleep_enter i ch s) = dead_of s"
  unfolding sleep_enter_def by (rule dead_of_upd_proc) (auto simp: alive_def dead_def)

lemma dead_of_sleep_exit [simp]: "dead_of (sleep_exit i s) = dead_of s"
  unfolding sleep_exit_def by (rule dead_of_upd_proc) (simp add: dead_def)

lemma dead_of_kill [simp]: "dead_of (snd (kill pid s)) = dead_of s"
  by (auto simp: kill_def dead_def intro!: dead_of_upd_proc split: option.splits if_splits)

lemma dead_of_set_tickets [simp]: "dead_of (snd (set_tickets i t s)) = dead_of s"
  by (auto simp: set_tickets_def dead_def intro!: dead_of_upd_proc)

lemma dead_of_yield: "alive i s \<Longrightarrow> dead_of (yield_proc i s) = dead_of s"
  unfolding yield_proc_def by (rule dead_of_upd_proc) (auto simp: alive_def dead_def)

lemma dead_of_fields [simp]: "dead_of (s\<lparr>parents := ps\<rparr>) = dead_of s" "dead_of (s\<lparr>init_proc := ip\<rparr>) = dead_of s" "dead_of (s\<lparr>pid_count := n\<rparr>) = dead_of s"
  by (simp_all add: dead_of_def)

lemma alive_sleep_exit [simp]: "alive i (sleep_exit j s) = alive i s"
  by (rule alive_dead_of) simp

section \<open>Files\<close>

lemma case_result_Some:
  "(case r of Ok x \<Rightarrow> f x | Err e \<Rightarrow> g e) = Some y \<longleftrightarrow> (\<exists>x. r = Ok x \<and> f x = Some y) \<or> (\<exists>e. r = Err e \<and> g e = Some y)"
  by (cases r) auto

lemma case_FileType_Some:
  "(case t of FNone \<Rightarrow> a | FPipe p \<Rightarrow> b p | FInode ip \<Rightarrow> c ip | FDevice ip n \<Rightarrow> d ip n) = Some y \<longleftrightarrow>
     t = FNone \<and> a = Some y \<or> (\<exists>p. t = FPipe p \<and> b p = Some y) \<or> (\<exists>ip. t = FInode ip \<and> c ip = Some y) \<or> (\<exists>ip n. t = FDevice ip n \<and> d ip n = Some y)"
  by (cases t) auto

lemma case_prod_Some: "(case p of (a, b) \<Rightarrow> f a b) = Some y \<longleftrightarrow> (\<exists>a b. p = (a, b) \<and> f a b = Some y)"
  by (cases p) simp

lemmas do_simps = bind_eq_Some_conv Let_def case_result_Some case_FileType_Some

lemma pipe_write_loop_dead: "pipe_write_loop cf p cur addr n i x m s = Some (c, x', m', s') \<Longrightarrow> alive cur s \<Longrightarrow> dead_of s' = dead_of s"
proof (induction cf p cur addr n i x m s rule: pipe_write_loop.induct)
  case (2 cf p cur addr k i x m s)
  have l: "alive cur (wakeup (Some cur) ch s)" for ch using "2.prems"(2) by (simp add: alive_dead_of [of "wakeup (Some cur) ch s" s])
  show ?case
    using 2 l by (auto simp: do_simps dead_of_sleep_enter split: if_splits)
qed auto

lemma pipe_read_loop_dead: "pipe_read_loop ct p cur addr n i x m s = Some (c, x', m', s') \<Longrightarrow> dead_of s' = dead_of s"
  by (induction ct p cur addr n i x m s rule: pipe_read_loop.induct)
    (auto simp: do_simps split: if_splits prod.splits)

lemma pipe_read_dead: "pipe_read ct p cur addr n x m s = Some (c, x', m', s') \<Longrightarrow> alive cur s \<Longrightarrow> dead_of s' = dead_of s"
  by (auto simp: pipe_read_def dead_of_sleep_enter split: if_splits dest: pipe_read_loop_dead)

lemma console_read_loop_dead: "console_read_loop ct ch cur d n i con m s = Some (c, con', m', s') \<Longrightarrow> alive cur s \<Longrightarrow> dead_of s' = dead_of s"
  by (induction ct ch cur d n i con m s rule: console_read_loop.induct)
    (auto simp: do_simps dead_of_sleep_enter split: if_splits prod.splits)

lemma uart_write_dead: "uart_write pf ch cur cs u s = (rest, u', s') \<Longrightarrow> alive cur s \<Longrightarrow> dead_of s' = dead_of s"
  by (induction pf ch cur cs u s rule: uart_write.induct) (auto simp: dead_of_sleep_enter split: if_splits)

lemma console_write_loop_dead: "console_write_loop cf pf raw ch cur src l n u m s = Some (c, u', m', s') \<Longrightarrow> alive cur s \<Longrightarrow> dead_of s' = dead_of s"
proof (induction cf pf raw ch cur src l n u m s rule: console_write_loop.induct)
  case (1 cf pf raw ch cur src l n u m s)
  show ?case
  proof (cases "l \<le> n")
    case False
    let ?c = "min 32 (l - n)"
    obtain r m1 where c: "cf src ?c m = Some (r, m1)"
      using "1.prems"(1) False by (auto simp: console_write_loop.simps [of _ _ _ _ _ _ l] do_simps)
    show ?thesis
    proof (cases r)
      case (Ok bytes)
      obtain rest u1 s1 where w: "uart_write pf ch cur bytes u s = (rest, u1, s1)" by (metis prod_cases3)
      have d: "dead_of s1 = dead_of s" "alive cur s1" using uart_write_dead [OF w "1.prems"(2)] "1.prems"(2) by (auto dest: alive_dead_of)
      show ?thesis
        using "1.prems" False c Ok w d "1.IH"(1) [OF False refl c refl Ok] "1.IH"(2) [OF False refl c refl Ok, of rest "(u1, s1)" u1 s1]
        by (subst (asm) console_write_loop.simps) (auto simp: do_simps split: if_splits list.splits)
    qed (use "1.prems" False c in \<open>auto simp: console_write_loop.simps [of _ _ _ _ _ _ l] do_simps\<close>)
  qed (use "1.prems" in \<open>simp add: console_write_loop.simps\<close>)
qed

lemma console_write_resume_dead: "console_write_resume cf pf ch cur l src n rest u m s = Some (c, u', m', s') \<Longrightarrow> alive cur s \<Longrightarrow> dead_of s' = dead_of s"
proof -
  assume a: "console_write_resume cf pf ch cur l src n rest u m s = Some (c, u', m', s')" "alive cur s"
  obtain rest1 u1 s1 where w: "uart_write pf ch cur rest u (sleep_exit cur s) = (rest1, u1, s1)" by (metis prod_cases3)
  then have "dead_of s1 = dead_of s" "alive cur s1" using uart_write_dead [OF w] a(2) by (auto dest: alive_dead_of)
  then show "dead_of s' = dead_of s"
    using a(1) w by (auto simp: console_write_resume_def Let_def split: list.splits dest: console_write_loop_dead)
qed

lemma kview_on_fs: "on_fs f k = Some (r, k') \<Longrightarrow> kview k' = kview k"
  by (auto simp: on_fs_def do_simps)

lemma kview_on_fs_unit: "on_fs_unit f k = Some k' \<Longrightarrow> kview k' = kview k"
  by (auto simp: on_fs_unit_def do_simps)

lemma kview_on_mem: "on_mem f k = Some (r, k') \<Longrightarrow> kview k' = kview k"
  by (auto simp: on_mem_def do_simps)

lemma kview_op_begin: "op_begin cur k = Some (x, k') \<Longrightarrow> kview k' = kview k"
  by (auto simp: op_begin_def operation_begin_def begin_op_def kview_def split: if_splits prod.splits option.splits)

lemma kview_op_end: "op_end cur x k = Some k' \<Longrightarrow> kview k' = kview k"
  by (auto simp: op_end_def operation_drop_def end_op_def kview_def do_simps split: if_splits)

lemma kview_in_op:
  assumes "in_op cur f k = Some (r, k')" "\<And>r k1 k2. kview k1 = kview k \<Longrightarrow> f k1 = Some (r, k2) \<Longrightarrow> kview k2 = kview k1"
  shows "kview k' = kview k"
proof -
  obtain x k1 k2 where "op_begin cur k = Some (x, k1)" "f k1 = Some (r, k2)" "op_end cur x k2 = Some k'"
    using assms(1) by (auto simp: in_op_def do_simps)
  then show ?thesis using kview_op_begin kview_op_end assms(2) by metis
qed

lemmas kview_steps = kview_on_fs kview_on_fs_unit kview_on_mem kview_file_lock

lemma kview_close_inode: "close_inode cur ip k = Some k' \<Longrightarrow> kview k' = kview k"
  by (auto simp: close_inode_def do_simps elim!: kview_in_op dest!: kview_on_fs_unit)

lemma kview_stat_inode: "stat_inode B lay cur ip addr k = Some (r, k') \<Longrightarrow> kview k' = kview k"
  by (auto simp: stat_inode_def do_simps dest!: kview_steps)

lemma kview_file_stat: "file_stat B lay cur i addr k = Some (r, k') \<Longrightarrow> kview k' = kview k"
  by (auto simp: file_stat_def do_simps dest!: kview_steps kview_stat_inode)

lemma kview_read_inode: "read_inode B cur i ip addr n k = Some (r, k') \<Longrightarrow> kview k' = kview k"
  by (auto simp: read_inode_def do_simps kview_upd_file split: if_splits result.split dest!: kview_steps)

lemma kview_file_finish [simp]: "kview (snd (file_finish i c k)) = kview k"
  by (simp add: file_finish_def split: fcall.splits)

lemma kview_after_pipe:
  assumes "after_pipe i p k r = Some (c, k')" "\<And>c x m s. r = Some (c, x, m, s) \<Longrightarrow> dead_of s = dead_of (sched k)"
  shows "kview k' = kview k"
  using assms by (cases r) (auto simp: after_pipe_def file_finish_def file_unlock_def kview_def split: fcall.splits)

lemma kview_after_console:
  assumes "after_console i k r = Some (c, k')" "\<And>c x m s. r = Some (c, x, m, s) \<Longrightarrow> dead_of s = dead_of (sched k)"
  shows "kview k' = kview k"
  using assms by (cases r) (auto simp: after_console_def file_finish_def file_unlock_def kview_def split: fcall.splits)

lemma kview_after_tx:
  assumes "after_tx i k r = Some (c, k')" "\<And>c x m s. r = Some (c, x, m, s) \<Longrightarrow> dead_of s = dead_of (sched k)"
  shows "kview k' = kview k"
  using assms by (cases r) (auto simp: after_tx_def file_finish_def file_unlock_def kview_def split: fcall.splits)

lemma kview_file_read:
  assumes "file_read B cur i addr n k = Some (c, k')" "alive cur (sched k)"
  shows "kview k' = kview k"
proof -
  obtain k1 where k1: "file_lock i k = Some k1" using assms(1) by (auto simp: file_read_def do_simps)
  then have v: "kview k1 = kview k" "alive cur (sched k1)" using assms(2) alive_kview [OF kview_file_lock [OF k1]] by (auto dest: kview_file_lock)
  have "kview k' = kview k1"
    using assms(1) k1 v(2)
    by (auto simp: file_read_def do_simps file_finish_def console_read_def split: if_splits
        elim!: kview_after_pipe kview_after_console intro: pipe_read_dead console_read_loop_dead dest!: kview_read_inode)
  then show ?thesis using v(1) by simp
qed

lemma kview_file_read_resume:
  assumes "file_read_resume B cur i addr n d k = Some (c, k')" "alive cur (sched k)"
  shows "kview k' = kview k"
proof -
  have "alive cur (sleep_exit cur (sched k))" using assms(2) by simp
  moreover have "dead_of s' = dead_of (sched k)" if "dead_of s' = dead_of (sleep_exit cur (sched k))" for s' using that by simp
  ultimately show ?thesis
    using assms(1) by (auto simp: file_read_resume_def pipe_read_resume_def console_read_resume_def do_simps
        elim!: kview_after_pipe kview_after_console dest: pipe_read_dead console_read_loop_dead)
qed

lemma kview_write_chunk: "write_chunk B cur i ip addr n k = Some (r, k') \<Longrightarrow> kview k' = kview k"
  by (auto simp: write_chunk_def do_simps kview_upd_file split: if_splits result.split dest!: kview_steps)

lemma kview_write_loop: "write_loop B cur i ip addr n d k = Some (r, k') \<Longrightarrow> kview k' = kview k"
proof -
  have "kview (snd y) = kview k" if "write_loop B cur i ip addr n d k = Some y" for y
    using that
  proof (rule write_loop.raw_induct [rotated, where P = "\<lambda>B cur i ip addr n d k y. kview (snd y) = kview k"])
    fix f B cur i ip addr n d and k :: "'a Kernel" and y
    assume IH: "\<And>B cur i ip addr n d (k :: 'a Kernel) y. f B cur i ip addr n d k = Some y \<Longrightarrow> kview (snd y) = kview k"
      and body: "(if d < n then do {
          (w, k) \<leftarrow> in_op cur (write_chunk B cur i ip (addr + word_of_nat d) (min (n - d) FILE_MAX)) k;
          case w of Err _ \<Rightarrow> Some (d, k) | Ok written \<Rightarrow> f B cur i ip addr n (d + unat written) k
        } else Some (d, k)) = Some y"
    have op: "kview k1 = kview k" if "in_op cur (write_chunk B cur i ip a m) k = Some (w, k1)" for a m w k1
      by (rule kview_in_op [OF that]) (rule kview_write_chunk)
    show "kview (snd y) = kview k"
      using body by (auto simp: do_simps split: if_splits dest!: IH op)
  qed
  then show "write_loop B cur i ip addr n d k = Some (r, k') \<Longrightarrow> kview k' = kview k" by fastforce
qed

lemma kview_file_write:
  assumes "file_write B cur i addr n k = Some (c, k')" "alive cur (sched k)"
  shows "kview k' = kview k"
proof -
  obtain k1 where k1: "file_lock i k = Some k1" using assms(1) by (auto simp: file_write_def do_simps)
  then have v: "kview k1 = kview k" "alive cur (sched k1)" using assms(2) alive_kview [OF kview_file_lock [OF k1]] by (auto dest: kview_file_lock)
  have "kview k' = kview k1"
    using assms(1) k1 v(2)
    by (auto simp: file_write_def do_simps file_finish_def console_write_def pipe_write_def split: if_splits
        elim!: kview_after_pipe kview_after_tx intro: pipe_write_loop_dead console_write_loop_dead dest!: kview_write_loop)
  then show ?thesis using v(1) by simp
qed

lemma kview_file_write_resume:
  assumes "file_write_resume B cur i addr n d k = Some (c, k')" "alive cur (sched k)"
  shows "kview k' = kview k"
proof -
  have "alive cur (sleep_exit cur (sched k))" using assms(2) by simp
  moreover have "dead_of s' = dead_of (sched k)" if "dead_of s' = dead_of (sleep_exit cur (sched k))" for s' using that by simp
  ultimately show ?thesis
    using assms by (cases d) (auto simp: file_write_resume_def pipe_write_resume_def do_simps
        elim!: kview_after_pipe kview_after_tx dest: pipe_write_loop_dead console_write_resume_dead)
qed

lemma kview_file_ioctl:
  assumes "file_ioctl i cmd arg k = Some (r, k')"
  shows "kview k' = kview k"
proof -
  obtain k1 where "file_lock i k = Some k1" using assms by (auto simp: file_ioctl_def do_simps)
  then show ?thesis
    using assms by (cases "ftype (files k1 ! i)") (auto simp: file_ioctl_def do_simps split: if_splits prod.splits dest!: kview_file_lock)
qed

section \<open>System calls on names\<close>

lemma kview_fetch_string: "fetch_string B cur addr n k = Some (r, k') \<Longrightarrow> kview k' = kview k"
  by (auto simp: fetch_string_def do_simps)

lemma kview_add_nlink: "add_nlink x ip k = Some k' \<Longrightarrow> kview k' = kview k"
  by (auto simp: add_nlink_def dest!: kview_on_fs_unit)

lemmas kview_calls = kview_steps kview_fetch_string kview_add_nlink

lemma kview_link_new: "link_new cur old path k = Some (r, k') \<Longrightarrow> kview k' = kview k"
  by (auto simp: link_new_def do_simps split: if_splits dest!: kview_calls)

lemma kview_link_body: "link_body cur old path k = Some (r, k') \<Longrightarrow> kview k' = kview k"
  by (auto simp: link_body_def do_simps split: if_splits dest!: kview_calls kview_link_new)

lemma kview_sys_link: "sys_link B cur tf k = Some (r, k') \<Longrightarrow> kview k' = kview k"
  by (auto simp: sys_link_def do_simps dest!: kview_calls dest: kview_in_op [OF _ kview_link_body])

lemma kview_unlink_entry: "unlink_entry parent ip off k = Some (r, k') \<Longrightarrow> kview k' = kview k"
  by (auto simp: unlink_entry_def do_simps split: if_splits dest!: kview_calls)

lemma kview_unlink_body: "unlink_body cur path k = Some (r, k') \<Longrightarrow> kview k' = kview k"
  by (auto simp: unlink_body_def do_simps split: if_splits option.splits dest!: kview_calls kview_unlink_entry)

lemma kview_sys_unlink: "sys_unlink B cur tf k = Some (r, k') \<Longrightarrow> kview k' = kview k"
  by (auto simp: sys_unlink_def do_simps dest!: kview_calls dest: kview_in_op [OF _ kview_unlink_body])

lemma kview_make_node: "make_node B cur addr ty major minor k = Some (r, k') \<Longrightarrow> kview k' = kview k"
  by (auto simp: make_node_def do_simps dest!: kview_calls)

lemma kview_sys_mkdir: "sys_mkdir B cur tf k = Some (r, k') \<Longrightarrow> kview k' = kview k"
  unfolding sys_mkdir_def by (erule kview_in_op) (auto simp: do_simps dest!: kview_make_node)

lemma kview_sys_mknod: "sys_mknod B cur tf k = Some (r, k') \<Longrightarrow> kview k' = kview k"
  unfolding sys_mknod_def by (erule kview_in_op) (auto simp: do_simps dest!: kview_make_node)

lemma kview_sys_chdir: "sys_chdir B cur tf k = Some (r, k') \<Longrightarrow> kview k' = kview k"
  unfolding sys_chdir_def
  by (erule kview_in_op) (auto simp: chdir_body_def do_simps kview_upd_data split: if_splits dest!: kview_calls)

lemma kview_sys_pwd: "sys_pwd B cur tf k = Some (r, k') \<Longrightarrow> kview k' = kview k"
  unfolding sys_pwd_def by (erule kview_in_op) (auto simp: pwd_body_def do_simps split: if_splits prod.splits dest!: kview_calls)

section \<open>System calls on descriptors and processes\<close>

lemma kview_sys_read: "sys_read B cur tf k = Some (c, k') \<Longrightarrow> alive cur (sched k) \<Longrightarrow> kview k' = kview k"
  by (auto simp: sys_read_def do_simps split: prod.splits dest: kview_file_read)

lemma kview_sys_write: "sys_write B cur tf k = Some (c, k') \<Longrightarrow> alive cur (sched k) \<Longrightarrow> kview k' = kview k"
  by (auto simp: sys_write_def do_simps split: prod.splits dest: kview_file_write)

lemma kview_sys_fstat: "sys_fstat B lay cur tf k = Some (r, k') \<Longrightarrow> kview k' = kview k"
  by (auto simp: sys_fstat_def do_simps split: prod.splits dest!: kview_file_stat)

lemma kview_sys_ioctl: "sys_ioctl cur tf k = Some (r, k') \<Longrightarrow> kview k' = kview k"
  by (auto simp: sys_ioctl_def do_simps split: prod.splits dest!: kview_file_ioctl)

lemma kview_sys_sbrk: "sys_sbrk E cur tf k = Some (r, k') \<Longrightarrow> kview k' = kview k"
  by (auto simp: sys_sbrk_def grow_def do_simps kview_upd_data split: result.split)

lemma kview_sys_sleep: "sys_sleep cur tf k = Some (c, k') \<Longrightarrow> alive cur (sched k) \<Longrightarrow> kview k' = kview k"
  by (auto simp: sys_sleep_def sleep_loop_def do_simps kview_sched dead_of_sleep_enter split: if_splits)

lemma kview_sys_sleep_resume: "sys_sleep_resume cur t0 n k = (c, k') \<Longrightarrow> alive cur (sched k) \<Longrightarrow> kview k' = kview k"
  by (auto simp: sys_sleep_resume_def sleep_loop_def kview_sched dead_of_sleep_enter split: if_splits)

lemma kview_sys_kill: "sys_kill tf k = Some (r, k') \<Longrightarrow> kview k' = kview k"
proof -
  have "kview (k\<lparr>sched := s\<rparr>) = kview k" if "kill pid (sched k) = (b, s)" for pid b s
    by (rule kview_sched) (metis dead_of_kill snd_conv that)
  then show "sys_kill tf k = Some (r, k') \<Longrightarrow> kview k' = kview k"
    by (auto simp: sys_kill_def do_simps case_prod_Some)
qed

lemma kview_sys_settickets: "sys_settickets cur tf k = Some (r, k') \<Longrightarrow> kview k' = kview k"
proof -
  have "kview (k\<lparr>sched := s\<rparr>) = kview k" if "set_tickets cur t (sched k) = (b, s)" for t b s
    by (rule kview_sched) (metis dead_of_set_tickets snd_conv that)
  then show "sys_settickets cur tf k = Some (r, k') \<Longrightarrow> kview k' = kview k"
    by (auto simp: sys_settickets_def do_simps case_prod_Some)
qed

lemma kview_msg: "do_set_msg E cur tf k = Some (r, k') \<Longrightarrow> kview k' = kview k" "do_get_msg E cur tf k = Some (r, k') \<Longrightarrow> kview k' = kview k"
  by (auto simp: do_set_msg_def do_get_msg_def do_simps)

lemma kview_sys_getpinfo: "sys_getpinfo E cur tf k = Some (r, k') \<Longrightarrow> kview k' = kview k"
  by (auto simp: sys_getpinfo_def do_simps)

section \<open>Program execution\<close>

text \<open>\<open>exec\<close> is the one call that writes the trap frame of its caller.\<close>

definition fview :: "'b Kernel \<Rightarrow> usize list \<times> FileType list \<times> nat option list list \<times> nat \<times> bool list" where
  "fview k = (ref_counts k, map ftype (files k), map open_files (data k), length (pipes k), dead_of (sched k))"

definition frame_of :: "nat \<Rightarrow> 'b Kernel \<Rightarrow> (usize \<times> TrapFrame) option" where
  "frame_of i k = (if i < length (data k) then pd_trapframe (data k ! i) else None)"

lemma fview_kview: "kview k' = kview k \<Longrightarrow> fview k' = fview k"
  by (simp add: kview_def fview_def)

lemma frame_of_kview: "kview k' = kview k \<Longrightarrow> frame_of i k' = frame_of i k"
  by (auto simp: kview_def frame_of_def dest: map_eq_imp_length_eq) (metis length_map nth_map)

lemma kview_load_page: "load_page ip pa off n k = Some (r, k') \<Longrightarrow> kview k' = kview k"
  by (auto simp: load_page_def do_simps)

lemma kview_load_pages: "load_pages B ip uvm va off sz is k = Some (r, k') \<Longrightarrow> kview k' = kview k"
  by (induction "is" arbitrary: k)
    (auto simp: do_simps split: if_splits dest!: kview_load_page)

lemma kview_read_kernel: "read_kernel ip off n k = Some (r, bs, k') \<Longrightarrow> kview k' = kview k"
  by (auto simp: read_kernel_def do_simps)

lemma kview_exec_abort: "exec_abort B uvm sz ip e k = Some (r, k') \<Longrightarrow> kview k' = kview k"
  by (auto simp: exec_abort_def do_simps dest!: kview_on_fs_unit)

lemma kview_load_segments: "load_segments B ip uvm n off sz k = Some (r, k') \<Longrightarrow> kview k' = kview k"
proof (induction n arbitrary: off sz k)
  case (Suc n)
  show ?case
    using Suc.prems
    by (auto simp: do_simps load_elf_segment_def split: if_splits
        dest!: Suc.IH kview_read_kernel kview_exec_abort kview_steps kview_load_pages)
qed simp

lemma kview_exec_load: "exec_load B t cur path k = Some (r, k') \<Longrightarrow> kview k' = kview k"
  by (auto simp: exec_load_def do_simps split: if_splits prod.splits dest!: kview_steps kview_read_kernel kview_load_segments)

lemma kview_fetch_argv: "fetch_argv B cur u n argv k = Some (r, k') \<Longrightarrow> kview k' = kview k"
  by (induction n arbitrary: u argv k)
    (auto simp: do_simps split: if_splits dest!: kview_calls)

lemma kview_exec_fail: "exec_fail B uvm sz e k = Some (r, k') \<Longrightarrow> kview k' = kview k"
  by (auto simp: exec_fail_def do_simps)

definition entered :: "usize \<Rightarrow> usize \<Rightarrow> TrapFrame \<Rightarrow> TrapFrame" where
  "entered stk entry tf = tf\<lparr>a1 := stk, epc := entry, tf_sp := stk\<rparr>"

lemma open_files_upd_data: "(\<And>d. open_files (g d) = open_files d) \<Longrightarrow> map open_files (data (upd_data i g k)) = map open_files (data k)"
  by (simp add: upd_data_def map_update) (metis list_update_beyond list_update_id nth_map not_le_imp_less length_map)

lemma fview_upd_data: "(\<And>d. open_files (g d) = open_files d) \<Longrightarrow> fview (upd_data i g k) = fview k"
  by (simp add: fview_def open_files_upd_data) (simp add: upd_data_def)

lemma frame_of_upd_data: "frame_of i (upd_data j g k) = (if i = j \<and> i < length (data k) then pd_trapframe (g (data k ! i)) else frame_of i k)"
  by (simp add: frame_of_def upd_data_def)

lemma frame_of_set_trapframe: "frame_of i (set_trapframe j g k) = (if i = j then map_option (map_prod (\<lambda>pa. pa) g) (frame_of i k) else frame_of i k)"
  by (simp add: set_trapframe_def frame_of_upd_data) (simp add: frame_of_def)

lemma exec_commit_frame:
  assumes "exec_commit B cur path uvm sz entry stk k = Some k'"
  shows "fview k' = fview k" "frame_of cur k' = map_option (map_prod (\<lambda>pa. pa) (entered stk entry)) (frame_of cur k)" "i \<noteq> cur \<Longrightarrow> frame_of i k' = frame_of i k"
proof -
  let ?k = "upd_data cur (\<lambda>d. d\<lparr>pd_name := base_name path, pd_pagetable := Some uvm, pd_size := sz\<rparr>) k"
  obtain m where k': "k' = (set_trapframe cur (entered stk entry) ?k)\<lparr>mem := m\<rparr>"
    using assms by (auto simp: exec_commit_def do_simps entered_def [abs_def])
  have "kview k' = kview (set_trapframe cur (entered stk entry) ?k)" unfolding k' by simp
  then have *: "fview k' = fview (set_trapframe cur (entered stk entry) ?k)" "frame_of j k' = frame_of j (set_trapframe cur (entered stk entry) ?k)" for j
    by (auto dest: fview_kview frame_of_kview)
  show "fview k' = fview k" unfolding * by (simp add: set_trapframe_def fview_upd_data)
  show "frame_of cur k' = map_option (map_prod (\<lambda>pa. pa) (entered stk entry)) (frame_of cur k)"
    unfolding * frame_of_set_trapframe by (simp add: frame_of_upd_data) (simp add: frame_of_def)
  show "i \<noteq> cur \<Longrightarrow> frame_of i k' = frame_of i k"
    unfolding * frame_of_set_trapframe by (simp add: frame_of_upd_data)
qed

text \<open>What a call that is not about descriptors or processes does to the view.\<close>

definition frame_ok :: "nat \<Rightarrow> 'b Kernel \<Rightarrow> 'b Kernel \<Rightarrow> bool" where
  "frame_ok cur k k' \<longleftrightarrow> fview k' = fview k \<and>
     (\<exists>g. (g = (\<lambda>tf. tf) \<or> (\<exists>stk entry. g = entered stk entry)) \<and>
       (\<forall>i. frame_of i k' = (if i = cur then map_option (map_prod (\<lambda>pa. pa) g) (frame_of i k) else frame_of i k)))"

lemma frame_ok_kview:
  assumes "kview k' = kview k"
  shows "frame_ok cur k k'"
proof -
  have "fview k' = fview k" "frame_of i k' = frame_of i k" for i
    using assms by (rule fview_kview, rule frame_of_kview)
  then show ?thesis
    unfolding frame_ok_def by (intro conjI exI [of _ "\<lambda>tf. tf"]) (simp_all add: option.map_ident)
qed

lemma frame_ok_after:
  assumes "kview k1 = kview k" "frame_ok cur k1 k'"
  shows "frame_ok cur k k'"
proof -
  have eq: "fview k1 = fview k" "frame_of i k1 = frame_of i k" for i
    using assms(1) by (rule fview_kview, rule frame_of_kview)
  show ?thesis using assms(2) unfolding frame_ok_def eq .
qed

lemma exec_commit_frame_ok: "exec_commit B cur path uvm sz entry stk k = Some k' \<Longrightarrow> frame_ok cur k k'"
  unfolding frame_ok_def using exec_commit_frame by (intro conjI exI [of _ "entered stk entry"]) auto

lemma frame_ok_exec:
  assumes "exec B t cur path argv k = Some (r, k')"
  shows "frame_ok cur k k'"
proof -
  have load: "kview k1 = kview k" if "in_op cur (exec_load B t cur path) k = Some (x, k1)" for x k1
    by (rule kview_in_op [OF that]) (rule kview_exec_load)
  show ?thesis
    using assms
    by (auto simp: exec_def do_simps case_prod_Some split: if_splits dest!: load kview_on_mem kview_exec_fail exec_commit_frame_ok
        intro: frame_ok_kview frame_ok_after)
qed

lemma frame_ok_sys_exec: "sys_exec B t cur tf k = Some (r, k') \<Longrightarrow> frame_ok cur k k'"
  by (auto simp: sys_exec_def do_simps dest!: kview_fetch_string kview_fetch_argv frame_ok_exec intro: frame_ok_kview frame_ok_after)

end
