(* ===== verification/Descriptors.thy ===== *)
theory Descriptors
  imports Frame
begin

text \<open>
  The invariant of descriptors and open files: the reference count of every open file is the number of
  descriptors that refer to it, every descriptor refers to a file that has a kind, and processes that
  are not running programs have no descriptors.
\<close>

section \<open>Invariant\<close>

definition typed :: "nat \<Rightarrow> FileType \<Rightarrow> bool" where
  "typed np t \<longleftrightarrow> t \<noteq> FNone \<and> (\<forall>p. t = FPipe p \<longrightarrow> p < np)"

definition uses :: "nat option list list \<Rightarrow> nat \<Rightarrow> int" where
  "uses os i = (\<Sum>l\<leftarrow>os. int (count_list l (Some i)))"

text \<open>
  In the middle of an operation: \<open>h i\<close> more references to file \<open>i\<close> than descriptors, the files \<open>X\<close> have no kind
  yet, and the processes \<open>N\<close> are being built.
\<close>

fun fd_view :: "(nat \<Rightarrow> int) \<Rightarrow> nat set \<Rightarrow> nat set \<Rightarrow> usize list \<times> FileType list \<times> nat option list list \<times> nat \<times> bool list \<Rightarrow> bool" where
  "fd_view h X N (rc, ty, os, np, dd) \<longleftrightarrow>
     length rc = NFILE \<and> length ty = NFILE \<and> length os = NPROC \<and> length dd = NPROC \<and> (\<forall>l \<in> set os. length l = NOFILE) \<and>
     (\<forall>i < NFILE. int (unat (rc ! i)) = uses os i + h i) \<and>
     (\<forall>i < NFILE. rc ! i = 0 \<longrightarrow> ty ! i = FNone) \<and>
     (\<forall>l \<in> set os. \<forall>i. Some i \<in> set l \<longrightarrow> i < NFILE \<and> (i \<in> X \<or> typed np (ty ! i))) \<and>
     (\<forall>j < NPROC. dd ! j \<and> j \<notin> N \<longrightarrow> set (os ! j) \<subseteq> {None})"

abbreviation fd_mid :: "(nat \<Rightarrow> int) \<Rightarrow> nat set \<Rightarrow> nat set \<Rightarrow> 'b Kernel \<Rightarrow> bool" where
  "fd_mid h X N k \<equiv> fd_view h X N (fview k)"

definition fd_inv :: "'b Kernel \<Rightarrow> bool" where
  "fd_inv k \<longleftrightarrow>
     length (ref_counts k) = NFILE \<and> length (files k) = NFILE \<and> length (data k) = NPROC \<and> length (procs (sched k)) = NPROC \<and>
     (\<forall>d \<in> set (data k). length (open_files d) = NOFILE) \<and>
     (\<forall>i < NFILE. int (unat (ref_counts k ! i)) = (\<Sum>d\<leftarrow>data k. int (count_list (open_files d) (Some i)))) \<and>
     (\<forall>i < NFILE. ref_counts k ! i = 0 \<longrightarrow> ftype (files k ! i) = FNone) \<and>
     (\<forall>d \<in> set (data k). \<forall>i. Some i \<in> set (open_files d) \<longrightarrow> i < NFILE \<and> typed (length (pipes k)) (ftype (files k ! i))) \<and>
     (\<forall>j < NPROC. dead (procs (sched k) ! j) \<longrightarrow> set (open_files (data k ! j)) \<subseteq> {None})"

lemma fd_inv_mid: "fd_inv k \<longleftrightarrow> fd_mid (\<lambda>_. 0) {} {} k"
  unfolding fd_inv_def fview_def fd_view.simps uses_def dead_of_def
  by (simp add: comp_def cong: conj_cong)

lemma fd_inv_fview: "fview k' = fview k \<Longrightarrow> fd_inv k' = fd_inv k"
  by (simp only: fd_inv_mid)

section \<open>Counting\<close>

lemma sum_list_map_update:
  fixes f :: "'a \<Rightarrow> int"
  shows "j < length xs \<Longrightarrow> sum_list (map f (xs[j := y])) = sum_list (map f xs) + f y - f (xs ! j)"
  by (induction xs arbitrary: j) (auto split: nat.splits)

lemma count_list_update:
  "j < length xs \<Longrightarrow> int (count_list (xs[j := y]) z) = int (count_list xs z) + of_bool (y = z) - of_bool (xs ! j = z)"
proof (induction xs arbitrary: j)
  case (Cons x xs)
  show ?case using Cons.prems Cons.IH [of "j - 1"] by (cases j) auto
qed simp

lemma uses_update:
  "j < length os \<Longrightarrow> fd < length (os ! j) \<Longrightarrow>
     uses (os[j := (os ! j)[fd := x]]) i = uses os i + of_bool (x = Some i) - of_bool (os ! j ! fd = Some i)"
  by (simp add: uses_def sum_list_map_update count_list_update)

lemma uses_nonneg: "0 \<le> uses os i"
  unfolding uses_def by (rule sum_list_nonneg) auto

lemma uses_bound: "\<forall>l \<in> set os. length l = n \<Longrightarrow> uses os i \<le> int (length os * n)"
proof (induction os)
  case (Cons l os)
  have "count_list l (Some i) \<le> n" using Cons.prems count_le_length [of l "Some i"] by simp
  then show ?case using Cons by (simp add: uses_def)
qed (simp add: uses_def)

lemma uses_pos: "l \<in> set os \<Longrightarrow> Some i \<in> set l \<Longrightarrow> 0 < uses os i"
proof (induction os)
  case (Cons m os)
  have "Some i \<in> set m \<Longrightarrow> 0 < count_list m (Some i)" by (metis count_list_0_iff not_gr_zero)
  with Cons uses_nonneg [of os i] show ?case by (auto simp: uses_def)
qed simp

lemma uses_zero: "uses os i = 0 \<Longrightarrow> l \<in> set os \<Longrightarrow> Some i \<notin> set l"
  using uses_pos by fastforce

lemma fd_view_uses: "fd_view h X N (rc, ty, os, np, dd) \<Longrightarrow> uses os i \<le> 1024"
  using uses_bound [of os NOFILE i] by (simp add: NPROC_def NOFILE_def)

section \<open>Steps on the view\<close>

lemma fd_view_h: "(\<And>i. h i = h' i) \<Longrightarrow> fd_view h X N v \<Longrightarrow> fd_view h' X N v"
  by (metis ext)

lemma fd_view_mono: "X \<subseteq> X' \<Longrightarrow> N \<subseteq> N' \<Longrightarrow> fd_view h X N v \<Longrightarrow> fd_view h X' N' v"
  by (cases v) (auto 0 4)

lemma int_unat_inc: "unat (x :: usize) \<le> 2000 \<Longrightarrow> int (unat (x + 1)) = int (unat x) + 1"
proof -
  assume "unat x \<le> 2000"
  then have "unat (x + 1) = unat x + 1" by (subst unat_word_ariths) simp
  then show ?thesis by simp
qed

lemma int_unat_dec: "(x :: usize) \<noteq> 0 \<Longrightarrow> int (unat (x - 1)) = int (unat x) - 1"
  by (metis Suc_pred' add_diff_cancel_right' int_Suc of_nat_1 unat_gt_0 unat_minus_one)

lemma fd_view_refs:
  assumes "fd_view h X N (rc, ty, os, np, dd)" "i < NFILE" "int (unat r) = int (unat (rc ! i)) + e" "r = 0 \<longrightarrow> ty ! i = FNone"
  shows "fd_view (h(i := h i + e)) X N (rc[i := r], ty, os, np, dd)"
  using assms by (auto simp: nth_list_update)

lemma fd_view_type:
  assumes "fd_view h X N (rc, ty, os, np, dd)" "i < NFILE" "t = FNone \<and> uses os i = 0 \<or> typed np t \<and> rc ! i \<noteq> 0" "X - {i} \<subseteq> X'"
  shows "fd_view h X' N (rc, ty[i := t], os, np, dd)"
proof -
  have "j < NFILE \<and> (j \<in> X' \<or> typed np (ty[i := t] ! j))" if "l \<in> set os" "Some j \<in> set l" for l j
  proof -
    have "j < NFILE" "length ty = NFILE" "j \<in> X \<or> typed np (ty ! j)" using assms(1) that by auto
    then show ?thesis using assms(2-4) that uses_zero [of os i l] by (cases "j = i") (auto simp: nth_list_update)
  qed
  then show ?thesis using assms by (auto simp: nth_list_update)
qed

lemma fd_view_open:
  assumes "fd_view h X N (rc, ty, os, np, dd)" "cur < NPROC" "\<not> dd ! cur \<or> cur \<in> N \<or> x = None" "fd < NOFILE"
    "\<And>i. x = Some i \<Longrightarrow> i < NFILE \<and> (i \<in> X \<or> typed np (ty ! i))"
  shows "fd_view (\<lambda>i. h i - of_bool (x = Some i) + of_bool (os ! cur ! fd = Some i)) X N (rc, ty, os[cur := (os ! cur)[fd := x]], np, dd)"
proof -
  have len: "cur < length os" "length (os ! cur) = NOFILE" using assms(1,2) by auto
  have either: "l = (os ! cur)[fd := x] \<or> l \<in> set os" if "l \<in> set (os[cur := (os ! cur)[fd := x]])" for l
    using that set_update_subset_insert [of os cur "(os ! cur)[fd := x]"] by blast
  have mem: "i < NFILE \<and> (i \<in> X \<or> typed np (ty ! i))" if "l \<in> set (os[cur := (os ! cur)[fd := x]])" "Some i \<in> set l" for l i
  proof -
    have "x = Some i \<or> (\<exists>l \<in> set os. Some i \<in> set l)"
      using either [OF that(1)] that(2) set_update_subset_insert [of "os ! cur" fd x] nth_mem [OF len(1)] by blast
    then show ?thesis using assms(1,5) by auto
  qed
  have dead: "set ((os[cur := (os ! cur)[fd := x]]) ! j) \<subseteq> {None}" if "j < NPROC" "dd ! j" "j \<notin> N" for j
  proof -
    have "set (os ! j) \<subseteq> {None}" using that assms(1) by auto
    then show ?thesis using that assms(2,3) len set_update_subset_insert [of "os ! cur" fd x] by (cases "j = cur") auto
  qed
  have long: "length l = NOFILE" if "l \<in> set (os[cur := (os ! cur)[fd := x]])" for l
    using either [OF that] assms(1) len by auto
  show ?thesis
    using assms(1,4) mem dead long len by (simp add: uses_update)
qed

lemma typed_Suc: "typed np t \<Longrightarrow> typed (Suc np) t"
  by (auto simp: typed_def)

lemma fd_view_pipes: "fd_view h X N (rc, ty, os, np, dd) \<Longrightarrow> fd_view h X N (rc, ty, os, Suc np, dd)"
  using typed_Suc by fastforce

lemma nth_update_bool:
  "i < length dd \<Longrightarrow> dd[j := False] ! i \<longleftrightarrow> i \<noteq> j \<and> dd ! i"
  "i < length dd \<Longrightarrow> dd[j := True] ! i \<longleftrightarrow> i = j \<or> dd ! i"
  by (cases "j = i"; simp)+

lemma fd_view_publish: "fd_view h X {j} (rc, ty, os, np, dd) \<Longrightarrow> fd_view h X {} (rc, ty, os, np, dd[j := False])"
  by (simp add: nth_update_bool)

lemma fd_view_dead: "fd_view h X N (rc, ty, os, np, dd) \<Longrightarrow> set (os ! j) \<subseteq> {None} \<Longrightarrow> fd_view h X N (rc, ty, os, np, dd[j := True])"
  by (simp add: nth_update_bool) blast

declare fd_view.simps [simp del]

section \<open>Operations on files\<close>

abbreviation plus_at :: "(nat \<Rightarrow> int) \<Rightarrow> nat \<Rightarrow> int \<Rightarrow> nat \<Rightarrow> int" where
  "plus_at h i e \<equiv> h(i := h i + e)"

lemma fd_mid_kview: "kview k' = kview k \<Longrightarrow> fd_mid h X N k \<Longrightarrow> fd_mid h X N k'"
  by (drule fview_kview) simp

lemma fd_mid_refs:
  assumes "fd_mid h X N k" "i < NFILE"
  shows "int (unat (ref_counts k ! i)) = uses (map open_files (data k)) i + h i" "unat (ref_counts k ! i) \<le> 1024 + nat (h i)"
proof -
  show e: "int (unat (ref_counts k ! i)) = uses (map open_files (data k)) i + h i" using assms by (simp add: fview_def fd_view.simps)
  have "uses (map open_files (data k)) i \<le> 1024" using fd_view_uses assms(1) unfolding fview_def by blast
  then show "unat (ref_counts k ! i) \<le> 1024 + nat (h i)" using e by linarith
qed

lemma fd_mid_alloc:
  assumes "fd_mid h X N k" "file_alloc k = (Ok i, k')" "h i = 0"
  shows "fd_mid (plus_at h i 1) X N k'" "i < NFILE" "ref_counts k' ! i = 1" "uses (map open_files (data k')) i = 0"
    "kview k' = (ref_counts k', snd (kview k))"
proof -
  have i: "i < length (ref_counts k)" "ref_counts k ! i = 0" "k' = k\<lparr>ref_counts := (ref_counts k)[i := 1]\<rparr>"
    using assms(2) by (auto simp: file_alloc_def split: option.splits dest: find_index_SomeD)
  have len: "length (ref_counts k) = NFILE" using assms(1) by (simp add: fview_def fd_view.simps)
  then show "i < NFILE" using i by simp
  then have u: "uses (map open_files (data k)) i = 0" using fd_mid_refs(1) [OF assms(1), of i] i assms(3) by simp
  show "fd_mid (plus_at h i 1) X N k'"
    using fd_view_refs [OF assms(1) [unfolded fview_def] \<open>i < NFILE\<close>, of 1 1] i by (simp add: fview_def)
  show "ref_counts k' ! i = 1" "uses (map open_files (data k')) i = 0" "kview k' = (ref_counts k', snd (kview k))"
    using i u by (simp_all add: kview_def)
qed

lemma fd_mid_dup:
  assumes "fd_mid h X N k" "file_dup i k = Some k'" "i < NFILE" "h i \<le> 0"
  shows "fd_mid (plus_at h i 1) X N k'"
proof -
  have k': "k' = k\<lparr>ref_counts := (ref_counts k)[i := ref_counts k ! i + 1]\<rparr>" using assms(2) by (auto simp: file_dup_def split: if_splits)
  have b: "unat (ref_counts k ! i) \<le> 2000" using fd_mid_refs(2) [OF assms(1,3)] assms(4) by simp
  have e: "int (unat (ref_counts k ! i + 1)) = int (unat (ref_counts k ! i)) + 1" using int_unat_inc [OF b] .
  then have "0 < unat (ref_counts k ! i + 1)" by linarith
  then have "ref_counts k ! i + 1 \<noteq> 0" by (simp add: unat_gt_0)
  with e show ?thesis
    using fd_view_refs [OF assms(1) [unfolded fview_def] assms(3), of "ref_counts k ! i + 1" 1] k' by (simp add: fview_def)
qed

lemma fd_mid_open:
  assumes "fd_mid h X N k" "cur < NPROC" "alive cur (sched k) \<or> cur \<in> N \<or> x = None" "fd < NOFILE"
    "\<And>i. x = Some i \<Longrightarrow> i < NFILE \<and> (i \<in> X \<or> typed (length (pipes k)) (ftype (files k ! i)))"
  shows "fd_mid (\<lambda>i. h i - of_bool (x = Some i) + of_bool (open_files (data k ! cur) ! fd = Some i)) X N (set_open cur fd x k)"
proof -
  have len: "length (data k) = NPROC" "length (files k) = NFILE" "length (procs (sched k)) = NPROC" using assms(1) by (auto simp: fview_def fd_view.simps dead_of_def)
  have a: "\<not> dead_of (sched k) ! cur \<or> cur \<in> N \<or> x = None" using assms(2,3) len by (auto simp: alive_def dead_of_def)
  have t: "\<And>i. x = Some i \<Longrightarrow> i < NFILE \<and> (i \<in> X \<or> typed (length (pipes k)) (map ftype (files k) ! i))" using assms(5) len by simp
  show ?thesis
    using fd_view_open [OF assms(1) [unfolded fview_def] assms(2) a assms(4) t] len assms(2)
    by (simp add: fview_def set_open_def upd_data_def map_update)
qed

lemma kview_pipe_close: "pipe_close p cur w (pi, s) = (pi', s') \<Longrightarrow> dead_of s' = dead_of s"
  by (auto simp: pipe_close_def split: if_splits)

lemma fd_mid_upd_file:
  assumes "fd_mid h X N k" "i < NFILE" "X - {i} \<subseteq> X'"
    "ftype (g (files k ! i)) = FNone \<and> uses (map open_files (data k)) i = 0 \<or> typed (length (pipes k)) (ftype (g (files k ! i))) \<and> ref_counts k ! i \<noteq> 0"
  shows "fd_mid h X' N (upd_file i g k)"
  using fd_view_type [OF assms(1) [unfolded fview_def] assms(2) assms(4) assms(3)] by (simp add: fview_def upd_file_def map_update)

lemma fd_mid_close:
  assumes inv: "fd_mid h X N k" and close: "file_close cur i k = Some k'" and i: "i < NFILE" and held: "0 < h i"
  shows "fd_mid (plus_at h i (- 1)) X N k'" "dead_of (sched k') = dead_of (sched k)"
    "map open_files (data k') = map open_files (data k)" "length (pipes k') = length (pipes k)"
proof -
  let ?r = "ref_counts k ! i"
  let ?k1 = "k\<lparr>ref_counts := (ref_counts k)[i := ?r - 1]\<rparr>"
  have r: "?r \<noteq> 0" using close by (auto simp: file_close_def do_simps split: if_splits)
  have "fd_mid (plus_at h i (- 1)) X N k' \<and> dead_of (sched k') = dead_of (sched k) \<and> map open_files (data k') = map open_files (data k) \<and> length (pipes k') = length (pipes k)"
  proof (cases "?r - 1 > 0")
    case True
    then have "?r \<noteq> 1" by auto
    then have "fd_mid (plus_at h i (- 1)) X N ?k1"
      using fd_view_refs [OF inv [unfolded fview_def] i, of "?r - 1" "- 1"] int_unat_dec [OF r] True by (simp add: fview_def)
    moreover have "k' = ?k1" using close True by (auto simp: file_close_def do_simps split: if_splits)
    ultimately show ?thesis by simp
  next
    case False
    then have r1: "?r = 1" using r by (simp add: word_gt_0)
    then have u: "uses (map open_files (data k)) i = 0"
      using fd_mid_refs(1) [OF inv i] held uses_nonneg [of "map open_files (data k)" i] by simp
    obtain k2 where k2: "file_lock i ?k1 = Some k2" using close False by (auto simp: file_close_def do_simps split: if_splits)
    then have v2: "kview k2 = kview ?k1" by (rule kview_file_lock)
    let ?k3 = "file_unlock i (upd_file i (\<lambda>f. f\<lparr>ftype := FNone\<rparr>) k2)"
    have "fd_mid h X N (upd_file i (\<lambda>f. f\<lparr>ftype := FNone\<rparr>) k)"
      by (rule fd_mid_upd_file [OF inv i]) (use u in auto)
    moreover have "length (files k) = NFILE" using inv by (simp add: fview_def fd_view.simps)
    ultimately have "fd_mid (plus_at h i (- 1)) X N ((upd_file i (\<lambda>f. f\<lparr>ftype := FNone\<rparr>) k)\<lparr>ref_counts := (ref_counts k)[i := 0]\<rparr>)"
      using fd_view_refs [of h X N "ref_counts k" _ _ _ _ i 0 "- 1"] i r1 inv
      by (simp add: fview_def upd_file_def map_update)
    moreover have "fview ?k3 = fview ((upd_file i (\<lambda>f. f\<lparr>ftype := FNone\<rparr>) k)\<lparr>ref_counts := (ref_counts k)[i := 0]\<rparr>)"
      using v2 r1 by (simp add: fview_def kview_def file_unlock_def upd_file_def map_update)
    ultimately have k3: "fd_mid (plus_at h i (- 1)) X N ?k3" by simp
    have same3: "dead_of (sched ?k3) = dead_of (sched k)" "map open_files (data ?k3) = map open_files (data k)" "length (pipes ?k3) = length (pipes k)"
      using v2 by (simp_all add: kview_def file_unlock_def upd_file_def)
    have "kview k' = kview ?k3"
      using close False k2
      by (auto simp: file_close_def do_simps kview_sched kview_pipe_close case_prod_Some split: if_splits dest!: kview_close_inode)
    then show ?thesis using k3 same3 fd_mid_kview [of k' ?k3] by (auto simp: kview_def)
  qed
  then show "fd_mid (plus_at h i (- 1)) X N k'" "dead_of (sched k') = dead_of (sched k)"
    "map open_files (data k') = map open_files (data k)" "length (pipes k') = length (pipes k)" by blast+
qed

section \<open>System calls\<close>

abbreviation typed_file :: "nat \<Rightarrow> 'b Kernel \<Rightarrow> bool" where
  "typed_file i k \<equiv> typed (length (pipes k)) (ftype (files k ! i))"

lemma fd_mid_alive: "fd_mid h X N k \<Longrightarrow> alive cur (sched k) \<Longrightarrow> cur < NPROC"
  by (simp add: fview_def fd_view.simps alive_def dead_of_def)

lemma fd_mid_len: "fd_mid h X N k \<Longrightarrow> cur < NPROC \<Longrightarrow> length (open_files (data k ! cur)) = NOFILE \<and> cur < length (data k)"
  by (simp add: fview_def fd_view.simps)

lemma fd_mid_entry:
  assumes "fd_mid h X N k" "cur < NPROC" "fd < NOFILE" "open_files (data k ! cur) ! fd = Some i"
  shows "i < NFILE" "i \<in> X \<or> typed_file i k"
proof -
  have "open_files (data k ! cur) \<in> set (map open_files (data k))" "length (open_files (data k ! cur)) = NOFILE"
    using fd_mid_len [OF assms(1,2)] by auto
  moreover from this have "Some i \<in> set (open_files (data k ! cur))" using assms(3,4) by (metis nth_mem)
  ultimately have "i < NFILE" "i \<in> X \<or> typed (length (pipes k)) (map ftype (files k) ! i)" "length (files k) = NFILE"
    using assms(1) unfolding fview_def fd_view.simps length_map by blast+
  then show "i < NFILE" "i \<in> X \<or> typed_file i k" by auto
qed

lemma get_file_Ok: "get_file tf n d = Some (Ok (fd, i)) \<Longrightarrow> fd < NOFILE \<and> open_files d ! fd = Some i"
  by (auto simp: get_file_def do_simps split: if_splits option.splits)

lemma fd_mid_fd_alloc:
  assumes "fd_mid h X N k" "fd_alloc cur i k = (Ok fd, k')" "alive cur (sched k)" "i < NFILE" "i \<in> X \<or> typed_file i k"
  shows "fd_mid (plus_at h i (- 1)) X N k'" "fd < NOFILE" "open_files (data k' ! cur) ! fd = Some i"
    "\<And>fd'. open_files (data k ! cur) ! fd' \<noteq> None \<Longrightarrow> open_files (data k' ! cur) ! fd' = open_files (data k ! cur) ! fd'"
    "k' = set_open cur fd (Some i) k"
proof -
  have cur: "cur < NPROC" using fd_mid_alive [OF assms(1,3)] .
  note len = fd_mid_len [OF assms(1) cur]
  have fd: "fd < length (open_files (data k ! cur))" "open_files (data k ! cur) ! fd = None" "k' = set_open cur fd (Some i) k"
    using assms(2) find_index_SomeD [of "\<lambda>x. x = None" "open_files (data k ! cur)" fd] by (auto simp: fd_alloc_def split: option.splits)
  then show "fd < NOFILE" "k' = set_open cur fd (Some i) k" using len by auto
  show "open_files (data k' ! cur) ! fd = Some i"
    "\<And>fd'. open_files (data k ! cur) ! fd' \<noteq> None \<Longrightarrow> open_files (data k' ! cur) ! fd' = open_files (data k ! cur) ! fd'"
    using fd len by (auto simp: set_open_def upd_data_def nth_list_update)
  have "fd_mid (\<lambda>j. h j - of_bool (Some i = Some j) + of_bool (open_files (data k ! cur) ! fd = Some j)) X N k'"
    unfolding fd(3) by (rule fd_mid_open) (use assms cur \<open>fd < NOFILE\<close> in auto)
  then show "fd_mid (plus_at h i (- 1)) X N k'" by (rule fd_view_h [rotated]) (auto simp: fd(2))
qed

lemma fd_mid_fd_free:
  assumes "fd_mid h X N k" "cur < NPROC" "fd < NOFILE" "open_files (data k ! cur) ! fd = Some i"
  shows "fd_mid (plus_at h i 1) X N (set_open cur fd None k)"
proof -
  have "fd_mid (\<lambda>j. h j - of_bool (None = Some j) + of_bool (open_files (data k ! cur) ! fd = Some j)) X N (set_open cur fd None k)"
    by (rule fd_mid_open) (use assms in auto)
  then show ?thesis by (rule fd_view_h [rotated]) (auto simp: assms(4))
qed

lemma set_open_sel [simp]:
  "ref_counts (set_open cur fd x k) = ref_counts k" "files (set_open cur fd x k) = files k" "pipes (set_open cur fd x k) = pipes k"
  "sched (set_open cur fd x k) = sched k"
  by (simp_all add: set_open_def upd_data_def)

lemma fd_inv_sys_dup:
  assumes "fd_inv k" "sys_dup cur tf k = Some (r, k')" "alive cur (sched k)"
  shows "fd_inv k'"
proof -
  have inv: "fd_mid (\<lambda>_. 0) {} {} k" using assms(1) by (simp add: fd_inv_mid)
  note cur = fd_mid_alive [OF inv assms(3)]
  consider "k' = k" | fd0 i fd k1 where "get_file tf 0 (data k ! cur) = Some (Ok (fd0, i))" "fd_alloc cur i k = (Ok fd, k1)" "file_dup i k1 = Some k'"
    using assms(2) by (auto simp: sys_dup_def do_simps fd_alloc_def split: option.splits)
  then show ?thesis
  proof cases
    case 2
    then have i: "i < NFILE" "typed_file i k" using get_file_Ok fd_mid_entry [OF inv cur] by blast+
    have "fd_mid (plus_at (\<lambda>_. 0) i (- 1)) {} {} k1" using fd_mid_fd_alloc(1) [OF inv 2(2) assms(3) i(1)] i(2) by blast
    from fd_mid_dup [OF this 2(3) i(1)] show ?thesis unfolding fd_inv_mid by (rule fd_view_h [rotated]) auto
  qed (use assms in simp)
qed

lemma fd_inv_sys_close:
  assumes "fd_inv k" "sys_close cur tf k = Some (r, k')" "alive cur (sched k)"
  shows "fd_inv k'"
proof -
  have inv: "fd_mid (\<lambda>_. 0) {} {} k" using assms(1) by (simp add: fd_inv_mid)
  note cur = fd_mid_alive [OF inv assms(3)]
  consider "k' = k" | fd i where "get_file tf 0 (data k ! cur) = Some (Ok (fd, i))" "file_close cur i (set_open cur fd None k) = Some k'"
    using assms(2) by (auto simp: sys_close_def do_simps)
  then show ?thesis
  proof cases
    case 2
    then have fd: "fd < NOFILE" "open_files (data k ! cur) ! fd = Some i" using get_file_Ok by blast+
    have "fd_mid (plus_at (plus_at (\<lambda>_. 0) i 1) i (- 1)) {} {} k'"
      by (rule fd_mid_close(1) [OF fd_mid_fd_free [OF inv cur fd] 2(2) fd_mid_entry(1) [OF inv cur fd]]) simp
    then show ?thesis unfolding fd_inv_mid by (rule fd_view_h [rotated]) auto
  qed (use assms in simp)
qed

subsection \<open>open\<close>

lemma kview_open_inode: "open_inode cur path mode k = Some (r, k') \<Longrightarrow> kview k' = kview k"
  by (auto simp: open_inode_def do_simps split: if_splits dest!: kview_calls)

lemma fd_mid_open_fill:
  assumes inv: "fd_mid h (insert i X) N k" and fill: "open_fill i ip mode k = Some k'" and i: "i < NFILE" "ref_counts k ! i \<noteq> 0"
  shows "fd_mid h X N k'"
proof -
  let ?g = "\<lambda>x. if ii_type (inner_of ip (fs k)) = TypeDevice then x\<lparr>ftype := FDevice ip (ii_major (inner_of ip (fs k)))\<rparr> else x\<lparr>ftype := FInode ip, foffset := 0\<rparr>"
  obtain k1 where k1: "file_lock i k = Some k1" using fill by (auto simp: open_fill_def do_simps)
  then have k1_eq: "k1 = k\<lparr>flocked := (flocked k)[i := True]\<rparr>" by (auto simp: file_lock_def split: if_splits)
  have "fd_mid h X N (upd_file i ?g k1)"
    by (rule fd_mid_upd_file [of h "insert i X"]) (use inv i k1_eq in \<open>auto simp: fview_def typed_def\<close>)
  moreover have "kview k' = kview (upd_file i ?g k1)"
    using fill k1 by (auto simp: open_fill_def do_simps kview_upd_file split: if_splits dest!: kview_on_fs_unit)
  ultimately show ?thesis using fd_mid_kview by blast
qed

lemma fd_inv_open_body:
  assumes "fd_inv k" "open_body cur path mode k = Some (r, k')" "alive cur (sched k)"
  shows "fd_inv k'"
proof -
  obtain q k1 where q: "open_inode cur path mode k = Some (q, k1)" using assms(2) by (auto simp: open_body_def do_simps)
  have v1: "kview k1 = kview k" by (rule kview_open_inode [OF q])
  have inv: "fd_mid (\<lambda>_. 0) {} {} k1" "alive cur (sched k1)"
    using assms(1,3) fd_mid_kview [OF v1] alive_kview [OF v1] by (auto simp: fd_inv_mid)
  have err: "file_alloc k1 = (Err e, k2) \<Longrightarrow> k2 = k1" for e k2 by (auto simp: file_alloc_def split: option.splits)
  have err2: "fd_alloc cur i k2 = (Err e, k3) \<Longrightarrow> k3 = k2" for i e and k2 k3 :: "'a Kernel" by (auto simp: fd_alloc_def split: option.splits)
  consider "kview k' = kview k1"
    | i k2 k3 where "file_alloc k1 = (Ok i, k2)" "file_close cur i k2 = Some k3" "kview k' = kview k3"
    | i k2 fd k3 ip where "file_alloc k1 = (Ok i, k2)" "fd_alloc cur i k2 = (Ok fd, k3)" "open_fill i ip mode k3 = Some k'"
    using assms(2) q
    by (auto simp: open_body_def do_simps case_prod_Some split: if_splits dest!: kview_on_fs_unit err err2)
  then show ?thesis
  proof cases
    case 1
    then show ?thesis using inv fd_mid_kview by (auto simp: fd_inv_mid)
  next
    case 2
    note a = fd_mid_alloc [OF inv(1) 2(1) refl]
    have "fd_mid (plus_at (plus_at (\<lambda>_. 0) i 1) i (- 1)) {} {} k3"
      by (rule fd_mid_close(1) [OF a(1) 2(2) a(2)]) simp
    then have "fd_mid (\<lambda>_. 0) {} {} k3" by (rule fd_view_h [rotated]) auto
    then show ?thesis using fd_mid_kview [OF 2(3)] by (simp add: fd_inv_mid)
  next
    case 3
    note a = fd_mid_alloc [OF inv(1) 3(1) refl]
    have al: "alive cur (sched k2)" using inv(2) 3(1) by (auto simp: file_alloc_def split: option.splits)
    have m: "fd_mid (plus_at (\<lambda>_. 0) i 1) {i} {} k2" by (rule fd_view_mono [OF _ _ a(1)]) auto
    note b = fd_mid_fd_alloc [OF m 3(2) al a(2)]
    have "ref_counts k3 ! i \<noteq> 0" using a(3) b(5) by simp
    then have "fd_mid (plus_at (plus_at (\<lambda>_. 0) i 1) i (- 1)) {} {} k'"
      using fd_mid_open_fill [OF _ 3(3) a(2)] b(1) by simp
    then show ?thesis unfolding fd_inv_mid by (rule fd_view_h [rotated]) auto
  qed
qed

lemma fd_inv_sys_open:
  assumes "fd_inv k" "sys_open B cur tf k = Some (r, k')" "alive cur (sched k)"
  shows "fd_inv k'"
proof -
  consider "kview k' = kview k" | path mode k1 where "kview k1 = kview k" "in_op cur (open_body cur path mode) k1 = Some (r, k')"
    using assms(2) by (auto simp: sys_open_def do_simps dest!: kview_fetch_string)
  then show ?thesis
  proof cases
    case 2
    obtain x k2 k3 where o: "op_begin cur k1 = Some (x, k2)" "open_body cur path mode k2 = Some (r, k3)" "op_end cur x k3 = Some k'"
      using 2(2) by (auto simp: in_op_def do_simps)
    have v: "kview k2 = kview k" using kview_op_begin [OF o(1)] 2(1) by simp
    have "fd_inv k3" by (rule fd_inv_open_body [OF _ o(2)]) (use fd_inv_fview [OF fview_kview [OF v]] alive_kview [OF v] assms in auto)
    then show ?thesis using fd_inv_fview [OF fview_kview [OF kview_op_end [OF o(3)]]] by simp
  qed (use assms(1) fd_inv_fview fview_kview in blast)
qed

subsection \<open>pipe\<close>

abbreviation two_at :: "nat \<Rightarrow> nat \<Rightarrow> nat \<Rightarrow> int" where
  "two_at f0 f1 \<equiv> plus_at (plus_at (\<lambda>_. 0) f0 1) f1 1"

lemma fd_mid_more_pipes: "fd_mid h X N k \<Longrightarrow> fd_mid h X N (k\<lparr>pipes := pipes k @ [p]\<rparr>)"
  using fd_view_pipes by (simp add: fview_def)

lemma fd_mid_pipe_end:
  assumes inv: "fd_mid h X N k" and lock: "file_lock i k = Some k1" and i: "i < NFILE" "ref_counts k ! i \<noteq> 0" and p: "p < length (pipes k)"
  shows "fd_mid h X N (file_unlock i (upd_file i (\<lambda>f. f\<lparr>ftype := FPipe p, readable := r, writeable := w\<rparr>) k1))"
proof -
  have k1: "k1 = k\<lparr>flocked := (flocked k)[i := True]\<rparr>" using lock by (auto simp: file_lock_def split: if_splits)
  have "fd_mid h X N (upd_file i (\<lambda>f. f\<lparr>ftype := FPipe p, readable := r, writeable := w\<rparr>) k1)"
    by (rule fd_mid_upd_file [of h X]) (use inv i p k1 in \<open>auto simp: fview_def typed_def\<close>)
  then show ?thesis by (rule fd_mid_kview [rotated]) simp
qed

lemma fd_mid_close_both:
  assumes inv: "fd_mid (two_at f0 f1) X N k" and c: "file_close cur f0 k = Some k1" "file_close cur f1 k1 = Some k2" and f: "f0 < NFILE" "f1 < NFILE" "f0 \<noteq> f1"
  shows "fd_mid (\<lambda>_. 0) X N k2"
proof -
  have "fd_mid (plus_at (two_at f0 f1) f0 (- 1)) X N k1" by (rule fd_mid_close(1) [OF inv c(1) f(1)]) (use f(3) in simp)
  then have "fd_mid (plus_at (plus_at (two_at f0 f1) f0 (- 1)) f1 (- 1)) X N k2" by (rule fd_mid_close(1) [OF _ c(2) f(2)]) (use f(3) in simp)
  then show ?thesis by (rule fd_view_h [rotated]) (use f(3) in auto)
qed

definition pipe_made :: "nat \<Rightarrow> nat \<Rightarrow> nat \<Rightarrow> 'b Kernel \<Rightarrow> 'b Kernel \<Rightarrow> bool" where
  "pipe_made cur f0 f1 k k' \<longleftrightarrow> fd_mid (two_at f0 f1) {} {} k' \<and> f0 < NFILE \<and> f1 < NFILE \<and> f0 \<noteq> f1 \<and> typed_file f0 k' \<and> typed_file f1 k' \<and>
     sched k' = sched k"

lemma pipe_alloc_fds:
  assumes inv: "fd_mid (\<lambda>_. 0) {} {} k" and run: "pipe_alloc heap cur k = Some (r, k')"
  shows "case r of Ok (f0, f1) \<Rightarrow> pipe_made cur f0 f1 k k' | Err _ \<Rightarrow> fd_mid (\<lambda>_. 0) {} {} k'"
proof (cases "file_alloc k")
  case (Pair q k1)
  show ?thesis
  proof (cases q)
    case (Err e)
    then show ?thesis using run Pair inv by (auto simp: pipe_alloc_def file_alloc_def split: option.splits)
  next
    case (Ok f0)
    note a = fd_mid_alloc [OF inv Pair [unfolded Ok] refl]
    obtain q1 k2 where q1: "file_alloc k1 = (q1, k2)" by fastforce
    show ?thesis
    proof (cases q1)
      case (Err e)
      then have "k2 = k1" using q1 by (auto simp: file_alloc_def split: option.splits)
      then have c: "file_close cur f0 k1 = Some k'" "\<exists>e. r = Err e" using run Pair Ok q1 Err by (auto simp: pipe_alloc_def do_simps)
      have "fd_mid (plus_at (plus_at (\<lambda>_. 0) f0 1) f0 (- 1)) {} {} k'" by (rule fd_mid_close(1) [OF a(1) c(1) a(2)]) simp
      then have "fd_mid (\<lambda>_. 0) {} {} k'" by (rule fd_view_h [rotated]) auto
      then show ?thesis using c(2) by auto
    next
      case (Ok f1)
      have "ref_counts k1 ! f1 = 0" using q1 Ok by (auto simp: file_alloc_def split: option.splits dest: find_index_SomeD)
      then have ne: "f0 \<noteq> f1" using a(3) by auto
      note b = fd_mid_alloc [OF a(1) q1 [unfolded Ok]]
      have two: "fd_mid (two_at f0 f1) {} {} k2" "f1 < NFILE" using b(1,2) ne by auto
      have rc: "ref_counts k2 ! f0 \<noteq> 0" "ref_counts k2 ! f1 \<noteq> 0" "sched k2 = sched k" "length (files k2) = NFILE"
        using a(3) ne b(3) q1 Ok Pair \<open>q = Ok f0\<close> two(1) by (auto simp: file_alloc_def fview_def fd_view.simps split: option.splits)
      show ?thesis
      proof (cases heap)
        case False
        then obtain k3 where "file_close cur f0 k2 = Some k3" "file_close cur f1 k3 = Some k'" "r = Err FsOutOfPipe"
          using run Pair \<open>q = Ok f0\<close> q1 Ok by (auto simp: pipe_alloc_def do_simps)
        then show ?thesis using fd_mid_close_both [OF two(1) _ _ a(2) two(2) ne] by simp
      next
        case True
        let ?g = "\<lambda>rd wr f. f\<lparr>ftype := FPipe (length (pipes k2)), readable := rd, writeable := wr\<rparr>"
        let ?k3 = "k2\<lparr>pipes := pipes k2 @ [pipe_new]\<rparr>"
        obtain k4 k5 where k4: "file_lock f0 ?k3 = Some k4" and k5: "file_lock f1 (file_unlock f0 (upd_file f0 (?g True False) k4)) = Some k5"
          and k': "k' = file_unlock f1 (upd_file f1 (?g False True) k5)" "r = Ok (f0, f1)"
          using run Pair \<open>q = Ok f0\<close> q1 Ok True by (auto simp: pipe_alloc_def do_simps)
        let ?k6 = "file_unlock f0 (upd_file f0 (?g True False) k4)"
        have e4: "k4 = ?k3\<lparr>flocked := (flocked ?k3)[f0 := True]\<rparr>" using k4 by (auto simp: file_lock_def split: if_splits)
        have e5: "k5 = ?k6\<lparr>flocked := (flocked ?k6)[f1 := True]\<rparr>" using k5 by (auto simp: file_lock_def split: if_splits)
        have "fd_mid (two_at f0 f1) {} {} ?k6" by (rule fd_mid_pipe_end [OF fd_mid_more_pipes [OF two(1)] k4 a(2)]) (use rc in auto)
        then have "fd_mid (two_at f0 f1) {} {} k'" unfolding k'(1)
          by (rule fd_mid_pipe_end [OF _ k5 two(2)]) (use rc e4 in \<open>auto simp: upd_file_def file_unlock_def\<close>)
        moreover have "typed_file f0 k'" "typed_file f1 k'" "sched k' = sched k"
          using rc(3,4) a(2) two(2) ne unfolding k'(1) e5 e4 by (auto simp: upd_file_def file_unlock_def typed_def nth_list_update)
        ultimately show ?thesis using k'(2) a(2) two(2) ne by (simp add: pipe_made_def)
      qed
    qed
  qed
qed

lemma kview_pipe_copy_out: "pipe_copy_out B cur a fd0 fd1 k = Some (b, k') \<Longrightarrow> \<exists>m. k' = k\<lparr>mem := m\<rparr>"
  by (auto simp: pipe_copy_out_def do_simps split: if_splits)

lemma open_files_set_open:
  "cur < length (data k) \<Longrightarrow> fd < length (open_files (data k ! cur)) \<Longrightarrow>
     open_files (data (set_open cur fd x k) ! cur) ! fd' = (if fd' = fd then x else open_files (data k ! cur) ! fd')"
  by (simp add: set_open_def upd_data_def nth_list_update)

lemma fd_inv_close_both:
  assumes "fd_mid h {} {} k" "close_both cur f0 f1 e k = Some (r, k')" "f0 < NFILE" "f1 < NFILE" "f0 \<noteq> f1" "\<And>i. h i = two_at f0 f1 i"
  shows "fd_inv k'"
proof -
  obtain k1 where "file_close cur f0 k = Some k1" "file_close cur f1 k1 = Some k'" using assms(2) by (auto simp: close_both_def do_simps)
  then show ?thesis unfolding fd_inv_mid using fd_mid_close_both [OF fd_view_h [OF assms(6) assms(1)]] assms(3-5) by blast
qed

text \<open>The end of \<open>pipe\<close>, with both descriptors in place.\<close>

lemma fd_inv_pipe_finish:
  assumes inv: "fd_mid (\<lambda>_. 0) {} {} k" and cur: "cur < NPROC" and f: "f0 < NFILE" "f1 < NFILE" "f0 \<noteq> f1"
    and fd: "fd0 < NOFILE" "fd1 < NOFILE" "open_files (data k ! cur) ! fd0 = Some f0" "open_files (data k ! cur) ! fd1 = Some f1"
    and run: "pipe_copy_out B cur a fd0 fd1 k = Some (good, k1)"
      "(if good then Some (Ok 0, k1) else close_both cur f0 f1 e (set_open cur fd1 None (set_open cur fd0 None k1))) = Some (r, k')"
  shows "fd_inv k'"
proof -
  obtain m where k1: "k1 = k\<lparr>mem := m\<rparr>" using kview_pipe_copy_out [OF run(1)] by blast
  have inv1: "fd_mid (\<lambda>_. 0) {} {} k1" by (rule fd_mid_kview [OF _ inv]) (simp add: k1)
  have len: "length (open_files (data k1 ! cur)) = NOFILE" "cur < length (data k1)" using fd_mid_len [OF inv1 cur] by auto
  have ne: "fd0 \<noteq> fd1" using fd f(3) by auto
  show ?thesis
  proof (cases good)
    case False
    have a: "fd_mid (plus_at (\<lambda>_. 0) f0 1) {} {} (set_open cur fd0 None k1)"
      by (rule fd_mid_fd_free [OF inv1 cur fd(1)]) (simp add: k1 fd)
    have "fd_mid (plus_at (plus_at (\<lambda>_. 0) f0 1) f1 1) {} {} (set_open cur fd1 None (set_open cur fd0 None k1))"
      by (rule fd_mid_fd_free [OF a cur fd(2)]) (use len fd ne in \<open>simp add: open_files_set_open k1\<close>)
    then show ?thesis by (rule fd_inv_close_both [OF _ _ f]) (use run(2) False in auto)
  qed (use run(2) inv1 in \<open>simp add: fd_inv_mid\<close>)
qed

lemma fd_inv_sys_pipe:
  assumes "fd_inv k" "sys_pipe B heap cur tf k = Some (r, k')" "alive cur (sched k)"
  shows "fd_inv k'"
proof -
  have inv: "fd_mid (\<lambda>_. 0) {} {} k" using assms(1) by (simp add: fd_inv_mid)
  obtain a q k1 where a: "get_raw tf 0 = Some a" and q: "pipe_alloc heap cur k = Some (q, k1)" using assms(2) by (auto simp: sys_pipe_def do_simps)
  note made = pipe_alloc_fds [OF inv q]
  have err: "fd_alloc cur i k2 = (Err e, k3) \<Longrightarrow> k3 = k2" for i e and k2 k3 :: "'a Kernel" by (auto simp: fd_alloc_def split: option.splits)
  show ?thesis
  proof (cases q)
    case (Err e)
    then show ?thesis using assms(2) a q made by (auto simp: sys_pipe_def do_simps fd_inv_mid)
  next
    case (Ok f)
    obtain f0 f1 where f_eq: "f = (f0, f1)" by fastforce
    with Ok made have f: "fd_mid (two_at f0 f1) {} {} k1" "f0 < NFILE" "f1 < NFILE" "f0 \<noteq> f1" "typed_file f0 k1" "typed_file f1 k1" "sched k1 = sched k"
      by (auto simp: pipe_made_def)
    obtain x0 k2 where x0: "fd_alloc cur f0 k1 = (x0, k2)" by fastforce
    show ?thesis
    proof (cases x0)
      case (Err e)
      then have "close_both cur f0 f1 TooManyFiles k1 = Some (r, k')"
        using assms(2) a q Ok f_eq x0 err [of f0 k1] by (auto simp: sys_pipe_def do_simps)
      then show ?thesis using fd_inv_close_both [OF f(1) _ f(2-4)] by simp
    next
      case (Ok fd0)
      note A = fd_mid_fd_alloc [OF f(1) x0 [unfolded Ok] _ f(2)]
      have al: "alive cur (sched k1)" "cur < NPROC" using assms(3) f(7) fd_mid_alive [OF inv assms(3)] by simp_all
      have k2: "fd_mid (plus_at (two_at f0 f1) f0 (- 1)) {} {} k2" "fd0 < NOFILE" "open_files (data k2 ! cur) ! fd0 = Some f0" "k2 = set_open cur fd0 (Some f0) k1"
        using A al f(5) by auto
      obtain x1 k3 where x1: "fd_alloc cur f1 k2 = (x1, k3)" by fastforce
      show ?thesis
      proof (cases x1)
        case (Err e)
        then have c: "close_both cur f0 f1 TooManyFiles (set_open cur fd0 None k2) = Some (r, k')"
          using assms(2) a q \<open>q = Ok f\<close> f_eq x0 Ok x1 err [of f1 k2] by (auto simp: sys_pipe_def do_simps)
        show ?thesis by (rule fd_inv_close_both [OF fd_mid_fd_free [OF k2(1) al(2) k2(2,3)] c f(2-4)]) (use f(4) in auto)
      next
        case (Ok fd1)
        have al2: "alive cur (sched k2)" "typed_file f1 k2" using al k2(4) f(6) by simp_all
        note C = fd_mid_fd_alloc [OF k2(1) x1 [unfolded Ok] al2(1) f(3)]
        have k3: "fd_mid (\<lambda>_. 0) {} {} k3" by (rule fd_view_h [OF _ C(1)]) (use f(4) al2(2) in auto)
        have o3: "fd1 < NOFILE" "open_files (data k3 ! cur) ! fd0 = Some f0" "open_files (data k3 ! cur) ! fd1 = Some f1"
          using C(2,3) C(4) [of fd0] al2(2) k2(3) by auto
        obtain good k4 where c: "pipe_copy_out B cur a fd0 fd1 k3 = Some (good, k4)"
          "(if good then Some (Ok 0, k4) else close_both cur f0 f1 BadAddress (set_open cur fd1 None (set_open cur fd0 None k4))) = Some (r, k')"
          using assms(2) a q \<open>q = Ok f\<close> f_eq x0 \<open>x0 = Ok fd0\<close> x1 Ok by (auto simp: sys_pipe_def do_simps)
        show ?thesis by (rule fd_inv_pipe_finish [OF k3 al(2) f(2-4) k2(2) o3 c])
      qed
    qed
  qed
qed

subsection \<open>fork\<close>

lemma fview_fields [simp]: "fview (k\<lparr>mem := m\<rparr>) = fview k" "fview (k\<lparr>fs := f\<rparr>) = fview k"
  by (simp_all add: fview_def)

lemma frame_of_fields [simp]:
  "frame_of i (k\<lparr>mem := m\<rparr>) = frame_of i k" "frame_of i (k\<lparr>fs := f\<rparr>) = frame_of i k" "frame_of i (k\<lparr>sched := s\<rparr>) = frame_of i k"
  by (simp_all add: frame_of_def)

lemma fview_sched: "dead_of s = dead_of (sched k) \<Longrightarrow> fview (k\<lparr>sched := s\<rparr>) = fview k"
  by (simp add: fview_def)

lemma dead_of_free_inner: "dead (procs s ! i) \<Longrightarrow> dead_of (free_inner i s) = dead_of s"
  unfolding free_inner_def by (rule dead_of_upd_proc) (simp add: dead_def)

lemma case_option_Some: "(case x of None \<Rightarrow> a | Some y \<Rightarrow> f y) = Some z \<longleftrightarrow> x = None \<and> a = Some z \<or> (\<exists>y. x = Some y \<and> f y = Some z)"
  by (cases x) auto

text \<open>Only the private data of process \<open>i\<close> change.\<close>

definition keeps :: "nat \<Rightarrow> 'b Kernel \<Rightarrow> 'b Kernel \<Rightarrow> bool" where
  "keeps i k k' \<longleftrightarrow> fview k' = fview k \<and> (\<forall>j. j \<noteq> i \<longrightarrow> frame_of j k' = frame_of j k)"

lemma keeps_refl [simp]: "keeps i k k"
  by (simp add: keeps_def)

lemma keeps_trans: "keeps i k k1 \<Longrightarrow> keeps i k1 k2 \<Longrightarrow> keeps i k k2"
  by (simp add: keeps_def)

lemma keeps_mem [simp]: "keeps i k (k'\<lparr>mem := m\<rparr>) = keeps i k k'" "keeps i (k\<lparr>mem := m\<rparr>) k' = keeps i k k'"
  by (simp_all add: keeps_def frame_of_def)

lemma keeps_sched: "dead_of s = dead_of (sched k') \<Longrightarrow> keeps i k (k'\<lparr>sched := s\<rparr>) = keeps i k k'"
  by (simp add: keeps_def frame_of_def fview_def)

lemma keeps_upd_data: "(\<And>d. open_files (g d) = open_files d) \<Longrightarrow> keeps i k (upd_data i g k') = keeps i k k'"
  by (auto simp: keeps_def fview_upd_data frame_of_upd_data)

lemma keeps_dead: "keeps i k k' \<Longrightarrow> dead_of (sched k') = dead_of (sched k)"
  by (simp add: keeps_def fview_def)

lemma dead_of_nth: "dead_of s' = dead_of s \<Longrightarrow> i < length (procs s) \<Longrightarrow> dead (procs s' ! i) = dead (procs s ! i)"
  unfolding dead_of_def by (metis length_map nth_map)

lemma proc_release_keeps:
  assumes "proc_release B i k1 = Some k'" "keeps i k k1" "dead (procs (sched k) ! i)" "i < length (procs (sched k))"
  shows "keeps i k k'"
proof -
  obtain m where k': "k' = upd_data i (\<lambda>d. d\<lparr>pd_trapframe := None, pd_pagetable := None, pd_size := 0, pd_name := []\<rparr>) (k1\<lparr>mem := m, sched := free_inner i (sched k1)\<rparr>)"
    using assms(1) by (auto simp: proc_release_def do_simps)
  have "dead (procs (sched k1) ! i)" using dead_of_nth [OF keeps_dead [OF assms(2)] assms(4)] assms(3) by simp
  then show ?thesis unfolding k' using assms(2) by (simp add: keeps_upd_data keeps_sched dead_of_free_inner)
qed

lemma alloc_inner_dead:
  assumes "alloc_inner s = Some (i, s')"
  shows "i < length (procs s)" "p_state (procs s ! i) = Unused" "dead_of s' = dead_of s" "dead (procs s' ! i)"
proof -
  have i: "i < length (procs s)" "p_state (procs s ! i) = Unused"
    using assms by (auto simp: alloc_inner_def pid_alloc_def split: option.splits dest: find_index_SomeD)
  then show "i < length (procs s)" "p_state (procs s ! i) = Unused" by auto
  have s': "s' = upd_proc i (\<lambda>p. p\<lparr>p_pid := pid_count s, p_state := Used, p_tickets := 10, p_stride := LARGE_NUMBER div 10, p_n_schedule := 0\<rparr>) (s\<lparr>pid_count := pid_count s + 1\<rparr>)"
    using assms by (auto simp: alloc_inner_def pid_alloc_def split: option.splits)
  show "dead_of s' = dead_of s" unfolding s' by (subst dead_of_upd_proc) (use i in \<open>simp_all add: dead_def\<close>)
  show "dead (procs s' ! i)" unfolding s' using i by (simp add: upd_proc_def dead_def)
qed

lemma proc_alloc_keeps:
  assumes "proc_alloc B t fr k = Some (r, k')"
  shows "\<exists>i. keeps i k k' \<and> (\<forall>j. r = Ok j \<longrightarrow> j = i \<and> i < length (procs (sched k)) \<and> dead (procs (sched k) ! i)) \<and>
     (k' = k \<or> i < length (procs (sched k)) \<and> dead (procs (sched k) ! i))"
proof (cases "alloc_inner (sched k)")
  case None
  then show ?thesis using assms by (auto simp: proc_alloc_def)
next
  case (Some p)
  obtain i s where p: "p = (i, s)" by fastforce
  note A = alloc_inner_dead [OF Some [unfolded p]]
  have d: "dead (procs (sched k) ! i)" using A(2) by (simp add: dead_def)
  have "keeps i k k'" "\<forall>j. r = Ok j \<longrightarrow> i = j"
    using assms Some p
    by (auto simp: proc_alloc_def do_simps case_option_Some keeps_upd_data keeps_sched A elim!: proc_release_keeps [OF _ _ d A(1)])
  then show ?thesis using d A(1) by blast
qed

lemma fork_file_step:
  assumes inv: "fd_mid (\<lambda>_. 0) {} {new} k" and run: "fork_file cur new fd k = Some k'"
    and cur: "cur \<noteq> new" "cur < NPROC" "new < NPROC" and fd: "fd < NOFILE" "open_files (data k ! new) ! fd = None"
  shows "fd_mid (\<lambda>_. 0) {} {new} k'" "\<And>fd'. fd' \<noteq> fd \<Longrightarrow> open_files (data k' ! new) ! fd' = open_files (data k ! new) ! fd'"
    "sched k' = sched k" "\<And>j. frame_of j k' = frame_of j k"
proof -
  have "fd_mid (\<lambda>_. 0) {} {new} k' \<and> (\<forall>fd'. fd' \<noteq> fd \<longrightarrow> open_files (data k' ! new) ! fd' = open_files (data k ! new) ! fd') \<and>
      sched k' = sched k \<and> (\<forall>j. frame_of j k' = frame_of j k)"
  proof (cases "open_files (data k ! cur) ! fd")
    case (Some i)
    note E = fd_mid_entry [OF inv cur(2) fd(1) Some]
    obtain k1 where k1: "file_dup i k = Some k1" "k' = set_open new fd (Some i) k1" using run Some by (auto simp: fork_file_def do_simps)
    have k1_eq: "k1 = k\<lparr>ref_counts := (ref_counts k)[i := ref_counts k ! i + 1]\<rparr>" using k1(1) by (auto simp: file_dup_def split: if_splits)
    have a: "fd_mid (plus_at (\<lambda>_. 0) i 1) {} {new} k1" by (rule fd_mid_dup [OF inv k1(1) E(1)]) simp
    have "fd_mid (\<lambda>j. (plus_at (\<lambda>_. 0) i 1) j - of_bool (Some i = Some j) + of_bool (open_files (data k1 ! new) ! fd = Some j)) {} {new} k'"
      unfolding k1(2) by (rule fd_mid_open [OF a cur(3) _ fd(1)]) (use E k1_eq in auto)
    then have "fd_mid (\<lambda>_. 0) {} {new} k'" by (rule fd_view_h [rotated]) (use fd(2) k1_eq in auto)
    moreover have "open_files (data k' ! new) ! fd' = open_files (data k ! new) ! fd'" if "fd' \<noteq> fd" for fd'
      using that fd_mid_len [OF inv cur(3)] fd(1) unfolding k1(2) by (simp add: open_files_set_open k1_eq)
    moreover have "sched k' = sched k" "frame_of j k' = frame_of j k" for j
      unfolding k1(2) by (simp_all add: k1_eq set_open_def frame_of_upd_data) (simp_all add: frame_of_def upd_data_def)
    ultimately show ?thesis by blast
  qed (use run inv in \<open>simp add: fork_file_def\<close>)
  then show "fd_mid (\<lambda>_. 0) {} {new} k'" "\<And>fd'. fd' \<noteq> fd \<Longrightarrow> open_files (data k' ! new) ! fd' = open_files (data k ! new) ! fd'"
    "sched k' = sched k" "\<And>j. frame_of j k' = frame_of j k" by blast+
qed

lemma fork_files:
  assumes "fd_mid (\<lambda>_. 0) {} {new} k" "foldO (fork_file cur new) fds k = Some k'"
    "cur \<noteq> new" "cur < NPROC" "new < NPROC" "distinct fds" "\<forall>fd \<in> set fds. fd < NOFILE \<and> open_files (data k ! new) ! fd = None"
  shows "fd_mid (\<lambda>_. 0) {} {new} k' \<and> sched k' = sched k \<and> (\<forall>j. frame_of j k' = frame_of j k)"
  using assms
proof (induction fds arbitrary: k)
  case (Cons fd fds)
  obtain k1 where k1: "fork_file cur new fd k = Some k1" "foldO (fork_file cur new) fds k1 = Some k'"
    using Cons.prems(2) by (auto simp: do_simps)
  note S = fork_file_step [OF Cons.prems(1) k1(1) Cons.prems(3-5)]
  have "fd_mid (\<lambda>_. 0) {} {new} k1" "\<forall>fd \<in> set fds. fd < NOFILE \<and> open_files (data k1 ! new) ! fd = None"
    using S(1,2) Cons.prems(6,7) by (auto, metis)
  with Cons.IH [OF _ k1(2) Cons.prems(3-5)] Cons.prems(6,7) S(3,4) show ?case by auto
qed simp

lemma dead_of_fork_publish: "dead_of (fork_publish cur p i s) = (dead_of s)[i := False]"
  by (simp add: fork_publish_def Let_def dead_of_def upd_proc_def map_update dead_def split: option.splits)

lemma fork_new:
  assumes inv: "fd_mid (\<lambda>_. 0) {} {} k" and keep: "keeps new k k1" and cur: "alive cur (sched k)"
    and new: "new < NPROC" "dead (procs (sched k) ! new)"
    and loop: "foldO (fork_file cur new) [0..<NOFILE] k1 = Some k2"
    and k': "k' = upd_data new (\<lambda>d. d\<lparr>cwd := dir, pd_name := nm\<rparr>) (k2\<lparr>fs := f\<rparr>)"
  shows "fd_mid (\<lambda>_. 0) {} {} (k'\<lparr>sched := fork_publish cur p new (sched k')\<rparr>)" "frame_of cur (k'\<lparr>sched := s\<rparr>) = frame_of cur k"
proof -
  have ne: "cur \<noteq> new" using cur new by (auto simp: alive_def)
  have curN: "cur < NPROC" by (rule fd_mid_alive [OF inv cur])
  have inv1: "fd_mid (\<lambda>_. 0) {} {} k1" using keep inv by (simp add: keeps_def)
  have "dead_of (sched k1) ! new" "length (data k1) = NPROC"
    using new keeps_dead [OF keep] inv inv1 by (auto simp: fview_def fd_view.simps dead_of_def)
  then have none: "set (open_files (data k1 ! new)) \<subseteq> {None}"
    using inv1 new(1) unfolding fview_def fd_view.simps by auto
  have "open_files (data k1 ! new) ! fd = None" if "fd < NOFILE" for fd
    using subsetD [OF none nth_mem] that fd_mid_len [OF inv1 new(1)] by simp
  then have "\<forall>fd \<in> set [0..<NOFILE]. fd < NOFILE \<and> open_files (data k1 ! new) ! fd = None" by auto
  moreover have "fd_mid (\<lambda>_. 0) {} {new} k1" by (rule fd_view_mono [OF _ _ inv1]) auto
  ultimately have L: "fd_mid (\<lambda>_. 0) {} {new} k2" "\<And>j. frame_of j k2 = frame_of j k1"
    using fork_files [OF _ loop ne curN new(1)] by auto
  have "fview k' = fview k2" unfolding k' by (subst fview_upd_data) simp_all
  with L(1) have "fd_mid (\<lambda>_. 0) {} {new} k'" by simp
  then show "fd_mid (\<lambda>_. 0) {} {} (k'\<lparr>sched := fork_publish cur p new (sched k')\<rparr>)"
    using fd_view_publish by (simp add: fview_def dead_of_fork_publish)
  have "frame_of cur k1 = frame_of cur k" using keep ne by (simp add: keeps_def)
  then show "frame_of cur (k'\<lparr>sched := s\<rparr>) = frame_of cur k"
    using ne L(2) [of cur] unfolding k' by (simp add: frame_of_upd_data)
qed

lemma fork_fds:
  assumes inv: "fd_mid (\<lambda>_. 0) {} {} k" and run: "fork B t fr cur k = Some (r, k')" and al: "alive cur (sched k)"
  shows "fd_mid (\<lambda>_. 0) {} {} k' \<and> frame_of cur k' = frame_of cur k"
proof -
  obtain q k1 where q: "proc_alloc B t fr k = Some (q, k1)" using run by (auto simp: fork_def do_simps)
  obtain new where new: "keeps new k k1" "\<And>j. q = Ok j \<Longrightarrow> j = new \<and> new < length (procs (sched k)) \<and> dead (procs (sched k) ! new)"
      "k1 = k \<or> dead (procs (sched k) ! new)"
    using proc_alloc_keeps [OF q] by blast
  have keep: "fd_mid (\<lambda>_. 0) {} {} x \<and> frame_of cur x = frame_of cur k" if "keeps new k x" "x = k \<or> dead (procs (sched k) ! new)" for x
    using that inv al by (auto simp: keeps_def alive_def)
  show ?thesis
  proof (cases q)
    case (Err e)
    then show ?thesis using run q keep [OF new(1)] new(3) by (auto simp: fork_def do_simps)
  next
    case (Ok j)
    then have j: "j = new" "new < length (procs (sched k))" "dead (procs (sched k) ! new)" using new(2) by auto
    then have newN: "new < NPROC" using inv by (simp add: fview_def fd_view.simps dead_of_def)
    obtain uvm new_uvm y m where y: "uvm_copy B uvm new_uvm (pd_size (data k1 ! cur)) (mem k1) = Some (y, m)"
      and uvms: "pd_pagetable (data k1 ! cur) = Some uvm" "pd_pagetable (data k1 ! new) = Some new_uvm"
      using run q Ok j by (auto simp: fork_def do_simps)
    show ?thesis
    proof (cases y)
      case (Err e)
      then have "proc_release B new (k1\<lparr>mem := m\<rparr>) = Some k'" using run q Ok j y uvms by (auto simp: fork_def do_simps)
      then have "keeps new k k'" by (rule proc_release_keeps [OF _ _ j(3,2)]) (simp add: new(1))
      then show ?thesis using keep j(3) by blast
    next
      case (Ok u)
      let ?k2 = "upd_data new (\<lambda>d. d\<lparr>pd_size := pd_size (data k1 ! cur)\<rparr>) (k1\<lparr>mem := m\<rparr>)"
      obtain pa tf k3 where tf: "pd_trapframe (data ?k2 ! cur) = Some (pa, tf)"
        and loop: "foldO (fork_file cur new) [0..<NOFILE] (set_trapframe new (\<lambda>_. tf\<lparr>a0 := 0\<rparr>) ?k2) = Some k3"
        using run q \<open>q = Ok j\<close> j y uvms Ok by (auto simp: fork_def do_simps)
      have "keeps new k (set_trapframe new (\<lambda>_. tf\<lparr>a0 := 0\<rparr>) ?k2)"
        unfolding set_trapframe_def by (simp add: keeps_upd_data new(1))
      note N = fork_new [OF inv this al newN j(3) loop refl]
      show ?thesis
        using run q \<open>q = Ok j\<close> j y uvms Ok tf loop N by (auto simp: fork_def do_simps case_prod_Some upd_data_def)
    qed
  qed
qed

subsection \<open>exit and wait\<close>

lemma exit_file_step:
  assumes inv: "fd_mid (\<lambda>_. 0) {} {} k" and run: "exit_file cur fd k = Some k'" and cur: "cur < NPROC" and fd: "fd < NOFILE"
  shows "fd_mid (\<lambda>_. 0) {} {} k' \<and> open_files (data k' ! cur) = (open_files (data k ! cur))[fd := None] \<and> dead_of (sched k') = dead_of (sched k)"
proof (cases "open_files (data k ! cur) ! fd")
  case None
  then have "k' = k" "(open_files (data k ! cur))[fd := None] = open_files (data k ! cur)"
    using run by (auto simp: exit_file_def) (metis list_update_id)
  then show ?thesis using inv by simp
next
  case (Some i)
  note E = fd_mid_entry [OF inv cur fd Some]
  let ?k = "set_open cur fd None k"
  have c: "file_close cur i ?k = Some k'" using run Some by (simp add: exit_file_def)
  have h: "fd_mid (plus_at (\<lambda>_. 0) i 1) {} {} ?k" by (rule fd_mid_fd_free [OF inv cur fd Some])
  note C = fd_mid_close [OF h c E(1)]
  have "fd_mid (\<lambda>_. 0) {} {} k'" by (rule fd_view_h [OF _ C(1)]) auto
  moreover have "open_files (data k' ! cur) = (open_files (data k ! cur))[fd := None]"
  proof -
    have len: "cur < length (data k)" using fd_mid_len [OF inv cur] by simp
    have "map open_files (data k') ! cur = map open_files (data ?k) ! cur" "length (data k') = length (data ?k)"
      using C(3) by (auto dest: map_eq_imp_length_eq)
    then show ?thesis using len by (simp add: set_open_def upd_data_def)
  qed
  ultimately show ?thesis using C(2) by simp
qed

lemma exit_files:
  assumes "fd_mid (\<lambda>_. 0) {} {} k" "foldO (exit_file cur) fds k = Some k'" "cur < NPROC" "\<forall>fd \<in> set fds. fd < NOFILE"
  shows "fd_mid (\<lambda>_. 0) {} {} k' \<and> dead_of (sched k') = dead_of (sched k) \<and>
     (\<forall>fd < NOFILE. fd \<in> set fds \<or> open_files (data k ! cur) ! fd = None \<longrightarrow> open_files (data k' ! cur) ! fd = None)"
  using assms
proof (induction fds arbitrary: k)
  case (Cons x fds)
  obtain k1 where k1: "exit_file cur x k = Some k1" "foldO (exit_file cur) fds k1 = Some k'" using Cons.prems(2) by (auto simp: do_simps)
  have S: "fd_mid (\<lambda>_. 0) {} {} k1" "open_files (data k1 ! cur) = (open_files (data k ! cur))[x := None]" "dead_of (sched k1) = dead_of (sched k)"
    using exit_file_step [OF Cons.prems(1) k1(1) Cons.prems(3)] Cons.prems(4) by auto
  have "open_files (data k1 ! cur) ! fd = None" if "fd < NOFILE" "fd = x \<or> open_files (data k ! cur) ! fd = None" for fd
    using that fd_mid_len [OF Cons.prems(1,3)] unfolding S(2) by (cases "fd = x") auto
  with Cons.IH [OF S(1) k1(2) Cons.prems(3)] Cons.prems(4) S(3) show ?case by auto
qed simp

lemma reparent_list_dead: "reparent_list o1 cur is s = Some s' \<Longrightarrow> dead_of s' = dead_of s"
  by (induction "is" arbitrary: s) (auto simp: reparent_one_def do_simps split: if_splits)

lemma exit_inner_dead: "exit_inner i status s = Some s' \<Longrightarrow> dead_of s' = (dead_of s)[i := True]"
proof -
  have zombie: "dead_of (upd_proc i (\<lambda>p. p\<lparr>p_xstate := status, p_state := Zombie\<rparr>) s) = (dead_of s)[i := True]" for s
    by (simp add: dead_of_def upd_proc_def map_update dead_def)
  show "exit_inner i status s = Some s' \<Longrightarrow> dead_of s' = (dead_of s)[i := True]"
    by (auto simp: exit_inner_def reparent_def do_simps zombie split: if_splits dest!: reparent_list_dead)
qed

lemma fd_inv_exit_proc:
  assumes "fd_inv k" "exit_proc cur status k = Some k'" "cur < NPROC"
  shows "fd_inv k'"
proof -
  obtain k1 k2 s where k1: "foldO (exit_file cur) [0..<NOFILE] k = Some k1" and k2: "close_inode cur (cwd (data k1 ! cur)) k1 = Some k2"
    and s: "exit_inner cur status (sched k2) = Some s" and k': "k' = k2\<lparr>sched := s\<rparr>"
    using assms(2) by (auto simp: exit_proc_def do_simps split: if_splits)
  have inv1: "fd_mid (\<lambda>_. 0) {} {} k1" and none: "\<forall>fd < NOFILE. open_files (data k1 ! cur) ! fd = None"
    using exit_files [OF _ k1 assms(3)] assms(1) by (auto simp: fd_inv_mid)
  have v2: "kview k2 = kview k1" by (rule kview_close_inode [OF k2])
  have inv2: "fd_mid (\<lambda>_. 0) {} {} k2" by (rule fd_mid_kview [OF v2 inv1])
  have len: "cur < length (data k1)" "length (open_files (data k1 ! cur)) = NOFILE" using fd_mid_len [OF inv1 assms(3)] by auto
  have "map open_files (data k2) = map open_files (data k1)" using v2 by (simp add: kview_def)
  moreover have "set (map open_files (data k1) ! cur) \<subseteq> {None}" using none len by (auto simp: in_set_conv_nth)
  ultimately have "fd_view (\<lambda>_. 0) {} {} (ref_counts k2, map ftype (files k2), map open_files (data k2), length (pipes k2), (dead_of (sched k2))[cur := True])"
    using fd_view_dead [OF inv2 [unfolded fview_def], of cur] by simp
  then show ?thesis by (simp add: fd_inv_mid fview_def k' exit_inner_dead [OF s])
qed

lemma wait_proc_keeps:
  assumes "wait_proc B cur addr k = Some (c, k')" "alive cur (sched k)"
  shows "fview k' = fview k" "frame_of cur k' = frame_of cur k"
proof -
  have "fview k' = fview k \<and> frame_of cur k' = frame_of cur k"
  proof (cases "wait_scan_children cur (sched k)")
    case (Reap i)
    then have i: "i < length (procs (sched k))" "p_state (procs (sched k) ! i) = Zombie"
      by (auto simp: wait_scan_children_def find_index_Some_iff split: option.splits if_splits)
    then have ne: "cur \<noteq> i" "dead (procs (sched k) ! i)" using assms(2) by (auto simp: alive_def dead_def)
    obtain x where x: "proc_release B i x = Some k'" "keeps i k x"
      using assms(1) Reap by (auto simp: wait_proc_def do_simps keeps_sched split: if_splits)
    have "keeps i k k'" by (rule proc_release_keeps [OF x ne(2) i(1)])
    then show ?thesis using ne by (simp add: keeps_def)
  qed (use assms in \<open>auto simp: wait_proc_def fview_sched dead_of_sleep_enter\<close>)
  then show "fview k' = fview k" "frame_of cur k' = frame_of cur k" by auto
qed

subsection \<open>All calls\<close>

definition syscall_fds :: "nat \<Rightarrow> 'b Kernel \<Rightarrow> 'b step_result \<Rightarrow> bool" where
  "syscall_fds cur k r \<longleftrightarrow> (\<forall>c k'. r = Some (c, k') \<longrightarrow> fd_inv k \<longrightarrow> alive cur (sched k) \<longrightarrow> fd_inv k')"

lemma fd_inv_kview: "kview k' = kview k \<Longrightarrow> fd_inv k \<Longrightarrow> fd_inv k'"
  using fd_inv_fview [OF fview_kview] by blast

lemma fds_returns: "(\<And>v k'. r = Some (v, k') \<Longrightarrow> fd_inv k \<Longrightarrow> alive cur (sched k) \<Longrightarrow> fd_inv k') \<Longrightarrow> syscall_fds cur k (returns r)"
  by (auto simp: syscall_fds_def returns_def)

lemma fds_file_outcome: "(\<And>v k'. r = Some (v, k') \<Longrightarrow> fd_inv k \<Longrightarrow> alive cur (sched k) \<Longrightarrow> fd_inv k') \<Longrightarrow> syscall_fds cur k (file_outcome r)"
  by (auto simp: syscall_fds_def file_outcome_def)

lemma fds_wait_outcome: "(\<And>v k'. r = Some (v, k') \<Longrightarrow> fd_inv k \<Longrightarrow> alive cur (sched k) \<Longrightarrow> fd_inv k') \<Longrightarrow> syscall_fds cur k (wait_outcome r)"
  by (auto simp: syscall_fds_def wait_outcome_def)

lemma fds_pure: "syscall_fds cur k (pure_result k r)" "syscall_fds cur k (x \<bind> pure_result k)"
  by (auto simp: syscall_fds_def pure_result_def do_simps)

lemma fds_wait: "syscall_fds cur k (wait_outcome (wait_proc B cur a k))"
  by (rule fds_wait_outcome) (blast dest: wait_proc_keeps(1) fd_inv_fview)

lemma alive_NPROC: "fd_inv k \<Longrightarrow> alive cur (sched k) \<Longrightarrow> cur < NPROC"
  unfolding fd_inv_mid by (rule fd_mid_alive)

lemma fds_plain:
  "syscall_fds cur k (sys_exit cur tf k)" "syscall_fds cur k (sys_wait E cur tf k)" "syscall_fds cur k (sys_sleep cur tf k)" "syscall_fds cur k (sys_poweroff tf k)"
proof -
  show "syscall_fds cur k (sys_exit cur tf k)"
    by (auto simp: syscall_fds_def sys_exit_def do_simps dest: fd_inv_exit_proc alive_NPROC)
  show "syscall_fds cur k (sys_wait E cur tf k)"
    using fds_wait [of cur k "buddy E"] by (auto simp: sys_wait_def syscall_fds_def do_simps)
  show "syscall_fds cur k (sys_sleep cur tf k)"
    by (auto simp: syscall_fds_def dest: kview_sys_sleep fd_inv_kview)
  show "syscall_fds cur k (sys_poweroff tf k)"
    by (auto simp: syscall_fds_def sys_poweroff_def do_simps fd_inv_mid fview_def)
qed

lemmas kview_sys = kview_sys_link kview_sys_unlink kview_sys_mkdir kview_sys_mknod kview_sys_chdir kview_sys_pwd kview_sys_fstat
  kview_sys_ioctl kview_sys_sbrk kview_sys_kill kview_sys_settickets kview_msg kview_sys_getpinfo

lemma fds_fork: "syscall_fds cur k (returns (sys_fork E cur k))"
  by (rule fds_returns) (auto simp: sys_fork_def do_simps fd_inv_mid dest: fork_fds)

lemma fds_exec: "syscall_fds cur k (returns (sys_exec B t cur tf k))"
  by (rule fds_returns) (auto simp: frame_ok_def dest!: frame_ok_sys_exec fd_inv_fview)

lemma fds_dispatch: "syscall_fds cur k (dispatch E cur tf c k)"
proof (cases c)
qed (auto simp: dispatch_def fds_pure fds_plain fds_fork fds_exec
    intro!: fds_returns fds_file_outcome intro: fd_inv_sys_dup fd_inv_sys_close fd_inv_sys_open fd_inv_sys_pipe
    dest: kview_sys kview_sys_read kview_sys_write elim: fd_inv_kview)

lemma fview_set_trapframe [simp]: "fview (set_trapframe i g k) = fview k"
  unfolding set_trapframe_def by (rule fview_upd_data) simp

lemma fview_syscall_finish: "syscall_finish cur (c, k) = (c', k') \<Longrightarrow> fview k' = fview k"
  by (auto simp: syscall_finish_def split: outcome.splits)

lemma fds_finish: "syscall_fds cur k r \<Longrightarrow> syscall_fds cur k (r \<bind> (\<lambda>x. Some (syscall_finish cur x)))"
  by (auto simp: syscall_fds_def do_simps dest!: fview_syscall_finish fd_inv_fview)

lemma fds_syscall: "syscall_fds cur k (syscall E cur k)"
proof (cases "pd_trapframe (data k ! cur)")
  case (Some x)
  have "syscall_fds cur k (case syscall_try_from (a7 (snd x)) of Ok c \<Rightarrow> dispatch E cur (snd x) c k | Err e \<Rightarrow> pure_result k (Err e))"
    by (auto simp: fds_dispatch fds_pure split: result.splits)
  from fds_finish [OF this] show ?thesis by (simp add: syscall_def Some case_prod_unfold)
qed (simp add: syscall_def syscall_fds_def)

lemma fds_wait_resume: "syscall_fds cur k (wait_outcome (wait_resume B cur a k))"
proof (rule fds_wait_outcome)
  fix v k'
  assume a: "wait_resume B cur a k = Some (v, k')" "fd_inv k" "alive cur (sched k)"
  have "fview k' = fview (k\<lparr>sched := sleep_exit cur (sched k)\<rparr>)" by (rule wait_proc_keeps(1)) (use a in \<open>simp_all add: wait_resume_def\<close>)
  also have "\<dots> = fview k" by (simp add: fview_sched)
  finally show "fd_inv k'" using a(2) fd_inv_fview by blast
qed

lemma fds_file_resume: "syscall_fds cur k (file_outcome (if b then (case w of FWait n \<Rightarrow> file_read_resume B cur i a m n k | _ \<Rightarrow> None) else file_write_resume B cur i a m w k))"
  by (rule fds_file_outcome)
    (auto split: if_splits fcall.splits dest: kview_file_read_resume kview_file_write_resume elim: fd_inv_kview)

lemma fds_syscall_resume: "syscall_fds cur k (syscall_resume E cur c k)"
proof (cases "pd_trapframe (data k ! cur)")
  case (Some x)
  have sleep: "syscall_fds cur k (Some (sys_sleep_resume cur t n k))" for t n
    by (auto simp: syscall_fds_def dest: kview_sys_sleep_resume elim: fd_inv_kview)
  have none: "syscall_fds cur k None" by (simp add: syscall_fds_def)
  have bind: "syscall_fds cur k (y \<bind> f)" if "\<And>z. syscall_fds cur k (f z)" for y :: "'z option" and f
    using that by (cases y) (auto simp: none)
  have "syscall_fds cur k (case c of
         SChild \<Rightarrow> wait_outcome (wait_resume (buddy E) cur (a0 (snd x)) k)
       | STicks ticks0 \<Rightarrow> Some (sys_sleep_resume cur ticks0 (sleep_duration (a0 (snd x))) k)
       | SFile w \<Rightarrow> do {
           f \<leftarrow> get_file (snd x) 0 (data k ! cur);
           case f of
             Err _ \<Rightarrow> None
           | Ok (_, i) \<Rightarrow> file_outcome
               (if a7 (snd x) = syscall_number Read
                then (case w of FWait n \<Rightarrow> file_read_resume (buddy E) cur i (a1 (snd x)) (a2 (snd x)) n k | _ \<Rightarrow> None)
                else file_write_resume (buddy E) cur i (a1 (snd x)) (a2 (snd x)) w k)
         }
       | _ \<Rightarrow> None)"
    by (cases c) (auto intro!: bind simp: sleep none fds_wait_resume fds_file_resume split: result.splits)
  from fds_finish [OF this] show ?thesis by (simp add: syscall_resume_def Some case_prod_unfold)
qed (simp add: syscall_resume_def syscall_fds_def)

end
