(* ===== verification/User_Context.thy ===== *)
theory User_Context
  imports Descriptors
begin

text \<open>
  What a program sees of a trap: its registers are those it had, apart from the result of a system
  call and the new program of \<open>exec\<close>.  The first part follows the trap frame of the calling process through every
  system call, the second through the handlers of \<open>Traps\<close>.
\<close>

unbundle bit_operations_syntax

section \<open>Trap frames through system calls\<close>

definition trap_frames :: "'b Kernel \<Rightarrow> (usize \<times> TrapFrame) option list" where
  "trap_frames k = map pd_trapframe (data k)"

lemma frames_kview: "kview k' = kview k \<Longrightarrow> trap_frames k' = trap_frames k"
  by (simp add: kview_def trap_frames_def)

lemma frame_of_frames: "trap_frames k' = trap_frames k \<Longrightarrow> frame_of i k' = frame_of i k"
  unfolding trap_frames_def frame_of_def by (metis length_map nth_map)

lemma frames_fields [simp]:
  "trap_frames (k\<lparr>mem := m\<rparr>) = trap_frames k" "trap_frames (k\<lparr>fs := f\<rparr>) = trap_frames k" "trap_frames (k\<lparr>sched := s\<rparr>) = trap_frames k"
  "trap_frames (k\<lparr>ref_counts := rc\<rparr>) = trap_frames k" "trap_frames (k\<lparr>pipes := ps\<rparr>) = trap_frames k" "trap_frames (k\<lparr>files := fl\<rparr>) = trap_frames k"
  "trap_frames (file_unlock i k) = trap_frames k" "trap_frames (upd_file i h k) = trap_frames k"
  by (simp_all add: trap_frames_def file_unlock_def upd_file_def)

lemma frames_set_open [simp]: "trap_frames (set_open cur fd x k) = trap_frames k"
  by (simp add: trap_frames_def set_open_def upd_data_def map_update) (metis list_update_beyond list_update_id nth_map not_le_imp_less length_map)

lemma frames_file_lock: "file_lock i k = Some k' \<Longrightarrow> trap_frames k' = trap_frames k"
  by (rule frames_kview) (rule kview_file_lock)

lemma frames_alloc: "file_alloc k = (r, k') \<Longrightarrow> trap_frames k' = trap_frames k" "fd_alloc cur i k = (q, k') \<Longrightarrow> trap_frames k' = trap_frames k"
  by (auto simp: file_alloc_def fd_alloc_def split: option.splits)

lemma frames_file_dup: "file_dup i k = Some k' \<Longrightarrow> trap_frames k' = trap_frames k"
  by (auto simp: file_dup_def split: if_splits)

lemma frames_file_close: "file_close cur i k = Some k' \<Longrightarrow> trap_frames k' = trap_frames k"
  by (auto simp: file_close_def do_simps case_prod_Some split: if_splits dest!: frames_file_lock frames_kview [OF kview_close_inode])

lemmas frames_steps = frames_file_lock frames_alloc frames_file_dup frames_file_close

lemma frames_close_both: "close_both cur i j e k = Some (r, k') \<Longrightarrow> trap_frames k' = trap_frames k"
  by (auto simp: close_both_def do_simps dest!: frames_steps)

lemma frames_pipe_alloc: "pipe_alloc heap cur k = Some (r, k') \<Longrightarrow> trap_frames k' = trap_frames k"
  by (auto simp: pipe_alloc_def do_simps case_prod_Some split: if_splits dest!: frames_steps)

lemma frames_pipe_copy_out: "pipe_copy_out B cur a fd0 fd1 k = Some (b, k') \<Longrightarrow> trap_frames k' = trap_frames k"
  by (auto dest!: kview_pipe_copy_out)

lemma frames_sys_pipe: "sys_pipe B heap cur tf k = Some (r, k') \<Longrightarrow> trap_frames k' = trap_frames k"
  unfolding sys_pipe_def do_simps case_prod_Some
  by (elim exE conjE disjE; simp split: if_splits; (drule frames_pipe_alloc frames_pipe_copy_out frames_alloc frames_close_both)+; simp)

lemma frames_sys_dup: "sys_dup cur tf k = Some (r, k') \<Longrightarrow> trap_frames k' = trap_frames k"
  by (auto simp: sys_dup_def do_simps case_prod_Some dest!: frames_steps)

lemma frames_sys_close: "sys_close cur tf k = Some (r, k') \<Longrightarrow> trap_frames k' = trap_frames k"
  by (auto simp: sys_close_def do_simps case_prod_Some dest!: frames_steps)

lemma frames_open_fill: "open_fill i ip mode k = Some k' \<Longrightarrow> trap_frames k' = trap_frames k"
  by (auto simp: open_fill_def do_simps split: if_splits dest!: frames_steps frames_kview [OF kview_on_fs_unit])

lemma frames_open_body: "open_body cur path mode k = Some (r, k') \<Longrightarrow> trap_frames k' = trap_frames k"
  by (auto simp: open_body_def do_simps case_prod_Some split: if_splits
      dest!: frames_kview [OF kview_open_inode] frames_kview [OF kview_on_fs_unit] frames_open_fill frames_steps)

lemma frames_sys_open:
  assumes "sys_open B cur tf k = Some (r, k')"
  shows "trap_frames k' = trap_frames k"
proof -
  have "trap_frames k2 = trap_frames k1" if "in_op cur (open_body cur path mode) k1 = Some (r, k2)" for path mode and k1 k2 :: "'a Kernel"
    using that by (auto simp: in_op_def do_simps dest!: frames_open_body frames_kview [OF kview_op_begin] frames_kview [OF kview_op_end])
  then show ?thesis
    using assms by (auto simp: sys_open_def do_simps dest!: frames_kview [OF kview_fetch_string])
qed

text \<open>The trap frame of the caller after a call that did not end the process.\<close>

definition frame_step :: "bool \<Rightarrow> nat \<Rightarrow> 'b Kernel \<Rightarrow> 'b step_result \<Rightarrow> bool" where
  "frame_step ex cur k r \<longleftrightarrow> (\<forall>c k'. r = Some (c, k') \<longrightarrow> c \<noteq> SGone \<longrightarrow> fd_inv k \<longrightarrow> alive cur (sched k) \<longrightarrow>
     frame_of cur k' = frame_of cur k \<or>
     ex \<and> (\<exists>v. c = SReturn v) \<and> (\<exists>stk entry. frame_of cur k' = map_option (map_prod (\<lambda>pa. pa) (entered stk entry)) (frame_of cur k)))"

lemma frame_step_returns: "(\<And>v k'. r = Some (v, k') \<Longrightarrow> fd_inv k \<Longrightarrow> alive cur (sched k) \<Longrightarrow> frame_of cur k' = frame_of cur k) \<Longrightarrow> frame_step ex cur k (returns r)"
  by (auto simp: frame_step_def returns_def)

lemma frame_step_file: "(\<And>v k'. r = Some (v, k') \<Longrightarrow> fd_inv k \<Longrightarrow> alive cur (sched k) \<Longrightarrow> frame_of cur k' = frame_of cur k) \<Longrightarrow> frame_step ex cur k (file_outcome r)"
  by (auto simp: frame_step_def file_outcome_def)

lemma frame_step_None: "frame_step ex cur k None"
  by (simp add: frame_step_def)

lemma frame_step_pure: "frame_step ex cur k (pure_result k r)" "frame_step ex cur k (x \<bind> pure_result k)"
  by (auto simp: frame_step_def pure_result_def do_simps)

lemma frame_step_wait: "frame_step ex cur k (wait_outcome (wait_proc B cur a k))"
  by (auto simp: frame_step_def wait_outcome_def dest: wait_proc_keeps(2))

lemma frame_step_plain:
  "frame_step ex cur k (sys_exit cur tf k)" "frame_step ex cur k (sys_wait E cur tf k)" "frame_step ex cur k (sys_sleep cur tf k)" "frame_step ex cur k (sys_poweroff tf k)"
proof -
  show "frame_step ex cur k (sys_exit cur tf k)" by (auto simp: frame_step_def sys_exit_def do_simps)
  show "frame_step ex cur k (sys_wait E cur tf k)"
    by (cases "get_raw tf 0") (simp_all add: sys_wait_def frame_step_wait frame_step_None)
  show "frame_step ex cur k (sys_sleep cur tf k)" by (auto simp: frame_step_def dest: kview_sys_sleep frame_of_kview)
  show "frame_step ex cur k (sys_poweroff tf k)" by (auto simp: frame_step_def sys_poweroff_def do_simps)
qed

lemma frame_step_fork: "frame_step ex cur k (returns (sys_fork E cur k))"
  by (rule frame_step_returns) (auto simp: sys_fork_def do_simps fd_inv_mid dest: fork_fds)

lemma frame_ok_cur:
  "frame_ok cur k k' \<Longrightarrow> frame_of cur k' = frame_of cur k \<or> (\<exists>stk entry. frame_of cur k' = map_option (map_prod (\<lambda>pa. pa) (entered stk entry)) (frame_of cur k))"
proof -
  assume "frame_ok cur k k'"
  then obtain g where g: "g = (\<lambda>tf. tf) \<or> (\<exists>stk entry. g = entered stk entry)" and all: "\<forall>i. frame_of i k' = (if i = cur then map_option (map_prod (\<lambda>pa. pa) g) (frame_of i k) else frame_of i k)"
    unfolding frame_ok_def by blast
  have k': "frame_of cur k' = map_option (map_prod (\<lambda>pa. pa) g) (frame_of cur k)" using spec [OF all, of cur] by simp
  from g show ?thesis
  proof
    assume "g = (\<lambda>tf. tf)"
    then show ?thesis using k' by (simp add: option.map_ident)
  qed (use k' in blast)
qed

lemma frame_step_exec: "frame_step True cur k (returns (sys_exec B t cur tf k))"
  using frame_ok_sys_exec [of B t cur tf k, THEN frame_ok_cur] by (auto simp: frame_step_def returns_def)

lemma frame_step_dispatch: "frame_step (c = Abi.Exec) cur k (dispatch E cur tf c k)"
proof (cases c)
qed (auto simp: dispatch_def frame_step_pure frame_step_plain frame_step_fork frame_step_exec
    intro!: frame_step_returns frame_step_file
    dest: kview_sys kview_sys_read kview_sys_write frames_sys_dup frames_sys_close frames_sys_open frames_sys_pipe
    elim: frame_of_kview frame_of_frames)

lemma frame_step_wait_resume: "frame_step ex cur k (wait_outcome (wait_resume B cur a k))"
proof -
  have "frame_of cur k' = frame_of cur k" if "wait_resume B cur a k = Some (v, k')" "alive cur (sched k)" for v k'
    using wait_proc_keeps(2) [of B cur a "k\<lparr>sched := sleep_exit cur (sched k)\<rparr>" v k'] that by (simp add: wait_resume_def)
  then show ?thesis by (auto simp: frame_step_def wait_outcome_def)
qed

text \<open>A whole call: the result goes to \<open>a0\<close>.\<close>

definition call_frame :: "bool \<Rightarrow> TrapFrame \<Rightarrow> TrapFrame \<Rightarrow> bool" where
  "call_frame ex tf tf' \<longleftrightarrow> (\<exists>v. tf' = tf\<lparr>a0 := syscall_ret v\<rparr> \<or> ex \<and> (\<exists>stk entry. tf' = (entered stk entry tf)\<lparr>a0 := syscall_ret v\<rparr>))"

lemma finish_frame:
  assumes "frame_step ex cur k r" "r = Some (c0, k0)" "syscall_finish cur (c0, k0) = (c, k')" "fd_inv k" "alive cur (sched k)" "frame_of cur k = Some (pa, tf)" "c \<noteq> SGone"
  shows "if \<exists>v. c = SReturn v then \<exists>tf'. frame_of cur k' = Some (pa, tf') \<and> call_frame ex tf tf' else frame_of cur k' = Some (pa, tf)"
proof -
  have c: "c = c0" "k' = (case c of SReturn v \<Rightarrow> set_trapframe cur (\<lambda>tf. tf\<lparr>a0 := syscall_ret v\<rparr>) k0 | _ \<Rightarrow> k0)"
    using assms(3) by (auto simp: syscall_finish_def)
  have f: "frame_of cur k0 = Some (pa, tf) \<or> ex \<and> (\<exists>v. c0 = SReturn v) \<and> (\<exists>stk entry. frame_of cur k0 = Some (pa, entered stk entry tf))"
    using assms c(1) unfolding frame_step_def by auto
  show ?thesis
  proof (cases "\<exists>v. c = SReturn v")
    case True
    then obtain v where v: "c = SReturn v" by blast
    from f show ?thesis unfolding c(2) v by (auto simp: frame_of_set_trapframe call_frame_def)
  next
    case False
    then show ?thesis using f c by (cases c) auto
  qed
qed

lemma syscall_frame:
  assumes "syscall E cur k = Some (c, k')" "fd_inv k" "alive cur (sched k)" "frame_of cur k = Some (pa, tf)" "c \<noteq> SGone"
  shows "if \<exists>v. c = SReturn v then \<exists>tf'. frame_of cur k' = Some (pa, tf') \<and> call_frame (a7 tf = syscall_number Abi.Exec) tf tf' else frame_of cur k' = Some (pa, tf)"
proof -
  have tf: "pd_trapframe (data k ! cur) = Some (pa, tf)" using assms(4) by (simp add: frame_of_def split: if_splits)
  let ?r = "case syscall_try_from (a7 tf) of Ok c \<Rightarrow> dispatch E cur tf c k | Err e \<Rightarrow> pure_result k (Err e)"
  obtain c0 k0 where r: "?r = Some (c0, k0)" "syscall_finish cur (c0, k0) = (c, k')" using assms(1) tf by (auto simp: syscall_def do_simps)
  have "frame_step (a7 tf = syscall_number Abi.Exec) cur k ?r"
  proof (cases "syscall_try_from (a7 tf)")
    case (Ok x)
    have "frame_step (x = Abi.Exec) cur k (dispatch E cur tf x k)" by (rule frame_step_dispatch)
    moreover have "a7 tf = syscall_number x" by (rule syscall_try_from_Ok [OF Ok])
    ultimately show ?thesis using Ok by (cases "x = Abi.Exec") (auto simp: frame_step_def)
  qed (simp add: frame_step_pure)
  then show ?thesis by (rule finish_frame [OF _ r assms(2-5)])
qed

section \<open>Traps\<close>

lemma rx_loop_dead: "rx_loop ch cur cs (con, s) = (out, con', s') \<Longrightarrow> dead_of s' = dead_of s"
proof (induction cs arbitrary: con s out)
  case (Cons c cs)
  have "dead_of s1 = dead_of s" if "console_interrupt ch cur c (con, s) = (o1, con1, s1)" for o1 con1 s1
    using that by (auto simp: console_interrupt_def Let_def split: if_splits option.splits prod.splits)
  then show ?case using Cons by (auto split: prod.splits)
qed simp

lemma uart_interrupt_dead: "uart_interrupt tx ch cur l cs u con s = (u', out, con', s') \<Longrightarrow> dead_of s' = dead_of s"
  by (auto simp: uart_interrupt_def split: if_splits dest!: rx_loop_dead)

lemma interrupt_loop_dead: "interrupt_loop cur d c s = Some (d', c', s') \<Longrightarrow> dead_of s' = dead_of s"
proof (induction cur d c s rule: interrupt_loop.induct)
  case (1 cur d c s)
  show ?case
    using "1.prems" by (subst (asm) interrupt_loop.simps) (auto simp: Let_def split: if_splits dest: "1.IH" [OF _ refl _ refl])
qed

lemma kview_device_interrupt:
  assumes "device_interrupt dev cur intr mc = Some (w, mc')"
  shows "kview (kern mc') = kview (kern mc)" "sstatus (hart mc') = sstatus (hart mc)" "sepc (hart mc') = sepc (hart mc)"
proof -
  have u: "kview (kern (handle_uart dev cur mc)) = kview (kern mc) \<and> hart (handle_uart dev cur mc) = hart mc"
    by (auto simp: handle_uart_def Let_def kview_sched split: prod.splits dest!: uart_interrupt_dead)
  have d: "kview (kern x) = kview (kern mc) \<and> hart x = hart mc" if "handle_disk dev cur mc = Some x" for x
    using that by (auto simp: handle_disk_def disk_interrupt_def do_simps kview_sched dest!: interrupt_loop_dead)
  have "kview (kern mc') = kview (kern mc) \<and> sstatus (hart mc') = sstatus (hart mc) \<and> sepc (hart mc') = sepc (hart mc)"
    using assms u d
    by (auto simp: device_interrupt_def external_interrupt_def plic_complete_def clock_intr_def Let_def do_simps kview_sched
        split: Interrupt.splits if_splits)
  then show "kview (kern mc') = kview (kern mc)" "sstatus (hart mc') = sstatus (hart mc)" "sepc (hart mc') = sepc (hart mc)" by auto
qed

text \<open>The registers of the program: the trap frame without the words for the kernel's own use.\<close>

definition user_part :: "TrapFrame \<Rightarrow> TrapFrame" where
  "user_part tf = tf\<lparr>kernel_satp := 0, kernel_sp := 0, kernel_trap := 0, kernel_hartid := 0\<rparr>"

text \<open>The hart is about to run the program of \<open>cur\<close>: in user mode, with interrupts on as soon as it is there, traps going to \<open>uservec\<close>.\<close>

definition user_ready :: "Link \<Rightarrow> usize \<Rightarrow> nat \<Rightarrow> usize \<Rightarrow> usize \<Rightarrow> TrapFrame \<Rightarrow> 'b Machine \<Rightarrow> bool" where
  "user_ready L trampoline cur root pa tf mc \<longleftrightarrow>
     frame_of cur (kern mc) = Some (pa, tf) \<and> (\<exists>pt. pd_pagetable (data (kern mc) ! cur) = Some pt \<and> root = satp_make pt) \<and>
     sepc (hart mc) = epc tf \<and> sstatus (hart mc) AND SPP = 0 \<and> sstatus (hart mc) AND SPIE = SPIE \<and> \<not> intr_get (sstatus (hart mc)) \<and>
     stvec (hart mc) = TRAMPOLINE + (uservec L - trampoline)"

lemma status_bits:
  "(x AND NOT SPP OR SPIE) AND SPP = 0" "(x AND NOT SPP OR SPIE) AND SPIE = SPIE" "\<not> intr_get (intr_disable x AND NOT SPP OR SPIE)"
proof -
  have p: "bit (push_bit m (1 :: usize)) n \<longleftrightarrow> n = m" if "n < 64" for m n
    using that by (auto simp: bit_exp_iff)
  have b: "bit SPP n \<longleftrightarrow> n = 8" "bit SPIE n \<longleftrightarrow> n = 5" "bit SIE n \<longleftrightarrow> n = 1" if "n < 64" for n
    unfolding SPP_def SPIE_def SIE_def using p [OF that] by blast+
  show "(x AND NOT SPP OR SPIE) AND SPP = 0" "(x AND NOT SPP OR SPIE) AND SPIE = SPIE"
    by (rule bit_word_eqI; auto simp: bit_simps b)+
  have "(intr_disable x AND NOT SPP OR SPIE) AND SIE = 0"
    by (rule bit_word_eqI) (auto simp: bit_simps b intr_disable_def)
  then show "\<not> intr_get (intr_disable x AND NOT SPP OR SPIE)" by (simp add: intr_get_def)
qed

lemma usertrapret_ready:
  assumes "usertrapret L t cur mc = Some (e, mc')" "frame_of cur (kern mc) = Some (pa, tf)"
  shows "\<exists>root tf'. e = ToUser root \<and> user_ready L t cur root pa tf' mc' \<and> user_part tf' = user_part tf"
proof -
  have cur: "cur < length (data (kern mc))" "pd_trapframe (data (kern mc) ! cur) = Some (pa, tf)"
    using assms(2) by (auto simp: frame_of_def split: if_splits)
  then show ?thesis
    using assms(1)
    by (auto simp: usertrapret_def do_simps user_ready_def frame_of_set_trapframe status_bits user_part_def frame_of_def)
      (auto simp: set_trapframe_def upd_data_def)
qed

lemma usertrap_end_ready:
  assumes "usertrap_end L t cur w mc = Some (ToUser root, mc')" "frame_of cur (kern mc) = Some (pa, tf)"
  shows "\<exists>tf'. user_ready L t cur root pa tf' mc' \<and> user_part tf' = user_part tf"
proof -
  have "usertrapret L t cur mc = Some (ToUser root, mc')"
    using assms(1) by (auto simp: usertrap_end_def exit_killed_def do_simps split: if_splits)
  from usertrapret_ready [OF this assms(2)] show ?thesis by auto
qed

lemma after_syscall_ready:
  assumes "after_syscall L t cur mc (c, k) = Some (ToUser root, mc')"
    "if \<exists>v. c = SReturn v then \<exists>tf'. frame_of cur k = Some (pa, tf') \<and> call_frame ex tf tf' else frame_of cur k = Some (pa, tf)"
  shows "\<exists>tf2 tf'. user_ready L t cur root pa tf' mc' \<and> call_frame ex tf tf2 \<and> user_part tf' = user_part tf2"
proof -
  obtain v where v: "c = SReturn v" "usertrap_end L t cur None (mc\<lparr>kern := k\<rparr>) = Some (ToUser root, mc')"
    using assms(1) by (cases c) (auto simp: after_syscall_def)
  then obtain tf2 where "frame_of cur k = Some (pa, tf2)" "call_frame ex tf tf2" using assms(2) by auto
  with usertrap_end_ready [OF v(2), of pa tf2] show ?thesis by auto
qed

lemma fd_inv_set_trapframe [simp]: "fd_inv (set_trapframe i g k) = fd_inv k"
  by (rule fd_inv_fview) simp

lemma sched_set_trapframe [simp]: "sched (set_trapframe i g k) = sched k"
  by (simp add: set_trapframe_def upd_data_def)

lemma user_syscall_ready:
  assumes "user_syscall E L cur mc = Some (ToUser root, mc')" "fd_inv (kern mc)" "alive cur (sched (kern mc))" "frame_of cur (kern mc) = Some (pa, tf)"
  shows "\<exists>tf2 tf'. user_ready L (trampoline_at E) cur root pa tf' mc' \<and>
     call_frame (a7 tf = syscall_number Abi.Exec) (tf\<lparr>epc := epc tf + 4\<rparr>) tf2 \<and> user_part tf' = user_part tf2"
proof -
  let ?k = "set_trapframe cur (\<lambda>tf. tf\<lparr>epc := epc tf + 4\<rparr>) (kern mc)"
  let ?tf = "tf\<lparr>epc := epc tf + 4\<rparr>"
  obtain c k m where s: "syscall E cur ?k = Some (c, k)" and a: "after_syscall L (trampoline_at E) cur m (c, k) = Some (ToUser root, mc')"
    using assms(1) by (auto simp: user_syscall_def exit_killed_def do_simps split: if_splits)
  have "c \<noteq> SGone" using a by (auto simp: after_syscall_def)
  then have "if \<exists>v. c = SReturn v then \<exists>tf'. frame_of cur k = Some (pa, tf') \<and> call_frame (a7 ?tf = syscall_number Abi.Exec) ?tf tf' else frame_of cur k = Some (pa, ?tf)"
    by (intro syscall_frame [OF s]) (use assms in \<open>simp_all add: frame_of_set_trapframe\<close>)
  from after_syscall_ready [OF a this] show ?thesis by simp
qed

lemma syscall_resume_frame:
  assumes "syscall_resume E cur w k = Some (c, k')" "fd_inv k" "alive cur (sched k)" "frame_of cur k = Some (pa, tf)" "c \<noteq> SGone"
  shows "if \<exists>v. c = SReturn v then \<exists>tf'. frame_of cur k' = Some (pa, tf') \<and> call_frame False tf tf' else frame_of cur k' = Some (pa, tf)"
proof -
  have tf: "pd_trapframe (data k ! cur) = Some (pa, tf)" using assms(4) by (simp add: frame_of_def split: if_splits)
  have sleep: "frame_step False cur k (Some (sys_sleep_resume cur t n k))" for t n
    by (auto simp: frame_step_def dest: kview_sys_sleep_resume frame_of_kview)
  have io: "frame_step False cur k (file_outcome (if b then (case w of FWait n \<Rightarrow> file_read_resume B cur i a m n k | _ \<Rightarrow> None) else file_write_resume B cur i a m w k))" for b w B i a m
    by (rule frame_step_file)
      (auto split: if_splits fcall.splits dest: kview_file_read_resume kview_file_write_resume elim: frame_of_kview)
  have bind: "frame_step False cur k (y \<bind> f)" if "\<And>z. frame_step False cur k (f z)" for y :: "'z option" and f
    using that by (cases y) (auto simp: frame_step_None)
  let ?r = "case w of
         SChild \<Rightarrow> wait_outcome (wait_resume (buddy E) cur (a0 tf) k)
       | STicks ticks0 \<Rightarrow> Some (sys_sleep_resume cur ticks0 (sleep_duration (a0 tf)) k)
       | SFile w \<Rightarrow> do {
           f \<leftarrow> get_file tf 0 (data k ! cur);
           case f of
             Err _ \<Rightarrow> None
           | Ok (_, i) \<Rightarrow> file_outcome
               (if a7 tf = syscall_number Read
                then (case w of FWait n \<Rightarrow> file_read_resume (buddy E) cur i (a1 tf) (a2 tf) n k | _ \<Rightarrow> None)
                else file_write_resume (buddy E) cur i (a1 tf) (a2 tf) w k)
         }
       | _ \<Rightarrow> None"
  obtain c0 k0 where r: "?r = Some (c0, k0)" "syscall_finish cur (c0, k0) = (c, k')"
    using assms(1) tf by (auto simp: syscall_resume_def bind_eq_Some_conv)
  have "frame_step False cur k ?r"
    by (cases w) (auto intro!: bind simp: sleep io frame_step_None frame_step_wait_resume split: result.splits)
  then show ?thesis by (rule finish_frame [OF _ r assms(2-5)])
qed

lemma trap_frame_fields [simp]: "frame_of cur (kern (set_killed i m)) = frame_of cur (kern m)"
  by (simp add: set_killed_def)

lemma user_fault_ready:
  assumes "user_fault E L cur mc = Some (ToUser root, mc')" "frame_of cur (kern mc) = Some (pa, tf)"
  shows "\<exists>tf'. user_ready L (trampoline_at E) cur root pa tf' mc' \<and> user_part tf' = user_part tf"
  using assms by (auto simp: user_fault_def do_simps elim!: usertrap_end_ready split: if_splits)

lemma user_interrupt_ready:
  assumes "device_interrupt dev (Some cur) intr mc = Some (w, m)" "frame_of cur (kern mc) = Some (pa, tf)"
    "usertrap_end L t cur w (if w = None then set_killed cur m else m) = Some (ToUser root, mc')"
  shows "\<exists>tf'. user_ready L t cur root pa tf' mc' \<and> user_part tf' = user_part tf"
proof -
  have "frame_of cur (kern m) = Some (pa, tf)" using frame_of_kview [OF kview_device_interrupt(1) [OF assms(1)]] assms(2) by simp
  then show ?thesis by (intro usertrap_end_ready [OF assms(3)]) simp
qed

text \<open>The machine when \<open>usertrap\<close> looks at the cause.\<close>

definition trap_entry :: "Link \<Rightarrow> nat \<Rightarrow> 'b Machine \<Rightarrow> 'b Machine" where
  "trap_entry L cur mc = mc\<lparr>hart := (hart mc)\<lparr>stvec := kernelvec L\<rparr>, kern := set_trapframe cur (\<lambda>tf. tf\<lparr>epc := sepc (hart mc)\<rparr>) (kern mc)\<rparr>"

lemma usertrap_run:
  assumes "usertrap E L dev cur mc = Some r" "m1 = trap_entry L cur mc"
  shows "(case scause_cause (scause (hart mc)) of
       TrapException EnvironmentCall \<Rightarrow> user_syscall E L cur m1
     | TrapException StorePageFault \<Rightarrow> user_fault E L cur m1
     | TrapException LoadPageFault \<Rightarrow> user_fault E L cur m1
     | TrapInterrupt intr \<Rightarrow> do {
         (which_dev, mc) \<leftarrow> device_interrupt dev (Some cur) intr m1;
         usertrap_end L (trampoline_at E) cur which_dev (if which_dev = None then set_killed cur mc else mc)
       }
     | _ \<Rightarrow> usertrap_end L (trampoline_at E) cur None (set_killed cur m1)) = Some r"
  using assms by (auto simp: usertrap_def do_simps trap_entry_def split: if_splits cong: Trap.case_cong Exception.case_cong)

lemma usertrap_ready:
  assumes "fd_inv (kern mc)" "alive cur (sched (kern mc))" "frame_of cur (kern mc) = Some (pa, tf)" "usertrap E L dev cur mc = Some (ToUser root, mc')"
  shows "\<exists>tf2 tf'. user_ready L (trampoline_at E) cur root pa tf' mc' \<and> user_part tf' = user_part tf2 \<and>
      (if scause_cause (scause (hart mc)) = TrapException EnvironmentCall
       then call_frame (a7 tf = syscall_number Abi.Exec) (tf\<lparr>epc := sepc (hart mc) + 4\<rparr>) tf2 else tf2 = tf\<lparr>epc := sepc (hart mc)\<rparr>)"
proof -
  define m1 where "m1 = trap_entry L cur mc"
  let ?tf = "tf\<lparr>epc := sepc (hart mc)\<rparr>"
  have m1: "fd_inv (kern m1)" "alive cur (sched (kern m1))" "frame_of cur (kern m1) = Some (pa, ?tf)"
    using assms by (simp_all add: m1_def trap_entry_def frame_of_set_trapframe)
  note run = usertrap_run [OF assms(4) m1_def]
  show ?thesis
  proof (cases "scause_cause (scause (hart mc)) = TrapException EnvironmentCall")
    case True
    then have "user_syscall E L cur m1 = Some (ToUser root, mc')" using run by simp
    from user_syscall_ready [OF this m1] True show ?thesis by auto
  next
    case False
    have "\<exists>tf'. user_ready L (trampoline_at E) cur root pa tf' mc' \<and> user_part tf' = user_part ?tf"
    proof (cases "scause_cause (scause (hart mc))")
      case (TrapInterrupt intr)
      then show ?thesis using run m1(3) by (auto simp: bind_eq_Some_conv intro: user_interrupt_ready)
    next
      case (TrapException x)
      then show ?thesis
        using run m1(3) False by (cases x) (auto elim!: user_fault_ready usertrap_end_ready)
    qed
    then show ?thesis using False by auto
  qed
qed

lemma usertrap_resume_ready:
  assumes "fd_inv (kern mc)" "alive cur (sched (kern mc))" "frame_of cur (kern mc) = Some (pa, tf)" "usertrap_resume E L cur t mc = Some (ToUser root, mc')"
  shows "\<exists>tf2 tf'. user_ready L (trampoline_at E) cur root pa tf' mc' \<and> user_part tf' = user_part tf2 \<and>
      (if t = Yields then tf2 = tf else call_frame False tf tf2)"
proof (cases t)
  case Yields
  then have "usertrapret L (trampoline_at E) cur mc = Some (ToUser root, mc')" using assms(4) by (simp add: usertrap_resume_def)
  from usertrapret_ready [OF this assms(3)] Yields show ?thesis by auto
next
  case (Waits w)
  then obtain c k where s: "syscall_resume E cur w (kern mc) = Some (c, k)" and a: "after_syscall L (trampoline_at E) cur mc (c, k) = Some (ToUser root, mc')"
    using assms(4) by (auto simp: usertrap_resume_def do_simps)
  have "c \<noteq> SGone" using a by (auto simp: after_syscall_def)
  from after_syscall_ready [OF a syscall_resume_frame [OF s assms(1-3) this]] Waits show ?thesis by auto
qed (use assms(4) in \<open>simp_all add: usertrap_resume_def\<close>)


subsection \<open>An example\<close>

text \<open>
  One process runs; its descriptor 0 is the console, and it is in the system call \<open>dup(0)\<close> at address 4096.
\<close>

definition example_data :: ProcData where
  "example_data = proc_data_new\<lparr>pd_pagetable := Some 0x80001000, pd_trapframe := Some (0x80002000, trapframe_zeroed\<lparr>a7 := 10, tf_s0 := 7\<rparr>),
     open_files := Some 0 # replicate 15 None\<rparr>"

definition example_kernel :: "unit Kernel" where
  "example_kernel = \<lparr>mem = \<lparr>frames = (\<lambda>_. None), page_refs = (\<lambda>_. 0), kmem = None\<rparr>,
     fs = inode_table_new (log_new, bcache_new (\<lambda>_. [])), sb = superblock_decode [],
     sched = proc_table_new\<lparr>procs := proc_inner_new\<lparr>p_state := Running, p_pid := 1\<rparr> # replicate 63 proc_inner_new\<rparr>,
     data = example_data # replicate 63 proc_data_new, ref_counts = 1 # replicate 99 0,
     files = \<lparr>readable = True, writeable = True, ftype = FDevice (inode_new 0 1 2) 1, foffset = 0\<rparr> # replicate 99 file_inner_new,
     flocked = replicate 100 False, pipes = [], console = console_new, uart = uart_new,
     printf = \<lparr>panicking = False, panicked = False\<rparr>, msg = message_new, ticks = 0, power = None\<rparr>"

definition example_env :: "unit Env" where
  "example_env = \<lparr>buddy = \<lparr>malloc = (\<lambda>_ b. (0, b)), bfree = (\<lambda>_ b. b)\<rparr>, trampoline_at = 0x80003000, fork_ret_at = 0, stat_layout = (\<lambda>_. []), pipe_heap = True\<rparr>"

definition example_link :: Link where
  "example_link = \<lparr>kernelvec = 0x80004000, uservec = 0x80003000, userret = 0x80003100, usertrap_at = 0x80005000\<rparr>"

definition example_devices :: Devices where
  "example_devices = \<lparr>irq = 0, lsr = 0, rx = [], disk_reg = (\<lambda>_. 0)\<rparr>"

definition example_machine :: "unit Machine" where
  "example_machine = \<lparr>kern = example_kernel, vdisk = disk_new,
     hart = \<lparr>hartid = 0, sstatus = 0, sepc = 4096, scause = 8, stval = 0, stvec = 0, satp = 0, time = 0, stimecmp = 0\<rparr>, mmio = [], echoed = []\<rparr>"

lemma example_fd_inv: "fd_inv (kern example_machine)"
proof -
  have c: "count_list (replicate n None) (Some i) = 0" for n and i :: nat by (simp add: count_list_0_iff)
  have s: "(\<Sum>d\<leftarrow>replicate n proc_data_new. int (count_list (open_files d) (Some i))) = 0" for n i
    by (induction n) (simp_all add: proc_data_new_def c)
  show ?thesis
    unfolding fd_inv_def
    by (auto simp: example_machine_def example_kernel_def example_data_def proc_table_new_def s c nth_Cons sum_list_replicate typed_def proc_data_new_def file_inner_new_def
        dead_def split: nat.splits)
qed

lemma example_alive: "alive 0 (sched (kern example_machine))"
  by (simp add: alive_def dead_def example_machine_def example_kernel_def)

lemma example_dup:
  "\<exists>root mc'. usertrap example_env example_link example_devices 0 example_machine = Some (ToUser root, mc') \<and>
     ref_counts (kern mc') ! 0 = 2 \<and> open_files (data (kern mc') ! 0) ! 1 = Some 0"
proof -
  have cause: "scause_cause 8 = TrapException EnvironmentCall" by code_simp
  have call: "syscall_try_from 10 = Ok Dup" using syscall_try_from_number [of Dup] by simp
  have none: "replicate 15 None = None # replicate 14 (None :: nat option)" by (simp add: numeral_eq_Suc)
  have ok: "(0 :: usize) AND SPP = 0" by simp
  show ?thesis
    by (simp add: usertrap_def example_machine_def example_kernel_def example_data_def example_env_def example_link_def cause ok proc_data_new_def
        user_syscall_def is_killed_def proc_inner_new_def proc_table_new_def set_trapframe_def upd_data_def
        syscall_def call trapframe_zeroed_def dispatch_def sys_dup_def get_file_def get_int_def get_raw_def fd_alloc_def none set_open_def
        file_dup_def returns_def syscall_finish_def after_syscall_def usertrap_end_def usertrapret_def)
qed

lemma example_frame: "frame_of 0 (kern example_machine) = Some (0x80002000, trapframe_zeroed\<lparr>a7 := 10, tf_s0 := 7\<rparr>)"
  by (simp add: frame_of_def example_machine_def example_kernel_def example_data_def)


end
