(* ===== verification/Runs.thy ===== *)
theory Runs
  imports User_Context
begin

text \<open>
  Runs of the whole machine: booting, traps from user space and from the kernel, and the scheduler.  The
  invariant of descriptors holds in the kernel the static initialisers describe and in every state a run
  reaches.
\<close>

unbundle bit_operations_syntax

section \<open>The kernel before boot\<close>

text \<open>The values of the \<open>static\<close> variables of the kernel, over the memory \<open>m\<close> and the disk \<open>disk\<close>.\<close>

definition kernel_new :: "'b Mem \<Rightarrow> (u32 \<Rightarrow> u8 list) \<Rightarrow> SuperBlock \<Rightarrow> 'b Kernel" where
  "kernel_new m disk sblock = \<lparr>mem = m, fs = inode_table_new (log_new, bcache_new disk), sb = sblock, sched = proc_table_new,
     data = replicate NPROC proc_data_new, ref_counts = replicate NFILE 0, files = replicate NFILE file_inner_new,
     flocked = replicate NFILE False, pipes = [], console = console_new, uart = uart_new,
     printf = \<lparr>panicking = False, panicked = False\<rparr>, msg = message_new, ticks = 0, power = None\<rparr>"

lemma uses_replicate: "uses (replicate n (replicate m None)) i = 0"
proof -
  have "count_list (replicate m None) (Some i) = 0" by (simp add: count_list_0_iff)
  then show ?thesis by (induction n) (auto simp: uses_def)
qed

lemma fd_inv_kernel_new: "fd_inv (kernel_new m disk sblock)"
  by (simp add: fd_inv_mid fview_def fd_view.simps kernel_new_def uses_replicate proc_data_new_def proc_table_new_def dead_of_def file_inner_new_def)

section \<open>Steps of the machine\<close>

text \<open>
  A process that runs on a hart has the state \<open>Running\<close>; the harts share the kernel, and each step is made by one of
  them.
\<close>

definition on_hart :: "nat \<Rightarrow> 'b Machine \<Rightarrow> bool" where
  "on_hart cur mc \<longleftrightarrow> cur < length (procs (sched (kern mc))) \<and> p_state (procs (sched (kern mc)) ! cur) = Running"

definition with_sched :: "(Sched \<Rightarrow> Sched) \<Rightarrow> 'b Machine \<Rightarrow> 'b Machine" where
  "with_sched f mc = mc\<lparr>kern := (kern mc)\<lparr>sched := f (sched (kern mc))\<rparr>\<rparr>"

inductive machine_step :: "'b Env \<Rightarrow> Link \<Rightarrow> 'b Machine \<Rightarrow> 'b Machine \<Rightarrow> bool" for E L where
  boot: "main_first E L etext reg q mc = Some (kvm, mc') \<Longrightarrow> machine_step E L mc mc'"
| other: "machine_step E L mc (main_other L kvm mc)"
| another: "machine_step E L mc (mc\<lparr>hart := h\<rparr>)"
| first: "on_hart cur mc \<Longrightarrow> fork_ret_first (buddy E) (trampoline_at E) cur (kern mc) = Some k \<Longrightarrow> machine_step E L mc (mc\<lparr>kern := k\<rparr>)"
| enter: "on_hart cur mc \<Longrightarrow> usertrapret L (trampoline_at E) cur mc = Some (e, mc') \<Longrightarrow> machine_step E L mc mc'"
| trap: "on_hart cur mc \<Longrightarrow> usertrap E L dev cur mc = Some (e, mc') \<Longrightarrow> machine_step E L mc mc'"
| resume: "on_hart cur mc \<Longrightarrow> usertrap_resume E L cur t mc = Some (e, mc') \<Longrightarrow> machine_step E L mc mc'"
| interrupt: "(\<And>i. cur = Some i \<Longrightarrow> on_hart i mc) \<Longrightarrow> kerneltrap dev cur mc = Some (b, mc') \<Longrightarrow> machine_step E L mc (kerneltrap_restore (hart mc) mc')"
| dispatch: "machine_step E L mc (with_sched (stride_dispatch c i) mc)"
| switch: "machine_step E L mc (with_sched (switch_back c i) mc)"

abbreviation machine_steps :: "'b Env \<Rightarrow> Link \<Rightarrow> 'b Machine \<Rightarrow> 'b Machine \<Rightarrow> bool" where
  "machine_steps E L \<equiv> (machine_step E L)\<^sup>*\<^sup>*"

section \<open>The invariant in all runs\<close>

lemma fd_mid_held:
  assumes "fd_mid (\<lambda>_. 0) {} {} k" "cur < NPROC" "fd < NOFILE" "open_files (data k ! cur) ! fd = Some i"
  shows "ref_counts k ! i \<noteq> 0"
proof -
  note len = fd_mid_len [OF assms(1,2)]
  have "Some i \<in> set (open_files (data k ! cur))" using assms(3,4) len by (metis nth_mem)
  then have "0 < uses (map open_files (data k)) i" by (intro uses_pos [of "open_files (data k ! cur)"]) (use len in auto)
  then show ?thesis using fd_mid_refs(1) [OF assms(1) fd_mid_entry(1) [OF assms]] by auto
qed

lemma on_hart_alive: "on_hart cur mc \<Longrightarrow> alive cur (sched (kern mc))"
  by (simp add: on_hart_def alive_def dead_def)

lemma fd_inv_usertrapret: "usertrapret L t cur mc = Some (e, mc') \<Longrightarrow> fd_inv (kern mc') = fd_inv (kern mc)"
  by (auto simp: usertrapret_def do_simps)

lemma fd_inv_sched: "dead_of s = dead_of (sched k) \<Longrightarrow> fd_inv (k\<lparr>sched := s\<rparr>) = fd_inv k"
  by (rule fd_inv_fview) (simp add: fview_sched)

lemma fd_inv_mem [simp]: "fd_inv (k\<lparr>mem := m\<rparr>) = fd_inv k" "fd_inv (k\<lparr>fs := f\<rparr>) = fd_inv k"
  by (rule fd_inv_fview; simp)+

lemma fd_inv_usertrap_end:
  assumes "usertrap_end L t cur w mc = Some (e, mc')" "fd_inv (kern mc)" "cur < NPROC" "w = Some ITimer \<Longrightarrow> alive cur (sched (kern mc))"
  shows "fd_inv (kern mc')"
  using assms
  by (auto simp: usertrap_end_def exit_killed_def do_simps fd_inv_sched dead_of_yield fd_inv_usertrapret split: if_splits
      intro: fd_inv_exit_proc)

lemma killed_alive [simp]:
  "alive cur (sched (kern (set_killed i mc))) = alive cur (sched (kern mc))" "fd_inv (kern (set_killed i mc)) = fd_inv (kern mc)"
proof -
  have d: "dead_of (upd_proc i (\<lambda>p. p\<lparr>p_killed := True\<rparr>) s) = dead_of s" for s by (rule dead_of_upd_proc) (simp add: dead_def)
  show "alive cur (sched (kern (set_killed i mc))) = alive cur (sched (kern mc))"
    using alive_dead_of [OF d, of cur "sched (kern mc)"] by (simp add: set_killed_def)
  show "fd_inv (kern (set_killed i mc)) = fd_inv (kern mc)" by (simp add: set_killed_def fd_inv_sched d)
qed

lemma fd_inv_after_syscall:
  assumes "after_syscall L t cur mc (c, k) = Some (e, mc')" "fd_inv k" "cur < NPROC"
  shows "fd_inv (kern mc')"
  using assms fd_inv_usertrap_end [of L t cur None "mc\<lparr>kern := k\<rparr>" e mc'] by (cases c) (auto simp: after_syscall_def)

lemma fd_inv_user_syscall:
  assumes "user_syscall E L cur mc = Some (e, mc')" "fd_inv (kern mc)" "alive cur (sched (kern mc))"
  shows "fd_inv (kern mc')"
proof -
  note cur = alive_NPROC [OF assms(2,3)]
  let ?k = "set_trapframe cur (\<lambda>tf. tf\<lparr>epc := epc tf + 4\<rparr>) (kern mc)"
  have "fd_inv k" if "syscall E cur ?k = Some (c, k)" for c k
    using fds_syscall [of cur ?k E] that assms(2,3) by (simp add: syscall_fds_def)
  then show ?thesis
    using assms(1,2) cur
    by (auto simp: user_syscall_def exit_killed_def do_simps split: if_splits intro: fd_inv_exit_proc elim: fd_inv_after_syscall)
qed

lemma fd_inv_user_fault:
  assumes "user_fault E L cur mc = Some (e, mc')" "fd_inv (kern mc)" "cur < NPROC"
  shows "fd_inv (kern mc')"
  using assms by (auto simp: user_fault_def do_simps elim!: fd_inv_usertrap_end split: if_splits)

lemma fd_inv_device_interrupt:
  assumes "device_interrupt dev cur intr mc = Some (w, mc')"
  shows "fd_inv (kern mc') = fd_inv (kern mc)" "alive i (sched (kern mc')) = alive i (sched (kern mc))"
  using kview_device_interrupt(1) [OF assms] fd_inv_fview [OF fview_kview] alive_kview by blast+

lemma fd_inv_usertrap:
  assumes "usertrap E L dev cur mc = Some (e, mc')" "fd_inv (kern mc)" "alive cur (sched (kern mc))"
  shows "fd_inv (kern mc')"
proof -
  define m1 where "m1 = trap_entry L cur mc"
  have m1: "fd_inv (kern m1)" "alive cur (sched (kern m1))" "cur < NPROC"
    using assms alive_NPROC [OF assms(2,3)] by (simp_all add: m1_def trap_entry_def)
  note run = usertrap_run [OF assms(1) m1_def]
  show ?thesis
  proof (cases "scause_cause (scause (hart mc))")
    case (TrapInterrupt intr)
    then obtain w m where d: "device_interrupt dev (Some cur) intr m1 = Some (w, m)"
      and u: "usertrap_end L (trampoline_at E) cur w (if w = None then set_killed cur m else m) = Some (e, mc')"
      using run by (auto simp: bind_eq_Some_conv)
    show ?thesis by (rule fd_inv_usertrap_end [OF u _ m1(3)]) (use fd_inv_device_interrupt [OF d] m1 in auto)
  next
    case (TrapException x)
    then show ?thesis
      using run m1 by (cases x) (auto elim: fd_inv_user_syscall fd_inv_user_fault fd_inv_usertrap_end)
  qed
qed

lemma fd_inv_usertrap_resume:
  assumes "usertrap_resume E L cur t mc = Some (e, mc')" "fd_inv (kern mc)" "alive cur (sched (kern mc))"
  shows "fd_inv (kern mc')"
proof (cases t)
  case (Waits w)
  then obtain c k where s: "syscall_resume E cur w (kern mc) = Some (c, k)" and a: "after_syscall L (trampoline_at E) cur mc (c, k) = Some (e, mc')"
    using assms(1) by (auto simp: usertrap_resume_def do_simps)
  have "fd_inv k" using fds_syscall_resume [of cur "kern mc" E w] s assms(2,3) by (simp add: syscall_fds_def)
  then show ?thesis using fd_inv_after_syscall [OF a] alive_NPROC [OF assms(2,3)] by simp
qed (use assms in \<open>auto simp: usertrap_resume_def fd_inv_usertrapret\<close>)

lemma fd_inv_kerneltrap:
  assumes "kerneltrap dev cur mc = Some (b, mc')" "fd_inv (kern mc)" "\<And>i. cur = Some i \<Longrightarrow> alive i (sched (kern mc))"
  shows "fd_inv (kern mc')"
proof -
  obtain intr w m where d: "device_interrupt dev cur intr mc = Some (w, m)"
    and c: "(case (w, cur) of (None, _) \<Rightarrow> None
       | (Some ITimer, Some i) \<Rightarrow> Some (True, m\<lparr>kern := (kern m)\<lparr>sched := yield_proc i (sched (kern m))\<rparr>\<rparr>)
       | _ \<Rightarrow> Some (False, m)) = Some (b, mc')"
    using assms(1) by (cases "scause_cause (scause (hart mc))") (auto simp: kerneltrap_def bind_eq_Some_conv split: if_splits)
  have e: "mc' = m \<or> (\<exists>i. cur = Some i \<and> mc' = m\<lparr>kern := (kern m)\<lparr>sched := yield_proc i (sched (kern m))\<rparr>\<rparr>)"
  proof (cases w)
    case (Some x)
    with c show ?thesis by (cases x; cases cur) auto
  qed (use c in simp)
  have "alive i (sched (kern m))" if "cur = Some i" for i using fd_inv_device_interrupt(2) [OF d] assms(3) [OF that] by simp
  then show ?thesis using e fd_inv_device_interrupt(1) [OF d] assms(2) by (auto simp: fd_inv_sched dead_of_yield)
qed

lemma fd_inv_alive_again:
  assumes "fd_inv k" "p_state p = Runnable"
  shows "fd_inv (k\<lparr>sched := upd_proc i (\<lambda>_. p) (sched k)\<rparr>)"
proof -
  have "fd_mid (\<lambda>_. 0) {} {i} k" by (rule fd_view_mono [of "{}" _ "{}"]) (use assms(1) in \<open>auto simp: fd_inv_mid\<close>)
  moreover have "dead_of (upd_proc i (\<lambda>_. p) (sched k)) = (dead_of (sched k))[i := False]"
    using assms(2) by (simp add: dead_of_def upd_proc_def map_update dead_def)
  ultimately show ?thesis using fd_view_publish by (simp add: fd_inv_mid fview_def)
qed

lemma upd_proc_const: "upd_proc i f s = upd_proc i (\<lambda>_. f (procs s ! i)) s"
  by (simp add: upd_proc_def)

lemma fd_inv_user_init:
  assumes "user_init B t fr k = Some k'" "fd_inv k"
  shows "fd_inv k'"
proof -
  obtain i k1 root k2 where a: "proc_alloc B t fr k = Some (Ok i, k1)"
    and r: "kview k2 = kview (k1\<lparr>sched := (sched k1)\<lparr>init_proc := (case init_proc (sched k1) of None \<Rightarrow> Some i | Some j \<Rightarrow> Some j)\<rparr>\<rparr>)"
    and k': "k' = upd_data i (\<lambda>d. d\<lparr>cwd := root\<rparr>) (k2\<lparr>sched := upd_proc i (\<lambda>p. p\<lparr>p_state := Runnable\<rparr>) (sched k2)\<rparr>)"
    using assms(1) by (auto simp: user_init_def do_simps dest!: kview_on_fs)
  have "fview k1 = fview k" using proc_alloc_keeps [OF a] by (auto simp: keeps_def)
  moreover have "fview k2 = fview k1" using fview_kview [OF r] by (simp add: fview_sched)
  ultimately have "fd_inv k2" using assms(2) fd_inv_fview by metis
  then have "fd_inv (k2\<lparr>sched := upd_proc i (\<lambda>p. p\<lparr>p_state := Runnable\<rparr>) (sched k2)\<rparr>)"
    by (subst upd_proc_const) (rule fd_inv_alive_again, simp_all)
  moreover have "fview k' = fview (k2\<lparr>sched := upd_proc i (\<lambda>p. p\<lparr>p_state := Runnable\<rparr>) (sched k2)\<rparr>)"
    unfolding k' by (rule fview_upd_data) simp
  ultimately show ?thesis using fd_inv_fview by blast
qed

lemma fview_proc_init [simp]: "fview (proc_init k) = fview k"
proof -
  have "map open_files (data (proc_init k)) = map open_files (data k)" by (rule nth_equalityI) (simp_all add: proc_init_def)
  then show ?thesis by (simp add: fview_def) (simp add: proc_init_def)
qed

lemma fd_inv_uart [simp]: "fd_inv (k\<lparr>uart := u\<rparr>) = fd_inv k" "fd_inv (proc_init k) = fd_inv k"
  by (rule fd_inv_fview, simp add: fview_def) (rule fd_inv_fview, simp)

lemma fd_inv_main_first:
  assumes "main_first E L etext reg q mc = Some (kvm, mc')" "fd_inv (kern mc)"
  shows "fd_inv (kern mc')"
  using assms
  by (cases q) (auto simp: main_first_def do_simps vm_init_hart_def trap_init_hart_def plic_init_def plic_init_hart_def elim!: fd_inv_user_init)

lemma reclaim_one_dead: "reclaim_one sblock dev cur inum (f, s) = Some (f', s') \<Longrightarrow> dead_of s' = dead_of s"
  by (auto simp: reclaim_one_def do_simps case_prod_Some operation_begin_def begin_op_def operation_drop_def end_op_def
      split: if_splits option.splits result.splits)

lemma fs_init_dead: "fs_init dev cur (f, s) = Some (sblock, f', s') \<Longrightarrow> dead_of s' = dead_of s"
proof -
  have "dead_of (snd y) = dead_of (snd x)" if "foldO (reclaim_one sblock dev cur) is x = Some y" for "is" x y sblock
    using that
  proof (induction "is" arbitrary: x)
    case (Cons i "is")
    then show ?case by (cases x) (auto simp: do_simps dest!: reclaim_one_dead Cons.IH)
  qed simp
  then show "fs_init dev cur (f, s) = Some (sblock, f', s') \<Longrightarrow> dead_of s' = dead_of s"
    by (fastforce simp: fs_init_def inode_reclaim_def do_simps)
qed

lemma fd_inv_fork_ret_first:
  assumes "fork_ret_first B t cur k = Some k'" "fd_inv k"
  shows "fd_inv k'"
proof -
  obtain sblock f s r k1 where i: "fs_init ROOTDEV cur (fs k, sched k) = Some (sblock, f, s)"
    and e: "exec B t cur [47, 105, 110, 105, 116] [[105, 110, 105, 116]] (k\<lparr>sb := sblock, fs := f, sched := s\<rparr>) = Some (r, k1)"
    and k': "fview k' = fview k1"
    using assms(1) by (auto simp: fork_ret_first_def do_simps)
  have "fview k1 = fview (k\<lparr>sb := sblock, fs := f, sched := s\<rparr>)" using frame_ok_exec [OF e] by (simp add: frame_ok_def)
  also have "\<dots> = fview k" using fs_init_dead [OF i] by (simp add: fview_def)
  finally show ?thesis using k' assms(2) fd_inv_fview by metis
qed

lemma dead_of_stride_dispatch [simp]: "dead_of (stride_dispatch c i s) = dead_of s"
proof -
  have n: "dead_of (normalise s) = dead_of s" by (auto simp: normalise_def dead_of_def dead_def Let_def split: option.splits)
  have c: "dead_of (x\<lparr>cpu_procs := cs\<rparr>) = dead_of x" for x cs by (simp add: dead_of_def)
  have "dead_of (upd_proc i (\<lambda>p. p\<lparr>p_state := Running\<rparr>) s) = dead_of s" if "p_state (procs s ! i) = Runnable"
    by (rule dead_of_upd_proc) (simp add: dead_def that)
  then show ?thesis by (simp add: stride_dispatch_def Let_def n c)
qed

lemma dead_of_switch_back [simp]: "dead_of (switch_back c i s) = dead_of s"
proof -
  have c: "dead_of (x\<lparr>cpu_procs := cs\<rparr>) = dead_of x" for x cs by (simp add: dead_of_def)
  show ?thesis unfolding switch_back_def c by (rule dead_of_upd_proc) (simp add: dead_def)
qed

lemma fd_inv_step: "machine_step E L mc mc' \<Longrightarrow> fd_inv (kern mc) \<Longrightarrow> fd_inv (kern mc')"
proof (induction rule: machine_step.induct)
  case (interrupt cur mc dev b mc')
  then show ?case using fd_inv_kerneltrap on_hart_alive by (fastforce simp: kerneltrap_restore_def)
qed (auto simp: main_other_def plic_init_hart_def trap_init_hart_def vm_init_hart_def with_sched_def fd_inv_sched fd_inv_usertrapret
    dest: fd_inv_main_first fd_inv_fork_ret_first fd_inv_usertrap fd_inv_usertrap_resume on_hart_alive)

lemma fd_inv_steps: "machine_steps E L mc mc' \<Longrightarrow> fd_inv (kern mc) \<Longrightarrow> fd_inv (kern mc')"
  by (induction rule: rtranclp_induct) (auto dest: fd_inv_step)

text \<open>
  Property C2.  Reference counts of open files are exact.  In the kernel of the static initialisers, and in every state that
  any sequence of boots, traps, system calls (all 31, with their error paths), resumptions, interrupts and scheduler steps
  reaches, the reference count of each entry of the file table is the number of descriptors of all processes that refer to it,
  entries nobody refers to have no kind, and every descriptor refers to an entry that has one.  So the panics of
  \<open>File::dup\<close>, \<open>File::read\<close>, \<open>File::write\<close> and \<open>File::close\<close> on free entries cannot be reached through a descriptor.
\<close>

theorem descriptors_counted:
  "fd_inv (kernel_new m disk sblock) \<and>
   (fd_inv (kern mc) \<longrightarrow> machine_steps E L mc mc' \<longrightarrow> fd_inv (kern mc') \<and>
     (\<forall>cur fd i. cur < NPROC \<and> fd < NOFILE \<and> open_files (data (kern mc') ! cur) ! fd = Some i \<longrightarrow>
        i < NFILE \<and> ftype (files (kern mc') ! i) \<noteq> FNone \<and> ref_counts (kern mc') ! i \<ge> 1 \<and> file_dup i (kern mc') \<noteq> None))"
proof (intro conjI impI allI)
  show "fd_inv (kernel_new m disk sblock)" by (rule fd_inv_kernel_new)
next
  assume "fd_inv (kern mc)" "machine_steps E L mc mc'"
  then show "fd_inv (kern mc')" by (auto dest: fd_inv_steps)
next
  fix cur fd i
  assume a: "fd_inv (kern mc)" "machine_steps E L mc mc'" "cur < NPROC \<and> fd < NOFILE \<and> open_files (data (kern mc') ! cur) ! fd = Some i"
  then have inv: "fd_mid (\<lambda>_. 0) {} {} (kern mc')" using fd_inv_steps fd_inv_mid by blast
  note E = fd_mid_entry [OF inv, of cur fd i]
  show "i < NFILE" "ftype (files (kern mc') ! i) \<noteq> FNone" using E a(3) by (auto simp: typed_def)
  have r: "ref_counts (kern mc') ! i \<noteq> 0" by (rule fd_mid_held [OF inv]) (use a(3) in auto)
  then show "ref_counts (kern mc') ! i \<ge> 1" by (simp add: word_le_nat_alt unat_gt_0 Suc_leI)
  then show "file_dup i (kern mc') \<noteq> None" by (simp add: file_dup_def)
qed

theorem descriptors_counted_witness:
  "\<exists>mc'. machine_steps example_env example_link example_machine mc' \<and> fd_inv (kern mc') \<and>
     open_files (data (kern mc') ! 0) ! 1 = Some 0 \<and> ref_counts (kern mc') ! 0 = 2 \<and> file_dup 0 (kern mc') \<noteq> None"
proof -
  obtain root mc' where t: "usertrap example_env example_link example_devices 0 example_machine = Some (ToUser root, mc')"
    "ref_counts (kern mc') ! 0 = 2" "open_files (data (kern mc') ! 0) ! 1 = Some 0"
    using example_dup by blast
  have "on_hart 0 example_machine" by (simp add: on_hart_def example_machine_def example_kernel_def)
  then have steps: "machine_steps example_env example_link example_machine mc'" using machine_step.trap [OF _ t(1)] by blast
  from descriptors_counted [of "mem example_kernel" "\<lambda>_. []" "sb example_kernel" example_machine example_env example_link mc'] steps example_fd_inv
  have inv: "fd_inv (kern mc')" and all: "\<forall>cur fd i. cur < NPROC \<and> fd < NOFILE \<and> open_files (data (kern mc') ! cur) ! fd = Some i \<longrightarrow>
        i < NFILE \<and> ftype (files (kern mc') ! i) \<noteq> FNone \<and> ref_counts (kern mc') ! i \<ge> 1 \<and> file_dup i (kern mc') \<noteq> None"
    by blast+
  have "file_dup 0 (kern mc') \<noteq> None" using all [rule_format, of 0 1 0] t(3) by simp
  then show ?thesis using steps inv t(2,3) by blast
qed

end
