(* ===== verification/Args.thy ===== *)
theory Args
  imports Exec Usermem
begin

text \<open>
  The arguments of a program (\<open>user/src/args.rs\<close>): how a program reads what \<open>exec\<close> put on its stack.  Memory is what the
  program sees of it, from addresses to bytes; an access outside is a fault, and the search for the end of a string
  may run into one or go on forever (\<open>None\<close>).
\<close>

section \<open>Reading arguments\<close>

record Args =
  argc :: usize
  argv :: usize

record ArgsIter =
  it_argv :: usize
  it_current :: usize
  it_end :: usize

definition read_bytes :: "(usize \<Rightarrow> u8 option) \<Rightarrow> usize \<Rightarrow> nat \<Rightarrow> u8 list option" where
  "read_bytes v p n = those (map (\<lambda>i. v (p + word_of_nat i)) [0..<n])"

definition read_ptr :: "(usize \<Rightarrow> u8 option) \<Rightarrow> usize \<Rightarrow> usize option" where
  "read_ptr v p = map_option (\<lambda>bs. word_of_nat (of_le bs)) (read_bytes v p 8)"

partial_function (option) cstr_len :: "(usize \<Rightarrow> u8 option) \<Rightarrow> usize \<Rightarrow> nat \<Rightarrow> nat option" where
  "cstr_len v p n = do {
     b \<leftarrow> v (p + word_of_nat n);
     if b \<noteq> 0 then cstr_len v p (n + 1) else Some n
   }"

definition read_cstr :: "(usize \<Rightarrow> u8 option) \<Rightarrow> usize \<Rightarrow> u8 list option" where
  "read_cstr v p = do { len \<leftarrow> cstr_len v p 0; read_bytes v p len }"

text \<open>\<open>from_stack\<close>: the registers \<open>a0\<close> and \<open>a1\<close> at the entry of the program.\<close>

definition args_from_stack :: "TrapFrame \<Rightarrow> Args" where
  "args_from_stack tf = \<lparr>argc = a0 tf, argv = a1 tf\<rparr>"

definition args_len :: "Args \<Rightarrow> usize" where
  "args_len a = (if argc a = 0 then 0 else argc a - 1)"

definition args_get :: "(usize \<Rightarrow> u8 option) \<Rightarrow> Args \<Rightarrow> usize \<Rightarrow> u8 list option option" where
  "args_get v a index =
     (if index \<ge> argc a then Some None
      else do { p \<leftarrow> read_ptr v (argv a + index * 8); s \<leftarrow> read_cstr v p; Some (Some s) })"

definition args_program :: "(usize \<Rightarrow> u8 option) \<Rightarrow> Args \<Rightarrow> u8 list option option" where
  "args_program v a = args_get v a 0"

definition args_iter :: "Args \<Rightarrow> ArgsIter" where
  "args_iter a = \<lparr>it_argv = argv a, it_current = 0, it_end = argc a\<rparr>"

definition args_args :: "Args \<Rightarrow> ArgsIter" where
  "args_args a = \<lparr>it_argv = argv a, it_current = 1, it_end = argc a\<rparr>"

definition args_next :: "(usize \<Rightarrow> u8 option) \<Rightarrow> ArgsIter \<Rightarrow> (u8 list option \<times> ArgsIter) option" where
  "args_next v it =
     (if it_current it \<ge> it_end it then Some (None, it)
      else do {
        p \<leftarrow> read_ptr v (it_argv it + it_current it * 8);
        let it = it\<lparr>it_current := it_current it + 1\<rparr>;
        s \<leftarrow> read_cstr v p;
        Some (Some s, it)
      })"

text \<open>A \<open>for\<close> loop over the iterator, as the programs use it.\<close>

partial_function (option) args_collect :: "(usize \<Rightarrow> u8 option) \<Rightarrow> ArgsIter \<Rightarrow> u8 list list option" where
  "args_collect v it = do {
     (r, it) \<leftarrow> args_next v it;
     case r of None \<Rightarrow> Some [] | Some s \<Rightarrow> do { ss \<leftarrow> args_collect v it; Some (s # ss) }
   }"

section \<open>Strings in memory\<close>

definition str_at :: "(usize \<Rightarrow> u8 option) \<Rightarrow> usize \<Rightarrow> u8 list \<Rightarrow> bool" where
  "str_at v p s \<longleftrightarrow> (\<forall>j < length s. v (p + word_of_nat j) = Some (s ! j))"

lemma read_bytes_str: "str_at v p s \<Longrightarrow> n = length s \<Longrightarrow> read_bytes v p n = Some s"
proof -
  have "those (map f [0..<length s]) = Some s" if "\<forall>j < length s. f j = Some (s ! j)" for f and s :: "u8 list"
    using that
  proof (induction s rule: rev_induct)
    case (snoc x s)
    have "those (xs @ [Some y]) = map_option (\<lambda>ys. ys @ [y]) (those xs)" for xs and y :: u8 by (induction xs) (auto split: option.splits simp: option.map_comp comp_def)
    then show ?case using snoc by (simp add: nth_append)
  qed simp
  then show "str_at v p s \<Longrightarrow> n = length s \<Longrightarrow> read_bytes v p n = Some s" by (simp add: read_bytes_def str_at_def)
qed

lemma all_less_add: "(\<forall>j < m + n. P j) \<longleftrightarrow> (\<forall>j < m. P j) \<and> (\<forall>j < n. P (m + j))" for m n :: nat
proof (intro iffI conjI allI impI)
  fix j
  assume a: "(\<forall>j < m. P j) \<and> (\<forall>j < n. P (m + j))" "j < m + n"
  show "P j"
  proof (cases "j < m")
    case False
    then have "j - m < n" "m + (j - m) = j" using a(2) by auto
    with a(1) show ?thesis by metis
  qed (use a in blast)
qed auto

lemma str_at_append: "str_at v p (s @ t) \<longleftrightarrow> str_at v p s \<and> str_at v (p + word_of_nat (length s)) t"
  by (simp add: str_at_def all_less_add nth_append add.assoc)

lemma str_at_single [simp]: "str_at v p [x] \<longleftrightarrow> v p = Some x"
  by (simp add: str_at_def)

lemma str_at_nth: "str_at v p s \<Longrightarrow> j < length s \<Longrightarrow> v (p + word_of_nat j) = Some (s ! j)"
  by (simp add: str_at_def)

lemma cstr_len_str: "str_at v p (s @ [0]) \<Longrightarrow> 0 \<notin> set s \<Longrightarrow> i \<le> length s \<Longrightarrow> cstr_len v p i = Some (length s)"
proof (induction "length s - i" arbitrary: i)
  case 0
  then show ?case by (subst cstr_len.simps) (simp add: str_at_append)
next
  case (Suc n)
  then have i: "i < length s" by simp
  then have "s ! i \<noteq> 0" using Suc.prems(2) nth_mem by metis
  moreover have "v (p + word_of_nat i) = Some (s ! i)" using Suc.prems(1) i by (simp add: str_at_append str_at_nth)
  ultimately show ?case using Suc.hyps(1) [of "i + 1"] Suc.hyps(2) Suc.prems by (subst cstr_len.simps) simp
qed

lemma read_cstr_str: "str_at v p (s @ [0]) \<Longrightarrow> 0 \<notin> set s \<Longrightarrow> read_cstr v p = Some s"
  by (simp add: read_cstr_def cstr_len_str str_at_append read_bytes_str)

lemma unat_bound: "unat (x :: usize) < 18446744073709551616"
  using unsigned_less [of x] by simp

lemma read_ptr_str: "str_at v p (usize_bytes x) \<Longrightarrow> read_ptr v p = Some x"
  using of_le_bytes [of "unat x" 8] unat_bound [of x]
  by (simp add: read_ptr_def read_bytes_str usize_bytes_def)

lemma usize_bytes_length [simp]: "length (usize_bytes x) = 8"
  by (simp add: usize_bytes_def)

lemma str_at_words:
  "str_at v p (concat (map usize_bytes us)) \<Longrightarrow> i < length us \<Longrightarrow> read_ptr v (p + word_of_nat i * 8) = Some (us ! i)"
proof (induction us arbitrary: p i)
  case (Cons u us)
  show ?case
    using Cons.prems Cons.IH [of "p + 8" "i - 1"] by (cases i) (auto simp: str_at_append read_ptr_str algebra_simps)
qed simp

lemma args_next_step:
  assumes "str_at v (argv a) (concat (map usize_bytes us))" "list_all2 (\<lambda>u s. str_at v u (s @ [0]) \<and> 0 \<notin> set s) us ss"
    "argc a = word_of_nat (length us)" "length us < 2 ^ 32" "i < length us"
  shows "args_next v \<lparr>it_argv = argv a, it_current = word_of_nat i, it_end = argc a\<rparr> = Some (Some (ss ! i), \<lparr>it_argv = argv a, it_current = word_of_nat (i + 1), it_end = argc a\<rparr>)"
proof -
  have "(word_of_nat i :: usize) < word_of_nat (length us)" using assms(4,5) by (simp add: word_less_nat_alt unat_of_nat)
  moreover have "read_cstr v (us ! i) = Some (ss ! i)" using assms(2,5) by (auto simp: list_all2_conv_all_nth intro: read_cstr_str)
  ultimately show ?thesis using str_at_words [OF assms(1,5)] assms(3) by (simp add: args_next_def not_le)
qed

lemma args_collect_all:
  assumes "str_at v (argv a) (concat (map usize_bytes us))" "list_all2 (\<lambda>u s. str_at v u (s @ [0]) \<and> 0 \<notin> set s) us ss"
    "argc a = word_of_nat (length us)" "length us < 2 ^ 32" "i \<le> length us"
  shows "args_collect v \<lparr>it_argv = argv a, it_current = word_of_nat i, it_end = argc a\<rparr> = Some (drop i ss)"
  using assms(5)
proof (induction "length us - i" arbitrary: i)
  case 0
  then show ?case using assms(2,3) by (subst args_collect.simps) (simp add: args_next_def list_all2_lengthD)
next
  case (Suc n)
  then have i: "i < length us" "length us = length ss" using assms(2) by (auto simp: list_all2_lengthD)
  have "args_collect v \<lparr>it_argv = argv a, it_current = word_of_nat (i + 1), it_end = argc a\<rparr> = Some (drop (i + 1) ss)"
    by (rule Suc.hyps(1)) (use Suc.hyps(2) i in auto)
  then show ?case
    using args_next_step [OF assms(1-4) i(1)] i by (subst args_collect.simps) (simp add: Cons_nth_drop_Suc)
qed

section \<open>What exec leaves on the stack\<close>

lemma unat_add_small: "unat (p :: usize) + n < 2 ^ 64 \<Longrightarrow> unat (p + word_of_nat n) = unat p + n"
  by (simp add: unat_word_ariths unat_of_nat)

lemma poke_above: "unat va + length bs \<le> unat x \<Longrightarrow> poke v va bs x = v x"
proof -
  assume a: "unat va + length bs \<le> unat x"
  then have "va \<le> x" by (simp add: word_le_nat_alt)
  then have "unat (x - va) = unat x - unat va" by (rule unat_sub)
  then have "\<not> unat (x - va) < length bs" using a by linarith
  then show ?thesis by (simp add: poke_def)
qed

lemma poke_inside:
  assumes "j < length bs" "length bs < 2 ^ 64" "v (va + word_of_nat j) \<noteq> None"
  shows "poke v va bs (va + word_of_nat j) = Some (bs ! j)"
  using assms by (simp add: poke_def unat_of_nat)

lemma poke_None [simp]: "poke v va bs x = None \<longleftrightarrow> v x = None"
  by (simp add: poke_def)

definition readable_from :: "(usize \<Rightarrow> u8 option) \<Rightarrow> nat \<Rightarrow> nat \<Rightarrow> bool" where
  "readable_from v lo hi \<longleftrightarrow> (\<forall>x. lo \<le> unat x \<and> unat x < hi \<longrightarrow> v x \<noteq> None)"

lemma readable_poke [simp]: "readable_from (poke v va bs) lo hi = readable_from v lo hi"
  by (simp add: readable_from_def del: not_None_eq)

lemma str_at_poke:
  assumes "readable_from v lo hi" "lo \<le> unat va" "unat va + length bs \<le> hi" "hi < 2 ^ 63"
  shows "str_at (poke v va bs) va bs"
proof -
  have "poke v va bs (va + word_of_nat j) = Some (bs ! j)" if "j < length bs" for j
  proof (rule poke_inside [OF that])
    have "unat (va + word_of_nat j) = unat va + j" by (rule unat_add_small) (use that assms in simp)
    then show "v (va + word_of_nat j) \<noteq> None" using assms that unfolding readable_from_def by simp
  qed (use assms in simp)
  then show ?thesis by (simp add: str_at_def)
qed

lemma str_at_above:
  assumes "str_at v p s" "unat va + length bs \<le> unat p" "unat p + length s < 2 ^ 63"
  shows "str_at (poke v va bs) p s"
proof -
  have "poke v va bs (p + word_of_nat j) = v (p + word_of_nat j)" if "j < length s" for j
    by (rule poke_above) (use that assms(2,3) in \<open>simp add: unat_add_small\<close>)
  then show ?thesis using assms(1) by (simp add: str_at_def)
qed

text \<open>The strings at the addresses \<open>us\<close>, all of them in the part of the stack from \<open>lo\<close> on.\<close>

definition strings :: "(usize \<Rightarrow> u8 option) \<Rightarrow> nat \<Rightarrow> nat \<Rightarrow> usize list \<Rightarrow> u8 list list \<Rightarrow> bool" where
  "strings v lo hi us ss \<longleftrightarrow> list_all2 (\<lambda>u s. str_at v u (s @ [0]) \<and> 0 \<notin> set s \<and> lo \<le> unat u \<and> unat u + length s < hi) us ss"

lemma strings_poke:
  assumes "strings v lo hi us ss" "unat va + length bs \<le> lo" "hi < 2 ^ 63" "lo' \<le> lo"
  shows "strings (poke v va bs) lo' hi us ss"
  using assms(1) unfolding strings_def
proof (rule list_all2_mono)
  fix u s
  assume a: "str_at v u (s @ [0]) \<and> 0 \<notin> set s \<and> lo \<le> unat u \<and> unat u + length s < hi"
  have "str_at (poke v va bs) u (s @ [0])" by (rule str_at_above) (use a assms in auto)
  then show "str_at (poke v va bs) u (s @ [0]) \<and> 0 \<notin> set s \<and> lo' \<le> unat u \<and> unat u + length s < hi" using a assms(4) by simp
qed

text \<open>The stack pointer after making room for \<open>n\<close> bytes.\<close>

lemma stack_room:
  fixes stk :: usize
  assumes "n + 16 < unat stk"
  shows "unat (stk - word_of_nat n - (stk - word_of_nat n) mod 16) + n \<le> unat stk"
    "(stk - word_of_nat n - (stk - word_of_nat n) mod 16) mod 16 = 0"
proof -
  have n: "unat (word_of_nat n :: usize) = n" using assms unat_bound [of stk] by (simp add: unat_of_nat)
  then have "word_of_nat n \<le> stk" using assms by (simp add: word_le_nat_alt)
  then have u: "unat (stk - word_of_nat n) = unat stk - n" using n by (simp add: unat_sub)
  let ?x = "stk - word_of_nat n"
  have m: "unat (?x mod 16) = unat ?x mod 16" by (simp add: unat_mod)
  then have "?x mod 16 \<le> ?x" by (simp add: word_le_nat_alt)
  then have v: "unat (?x - ?x mod 16) = unat ?x - unat ?x mod 16" using m by (simp add: unat_sub)
  then show "unat (?x - ?x mod 16) + n \<le> unat stk" using u assms by simp
  have "(unat ?x - unat ?x mod 16) mod 16 = 0" by (simp add: minus_mod_eq_mult_div)
  then have "unat ((?x - ?x mod 16) mod 16) = 0" by (simp add: unat_mod v)
  then show "(?x - ?x mod 16) mod 16 = 0" by (simp only: unat_eq_zero)
qed

context user_memory
begin

lemma push_one:
  assumes "minv m" "readable_from (view m) lo hi" "hi < 2 ^ 63" "lo \<le> unat stk" "unat stk + length arg < hi"
    "strings (view m) hi1 hi us ss" "unat stk + length arg < hi1" "0 \<notin> set arg"
    "cto arg stk m = Some (r1, m1)" "is_ok r1" "cto [0] (stk + word_of_nat (length arg)) m1 = Some (r2, m2)" "is_ok r2"
  shows "minv m2" "readable_from (view m2) lo hi" "strings (view m2) (unat stk) hi (us @ [stk]) (ss @ [arg])"
proof -
  have c1: "minv m1" "view m1 = poke (view m) stk arg" using copy_out [OF assms(1), of arg stk] assms(3,5,9,10) by auto
  have c2: "minv m2" "view m2 = poke (view m1) (stk + word_of_nat (length arg)) [0]"
    using copy_out [OF c1(1), of "[0]" "stk + word_of_nat (length arg)"] assms(11,12) by auto
  have v: "view m2 = poke (view m) stk (arg @ [0])" using poke_append [of arg "[0]" "view m" stk] c1(2) c2(2) assms(3,5) by simp
  show "minv m2" by (rule c2(1))
  show "readable_from (view m2) lo hi" using assms(2) v by simp
  have "strings (view m2) (unat stk) hi us ss" unfolding v by (rule strings_poke [OF assms(6)]) (use assms in auto)
  moreover have "str_at (view m2) stk (arg @ [0])" unfolding v by (rule str_at_poke [OF assms(2)]) (use assms in auto)
  ultimately show "strings (view m2) (unat stk) hi (us @ [stk]) (ss @ [arg])"
    using assms(5,8) by (simp add: strings_def list_all2_appendI)
qed

lemma push_args_strings:
  assumes "minv m" "readable_from (view m) (unat base) hi" "hi < 2 ^ 63" "unat base \<le> unat stk" "unat stk \<le> hi"
    "strings (view m) (unat stk) hi us ss" "\<forall>a \<in> set args. 0 \<notin> set a \<and> length a + 17 < unat base"
  shows "\<exists>res m'. push_args cto base args stk us m = Some (res, m') \<and> minv m' \<and> readable_from (view m') (unat base) hi \<and>
     (case res of Err e \<Rightarrow> e = ExecMemory
      | Ok (stk', us') \<Rightarrow> unat base \<le> unat stk' \<and> unat stk' \<le> unat stk \<and> strings (view m') (unat stk') hi us' (ss @ args))"
  using assms(1,2,4-7)
proof (induction args arbitrary: stk us ss m)
  case Nil
  then show ?case by simp
next
  case (Cons arg args)
  let ?s = "stk - word_of_nat (length arg + 1)"
  let ?stk = "?s - ?s mod 16"
  have room: "unat ?stk + (length arg + 1) \<le> unat stk" by (rule stack_room) (use Cons.prems in auto)
  have len: "length arg < 2 ^ 64" using room unat_bound [of stk] by simp
  obtain r1 m1 where c1: "cto arg ?stk m = Some (r1, m1)" "minv m1" "readable_from (view m1) (unat base) hi"
    using copy_out [OF Cons.prems(1) len, of ?stk] Cons.prems(2) by auto
  obtain r2 m2 where c2: "cto [0] (?stk + word_of_nat (length arg)) m1 = Some (r2, m2)" "minv m2" "readable_from (view m2) (unat base) hi"
    using copy_out [OF c1(2), of "[0]" "?stk + word_of_nat (length arg)"] c1(3) by auto
  show ?case
  proof (cases "length us \<ge> MAXARG \<or> ?stk < base \<or> \<not> is_ok r1 \<or> \<not> is_ok r2")
    case True
    then show ?thesis
    proof -
      have "\<exists>m'. push_args cto base (arg # args) stk us m = Some (Err ExecMemory, m') \<and> minv m' \<and> readable_from (view m') (unat base) hi"
        using True c1 c2 Cons.prems(1,2) by (auto simp: Let_def)
      then show ?thesis by auto
    qed
  next
    case False
    have b: "unat base \<le> unat ?stk" using False by (simp add: not_less word_le_nat_alt)
    note P = push_one [OF Cons.prems(1,2) assms(3) b _ Cons.prems(5) _ _ c1(1) _ c2(1)]
    have p: "readable_from (view m2) (unat base) hi" "strings (view m2) (unat ?stk) hi (us @ [?stk]) (ss @ [arg])"
      using P(2,3) room Cons.prems(4,6) False by auto
    have "unat ?stk \<le> hi" "\<forall>a \<in> set args. 0 \<notin> set a \<and> length a + 17 < unat base" using room Cons.prems(4,6) by auto
    from Cons.IH [OF c2(2) p(1) b this(1) p(2) this(2)] room show ?thesis
      using False c1(1) c2(1) by (fastforce simp: Let_def split: result.splits)
  qed
qed

lemma build_stack_args:
  assumes "minv m" "(USERSTACK + 1) * PGSIZE \<le> sz" "unat sz < 2 ^ 63" "readable_from (view m) (unat (sz - USERSTACK * PGSIZE)) (unat sz)"
    "length args < MAXARG" "\<forall>a \<in> set args. 0 \<notin> set a \<and> length a + 17 < unat (sz - USERSTACK * PGSIZE)"
  shows "\<exists>res m'. build_stack cto sz args m = Some (res, m') \<and> minv m' \<and>
     (case res of Err e \<Rightarrow> e = ExecMemory
      | Ok (stk, n) \<Rightarrow> n = length args \<and> stk mod 16 = 0 \<and> sz - USERSTACK * PGSIZE \<le> stk \<and> stk < sz \<and>
          args_collect (view m') (args_iter \<lparr>argc = word_of_nat n, argv = stk\<rparr>) = Some args)"
proof -
  let ?base = "sz - USERSTACK * PGSIZE"
  have b: "unat ?base \<le> unat sz" "272 < unat ?base"
    using assms(2) by (simp_all add: USERSTACK_def unat_sub word_le_nat_alt)
  have "strings (view m) (unat sz) (unat sz) [] []" by (simp add: strings_def)
  from push_args_strings [OF assms(1,4,3) b(1) order_refl this assms(6), unfolded append_Nil] obtain r m1 where
    p: "push_args cto ?base args sz [] m = Some (r, m1)" "minv m1" "readable_from (view m1) (unat ?base) (unat sz)" and
    c: "case r of Err e \<Rightarrow> e = ExecMemory
      | Ok (stk', us') \<Rightarrow> unat ?base \<le> unat stk' \<and> unat stk' \<le> unat sz \<and> strings (view m1) (unat stk') (unat sz) us' args" by blast
  show ?thesis
  proof (cases r)
    case (Err e)
    then show ?thesis using p c by (simp add: build_stack_def)
  next
    case (Ok x)
    obtain stk us where x: "x = (stk, us)" by fastforce
    have s: "unat ?base \<le> unat stk" "unat stk \<le> unat sz" "strings (view m1) (unat stk) (unat sz) us args" using c Ok x by auto
    have n: "length us = length args" using s(3) by (simp add: strings_def list_all2_lengthD)
    let ?d = "stk - word_of_nat ((length us + 1) * 8)"
    let ?stk = "?d - ?d mod 16"
    let ?words = "concat (map usize_bytes (us @ [0]))"
    have lw: "length ?words = (length us + 1) * 8" by (simp add: length_concat comp_def sum_list_triv)
    have "(length us + 1) * 8 + 16 < unat stk" using n assms(5) s(1) b(2) by simp
    note room = stack_room [OF this]
    obtain r2 m2 j where c2: "cto ?words ?stk m1 = Some (r2, m2)" "minv m2" "view m2 = poke (view m1) ?stk (take j ?words)" "is_ok r2 \<longrightarrow> j = length ?words"
      using copy_out [OF p(2), of ?words ?stk] lw n assms(5) by auto
    show ?thesis
    proof (cases "?stk < ?base \<or> \<not> is_ok r2")
      case True
      then have "\<exists>m'. build_stack cto sz args m = Some (Err ExecMemory, m') \<and> minv m'"
        using p Ok x c2(1,2) n assms(5) by (auto simp: build_stack_def Let_def)
      then show ?thesis by auto
    next
      case False
      then have b2: "unat ?base \<le> unat ?stk" by (simp add: not_less word_le_nat_alt)
      have v: "view m2 = poke (view m1) ?stk ?words" using c2(3,4) False by simp
      have w: "str_at (view m2) ?stk ?words" unfolding v
        by (rule str_at_poke [OF p(3) b2]) (use room(1) lw s(2) assms(3) in auto)
      have "strings (view m2) (unat stk) (unat sz) us args" unfolding v
        by (rule strings_poke [OF s(3)]) (use room(1) lw assms(3) in auto)
      then have all: "list_all2 (\<lambda>u s. str_at (view m2) u (s @ [0]) \<and> 0 \<notin> set s) us args"
        unfolding strings_def by (rule list_all2_mono) simp
      have "args_collect (view m2) (args_iter \<lparr>argc = word_of_nat (length us), argv = ?stk\<rparr>) = Some args"
        using args_collect_all [of "view m2" "\<lparr>argc = word_of_nat (length us), argv = ?stk\<rparr>" us args 0] w all n assms(5)
        by (simp add: args_iter_def str_at_append)
      moreover have "?stk < sz" using room(1) s(2) by (simp add: word_less_nat_alt)
      moreover have "build_stack cto sz args m = Some (Ok (?stk, length us), m2)"
        using p Ok x c2(1,2) n assms(5) False by (auto simp: build_stack_def Let_def)
      ultimately show ?thesis using n room(2) c2(2) False by (simp add: not_less)
    qed
  qed
qed

end

text \<open>
  Property C26.  A program gets the arguments it was started with.  For fewer than \<open>MAXARG\<close> arguments without zero
  bytes, on a stack whose pages the program can read, building the stack in \<open>exec\<close> returns (either out of stack,
  or with an aligned stack pointer inside the stack), and iterating over \<open>Args\<close> with the count and the
  pointer that \<open>exec\<close> puts into \<open>a0\<close> and \<open>a1\<close> yields exactly these arguments, in order.
\<close>

theorem exec_arguments:
  assumes "user_inv B lv R r psz m" "(USERSTACK + 1) * PGSIZE \<le> sz" "unat sz < 2 ^ 63"
    "\<forall>x. sz - USERSTACK * PGSIZE \<le> x \<and> x < sz \<longrightarrow> peek m r psz x \<noteq> None"
    "length args < MAXARG" "\<forall>a \<in> set args. 0 \<notin> set a \<and> length a + 17 < unat (sz - USERSTACK * PGSIZE)"
  shows "\<exists>res m'. build_stack (copy_to B r psz) sz args m = Some (res, m') \<and> user_inv B lv R r psz m' \<and>
     (case res of Err e \<Rightarrow> e = ExecMemory
      | Ok (stk, n) \<Rightarrow> n = length args \<and> stk mod 16 = 0 \<and> sz - USERSTACK * PGSIZE \<le> stk \<and> stk < sz \<and>
          args_collect (peek m' r psz) (args_iter (args_from_stack (tf\<lparr>a0 := word_of_nat n, a1 := stk\<rparr>))) = Some args)"
proof -
  have "readable_from (peek m r psz) (unat (sz - USERSTACK * PGSIZE)) (unat sz)"
    using assms(4) by (simp add: readable_from_def word_le_nat_alt word_less_nat_alt del: not_None_eq)
  moreover have regs: "args_from_stack (tf\<lparr>a0 := word_of_nat n, a1 := stk\<rparr>) = \<lparr>argc = word_of_nat n, argv = stk\<rparr>" for n stk
    by (simp add: args_from_stack_def)
  ultimately show ?thesis unfolding regs by (intro um.build_stack_args [OF assms(1-3) _ assms(5,6)])
qed

theorem exec_arguments_witness:
  "\<exists>res m'. build_stack (copy_to list_buddy 0x80110000 0x8000) 0x8000 [[0x6C, 0x73], [0x2F]] example_users = Some (res, m') \<and>
     (case res of Err e \<Rightarrow> e = ExecMemory
      | Ok (stk, n) \<Rightarrow> n = 2 \<and> stk mod 16 = 0 \<and>
          args_collect (peek m' 0x80110000 0x8000) (args_iter (args_from_stack (trapframe_zeroed\<lparr>a0 := word_of_nat n, a1 := stk\<rparr>))) = Some [[0x6C, 0x73], [0x2F]])"
proof -
  have inv: "user_inv list_buddy list_live {0x80100000, 0x80110000} 0x80110000 0x8000 example_users"
    using list_buddy_ok users_space by (simp add: user_inv_def)
  have see: "\<forall>x. 0x8000 - USERSTACK * PGSIZE \<le> x \<and> x < 0x8000 \<longrightarrow> peek example_users 0x80110000 0x8000 x \<noteq> None"
  proof (intro allI impI)
    fix x :: usize
    assume "0x8000 - USERSTACK * PGSIZE \<le> x \<and> x < 0x8000"
    then have x: "unat x < 32768" by (simp add: word_less_nat_alt)
    then have "vpn x < 8" by (simp add: vpn_def less_mult_imp_div_less)
    then have "pte example_users 0x80110000 (vpn x) = 0" using users_ptes(2) [of "vpn x"] by (simp add: NPAGES_def)
    moreover have "x < MAXVA" "pg_round_down x < 0x8000" using x order_le_less_trans [OF pg_round_down_le, of x "0x8000"] by (auto simp: word_less_nat_alt)
    ultimately show "peek example_users 0x80110000 0x8000 x \<noteq> None" by (simp add: peek_def not_le)
  qed
  from exec_arguments [OF inv _ _ see, of "[[0x6C, 0x73], [0x2F]]" trapframe_zeroed] obtain res m' where
    "build_stack (copy_to list_buddy 0x80110000 0x8000) 0x8000 [[0x6C, 0x73], [0x2F]] example_users = Some (res, m')"
    "case res of Err e \<Rightarrow> e = ExecMemory
      | Ok (stk, n) \<Rightarrow> n = length [[0x6C, 0x73 :: u8], [0x2F]] \<and> stk mod 16 = 0 \<and> 0x8000 - USERSTACK * PGSIZE \<le> stk \<and> stk < 0x8000 \<and>
          args_collect (peek m' 0x80110000 0x8000) (args_iter (args_from_stack (trapframe_zeroed\<lparr>a0 := word_of_nat n, a1 := stk\<rparr>))) = Some [[0x6C, 0x73], [0x2F]]"
    by auto
  then show ?thesis by (intro exI [of _ res] exI [of _ m']) (simp split: result.splits prod.splits)
qed

end
