(* ===== verification/Spec2Isabelle.thy ===== *)
theory Spec2Isabelle
  imports Abi Riscv Procs Sleeplock Message Console Virtio Fs_Inode Traps Line_Refine Shell_Run Runs Args
begin

text \<open>
  Octopos: a verification library for the kernel (\<open>src/kernel/src\<close>), its system call interface and parts of
  the user programs.

  \<^bold>\<open>The program.\<close>  Octopos is a Unix-like kernel for RISC-V.  From the bottom: locks and per-CPU interrupt
  state, the physical page allocator with reference counts, page tables and user memory with lazy
  allocation and copy-on-write, processes and the stride scheduler with sleep and wakeup, pipes, the
  UART and console, the disk driver, the buffer cache, the write-ahead log, the file system, and the system
  calls.

  \<^bold>\<open>Conventions.\<close>  \<open>usize\<close> is \<open>64 word\<close> and the other integers have their width, so arithmetic wraps as it
  does in a release build.  A panic, an index out of bounds and a call that can never return are the value
  \<open>None\<close> of an option; \<open>Result\<close> is \<open>Ok\<close> or \<open>Err\<close>.  Global state is passed explicitly as a record.  A call that
  sleeps is split at the sleep: one function runs up to it, another continues after the wakeup, and
  the properties quantify over what happens in between.  Critical sections under a spin lock are
  atomic steps; that the lock gives exclusion is shown in \<open>Locks\<close>.  The page allocator underneath
  \<open>kalloc.rs\<close> (\<open>buddy_alloc\<close>) and the disk device are parameters with stated assumptions
  (\<open>buddy_ok\<close>, \<open>virtio_device\<close>); both are shown to be satisfiable.

  \<^bold>\<open>Theories.\<close>
  \<^item> \<open>Prelude\<close>: word types, results, option loops, slices of byte lists, little-endian numbers, and the locale
    \<open>slot_alloc\<close> of first-free-slot allocators.
  \<^item> \<open>Abi\<close> (\<open>error.rs\<close>, \<open>syscall.rs\<close>, \<open>user/src/syscall.rs\<close>): error codes, system call numbers, results in a register.
  \<^item> \<open>Riscv\<close> (\<open>riscv.rs\<close>, \<open>memlayout.rs\<close>, \<open>param.rs\<close>): page arithmetic, page table entries, the address space layout.
  \<^item> \<open>Locks\<close> (\<open>spinlock.rs\<close>, \<open>sync.rs\<close>, the CPU part of \<open>proc.rs\<close>): nesting of interrupt locks, mutual exclusion.
  \<^item> \<open>Sched\<close> and \<open>Procs\<close> (\<open>proc.rs\<close>): the process table, stride scheduling, sleep, wakeup, kill, exit, wait,
    fork; proportional share, progress, one CPU per process, the family tree as invariants of all steps.
  \<^item> \<open>Sleeplock\<close> (\<open>sleeplock.rs\<close>): exclusion and no lost wakeup.
  \<^item> \<open>Kalloc\<close> (\<open>kalloc.rs\<close>): reference-counted pages over the parameter allocator.
  \<^item> \<open>Vm\<close>, \<open>Vm_Tree\<close>, \<open>Vm_Space\<close>, \<open>Vm_Fault\<close>, \<open>Vm_Fork\<close> (\<open>vm.rs\<close>): three-level page tables as a tree, mapping as a
    finite map update, page faults, copies between kernel and user memory, copy-on-write fork.
  \<^item> \<open>Usermem\<close>: the contract of user memory as a locale, interpreted on \<open>copy_to\<close> and \<open>copy_from\<close>; its clients are
    \<open>Message\<close>, \<open>Pipe\<close> and \<open>Console\<close>.
  \<^item> \<open>Ring\<close>: ring buffers with wrapping counters and the queue contract \<open>fifo\<close>, interpreted for pipe and console.
  \<^item> \<open>Pipe\<close> (\<open>pipe.rs\<close>), \<open>Message\<close> (\<open>message.rs\<close>, \<open>sysproc.rs\<close>), \<open>Console\<close> (\<open>uart.rs\<close>, \<open>console.rs\<close>).
  \<^item> \<open>Virtio\<close> (\<open>virtio_disk.rs\<close>): descriptors, requests, completion, for several requests in flight.
  \<^item> \<open>Blockstore\<close>: the contract of the buffer cache as a locale; \<open>Bcache\<close> (\<open>buf.rs\<close>) provides it, \<open>Log\<close> uses it.
  \<^item> \<open>Log\<close> (\<open>log.rs\<close>): transactions, commit, recovery; atomicity under crashes; log space.
  \<^item> \<open>Txn\<close>: the contract of an open transaction as a locale, interpreted on the log over the cache.
  \<^item> \<open>Fs\<close> (\<open>fs.rs\<close>): superblock, block bitmap, inodes, file contents, directories, paths.  \<open>Fs_Blocks\<close> shows
    block allocation against the set of used blocks; \<open>Fs_Inode\<close> shows that an inode written back is read
    again unchanged and that the inode table holds each inode once.
  \<^item> \<open>Kernel\<close>: the record of the whole kernel, with \<open>ProcData\<close>, \<open>TrapFrame\<close> (\<open>proc.rs\<close>) and the file table (\<open>file.rs\<close>).
  \<^item> \<open>File\<close> (\<open>file.rs\<close>), \<open>Sysfile\<close> (\<open>sysfile.rs\<close>), \<open>Process\<close> (\<open>proc.rs\<close>), \<open>Exec\<close> (\<open>exec.rs\<close>), \<open>Syscalls\<close>
    (\<open>sysproc.rs\<close>, \<open>syscall.rs\<close>): every system call with its error paths, over the models of the lower
    theories, and the dispatch by number.
  \<^item> \<open>Traps\<close> (\<open>trap.rs\<close>, \<open>plic.rs\<close>, \<open>start.rs\<close>, \<open>lib.rs\<close>): traps from user space and from the kernel, device and
    timer interrupts, the return to user space, the start of the harts.
  \<^item> \<open>Frame\<close>: what each operation leaves alone.  On it rest \<open>Descriptors\<close> (reference counts of open files are
    the numbers of descriptors, through every system call), \<open>User_Context\<close> (a trap returns to the program
    with its registers) and \<open>Runs\<close> (steps of the whole machine from the static initialisers on).
  \<^item> \<open>Line_Editor\<close> (\<open>user/src/line.rs\<close>) and \<open>Line_Refine\<close>: the line editor of user space and its refinement
    of an editor on two lists.
  \<^item> \<open>Shell\<close> and \<open>Shell_Run\<close> (\<open>user/bin/sh.rs\<close>): tokenizer, parser, commands; a line of the grammar
    starts the programs of its command tree with the descriptors the tree says.
  \<^item> \<open>Args\<close> (\<open>user/src/args.rs\<close>): a program reads back the arguments that \<open>exec\<close> put on its stack.

  \<^bold>\<open>How the parts interact.\<close>  A trap (\<open>usertrap\<close>) enters the dispatch (\<open>syscall\<close>), which calls the operations on
  files and processes; these change the components of the record \<open>Kernel\<close>, user memory through \<open>copy_to\<close> and
  \<open>copy_from\<close>, the disk through transactions.  A call that waits leaves a value that says for what, and a
  later step of \<open>Runs\<close> resumes it.  In \<open>Runs\<close> a system call up to its next wait is one step, so
  interleavings inside a call are not covered there; the components that are used concurrently
  (\<open>Locks\<close>, \<open>Sleeplock\<close>, \<open>Sched\<close>, \<open>Pipe\<close>, \<open>Bcache\<close>, \<open>Log\<close>, \<open>Virtio\<close>) have step-level properties of their own.

  \<^bold>\<open>Loops.\<close>  Loops over tables and buffers are structural recursion or \<open>function\<close> with a measure.  Loops the code
  does not bound are \<open>partial_function\<close>, with \<open>None\<close> for a loop that goes on forever: the scan of the cache's list
  (\<open>lru_scan\<close>), writing to a file whose inode takes no bytes (\<open>write_loop\<close>), following parents to the root
  (\<open>make_path_loop\<close>), the search for the end of a string (\<open>cstr_len\<close>).  The one fuel is that of \<open>free_chain\<close> in \<open>Virtio\<close>:
  a freed descriptor has no successor, so the walk visits at most \<open>NUM + 1\<close> descriptors, which is the fuel it gets.

  \<^bold>\<open>Not modelled.\<close>  The assembly of \<open>entry.rs\<close>, \<open>swtch.rs\<close>, \<open>kernelvec.rs\<close> and \<open>trampoline.rs\<close>, whose effect on
  registers is where the models of \<open>start\<close>, \<open>sched\<close> and the trap handlers begin and end; formatting by \<open>core::fmt\<close>
  (\<open>printf.rs\<close> apart from its state and the characters it sends, \<open>user/src/io.rs\<close>); UTF-8 checks of \<open>args.rs\<close>; the small user
  programs and the test programs, which only issue system calls and print; the host program \<open>mkfs\<close>, whose
  image is an arbitrary disk for the kernel; the internals of \<open>buddy_alloc\<close>, which is not part of the
  repository, and of the devices.
\<close>

end
